(* ===== verification/Prelude.thy ===== *)
theory Prelude
  imports Main "HOL-Library.Word" "HOL-Library.Sublist"
begin

text \<open>
  Shared vocabulary of the development: the Go types the components use, the small part of Go's
  standard library they call, and the generic lemmas on lists and options the component proofs
  rest on.

  A Go string is a sequence of bytes, which is what \<^typ>\<open>string\<close> is: its
  characters are 8-bit values. A \<open>time.Time\<close> is the number of nanoseconds since Go's zero
  time (1 January of year 1, UTC), so the zero value is 0 and \<open>IsZero\<close> is a comparison
  with 0; a \<open>time.Duration\<close> is a signed number of nanoseconds. Go's \<open>int\<close> is
  \<^typ>\<open>int\<close> or, for lengths and counters the code never makes negative, \<^typ>\<open>nat\<close>;
  a \<open>uint64\<close> that is only compared and incremented is a \<^typ>\<open>nat\<close> below
  \<open>2 ^ 64\<close> with the wrap-around written out, and one used as a bit pattern is a
  \<open>64 word\<close>.
\<close>

named_theorems ring_simps \<open>facts about lists that deletions and evictions leave behind\<close>
named_theorems go_simps \<open>evaluation of the Go standard-library functions used by the code\<close>

type_synonym gotime = int
type_synonym duration = int
type_synonym uint64 = "64 word"

abbreviation second :: duration where "second \<equiv> 1000000000"
abbreviation minute :: duration where "minute \<equiv> 60 * second"

definition IsZero :: "gotime \<Rightarrow> bool" where
  "IsZero t \<longleftrightarrow> t = 0"

subsection \<open>Go strings\<close>

definition byte_of :: "char \<Rightarrow> nat" where
  "byte_of c = of_char c"

text \<open>\<open>utf8.RuneStart\<close>: a byte that is not a UTF-8 continuation byte.\<close>

definition RuneStart :: "char \<Rightarrow> bool" where
  "RuneStart c \<longleftrightarrow> \<not> (128 \<le> byte_of c \<and> byte_of c < 192)"

definition is_ascii :: "string \<Rightarrow> bool" where
  "is_ascii s \<longleftrightarrow> list_all (\<lambda>c. byte_of c < 128) s"

text \<open>\<open>strings.Join (parts, \"\")\<close>.\<close>

definition join :: "string list \<Rightarrow> string" where
  "join parts = concat parts"

lemma join_simps [simp, go_simps]:
  "join [] = []" "join (p # ps) = p @ join ps" "join (ps @ qs) = join ps @ join qs"
  by (simp_all add: join_def)

subsection \<open>Lists\<close>

text \<open>
  The loop \<open>for i, v := range xs { if v == x { xs = append(xs[:i], xs[i+1:]...); break } }\<close>
  removes the first occurrence: the library's \<^const>\<open>remove1\<close>.
\<close>

lemma remove1_filter_distinct [ring_simps]:
  "distinct xs \<Longrightarrow> remove1 x xs = filter (\<lambda>y. y \<noteq> x) xs"
  by (simp add: distinct_remove1_removeAll removeAll_filter_not_eq) (metis)

lemma set_remove1_distinct: "distinct xs \<Longrightarrow> set (remove1 x xs) = set xs - {x}"
  by (simp add: set_remove1_eq)

lemma sum_list_filter_split:
  fixes f :: "'a \<Rightarrow> nat"
  shows "sum_list (map f xs) = sum_list (map f (filter P xs)) + sum_list (map f (filter (\<lambda>x. \<not> P x) xs))"
  by (induction xs) auto

lemma sorted_wrt_filterI [ring_simps]: "sorted_wrt R xs \<Longrightarrow> sorted_wrt R (filter P xs)"
  by (induction xs) auto

lemma sorted_wrt_map_filter [ring_simps]:
  "sorted_wrt R (map f xs) \<Longrightarrow> sorted_wrt R (map f (filter P xs))"
  by (induction xs) auto

lemma take_eq_append_drop_prefix: "prefix (take n xs) xs"
  by (simp add: take_is_prefix)

subsection \<open>Stream transducers\<close>

text \<open>
  A component that turns a stream of inputs into a stream of outputs, one step per input:
  everything it puts out, in order, and its last state.
\<close>

fun run_stream :: "('s \<Rightarrow> 'e \<Rightarrow> 'x list \<times> 's) \<Rightarrow> 's \<Rightarrow> 'e list \<Rightarrow> 'x list \<times> 's" where
  "run_stream step s [] = ([], s)"
| "run_stream step s (e # es) =
    (case step s e of (out, s1) \<Rightarrow>
     case run_stream step s1 es of (rest, s2) \<Rightarrow> (out @ rest, s2))"

text \<open>
  The contract of a component that buffers but never loses or reorders: what has been observed
  at the output, followed by what is still held, is what was held followed by what came in.
\<close>

locale conserving_stream =
  fixes step :: "'s \<Rightarrow> 'e \<Rightarrow> 'x list \<times> 's"
    and ok :: "'s \<Rightarrow> bool"
    and seen :: "'x list \<Rightarrow> 'y list"
    and given :: "'e \<Rightarrow> 'y list"
    and held :: "'s \<Rightarrow> 'y list"
  assumes seen_Nil: "seen [] = []"
    and seen_append: "seen (xs @ ys) = seen xs @ seen ys"
    and step_ok: "ok s \<Longrightarrow> ok (snd (step s e))"
    and step_conserves: "ok s \<Longrightarrow> seen (fst (step s e)) @ held (snd (step s e)) = held s @ given e"
begin

lemma run_ok: "ok s \<Longrightarrow> ok (snd (run_stream step s es))"
  by (induction es arbitrary: s) (auto simp: split_beta step_ok)

lemma run_conserves:
  "ok s \<Longrightarrow> seen (fst (run_stream step s es)) @ held (snd (run_stream step s es)) =
    held s @ concat (map given es)"
proof (induction es arbitrary: s)
  case Nil
  then show ?case by (simp add: seen_Nil)
next
  case (Cons e es)
  then have "seen (fst (run_stream step (snd (step s e)) es)) @
      held (snd (run_stream step (snd (step s e)) es)) =
    held (snd (step s e)) @ concat (map given es)"
    using step_ok by blast
  with step_conserves [OF Cons.prems, of e] show ?case
    by (simp add: split_beta seen_append)
qed

lemma run_flushed:
  assumes "ok s" "held s = []" "held (snd (run_stream step s es)) = []"
  shows "seen (fst (run_stream step s es)) = concat (map given es)"
  using run_conserves [OF assms(1), of es] assms by simp

end

end
