(* ===== verification/Event.thy ===== *)
theory Event
  imports Prelude
begin

text \<open>
  The daemon's event model, \<open>internal/event\<close>: the event types, the delivery predicates the
  transports share (\<open>IsControl\<close>, \<open>IsInPlaceUpdate\<close>,
  \<open>IsTerminalToolStatus\<close>), the structs an event carries, and the retention class and the
  byte estimate of \<open>retention.go\<close> that the history ring evicts by. A Go pointer field is an
  \<^typ>\<open>'a option\<close>; a \<open>float64\<close>, which no operation here reads, is its bit
  pattern.
\<close>

subsection \<open>Event types\<close>

text \<open>The declared constants of \<open>event.Type\<close>, and any other string read from a file.\<close>

datatype event_type =
    TypeSessionStatus | TypeUserMessage | TypeAssistantChunk | TypeThoughtChunk
  | TypeToolCall | TypeToolUpdate | TypePermission | TypePermissionResolved
  | TypeQuestion | TypeQuestionResolved | TypeTurnComplete | TypeError
  | TypeAvailableCommands | TypePlan | TypeIdentifiedPlan | TypeNotice
  | TypeAgentNotice | TypeEngineResult | TypeCompaction | TypeUsage
  | TypeMode | TypeSessionConfig | TypeSessionCapabilities | TypeSessionTitle
  | TypeDiagnosticsChanged | TypeArtifact | TypeTranscriptRemove | TypeRemoteCommands
  | TypeApprovalSummary | TypeSubagents | TypeCollaboration | TypeGoal
  | TypeCodexProgress | TypeCodexWarning | TypeCodexModelReroute
  | TypeCodexModelVerification | TypeCodexTerminalInteraction | TypeCodexUnsupportedItem
  | TypeUndeclared string

fun type_string :: "event_type \<Rightarrow> string" where
  "type_string TypeSessionStatus = ''session_status''"
| "type_string TypeUserMessage = ''user_message''"
| "type_string TypeAssistantChunk = ''assistant_message_chunk''"
| "type_string TypeThoughtChunk = ''thought_chunk''"
| "type_string TypeToolCall = ''tool_call''"
| "type_string TypeToolUpdate = ''tool_call_update''"
| "type_string TypePermission = ''permission_request''"
| "type_string TypePermissionResolved = ''permission_resolved''"
| "type_string TypeQuestion = ''question_request''"
| "type_string TypeQuestionResolved = ''question_resolved''"
| "type_string TypeTurnComplete = ''turn_complete''"
| "type_string TypeError = ''error''"
| "type_string TypeAvailableCommands = ''available_commands''"
| "type_string TypePlan = ''plan''"
| "type_string TypeIdentifiedPlan = ''identified_plan''"
| "type_string TypeNotice = ''notice''"
| "type_string TypeAgentNotice = ''agent_notice''"
| "type_string TypeEngineResult = ''engine_result''"
| "type_string TypeCompaction = ''compaction''"
| "type_string TypeUsage = ''usage_update''"
| "type_string TypeMode = ''session_mode''"
| "type_string TypeSessionConfig = ''session_config''"
| "type_string TypeSessionCapabilities = ''session_capabilities''"
| "type_string TypeSessionTitle = ''session_title''"
| "type_string TypeDiagnosticsChanged = ''diagnostics_changed''"
| "type_string TypeArtifact = ''artifact''"
| "type_string TypeTranscriptRemove = ''transcript_remove''"
| "type_string TypeRemoteCommands = ''remote_commands''"
| "type_string TypeApprovalSummary = ''approval_summary''"
| "type_string TypeSubagents = ''subagents''"
| "type_string TypeCollaboration = ''collaboration_mode''"
| "type_string TypeGoal = ''session_goal''"
| "type_string TypeCodexProgress = ''codex_progress''"
| "type_string TypeCodexWarning = ''codex_warning''"
| "type_string TypeCodexModelReroute = ''codex_model_reroute''"
| "type_string TypeCodexModelVerification = ''codex_model_verification''"
| "type_string TypeCodexTerminalInteraction = ''codex_terminal_interaction''"
| "type_string TypeCodexUnsupportedItem = ''codex_unsupported_item''"
| "type_string (TypeUndeclared s) = s"

definition Types :: "event_type list" where
  "Types =
    [TypeSessionStatus, TypeUserMessage, TypeAssistantChunk, TypeThoughtChunk, TypeToolCall,
     TypeToolUpdate, TypePermission, TypePermissionResolved, TypeQuestion, TypeQuestionResolved,
     TypeTurnComplete, TypeError, TypeAvailableCommands, TypePlan, TypeIdentifiedPlan, TypeNotice,
     TypeAgentNotice, TypeEngineResult, TypeCompaction, TypeUsage, TypeMode, TypeSessionConfig,
     TypeSessionCapabilities, TypeSessionTitle, TypeArtifact, TypeDiagnosticsChanged,
     TypeTranscriptRemove, TypeRemoteCommands, TypeApprovalSummary, TypeSubagents,
     TypeCollaboration, TypeGoal, TypeCodexProgress, TypeCodexWarning, TypeCodexModelReroute,
     TypeCodexModelVerification, TypeCodexTerminalInteraction, TypeCodexUnsupportedItem]"

definition IsControl :: "event_type \<Rightarrow> bool" where
  "IsControl t \<longleftrightarrow> t \<in>
    {TypeSessionStatus, TypePermission, TypePermissionResolved, TypeQuestion,
     TypeQuestionResolved, TypeTurnComplete, TypeError, TypeNotice, TypeAgentNotice,
     TypeEngineResult, TypeCompaction, TypeToolCall, TypeToolUpdate, TypeUserMessage, TypeMode,
     TypeSessionConfig, TypeSessionCapabilities, TypeRemoteCommands, TypePlan,
     TypeIdentifiedPlan, TypeArtifact, TypeTranscriptRemove, TypeSessionTitle,
     TypeApprovalSummary, TypeSubagents, TypeCollaboration, TypeGoal, TypeCodexProgress,
     TypeCodexWarning, TypeCodexModelReroute, TypeCodexModelVerification,
     TypeCodexTerminalInteraction, TypeCodexUnsupportedItem}"

subsection \<open>Structs\<close>

record PermissionOption =
  po_OptionID :: string
  po_Name :: string
  po_Kind :: string
  po_Description :: string

record QuestionItem =
  qi_ID :: string
  qi_Header :: string
  qi_Text :: string
  qi_Multiple :: bool
  qi_Custom :: bool
  qi_Secret :: bool
  qi_Options :: "PermissionOption list"
  qi_Kind :: string
  qi_Optional :: bool
  qi_Default :: "string list"
  qi_Min :: "uint64 option"
  qi_Max :: "uint64 option"
  qi_MinLength :: "int option"
  qi_MaxLength :: "int option"
  qi_MinItems :: "int option"
  qi_MaxItems :: "int option"
  qi_Format :: string
  qi_Pattern :: string

record AvailableCommand =
  ac_Name :: string
  ac_Description :: string
  ac_Hint :: string

record RemoteCommand =
  rc_Name :: string
  rc_Hint :: string
  rc_Description :: string
  rc_Available :: bool
  rc_Reason :: string

record PlanEntry =
  pe_Content :: string
  pe_Status :: string
  pe_Priority :: string

record ToolDiff =
  td_Path :: string
  td_OldText :: string
  td_NewText :: string

record ApprovalItem =
  ai_ToolName :: string
  ai_Detail :: string
  ai_Time :: gotime

record SubagentInfo =
  sa_ID :: string
  sa_Name :: string
  sa_Task :: string
  sa_Status :: string

record SessionCost =
  sc_Amount :: uint64
  sc_Currency :: string

record Usage =
  us_Used :: int
  us_Size :: int
  us_Input :: int
  us_Output :: int
  us_Reasoning :: int
  us_CacheRead :: int
  us_CacheWrite :: int
  us_CostUSD :: "uint64 option"
  us_SessionCost :: "SessionCost option"

record Artifact =
  ar_Filename :: string
  ar_MIME :: string
  ar_Bytes :: int
  ar_URL :: string
  ar_Data :: string
  ar_Truncated :: bool

record CollaborationMode =
  cm_ID :: string
  cm_Name :: string
  cm_Description :: string

record SessionMode =
  sm_ID :: string
  sm_Name :: string
  sm_Description :: string
  sm_Dangerous :: bool

record ConfigOptionValue =
  cv_ID :: string
  cv_Name :: string
  cv_Group :: string

record ConfigOption =
  co_ID :: string
  co_Name :: string
  co_Description :: string
  co_Kind :: string
  co_Category :: string
  co_CurrentValue :: string
  co_BoolValue :: bool
  co_Values :: "ConfigOptionValue list"

record AttachmentInfo =
  at_Kind :: string
  at_MimeType :: string

record Capabilities =
  ca_Image :: bool
  ca_Audio :: bool
  ca_LoadSession :: bool
  ca_EmbeddedContext :: bool
  ca_ListSessions :: bool
  ca_CloseSession :: bool
  ca_MCPHTTP :: bool
  ca_MCPSSE :: bool
  ca_MCPACP :: bool
  ca_WorkspaceRead :: bool
  ca_SkillRefresh :: bool
  ca_ShareState :: bool
  ca_Share :: bool
  ca_Shell :: bool

record CodexPayload =
  cx_Key :: string
  cx_Kind :: string
  cx_Status :: string
  cx_Title :: string
  cx_Text :: string
  cx_FromModel :: string
  cx_ToModel :: string
  cx_Reason :: string
  cx_Values :: "string list"
  cx_Resolved :: bool

record Goal =
  go_Objective :: string
  go_Status :: string
  go_TokenBudget :: int
  go_TokenUsage :: int

text \<open>
  The event itself, field by field in the order of the struct. \<open>Seq\<close>,
  \<open>RemoveFromSeq\<close> and \<open>RemoveToSeq\<close> are \<open>uint64\<close> values below
  \<open>2 ^ 64\<close>.
\<close>

record event =
  ev_Type :: event_type
  ev_SessionID :: string
  ev_Timestamp :: gotime
  ev_Seq :: nat
  ev_Replay :: bool
  ev_Status :: string
  ev_Text :: string
  ev_ToolID :: string
  ev_ToolName :: string
  ev_ToolKind :: string
  ev_Truncated :: bool
  ev_Diffs :: "ToolDiff list"
  ev_Error :: string
  ev_Title :: string
  ev_TitleGenerated :: bool
  ev_NoticeSeverity :: string
  ev_NoticeTitle :: string
  ev_NoticeDescription :: string
  ev_ResultMethod :: string
  ev_CompactionID :: string
  ev_CompactionStatus :: string
  ev_CompactionSummary :: string
  ev_CompactionError :: string
  ev_CompactionTruncated :: bool
  ev_TimedOut :: bool
  ev_ErrorKind :: string
  ev_RetryAt :: gotime
  ev_SteerMessage :: string
  ev_PermissionID :: string
  ev_Options :: "PermissionOption list"
  ev_DeviceID :: string
  ev_OptionID :: string
  ev_QuestionID :: string
  ev_Questions :: "QuestionItem list"
  ev_AllowDecline :: bool
  ev_Commands :: "AvailableCommand list"
  ev_Entries :: "PlanEntry list"
  ev_PlanID :: string
  ev_PlanKind :: string
  ev_PlanContent :: string
  ev_PlanTruncated :: bool
  ev_PlanURI :: string
  ev_PlanRemoved :: bool
  ev_ApprovalGroupID :: string
  ev_Approvals :: "ApprovalItem list"
  ev_Subagents :: "SubagentInfo list"
  ev_AgentSessionID :: string
  ev_StopReason :: string
  ev_Usage :: "Usage option"
  ev_Modes :: "SessionMode list"
  ev_CurrentModeID :: string
  ev_ApprovalsReviewer :: string
  ev_CollaborationModes :: "CollaborationMode list"
  ev_CurrentCollaborationModeID :: string
  ev_ConfigOptions :: "ConfigOption list"
  ev_Capabilities :: "Capabilities option"
  ev_Attachments :: "AttachmentInfo list"
  ev_RemoteCommands :: "RemoteCommand list"
  ev_Goal :: "Goal option"
  ev_Artifact :: "Artifact option"
  ev_Codex :: "CodexPayload option"
  ev_NativeMessageID :: string
  ev_NativePartID :: string
  ev_RemoveTurns :: int
  ev_RemoveFromSeq :: nat
  ev_RemoveToSeq :: nat
  ev_Replace :: bool

text \<open>\<open>event.Event{}\<close>: every field at its zero value.\<close>

definition zero_event :: event where
  "zero_event = \<lparr>
    ev_Type = TypeUndeclared [], ev_SessionID = [], ev_Timestamp = 0, ev_Seq = 0,
    ev_Replay = False, ev_Status = [], ev_Text = [], ev_ToolID = [], ev_ToolName = [],
    ev_ToolKind = [], ev_Truncated = False, ev_Diffs = [], ev_Error = [], ev_Title = [],
    ev_TitleGenerated = False, ev_NoticeSeverity = [], ev_NoticeTitle = [],
    ev_NoticeDescription = [], ev_ResultMethod = [], ev_CompactionID = [],
    ev_CompactionStatus = [], ev_CompactionSummary = [], ev_CompactionError = [],
    ev_CompactionTruncated = False, ev_TimedOut = False, ev_ErrorKind = [], ev_RetryAt = 0,
    ev_SteerMessage = [], ev_PermissionID = [], ev_Options = [], ev_DeviceID = [],
    ev_OptionID = [], ev_QuestionID = [], ev_Questions = [], ev_AllowDecline = False,
    ev_Commands = [], ev_Entries = [], ev_PlanID = [], ev_PlanKind = [], ev_PlanContent = [],
    ev_PlanTruncated = False, ev_PlanURI = [], ev_PlanRemoved = False, ev_ApprovalGroupID = [],
    ev_Approvals = [], ev_Subagents = [], ev_AgentSessionID = [], ev_StopReason = [],
    ev_Usage = None, ev_Modes = [], ev_CurrentModeID = [], ev_ApprovalsReviewer = [],
    ev_CollaborationModes = [], ev_CurrentCollaborationModeID = [], ev_ConfigOptions = [],
    ev_Capabilities = None, ev_Attachments = [], ev_RemoteCommands = [], ev_Goal = None,
    ev_Artifact = None, ev_Codex = None, ev_NativeMessageID = [], ev_NativePartID = [],
    ev_RemoveTurns = 0, ev_RemoveFromSeq = 0, ev_RemoveToSeq = 0, ev_Replace = False\<rparr>"

subsection \<open>Delivery predicates\<close>

definition IsInPlaceUpdate :: "event \<Rightarrow> bool" where
  "IsInPlaceUpdate ev \<longleftrightarrow> ev_Type ev = TypeToolUpdate \<and> ev_ToolID ev \<noteq> []"

definition IsTerminalToolStatus :: "string \<Rightarrow> bool" where
  "IsTerminalToolStatus s \<longleftrightarrow> s = ''completed'' \<or> s = ''failed''"

end
