(* ===== verification/AtomicWrite.thy ===== *)
theory AtomicWrite
  imports Prelude
begin

text \<open>
  Replacing a file: \<open>internal/fsutil/atomic.go\<close>, which every store of the daemon writes
  through.

  The file system is a map from paths to nodes. What each system call does is an outcome of the
  run (\<open>write_run\<close>), so all failures of \<open>fileOps\<close> are covered. \<open>writeFileAtomic\<close>
  returns its error and the list of file systems it went through, the last one being the one it
  leaves: a crash leaves one of them. \<open>path\<close> is the path after \<open>filepath.Clean\<close>.

  The three outcomes a caller can meet are the type \<open>write_result\<close>: the write failed and
  changed nothing, it failed after the rename (the directory could not be synced), or it succeeded.
  The stores are modelled over that type.
\<close>

subsection \<open>What a caller can meet\<close>

datatype write_result = NotWritten | Unsynced | Written

text \<open>The error a caller sees, and whether the new contents are there.\<close>

definition ok_write :: "write_result \<Rightarrow> bool" where "ok_write r \<longleftrightarrow> r = Written"
definition landed :: "write_result \<Rightarrow> bool" where "landed r \<longleftrightarrow> r \<noteq> NotWritten"

text \<open>What is there after a write.\<close>

definition after_write :: "write_result \<Rightarrow> 'a \<Rightarrow> 'a \<Rightarrow> 'a" where
  "after_write r old new = (if landed r then new else old)"

lemma write_result_simps [simp]:
  "ok_write Written" "\<not> ok_write NotWritten" "\<not> ok_write Unsynced"
  "landed Written" "\<not> landed NotWritten" "landed Unsynced"
  by (simp_all add: ok_write_def landed_def)

lemma after_write_simps [simp]:
  "after_write Written old new = new" "after_write NotWritten old new = old" "after_write Unsynced old new = new"
  "after_write r x x = x"
  by (simp_all add: after_write_def)

lemma ok_landed: "ok_write r \<Longrightarrow> landed r"
  by (simp add: ok_write_def landed_def)

lemma synced_landed: "r \<noteq> Unsynced \<Longrightarrow> landed r \<longleftrightarrow> ok_write r"
  by (cases r) simp_all

text \<open>
  The contract of a store written through \<open>WriteFileAtomic\<close>: a write leaves the old or the
  new contents, and when it reports success, the new ones.
\<close>

locale atomic_store =
  fixes put :: "'o \<Rightarrow> 'v \<Rightarrow> 's \<Rightarrow> bool \<times> 's"
    and contents :: "'s \<Rightarrow> 'v option"
    and ready :: "'o \<Rightarrow> 's \<Rightarrow> bool"
  assumes put_old_or_new: "ready x s \<Longrightarrow> contents (snd (put x v s)) \<in> {contents s, Some v}"
    and put_ok: "ready x s \<Longrightarrow> fst (put x v s) \<Longrightarrow> contents (snd (put x v s)) = Some v"
begin

fun puts :: "('o \<times> 'v) list \<Rightarrow> 's \<Rightarrow> bool \<times> 's" where
  "puts [] s = (True, s)"
| "puts ((x, v) # ws) s = (case put x v s of (b, s1) \<Rightarrow> case puts ws s1 of (c, s2) \<Rightarrow> (if ws = [] then b else c, s2))"

fun all_ready :: "('o \<times> 'v) list \<Rightarrow> 's \<Rightarrow> bool" where
  "all_ready [] s \<longleftrightarrow> True"
| "all_ready ((x, v) # ws) s \<longleftrightarrow> ready x s \<and> all_ready ws (snd (put x v s))"

text \<open>After any writes, failed ones included, the contents are the first ones or some written ones;
  after a last write that succeeded, they are its own.\<close>

lemma puts_contents:
  "all_ready ws s \<Longrightarrow> contents (snd (puts ws s)) \<in> insert (contents s) (Some ` snd ` set ws)"
proof (induction ws s rule: puts.induct)
  case (2 x v ws s)
  let ?s1 = "snd (put x v s)"
  have "contents ?s1 \<in> {contents s, Some v}" using 2(2) put_old_or_new by simp
  moreover have "contents (snd (puts ws ?s1)) \<in> insert (contents ?s1) (Some ` snd ` set ws)"
    using 2 by (metis all_ready.simps(2) surjective_pairing)
  ultimately show ?case by (auto simp: split_beta)
qed simp

lemma puts_last_ok:
  "all_ready (ws @ [(x, v)]) s \<Longrightarrow> fst (puts (ws @ [(x, v)]) s) \<Longrightarrow> contents (snd (puts (ws @ [(x, v)]) s)) = Some v"
proof (induction ws arbitrary: s)
  case Nil
  then show ?case using put_ok by (simp add: split_beta)
next
  case (Cons w ws)
  obtain y u where w: "w = (y, u)" by fastforce
  have "all_ready (ws @ [(x, v)]) (snd (put y u s))" using Cons.prems(1) by (simp add: w)
  moreover have "fst (puts (ws @ [(x, v)]) (snd (put y u s)))" using Cons.prems(2) by (simp add: w split_beta)
  ultimately show ?case using Cons.IH by (simp add: w split_beta)
qed

end

subsection \<open>writeFileAtomic\<close>

datatype node = Regular string | Symlink

type_synonym file_system = "string \<rightharpoonup> node"

datatype fs_error = ErrEmptyPath | ErrSymlink | ErrLstat | ErrCreateTemp | ErrChmodTemp | ErrWriteTemp
  | ErrSyncTemp | ErrCloseTemp | ErrRename | ErrSyncDir

datatype rename_error = Held | Refused

record AtomicOptions =
  SyncFile :: bool
  SyncDir :: bool

text \<open>
  The outcomes of the calls of \<open>fileOps\<close> in one run: the temporary file's name, how many
  bytes were written before an error, the result of each rename attempt, and whether the deferred
  removal of the temporary file works. \<open>retryable\<close> is \<open>retryableRenameErr\<close>: constantly
  false except on Windows.
\<close>

record write_run =
  wr_lstat :: bool
  wr_temp :: "string option"
  wr_chmod :: bool
  wr_bytes :: "nat option"
  wr_sync :: bool
  wr_close :: bool
  wr_rename :: "nat \<Rightarrow> rename_error option"
  wr_syncDir :: bool
  wr_remove :: bool

definition renameBackoffs :: "duration list" where
  "renameBackoffs = [10000000, 20000000, 40000000, 80000000]"

text \<open>The loop of \<open>renameWithRetry\<close>: the last attempt's error and the sleeps.\<close>

fun rename_loop :: "(rename_error \<Rightarrow> bool) \<Rightarrow> (nat \<Rightarrow> rename_error option) \<Rightarrow> nat \<Rightarrow> duration list \<Rightarrow> rename_error option \<times> duration list" where
  "rename_loop retryable rename n delays =
    (case rename n of
       None \<Rightarrow> (None, [])
     | Some e \<Rightarrow> (case delays of
         [] \<Rightarrow> (Some e, [])
       | d # ds \<Rightarrow> if \<not> retryable e then (Some e, [])
                   else case rename_loop retryable rename (Suc n) ds of (r, slept) \<Rightarrow> (r, d # slept)))"

declare rename_loop.simps [simp del]

definition renameWithRetry :: "(rename_error \<Rightarrow> bool) \<Rightarrow> (nat \<Rightarrow> rename_error option) \<Rightarrow> rename_error option \<times> duration list" where
  "renameWithRetry retryable rename = rename_loop retryable rename 0 renameBackoffs"

text \<open>The deferred removal of the temporary file.\<close>

definition cleanup :: "write_run \<Rightarrow> string \<Rightarrow> fs_error \<Rightarrow> file_system list \<Rightarrow> fs_error option \<times> file_system list" where
  "cleanup run tmp err trace =
    (Some err, trace @ [if wr_remove run then (last trace)(tmp := None) else last trace])"

definition writeFileAtomic ::
  "(rename_error \<Rightarrow> bool) \<Rightarrow> write_run \<Rightarrow> AtomicOptions \<Rightarrow> string \<Rightarrow> string \<Rightarrow> file_system \<Rightarrow> fs_error option \<times> file_system list" where
  "writeFileAtomic retryable run opts path data fs =
    (if path = [] then (Some ErrEmptyPath, [fs])
     else if \<not> wr_lstat run then (Some ErrLstat, [fs])
     else if fs path = Some Symlink then (Some ErrSymlink, [fs])
     else case wr_temp run of
       None \<Rightarrow> (Some ErrCreateTemp, [fs])
     | Some tmp \<Rightarrow>
         let fs0 = fs(tmp \<mapsto> Regular [])
         in if \<not> wr_chmod run then cleanup run tmp ErrChmodTemp [fs, fs0]
            else (case wr_bytes run of
              Some n \<Rightarrow> cleanup run tmp ErrWriteTemp [fs, fs0, fs(tmp \<mapsto> Regular (take n data))]
            | None \<Rightarrow>
                let fs1 = fs(tmp \<mapsto> Regular data); tr = [fs, fs0, fs1]
                in if SyncFile opts \<and> \<not> wr_sync run then cleanup run tmp ErrSyncTemp tr
                   else if \<not> wr_close run then cleanup run tmp ErrCloseTemp tr
                   else if fst (renameWithRetry retryable (wr_rename run)) \<noteq> None then cleanup run tmp ErrRename tr
                   else (if SyncDir opts \<and> \<not> wr_syncDir run then Some ErrSyncDir else None,
                         tr @ [(fs1(tmp := None))(path \<mapsto> Regular data)])))"

definition result_of :: "fs_error option \<Rightarrow> write_result" where
  "result_of r = (case r of None \<Rightarrow> Written | Some ErrSyncDir \<Rightarrow> Unsynced | Some _ \<Rightarrow> NotWritten)"

text \<open>\<open>os.CreateTemp\<close> creates a file that was not there, next to the target.\<close>

definition fresh_temp :: "write_run \<Rightarrow> string \<Rightarrow> file_system \<Rightarrow> bool" where
  "fresh_temp run path fs \<longleftrightarrow> (case wr_temp run of None \<Rightarrow> True | Some tmp \<Rightarrow> tmp \<noteq> path \<and> fs tmp = None)"

lemma rename_loop_bound: "length (snd (rename_loop retryable rename n delays)) \<le> length delays"
proof (induction delays arbitrary: n)
  case Nil
  then show ?case by (simp add: rename_loop.simps split: option.split)
next
  case (Cons d ds)
  from Cons [of "Suc n"] show ?case by (subst rename_loop.simps) (auto split: option.split prod.split)
qed

lemma writeFileAtomic_cases:
  assumes "fresh_temp run path fs"
  obtains (unchanged) e where "writeFileAtomic retryable run opts path data fs = (Some e, [fs])" "e \<noteq> ErrSyncDir"
    | (failed) e tmp trace b where "wr_temp run = Some tmp" "tmp \<noteq> path" "fs tmp = None" "e \<noteq> ErrSyncDir"
        "writeFileAtomic retryable run opts path data fs = cleanup run tmp e (fs # trace)"
        "\<And>f. f \<in> set trace \<Longrightarrow> \<exists>b. f = fs(tmp \<mapsto> Regular b)" "trace \<noteq> []"
        "last trace = fs(tmp \<mapsto> Regular b)"
    | (renamed) r tmp where "wr_temp run = Some tmp" "tmp \<noteq> path" "fs tmp = None" "r \<in> {None, Some ErrSyncDir}"
        "writeFileAtomic retryable run opts path data fs =
          (r, [fs, fs(tmp \<mapsto> Regular []), fs(tmp \<mapsto> Regular data), fs(path \<mapsto> Regular data)])"
proof (cases "path = [] \<or> \<not> wr_lstat run \<or> fs path = Some Symlink \<or> wr_temp run = None")
  case True
  then have "\<exists>e. writeFileAtomic retryable run opts path data fs = (Some e, [fs]) \<and> e \<noteq> ErrSyncDir"
    by (cases "path = []"; cases "wr_lstat run"; cases "fs path = Some Symlink"; simp add: writeFileAtomic_def)
  then show thesis using unchanged by blast
next
  case False
  then obtain tmp where t: "wr_temp run = Some tmp" by auto
  then have tmp: "tmp \<noteq> path" "fs tmp = None" using assms by (simp_all add: fresh_temp_def)
  let ?f0 = "fs(tmp \<mapsto> Regular [])" let ?f1 = "fs(tmp \<mapsto> Regular data)"
  note w = writeFileAtomic_def [of retryable run opts path data fs]
  consider (chmod) "\<not> wr_chmod run" | (bytes) n where "wr_chmod run" "wr_bytes run = Some n"
    | (sync) "wr_chmod run" "wr_bytes run = None" "SyncFile opts \<and> \<not> wr_sync run"
    | (close) "wr_chmod run" "wr_bytes run = None" "\<not> (SyncFile opts \<and> \<not> wr_sync run)" "\<not> wr_close run"
    | (rename) "wr_chmod run" "wr_bytes run = None" "\<not> (SyncFile opts \<and> \<not> wr_sync run)" "wr_close run"
        "fst (renameWithRetry retryable (wr_rename run)) \<noteq> None"
    | (ok) "wr_chmod run" "wr_bytes run = None" "\<not> (SyncFile opts \<and> \<not> wr_sync run)" "wr_close run"
        "fst (renameWithRetry retryable (wr_rename run)) = None"
    by blast
  then show thesis
  proof cases
    case chmod
    then show thesis using False t tmp by (intro failed [of tmp ErrChmodTemp "[?f0]"]) (auto simp: w)
  next
    case bytes
    then show thesis using False t tmp
      by (intro failed [of tmp ErrWriteTemp "[?f0, fs(tmp \<mapsto> Regular (take n data))]"]) (auto simp: w)
  next
    case sync
    then show thesis using False t tmp by (intro failed [of tmp ErrSyncTemp "[?f0, ?f1]"]) (auto simp: w)
  next
    case close
    then show thesis using False t tmp by (intro failed [of tmp ErrCloseTemp "[?f0, ?f1]"]) (auto simp: w Let_def)
  next
    case rename
    then show thesis using False t tmp by (intro failed [of tmp ErrRename "[?f0, ?f1]"]) (auto simp: w Let_def)
  next
    case ok
    have "(?f1(tmp := None))(path \<mapsto> Regular data) = fs(path \<mapsto> Regular data)" using tmp by (auto simp: fun_eq_iff)
    then show thesis using ok False t tmp by (intro renamed [of tmp "if SyncDir opts \<and> \<not> wr_syncDir run then Some ErrSyncDir else None"]) (auto simp: w Let_def)
  qed
qed


lemma result_of_simps [simp]:
  "result_of r = Written \<longleftrightarrow> r = None" "result_of r = Unsynced \<longleftrightarrow> r = Some ErrSyncDir"
  by (auto simp: result_of_def split: option.split fs_error.split)

lemma landed_result: "landed (result_of r) \<longleftrightarrow> r \<in> {None, Some ErrSyncDir}"
  by (auto simp: landed_def result_of_def split: option.split fs_error.split)

definition WriteFileAtomic ::
  "(rename_error \<Rightarrow> bool) \<Rightarrow> AtomicOptions \<Rightarrow> string \<Rightarrow> write_run \<Rightarrow> string \<Rightarrow> file_system \<Rightarrow> write_result \<times> file_system" where
  "WriteFileAtomic retryable opts path run data fs =
    (case writeFileAtomic retryable run opts path data fs of (r, trace) \<Rightarrow> (result_of r, last trace))"

definition file_contents :: "string \<Rightarrow> file_system \<Rightarrow> string option" where
  "file_contents path fs = (case fs path of Some (Regular b) \<Rightarrow> Some b | _ \<Rightarrow> None)"

lemma WriteFileAtomic_target:
  assumes "fresh_temp run path fs"
  shows "(snd (WriteFileAtomic retryable opts path run data fs)) path =
    (if landed (fst (WriteFileAtomic retryable opts path run data fs)) then Some (Regular data) else fs path)"
  by (cases rule: writeFileAtomic_cases [OF assms, of retryable opts data])
     (auto simp: WriteFileAtomic_def cleanup_def landed_result )

lemma WriteFileAtomic_other:
  assumes "fresh_temp run path fs" "q \<noteq> path" "wr_temp run \<noteq> Some q"
  shows "(snd (WriteFileAtomic retryable opts path run data fs)) q = fs q"
  by (cases rule: writeFileAtomic_cases [OF assms(1), of retryable opts data])
     (use assms(2,3) in \<open>auto simp: WriteFileAtomic_def cleanup_def \<close>)

text \<open>The file at a path, written through \<open>WriteFileAtomic\<close>, is an atomic store.\<close>

interpretation afile: atomic_store
  "\<lambda>run data fs. (ok_write (fst (WriteFileAtomic retryable opts path run data fs)), snd (WriteFileAtomic retryable opts path run data fs))"
  "file_contents path"
  "\<lambda>run fs. fresh_temp run path fs"
  for retryable opts path
  by unfold_locales (auto simp: file_contents_def WriteFileAtomic_target ok_landed)

subsection \<open>Properties\<close>

text \<open>C18: Whatever system call fails, and whenever the process dies, the target of an atomic write
  holds its old contents or all of the new ones: every file system a write passes through has one or
  the other there and differs elsewhere only in the temporary file. When the write reports success
  the new contents are there and the temporary file is gone; when it reports an error other than that
  of syncing the directory, the old contents are there.\<close>

theorem atomic_write:
  assumes "fresh_temp run path fs" "writeFileAtomic retryable run opts path data fs = (r, trace)"
  shows "(\<forall>f \<in> set trace. f path \<in> {fs path, Some (Regular data)} \<and>
      (\<forall>q. q \<noteq> path \<and> wr_temp run \<noteq> Some q \<longrightarrow> f q = fs q)) \<and>
    (r = None \<longrightarrow> last trace = fs(path \<mapsto> Regular data)) \<and>
    (r \<notin> {None, Some ErrSyncDir} \<longrightarrow> last trace path = fs path \<and> (wr_remove run \<longrightarrow> last trace = fs))"
  using assms(1)
proof (cases rule: writeFileAtomic_cases [where retryable = retryable and opts = opts and data = data])
  case (failed e tmp tr b)
  note b = failed(8)
  have r: "r = Some e" and t: "trace = fs # tr @ [if wr_remove run then (last tr)(tmp := None) else last tr]"
    using assms(2) failed(5,7) by (auto simp: cleanup_def)
  have mem: "f \<in> {fs, fs(tmp := None)} \<or> (\<exists>b. f = fs(tmp \<mapsto> Regular b))" if "f \<in> set trace" for f
    using that failed(6) b by (auto simp: t split: if_splits)
  have 1: "f path \<in> {fs path, Some (Regular data)} \<and> (\<forall>q. q \<noteq> path \<and> wr_temp run \<noteq> Some q \<longrightarrow> f q = fs q)"
    if "f \<in> set trace" for f
    using mem [OF that] failed(1,2) by auto
  moreover have "last trace path = fs path \<and> (wr_remove run \<longrightarrow> last trace = fs)"
    using b failed(2,3) by (auto simp: t fun_eq_iff)
  ultimately show ?thesis using r failed(4) by simp
qed (use assms(2) in auto)

definition ex_run :: write_run where
  "ex_run = \<lparr>wr_lstat = True, wr_temp = Some ''.a-1'', wr_chmod = True, wr_bytes = None, wr_sync = True,
    wr_close = True, wr_rename = (\<lambda>n. if n = 0 then Some Held else None), wr_syncDir = True, wr_remove = True\<rparr>"

theorem atomic_write_witness:
  "fst (writeFileAtomic (\<lambda>e. e = Held) ex_run \<lparr>SyncFile = True, SyncDir = True\<rparr> ''a'' ''new'' [''a'' \<mapsto> Regular ''old'']) = None \<and>
   last (snd (writeFileAtomic (\<lambda>e. e = Held) ex_run \<lparr>SyncFile = True, SyncDir = True\<rparr> ''a'' ''new'' [''a'' \<mapsto> Regular ''old'']))
     = [''a'' \<mapsto> Regular ''new'']"
proof -
  let ?w = "writeFileAtomic (\<lambda>e. e = Held) ex_run \<lparr>SyncFile = True, SyncDir = True\<rparr> ''a'' ''new'' [''a'' \<mapsto> Regular ''old'']"
  have ok: "fst ?w = None"
    by (simp add: writeFileAtomic_def ex_run_def renameWithRetry_def renameBackoffs_def rename_loop.simps Let_def)
  have fresh: "fresh_temp ex_run ''a'' [''a'' \<mapsto> Regular ''old'']" by (simp add: fresh_temp_def ex_run_def)
  from atomic_write [OF fresh surjective_pairing, of "\<lambda>e. e = Held" "\<lparr>SyncFile = True, SyncDir = True\<rparr>" "''new''"] ok
  show ?thesis by simp
qed

end
