(* ===== verification/Ownership.thy ===== *)
theory Ownership
  imports Event AtomicWrite
begin

text \<open>
  Session ownership and handoff: \<open>Authorize\<close>, \<open>Release\<close>, \<open>Claim\<close>,
  \<open>visibleTo\<close>, \<open>OwnerOf\<close>, \<open>OwnerState\<close>, \<open>ListSnapshot\<close>, and the closing and
  persistence they rely on, of \<open>internal/session/manager.go\<close> and the record of
  \<open>internal/session/store.go\<close>.

  The state holds the live entries, the store (absent when none is configured) as a map from ids
  to records, the delete tombstones with their order and the ids with a debounced write pending.
  \<open>now\<close> is the clock \<open>Save\<close> stamps a record with, \<open>saved\<close> is the outcome of
  a write to the store: it can also fail after the new record is in place, when only the directory
  could not be synced.

  Release, Claim and a first-touch Authorize hold the per-session lock throughout, and
  \<open>m.mu\<close> only in two sections with the disk write between them. Each operation is written
  as its check, the write and its stamp; run without interruption they are the operations, and
  \<open>own_step\<close> interleaves the sections with everything that does not take the per-session
  lock: closing, other updates of the metadata and the debounced writes.
\<close>
record Meta =
  m_ID :: string
  m_Provider :: string
  m_Name :: string
  m_NameSource :: string
  m_Model :: string
  m_ThinkingLevel :: string
  m_ThinkingMutability :: string
  m_Turns :: int
  m_InputTokens :: int
  m_OutputTokens :: int
  m_CachedTokens :: int
  m_SessionCost :: "SessionCost option"
  m_ModeID :: string
  m_CollaborationModeID :: string
  m_PermissionProfileID :: string
  m_ApprovalsReviewer :: string
  m_ServiceTier :: string
  m_Personality :: string
  m_CWD :: string
  m_AgentSessionID :: string
  m_AgentSessionAliases :: "string list"
  OwnerDeviceID :: string
  PendingHandoffTo :: string
  HandoffNonce :: string
  m_CreatedAt :: gotime
  m_UpdatedAt :: gotime
  m_Status :: string
  m_Live :: bool
  m_LastSeq :: nat

definition zero_meta :: Meta where
  "zero_meta =
    \<lparr>m_ID = [], m_Provider = [], m_Name = [], m_NameSource = [], m_Model = [], m_ThinkingLevel = [],
     m_ThinkingMutability = [], m_Turns = 0, m_InputTokens = 0, m_OutputTokens = 0,
     m_CachedTokens = 0, m_SessionCost = None, m_ModeID = [], m_CollaborationModeID = [],
     m_PermissionProfileID = [], m_ApprovalsReviewer = [], m_ServiceTier = [], m_Personality = [],
     m_CWD = [], m_AgentSessionID = [], m_AgentSessionAliases = [], OwnerDeviceID = [],
     PendingHandoffTo = [], HandoffNonce = [], m_CreatedAt = 0, m_UpdatedAt = 0, m_Status = [],
     m_Live = False, m_LastSeq = 0\<rparr>"

record Record =
  r_ID :: string
  r_Provider :: string
  r_Name :: string
  r_NameSource :: string
  r_CWD :: string
  r_Model :: string
  r_ThinkingLevel :: string
  r_ModeID :: string
  r_CollaborationModeID :: string
  r_PermissionProfileID :: string
  r_ApprovalsReviewer :: string
  r_ServiceTier :: string
  r_Personality :: string
  r_AgentSessionID :: string
  r_AgentSessionAliases :: "string list"
  r_OwnerDeviceID :: string
  r_PendingHandoffTo :: string
  r_HandoffNonce :: string
  r_SessionCost :: "SessionCost option"
  r_Turns :: int
  r_InputTokens :: int
  r_OutputTokens :: int
  r_CachedTokens :: int
  r_CreatedAt :: gotime
  r_UpdatedAt :: gotime
  r_Status :: string
  r_LastSeq :: nat

text \<open>
  \<open>le_sess\<close> stands for the identity of the provider session, \<open>le_seq\<close> for the ring's
  last sequence number.
\<close>

record live_entry =
  le_meta :: Meta
  le_sess :: nat
  le_seq :: nat
  le_dead :: bool

record owners =
  ow_sessions :: "string \<rightharpoonup> live_entry"
  ow_store :: "(string \<rightharpoonup> Record) option"
  ow_purged :: "string set"
  ow_purgedOrder :: "string list"
  ow_dirty :: "string set"

datatype own_error = ErrNotLive | ErrForbidden | ErrNotReleased | ErrPersist | ErrClaimNeedsLock | ErrStore

type_synonym 'a result = "own_error + 'a"

subsection \<open>Reading\<close>

definition NameSourceUser :: string where "NameSourceUser = ''user''"

definition effectiveNameSource :: "string \<Rightarrow> string \<Rightarrow> string" where
  "effectiveNameSource nm src = (if src \<noteq> [] \<or> nm = [] then src else NameSourceUser)"

definition live_meta :: "owners \<Rightarrow> string \<Rightarrow> Meta option" where
  "live_meta w i = (case ow_sessions w i of
     Some e \<Rightarrow> if le_dead e then None else Some (le_meta e) | None \<Rightarrow> None)"

definition Get :: "owners \<Rightarrow> string \<Rightarrow> Meta result" where
  "Get w i = (case ow_sessions w i of
     None \<Rightarrow> Inl ErrNotLive
   | Some e \<Rightarrow> if le_dead e then Inl ErrNotLive else Inr (le_meta e))"

definition store_get :: "owners \<Rightarrow> string \<Rightarrow> Record option" where
  "store_get w i = (case ow_store w of None \<Rightarrow> None | Some st \<Rightarrow> st i)"

definition OwnerOf :: "owners \<Rightarrow> string \<Rightarrow> string option" where
  "OwnerOf w i = (case ow_sessions w i of
     Some e \<Rightarrow> Some (OwnerDeviceID (le_meta e))
   | None \<Rightarrow> map_option r_OwnerDeviceID (store_get w i))"

datatype owner_state = OwnerKnown | OwnerPurged | OwnerUnknown

definition isPurged :: "owners \<Rightarrow> string \<Rightarrow> bool" where
  "isPurged w i \<longleftrightarrow> i \<in> ow_purged w"

definition OwnerState :: "owners \<Rightarrow> string \<Rightarrow> string \<times> owner_state" where
  "OwnerState w i = (case OwnerOf w i of
     Some d \<Rightarrow> (d, OwnerKnown)
   | None \<Rightarrow> if isPurged w i then ([], OwnerPurged) else ([], OwnerUnknown))"

definition visibleTo :: "string \<Rightarrow> string \<Rightarrow> string \<Rightarrow> bool" where
  "visibleTo ownerDeviceID pendingHandoffTo deviceID =
    (if ownerDeviceID \<noteq> [] then ownerDeviceID = deviceID
     else if pendingHandoffTo \<noteq> [] then pendingHandoffTo = deviceID
     else True)"

subsection \<open>Persistence\<close>

definition to_record :: "gotime \<Rightarrow> Meta \<Rightarrow> Record" where
  "to_record now m =
    \<lparr>r_ID = m_ID m, r_Provider = m_Provider m, r_Name = m_Name m, r_NameSource = m_NameSource m,
     r_CWD = m_CWD m, r_Model = m_Model m, r_ThinkingLevel = m_ThinkingLevel m,
     r_ModeID = m_ModeID m, r_CollaborationModeID = m_CollaborationModeID m,
     r_PermissionProfileID = m_PermissionProfileID m, r_ApprovalsReviewer = m_ApprovalsReviewer m,
     r_ServiceTier = m_ServiceTier m, r_Personality = m_Personality m,
     r_AgentSessionID = m_AgentSessionID m, r_AgentSessionAliases = m_AgentSessionAliases m,
     r_OwnerDeviceID = OwnerDeviceID m, r_PendingHandoffTo = PendingHandoffTo m,
     r_HandoffNonce = HandoffNonce m, r_SessionCost = m_SessionCost m, r_Turns = m_Turns m,
     r_InputTokens = m_InputTokens m, r_OutputTokens = m_OutputTokens m,
     r_CachedTokens = m_CachedTokens m, r_CreatedAt = m_CreatedAt m, r_UpdatedAt = now,
     r_Status = m_Status m, r_LastSeq = m_LastSeq m\<rparr>"

definition Save :: "gotime \<Rightarrow> write_result \<Rightarrow> Record \<Rightarrow> owners \<Rightarrow> bool \<times> owners" where
  "Save now saved rec w =
    (ok_write saved,
     if landed saved then w\<lparr>ow_store := map_option (\<lambda>st. st(r_ID rec \<mapsto> rec\<lparr>r_UpdatedAt := now\<rparr>)) (ow_store w)\<rparr>
     else w)"

text \<open>
  \<open>writePersist\<close>: a tombstoned id is not written, and that is no error. The second look at
  the tombstones after \<open>Save\<close> only matters when a delete lands during the write, which is
  then the last of the two.
\<close>

definition writePersist :: "gotime \<Rightarrow> write_result \<Rightarrow> Meta \<Rightarrow> owners \<Rightarrow> bool \<times> owners" where
  "writePersist now saved m w =
    (if ow_store w = None then (True, w)
     else if isPurged w (m_ID m) then (True, w)
     else Save now saved (to_record now m) w)"

definition clearPersistDirty :: "string \<Rightarrow> owners \<Rightarrow> owners" where
  "clearPersistDirty i w = w\<lparr>ow_dirty := ow_dirty w - {i}\<rparr>"

definition persistNow :: "gotime \<Rightarrow> write_result \<Rightarrow> Meta \<Rightarrow> owners \<Rightarrow> bool \<times> owners" where
  "persistNow now saved m w =
    (if ow_store w = None then (True, w)
     else writePersist now saved m (clearPersistDirty (m_ID m) w))"

definition persist :: "string \<Rightarrow> owners \<Rightarrow> owners" where
  "persist i w = (if ow_store w = None then w else w\<lparr>ow_dirty := insert i (ow_dirty w)\<rparr>)"

text \<open>One id of \<open>FlushPersist\<close>: it reads the entry under \<open>m.mu\<close>, and writes what it read.\<close>

definition flush_read :: "string \<Rightarrow> owners \<Rightarrow> Meta option" where
  "flush_read i w = map_option le_meta (ow_sessions w i)"

definition flush_write :: "gotime \<Rightarrow> write_result \<Rightarrow> Meta option \<Rightarrow> owners \<Rightarrow> owners" where
  "flush_write now saved snap w = (case snap of None \<Rightarrow> w | Some m \<Rightarrow> snd (writePersist now saved m w))"

text \<open>\<open>ids\<close> is the order in which the map of dirty ids is ranged over.\<close>

definition FlushPersist :: "gotime \<Rightarrow> write_result \<Rightarrow> string list \<Rightarrow> owners \<Rightarrow> owners" where
  "FlushPersist now saved ids w =
    fold (\<lambda>i w1. flush_write now saved (flush_read i w1) w1) ids (w\<lparr>ow_dirty := {}\<rparr>)"

definition maxPurgedIDs :: nat where "maxPurgedIDs = 256"

fun trim_purged :: "nat \<Rightarrow> string list \<Rightarrow> string set \<Rightarrow> string list \<times> string set" where
  "trim_purged cap [] ps = ([], ps)"
| "trim_purged cap (i # is) ps = (if Suc (length is) > cap then trim_purged cap is (ps - {i}) else (i # is, ps))"

definition markPurged :: "string \<Rightarrow> owners \<Rightarrow> owners" where
  "markPurged i w =
    (if i \<in> ow_purged w then w
     else case trim_purged maxPurgedIDs (ow_purgedOrder w @ [i]) (insert i (ow_purged w)) of
       (ord, ps) \<Rightarrow> w\<lparr>ow_purgedOrder := ord, ow_purged := ps\<rparr>)"

definition clearPurged :: "string \<Rightarrow> owners \<Rightarrow> owners" where
  "clearPurged i w =
    (if i \<in> ow_purged w
     then w\<lparr>ow_purged := ow_purged w - {i}, ow_purgedOrder := remove1 i (ow_purgedOrder w)\<rparr>
     else w)"

definition deleteStored :: "write_result \<Rightarrow> string \<Rightarrow> owners \<Rightarrow> bool \<times> owners" where
  "deleteStored removed i w =
    (ok_write removed, if landed removed then w\<lparr>ow_store := map_option (\<lambda>st. st(i := None)) (ow_store w)\<rparr> else w)"

subsection \<open>Closing\<close>

definition StatusDisconnected :: string where "StatusDisconnected = ''disconnected''"

text \<open>Close's section under \<open>m.mu\<close>, with the pending debounced write cancelled.\<close>

definition close_remove :: "string \<Rightarrow> nat option \<Rightarrow> owners \<Rightarrow> live_entry option result \<times> owners" where
  "close_remove i expect w =
    (case ow_sessions w i of
       Some e \<Rightarrow>
         if expect \<noteq> None \<and> expect \<noteq> Some (le_sess e) then (Inl ErrNotLive, w)
         else (Inr (Some e), clearPersistDirty i (w\<lparr>ow_sessions := (ow_sessions w)(i := None)\<rparr>))
     | None \<Rightarrow> (Inr None, clearPersistDirty i w))"

definition closed_meta :: "live_entry \<Rightarrow> Meta" where
  "closed_meta e = (le_meta e)\<lparr>m_Status := StatusDisconnected, m_Live := False,
     m_LastSeq := max (m_LastSeq (le_meta e)) (le_seq e)\<rparr>"

definition purge_stored :: "write_result \<Rightarrow> string \<Rightarrow> owners \<Rightarrow> unit result \<times> owners" where
  "purge_stored removed i w =
    (case deleteStored removed i (markPurged i w) of
       (ok, w1) \<Rightarrow> (if ok then Inr () else Inl ErrStore, w1))"

definition closeMatching ::
  "gotime \<Rightarrow> write_result \<Rightarrow> string \<Rightarrow> nat option \<Rightarrow> bool \<Rightarrow> owners \<Rightarrow> unit result \<times> owners" where
  "closeMatching now saved i expect purge w =
    (case close_remove i expect w of
       (Inl err, w1) \<Rightarrow> (Inl err, w1)
     | (Inr (Some e), w1) \<Rightarrow>
         if purge then (if ow_store w1 = None then (Inr (), w1) else purge_stored saved i w1)
         else (Inr (), snd (persistNow now saved (closed_meta e) w1))
     | (Inr None, w1) \<Rightarrow>
         if purge \<and> ow_store w1 \<noteq> None then purge_stored saved i w1 else (Inl ErrNotLive, w1))"

subsection \<open>Authorize, Release, Claim\<close>

definition stamp_meta :: "string \<Rightarrow> (Meta \<Rightarrow> Meta) \<Rightarrow> owners \<Rightarrow> owners" where
  "stamp_meta i f w = (case ow_sessions w i of
     Some e \<Rightarrow> if le_dead e then w
               else w\<lparr>ow_sessions := (ow_sessions w)(i \<mapsto> e\<lparr>le_meta := f (le_meta e)\<rparr>)\<rparr>
   | None \<Rightarrow> w)"

definition touched_meta :: "string \<Rightarrow> Meta \<Rightarrow> Meta" where
  "touched_meta d m = m\<lparr>OwnerDeviceID := d\<rparr>"

definition touch_stamp :: "string \<Rightarrow> Meta \<Rightarrow> Meta" where
  "touch_stamp d m = (if OwnerDeviceID m = [] then touched_meta d m else m)"

definition authorize ::
  "gotime \<Rightarrow> write_result \<Rightarrow> string \<Rightarrow> string \<Rightarrow> bool \<Rightarrow> bool \<Rightarrow> owners \<Rightarrow> unit result \<times> owners" where
  "authorize now saved i d claim locked w =
    (case live_meta w i of
       Some m \<Rightarrow>
         if OwnerDeviceID m = [] then
           if claim \<and> d \<noteq> [] then
             if \<not> locked then (Inl ErrClaimNeedsLock, w)
             else (case persistNow now saved (touched_meta d m) w of
                 (False, w1) \<Rightarrow> (Inl ErrPersist, w1)
               | (True, w1) \<Rightarrow> (Inr (), stamp_meta i (touch_stamp d) w1))
           else (Inr (), w)
         else if OwnerDeviceID m \<noteq> d then (Inl ErrForbidden, w)
         else (Inr (), w)
     | None \<Rightarrow>
         (case store_get w i of
            None \<Rightarrow> (Inl ErrNotLive, w)
          | Some rec \<Rightarrow>
              if r_OwnerDeviceID rec = [] then
                if claim \<and> d \<noteq> [] then
                  if \<not> locked then (Inl ErrClaimNeedsLock, w)
                  else (case Save now saved (rec\<lparr>r_OwnerDeviceID := d\<rparr>) w of
                      (False, w1) \<Rightarrow> (Inl ErrPersist, w1)
                    | (True, w1) \<Rightarrow> (Inr (), w1))
                else (Inr (), w)
              else if r_OwnerDeviceID rec \<noteq> d then (Inl ErrForbidden, w)
              else (Inr (), w)))"

definition Authorize ::
  "gotime \<Rightarrow> write_result \<Rightarrow> string \<Rightarrow> string \<Rightarrow> bool \<Rightarrow> owners \<Rightarrow> unit result \<times> owners" where
  "Authorize now saved i d claim w =
    (case authorize now saved i d claim False w of
       (Inl ErrClaimNeedsLock, w1) \<Rightarrow> authorize now saved i d claim True w1
     | r \<Rightarrow> r)"

definition released_meta :: "string \<Rightarrow> string \<Rightarrow> Meta \<Rightarrow> Meta" where
  "released_meta to nonce m = m\<lparr>OwnerDeviceID := [], PendingHandoffTo := to, HandoffNonce := nonce\<rparr>"

definition claimed_meta :: "string \<Rightarrow> Meta \<Rightarrow> Meta" where
  "claimed_meta d m = m\<lparr>OwnerDeviceID := d, PendingHandoffTo := [], HandoffNonce := []\<rparr>"

text \<open>The first sections of Release and Claim: the checks, and the record to write.\<close>

definition release_check :: "string \<Rightarrow> string \<Rightarrow> string \<Rightarrow> string \<Rightarrow> owners \<Rightarrow> Meta result" where
  "release_check nonce i ownerDeviceID toDeviceID w =
    (case live_meta w i of
       None \<Rightarrow> Inl ErrNotLive
     | Some m \<Rightarrow>
         if OwnerDeviceID m \<noteq> ownerDeviceID \<or> ownerDeviceID = [] then Inl ErrForbidden
         else Inr (released_meta toDeviceID nonce m))"

definition Release ::
  "gotime \<Rightarrow> write_result \<Rightarrow> string \<Rightarrow> string \<Rightarrow> string \<Rightarrow> string \<Rightarrow> owners \<Rightarrow> Meta result \<times> owners" where
  "Release now saved nonce i ownerDeviceID toDeviceID w =
    (case release_check nonce i ownerDeviceID toDeviceID w of
       Inl e \<Rightarrow> (Inl e, w)
     | Inr m \<Rightarrow>
         (case persistNow now saved m w of
            (False, w1) \<Rightarrow> (Inl ErrPersist, w1)
          | (True, w1) \<Rightarrow> (Inr m, stamp_meta i (released_meta toDeviceID nonce) w1)))"

definition claim_check :: "string \<Rightarrow> string \<Rightarrow> owners \<Rightarrow> Meta result" where
  "claim_check i d w =
    (if d = [] then Inl ErrForbidden
     else case live_meta w i of
       None \<Rightarrow> Inl ErrNotLive
     | Some m \<Rightarrow>
         if OwnerDeviceID m \<noteq> [] then Inl ErrNotReleased
         else if PendingHandoffTo m \<noteq> [] \<and> PendingHandoffTo m \<noteq> d then Inl ErrForbidden
         else Inr (claimed_meta d m))"

definition claim_stamp :: "string \<Rightarrow> string \<Rightarrow> owners \<Rightarrow> Meta result \<times> owners" where
  "claim_stamp i d w =
    (case live_meta w i of
       None \<Rightarrow> (Inl ErrNotLive, w)
     | Some m \<Rightarrow> (Inr (claimed_meta d m), stamp_meta i (claimed_meta d) w))"

definition Claim :: "gotime \<Rightarrow> write_result \<Rightarrow> string \<Rightarrow> string \<Rightarrow> owners \<Rightarrow> Meta result \<times> owners" where
  "Claim now saved i d w =
    (case claim_check i d w of
       Inl e \<Rightarrow> (Inl e, w)
     | Inr m \<Rightarrow>
         (case persistNow now saved m w of
            (False, w1) \<Rightarrow> (Inl ErrPersist, w1)
          | (True, w1) \<Rightarrow> claim_stamp i d w1))"

definition Close_session :: "gotime \<Rightarrow> write_result \<Rightarrow> write_result \<Rightarrow> string \<Rightarrow> string \<Rightarrow> owners \<Rightarrow> unit result \<times> owners" where
  "Close_session now saved saved2 i d w =
    (case Authorize now saved i d True w of
       (Inl e, w1) \<Rightarrow> (Inl e, w1)
     | (Inr _, w1) \<Rightarrow> closeMatching now saved2 i None False w1)"

definition Delete_session :: "gotime \<Rightarrow> write_result \<Rightarrow> write_result \<Rightarrow> string \<Rightarrow> string \<Rightarrow> owners \<Rightarrow> unit result \<times> owners" where
  "Delete_session now saved saved2 i d w =
    (case Authorize now saved i d True w of
       (Inl e, w1) \<Rightarrow> (Inl e, w1)
     | (Inr _, w1) \<Rightarrow> closeMatching now saved2 i None True w1)"

text \<open>
  The end of \<open>create\<close>: the entry goes live and loses its tombstone, then the record with its
  owner is written; when that fails the session is closed again.
\<close>

definition create_tail :: "gotime \<Rightarrow> write_result \<Rightarrow> write_result \<Rightarrow> live_entry \<Rightarrow> owners \<Rightarrow> unit result \<times> owners" where
  "create_tail now saved saved2 e w =
    (let i = m_ID (le_meta e);
         w1 = clearPurged i (w\<lparr>ow_sessions := (ow_sessions w)(i \<mapsto> e)\<rparr>)
     in case persistNow now saved (le_meta e) w1 of
          (False, w2) \<Rightarrow> (Inl ErrPersist, snd (closeMatching now saved2 i None False w2))
        | (True, w2) \<Rightarrow> (Inr (), w2))"

subsection \<open>Facts about the pieces\<close>

definition own_of :: "Meta \<Rightarrow> string \<times> string \<times> string" where
  "own_of m = (OwnerDeviceID m, PendingHandoffTo m, HandoffNonce m)"

definition own_of_record :: "Record \<Rightarrow> string \<times> string \<times> string" where
  "own_of_record r = (r_OwnerDeviceID r, r_PendingHandoffTo r, r_HandoffNonce r)"

named_theorems own_simps \<open>effect of the ownership operations on the parts of the state\<close>

lemma own_of_record_to_record [own_simps]:
  "own_of_record (to_record now m) = own_of m" "r_ID (to_record now m) = m_ID m"
  "own_of_record (r\<lparr>r_UpdatedAt := now\<rparr>) = own_of_record r"
  by (simp_all add: own_of_record_def own_of_def to_record_def)

lemma meta_edits [own_simps]:
  "m_ID (released_meta to nonce m) = m_ID m" "m_ID (claimed_meta d m) = m_ID m"
  "m_ID (touched_meta d m) = m_ID m" "m_ID (touch_stamp d m) = m_ID m"
  "own_of (released_meta to nonce m) = ([], to, nonce)"
  "own_of (claimed_meta d m) = (d, [], [])"
  "own_of (touched_meta d m) = (d, PendingHandoffTo m, HandoffNonce m)"
  "OwnerDeviceID (touched_meta d m) = d"
  "OwnerDeviceID (claimed_meta d m) = d"
  "OwnerDeviceID (released_meta to nonce m) = []"
  "PendingHandoffTo (released_meta to nonce m) = to"
  by (simp_all add: released_meta_def claimed_meta_def touched_meta_def touch_stamp_def own_of_def)

lemma closed_meta_own [own_simps]:
  "own_of (closed_meta e) = own_of (le_meta e)" "m_ID (closed_meta e) = m_ID (le_meta e)"
  by (simp_all add: closed_meta_def own_of_def)

lemma writePersist_frame [own_simps]:
  "ow_sessions (snd (writePersist now saved m w)) = ow_sessions w"
  "ow_purged (snd (writePersist now saved m w)) = ow_purged w"
  "ow_purgedOrder (snd (writePersist now saved m w)) = ow_purgedOrder w"
  by (simp_all add: writePersist_def Save_def)

lemma persistNow_frame [own_simps]:
  "ow_sessions (snd (persistNow now saved m w)) = ow_sessions w"
  "ow_purged (snd (persistNow now saved m w)) = ow_purged w"
  "ow_purgedOrder (snd (persistNow now saved m w)) = ow_purgedOrder w"
  by (simp_all add: persistNow_def clearPersistDirty_def own_simps)

lemma live_meta_persistNow [own_simps]:
  "live_meta (snd (persistNow now saved m w)) i = live_meta w i"
  by (simp add: live_meta_def own_simps)

lemma store_writePersist [own_simps]:
  "store_get (snd (writePersist now saved m w)) j =
    (if ow_store w \<noteq> None \<and> landed saved \<and> m_ID m \<notin> ow_purged w \<and> j = m_ID m
     then Some (to_record now m) else store_get w j)"
  by (auto simp: writePersist_def Save_def isPurged_def store_get_def to_record_def split: option.splits)

lemma store_persistNow [own_simps]:
  "store_get (snd (persistNow now saved m w)) j =
    (if ow_store w \<noteq> None \<and> landed saved \<and> m_ID m \<notin> ow_purged w \<and> j = m_ID m
     then Some (to_record now m) else store_get w j)"
  by (auto simp: persistNow_def own_simps clearPersistDirty_def) (auto simp: store_get_def)

lemma store_present [own_simps]:
  "(ow_store (snd (writePersist now saved m w)) = None) = (ow_store w = None)"
  "(ow_store (snd (persistNow now saved m w)) = None) = (ow_store w = None)"
  by (auto simp: persistNow_def clearPersistDirty_def writePersist_def Save_def)

lemma persistNow_fails [own_simps]:
  "fst (persistNow now saved m w) \<longleftrightarrow> ok_write saved \<or> ow_store w = None \<or> m_ID m \<in> ow_purged w"
  by (auto simp: persistNow_def clearPersistDirty_def writePersist_def Save_def isPurged_def)

lemma stamp_meta_other [own_simps]: "j \<noteq> i \<Longrightarrow> ow_sessions (stamp_meta i f w) j = ow_sessions w j"
  by (auto simp: stamp_meta_def split: option.splits)

lemma stamp_meta_frame [own_simps]:
  "ow_store (stamp_meta i f w) = ow_store w" "ow_purged (stamp_meta i f w) = ow_purged w"
  "ow_purgedOrder (stamp_meta i f w) = ow_purgedOrder w"
  "store_get (stamp_meta i f w) j = store_get w j"
  by (auto simp: stamp_meta_def store_get_def split: option.splits)

lemma live_stamp_meta [own_simps]:
  "live_meta (stamp_meta i f w) j = (if j = i then map_option f (live_meta w i) else live_meta w j)"
  by (auto simp: stamp_meta_def live_meta_def split: option.splits)

lemma live_metaE:
  assumes "live_meta w i = Some m"
  obtains e where "ow_sessions w i = Some e" "\<not> le_dead e" "m = le_meta e"
  using assms by (auto simp: live_meta_def split: option.splits if_splits)

lemma stamp_sessions_live [own_simps]:
  "live_meta w i = Some m \<Longrightarrow>
    \<exists>e. ow_sessions w i = Some e \<and> m = le_meta e \<and>
      ow_sessions (stamp_meta i f w) = (ow_sessions w)(i \<mapsto> e\<lparr>le_meta := f m\<rparr>)"
  by (auto simp: stamp_meta_def elim!: live_metaE)

text \<open>Each operation, by cases: refused with the state untouched, failed on the write, or done.\<close>

lemma persistNow_pair: "persistNow now saved m w = (fst (persistNow now saved m w), snd (persistNow now saved m w))"
  by simp

lemma Release_cases:
  obtains (refused) e where "Release now saved nonce i d to w = (Inl e, w)"
      "e = ErrNotLive \<and> live_meta w i = None \<or>
       e = ErrForbidden \<and> (\<exists>m. live_meta w i = Some m \<and> (OwnerDeviceID m \<noteq> d \<or> d = []))"
    | (failed) m where "live_meta w i = Some m" "OwnerDeviceID m = d" "d \<noteq> []"
      "\<not> fst (persistNow now saved (released_meta to nonce m) w)"
      "Release now saved nonce i d to w = (Inl ErrPersist, snd (persistNow now saved (released_meta to nonce m) w))"
    | (stamped) m where "live_meta w i = Some m" "OwnerDeviceID m = d" "d \<noteq> []"
      "fst (persistNow now saved (released_meta to nonce m) w)"
      "Release now saved nonce i d to w =
        (Inr (released_meta to nonce m),
         stamp_meta i (released_meta to nonce) (snd (persistNow now saved (released_meta to nonce m) w)))"
proof (cases "live_meta w i")
  case None
  then show ?thesis using refused [of ErrNotLive] by (simp add: Release_def release_check_def)
next
  case (Some m)
  show ?thesis
  proof (cases "OwnerDeviceID m \<noteq> d \<or> d = []")
    case True
    then show ?thesis using refused [of ErrForbidden] Some by (simp add: Release_def release_check_def)
  next
    case False
    then show ?thesis using failed [OF Some] stamped [OF Some] Some
      by (cases "fst (persistNow now saved (released_meta to nonce m) w)")
         (simp_all add: Release_def release_check_def split_beta)
  qed
qed

lemma Claim_cases:
  obtains (refused) e where "Claim now saved i d w = (Inl e, w)" "claim_check i d w = Inl e"
    | (failed) m where "live_meta w i = Some m" "claim_check i d w = Inr (claimed_meta d m)"
      "\<not> fst (persistNow now saved (claimed_meta d m) w)"
      "Claim now saved i d w = (Inl ErrPersist, snd (persistNow now saved (claimed_meta d m) w))"
    | (stamped) m where "live_meta w i = Some m" "claim_check i d w = Inr (claimed_meta d m)"
      "fst (persistNow now saved (claimed_meta d m) w)"
      "Claim now saved i d w =
        (Inr (claimed_meta d m),
         stamp_meta i (claimed_meta d) (snd (persistNow now saved (claimed_meta d m) w)))"
proof (cases "claim_check i d w")
  case (Inl e)
  then show ?thesis using refused by (simp add: Claim_def)
next
  case (Inr x)
  then obtain m where m: "live_meta w i = Some m" "x = claimed_meta d m"
    by (auto simp: claim_check_def split: if_splits option.splits)
  with Inr show ?thesis using failed [OF m(1)] stamped [OF m(1)]
    by (cases "fst (persistNow now saved (claimed_meta d m) w)")
       (simp_all add: Claim_def claim_stamp_def split_beta live_meta_persistNow)
qed

lemma Authorize_cases:
  obtains (kept) r where "Authorize now saved i d claim w = (r, w)"
    | (failed) m where "live_meta w i = Some m" "Authorize now saved i d claim w =
        (Inl ErrPersist, snd (persistNow now saved (touched_meta d m) w))"
      "\<not> fst (persistNow now saved (touched_meta d m) w)"
    | (stamped) m where "live_meta w i = Some m" "OwnerDeviceID m = []" "claim" "d \<noteq> []"
      "fst (persistNow now saved (touched_meta d m) w)"
      "Authorize now saved i d claim w =
        (Inr (), stamp_meta i (touch_stamp d) (snd (persistNow now saved (touched_meta d m) w)))"
    | (stored) rec where "live_meta w i = None" "store_get w i = Some rec" "r_OwnerDeviceID rec = []"
      "claim" "d \<noteq> []" "landed saved"
      "Authorize now saved i d claim w =
        (if ok_write saved then Inr () else Inl ErrPersist, snd (Save now saved (rec\<lparr>r_OwnerDeviceID := d\<rparr>) w))"
proof (cases "live_meta w i")
  case (Some m)
  show ?thesis
  proof (cases "OwnerDeviceID m = [] \<and> claim \<and> d \<noteq> []")
    case True
    then show ?thesis using failed [OF Some] stamped [OF Some] Some
      by (cases "fst (persistNow now saved (touched_meta d m) w)")
         (simp_all add: Authorize_def authorize_def split_beta)
  next
    case False
    then have "\<exists>r. Authorize now saved i d claim w = (r, w)"
      using Some by (auto simp: Authorize_def authorize_def)
    then show ?thesis using kept by blast
  qed
next
  case None
  show ?thesis
  proof (cases "store_get w i")
    case None
    then show ?thesis using kept \<open>live_meta w i = None\<close> by (simp add: Authorize_def authorize_def)
  next
    case (Some rec)
    show ?thesis
    proof (cases "r_OwnerDeviceID rec = [] \<and> claim \<and> d \<noteq> [] \<and> landed saved")
      case True
      then show ?thesis using stored [OF None Some] None Some
        by (simp add: Authorize_def authorize_def Save_def)
    next
      case False
      then have "\<exists>r. Authorize now saved i d claim w = (r, w)"
        using None Some ok_landed [of saved] by (auto simp: Authorize_def authorize_def Save_def split: bool.splits)
      then show ?thesis using kept by blast
    qed
  qed
qed

subsection \<open>Tombstones\<close>

definition tombs_ok :: "owners \<Rightarrow> bool" where
  "tombs_ok w \<longleftrightarrow> distinct (ow_purgedOrder w) \<and> ow_purged w = set (ow_purgedOrder w) \<and>
     length (ow_purgedOrder w) \<le> maxPurgedIDs"

lemma trim_purged_props:
  "distinct is \<Longrightarrow> ps = set is \<Longrightarrow>
    (case trim_purged cap is ps of (ord, qs) \<Rightarrow>
      qs = set ord \<and> length ord \<le> cap \<and> ord = drop (length is - cap) is)"
  by (induction cap "is" ps rule: trim_purged.induct) (auto simp: Suc_diff_le)

lemma markPurged_tombs:
  assumes "tombs_ok w"
  shows "tombs_ok (markPurged i w)" "ow_purged (markPurged i w) \<subseteq> insert i (ow_purged w)"
    "i \<in> ow_purged (markPurged i w)"
proof -
  let ?t = "trim_purged maxPurgedIDs (ow_purgedOrder w @ [i]) (insert i (ow_purged w))"
  have "i \<notin> ow_purged w \<Longrightarrow> snd ?t = set (fst ?t) \<and> length (fst ?t) \<le> maxPurgedIDs \<and>
      fst ?t = drop (length (ow_purgedOrder w @ [i]) - maxPurgedIDs) (ow_purgedOrder w @ [i])"
    using trim_purged_props [of "ow_purgedOrder w @ [i]" "insert i (ow_purged w)" maxPurgedIDs] assms
    by (auto simp: tombs_ok_def split_beta)
  then show "tombs_ok (markPurged i w)" "ow_purged (markPurged i w) \<subseteq> insert i (ow_purged w)"
    "i \<in> ow_purged (markPurged i w)"
    using assms
    by (auto simp: markPurged_def tombs_ok_def split_beta maxPurgedIDs_def
        dest: in_set_dropD)
qed

lemma clearPurged_tombs:
  assumes "tombs_ok w"
  shows "tombs_ok (clearPurged i w)" "ow_purged (clearPurged i w) = ow_purged w - {i}"
  using assms by (auto simp: clearPurged_def tombs_ok_def length_remove1)

lemma tombs_frame [own_simps]:
  "ow_sessions (markPurged i w) = ow_sessions w" "ow_store (markPurged i w) = ow_store w"
  "ow_sessions (clearPurged i w) = ow_sessions w" "ow_store (clearPurged i w) = ow_store w"
  by (simp_all add: markPurged_def clearPurged_def split_beta)

subsection \<open>Durable ownership\<close>

text \<open>
  Run one after another, the operations keep the stored owner, handoff target and nonce of every
  live session equal to the live ones, and never leave a live session with a tombstone.
\<close>

definition durable_at :: "owners \<Rightarrow> string \<Rightarrow> bool" where
  "durable_at w i \<longleftrightarrow> (\<forall>m. live_meta w i = Some m \<longrightarrow> ow_store w \<noteq> None \<longrightarrow>
     (\<exists>r. store_get w i = Some r \<and> own_of_record r = own_of m))"

definition keyed :: "owners \<Rightarrow> bool" where
  "keyed w \<longleftrightarrow> tombs_ok w \<and>
     (\<forall>i e. ow_sessions w i = Some e \<longrightarrow> m_ID (le_meta e) = i \<and> i \<notin> ow_purged w) \<and>
     (\<forall>i r. store_get w i = Some r \<longrightarrow> r_ID r = i)"

definition own_inv :: "owners \<Rightarrow> bool" where
  "own_inv w \<longleftrightarrow> keyed w \<and> (\<forall>i. durable_at w i)"

definition touch_entry :: "string \<Rightarrow> Meta \<Rightarrow> bool \<Rightarrow> owners \<Rightarrow> owners" where
  "touch_entry i m dead w = (case ow_sessions w i of
     None \<Rightarrow> w
   | Some e \<Rightarrow> w\<lparr>ow_sessions := (ow_sessions w)(i \<mapsto> e\<lparr>le_meta := m, le_dead := dead\<rparr>)\<rparr>)"

text \<open>
  The operations a manager runs, one at a time. \<open>rch_touch\<close> is every other update of an
  entry's metadata: status, names, totals, modes; only \<open>StatusDisconnected\<close> sets \<open>dead\<close>.
  No ownership write fails after it took effect: what happens then is
  \<open>unsynced_release\<close>, below.
\<close>

inductive own_reach :: "owners \<Rightarrow> bool" where
  rch_init: "ow_sessions w = (\<lambda>_. None) \<Longrightarrow> ow_purged w = {} \<Longrightarrow> ow_purgedOrder w = [] \<Longrightarrow>
    (\<forall>i r. store_get w i = Some r \<longrightarrow> r_ID r = i) \<Longrightarrow> own_reach w"
| rch_release: "own_reach w \<Longrightarrow> saved \<noteq> Unsynced \<Longrightarrow> own_reach (snd (Release now saved nonce i d to w))"
| rch_claim: "own_reach w \<Longrightarrow> saved \<noteq> Unsynced \<Longrightarrow> own_reach (snd (Claim now saved i d w))"
| rch_authorize: "own_reach w \<Longrightarrow> saved \<noteq> Unsynced \<Longrightarrow> own_reach (snd (Authorize now saved i d claim w))"
| rch_close: "own_reach w \<Longrightarrow> own_reach (snd (closeMatching now saved i expect purge w))"
| rch_create: "own_reach w \<Longrightarrow> ow_sessions w (m_ID (le_meta e)) = None \<Longrightarrow>
    own_reach (snd (create_tail now saved saved2 e w))"
| rch_touch: "own_reach w \<Longrightarrow> ow_sessions w i = Some e \<Longrightarrow> own_of m = own_of (le_meta e) \<Longrightarrow>
    m_ID m = i \<Longrightarrow> (le_dead e \<longrightarrow> dead) \<Longrightarrow> own_reach (touch_entry i m dead w)"
| rch_persist: "own_reach w \<Longrightarrow> own_reach (persist i w)"
| rch_flush: "own_reach w \<Longrightarrow> own_reach (FlushPersist now saved ids w)"

lemma keyed_write: "keyed w \<Longrightarrow> keyed (snd (writePersist now saved m w))"
  by (auto simp: keyed_def tombs_ok_def own_simps)

lemma keyed_persistNow: "keyed w \<Longrightarrow> keyed (snd (persistNow now saved m w))"
  by (auto simp: keyed_def tombs_ok_def own_simps)

lemma keyed_stamp:
  assumes "keyed w" "\<And>m. m_ID (f m) = m_ID m"
  shows "keyed (stamp_meta i f w)"
  using assms
  by (auto simp: keyed_def tombs_ok_def own_simps stamp_meta_def store_get_def split: option.splits if_splits)

lemma keyed_Save: "keyed w \<Longrightarrow> keyed (snd (Save now saved rec w))"
  by (auto simp: keyed_def tombs_ok_def Save_def store_get_def split: option.splits if_splits)

text \<open>Writing a live session's record with the ownership it is then stamped with.\<close>

lemma durable_persist_stamp:
  assumes inv: "own_inv w" and live: "live_meta w i = Some m"
    and ok: "fst (persistNow now saved x w)" and id: "m_ID x = m_ID m"
    and own: "own_of (g m) = own_of x"
  shows "durable_at (stamp_meta i g (snd (persistNow now saved x w))) j"
proof -
  have key: "m_ID m = i" "i \<notin> ow_purged w"
    using inv live by (auto simp: own_inv_def keyed_def elim!: live_metaE)
  show ?thesis
  proof (cases "j = i")
    case True
    with key ok live show ?thesis
      by (auto simp: durable_at_def own_simps id own dest: ok_landed)
  next
    case False
    then show ?thesis
      using inv key by (auto simp: own_inv_def durable_at_def own_simps id)
  qed
qed

lemma durable_persist_fail:
  "saved \<noteq> Unsynced \<Longrightarrow> \<not> fst (persistNow now saved m w) \<Longrightarrow> durable_at w j \<Longrightarrow> durable_at (snd (persistNow now saved m w)) j"
  by (auto simp: durable_at_def own_simps synced_landed)

lemma own_inv_stamped:
  assumes inv: "own_inv w" and live: "live_meta w i = Some m"
    and ok: "fst (persistNow now saved x w)" and id: "m_ID x = m_ID m" "\<And>m. m_ID (g m) = m_ID m"
    and own: "own_of (g m) = own_of x"
  shows "own_inv (stamp_meta i g (snd (persistNow now saved x w)))"
  using inv durable_persist_stamp [where g = g, OF inv live ok id(1) own] keyed_persistNow keyed_stamp [OF _ id(2)]
  by (simp add: own_inv_def)

lemma own_inv_failed:
  "own_inv w \<Longrightarrow> saved \<noteq> Unsynced \<Longrightarrow> \<not> fst (persistNow now saved x w) \<Longrightarrow> own_inv (snd (persistNow now saved x w))"
  by (simp add: own_inv_def keyed_persistNow durable_persist_fail)

lemma own_inv_Release: "own_inv w \<Longrightarrow> saved \<noteq> Unsynced \<Longrightarrow> own_inv (snd (Release now saved nonce i d to w))"
  by (cases rule: Release_cases [of now saved nonce i d to w])
     (auto intro: own_inv_stamped own_inv_failed simp: meta_edits)

lemma own_inv_Claim: "own_inv w \<Longrightarrow> saved \<noteq> Unsynced \<Longrightarrow> own_inv (snd (Claim now saved i d w))"
  by (cases rule: Claim_cases [of now saved i d w])
     (auto intro: own_inv_stamped own_inv_failed simp: meta_edits)

lemma own_inv_Authorize:
  assumes inv: "own_inv w" and synced: "saved \<noteq> Unsynced"
  shows "own_inv (snd (Authorize now saved i d claim w))"
proof (cases rule: Authorize_cases [of now saved i d claim w])
  case (kept r)
  with inv show ?thesis by simp
next
  case (failed m)
  with own_inv_failed [OF inv synced] show ?thesis by simp
next
  case (stamped m)
  have "own_of (touch_stamp d m) = own_of (touched_meta d m)"
    using stamped(2) by (simp add: touch_stamp_def)
  with own_inv_stamped [OF inv stamped(1,5)] stamped(6) show ?thesis by (simp add: meta_edits)
next
  case (stored rec)
  then have "r_ID rec = i" using inv by (auto simp: own_inv_def keyed_def)
  then have "durable_at (snd (Save now saved (rec\<lparr>r_OwnerDeviceID := d\<rparr>) w)) j" for j
    using inv stored(1)
    by (auto simp: own_inv_def durable_at_def Save_def store_get_def live_meta_def split: option.splits)
  with stored inv show ?thesis by (simp add: own_inv_def keyed_Save)
qed

lemma live_meta_remove:
  "live_meta (w\<lparr>ow_sessions := (ow_sessions w)(i := None)\<rparr>) j = (if j = i then None else live_meta w j)"
  by (simp add: live_meta_def)

lemma own_inv_dirty [own_simps]: "own_inv (w\<lparr>ow_dirty := D\<rparr>) = own_inv w"
  by (simp add: own_inv_def keyed_def tombs_ok_def durable_at_def live_meta_def store_get_def)

lemma own_inv_remove: "own_inv w \<Longrightarrow> own_inv (w\<lparr>ow_sessions := (ow_sessions w)(i := None)\<rparr>)"
  by (auto simp: own_inv_def keyed_def tombs_ok_def durable_at_def live_meta_remove store_get_def)

lemma own_inv_removeI:
  assumes "keyed w" "\<And>j. j \<noteq> i \<Longrightarrow> durable_at w j"
  shows "own_inv (w\<lparr>ow_sessions := (ow_sessions w)(i := None)\<rparr>)"
  using assms by (auto simp: own_inv_def keyed_def tombs_ok_def durable_at_def live_meta_remove store_get_def)

text \<open>A write for an id that is not live, or with the live ownership, keeps the invariant.\<close>

lemma own_inv_write:
  assumes inv: "own_inv w" and same: "\<forall>m'. live_meta w (m_ID m) = Some m' \<longrightarrow> own_of m = own_of m'"
  shows "own_inv (snd (writePersist now saved m w))"
proof -
  have "live_meta (snd (writePersist now saved m w)) i = live_meta w i" for i
    by (simp add: live_meta_def writePersist_frame)
  then have "durable_at (snd (writePersist now saved m w)) j" for j
    using inv same by (auto simp: own_inv_def durable_at_def own_simps)
  with inv show ?thesis by (simp add: own_inv_def keyed_write)
qed

lemma own_inv_persistNow:
  assumes "own_inv w" "\<forall>m'. live_meta w (m_ID m) = Some m' \<longrightarrow> own_of m = own_of m'"
  shows "own_inv (snd (persistNow now saved m w))"
proof -
  have "live_meta (w\<lparr>ow_dirty := D\<rparr>) i = live_meta w i" for D i by (simp add: live_meta_def)
  then show ?thesis
    using assms own_inv_write by (simp add: persistNow_def clearPersistDirty_def own_inv_dirty)
qed

lemma own_inv_purge_stored:
  assumes inv: "own_inv w" and gone: "ow_sessions w i = None"
  shows "own_inv (snd (purge_stored removed i w))"
proof -
  let ?w = "markPurged i w"
  have t: "tombs_ok w" using inv by (simp add: own_inv_def keyed_def)
  have lv: "live_meta ?w j = live_meta w j" "store_get ?w j = store_get w j" for j
    by (simp_all add: live_meta_def store_get_def own_simps)
  have "own_inv ?w"
    using inv gone markPurged_tombs [OF t, of i]
    by (auto simp: own_inv_def keyed_def durable_at_def lv own_simps)
  moreover have "live_meta ?w i = None" using gone by (simp add: live_meta_def own_simps)
  ultimately have "own_inv (?w\<lparr>ow_store := map_option (\<lambda>st. st(i := None)) (ow_store ?w)\<rparr>)"
    by (auto simp: own_inv_def keyed_def tombs_ok_def durable_at_def live_meta_def store_get_def
        split: option.splits if_splits)
  with \<open>own_inv ?w\<close> show ?thesis by (simp add: purge_stored_def deleteStored_def)
qed

lemma own_inv_close: "own_inv w \<Longrightarrow> own_inv (snd (closeMatching now saved i expect purge w))"
proof (cases "ow_sessions w i")
  case None
  assume "own_inv w"
  with None show ?thesis
    by (simp add: closeMatching_def close_remove_def clearPersistDirty_def own_inv_dirty own_inv_purge_stored)
next
  case (Some e)
  assume inv: "own_inv w"
  let ?w = "clearPersistDirty i (w\<lparr>ow_sessions := (ow_sessions w)(i := None)\<rparr>)"
  have "m_ID (le_meta e) = i" using inv Some by (simp add: own_inv_def keyed_def)
  moreover have "own_inv ?w" "ow_sessions ?w i = None" "live_meta ?w i = None"
    using own_inv_remove [OF inv, of i] by (simp_all add: clearPersistDirty_def own_inv_dirty live_meta_def)
  ultimately show ?thesis
    using inv Some own_inv_purge_stored own_inv_persistNow [of ?w "closed_meta e"]
    by (simp add: closeMatching_def close_remove_def closed_meta_own)
qed

lemma own_inv_create:
  assumes inv: "own_inv w" and new: "ow_sessions w (m_ID (le_meta e)) = None"
  shows "own_inv (snd (create_tail now saved saved2 e w))"
proof -
  let ?i = "m_ID (le_meta e)"
  let ?w1 = "clearPurged ?i (w\<lparr>ow_sessions := (ow_sessions w)(?i \<mapsto> e)\<rparr>)"
  let ?w2 = "snd (persistNow now saved (le_meta e) ?w1)"
  have t: "tombs_ok (w\<lparr>ow_sessions := (ow_sessions w)(?i \<mapsto> e)\<rparr>)"
    using inv by (simp add: own_inv_def keyed_def tombs_ok_def)
  have sg: "store_get ?w1 j = store_get w j" for j
    by (simp add: store_get_def own_simps)
  have key1: "keyed ?w1"
    using inv clearPurged_tombs [OF t, of ?i] by (auto simp: own_inv_def keyed_def sg own_simps)
  have lm: "j \<noteq> ?i \<Longrightarrow> live_meta ?w1 j = live_meta w j" "live_meta ?w1 ?i = (if le_dead e then None else Some (le_meta e))" for j
    by (simp_all add: live_meta_def own_simps)
  have notp: "?i \<notin> ow_purged ?w1" using clearPurged_tombs [OF t, of ?i] by simp
  have d2: "durable_at ?w2 j" if "j \<noteq> ?i \<or> fst (persistNow now saved (le_meta e) ?w1)" for j
    using that inv notp lm sg by (auto simp: own_inv_def durable_at_def own_simps dest: ok_landed)
  have key2: "keyed ?w2" by (rule keyed_persistNow [OF key1])
  show ?thesis
  proof (cases "fst (persistNow now saved (le_meta e) ?w1)")
    case True
    with d2 key2 show ?thesis by (simp add: create_tail_def Let_def split_beta own_inv_def)
  next
    case False
    let ?w3 = "clearPersistDirty ?i (?w2\<lparr>ow_sessions := (ow_sessions ?w2)(?i := None)\<rparr>)"
    have "own_inv (?w2\<lparr>ow_sessions := (ow_sessions ?w2)(?i := None)\<rparr>)"
      by (rule own_inv_removeI [OF key2]) (use d2 in blast)
    then have i3: "own_inv ?w3" by (simp add: clearPersistDirty_def own_inv_dirty)
    have "live_meta ?w3 ?i = None" by (simp add: clearPersistDirty_def live_meta_def)
    with i3 have "own_inv (snd (persistNow now saved2 (closed_meta e) ?w3))"
      by (intro own_inv_persistNow) (simp_all add: closed_meta_own)
    moreover have "ow_sessions ?w2 ?i = Some e" by (simp add: own_simps)
    ultimately show ?thesis using False
      by (simp add: create_tail_def Let_def split_beta closeMatching_def close_remove_def)
  qed
qed

lemma own_inv_touch:
  assumes "own_inv w" "ow_sessions w i = Some e" "own_of m = own_of (le_meta e)" "m_ID m = i"
    "le_dead e \<longrightarrow> dead"
  shows "own_inv (touch_entry i m dead w)"
proof -
  have "durable_at (touch_entry i m dead w) j" for j
    using assms by (cases "j = i") (auto simp: own_inv_def durable_at_def touch_entry_def live_meta_def store_get_def)
  moreover have "keyed (touch_entry i m dead w)"
    using assms by (auto simp: own_inv_def keyed_def touch_entry_def tombs_ok_def store_get_def)
  ultimately show ?thesis by (simp add: own_inv_def)
qed

lemma own_inv_flush: "own_inv w \<Longrightarrow> own_inv (FlushPersist now saved ids w)"
proof -
  have step: "own_inv (flush_write now saved (flush_read i w1) w1)" if inv: "own_inv w1" for i w1
  proof (cases "ow_sessions w1 i")
    case (Some e)
    then have "m_ID (le_meta e) = i" using inv by (simp add: own_inv_def keyed_def)
    then show ?thesis using own_inv_write [OF inv, of "le_meta e"] Some
      by (auto simp: flush_write_def flush_read_def live_meta_def split: if_splits)
  qed (simp add: flush_write_def flush_read_def inv)
  have "own_inv w1 \<Longrightarrow> own_inv (fold (\<lambda>i w1. flush_write now saved (flush_read i w1) w1) ids w1)" for w1
    by (induction ids arbitrary: w1) (simp_all add: step)
  then show "own_inv w \<Longrightarrow> own_inv (FlushPersist now saved ids w)"
    by (simp add: FlushPersist_def own_inv_dirty)
qed

lemma own_reach_inv: "own_reach w \<Longrightarrow> own_inv w"
proof (induction rule: own_reach.induct)
  case (rch_init w)
  then show ?case
    by (simp add: own_inv_def keyed_def tombs_ok_def durable_at_def live_meta_def)
qed (simp_all add: own_inv_Release own_inv_Claim own_inv_Authorize own_inv_close own_inv_create
      own_inv_touch own_inv_flush persist_def own_inv_dirty)

subsection \<open>Interleaving\<close>

text \<open>
  A configuration: the shared state, per session id the operation holding its lock with the
  metadata it is to write and whether it has written it, and the metadata that flushes and
  closings have read and not yet written. \<open>lockCreate\<close> admits one holder per id; \<open>create\<close>
  takes the same lock, so it is a step only while the lock is free.
\<close>

datatype locked_op =
    OpRelease string string string
  | OpClaim string
  | OpTouch string

record own_cfg =
  cf_owners :: owners
  cf_lock :: "string \<rightharpoonup> locked_op \<times> Meta \<times> bool"
  cf_flight :: "Meta list"

definition touch_check :: "string \<Rightarrow> string \<Rightarrow> owners \<Rightarrow> Meta result" where
  "touch_check i d w =
    (case live_meta w i of
       Some m \<Rightarrow> if OwnerDeviceID m = [] \<and> d \<noteq> [] then Inr (touched_meta d m) else Inl ErrForbidden
     | None \<Rightarrow> Inl ErrNotLive)"

fun op_check :: "locked_op \<Rightarrow> string \<Rightarrow> owners \<Rightarrow> Meta result" where
  "op_check (OpRelease d to nonce) i w = release_check nonce i d to w"
| "op_check (OpClaim d) i w = claim_check i d w"
| "op_check (OpTouch d) i w = touch_check i d w"

fun op_stamp :: "locked_op \<Rightarrow> string \<Rightarrow> owners \<Rightarrow> owners" where
  "op_stamp (OpRelease d to nonce) i w = stamp_meta i (released_meta to nonce) w"
| "op_stamp (OpClaim d) i w = snd (claim_stamp i d w)"
| "op_stamp (OpTouch d) i w = stamp_meta i (touch_stamp d) w"

inductive own_step :: "own_cfg \<Rightarrow> own_cfg \<Rightarrow> bool" where
  st_check: "cf_lock c i = None \<Longrightarrow> op_check q i (cf_owners c) = Inr m \<Longrightarrow>
    own_step c (c\<lparr>cf_lock := (cf_lock c)(i \<mapsto> (q, m, False))\<rparr>)"
| st_write: "cf_lock c i = Some (q, m, False) \<Longrightarrow> fst (persistNow now saved m (cf_owners c)) \<Longrightarrow>
    own_step c (c\<lparr>cf_owners := snd (persistNow now saved m (cf_owners c)),
                 cf_lock := (cf_lock c)(i \<mapsto> (q, m, True))\<rparr>)"
| st_fail: "cf_lock c i = Some (q, m, False) \<Longrightarrow> \<not> fst (persistNow now saved m (cf_owners c)) \<Longrightarrow>
    own_step c (c\<lparr>cf_owners := snd (persistNow now saved m (cf_owners c)), cf_lock := (cf_lock c)(i := None)\<rparr>)"
| st_stamp: "cf_lock c i = Some (q, m, True) \<Longrightarrow>
    own_step c (c\<lparr>cf_owners := op_stamp q i (cf_owners c), cf_lock := (cf_lock c)(i := None)\<rparr>)"
| st_stored: "cf_lock c i = None \<Longrightarrow> live_meta (cf_owners c) i = None \<Longrightarrow>
    own_step c (c\<lparr>cf_owners := snd (authorize now saved i d True True (cf_owners c))\<rparr>)"
| st_create: "cf_lock c i = None \<Longrightarrow> ow_sessions (cf_owners c) i = None \<Longrightarrow> m_ID (le_meta e) = i \<Longrightarrow>
    own_step c (c\<lparr>cf_owners := snd (create_tail now saved saved2 e (cf_owners c))\<rparr>)"
| st_touch: "ow_sessions (cf_owners c) i = Some e \<Longrightarrow> own_of m = own_of (le_meta e) \<Longrightarrow> m_ID m = i \<Longrightarrow>
    (le_dead e \<longrightarrow> dead) \<Longrightarrow> own_step c (c\<lparr>cf_owners := touch_entry i m dead (cf_owners c)\<rparr>)"
| st_close: "close_remove i expect (cf_owners c) = (Inr (Some e), w1) \<Longrightarrow>
    own_step c (c\<lparr>cf_owners := w1, cf_flight := closed_meta e # cf_flight c\<rparr>)"
| st_purge: "close_remove i expect (cf_owners c) = (Inr r, w1) \<Longrightarrow>
    own_step c (c\<lparr>cf_owners := snd (purge_stored removed i w1)\<rparr>)"
| st_read: "flush_read i (cf_owners c) = Some m \<Longrightarrow> own_step c (c\<lparr>cf_flight := m # cf_flight c\<rparr>)"
| st_flush: "m \<in> set (cf_flight c) \<Longrightarrow>
    own_step c (c\<lparr>cf_owners := snd (writePersist now saved m (cf_owners c)),
                 cf_flight := remove1 m (cf_flight c)\<rparr>)"

inductive own_steps :: "own_cfg \<Rightarrow> bool" where
  own_start: "cf_lock c = (\<lambda>_. None) \<Longrightarrow> own_steps c"
| own_next: "own_steps c \<Longrightarrow> own_step c c' \<Longrightarrow> own_steps c'"

text \<open>The ownership part of an operation's check, which is all its stamp relies on.\<close>

fun op_enabled :: "locked_op \<Rightarrow> string \<times> string \<times> string \<Rightarrow> bool" where
  "op_enabled (OpRelease d to nonce) (ow, p, n) \<longleftrightarrow> ow = d \<and> d \<noteq> []"
| "op_enabled (OpClaim d) (ow, p, n) \<longleftrightarrow> d \<noteq> [] \<and> ow = [] \<and> (p = [] \<or> p = d)"
| "op_enabled (OpTouch d) (ow, p, n) \<longleftrightarrow> d \<noteq> [] \<and> ow = []"

lemma op_check_enabled:
  "op_check q i w = Inr m \<Longrightarrow> \<exists>m0. live_meta w i = Some m0 \<and> op_enabled q (own_of m0)"
  by (cases q) (auto simp: release_check_def claim_check_def touch_check_def own_of_def
      split: option.splits if_splits)

text \<open>No step of anyone else touches the ownership of a live session.\<close>

definition owned_part :: "owners \<Rightarrow> string \<Rightarrow> (string \<times> string \<times> string) option" where
  "owned_part w i = map_option own_of (live_meta w i)"

lemma owned_part_write [own_simps]:
  "owned_part (snd (writePersist now saved m w)) j = owned_part w j"
  "owned_part (snd (persistNow now saved m w)) j = owned_part w j"
  "owned_part (snd (Save now saved rec w)) j = owned_part w j"
  "owned_part (snd (purge_stored removed i w)) j = owned_part w j"
  by (simp_all add: owned_part_def live_meta_def own_simps Save_def purge_stored_def deleteStored_def)

lemma owned_part_stamp [own_simps]: "j \<noteq> i \<Longrightarrow> owned_part (op_stamp q i w) j = owned_part w j"
  by (cases q) (auto simp: owned_part_def own_simps claim_stamp_def split: option.splits)

lemma owned_part_close:
  "close_remove i expect w = (Inr r, w1) \<Longrightarrow> owned_part w1 j = (if j = i then None else owned_part w j)"
  by (auto simp: close_remove_def owned_part_def live_meta_def clearPersistDirty_def
      split: option.splits if_splits)

lemma owned_part_touch:
  "ow_sessions w i = Some e \<Longrightarrow> own_of m = own_of (le_meta e) \<Longrightarrow> (le_dead e \<longrightarrow> dead) \<Longrightarrow>
    owned_part (touch_entry i m dead w) j = owned_part w j \<or> owned_part (touch_entry i m dead w) j = None"
  by (auto simp: touch_entry_def owned_part_def live_meta_def)

lemma close_sessions_other:
  "j \<noteq> i \<Longrightarrow> ow_sessions (snd (closeMatching now saved i expect False w)) j = ow_sessions w j"
  by (auto simp: closeMatching_def close_remove_def clearPersistDirty_def persistNow_frame
      split: option.splits)

lemma create_sessions_other:
  assumes "j \<noteq> m_ID (le_meta e)"
  shows "ow_sessions (snd (create_tail now saved saved2 e w)) j = ow_sessions w j"
proof -
  let ?w1 = "clearPurged (m_ID (le_meta e)) (w\<lparr>ow_sessions := (ow_sessions w)(m_ID (le_meta e) \<mapsto> e)\<rparr>)"
  show ?thesis
    using assms close_sessions_other [OF assms]
    by (cases "fst (persistNow now saved (le_meta e) ?w1)")
       (simp_all add: create_tail_def Let_def split_beta persistNow_frame tombs_frame)
qed

lemma owned_part_create:
  "j \<noteq> m_ID (le_meta e) \<Longrightarrow> owned_part (snd (create_tail now saved saved2 e w)) j = owned_part w j"
  by (simp add: owned_part_def live_meta_def create_sessions_other)

lemma owned_part_stored:
  "live_meta w i = None \<Longrightarrow> owned_part (snd (authorize now saved i d True True w)) j = owned_part w j"
  by (auto simp: authorize_def Save_def owned_part_def live_meta_def split: option.splits bool.splits)

lemmas owned_part_simps = owned_part_write owned_part_close owned_part_stored

lemma own_step_frame:
  assumes "own_step c c'" "cf_lock c i = Some l"
  shows "owned_part (cf_owners c') i = owned_part (cf_owners c) i \<or>
         owned_part (cf_owners c') i = None \<or>
         (\<exists>q m. l = (q, m, True) \<and> cf_owners c' = op_stamp q i (cf_owners c) \<and> cf_lock c' i = None)"
  using assms
proof (induction rule: own_step.induct)
  case (st_stamp c j q m)
  then show ?case by (cases "i = j") (auto simp: owned_part_stamp)
next
  case (st_create c j e now saved)
  then show ?case by (cases "i = j") (auto simp: owned_part_create)
next
  case (st_touch c j e m dead)
  then show ?case using owned_part_touch [of "cf_owners c" j e m dead i] by auto
qed (auto simp: owned_part_simps)

definition locks_ok :: "own_cfg \<Rightarrow> bool" where
  "locks_ok c \<longleftrightarrow> (\<forall>i q m b t. cf_lock c i = Some (q, m, b) \<longrightarrow> owned_part (cf_owners c) i = Some t \<longrightarrow>
     op_enabled q t)"

lemma own_step_lock:
  assumes "own_step c c'" "cf_lock c' i = Some (q, m, b)"
  shows "(\<exists>b'. cf_lock c i = Some (q, m, b')) \<or> cf_lock c i = None \<and> cf_owners c' = cf_owners c \<and>
    op_check q i (cf_owners c) = Inr m"
  using assms by (induction rule: own_step.induct) (auto split: if_splits)

lemma own_steps_locks: "own_steps c \<Longrightarrow> locks_ok c"
proof (induction rule: own_steps.induct)
  case (own_start c)
  then show ?case by (simp add: locks_ok_def)
next
  case (own_next c c')
  show ?case unfolding locks_ok_def
  proof (intro allI impI)
    fix i q m b t
    assume lk: "cf_lock c' i = Some (q, m, b)" and t: "owned_part (cf_owners c') i = Some t"
    from own_step_lock [OF own_next.hyps(2) lk] show "op_enabled q t"
    proof
      assume "\<exists>b'. cf_lock c i = Some (q, m, b')"
      then obtain b' where b': "cf_lock c i = Some (q, m, b')" by blast
      with own_step_frame [OF own_next.hyps(2) b'] lk t have "owned_part (cf_owners c) i = Some t" by auto
      with own_next.IH b' show ?thesis unfolding locks_ok_def by blast
    next
      assume "cf_lock c i = None \<and> cf_owners c' = cf_owners c \<and> op_check q i (cf_owners c) = Inr m"
      with t op_check_enabled [of q i "cf_owners c" m] show ?thesis by (auto simp: owned_part_def)
    qed
  qed
qed

lemma own_step_change:
  assumes "own_step c c'" "owned_part (cf_owners c) i = Some t" "owned_part (cf_owners c') i = Some t'" "t' \<noteq> t"
  shows "\<exists>q m. cf_lock c i = Some (q, m, True) \<and> cf_owners c' = op_stamp q i (cf_owners c)"
  using assms
proof (induction rule: own_step.induct)
  case (st_stamp c j q m)
  then show ?case by (cases "i = j") (auto simp: owned_part_stamp)
next
  case (st_create c j e now saved)
  then show ?case
    by (cases "i = j") (auto simp: owned_part_create, simp add: owned_part_def live_meta_def)
next
  case (st_touch c j e m dead)
  then show ?case using owned_part_touch [of "cf_owners c" j e m dead i] by auto
qed (auto simp: owned_part_simps split: if_splits)

lemma op_stamp_owned:
  assumes "owned_part w i = Some t" "op_enabled q t"
  shows "owned_part (op_stamp q i w) i = Some (case q of OpRelease d to nonce \<Rightarrow> ([], to, nonce)
    | OpClaim d \<Rightarrow> (d, [], []) | OpTouch d \<Rightarrow> (d, snd t))"
  using assms
proof -
  obtain m where m: "live_meta w i = Some m" "t = own_of m" using assms(1) by (auto simp: owned_part_def)
  then show ?thesis using assms(2)
    by (cases q) (simp_all add: owned_part_def own_simps claim_stamp_def touch_stamp_def, simp_all add: own_of_def)
qed

subsection \<open>The list a device sees\<close>

text \<open>
  \<open>order\<close> is the order in which the live map is ranged over, \<open>thinking\<close> what a live session
  reports of its thinking mutability, \<open>listed\<close> the outcome of \<open>store.List\<close>: its records
  and the number of rows it skipped, or nothing when it fails.
\<close>

record list_snapshot =
  ls_Sessions :: "Meta list"
  ls_Complete :: bool
  ls_Degraded :: bool
  ls_Skipped :: nat

definition meta_of_record :: "Record \<Rightarrow> Meta" where
  "meta_of_record r =
    \<lparr>m_ID = r_ID r, m_Provider = r_Provider r, m_Name = r_Name r,
     m_NameSource = effectiveNameSource (r_Name r) (r_NameSource r), m_Model = r_Model r,
     m_ThinkingLevel = r_ThinkingLevel r, m_ThinkingMutability = [], m_Turns = r_Turns r,
     m_InputTokens = r_InputTokens r, m_OutputTokens = r_OutputTokens r,
     m_CachedTokens = r_CachedTokens r, m_SessionCost = r_SessionCost r, m_ModeID = r_ModeID r,
     m_CollaborationModeID = r_CollaborationModeID r, m_PermissionProfileID = r_PermissionProfileID r,
     m_ApprovalsReviewer = r_ApprovalsReviewer r, m_ServiceTier = r_ServiceTier r,
     m_Personality = r_Personality r, m_CWD = r_CWD r, m_AgentSessionID = r_AgentSessionID r,
     m_AgentSessionAliases = r_AgentSessionAliases r, OwnerDeviceID = r_OwnerDeviceID r,
     PendingHandoffTo = r_PendingHandoffTo r, HandoffNonce = r_HandoffNonce r,
     m_CreatedAt = r_CreatedAt r, m_UpdatedAt = r_UpdatedAt r, m_Status = r_Status r,
     m_Live = False, m_LastSeq = r_LastSeq r\<rparr>"

definition live_row :: "(string \<Rightarrow> string option) \<Rightarrow> string \<Rightarrow> Meta \<Rightarrow> Meta" where
  "live_row thinking i m =
    (let m1 = m\<lparr>m_Live := True\<rparr>
     in case thinking i of Some t \<Rightarrow> m1\<lparr>m_ThinkingMutability := t\<rparr> | None \<Rightarrow> m1)"

definition may_list :: "string \<Rightarrow> Meta \<Rightarrow> bool" where
  "may_list deviceID m \<longleftrightarrow> deviceID = [] \<or> visibleTo (OwnerDeviceID m) (PendingHandoffTo m) deviceID"

definition live_rows :: "(string \<Rightarrow> string option) \<Rightarrow> string list \<Rightarrow> string \<Rightarrow> owners \<Rightarrow> Meta list" where
  "live_rows thinking order d w =
    filter (may_list d) (concat (map (\<lambda>i. case live_meta w i of Some m \<Rightarrow> [live_row thinking i m] | None \<Rightarrow> []) order))"

definition sort_time :: "Meta \<Rightarrow> gotime" where
  "sort_time m = (if IsZero (m_UpdatedAt m) then m_CreatedAt m else m_UpdatedAt m)"

fun string_less :: "string \<Rightarrow> string \<Rightarrow> bool" where
  "string_less xs [] \<longleftrightarrow> False"
| "string_less [] (y # ys) \<longleftrightarrow> True"
| "string_less (x # xs) (y # ys) \<longleftrightarrow> byte_of x < byte_of y \<or> x = y \<and> string_less xs ys"

definition row_less :: "Meta \<Rightarrow> Meta \<Rightarrow> bool" where
  "row_less a b =
    (if m_Live a \<noteq> m_Live b then m_Live a
     else if sort_time a \<noteq> sort_time b then sort_time b < sort_time a
     else string_less (m_ID b) (m_ID a))"

text \<open>\<open>sort.SliceStable\<close>, as insertion behind the elements that come before the new one.\<close>

fun insert_stable :: "('a \<Rightarrow> 'a \<Rightarrow> bool) \<Rightarrow> 'a \<Rightarrow> 'a list \<Rightarrow> 'a list" where
  "insert_stable lt x [] = [x]"
| "insert_stable lt x (y # ys) = (if lt y x then y # insert_stable lt x ys else x # y # ys)"

definition SliceStable :: "('a \<Rightarrow> 'a \<Rightarrow> bool) \<Rightarrow> 'a list \<Rightarrow> 'a list" where
  "SliceStable lt xs = foldr (insert_stable lt) xs []"

definition ListSnapshot ::
  "(string \<Rightarrow> string option) \<Rightarrow> string list \<Rightarrow> (Record list \<times> nat) option \<Rightarrow> string \<Rightarrow> owners \<Rightarrow> list_snapshot" where
  "ListSnapshot thinking order listed d w =
    (let live = live_rows thinking order d w in
     if ow_store w = None
     then \<lparr>ls_Sessions = live, ls_Complete = True, ls_Degraded = False, ls_Skipped = 0\<rparr>
     else case listed of
       None \<Rightarrow> \<lparr>ls_Sessions = live, ls_Complete = False, ls_Degraded = True, ls_Skipped = 0\<rparr>
     | Some (recs, skipped) \<Rightarrow>
         let stored = filter (may_list d) (map meta_of_record
               (filter (\<lambda>r. r_ID r \<notin> m_ID ` set live) recs))
         in \<lparr>ls_Sessions = SliceStable row_less (live @ stored), ls_Complete = (skipped = 0),
              ls_Degraded = (0 < skipped), ls_Skipped = skipped\<rparr>)"

lemma set_SliceStable [own_simps]: "set (SliceStable lt xs) = set xs"
proof -
  have "set (insert_stable lt x ys) = insert x (set ys)" for x ys
    by (induction ys) auto
  then show ?thesis by (induction xs) (simp_all add: SliceStable_def)
qed

lemma string_less_asym: "string_less s t \<Longrightarrow> \<not> string_less t s"
  by (induction s t rule: string_less.induct) auto

lemma string_less_negtrans: "\<not> string_less s t \<Longrightarrow> \<not> string_less t u \<Longrightarrow> \<not> string_less s u"
proof (induction s u arbitrary: t rule: string_less.induct)
  case (2 y ys)
  then show ?case by (cases t) auto
next
  case (3 x xs y ys)
  then show ?case
    by (cases t) (auto simp: byte_of_def not_less dest: order.antisym)
qed simp

lemma row_less_asym: "row_less a b \<Longrightarrow> \<not> row_less b a"
  by (auto simp: row_less_def dest: string_less_asym split: if_splits)

lemma row_less_negtrans: "\<not> row_less b a \<Longrightarrow> \<not> row_less c b \<Longrightarrow> \<not> row_less c a"
  using string_less_negtrans [of "m_ID a" "m_ID b" "m_ID c"]
  by (cases "m_Live a"; cases "m_Live b"; cases "m_Live c")
     (auto simp: row_less_def split: if_splits)

lemma SliceStable_sorted:
  assumes asym: "\<And>a b. lt a b \<Longrightarrow> \<not> lt b a"
    and negtrans: "\<And>a b c. \<not> lt b a \<Longrightarrow> \<not> lt c b \<Longrightarrow> \<not> lt c a"
  shows "sorted_wrt (\<lambda>a b. \<not> lt b a) (SliceStable lt xs)"
proof -
  have st: "set (insert_stable lt x ys) = insert x (set ys)" for x ys by (induction ys) auto
  have "sorted_wrt (\<lambda>a b. \<not> lt b a) (insert_stable lt x ys)" if "sorted_wrt (\<lambda>a b. \<not> lt b a) ys" for x ys
    using that
  proof (induction ys)
    case (Cons y ys)
    show ?case
    proof (cases "lt y x")
      case True
      with Cons asym show ?thesis by (simp add: st)
    next
      case False
      then have "\<not> lt z x" if "z \<in> set ys" for z using negtrans [of y x z] Cons.prems that by simp
      with False Cons.prems show ?thesis by simp
    qed
  qed simp
  then show ?thesis by (induction xs) (simp_all add: SliceStable_def)
qed

subsection \<open>Properties\<close>

definition ex_meta :: "string \<Rightarrow> string \<Rightarrow> Meta" where
  "ex_meta d to = zero_meta\<lparr>m_ID := ''s'', OwnerDeviceID := d, PendingHandoffTo := to, m_CreatedAt := 1\<rparr>"

definition ex_owners :: "string \<Rightarrow> string \<Rightarrow> owners" where
  "ex_owners d to =
    \<lparr>ow_sessions = [''s'' \<mapsto> \<lparr>le_meta = ex_meta d to, le_sess = 0, le_seq = 0, le_dead = False\<rparr>],
     ow_store = Some [''s'' \<mapsto> to_record 5 (ex_meta d to)], ow_purged = {}, ow_purgedOrder = [], ow_dirty = {}\<rparr>"

definition ex_cfg :: "(string \<rightharpoonup> locked_op \<times> Meta \<times> bool) \<Rightarrow> owners \<Rightarrow> own_cfg" where
  "ex_cfg l w = \<lparr>cf_owners = w, cf_lock = l, cf_flight = []\<rparr>"

lemma ex_owners_simps [own_simps]:
  "live_meta (ex_owners d to) ''s'' = Some (ex_meta d to)"
  "ow_sessions (ex_owners d to) ''s'' = Some \<lparr>le_meta = ex_meta d to, le_sess = 0, le_seq = 0, le_dead = False\<rparr>"
  "ow_store (ex_owners d to) = Some [''s'' \<mapsto> to_record 5 (ex_meta d to)]"
  "ow_purged (ex_owners d to) = {}" "m_ID (ex_meta d to) = ''s''" "OwnerDeviceID (ex_meta d to) = d"
  "PendingHandoffTo (ex_meta d to) = to" "own_of (ex_meta d to) = (d, to, [])"
  by (simp_all add: ex_owners_def live_meta_def ex_meta_def own_of_def zero_meta_def)

lemma ex_owners_create:
  "snd (create_tail 5 Written Written \<lparr>le_meta = ex_meta d to, le_sess = 0, le_seq = 0, le_dead = False\<rparr>
     \<lparr>ow_sessions = (\<lambda>_. None), ow_store = Some (\<lambda>_. None), ow_purged = {}, ow_purgedOrder = [], ow_dirty = {}\<rparr>) =
   ex_owners d to"
  by (simp add: create_tail_def clearPurged_def persistNow_def clearPersistDirty_def writePersist_def
      isPurged_def Save_def ex_owners_def ex_meta_def to_record_def)

lemma ex_owners_reach: "own_reach (ex_owners d to)"
  unfolding ex_owners_create [symmetric]
  by (rule rch_create, rule rch_init) (simp_all add: store_get_def)

text \<open>C11: Whatever runs at the same time, closings, debounced writes, creations and other claimers
  included, the owner, handoff target and nonce of a session that stays live change in one step
  only when the holder of its lock, having written its record, stamps its change: its owner
  releases it, or it has no owner and a device it may go to by Claim takes it and clears the
  handoff, or it has no owner and a device takes it by first touch. In particular ownership never
  moves from one device to another without a release in between, and of two devices racing for a
  released session one wins.
\<close>

theorem ownership_changes:
  assumes "own_steps c" "own_step c c'"
    and "owned_part (cf_owners c) i = Some (ow, pend, nonce)"
    and "owned_part (cf_owners c') i = Some t'" "t' \<noteq> (ow, pend, nonce)"
  shows "(\<exists>to n m. cf_lock c i = Some (OpRelease ow to n, m, True) \<and> ow \<noteq> [] \<and> t' = ([], to, n)) \<or>
    (\<exists>d m. cf_lock c i = Some (OpClaim d, m, True) \<and> ow = [] \<and> d \<noteq> [] \<and> pend \<in> {[], d} \<and> t' = (d, [], [])) \<or>
    (\<exists>d m. cf_lock c i = Some (OpTouch d, m, True) \<and> ow = [] \<and> d \<noteq> [] \<and> t' = (d, pend, nonce))"
proof -
  obtain q m where q: "cf_lock c i = Some (q, m, True)" "cf_owners c' = op_stamp q i (cf_owners c)"
    using own_step_change [OF assms(2,3,4,5)] by blast
  have en: "op_enabled q (ow, pend, nonce)"
    using own_steps_locks [OF assms(1), unfolded locks_ok_def] q(1) assms(3) by blast
  show ?thesis
    using op_stamp_owned [OF assms(3) en] q en assms(4) by (cases q) auto
qed

theorem ownership_changes_witness:
  "\<exists>c c' t'. own_step c c' \<and> owned_part (cf_owners c') ''s'' = Some t' \<and>
     (\<exists>to n m. cf_lock c ''s'' = Some (OpRelease ''a'' to n, m, True) \<and> t' = ([], to, n))"
proof -
  let ?m = "released_meta ''b'' ''n'' (ex_meta ''a'' [])"
  let ?w = "ex_owners ''a'' []" let ?w1 = "snd (persistNow 6 Written ?m ?w)"
  let ?q = "OpRelease ''a'' ''b'' ''n''"
  let ?c = "ex_cfg [''s'' \<mapsto> (?q, ?m, True)] ?w1"
  have "own_step (ex_cfg (\<lambda>_. None) ?w) (ex_cfg [''s'' \<mapsto> (?q, ?m, False)] ?w)"
    using st_check [of "ex_cfg (\<lambda>_. None) ?w" "''s''" ?q ?m]
    by (simp add: ex_cfg_def release_check_def own_simps)
  moreover have "own_step (ex_cfg [''s'' \<mapsto> (?q, ?m, False)] ?w) ?c"
    using st_write [of "ex_cfg [''s'' \<mapsto> (?q, ?m, False)] ?w" "''s''" ?q ?m 6 Written]
    by (simp add: ex_cfg_def own_simps)
  ultimately have r: "own_steps ?c"
    using own_start [of "ex_cfg (\<lambda>_. None) ?w"] own_next by (simp add: ex_cfg_def) (meson own_next)
  have s: "own_step ?c (?c\<lparr>cf_owners := op_stamp ?q ''s'' ?w1, cf_lock := (\<lambda>_. None)\<rparr>)"
    using st_stamp [of ?c "''s''" ?q ?m] by (simp add: ex_cfg_def)
  have p: "owned_part (cf_owners ?c) ''s'' = Some (''a'', [], [])"
    "owned_part (op_stamp ?q ''s'' ?w1) ''s'' = Some ([], ''b'', ''n'')"
    by (simp_all add: ex_cfg_def owned_part_def own_simps)
  show ?thesis
    using ownership_changes [OF r s p(1)] p(2) s by (force simp: ex_cfg_def)
qed



text \<open>An ownership operation that reports an error leaves the live sessions as they were, and
  the store too, unless the error is that the directory could not be synced.
\<close>

theorem failed_ops_change_nothing:
  "(\<forall>nonce to. fst (Release now saved nonce i d to w) = Inl err \<longrightarrow>
     ow_sessions (snd (Release now saved nonce i d to w)) = ow_sessions w \<and>
     (saved \<noteq> Unsynced \<longrightarrow> store_get (snd (Release now saved nonce i d to w)) = store_get w)) \<and>
   (fst (Claim now saved i d w) = Inl err \<longrightarrow>
     ow_sessions (snd (Claim now saved i d w)) = ow_sessions w \<and>
     (saved \<noteq> Unsynced \<longrightarrow> store_get (snd (Claim now saved i d w)) = store_get w)) \<and>
   (\<forall>claim. fst (Authorize now saved i d claim w) = Inl err \<longrightarrow>
     ow_sessions (snd (Authorize now saved i d claim w)) = ow_sessions w \<and>
     (saved \<noteq> Unsynced \<longrightarrow> store_get (snd (Authorize now saved i d claim w)) = store_get w))"
proof (intro conjI allI impI ext)
  show "fst (Release now saved nonce i d to w) = Inl err \<Longrightarrow>
      ow_sessions (snd (Release now saved nonce i d to w)) j = ow_sessions w j"
    "fst (Release now saved nonce i d to w) = Inl err \<Longrightarrow> saved \<noteq> Unsynced \<Longrightarrow>
      store_get (snd (Release now saved nonce i d to w)) j = store_get w j" for nonce to j
    by (cases rule: Release_cases [of now saved nonce i d to w]; force simp: own_simps synced_landed)+
  show "fst (Claim now saved i d w) = Inl err \<Longrightarrow> ow_sessions (snd (Claim now saved i d w)) j = ow_sessions w j"
    "fst (Claim now saved i d w) = Inl err \<Longrightarrow> saved \<noteq> Unsynced \<Longrightarrow>
      store_get (snd (Claim now saved i d w)) j = store_get w j" for j
    by (cases rule: Claim_cases [of now saved i d w]; force simp: own_simps synced_landed)+
  show "fst (Authorize now saved i d claim w) = Inl err \<Longrightarrow>
      ow_sessions (snd (Authorize now saved i d claim w)) j = ow_sessions w j" for claim j
    by (cases rule: Authorize_cases [of now saved i d claim w]; force simp: own_simps Save_def)
  show "fst (Authorize now saved i d claim w) = Inl err \<Longrightarrow> saved \<noteq> Unsynced \<Longrightarrow>
      store_get (snd (Authorize now saved i d claim w)) j = store_get w j" for claim j
    by (cases rule: Authorize_cases [of now saved i d claim w]; force simp: own_simps synced_landed)
qed

theorem failed_ops_change_nothing_witness:
  "ow_sessions (snd (Claim 7 NotWritten ''s'' ''b'' (ex_owners [] []))) = ow_sessions (ex_owners [] [])"
  using failed_ops_change_nothing [of 7 NotWritten "''s''" "''b''" "ex_owners [] []" ErrPersist]
  by (simp add: Claim_def claim_check_def own_simps split_beta)

text \<open>When only the sync of the directory fails, Release reports an error and the live session
  keeps its owner, but the record in the store is already the released one. After a restart on that
  store any device takes the session by touching it.
\<close>

theorem unsynced_release:
  assumes "own_reach w" "live_meta w i = Some m" "OwnerDeviceID m = d" "d \<noteq> []" "ow_store w \<noteq> None" "x \<noteq> []"
  shows "\<exists>w1 r. Release now Unsynced nonce i d to w = (Inl ErrPersist, w1) \<and> live_meta w1 i = Some m \<and>
    store_get w1 i = Some r \<and> r_OwnerDeviceID r = [] \<and>
    fst (Authorize now2 Written i x True
      (w1\<lparr>ow_sessions := (\<lambda>_. None), ow_purged := {}, ow_purgedOrder := [], ow_dirty := {}\<rparr>)) = Inr ()"
proof -
  let ?m = "released_meta to nonce m" let ?w1 = "snd (persistNow now Unsynced ?m w)"
  have key: "m_ID m = i" "i \<notin> ow_purged w"
    using own_reach_inv [OF assms(1)] assms(2) by (auto simp: own_inv_def keyed_def elim!: live_metaE)
  have id: "m_ID ?m = i" using key by (simp add: released_meta_def)
  have f: "\<not> fst (persistNow now Unsynced ?m w)" using assms(5) key id by (simp add: own_simps)
  have rel: "Release now Unsynced nonce i d to w = (Inl ErrPersist, ?w1)"
    using f assms(2,3,4) by (auto simp: Release_def release_check_def split_beta)
  have st: "\<exists>r. store_get ?w1 i = Some r \<and> r_OwnerDeviceID r = []"
    using assms(5) key(2) id by (simp add: store_persistNow to_record_def released_meta_def)
  moreover have "fst (Authorize now2 Written i x True
      (?w1\<lparr>ow_sessions := (\<lambda>_. None), ow_purged := {}, ow_purgedOrder := [], ow_dirty := {}\<rparr>)) = Inr ()"
    using st assms(6) by (auto simp: Authorize_def authorize_def live_meta_def store_get_def Save_def)
  ultimately show ?thesis using rel assms(2) by (simp add: live_meta_persistNow)
qed

theorem unsynced_release_witness:
  "\<exists>w1 r. Release 6 Unsynced ''n'' ''s'' ''a'' [] (ex_owners ''a'' []) = (Inl ErrPersist, w1) \<and>
    store_get w1 ''s'' = Some r \<and> r_OwnerDeviceID r = []"
  using unsynced_release [OF ex_owners_reach [of "''a''" "[]"], of "''s''" "ex_meta ''a'' []" "''a''" "''x''" 6 "''n''" "[]" 7]
  by (auto simp: own_simps ex_meta_def)

lemma claim_check_stamped [own_simps]:
  "live_meta w i = Some m \<Longrightarrow> OwnerDeviceID m \<noteq> [] \<Longrightarrow> d \<noteq> [] \<Longrightarrow> claim_check i d w = Inl ErrNotReleased"
  by (simp add: claim_check_def)

lemma Claim_succeeds:
  assumes "live_meta w i = Some m" "OwnerDeviceID m = []" "PendingHandoffTo m = [] \<or> PendingHandoffTo m = d" "d \<noteq> []"
  shows "Claim now Written i d w =
    (Inr (claimed_meta d m), stamp_meta i (claimed_meta d) (snd (persistNow now Written (claimed_meta d m) w)))"
  using assms by (simp add: Claim_def claim_check_def claim_stamp_def split_beta persistNow_fails live_meta_persistNow)

text \<open>The handoff protocol. When the owner's release is written, the session has no owner and
  carries the target and nonce. A Claim by a device other than a named target is forbidden and
  changes nothing; one by the target, or by any device after an open release, succeeds and makes it
  the owner with the handoff cleared. After that every other Claim finds the session not released,
  and the old owner can no longer release it.
\<close>

theorem handoff_protocol:
  assumes "live_meta w i = Some m" "OwnerDeviceID m = d" "d \<noteq> []"
    and rel: "Release now Written nonce i d to w = (r, w1)"
  shows "r = Inr (released_meta to nonce m) \<and> live_meta w1 i = Some (released_meta to nonce m) \<and>
    (\<forall>d' sv. d' \<noteq> [] \<longrightarrow> to \<noteq> [] \<longrightarrow> d' \<noteq> to \<longrightarrow> Claim now2 sv i d' w1 = (Inl ErrForbidden, w1)) \<and>
    (\<forall>d'. d' \<noteq> [] \<longrightarrow> to = [] \<or> d' = to \<longrightarrow>
      (\<exists>m2 w2. Claim now2 Written i d' w1 = (Inr m2, w2) \<and> live_meta w2 i = Some m2 \<and>
         OwnerDeviceID m2 = d' \<and> PendingHandoffTo m2 = [] \<and> HandoffNonce m2 = [] \<and>
         (\<forall>d'' sv. d'' \<noteq> [] \<longrightarrow> Claim now3 sv i d'' w2 = (Inl ErrNotReleased, w2)) \<and>
         (d \<noteq> d' \<longrightarrow> (\<forall>sv n t. Release now3 sv n i d t w2 = (Inl ErrForbidden, w2)))))"
proof (intro conjI allI impI)
  have eq: "r = Inr (released_meta to nonce m)"
    "w1 = stamp_meta i (released_meta to nonce) (snd (persistNow now Written (released_meta to nonce m) w))"
    using rel assms(1-3) by (simp_all add: Release_def release_check_def split_beta persistNow_fails)
  show "r = Inr (released_meta to nonce m)" by (rule eq)
  show live: "live_meta w1 i = Some (released_meta to nonce m)"
    using assms(1) by (simp add: eq own_simps)
  show "Claim now2 sv i d' w1 = (Inl ErrForbidden, w1)" if "d' \<noteq> []" "to \<noteq> []" "d' \<noteq> to" for d' sv
    using that by (auto simp: Claim_def claim_check_def live meta_edits)
  fix d' assume d': "d' \<noteq> []" "to = [] \<or> d' = to"
  let ?m = "claimed_meta d' (released_meta to nonce m)"
  let ?w2 = "stamp_meta i (claimed_meta d') (snd (persistNow now2 Written ?m w1))"
  have c: "Claim now2 Written i d' w1 = (Inr ?m, ?w2)"
    using Claim_succeeds [OF live] d' by (auto simp: meta_edits)
  have l2: "live_meta ?w2 i = Some ?m" by (simp add: own_simps live)
  have "Claim now3 sv i d'' ?w2 = (Inl ErrNotReleased, ?w2)" if "d'' \<noteq> []" for d'' sv
    using claim_check_stamped [OF l2, of d''] that d' by (simp add: Claim_def meta_edits)
  moreover have "Release now3 sv n i d t ?w2 = (Inl ErrForbidden, ?w2)" if "d \<noteq> d'" for sv n t
    using that by (auto simp: Release_def release_check_def l2 meta_edits)
  ultimately show "\<exists>m2 w2. Claim now2 Written i d' w1 = (Inr m2, w2) \<and> live_meta w2 i = Some m2 \<and>
      OwnerDeviceID m2 = d' \<and> PendingHandoffTo m2 = [] \<and> HandoffNonce m2 = [] \<and>
      (\<forall>d'' sv. d'' \<noteq> [] \<longrightarrow> Claim now3 sv i d'' w2 = (Inl ErrNotReleased, w2)) \<and>
      (d \<noteq> d' \<longrightarrow> (\<forall>sv n t. Release now3 sv n i d t w2 = (Inl ErrForbidden, w2)))"
    using c l2 by (intro exI [of _ ?m] exI [of _ ?w2]) (simp add: claimed_meta_def)
qed

theorem handoff_protocol_witness:
  "\<exists>w1. Claim 7 Written ''s'' ''c'' w1 = (Inl ErrForbidden, w1) \<and> (\<exists>m2 w2. Claim 7 Written ''s'' ''b'' w1 = (Inr m2, w2)) \<and>
     w1 = snd (Release 6 Written ''n'' ''s'' ''a'' ''b'' (ex_owners ''a'' []))"
proof -
  let ?x = "Release 6 Written ''n'' ''s'' ''a'' ''b'' (ex_owners ''a'' [])"
  have eq: "?x = (fst ?x, snd ?x)" by simp
  have ne: "''a'' \<noteq> []" "''b'' \<noteq> []" "''c'' \<noteq> []" "''c'' \<noteq> ''b''" by simp_all
  note h = handoff_protocol [OF ex_owners_simps(1) ex_owners_simps(6) ne(1) eq]
  have "Claim 7 Written ''s'' ''c'' (snd ?x) = (Inl ErrForbidden, snd ?x)"
    by (rule h [THEN conjunct2, THEN conjunct2, THEN conjunct1, rule_format, OF ne(3) ne(2) ne(4)])
  moreover have "\<exists>m2 w2. Claim 7 Written ''s'' ''b'' (snd ?x) = (Inr m2, w2)"
    using h [THEN conjunct2, THEN conjunct2, THEN conjunct2, rule_format, OF ne(2) disjI2 [OF refl]] by blast
  ultimately show ?thesis by blast
qed

text \<open>A directed release does not hold against first touch: a device other than the named target
  that touches the session with a claiming call becomes its owner, the handoff stays pending on an
  owned session, and the target's own Claim is then refused.
\<close>

theorem first_touch_ignores_handoff:
  assumes "live_meta w i = Some m" "OwnerDeviceID m = []" "PendingHandoffTo m = to" "to \<noteq> []"
    and "d \<noteq> []" "d \<noteq> to"
  shows "\<not> visibleTo (OwnerDeviceID m) (PendingHandoffTo m) d \<and>
    (\<exists>w1 m1. Authorize now Written i d True w = (Inr (), w1) \<and> live_meta w1 i = Some m1 \<and>
      OwnerDeviceID m1 = d \<and> PendingHandoffTo m1 = to \<and>
      (\<forall>sv. Claim now2 sv i to w1 = (Inl ErrNotReleased, w1)))"
proof -
  let ?w1 = "stamp_meta i (touch_stamp d) (snd (persistNow now Written (touched_meta d m) w))"
  have a: "Authorize now Written i d True w = (Inr (), ?w1)"
    using assms by (simp add: Authorize_def authorize_def split_beta persistNow_fails)
  have l: "live_meta ?w1 i = Some (touched_meta d m)"
    using assms(1,2) by (simp add: own_simps touch_stamp_def)
  have "Claim now2 sv i to ?w1 = (Inl ErrNotReleased, ?w1)" for sv
    using claim_check_stamped [OF l, of to] assms(4,5) by (simp add: Claim_def meta_edits)
  with a l assms show ?thesis by (auto simp: visibleTo_def touched_meta_def)
qed

theorem first_touch_ignores_handoff_witness:
  "\<exists>w1. Authorize 6 Written ''s'' ''x'' True (ex_owners [] ''b'') = (Inr (), w1)"
  using first_touch_ignores_handoff [of "ex_owners [] ''b''" "''s''" "ex_meta [] ''b''" "''b''" "''x''" 6]
  by (auto simp: own_simps)

text \<open>A debounced write that read a session before a Claim and writes after it puts the old record
  back: the claim has been written and reported, the live session has its new owner, and the store
  again says it has none.
\<close>

theorem flush_reverts_claim:
  assumes "own_reach w" "live_meta w i = Some m" "ow_store w \<noteq> None"
    and "OwnerDeviceID m = []" "PendingHandoffTo m = [] \<or> PendingHandoffTo m = d" "d \<noteq> []"
  shows "\<exists>w1 m1 r1 r2. Claim now Written i d w = (Inr m1, w1) \<and> live_meta w1 i = Some m1 \<and>
    store_get w1 i = Some r1 \<and> r_OwnerDeviceID r1 = d \<and> OwnerDeviceID m1 = d \<and>
    store_get (flush_write now2 Written (flush_read i w) w1) i = Some r2 \<and> r_OwnerDeviceID r2 = []"
proof -
  let ?m = "claimed_meta d m"
  let ?w1 = "stamp_meta i (claimed_meta d) (snd (persistNow now Written ?m w))"
  have k: "m_ID m = i" "i \<notin> ow_purged w"
    using own_reach_inv [OF assms(1)] assms(2) by (auto simp: own_inv_def keyed_def elim!: live_metaE)
  have c: "Claim now Written i d w = (Inr ?m, ?w1)" by (rule Claim_succeeds [OF assms(2,4,5,6)])
  have "flush_read i w = Some m" using assms(2) by (auto simp: flush_read_def elim!: live_metaE)
  then have "store_get (flush_write now2 Written (flush_read i w) ?w1) i = Some (to_record now2 m)"
    using k assms(3) by (simp add: flush_write_def own_simps)
  moreover have "live_meta ?w1 i = Some ?m" "store_get ?w1 i = Some (to_record now ?m)"
    using k assms(2,3) by (simp_all add: own_simps)
  ultimately show ?thesis using c assms(4) by (auto simp: to_record_def claimed_meta_def)
qed

theorem flush_reverts_claim_witness:
  "\<exists>w1 m1. Claim 6 Written ''s'' ''b'' (ex_owners [] []) = (Inr m1, w1)"
  using flush_reverts_claim [OF ex_owners_reach [of "[]" "[]"], of "''s''" "ex_meta [] []" "''b''" 6 7]
  by (auto simp: own_simps)

text \<open>The list a device gets never shows it a session it may not see, judged by the live ownership
  where the session is live, even when the row comes from the store; and the list is ordered, live
  sessions first and then by time of last write, newest first.
\<close>

theorem list_hides_others:
  assumes "own_reach w" "d \<noteq> []"
    and "\<forall>r \<in> set recs. store_get w (r_ID r) = Some r"
  shows "(\<forall>row \<in> set (ls_Sessions (ListSnapshot thinking order (Some (recs, skipped)) d w)).
      visibleTo (OwnerDeviceID row) (PendingHandoffTo row) d \<and>
      (\<forall>m. live_meta w (m_ID row) = Some m \<longrightarrow> visibleTo (OwnerDeviceID m) (PendingHandoffTo m) d)) \<and>
    (ow_store w \<noteq> None \<longrightarrow>
      sorted_wrt (\<lambda>a b. \<not> row_less b a) (ls_Sessions (ListSnapshot thinking order (Some (recs, skipped)) d w)))"
proof (intro conjI ballI impI)
  have inv: "keyed w" "\<And>i. durable_at w i" using own_reach_inv [OF assms(1)] by (simp_all add: own_inv_def)
  let ?L = "ListSnapshot thinking order (Some (recs, skipped)) d w"
  fix row assume row: "row \<in> set (ls_Sessions ?L)"
  have "row \<in> set (live_rows thinking order d w) \<or>
      (\<exists>r \<in> set recs. row = meta_of_record r \<and> may_list d row \<and> ow_store w \<noteq> None)"
    using row by (auto simp: ListSnapshot_def Let_def set_SliceStable split: if_splits)
  then have "may_list d row \<and> (\<forall>m. live_meta w (m_ID row) = Some m \<longrightarrow>
      OwnerDeviceID m = OwnerDeviceID row \<and> PendingHandoffTo m = PendingHandoffTo row)"
  proof
    assume "row \<in> set (live_rows thinking order d w)"
    then obtain i m where r: "live_meta w i = Some m" "row = live_row thinking i m" "may_list d row"
      by (auto simp: live_rows_def split: option.splits) metis
    then have "m_ID m = i" using inv(1) by (auto simp: keyed_def elim!: live_metaE)
    with r show ?thesis by (auto simp: live_row_def Let_def split: option.splits)
  next
    assume "\<exists>r \<in> set recs. row = meta_of_record r \<and> may_list d row \<and> ow_store w \<noteq> None"
    then obtain r where r: "r \<in> set recs" "row = meta_of_record r" "may_list d row" "ow_store w \<noteq> None"
      by blast
    then have "store_get w (m_ID row) = Some r" using assms(3) by (simp add: meta_of_record_def)
    with r inv(2) [of "m_ID row"] show ?thesis
      by (auto simp: durable_at_def own_of_def own_of_record_def meta_of_record_def)
  qed
  then show "visibleTo (OwnerDeviceID row) (PendingHandoffTo row) d"
    "\<forall>m. live_meta w (m_ID row) = Some m \<longrightarrow> visibleTo (OwnerDeviceID m) (PendingHandoffTo m) d"
    using assms(2) by (auto simp: may_list_def)
next
  assume "ow_store w \<noteq> None"
  then show "sorted_wrt (\<lambda>a b. \<not> row_less b a) (ls_Sessions (ListSnapshot thinking order (Some (recs, skipped)) d w))"
    by (auto simp: ListSnapshot_def Let_def SliceStable_sorted [OF row_less_asym row_less_negtrans])
qed

theorem list_hides_others_witness:
  "sorted_wrt (\<lambda>a b. \<not> row_less b a) (ls_Sessions (ListSnapshot (\<lambda>_. None) [''s'']
     (Some ([to_record 5 (ex_meta ''a'' [])], 0)) ''b'' (ex_owners ''a'' [])))"
proof -
  have "\<forall>r \<in> set [to_record 5 (ex_meta ''a'' [])]. store_get (ex_owners ''a'' []) (r_ID r) = Some r"
    by (simp add: store_get_def own_simps)
  moreover have "''b'' \<noteq> []" by simp
  ultimately show ?thesis
    using list_hides_others [OF ex_owners_reach [of "''a''" "[]"], of "''b''" "[to_record 5 (ex_meta ''a'' [])]"
        "\<lambda>_. None" "[''s'']" 0] ex_owners_simps(3) [of "''a''" "[]"] by simp
qed

end
