(* ===== verification/Retention.thy ===== *)
theory Retention
  imports Event
begin

text \<open>
  Retention classes, the byte estimate of an event and the notice and command dedupers:
  \<open>internal/event/retention.go\<close> and \<open>dedupe.go\<close>.

  \<open>unsafe.Sizeof\<close> is a constant the compiler derives from a struct's field types. The
  model derives it the same way, by the layout rule of the 64-bit targets the program is built
  for: each field at the next multiple of its alignment, the whole rounded up to the largest
  alignment.
\<close>

subsection \<open>Classes\<close>

datatype event_class = ClassTelemetry | ClassProgress | ClassContent | ClassAnchor

fun class_rank :: "event_class \<Rightarrow> nat" where
  "class_rank ClassTelemetry = 0"
| "class_rank ClassProgress = 1"
| "class_rank ClassContent = 2"
| "class_rank ClassAnchor = 3"

text \<open>The classes carry the order of their underlying \<open>uint8\<close> values.\<close>

instantiation event_class :: linorder
begin

definition less_eq_event_class :: "event_class \<Rightarrow> event_class \<Rightarrow> bool" where
  "less_eq_event_class a b \<longleftrightarrow> class_rank a \<le> class_rank b"

definition less_event_class :: "event_class \<Rightarrow> event_class \<Rightarrow> bool" where
  "less_event_class a b \<longleftrightarrow> class_rank a < class_rank b"

instance
proof
  fix x y z :: event_class
  show "x < y \<longleftrightarrow> x \<le> y \<and> \<not> y \<le> x"
    by (auto simp: less_eq_event_class_def less_event_class_def)
  show "x \<le> x" by (simp add: less_eq_event_class_def)
  show "x \<le> y \<Longrightarrow> y \<le> z \<Longrightarrow> x \<le> z" by (simp add: less_eq_event_class_def)
  show "x \<le> y \<Longrightarrow> y \<le> x \<Longrightarrow> x = y"
    by (cases x; cases y) (simp_all add: less_eq_event_class_def)
  show "x \<le> y \<or> y \<le> x" by (auto simp: less_eq_event_class_def)
qed

end

definition ClassOf :: "event_type \<Rightarrow> event_class" where
  "ClassOf t =
    (if t \<in> {TypeUserMessage, TypeTurnComplete, TypeError, TypePermission,
             TypePermissionResolved, TypeQuestion, TypeQuestionResolved, TypeTranscriptRemove}
     then ClassAnchor
     else if t \<in> {TypeAssistantChunk, TypeToolCall, TypeArtifact, TypeSessionTitle, TypeGoal,
             TypeCodexModelReroute, TypeCodexTerminalInteraction, TypeAgentNotice, TypeCompaction}
     then ClassContent
     else if t \<in> {TypeThoughtChunk, TypeToolUpdate, TypePlan, TypeIdentifiedPlan,
             TypeSessionStatus, TypeSubagents, TypeCodexProgress, TypeCodexUnsupportedItem}
     then ClassProgress
     else ClassTelemetry)"

subsection \<open>Struct sizes\<close>

datatype go_type = GoString | GoSlice | GoPointer | GoTime | GoInt64 | GoBool

fun go_size :: "go_type \<Rightarrow> nat" where
  "go_size GoString = 16"
| "go_size GoSlice = 24"
| "go_size GoPointer = 8"
| "go_size GoTime = 24"
| "go_size GoInt64 = 8"
| "go_size GoBool = 1"

fun go_align :: "go_type \<Rightarrow> nat" where
  "go_align GoBool = 1"
| "go_align _ = 8"

definition round_up :: "nat \<Rightarrow> nat \<Rightarrow> nat" where
  "round_up n a = ((n + (a - 1)) div a) * a"

fun layout :: "nat \<Rightarrow> go_type list \<Rightarrow> nat" where
  "layout off [] = off"
| "layout off (t # ts) = layout (round_up off (go_align t) + go_size t) ts"

definition sizeof :: "go_type list \<Rightarrow> nat" where
  "sizeof ts = round_up (layout 0 ts) (Max (set (1 # map go_align ts)))"

text \<open>The field types of the \<open>Event\<close> struct, in declaration order.\<close>

definition event_fields :: "go_type list" where
  "event_fields =
    [GoString, GoString, GoTime, GoInt64, GoBool, GoString, GoString, GoString, GoString,
     GoString, GoBool, GoSlice, GoString, GoString, GoBool, GoString, GoString, GoString,
     GoString, GoString, GoString, GoString, GoString, GoBool, GoBool, GoString, GoTime,
     GoString, GoString, GoSlice, GoString, GoString, GoString, GoSlice, GoBool, GoSlice,
     GoSlice, GoString, GoString, GoString, GoBool, GoString, GoBool, GoString, GoSlice,
     GoSlice, GoString, GoString, GoPointer, GoSlice, GoString, GoString, GoSlice, GoString,
     GoSlice, GoPointer, GoSlice, GoSlice, GoPointer, GoPointer, GoPointer, GoString, GoString,
     GoInt64, GoInt64, GoInt64, GoBool]"

definition eventHeaderBytes :: nat where
  "eventHeaderBytes = sizeof event_fields"

definition optionBytes :: nat where
  "optionBytes = sizeof [GoString, GoString, GoString, GoString]"

definition questionBytes :: nat where
  "questionBytes = sizeof
    [GoString, GoString, GoString, GoBool, GoBool, GoBool, GoSlice, GoString, GoBool, GoSlice,
     GoPointer, GoPointer, GoPointer, GoPointer, GoPointer, GoPointer, GoString, GoString]"

definition commandBytes :: nat where
  "commandBytes = sizeof [GoString, GoString, GoString]"

definition remoteCommandBytes :: nat where
  "remoteCommandBytes = sizeof [GoString, GoString, GoString, GoBool, GoString]"

definition planEntryBytes :: nat where
  "planEntryBytes = sizeof [GoString, GoString, GoString]"

definition approvalBytes :: nat where
  "approvalBytes = sizeof [GoString, GoString, GoTime]"

definition subagentBytes :: nat where
  "subagentBytes = sizeof [GoString, GoString, GoString, GoString]"

definition modeBytes :: nat where
  "modeBytes = sizeof [GoString, GoString, GoString, GoBool]"

definition collabModeBytes :: nat where
  "collabModeBytes = sizeof [GoString, GoString, GoString]"

definition configOptionBytes :: nat where
  "configOptionBytes = sizeof
    [GoString, GoString, GoString, GoString, GoString, GoString, GoBool, GoSlice]"

definition configOptionValueBytes :: nat where
  "configOptionValueBytes = sizeof [GoString, GoString, GoString]"

definition attachmentBytes :: nat where
  "attachmentBytes = sizeof [GoString, GoString]"

definition toolDiffBytes :: nat where
  "toolDiffBytes = sizeof [GoString, GoString, GoString]"

definition usageBytes :: nat where
  "usageBytes = sizeof
    [GoInt64, GoInt64, GoInt64, GoInt64, GoInt64, GoInt64, GoInt64, GoPointer, GoPointer]"

definition sessionCostBytes :: nat where
  "sessionCostBytes = sizeof [GoInt64, GoString]"

definition capabilitiesBytes :: nat where
  "capabilitiesBytes = sizeof (replicate 14 GoBool)"

definition goalBytes :: nat where
  "goalBytes = sizeof [GoString, GoString, GoInt64, GoInt64]"

definition artifactBytes :: nat where
  "artifactBytes = sizeof [GoString, GoString, GoInt64, GoString, GoString, GoBool]"

definition codexPayloadBytes :: nat where
  "codexPayloadBytes = sizeof
    [GoString, GoString, GoString, GoString, GoString, GoString, GoString, GoString, GoSlice,
     GoBool]"

subsection \<open>Bytes\<close>

definition strings_len :: "string list \<Rightarrow> nat" where
  "strings_len ss = sum_list (map length ss)"

definition string_bytes :: "event \<Rightarrow> nat" where
  "string_bytes ev = strings_len
    [ev_SessionID ev, type_string (ev_Type ev), ev_Status ev, ev_Text ev,
     ev_ToolID ev, ev_ToolName ev, ev_ToolKind ev, ev_Error ev,
     ev_Title ev, ev_ErrorKind ev, ev_PermissionID ev, ev_SteerMessage ev,
     ev_DeviceID ev, ev_OptionID ev, ev_QuestionID ev,
     ev_ApprovalGroupID ev, ev_AgentSessionID ev, ev_StopReason ev,
     ev_CurrentModeID ev, ev_ApprovalsReviewer ev,
     ev_CurrentCollaborationModeID ev,
     ev_NativeMessageID ev, ev_NativePartID ev,
     ev_NoticeSeverity ev, ev_NoticeTitle ev, ev_NoticeDescription ev,
     ev_ResultMethod ev,
     ev_CompactionID ev, ev_CompactionStatus ev, ev_CompactionSummary ev, ev_CompactionError ev,
     ev_PlanID ev, ev_PlanKind ev, ev_PlanContent ev, ev_PlanURI ev]"

definition question_bytes :: "QuestionItem \<Rightarrow> nat" where
  "question_bytes q =
    questionBytes + strings_len [qi_ID q, qi_Header q, qi_Text q]
    + strings_len [qi_Kind q, qi_Format q, qi_Pattern q]
    + strings_len (qi_Default q)
    + sum_list (map (\<lambda>p. optionBytes + strings_len [po_OptionID p, po_Name p]) (qi_Options q))"

definition config_option_bytes :: "ConfigOption \<Rightarrow> nat" where
  "config_option_bytes p =
    configOptionBytes + strings_len [co_ID p, co_Name p, co_Description p, co_Kind p,
      co_Category p, co_CurrentValue p]
    + sum_list (map (\<lambda>v. configOptionValueBytes + strings_len [cv_ID v, cv_Name v, cv_Group v])
        (co_Values p))"

definition slice_bytes :: "event \<Rightarrow> nat" where
  "slice_bytes ev =
    sum_list (map (\<lambda>p. optionBytes + strings_len [po_OptionID p, po_Name p, po_Kind p])
      (ev_Options ev))
    + sum_list (map question_bytes (ev_Questions ev))
    + sum_list (map (\<lambda>c. commandBytes + strings_len [ac_Name c, ac_Description c, ac_Hint c])
        (ev_Commands ev))
    + sum_list (map (\<lambda>c. remoteCommandBytes
          + strings_len [rc_Name c, rc_Description c, rc_Hint c, rc_Reason c])
        (ev_RemoteCommands ev))
    + sum_list (map (\<lambda>e. planEntryBytes + strings_len [pe_Content e, pe_Status e, pe_Priority e])
        (ev_Entries ev))
    + sum_list (map (\<lambda>a. approvalBytes + strings_len [ai_ToolName a, ai_Detail a])
        (ev_Approvals ev))
    + sum_list (map (\<lambda>a. subagentBytes + strings_len [sa_ID a, sa_Name a, sa_Status a])
        (ev_Subagents ev))
    + sum_list (map (\<lambda>m. modeBytes + strings_len [sm_ID m, sm_Name m, sm_Description m])
        (ev_Modes ev))
    + sum_list (map (\<lambda>m. collabModeBytes + strings_len [cm_ID m, cm_Name m])
        (ev_CollaborationModes ev))
    + sum_list (map config_option_bytes (ev_ConfigOptions ev))
    + sum_list (map (\<lambda>a. attachmentBytes + strings_len [at_Kind a, at_MimeType a])
        (ev_Attachments ev))
    + sum_list (map (\<lambda>d. toolDiffBytes + strings_len [td_Path d, td_OldText d, td_NewText d])
        (ev_Diffs ev))"

definition pointer_bytes :: "event \<Rightarrow> nat" where
  "pointer_bytes ev =
    (case ev_Usage ev of None \<Rightarrow> 0
     | Some u \<Rightarrow> usageBytes + (case us_SessionCost u of None \<Rightarrow> 0
         | Some c \<Rightarrow> sessionCostBytes + length (sc_Currency c)))
    + (case ev_Capabilities ev of None \<Rightarrow> 0 | Some _ \<Rightarrow> capabilitiesBytes)
    + (case ev_Goal ev of None \<Rightarrow> 0
       | Some g \<Rightarrow> goalBytes + length (go_Objective g) + length (go_Status g))
    + (case ev_Artifact ev of None \<Rightarrow> 0
       | Some a \<Rightarrow> artifactBytes + length (ar_Filename a) + length (ar_MIME a)
                   + length (ar_URL a) + length (ar_Data a))
    + (case ev_Codex ev of None \<Rightarrow> 0
       | Some c \<Rightarrow> codexPayloadBytes + length (cx_Key c) + length (cx_Kind c)
                   + length (cx_Status c) + length (cx_Title c) + length (cx_Text c))"

definition Bytes :: "event \<Rightarrow> nat" where
  "Bytes ev = eventHeaderBytes + string_bytes ev + slice_bytes ev + pointer_bytes ev"

subsection \<open>Dedupers\<close>

definition SameAvailableCommands :: "AvailableCommand list \<Rightarrow> AvailableCommand list \<Rightarrow> bool" where
  "SameAvailableCommands a b \<longleftrightarrow>
    (if length a \<noteq> length b then False else list_all (\<lambda>(x, y). x = y) (zip a b))"

record CommandDeduper =
  cd_seen :: bool
  cd_last :: "AvailableCommand list"

definition command_ShouldEmit :: "CommandDeduper \<Rightarrow> AvailableCommand list \<Rightarrow> bool \<times> CommandDeduper" where
  "command_ShouldEmit d cmds =
    (if cd_seen d \<and> SameAvailableCommands (cd_last d) cmds then (False, d)
     else (True, d\<lparr>cd_seen := True, cd_last := cmds\<rparr>))"

definition SameNotice :: "string \<Rightarrow> string \<Rightarrow> string \<Rightarrow> string \<Rightarrow> bool" where
  "SameNotice kindA textA kindB textB \<longleftrightarrow> kindA = kindB \<and> textA = textB"

record NoticeDeduper =
  nd_seen :: bool
  nd_kind :: string
  nd_text :: string

definition notice_ShouldEmit :: "NoticeDeduper \<Rightarrow> string \<Rightarrow> string \<Rightarrow> bool \<times> NoticeDeduper" where
  "notice_ShouldEmit d kind text =
    (if nd_seen d \<and> SameNotice (nd_kind d) (nd_text d) kind text then (False, d)
     else (True, d\<lparr>nd_seen := True, nd_kind := kind, nd_text := text\<rparr>))"

text \<open>A stream of notices through the deduper: the notices it lets through, in order.\<close>

fun notice_stream :: "NoticeDeduper \<Rightarrow> (string \<times> string) list \<Rightarrow> (string \<times> string) list" where
  "notice_stream d [] = []"
| "notice_stream d (n # ns) =
    (case notice_ShouldEmit d (fst n) (snd n) of
       (emit, d') \<Rightarrow> (if emit then n # notice_stream d' ns else notice_stream d' ns))"

fun command_stream ::
  "CommandDeduper \<Rightarrow> AvailableCommand list list \<Rightarrow> AvailableCommand list list" where
  "command_stream d [] = []"
| "command_stream d (c # cs) =
    (case command_ShouldEmit d c of
       (emit, d') \<Rightarrow> (if emit then c # command_stream d' cs else command_stream d' cs))"

subsection \<open>Lemmas\<close>

lemma eventHeaderBytes_eq: "eventHeaderBytes = 1032"
  unfolding eventHeaderBytes_def event_fields_def by code_simp

lemma Bytes_pos: "0 < Bytes ev"
  by (simp add: Bytes_def eventHeaderBytes_eq)

lemma event_class_least [simp]: "ClassTelemetry \<le> c"
  by (simp add: less_eq_event_class_def)

lemma event_class_greatest [simp]: "c \<le> ClassAnchor"
  by (cases c) (simp_all add: less_eq_event_class_def)

lemma SameAvailableCommands_eq: "SameAvailableCommands a b \<longleftrightarrow> a = b"
  by (auto simp: SameAvailableCommands_def list_all_iff list_eq_iff_zip_eq zip_same)

subsection \<open>Properties\<close>

definition fresh_notices :: NoticeDeduper where
  "fresh_notices = \<lparr>nd_seen = False, nd_kind = [], nd_text = []\<rparr>"

definition fresh_commands :: CommandDeduper where
  "fresh_commands = \<lparr>cd_seen = False, cd_last = []\<rparr>"

lemma notice_stream_seen:
  "nd_seen d \<Longrightarrow> (nd_kind d, nd_text d) # notice_stream d ns = remdups_adj ((nd_kind d, nd_text d) # ns)"
proof (induction ns arbitrary: d)
  case (Cons n ns)
  show ?case
  proof (cases "n = (nd_kind d, nd_text d)")
    case True
    with Cons show ?thesis by (simp add: notice_ShouldEmit_def SameNotice_def)
  next
    case False
    let ?d = "d\<lparr>nd_seen := True, nd_kind := fst n, nd_text := snd n\<rparr>"
    have "notice_ShouldEmit d (fst n) (snd n) = (True, ?d)"
      using False by (cases n) (auto simp: notice_ShouldEmit_def SameNotice_def)
    with Cons.IH [of ?d] False show ?thesis by simp
  qed
qed simp

lemma command_stream_seen:
  "cd_seen d \<Longrightarrow> cd_last d # command_stream d cs = remdups_adj (cd_last d # cs)"
proof (induction cs arbitrary: d)
  case (Cons c cs)
  show ?case
  proof (cases "c = cd_last d")
    case True
    with Cons show ?thesis by (simp add: command_ShouldEmit_def SameAvailableCommands_eq)
  next
    case False
    let ?d = "d\<lparr>cd_seen := True, cd_last := c\<rparr>"
    have "command_ShouldEmit d c = (True, ?d)"
      using False by (auto simp: command_ShouldEmit_def SameAvailableCommands_eq)
    with Cons.IH [of ?d] False show ?thesis by simp
  qed
qed simp

text \<open>The two dedupers suppress exactly the immediate repeats: over any sequence of notices, and
  over any sequence of command lists, what passes is the sequence with adjacent duplicates
  removed. The first is always let through, an empty command list included.\<close>

theorem dedupers_drop_repeats:
  "notice_stream fresh_notices ns = remdups_adj ns \<and> command_stream fresh_commands cs = remdups_adj cs"
proof
  show "notice_stream fresh_notices ns = remdups_adj ns"
  proof (cases ns)
    case (Cons n ms)
    then show ?thesis
      using notice_stream_seen [of "\<lparr>nd_seen = True, nd_kind = fst n, nd_text = snd n\<rparr>" ms]
      by (simp add: notice_ShouldEmit_def fresh_notices_def)
  qed simp
  show "command_stream fresh_commands cs = remdups_adj cs"
  proof (cases cs)
    case (Cons c ds)
    then show ?thesis
      using command_stream_seen [of "\<lparr>cd_seen = True, cd_last = c\<rparr>" ds]
      by (simp add: command_ShouldEmit_def fresh_commands_def)
  qed simp
qed

text \<open>The byte estimate leaves out strings an event owns: a subagent's task, an option's
  description, a collaboration mode's description and a Codex reroute's reason may have any
  length without changing it.\<close>

theorem Bytes_omits_strings:
  "Bytes (zero_event\<lparr>ev_Subagents := [\<lparr>sa_ID = i, sa_Name = n, sa_Task = t, sa_Status = st\<rparr>]\<rparr>) =
     Bytes (zero_event\<lparr>ev_Subagents := [\<lparr>sa_ID = i, sa_Name = n, sa_Task = [], sa_Status = st\<rparr>]\<rparr>)
   \<and> Bytes (zero_event\<lparr>ev_Options := [\<lparr>po_OptionID = i, po_Name = n, po_Kind = k, po_Description = t\<rparr>]\<rparr>) =
     Bytes (zero_event\<lparr>ev_Options := [\<lparr>po_OptionID = i, po_Name = n, po_Kind = k, po_Description = []\<rparr>]\<rparr>)
   \<and> Bytes (zero_event\<lparr>ev_CollaborationModes := [\<lparr>cm_ID = i, cm_Name = n, cm_Description = t\<rparr>]\<rparr>) =
     Bytes (zero_event\<lparr>ev_CollaborationModes := [\<lparr>cm_ID = i, cm_Name = n, cm_Description = []\<rparr>]\<rparr>)
   \<and> Bytes (zero_event\<lparr>ev_Codex := Some (c\<lparr>cx_Reason := t\<rparr>)\<rparr>) =
     Bytes (zero_event\<lparr>ev_Codex := Some (c\<lparr>cx_Reason := []\<rparr>)\<rparr>)"
  by (simp add: Bytes_def string_bytes_def slice_bytes_def pointer_bytes_def strings_len_def)

end
