(* ===== verification/History.thy ===== *)
theory History
  imports Retention
begin

text \<open>
  One session's replay ring: the history half of \<open>entry\<close> in
  \<open>internal/session/manager.go\<close> and the functions that append to it, find replayed
  duplicates, delete rows and evict under the byte budgets.

  \<open>uint64\<close> sequence numbers are natural numbers with the wrap-around written out; the
  replay key is a 64-bit word. \<open>histGenSeq\<close>, a counter of the process, is a field here so
  that the functions that draw from it can be written one ring at a time. A nil
  \<open>replayIndex\<close> is the map with no entries.
\<close>

definition historyBudgetBytes :: nat where
  "historyBudgetBytes = 32 * 2 ^ 20"

definition historyTrimToBytes :: nat where
  "historyTrimToBytes = historyBudgetBytes * 3 div 4"

definition globalBudgetBytes :: nat where
  "globalBudgetBytes = 384 * 2 ^ 20"

definition historyRingCapEstimate :: nat where
  "historyRingCapEstimate = historyBudgetBytes div 2048"

record ring =
  history :: "event list"
  historyBytes :: nat
  histGenSeq :: nat
  histGen :: nat
  replayIndex :: "uint64 \<Rightarrow> nat list"
  replayCompares :: nat
  rseq :: nat

definition empty_ring :: ring where
  "empty_ring = \<lparr>history = [], historyBytes = 0, histGenSeq = 0, histGen = 0,
     replayIndex = (\<lambda>_. []), replayCompares = 0, rseq = 0\<rparr>"

subsection \<open>Replay keys\<close>

definition replayFieldSep :: nat where
  "replayFieldSep = 31"

definition fnvOffset64 :: uint64 where
  "fnvOffset64 = 14695981039346656037"

definition fnvPrime64 :: uint64 where
  "fnvPrime64 = 1099511628211"

definition fnv1aByte :: "uint64 \<Rightarrow> nat \<Rightarrow> uint64" where
  "fnv1aByte h b = (Bit_Operations.xor h (of_nat b)) * fnvPrime64"

definition fnv1aString :: "uint64 \<Rightarrow> string \<Rightarrow> uint64" where
  "fnv1aString h s = foldl (\<lambda>h c. fnv1aByte h (byte_of c)) h s"

definition replayKey :: "event \<Rightarrow> uint64" where
  "replayKey ev =
    (let h1 = fnv1aByte (fnv1aString fnvOffset64 (type_string (ev_Type ev))) replayFieldSep;
         h2 = fnv1aByte (fnv1aString h1 (ev_Text ev)) replayFieldSep;
         h3 = fnv1aByte (fnv1aString h2 (ev_ToolID ev)) replayFieldSep
     in fnv1aString h3 (ev_AgentSessionID ev))"

definition same_replay :: "event \<Rightarrow> event \<Rightarrow> bool" where
  "same_replay h ev \<longleftrightarrow> ev_Type h = ev_Type ev \<and> ev_Text h = ev_Text ev \<and>
    ev_ToolID h = ev_ToolID ev \<and> ev_AgentSessionID h = ev_AgentSessionID ev"

text \<open>The loop over the positions filed under the key; each comparison is counted.\<close>

fun scan_replay :: "event list \<Rightarrow> event \<Rightarrow> nat list \<Rightarrow> nat \<Rightarrow> bool \<times> nat" where
  "scan_replay h ev [] n = (False, n)"
| "scan_replay h ev (i # is) n =
    (if length h \<le> i then scan_replay h ev is n
     else if same_replay (h ! i) ev then (True, Suc n)
     else scan_replay h ev is (Suc n))"

definition hasReplayDuplicateLocked :: "ring \<Rightarrow> event \<Rightarrow> bool \<times> ring" where
  "hasReplayDuplicateLocked e ev =
    (case scan_replay (history e) ev (replayIndex e (replayKey ev)) (replayCompares e) of
       (dup, n) \<Rightarrow> (dup, e\<lparr>replayCompares := n\<rparr>))"

definition indexReplayLocked :: "ring \<Rightarrow> nat \<Rightarrow> ring" where
  "indexReplayLocked e i =
    (if length (history e) \<le> i then e
     else let k = replayKey (history e ! i)
          in e\<lparr>replayIndex := (replayIndex e)(k := replayIndex e k @ [i])\<rparr>)"

definition index_of :: "event list \<Rightarrow> uint64 \<Rightarrow> nat list" where
  "index_of h k = filter (\<lambda>i. replayKey (h ! i) = k) [0..<length h]"

definition next_gen :: "ring \<Rightarrow> ring" where
  "next_gen e = e\<lparr>histGenSeq := Suc (histGenSeq e), histGen := Suc (histGenSeq e)\<rparr>"

text \<open>The rebuilding loop: each position in turn, filed under its key and added to the total.\<close>

definition reindexHistoryLocked :: "ring \<Rightarrow> ring" where
  "reindexHistoryLocked e =
    (let e1 = next_gen e
     in if history e1 = [] then e1\<lparr>replayIndex := (\<lambda>_. []), historyBytes := 0\<rparr>
        else (case fold (\<lambda>i (idx, sz).
                let k = replayKey (history e ! i)
                in (idx(k := idx k @ [i]), sz + Bytes (history e ! i)))
              [0..<length (history e)] (\<lambda>_. [], 0) of
            (idx, sz) \<Rightarrow> e1\<lparr>replayIndex := idx, historyBytes := sz\<rparr>))"

subsection \<open>Removals\<close>

definition delete_rows :: "(event \<Rightarrow> bool) \<Rightarrow> ring \<Rightarrow> ring" where
  "delete_rows P e =
    (let e1 = e\<lparr>history := filter (\<lambda>h. \<not> P h) (history e)\<rparr>
     in if length (history e1) \<noteq> length (history e) then reindexHistoryLocked e1 else e1)"

definition names_row :: "string \<Rightarrow> string \<Rightarrow> event \<Rightarrow> bool" where
  "names_row messageID partID h \<longleftrightarrow>
    (if ev_NativeMessageID h \<noteq> messageID then False
     else if ev_Type h = TypeTranscriptRemove then False
     else if partID = [] then True
     else ev_NativePartID h = partID)"

definition removeNativeLocked :: "string \<Rightarrow> string \<Rightarrow> ring \<Rightarrow> ring" where
  "removeNativeLocked messageID partID e =
    (if messageID = [] then e else delete_rows (names_row messageID partID) e)"

definition optimistic_row :: "string \<Rightarrow> event \<Rightarrow> bool" where
  "optimistic_row messageID h \<longleftrightarrow> ev_Type h = TypeUserMessage \<and>
    ev_NativeMessageID h = messageID \<and> ev_NativePartID h = []"

definition removeOptimisticUserLocked :: "string \<Rightarrow> ring \<Rightarrow> ring" where
  "removeOptimisticUserLocked messageID e =
    (if messageID = [] then e else delete_rows (optimistic_row messageID) e)"

text \<open>
  The backwards search of \<open>removeTurnsLocked\<close>: positions from the newest, until \<open>n\<close>
  user rows have been seen; the last one seen, if any.
\<close>

fun turn_start :: "event list \<Rightarrow> nat list \<Rightarrow> int \<Rightarrow> nat option \<Rightarrow> nat option" where
  "turn_start h [] n start = start"
| "turn_start h (i # is) n start =
    (if n \<le> 0 then start
     else if ev_Type (h ! i) = TypeUserMessage then turn_start h is (n - 1) (Some i)
     else turn_start h is n start)"

definition in_turns :: "nat \<Rightarrow> nat \<Rightarrow> event \<Rightarrow> bool" where
  "in_turns from to h \<longleftrightarrow> from \<le> ev_Seq h \<and> ev_Seq h \<le> to \<and> ev_Type h \<noteq> TypeNotice \<and>
    ev_Type h \<noteq> TypeTranscriptRemove"

definition removeTurnsLocked :: "int \<Rightarrow> ring \<Rightarrow> (nat \<times> nat) \<times> ring" where
  "removeTurnsLocked n e =
    (case turn_start (history e) (rev [0..<length (history e)]) n None of
       None \<Rightarrow> ((0, 0), e)
     | Some start \<Rightarrow>
         let from = ev_Seq (history e ! start); to = ev_Seq (last (history e))
         in ((from, to), delete_rows (in_turns from to) e))"

subsection \<open>Eviction\<close>

text \<open>
  The two loops \<open>enforceHistoryBudgetLocked\<close> and \<open>trimToLocked\<close> share, on the rows'
  classes and sizes: \<open>mark\<close> is one pass over the positions for one class, \<open>sweep\<close> the
  passes in class order. The state is the drop flags, the bytes freed and the last class
  evicted from.
\<close>

type_synonym 'c marks = "bool list \<times> nat \<times> 'c option"

fun mark :: "('e \<Rightarrow> 'c) \<Rightarrow> ('e \<Rightarrow> nat) \<Rightarrow> 'e list \<Rightarrow> 'c \<Rightarrow> nat \<Rightarrow> nat list \<Rightarrow> 'c marks \<Rightarrow> 'c marks" where
  "mark cls wt h c need [] st = st"
| "mark cls wt h c need (i # is) (flags, freed, upTo) =
    (if \<not> freed < need then (flags, freed, upTo)
     else if flags ! i \<or> cls (h ! i) \<noteq> c then mark cls wt h c need is (flags, freed, upTo)
     else mark cls wt h c need is (flags[i := True], freed + wt (h ! i), Some c))"

fun sweep :: "('e \<Rightarrow> 'c) \<Rightarrow> ('e \<Rightarrow> nat) \<Rightarrow> 'e list \<Rightarrow> 'c list \<Rightarrow> nat \<Rightarrow> 'c marks \<Rightarrow> 'c marks" where
  "sweep cls wt h [] need st = st"
| "sweep cls wt h (c # cs) need (flags, freed, upTo) =
    (if freed < need
     then sweep cls wt h cs need
       (mark cls wt h c need [0..<length h - 1] (flags, freed, upTo))
     else (flags, freed, upTo))"

definition class_order :: "event_class list" where
  "class_order = [ClassTelemetry, ClassProgress, ClassContent, ClassAnchor]"

definition event_class_of :: "event \<Rightarrow> event_class" where
  "event_class_of e = ClassOf (ev_Type e)"

definition eviction :: "event list \<Rightarrow> nat \<Rightarrow> event_class marks" where
  "eviction h need =
    sweep event_class_of Bytes h class_order need (replicate (length h) False, 0, None)"

definition keep_unmarked :: "'e list \<Rightarrow> bool list \<Rightarrow> 'e list" where
  "keep_unmarked h flags = map fst (filter (\<lambda>(e, d). \<not> d) (zip h flags))"

definition enforceHistoryBudgetLocked :: "ring \<Rightarrow> event_class option \<times> ring" where
  "enforceHistoryBudgetLocked e =
    (if historyBytes e \<le> historyBudgetBytes \<or> length (history e) < 2 then (None, e)
     else (case eviction (history e) (historyBytes e - historyTrimToBytes) of
         (flags, freed, upTo) \<Rightarrow>
           (case upTo of
              None \<Rightarrow> (None, e)
            | Some c \<Rightarrow> (Some c, reindexHistoryLocked
                (e\<lparr>history := keep_unmarked (history e) flags\<rparr>)))))"

definition trimToLocked :: "nat \<Rightarrow> ring \<Rightarrow> bool \<times> ring" where
  "trimToLocked budget e =
    (if historyBytes e \<le> budget \<or> length (history e) < 2 then (False, e)
     else (case eviction (history e) (historyBytes e - budget) of
         (flags, freed, upTo) \<Rightarrow>
           (if freed = 0 then (False, e)
            else (True, reindexHistoryLocked (e\<lparr>history := keep_unmarked (history e) flags\<rparr>)))))"

subsection \<open>Append\<close>

text \<open>The identity rules \<open>appendHistoryLocked\<close> applies before it appends.\<close>

definition apply_identity :: "event \<Rightarrow> ring \<Rightarrow> event \<times> ring" where
  "apply_identity ev e =
    (if ev_Type ev = TypeTranscriptRemove \<and> 0 < ev_RemoveTurns ev then
       (case removeTurnsLocked (ev_RemoveTurns ev) e of ((from, to), e1) \<Rightarrow>
          (ev\<lparr>ev_RemoveFromSeq := from, ev_RemoveToSeq := to\<rparr>, e1))
     else if ev_Type ev = TypeTranscriptRemove \<and> ev_NativeMessageID ev \<noteq> [] then
       (ev, removeNativeLocked (ev_NativeMessageID ev) (ev_NativePartID ev) e)
     else if ev_Replace ev \<and> ev_NativeMessageID ev \<noteq> [] \<and> ev_NativePartID ev \<noteq> [] then
       (let e1 = removeNativeLocked (ev_NativeMessageID ev) (ev_NativePartID ev) e
        in (ev, if ev_Type ev = TypeUserMessage
                then removeOptimisticUserLocked (ev_NativeMessageID ev) e1 else e1))
     else (ev, e))"

definition push_row :: "event \<Rightarrow> ring \<Rightarrow> event \<times> ring" where
  "push_row ev e =
    (let s = (rseq e + 1) mod 2 ^ 64;
         ev1 = ev\<lparr>ev_Seq := s\<rparr>;
         e1 = e\<lparr>rseq := s, history := history e @ [ev1], historyBytes := historyBytes e + Bytes ev1\<rparr>
     in (ev1, indexReplayLocked e1 (length (history e1) - 1)))"

definition appendHistoryLocked :: "event \<Rightarrow> ring \<Rightarrow> event \<times> ring" where
  "appendHistoryLocked ev e =
    (case (if ev_Replay ev then hasReplayDuplicateLocked e ev else (False, e)) of
       (True, e1) \<Rightarrow> (ev, e1)
     | (False, e1) \<Rightarrow>
         (case apply_identity ev (next_gen e1) of (ev1, e2) \<Rightarrow>
          case push_row ev1 e2 of (ev2, e3) \<Rightarrow> (ev2, snd (enforceHistoryBudgetLocked e3))))"

subsection \<open>The eviction rule\<close>

text \<open>
  What the loops are meant to compute: the candidate positions (all but the newest) ordered by
  class and, within a class, by age, cut after the shortest prefix that frees enough.
\<close>

fun take_until :: "(nat \<Rightarrow> nat) \<Rightarrow> nat \<Rightarrow> nat list \<Rightarrow> nat list" where
  "take_until w need [] = []"
| "take_until w need (i # is) = (if need = 0 then [] else i # take_until w (need - w i) is)"

definition by_class :: "('e \<Rightarrow> 'c) \<Rightarrow> 'c list \<Rightarrow> 'e list \<Rightarrow> nat list" where
  "by_class cls order h = concat (map (\<lambda>c. filter (\<lambda>i. cls (h ! i) = c) [0..<length h - 1]) order)"

definition victims :: "('e \<Rightarrow> 'c) \<Rightarrow> ('e \<Rightarrow> nat) \<Rightarrow> 'c list \<Rightarrow> 'e list \<Rightarrow> nat \<Rightarrow> nat list" where
  "victims cls wt order h need = take_until (\<lambda>i. wt (h ! i)) need (by_class cls order h)"

definition set_flags :: "nat list \<Rightarrow> bool list \<Rightarrow> bool list" where
  "set_flags V flags = fold (\<lambda>i d. d[i := True]) V flags"

lemma length_set_flags [simp]: "length (set_flags V d) = length d"
  unfolding set_flags_def by (induction V arbitrary: d) simp_all

lemma nth_set_flags: "i < length d \<Longrightarrow> set_flags V d ! i \<longleftrightarrow> d ! i \<or> i \<in> set V"
  unfolding set_flags_def
proof (induction V arbitrary: d)
  case (Cons a V)
  then show ?case by (cases "a = i") auto
qed simp

lemma set_flags_append: "set_flags (V @ W) d = set_flags W (set_flags V d)"
  by (simp add: set_flags_def)

lemma take_until_prefix: "prefix (take_until w need is) is"
  by (induction w need "is" rule: take_until.induct) auto

lemma set_take_until: "set (take_until w need is) \<subseteq> set is"
  using take_until_prefix by (rule set_mono_prefix)

lemma take_until_zero [simp]: "take_until w 0 is = []"
  by (cases "is") simp_all

lemma take_until_append:
  "take_until w need (is @ js) =
    take_until w need is @ take_until w (need - sum_list (map w (take_until w need is))) js"
proof (induction w need "is" rule: take_until.induct)
  case (2 w need i "is")
  then show ?case by (cases js) auto
qed simp

lemma take_until_enough:
  "need \<le> sum_list (map w (take_until w need is)) \<or> take_until w need is = is"
  by (induction w need "is" rule: take_until.induct) auto

lemma take_until_least:
  assumes "take_until w need is = V @ [j]"
  shows "sum_list (map w V) < need"
  using assms
proof (induction w need "is" arbitrary: V rule: take_until.induct)
  case (2 w need i "is")
  then show ?case by (cases V) (auto split: if_splits)
qed simp

lemma nths_in_range: "nths h {i. i < length h \<and> i \<in> A} = nths h A"
  unfolding nths_def by (intro arg_cong [where f = "map fst"] filter_cong) (auto dest: set_zip_rightD)

lemma keep_unmarked_nths:
  "length d = length h \<Longrightarrow> keep_unmarked h d = nths h {i. i < length h \<and> \<not> d ! i}"
proof (induction h arbitrary: d)
  case (Cons e h)
  then obtain b d' where d: "d = b # d'" "length d' = length h" by (cases d) auto
  have "{i. Suc i < length (e # h) \<and> \<not> d ! Suc i} = {i. i < length h \<and> \<not> d' ! i}"
    by (simp add: d)
  with Cons.IH [OF d(2)] show ?case
    by (simp add: keep_unmarked_def nths_Cons d)
qed (simp add: keep_unmarked_def)

lemma sum_nths:
  fixes f :: "'e \<Rightarrow> nat"
  shows "sum_list (map f (nths h A)) = (\<Sum>i\<in>{..<length h} \<inter> A. f (h ! i))"
proof (induction h rule: rev_induct)
  case (snoc x h)
  have "(\<Sum>i\<in>{..<length h} \<inter> A. f ((h @ [x]) ! i)) = (\<Sum>i\<in>{..<length h} \<inter> A. f (h ! i))"
    by (rule sum.cong) (auto simp: nth_append)
  moreover have "{..<length (h @ [x])} \<inter> A =
      (if length h \<in> A then insert (length h) ({..<length h} \<inter> A) else {..<length h} \<inter> A)"
    by (auto simp: less_Suc_eq)
  ultimately show ?case using snoc by (simp add: nths_append)
qed simp

lemma prefix_closed:
  assumes "sorted_wrt R L" "prefix V L" "\<And>a b. R a b \<Longrightarrow> \<not> R b a"
    and "i \<in> set V" "j \<in> set L" "R j i"
  shows "j \<in> set V"
  using assms by (auto simp: prefix_def sorted_wrt_append)

lemma sorted_wrt_distinct: "sorted_wrt R xs \<Longrightarrow> (\<And>x. \<not> R x x) \<Longrightarrow> distinct xs"
  by (induction xs) auto

text \<open>The order in which rows go: lower class first, then older first.\<close>

definition before :: "('e \<Rightarrow> 'c :: linorder) \<Rightarrow> 'e list \<Rightarrow> nat \<Rightarrow> nat \<Rightarrow> bool" where
  "before cls h j i \<longleftrightarrow> cls (h ! j) < cls (h ! i) \<or> cls (h ! j) = cls (h ! i) \<and> j < i"

locale ring_eviction =
  fixes cls :: "'e \<Rightarrow> 'c :: linorder" and wt :: "'e \<Rightarrow> nat" and order :: "'c list"
  assumes order_distinct: "distinct order"
    and order_sorted: "sorted order"
    and order_complete: "cls e \<in> set order"
    and size_pos: "0 < wt e"
begin

lemma mark_spec:
  assumes "distinct is" "\<forall>i\<in>set is. i < length flags \<and> (cls (h ! i) = c \<longrightarrow> \<not> flags ! i)"
    and "V = take_until (\<lambda>i. wt (h ! i)) (need - freed) (filter (\<lambda>i. cls (h ! i) = c) is)"
  shows "mark cls wt h c need is (flags, freed, upTo) =
    (set_flags V flags, freed + sum_list (map (\<lambda>i. wt (h ! i)) V), if V = [] then upTo else Some c)"
  using assms
proof (induction "is" arbitrary: flags freed upTo V)
  case Nil
  then show ?case by (simp add: set_flags_def)
next
  case (Cons i "is")
  consider "\<not> freed < need" | "freed < need" "cls (h ! i) \<noteq> c" | "freed < need" "cls (h ! i) = c"
    by blast
  then show ?case
  proof cases
    case 1
    then show ?thesis using Cons.prems by (simp add: set_flags_def)
  next
    case 2
    then show ?thesis using Cons by auto
  next
    case 3
    define W where "W = take_until (\<lambda>i. wt (h ! i)) (need - (freed + wt (h ! i)))
      (filter (\<lambda>i. cls (h ! i) = c) is)"
    have V: "V = i # W" using 3 Cons.prems by (simp add: W_def)
    have "mark cls wt h c need is (flags[i := True], freed + wt (h ! i), Some c) =
      (set_flags W (flags[i := True]), freed + wt (h ! i) + sum_list (map (\<lambda>i. wt (h ! i)) W),
       if W = [] then Some c else Some c)"
      using Cons.prems by (intro Cons.IH) (auto simp: W_def nth_list_update)
    then show ?thesis
      using 3 Cons.prems by (simp add: V set_flags_def)
  qed
qed

lemma sweep_spec:
  assumes "distinct cs" "length flags = length h"
    "\<forall>i<length h - 1. cls (h ! i) \<in> set cs \<longrightarrow> \<not> flags ! i"
    and "V = take_until (\<lambda>i. wt (h ! i)) (need - freed) (by_class cls cs h)"
  shows "sweep cls wt h cs need (flags, freed, upTo) =
    (set_flags V flags, freed + sum_list (map (\<lambda>i. wt (h ! i)) V),
     if V = [] then upTo else Some (cls (h ! last V)))"
  using assms
proof (induction cs arbitrary: flags freed upTo V)
  case Nil
  then show ?case by (simp add: set_flags_def by_class_def)
next
  case (Cons c cs)
  let ?w = "\<lambda>i. wt (h ! i)" and ?P = "filter (\<lambda>i. cls (h ! i) = c) [0..<length h - 1]"
  show ?case
  proof (cases "freed < need")
    case False
    with Cons.prems show ?thesis by (simp add: set_flags_def)
  next
    case True
    define V1 where "V1 = take_until ?w (need - freed) ?P"
    define V2 where "V2 = take_until ?w (need - (freed + sum_list (map ?w V1))) (by_class cls cs h)"
    have V: "V = V1 @ V2"
      using Cons.prems(4) by (simp add: V1_def V2_def by_class_def take_until_append)
    have V1: "set V1 \<subseteq> set ?P" unfolding V1_def by (rule set_take_until)
    have m: "mark cls wt h c need [0..<length h - 1] (flags, freed, upTo) =
      (set_flags V1 flags, freed + sum_list (map ?w V1), if V1 = [] then upTo else Some c)"
      using Cons.prems by (intro mark_spec) (auto simp: V1_def)
    have "\<forall>i<length h - 1. cls (h ! i) \<in> set cs \<longrightarrow> \<not> set_flags V1 flags ! i"
      using Cons.prems V1 by (auto simp: nth_set_flags)
    from Cons.IH [OF _ _ this V2_def] Cons.prems(1,2) have
      "sweep cls wt h cs need (set_flags V1 flags, freed + sum_list (map ?w V1),
          if V1 = [] then upTo else Some c) =
        (set_flags V2 (set_flags V1 flags), freed + sum_list (map ?w V1) + sum_list (map ?w V2),
         if V2 = [] then (if V1 = [] then upTo else Some c) else Some (cls (h ! last V2)))"
      by simp
    moreover have "V1 \<noteq> [] \<Longrightarrow> cls (h ! last V1) = c"
      using V1 last_in_set by fastforce
    ultimately show ?thesis
      using True m by (simp add: V set_flags_append)
  qed
qed

lemma sweep_victims:
  assumes "sweep cls wt h order need (replicate (length h) False, 0, None) = (flags, freed, upTo)"
  defines "V \<equiv> victims cls wt order h need"
  shows "keep_unmarked h flags = nths h (- set V)"
    "freed = sum_list (map (\<lambda>i. wt (h ! i)) V)"
    "upTo = (if V = [] then None else Some (cls (h ! last V)))"
proof -
  from sweep_spec [OF order_distinct, of "replicate (length h) False" h V need 0 None] assms(1)
  have d: "flags = set_flags V (replicate (length h) False)"
    and r: "freed = sum_list (map (\<lambda>i. wt (h ! i)) V)"
      "upTo = (if V = [] then None else Some (cls (h ! last V)))"
    by (auto simp: V_def victims_def)
  have "{i. i < length h \<and> \<not> flags ! i} = {i. i < length h \<and> i \<in> - set V}"
    by (auto simp: d nth_set_flags)
  then show "keep_unmarked h flags = nths h (- set V)"
    using keep_unmarked_nths [of flags h] nths_in_range [of h "- set V"] by (simp add: d)
  show "freed = sum_list (map (\<lambda>i. wt (h ! i)) V)" "upTo = (if V = [] then None else Some (cls (h ! last V)))"
    using r by simp_all
qed

lemma by_class_sorted: "sorted_wrt (before cls h) (by_class cls order h)"
proof -
  have "sorted_wrt (before cls h) (by_class cls cs h)" if "sorted cs" "distinct cs" for cs
    using that
  proof (induction cs)
    case (Cons c cs)
    have "sorted_wrt (before cls h) (filter (\<lambda>i. cls (h ! i) = c) [0..<length h - 1])"
      by (rule sorted_wrt_mono_rel [OF _ sorted_wrt_filterI [OF sorted_wrt_upt]])
        (auto simp: before_def)
    moreover have "before cls h a b"
      if "a \<in> set (filter (\<lambda>i. cls (h ! i) = c) [0..<length h - 1])" "b \<in> set (by_class cls cs h)" for a b
      using that Cons.prems by (auto simp: by_class_def before_def order.strict_iff_order)
    ultimately show ?case
      using Cons by (simp add: by_class_def sorted_wrt_append)
  qed (simp add: by_class_def)
  then show ?thesis using order_sorted order_distinct by blast
qed

lemma set_by_class: "set (by_class cls order h) = {..<length h - 1}"
  using order_complete by (auto simp: by_class_def)

lemma distinct_by_class: "distinct (by_class cls order h)"
  using by_class_sorted by (rule sorted_wrt_distinct) (simp add: before_def)

lemma victims_old: "set (victims cls wt order h need) \<subseteq> {..<length h - 1}"
  using set_take_until [of _ need "by_class cls order h"] by (auto simp: victims_def set_by_class)

lemma victims_priority:
  assumes "i \<in> set (victims cls wt order h need)" "j < length h - 1" "before cls h j i"
  shows "j \<in> set (victims cls wt order h need)"
  unfolding victims_def
proof (rule prefix_closed [OF by_class_sorted take_until_prefix])
  show "before cls h b a \<Longrightarrow> \<not> before cls h a b" for a b by (auto simp: before_def)
qed (use assms in \<open>auto simp: victims_def set_by_class\<close>)

lemma victims_free:
  "sum_list (map wt h) =
    sum_list (map wt (nths h (- set (victims cls wt order h need)))) +
    sum_list (map (\<lambda>i. wt (h ! i)) (victims cls wt order h need))"
proof -
  let ?V = "victims cls wt order h need"
  have d: "distinct ?V"
    using distinct_by_class take_until_prefix unfolding victims_def
    by (metis distinct_append prefix_def)
  have "sum_list (map (\<lambda>i. wt (h ! i)) ?V) = (\<Sum>i\<in>{..<length h} \<inter> set ?V. wt (h ! i))"
    using d victims_old [of h need]
    by (simp add: sum_list_distinct_conv_sum_set) (intro sum.cong, auto)
  moreover have "sum_list (map wt h) = (\<Sum>i\<in>{..<length h}. wt (h ! i))"
    using sum_nths [of wt h UNIV] by (simp add: nths_all)
  moreover have "{..<length h} = ({..<length h} \<inter> - set ?V) \<union> ({..<length h} \<inter> set ?V)" by blast
  ultimately show ?thesis
    by (simp add: sum_nths) (metis (no_types, lifting) sum.Int_Diff Diff_eq add.commute finite_lessThan)
qed

lemma victims_enough:
  "need \<le> sum_list (map (\<lambda>i. wt (h ! i)) (victims cls wt order h need)) \<or>
   set (victims cls wt order h need) = {..<length h - 1}"
  using take_until_enough [of need "\<lambda>i. wt (h ! i)" "by_class cls order h"]
  by (auto simp: victims_def set_by_class)

lemma kept_newest:
  assumes "h \<noteq> []"
  shows "nths h (- set (victims cls wt order h need)) \<noteq> []"
    "last (nths h (- set (victims cls wt order h need))) = last h"
proof -
  let ?A = "- set (victims cls wt order h need)"
  have "length (butlast h) \<in> ?A" using victims_old [of h need] by auto
  then have "nths h ?A = nths (butlast h) ?A @ [last h]"
    using nths_append [of "butlast h" "[last h]" ?A] assms by simp
  then show "nths h ?A \<noteq> []" "last (nths h ?A) = last h" by simp_all
qed

lemma victims_none: "need = 0 \<or> length h < 2 \<Longrightarrow> victims cls wt order h need = []"
  using victims_old [of h need] by (auto simp: victims_def)

end

interpretation class_eviction: ring_eviction event_class_of Bytes class_order
proof
  show "distinct class_order" "sorted class_order"
    by (simp_all add: class_order_def less_eq_event_class_def)
  show "event_class_of e \<in> set class_order" for e
    by (cases "event_class_of e") (simp_all add: class_order_def)
qed (rule Bytes_pos)

definition evicted_rows :: "event list \<Rightarrow> nat \<Rightarrow> nat list" where
  "evicted_rows h need = victims event_class_of Bytes class_order h need"

lemma eviction_spec:
  assumes "eviction h need = (flags, freed, upTo)"
  shows "keep_unmarked h flags = nths h (- set (evicted_rows h need))"
    "freed = sum_list (map (\<lambda>i. Bytes (h ! i)) (evicted_rows h need))"
    "upTo = (if evicted_rows h need = [] then None
       else Some (event_class_of (h ! last (evicted_rows h need))))"
  using class_eviction.sweep_victims [OF assms [unfolded eviction_def]]
  unfolding evicted_rows_def by blast+

subsection \<open>Lemmas: the index and the totals\<close>

definition ring_bytes :: "event list \<Rightarrow> nat" where
  "ring_bytes h = sum_list (map Bytes h)"

lemma ring_bytes_simps [simp]:
  "ring_bytes [] = 0" "ring_bytes (e # h) = Bytes e + ring_bytes h"
  "ring_bytes (g @ h) = ring_bytes g + ring_bytes h"
  by (simp_all add: ring_bytes_def)

lemma next_gen_fields [simp]:
  "history (next_gen e) = history e" "historyBytes (next_gen e) = historyBytes e"
  "replayIndex (next_gen e) = replayIndex e" "rseq (next_gen e) = rseq e"
  "replayCompares (next_gen e) = replayCompares e"
  by (simp_all add: next_gen_def)

lemma index_of_Nil [simp]: "index_of [] = (\<lambda>_. [])"
  by (rule ext) (simp add: index_of_def)

lemma index_of_snoc:
  "index_of (h @ [x]) = (index_of h)(replayKey x := index_of h (replayKey x) @ [length h])"
proof
  fix k
  have "filter (\<lambda>i. replayKey ((h @ [x]) ! i) = k) [0..<length h] =
    filter (\<lambda>i. replayKey (h ! i) = k) [0..<length h]"
    by (rule filter_cong) (simp_all add: nth_append)
  then show "index_of (h @ [x]) k = ((index_of h)(replayKey x := index_of h (replayKey x) @ [length h])) k"
    by (simp add: index_of_def)
qed

lemma rebuild_fold:
  "n \<le> length h \<Longrightarrow>
   fold (\<lambda>i (idx, sz). let k = replayKey (h ! i) in (idx(k := idx k @ [i]), sz + Bytes (h ! i)))
     [0..<n] (\<lambda>_. [], 0) = (index_of (take n h), ring_bytes (take n h))"
proof (induction n)
  case (Suc n)
  then have "take (Suc n) h = take n h @ [h ! n]" by (simp add: take_Suc_conv_app_nth)
  with Suc show ?case by (simp add: index_of_snoc Let_def)
qed simp

lemma reindex_fields [simp]:
  "history (reindexHistoryLocked e) = history e" "rseq (reindexHistoryLocked e) = rseq e"
  "histGen (reindexHistoryLocked e) = Suc (histGenSeq e)"
  "histGenSeq (reindexHistoryLocked e) = Suc (histGenSeq e)"
  "replayIndex (reindexHistoryLocked e) = index_of (history e)"
  "historyBytes (reindexHistoryLocked e) = ring_bytes (history e)"
  using rebuild_fold [of "length (history e)" "history e"]
  by (simp_all add: reindexHistoryLocked_def Let_def next_gen_def)

text \<open>
  The ring's invariant: the byte total and the index describe the rows, the sequence numbers
  increase along the rows and stop at the counter, the generation was drawn from the counter.
\<close>

definition ring_ok :: "ring \<Rightarrow> bool" where
  "ring_ok e \<longleftrightarrow> historyBytes e = ring_bytes (history e) \<and> replayIndex e = index_of (history e) \<and>
    sorted_wrt (<) (map ev_Seq (history e)) \<and> (\<forall>h\<in>set (history e). ev_Seq h \<le> rseq e) \<and>
    histGen e \<le> histGenSeq e"

lemma replayKey_same: "same_replay h ev \<Longrightarrow> replayKey h = replayKey ev"
  by (simp add: same_replay_def replayKey_def)

lemma scan_replay_iff:
  "fst (scan_replay h ev is n) \<longleftrightarrow> (\<exists>i\<in>set is. i < length h \<and> same_replay (h ! i) ev)"
  by (induction h ev "is" n rule: scan_replay.induct) auto

lemma duplicate_iff:
  "ring_ok e \<Longrightarrow> fst (hasReplayDuplicateLocked e ev) \<longleftrightarrow> (\<exists>h\<in>set (history e). same_replay h ev)"
proof -
  assume "ring_ok e"
  then have "fst (hasReplayDuplicateLocked e ev) \<longleftrightarrow>
    (\<exists>i\<in>set (index_of (history e) (replayKey ev)). i < length (history e) \<and> same_replay (history e ! i) ev)"
    by (simp add: hasReplayDuplicateLocked_def ring_ok_def scan_replay_iff split_beta)
  also have "\<dots> \<longleftrightarrow> (\<exists>i<length (history e). same_replay (history e ! i) ev)"
    using replayKey_same by (auto simp: index_of_def)
  also have "\<dots> \<longleftrightarrow> (\<exists>h\<in>set (history e). same_replay h ev)"
    by (metis in_set_conv_nth)
  finally show ?thesis .
qed

lemma duplicate_fields [simp]:
  "history (snd (hasReplayDuplicateLocked e ev)) = history e"
  "historyBytes (snd (hasReplayDuplicateLocked e ev)) = historyBytes e"
  "replayIndex (snd (hasReplayDuplicateLocked e ev)) = replayIndex e"
  "rseq (snd (hasReplayDuplicateLocked e ev)) = rseq e"
  "histGen (snd (hasReplayDuplicateLocked e ev)) = histGen e"
  "histGenSeq (snd (hasReplayDuplicateLocked e ev)) = histGenSeq e"
  by (simp_all add: hasReplayDuplicateLocked_def split: prod.split)

text \<open>Deletions and evictions keep a sub-sequence of the rows.\<close>

lemma sorted_wrt_subseq: "subseq ys xs \<Longrightarrow> sorted_wrt R xs \<Longrightarrow> sorted_wrt R ys"
  by (induction rule: list_emb.induct) (auto dest: list_emb_set)

lemma subseq_nths: "subseq (nths h A) h"
proof (induction h arbitrary: A)
  case (Cons x h)
  then show ?case by (auto simp: nths_Cons)
qed simp

lemma ring_ok_shrink:
  assumes "ring_ok e" "subseq h (history e)"
  shows "ring_ok (reindexHistoryLocked (e\<lparr>history := h\<rparr>))"
  using assms sorted_wrt_subseq [OF subseq_map [OF assms(2), of ev_Seq]]
    list_emb_set [OF assms(2)] by (fastforce simp: ring_ok_def)

lemma delete_rows_history [simp]: "history (delete_rows P e) = filter (\<lambda>h. \<not> P h) (history e)"
  by (simp add: delete_rows_def Let_def)

lemma delete_rows_rseq [simp]: "rseq (delete_rows P e) = rseq e"
  by (simp add: delete_rows_def Let_def)

lemma delete_rows_ok: "ring_ok e \<Longrightarrow> ring_ok (delete_rows P e)"
proof (cases "length (filter (\<lambda>h. \<not> P h) (history e)) = length (history e)")
  case True
  assume "ring_ok e"
  moreover have "filter (\<lambda>h. \<not> P h) (history e) = history e"
    using True by (metis filter_id_conv length_filter_less not_less_iff_gr_or_eq)
  ultimately show ?thesis by (simp add: delete_rows_def Let_def)
next
  case False
  assume "ring_ok e"
  with False show ?thesis
    by (simp add: delete_rows_def Let_def ring_ok_shrink)
qed

lemma removeNative_ok: "ring_ok e \<Longrightarrow> ring_ok (removeNativeLocked m q e)"
  by (simp add: removeNativeLocked_def delete_rows_ok)

lemma removeOptimistic_ok: "ring_ok e \<Longrightarrow> ring_ok (removeOptimisticUserLocked m e)"
  by (simp add: removeOptimisticUserLocked_def delete_rows_ok)

lemma removeTurns_ok: "ring_ok e \<Longrightarrow> ring_ok (snd (removeTurnsLocked n e))"
  by (simp add: removeTurnsLocked_def delete_rows_ok Let_def split: option.split)

lemma apply_identity_ok: "ring_ok e \<Longrightarrow> ring_ok (snd (apply_identity ev e))"
  using removeTurns_ok [of e]
  by (auto simp: apply_identity_def removeNative_ok removeOptimistic_ok Let_def split_beta)

lemma apply_identity_rseq [simp]: "rseq (snd (apply_identity ev e)) = rseq e"
  by (simp add: apply_identity_def removeNativeLocked_def removeOptimisticUserLocked_def
    removeTurnsLocked_def Let_def split: option.split prod.split)

lemma apply_identity_subseq: "subseq (history (snd (apply_identity ev e))) (history e)"
  by (auto simp: apply_identity_def removeNativeLocked_def removeOptimisticUserLocked_def
    removeTurnsLocked_def Let_def split: option.split)

text \<open>Generations only move forward, and every change of the rows draws a fresh one.\<close>

definition gen_forward :: "ring \<Rightarrow> ring \<Rightarrow> bool" where
  "gen_forward e e' \<longleftrightarrow> (histGen e \<le> histGenSeq e \<longrightarrow>
    histGen e \<le> histGen e' \<and> histGen e' \<le> histGenSeq e' \<and> histGenSeq e \<le> histGenSeq e')"

lemma gen_forward_refl [simp]: "gen_forward e e"
  by (simp add: gen_forward_def)

lemma gen_forward_trans: "gen_forward e f \<Longrightarrow> gen_forward f g \<Longrightarrow> gen_forward e g"
  by (auto simp: gen_forward_def)

lemma delete_rows_gen [simp]: "gen_forward e (delete_rows P e)"
  by (simp add: delete_rows_def Let_def gen_forward_def)

lemma delete_twice_gen [simp]: "gen_forward e (delete_rows P (delete_rows Q e))"
  by (rule gen_forward_trans [OF delete_rows_gen delete_rows_gen])

lemma apply_identity_gen: "gen_forward e (snd (apply_identity ev e))"
  by (auto simp: apply_identity_def removeNativeLocked_def removeOptimisticUserLocked_def
    removeTurnsLocked_def Let_def split: option.split)

lemma enforce_gen: "gen_forward e (snd (enforceHistoryBudgetLocked e))"
  by (simp add: enforceHistoryBudgetLocked_def gen_forward_def split: prod.split option.split)

lemma push_row_ok:
  assumes "ring_ok e" "rseq e + 1 < 2 ^ 64"
  shows "ring_ok (snd (push_row ev e))"
  using assms by (auto simp: push_row_def ring_ok_def indexReplayLocked_def Let_def index_of_snoc
    sorted_wrt_append less_Suc_eq_le le_Suc_eq)

lemma push_row_fields:
  assumes "push_row ev e = (ev', e')"
  shows "history e' = history e @ [ev']" "ev' = ev\<lparr>ev_Seq := (rseq e + 1) mod 2 ^ 64\<rparr>"
    "rseq e' = (rseq e + 1) mod 2 ^ 64" "histGen e' = histGen e" "histGenSeq e' = histGenSeq e"
    "historyBytes e' = historyBytes e + Bytes ev'"
  using assms by (auto simp: push_row_def indexReplayLocked_def Let_def)

lemma evict_ok:
  assumes "ring_ok e" "eviction (history e) need = (flags, freed, upTo)"
  shows "ring_ok (reindexHistoryLocked (e\<lparr>history := keep_unmarked (history e) flags\<rparr>))"
  by (rule ring_ok_shrink [OF assms(1)]) (simp add: eviction_spec [OF assms(2)] subseq_nths)

lemma enforce_ok: "ring_ok e \<Longrightarrow> ring_ok (snd (enforceHistoryBudgetLocked e))"
  by (auto simp: enforceHistoryBudgetLocked_def evict_ok split: prod.split option.split)

lemma trimTo_ok: "ring_ok e \<Longrightarrow> ring_ok (snd (trimToLocked budget e))"
  by (auto simp: trimToLocked_def evict_ok split: prod.split)

definition replayed :: "event \<Rightarrow> ring \<Rightarrow> bool" where
  "replayed ev e \<longleftrightarrow> ev_Replay ev \<and> fst (hasReplayDuplicateLocked e ev)"

definition counted :: "event \<Rightarrow> ring \<Rightarrow> ring" where
  "counted ev e = (if ev_Replay ev then snd (hasReplayDuplicateLocked e ev) else e)"

lemma append_cases:
  "appendHistoryLocked ev e =
    (if replayed ev e then (ev, counted ev e)
     else let a = apply_identity ev (next_gen (counted ev e)); q = push_row (fst a) (snd a)
          in (fst q, snd (enforceHistoryBudgetLocked (snd q))))"
  by (auto simp: appendHistoryLocked_def replayed_def counted_def Let_def split_beta split: bool.split)

lemma counted_fields [simp]:
  "history (counted ev e) = history e" "historyBytes (counted ev e) = historyBytes e"
  "replayIndex (counted ev e) = replayIndex e" "rseq (counted ev e) = rseq e"
  "histGen (counted ev e) = histGen e" "histGenSeq (counted ev e) = histGenSeq e"
  by (simp_all add: counted_def)

lemma counted_ok: "ring_ok e \<Longrightarrow> ring_ok (counted ev e) \<and> ring_ok (next_gen (counted ev e))"
  by (simp add: ring_ok_def next_gen_def)

lemma append_ok:
  assumes "ring_ok e" "rseq e + 1 < 2 ^ 64"
  shows "ring_ok (snd (appendHistoryLocked ev e))"
  using assms counted_ok [OF assms(1), of ev]
  by (simp add: append_cases Let_def enforce_ok push_row_ok apply_identity_ok)

subsection \<open>Lemmas: eviction keeps the newest row and meets its target\<close>

lemma reclaim:
  assumes "eviction h need = (flags, freed, upTo)" "need \<le> ring_bytes h"
  shows "ring_bytes (keep_unmarked h flags) + need \<le> ring_bytes h \<or> length (keep_unmarked h flags) = 1 \<or> h = []"
proof -
  let ?V = "evicted_rows h need"
  note spec = eviction_spec [OF assms(1)]
  have free: "ring_bytes h = ring_bytes (keep_unmarked h flags) + freed"
    unfolding spec(1,2) evicted_rows_def ring_bytes_def by (rule class_eviction.victims_free)
  have "length (nths h (- set ?V)) = 1" if "set ?V = {..<length h - 1}" "h \<noteq> []"
  proof -
    have "0 < length h" using that(2) by simp
    then have "i < length h \<and> i \<in> - set ?V \<longleftrightarrow> i = length h - 1" for i
      unfolding Compl_iff that(1) lessThan_iff by linarith
    then show ?thesis by (simp add: length_nths del: Compl_iff)
  qed
  then show ?thesis
    using class_eviction.victims_enough [of need h] free
    unfolding spec(1,2) evicted_rows_def by (cases "h = []"; elim disjE) simp_all
qed

lemma evict_newest:
  assumes "eviction h need = (flags, freed, upTo)" "h \<noteq> []"
  shows "keep_unmarked h flags \<noteq> []" "last (keep_unmarked h flags) = last h"
    "subseq (butlast (keep_unmarked h flags)) (butlast h)"
proof -
  note spec = eviction_spec [OF assms(1)]
  show "keep_unmarked h flags \<noteq> []" "last (keep_unmarked h flags) = last h"
    using class_eviction.kept_newest [OF assms(2)] by (simp_all add: spec evicted_rows_def)
  let ?A = "- set (evicted_rows h need)"
  have "length (butlast h) \<in> ?A"
    using class_eviction.victims_old [of h need] by (auto simp: evicted_rows_def)
  then have "nths h ?A = nths (butlast h) ?A @ [last h]"
    using nths_append [of "butlast h" "[last h]" ?A] assms by simp
  then show "subseq (butlast (keep_unmarked h flags)) (butlast h)"
    using subseq_nths [of "butlast h" ?A] by (simp add: spec)
qed

lemma enforce_newest:
  assumes "history e \<noteq> []"
  shows "history (snd (enforceHistoryBudgetLocked e)) \<noteq> []
    \<and> last (history (snd (enforceHistoryBudgetLocked e))) = last (history e)
    \<and> subseq (butlast (history (snd (enforceHistoryBudgetLocked e)))) (butlast (history e))"
  using assms
  by (auto simp: enforceHistoryBudgetLocked_def evict_newest split: prod.split option.split)

lemma enforce_budget:
  assumes "ring_ok e"
  shows "historyBytes (snd (enforceHistoryBudgetLocked e)) \<le> historyBudgetBytes \<or>
    length (history (snd (enforceHistoryBudgetLocked e))) \<le> 1"
proof (cases "historyBytes e \<le> historyBudgetBytes \<or> length (history e) < 2")
  case False
  let ?need = "historyBytes e - historyTrimToBytes"
  obtain flags freed upTo where ev: "eviction (history e) ?need = (flags, freed, upTo)"
    by (metis surj_pair)
  have trim: "historyTrimToBytes \<le> historyBudgetBytes"
    by (simp add: historyTrimToBytes_def)
  have pos: "0 < ?need" using False trim by linarith
  have "upTo \<noteq> None"
  proof -
    have "evicted_rows (history e) ?need \<noteq> []"
    proof
      assume none: "evicted_rows (history e) ?need = []"
      from class_eviction.victims_enough [of ?need "history e"]
      have "?need \<le> 0 \<or> {} = {..<length (history e) - 1}"
        unfolding evicted_rows_def [symmetric] none by simp
      then have "length (history e) - 1 = 0" using pos by (metis lessThan_iff empty_iff leD neq0_conv)
      with False show False by linarith
    qed
    then show ?thesis using eviction_spec(3) [OF ev] by simp
  qed
  then obtain c where c: "upTo = Some c" by blast
  have bytes: "historyBytes e = ring_bytes (history e)" using assms by (simp add: ring_ok_def)
  have "ring_bytes (keep_unmarked (history e) flags) \<le> historyBudgetBytes \<or>
    length (keep_unmarked (history e) flags) \<le> 1"
    using reclaim [OF ev] False bytes trim by auto
  then show ?thesis
    using False ev c by (simp add: enforceHistoryBudgetLocked_def)
qed (auto simp: enforceHistoryBudgetLocked_def)

subsection \<open>Lemmas: the newest turns\<close>

definition user_rows :: "event list \<Rightarrow> event list" where
  "user_rows h = filter (\<lambda>r. ev_Type r = TypeUserMessage) h"

lemma turn_start_spec:
  assumes "m \<le> length h" "0 < n"
  shows "case turn_start h (rev [0..<m]) n st of
      None \<Rightarrow> st = None \<and> user_rows (take m h) = []
    | Some i \<Rightarrow> (user_rows (take m h) = [] \<and> st = Some i) \<or>
        (i < m \<and> ev_Type (h ! i) = TypeUserMessage \<and>
         int (length (user_rows (drop i (take m h)))) = min n (int (length (user_rows (take m h)))))"
  using assms
proof (induction m arbitrary: n st)
  case 0
  then show ?case by (simp add: user_rows_def split: option.split)
next
  case (Suc m)
  have t: "take (Suc m) h = take m h @ [h ! m]"
    using Suc.prems by (simp add: take_Suc_conv_app_nth)
  have d: "drop i (take (Suc m) h) = drop i (take m h) @ [h ! m]" if "i \<le> m" for i
    using that Suc.prems by (simp add: t)
  show ?case
  proof (cases "ev_Type (h ! m) = TypeUserMessage")
    case False
    with Suc.IH [of n st] Suc.prems show ?thesis
      by (auto simp: t user_rows_def d split: option.splits)
  next
    case True
    show ?thesis
    proof (cases "n = 1")
      case True
      have stop: "turn_start h is 0 (Some m) = Some m" for "is" by (cases "is") simp_all
      show ?thesis
        using \<open>ev_Type (h ! m) = TypeUserMessage\<close> True Suc.prems
        by (simp add: stop t user_rows_def)
    next
      case False
      then have "0 < n - 1" using Suc.prems by simp
      with Suc.IH [of "n - 1" "Some m"] Suc.prems \<open>ev_Type (h ! m) = TypeUserMessage\<close> show ?thesis
        by (auto simp: t user_rows_def d split: option.splits)
    qed
  qed
qed

subsection \<open>Reachable rings\<close>

inductive ring_reach :: "ring \<Rightarrow> bool" where
  ring_empty: "ring_reach empty_ring"
| ring_append: "ring_reach e \<Longrightarrow> rseq e + 1 < 2 ^ 64 \<Longrightarrow> ring_reach (snd (appendHistoryLocked ev e))"
| ring_trim: "ring_reach e \<Longrightarrow> ring_reach (snd (trimToLocked budget e))"

definition in_budget :: "ring \<Rightarrow> bool" where
  "in_budget e \<longleftrightarrow> historyBytes e \<le> historyBudgetBytes \<or> length (history e) \<le> 1"

lemma ring_bytes_subseq: "subseq g h \<Longrightarrow> ring_bytes g \<le> ring_bytes h"
  by (induction rule: list_emb.induct) auto

lemma reindex_smaller:
  assumes "ring_ok e" "subseq h (history e)" "in_budget e"
  shows "in_budget (reindexHistoryLocked (e\<lparr>history := h\<rparr>))"
proof -
  have "ring_bytes h \<le> ring_bytes (history e)" using assms(2) by (rule ring_bytes_subseq)
  moreover have "length h \<le> length (history e)" using assms(2) by (rule list_emb_length)
  ultimately show ?thesis using assms(1,3) by (auto simp: in_budget_def ring_ok_def)
qed

lemma trim_in_budget: "ring_ok e \<Longrightarrow> in_budget e \<Longrightarrow> in_budget (snd (trimToLocked b e))"
  using eviction_spec(1)
  by (auto simp: trimToLocked_def reindex_smaller subseq_nths split: prod.split)

lemma append_in_budget:
  assumes "ring_ok e" "in_budget e" "rseq e + 1 < 2 ^ 64"
  shows "in_budget (snd (appendHistoryLocked ev e))"
proof (cases "replayed ev e")
  case True
  with assms show ?thesis by (simp add: append_cases in_budget_def)
next
  case False
  let ?a = "apply_identity ev (next_gen (counted ev e))"
  have "ring_ok (snd (push_row (fst ?a) (snd ?a)))"
    using counted_ok [OF assms(1)] assms(3) by (intro push_row_ok apply_identity_ok) simp_all
  from enforce_budget [OF this] False show ?thesis
    by (simp add: append_cases Let_def in_budget_def)
qed

lemma ring_reach_ok: "ring_reach e \<Longrightarrow> ring_ok e \<and> in_budget e"
proof (induction rule: ring_reach.induct)
  case ring_empty
  then show ?case by (simp add: empty_ring_def ring_ok_def in_budget_def)
qed (simp_all add: append_ok trimTo_ok append_in_budget trim_in_budget)

lemma append_new:
  assumes "ring_ok e" "\<not> replayed ev e" "appendHistoryLocked ev e = (ev', e')"
  shows "history e' \<noteq> []" "last (history e') = ev'"
    "subseq (butlast (history e')) (history (snd (apply_identity ev (next_gen (counted ev e)))))"
    "ev_Seq ev' = (rseq e + 1) mod 2 ^ 64"
    "historyBytes e + Bytes ev' \<le> historyBudgetBytes \<Longrightarrow>
      history e' = history (snd (apply_identity ev (next_gen (counted ev e)))) @ [ev']"
proof -
  let ?a = "apply_identity ev (next_gen (counted ev e))"
  obtain ev1 e1 where q: "push_row (fst ?a) (snd ?a) = (ev1, e1)" by fastforce
  note f = push_row_fields [OF q]
  have e': "ev' = ev1" "e' = snd (enforceHistoryBudgetLocked e1)"
    using assms(2,3) q by (simp_all add: append_cases Let_def)
  show "history e' \<noteq> []" "last (history e') = ev'"
    "subseq (butlast (history e')) (history (snd ?a))"
    using enforce_newest [of e1] f(1) by (simp_all add: e')
  show "ev_Seq ev' = (rseq e + 1) mod 2 ^ 64" using f(2) by (simp add: e')
  show "history e' = history (snd ?a) @ [ev']" if small: "historyBytes e + Bytes ev' \<le> historyBudgetBytes"
  proof -
    have ok: "ring_ok (snd ?a)" using counted_ok [OF assms(1)] by (intro apply_identity_ok) simp
    have "ring_bytes (history (snd ?a)) \<le> ring_bytes (history e)"
      using ring_bytes_subseq [OF apply_identity_subseq [of ev "next_gen (counted ev e)"]] by simp
    then have "historyBytes e1 \<le> historyBudgetBytes"
      using ok assms(1) small f(6) by (simp add: ring_ok_def e')
    then show ?thesis using f(1) by (simp add: e' enforceHistoryBudgetLocked_def)
  qed
qed

lemma append_gen:
  assumes "ring_ok e" "\<not> replayed ev e"
  shows "histGen e < histGen (snd (appendHistoryLocked ev e))"
proof -
  let ?e = "next_gen (counted ev e)"
  obtain ev1 e1 where q: "push_row (fst (apply_identity ev ?e)) (snd (apply_identity ev ?e)) = (ev1, e1)"
    by fastforce
  have "gen_forward (snd (apply_identity ev ?e)) e1"
    using push_row_fields [OF q] by (simp add: gen_forward_def)
  from gen_forward_trans [OF gen_forward_trans [OF apply_identity_gen this] enforce_gen]
  have "histGen ?e \<le> histGen (snd (enforceHistoryBudgetLocked e1))"
    by (simp add: gen_forward_def next_gen_def)
  moreover have "histGen e < histGen ?e"
    using assms(1) by (simp add: ring_ok_def next_gen_def)
  ultimately show ?thesis using assms(2) q by (simp add: append_cases Let_def)
qed

lemma turns_rows:
  assumes "sorted_wrt (<) (map ev_Seq h)" "i < length h" "j < length h"
  shows "ev_Seq (h ! i) \<le> ev_Seq (h ! j) \<longleftrightarrow> i \<le> j"
proof -
  have "i < j \<Longrightarrow> ev_Seq (h ! i) < ev_Seq (h ! j)" "j < i \<Longrightarrow> ev_Seq (h ! j) < ev_Seq (h ! i)"
    using assms by (simp_all add: sorted_wrt_iff_nth_less)
  then show ?thesis by (metis nle_le not_le)
qed

lemma filter_turns:
  assumes "sorted_wrt (<) (map ev_Seq h)" "i < length h"
  shows "filter (\<lambda>r. \<not> in_turns (ev_Seq (h ! i)) (ev_Seq (last h)) r) h =
    take i h @ filter (\<lambda>r. ev_Type r = TypeNotice \<or> ev_Type r = TypeTranscriptRemove) (drop i h)"
proof -
  have last: "last h = h ! (length h - 1)" using assms(2) by (intro last_conv_nth) auto
  have "\<not> in_turns (ev_Seq (h ! i)) (ev_Seq (last h)) r" if r: "r \<in> set (take i h)" for r
  proof -
    obtain j where j: "j < i" "r = h ! j"
      using r assms(2) by (metis in_set_conv_nth length_take min.strict_boundedE nth_take)
    with turns_rows [OF assms, of j] assms(2) show ?thesis by (simp add: in_turns_def)
  qed
  moreover have "in_turns (ev_Seq (h ! i)) (ev_Seq (last h)) r \<longleftrightarrow>
      \<not> (ev_Type r = TypeNotice \<or> ev_Type r = TypeTranscriptRemove)" if r: "r \<in> set (drop i h)" for r
  proof -
    obtain j where "j < length (drop i h)" "drop i h ! j = r"
      using r by (auto simp only: in_set_conv_nth)
    then have j: "i + j < length h" "r = h ! (i + j)" by auto
    have "ev_Seq (h ! (i + j)) \<le> ev_Seq (last h)" "ev_Seq (h ! i) \<le> ev_Seq (h ! (i + j))"
      using turns_rows [OF assms(1)] j assms(2) by (simp_all add: last)
    with j show ?thesis by (auto simp: in_turns_def)
  qed
  ultimately have "filter (\<lambda>r. \<not> in_turns (ev_Seq (h ! i)) (ev_Seq (last h)) r) (take i h) = take i h"
    "filter (\<lambda>r. \<not> in_turns (ev_Seq (h ! i)) (ev_Seq (last h)) r) (drop i h) =
      filter (\<lambda>r. ev_Type r = TypeNotice \<or> ev_Type r = TypeTranscriptRemove) (drop i h)"
    by (simp_all add: filter_id_conv cong: filter_cong)
  then show ?thesis by (metis append_take_drop_id filter_append)
qed

subsection \<open>Properties\<close>

definition ex_row :: "event_type \<Rightarrow> string \<Rightarrow> event" where
  "ex_row t s = zero_event\<lparr>ev_Type := t, ev_Text := s, ev_NativeMessageID := ''m'', ev_NativePartID := ''p''\<rparr>"

definition ex_ring :: ring where
  "ex_ring = snd (appendHistoryLocked (ex_row TypeAssistantChunk ''b'')
    (snd (appendHistoryLocked (ex_row TypeUserMessage ''a'') empty_ring)))"

lemma small_append:
  assumes "ring_ok e" "\<not> ev_Replay ev" "\<not> ev_Replace ev" "ev_Type ev \<noteq> TypeTranscriptRemove"
    "historyBytes e + Bytes (ev\<lparr>ev_Seq := (rseq e + 1) mod 2 ^ 64\<rparr>) \<le> historyBudgetBytes"
  shows "history (snd (appendHistoryLocked ev e)) = history e @ [ev\<lparr>ev_Seq := (rseq e + 1) mod 2 ^ 64\<rparr>]"
    "rseq (snd (appendHistoryLocked ev e)) = (rseq e + 1) mod 2 ^ 64"
    "historyBytes (snd (appendHistoryLocked ev e)) =
      historyBytes e + Bytes (ev\<lparr>ev_Seq := (rseq e + 1) mod 2 ^ 64\<rparr>)"
  using assms
  by (simp_all add: append_cases replayed_def counted_def apply_identity_def push_row_def Let_def
    indexReplayLocked_def enforceHistoryBudgetLocked_def)

lemma ex_row_bytes:
  "Bytes ((ex_row TypeUserMessage ''a'')\<lparr>ev_Seq := n\<rparr>) = 1047"
  "Bytes ((ex_row TypeAssistantChunk ''b'')\<lparr>ev_Seq := n\<rparr>) = 1058"
  by (simp_all add: Bytes_def eventHeaderBytes_eq string_bytes_def slice_bytes_def pointer_bytes_def
    strings_len_def ex_row_def zero_event_def)

lemma empty_ring_fields [simp]:
  "history empty_ring = []" "historyBytes empty_ring = 0" "rseq empty_ring = 0"
  by (simp_all add: empty_ring_def)

lemma ex_row_plain:
  "\<not> ev_Replay (ex_row t s)" "\<not> ev_Replace (ex_row t s)" "ev_Type (ex_row t s) = t"
  by (simp_all add: ex_row_def zero_event_def)

lemma ex_ring_rows:
  "history ex_ring = [(ex_row TypeUserMessage ''a'')\<lparr>ev_Seq := 1\<rparr>, (ex_row TypeAssistantChunk ''b'')\<lparr>ev_Seq := 2\<rparr>]"
  "rseq ex_ring = 2" "historyBytes ex_ring = 2105"
proof -
  let ?e = "snd (appendHistoryLocked (ex_row TypeUserMessage ''a'') empty_ring)"
  have ok: "ring_ok empty_ring" "ring_ok ?e"
    using ring_reach_ok ring_empty ring_append [OF ring_empty] by fastforce+
  have e: "history ?e = [(ex_row TypeUserMessage ''a'')\<lparr>ev_Seq := 1\<rparr>]" "rseq ?e = 1"
    "historyBytes ?e = 1047"
    using small_append [OF ok(1), of "ex_row TypeUserMessage ''a''"]
    by (simp_all add: ex_row_plain ex_row_bytes historyBudgetBytes_def)
  show "history ex_ring = [(ex_row TypeUserMessage ''a'')\<lparr>ev_Seq := 1\<rparr>, (ex_row TypeAssistantChunk ''b'')\<lparr>ev_Seq := 2\<rparr>]"
    "rseq ex_ring = 2" "historyBytes ex_ring = 2105"
    using small_append [OF ok(2), of "ex_row TypeAssistantChunk ''b''"] e
    by (simp_all add: ex_ring_def ex_row_plain ex_row_bytes historyBudgetBytes_def)
qed

lemma ex_ring_reach: "ring_reach ex_ring"
proof -
  have step: "ring_reach (snd (appendHistoryLocked (ex_row TypeUserMessage ''a'') empty_ring))"
    by (rule ring_append [OF ring_empty]) simp
  have "rseq (snd (appendHistoryLocked (ex_row TypeUserMessage ''a'') empty_ring)) = 1"
    using small_append(2) [of empty_ring "ex_row TypeUserMessage ''a''"] ring_reach_ok [OF ring_empty]
    by (simp add: ex_row_plain ex_row_bytes historyBudgetBytes_def)
  then show ?thesis unfolding ex_ring_def by (intro ring_append [OF step]) simp
qed



text \<open>C25: Replay de-duplication through the hash index decides exactly what the linear scan over
  the ring decides: a replayed event is dropped, leaving rows, index, totals, counter and
  generation alone, if and only if some row has its type, text, tool id and agent session.\<close>

theorem replay_dedupe_is_scan:
  assumes "ring_reach e" "ev_Replay ev"
  shows "if \<exists>h\<in>set (history e). same_replay h ev
    then \<exists>n. appendHistoryLocked ev e = (ev, e\<lparr>replayCompares := n\<rparr>)
    else last (history (snd (appendHistoryLocked ev e))) = fst (appendHistoryLocked ev e)
      \<and> ev_Seq (fst (appendHistoryLocked ev e)) = (rseq e + 1) mod 2 ^ 64"
proof -
  have ok: "ring_ok e" using ring_reach_ok [OF assms(1)] by simp
  have rep: "replayed ev e \<longleftrightarrow> (\<exists>h\<in>set (history e). same_replay h ev)"
    using duplicate_iff [OF ok] assms(2) by (simp add: replayed_def)
  obtain ev' e' where r: "appendHistoryLocked ev e = (ev', e')" by fastforce
  show ?thesis
  proof (cases "replayed ev e")
    case True
    moreover have "counted ev e = e\<lparr>replayCompares := replayCompares (counted ev e)\<rparr>"
      using assms(2) by (simp add: counted_def hasReplayDuplicateLocked_def split: prod.split)
    ultimately have "appendHistoryLocked ev e = (ev, e\<lparr>replayCompares := replayCompares (counted ev e)\<rparr>)"
      by (simp add: append_cases)
    with True rep show ?thesis by auto
  next
    case False
    with append_new [OF ok False r] rep r show ?thesis by simp
  qed
qed

theorem replay_dedupe_is_scan_witness:
  "\<exists>n. appendHistoryLocked ((ex_row TypeUserMessage ''a'')\<lparr>ev_Replay := True\<rparr>) ex_ring =
    ((ex_row TypeUserMessage ''a'')\<lparr>ev_Replay := True\<rparr>, ex_ring\<lparr>replayCompares := n\<rparr>)"
  using replay_dedupe_is_scan [OF ex_ring_reach, of "(ex_row TypeUserMessage ''a'')\<lparr>ev_Replay := True\<rparr>"]
  by (simp add: ex_ring_rows same_replay_def)

text \<open>C20: Eviction follows the class rule. Some set of positions goes: never the newest row; with a
  row goes every older row of its class and every row of a lower class; the rows kept meet the
  target unless only the newest is left; and the last row taken was needed.\<close>

theorem eviction_rule:
  assumes "eviction h need = (flags, freed, upTo)" "need \<le> ring_bytes h"
  shows "\<exists>V. keep_unmarked h flags = nths h (- set V) \<and> set V \<subseteq> {..<length h - 1}
    \<and> (\<forall>i\<in>set V. \<forall>j<length h - 1. before event_class_of h j i \<longrightarrow> j \<in> set V)
    \<and> (ring_bytes (keep_unmarked h flags) \<le> ring_bytes h - need \<or> length (keep_unmarked h flags) = 1 \<or> h = [])
    \<and> (V \<noteq> [] \<longrightarrow> freed - Bytes (h ! last V) < need)"
proof (intro exI [of _ "evicted_rows h need"] conjI)
  let ?V = "evicted_rows h need"
  note spec = eviction_spec [OF assms(1)]
  show "keep_unmarked h flags = nths h (- set ?V)" by (rule spec(1))
  show "set ?V \<subseteq> {..<length h - 1}"
    using class_eviction.victims_old by (simp add: evicted_rows_def)
  show "\<forall>i\<in>set ?V. \<forall>j<length h - 1. before event_class_of h j i \<longrightarrow> j \<in> set ?V"
    using class_eviction.victims_priority unfolding evicted_rows_def by blast
  show "ring_bytes (keep_unmarked h flags) \<le> ring_bytes h - need \<or>
      length (keep_unmarked h flags) = 1 \<or> h = []"
    using reclaim [OF assms] by linarith
  show "?V \<noteq> [] \<longrightarrow> freed - Bytes (h ! last ?V) < need"
  proof
    assume "?V \<noteq> []"
    then have split: "?V = butlast ?V @ [last ?V]" by simp
    have "freed = sum_list (map (\<lambda>i. Bytes (h ! i)) (butlast ?V @ [last ?V]))"
      unfolding split [symmetric] by (rule spec(2))
    moreover have "sum_list (map (\<lambda>i. Bytes (h ! i)) (butlast ?V)) < need"
      using split unfolding evicted_rows_def victims_def by (rule take_until_least)
    ultimately show "freed - Bytes (h ! last ?V) < need" by simp
  qed
qed

theorem eviction_rule_witness:
  "\<exists>V. nths (history ex_ring) (- set V) = [(ex_row TypeAssistantChunk ''b'')\<lparr>ev_Seq := 2\<rparr>] \<and> set V \<subseteq> {..<1}"
proof -
  obtain flags freed upTo where ev: "eviction (history ex_ring) 1 = (flags, freed, upTo)"
    by (metis surj_pair)
  have "1 \<le> ring_bytes (history ex_ring)" by (simp add: ex_ring_rows ex_row_bytes)
  from eviction_rule [OF ev this] obtain V where V: "set V \<subseteq> {..<length (history ex_ring) - 1}"
    and kept: "keep_unmarked (history ex_ring) flags = nths (history ex_ring) (- set V)"
    and goal: "ring_bytes (keep_unmarked (history ex_ring) flags) \<le> ring_bytes (history ex_ring) - 1 \<or>
      length (keep_unmarked (history ex_ring) flags) = 1 \<or> history ex_ring = []"
    by (elim exE conjE)
  have V0: "set V \<subseteq> {0}" using V by (auto simp: ex_ring_rows)
  have "0 \<in> set V"
  proof (rule ccontr)
    assume "0 \<notin> set V"
    with V0 have "set V = {}" by (metis subset_singletonD insertI1)
    with kept goal show False by (simp add: ex_ring_rows nths_all ex_row_bytes)
  qed
  with V0 have "set V = {0}" by (metis subset_singletonD empty_iff)
  then show ?thesis by (intro exI [of _ V]) (simp add: ex_ring_rows nths_Cons)
qed

text \<open>Appending stamps the next sequence number, and the stamped event is the newest row and is
  never evicted by its own arrival; the other rows are a sub-sequence of the rows before, and the
  generation moves on.\<close>

theorem append_is_newest:
  assumes "ring_reach e" "\<not> ev_Replay ev" "rseq e + 1 < 2 ^ 64"
    and "appendHistoryLocked ev e = (ev', e')"
  shows "ev_Seq ev' = rseq e + 1 \<and> history e' \<noteq> [] \<and> last (history e') = ev'
    \<and> subseq (butlast (history e')) (history e) \<and> histGen e < histGen e'"
proof -
  have ok: "ring_ok e" and nr: "\<not> replayed ev e"
    using ring_reach_ok [OF assms(1)] assms(2) by (simp_all add: replayed_def)
  note new = append_new [OF ok nr assms(4)]
  have "subseq (butlast (history e')) (history e)"
    using subseq_order.trans [OF new(3) apply_identity_subseq] by simp
  then show ?thesis using new assms(3,4) append_gen [OF ok nr] by simp
qed

theorem append_is_newest_witness:
  "ev_Seq (last (history (snd (appendHistoryLocked (ex_row TypePlan ''c'') ex_ring)))) = 3"
proof -
  obtain ev' e' where r: "appendHistoryLocked (ex_row TypePlan ''c'') ex_ring = (ev', e')" by fastforce
  from append_is_newest [OF ex_ring_reach _ _ r] show ?thesis
    by (simp add: r ex_ring_rows ex_row_plain)
qed

text \<open>A replacement snapshot leaves one row for its part. With room in the budget, the rows
  after the append are the rows before less those of the same message and part (removal records
  excepted) and, for a user part, less the message's optimistic row; then the snapshot.\<close>

theorem replace_keeps_one_row:
  assumes "ring_reach e" "\<not> ev_Replay ev" "ev_Replace ev" "ev_Type ev \<noteq> TypeTranscriptRemove"
    and "ev_NativeMessageID ev \<noteq> []" "ev_NativePartID ev \<noteq> []"
    and "appendHistoryLocked ev e = (ev', e')" "historyBytes e + Bytes ev' \<le> historyBudgetBytes"
  shows "history e' = filter (\<lambda>h. \<not> (ev_NativeMessageID h = ev_NativeMessageID ev
        \<and> (ev_Type h \<noteq> TypeTranscriptRemove \<and> ev_NativePartID h = ev_NativePartID ev
           \<or> ev_Type ev = TypeUserMessage \<and> ev_Type h = TypeUserMessage \<and> ev_NativePartID h = [])))
      (history e) @ [ev']"
proof -
  have ok: "ring_ok e" and nr: "\<not> replayed ev e"
    using ring_reach_ok [OF assms(1)] assms(2) by (simp_all add: replayed_def)
  from append_new(5) [OF ok nr assms(7,8)] show ?thesis
    using assms(3-6)
    by (auto simp: apply_identity_def removeNativeLocked_def removeOptimisticUserLocked_def
      names_row_def optimistic_row_def Let_def intro!: filter_cong)
qed

theorem replace_keeps_one_row_witness:
  "map ev_Text (history (snd (appendHistoryLocked
     ((ex_row TypeAssistantChunk ''new'')\<lparr>ev_Replace := True\<rparr>) ex_ring))) = [''new'']"
proof -
  let ?ev = "(ex_row TypeAssistantChunk ''new'')\<lparr>ev_Replace := True\<rparr>"
  obtain ev' e' where r: "appendHistoryLocked ?ev ex_ring = (ev', e')" by fastforce
  have "ev' = ?ev\<lparr>ev_Seq := 3\<rparr>"
    using r push_row_fields(2)
    by (auto simp: append_cases replayed_def apply_identity_def Let_def ex_row_plain ex_ring_rows
      push_row_def removeNativeLocked_def)
  moreover have "Bytes (?ev\<lparr>ev_Seq := 3\<rparr>) = 1060"
    by (simp add: Bytes_def eventHeaderBytes_eq string_bytes_def slice_bytes_def pointer_bytes_def
      strings_len_def ex_row_def zero_event_def)
  ultimately show ?thesis
    using replace_keeps_one_row [OF ex_ring_reach _ _ _ _ _ r]
    by (simp add: r ex_ring_rows ex_row_plain historyBudgetBytes_def) (simp add: ex_row_def)
qed

text \<open>Undoing \<open>n\<close> turns removes exactly the newest \<open>n\<close> of them (all of them, when there
  are fewer): every row from the n-th newest user row on goes, except notices and removal
  records; the reported range is the one those rows had; and with no user row nothing goes.\<close>

theorem removeTurns_exact:
  assumes "ring_reach e" "0 < n" "removeTurnsLocked n e = ((from, to), e')"
  shows "if user_rows (history e) = [] then from = 0 \<and> to = 0 \<and> e' = e
    else \<exists>i<length (history e). ev_Type (history e ! i) = TypeUserMessage
      \<and> int (length (user_rows (drop i (history e)))) = min n (int (length (user_rows (history e))))
      \<and> history e' = take i (history e) @
          filter (\<lambda>r. ev_Type r = TypeNotice \<or> ev_Type r = TypeTranscriptRemove) (drop i (history e))
      \<and> from = ev_Seq (history e ! i) \<and> to = ev_Seq (last (history e))"
proof -
  have "ring_ok e" using ring_reach_ok [OF assms(1)] by simp
  then have sorted: "sorted_wrt (<) (map ev_Seq (history e))" by (simp add: ring_ok_def)
  note spec = turn_start_spec [of "length (history e)" "history e" n None, simplified]
  show ?thesis
  proof (cases "turn_start (history e) (rev [0..<length (history e)]) n None")
    case None
    then show ?thesis using spec assms(2,3) by (simp add: removeTurnsLocked_def)
  next
    case (Some i)
    then have i: "i < length (history e)" "ev_Type (history e ! i) = TypeUserMessage"
      "int (length (user_rows (drop i (history e)))) = min n (int (length (user_rows (history e))))"
      using spec assms(2) by auto
    moreover have "history e ! i \<in> set (user_rows (history e))" using i by (simp add: user_rows_def)
    then have "user_rows (history e) \<noteq> []" by auto
    moreover have "from = ev_Seq (history e ! i)" "to = ev_Seq (last (history e))"
      "history e' = filter (\<lambda>h. \<not> in_turns from to h) (history e)"
      using Some assms(3) by (auto simp: removeTurnsLocked_def Let_def)
    ultimately show ?thesis using filter_turns [OF sorted i(1)] by auto
  qed
qed

theorem removeTurns_exact_witness:
  "history (snd (removeTurnsLocked 5 ex_ring)) = []"
proof -
  obtain a b e' where r: "removeTurnsLocked 5 ex_ring = ((a, b), e')" by (metis surj_pair)
  have users: "user_rows (history ex_ring) = [(ex_row TypeUserMessage ''a'')\<lparr>ev_Seq := 1\<rparr>]"
    by (simp add: ex_ring_rows user_rows_def ex_row_plain)
  from removeTurns_exact [OF ex_ring_reach _ r] obtain i
    where "i < length (history ex_ring)" "ev_Type (history ex_ring ! i) = TypeUserMessage"
      "history e' = take i (history ex_ring) @
        filter (\<lambda>r. ev_Type r = TypeNotice \<or> ev_Type r = TypeTranscriptRemove) (drop i (history ex_ring))"
    unfolding users by auto
  moreover from this have "i = 0"
    by (cases i) (auto simp: ex_ring_rows ex_row_plain less_Suc_eq)
  ultimately show ?thesis by (simp add: r ex_ring_rows ex_row_plain)
qed

end
