(* ===== verification/GlobalBudget.thy ===== *)
theory GlobalBudget
  imports History "HOL-Library.AList"
begin

text \<open>
  The daemon-wide history budget: \<open>enforceGlobalBudgetLocked\<close> of
  \<open>internal/session/manager.go\<close>. The live sessions are a list of ids and entries with
  distinct ids: Go ranges over the map in an unspecified order, which the order of the list
  stands for, and \<open>sort.Slice\<close> breaks ties by it. The generation counter, global in the
  process, is threaded through the rings.
\<close>

record sess =
  s_ring :: ring
  s_dead :: bool
  lastEventAt :: gotime
  globalTrimNoticed :: bool

record budget_state =
  bs_total :: nat
  firstTrimmed :: "string list"
  bs_gen :: nat
  bs_sessions :: "(string \<times> sess) list"

definition sess_bytes :: "sess \<Rightarrow> nat" where
  "sess_bytes s = historyBytes (s_ring s)"

definition total_bytes :: "(string \<times> sess) list \<Rightarrow> nat" where
  "total_bytes ss = sum_list (map (sess_bytes \<circ> snd) ss)"

text \<open>The closure \<open>trim\<close>: one session to its share, counted, and noticed the first time.\<close>

definition trim_session :: "nat \<Rightarrow> string \<Rightarrow> budget_state \<Rightarrow> budget_state" where
  "trim_session share i st =
    (case map_of (bs_sessions st) i of
       None \<Rightarrow> st
     | Some s \<Rightarrow>
         (case trimToLocked share ((s_ring s)\<lparr>histGenSeq := bs_gen st\<rparr>) of
            (False, _) \<Rightarrow> st
          | (True, r) \<Rightarrow>
              st\<lparr>bs_total := bs_total st - (sess_bytes s - historyBytes r),
                 bs_gen := histGenSeq r,
                 firstTrimmed := (if globalTrimNoticed s then firstTrimmed st
                                  else firstTrimmed st @ [i]),
                 bs_sessions := AList.update i (s\<lparr>s_ring := r, globalTrimNoticed := True\<rparr>)
                   (bs_sessions st)\<rparr>))"

fun trim_cold :: "nat \<Rightarrow> nat \<Rightarrow> string list \<Rightarrow> budget_state \<Rightarrow> budget_state" where
  "trim_cold budget share [] st = st"
| "trim_cold budget share (i # is) st =
    (if bs_total st \<le> budget then st else trim_cold budget share is (trim_session share i st))"

definition effective_budget :: "int \<Rightarrow> nat" where
  "effective_budget b = (if b \<le> 0 then globalBudgetBytes else nat b)"

definition cold_ids :: "string \<Rightarrow> (string \<times> sess) list \<Rightarrow> string list" where
  "cold_ids activeID ss =
    map fst (sort_key (lastEventAt \<circ> snd) (filter (\<lambda>(i, s). \<not> (s_dead s \<or> i = activeID)) ss))"

definition enforceGlobalBudgetLocked ::
  "int \<Rightarrow> string \<Rightarrow> nat \<Rightarrow> (string \<times> sess) list \<Rightarrow> budget_state" where
  "enforceGlobalBudgetLocked globalBudget activeID gen ss =
    (let budget = effective_budget globalBudget;
         st = \<lparr>bs_total = total_bytes ss, firstTrimmed = [], bs_gen = gen, bs_sessions = ss\<rparr>
     in if bs_total st \<le> budget then st
        else
          let share = budget div max (length ss) 1;
              st1 = trim_cold budget share (cold_ids activeID ss) st
          in if budget < bs_total st1
             then (case map_of (bs_sessions st1) activeID of
                     Some e \<Rightarrow> if s_dead e then st1 else trim_session share activeID st1
                   | None \<Rightarrow> st1)
             else st1)"

subsection \<open>Lemmas: one ring\<close>

lemma trim_result:
  assumes "ring_ok e" "trimToLocked budget e = (changed, r)"
  shows "ring_ok r" "historyBytes r \<le> historyBytes e"
    "historyBytes r \<le> budget \<or> length (history r) \<le> 1"
    "history e \<noteq> [] \<Longrightarrow> last (history r) = last (history e) \<and> history r \<noteq> []"
    "history e = [] \<Longrightarrow> history r = []"
    "\<not> changed \<Longrightarrow> r = e" "histGenSeq e \<le> histGenSeq r"
proof -
  show "ring_ok r" using trimTo_ok [OF assms(1), of budget] assms(2) by simp
  have b: "historyBytes e = ring_bytes (history e)" using assms(1) by (simp add: ring_ok_def)
  obtain flags freed upTo where ev: "eviction (history e) (historyBytes e - budget) = (flags, freed, upTo)"
    by (metis surj_pair)
  note spec = eviction_spec [OF ev]
  have cases: "(r = e \<and> \<not> changed \<and> (historyBytes e \<le> budget \<or> length (history e) < 2)) \<or>
    (r = e \<and> \<not> changed \<and> \<not> (historyBytes e \<le> budget \<or> length (history e) < 2) \<and> freed = 0) \<or>
    (r = reindexHistoryLocked (e\<lparr>history := keep_unmarked (history e) flags\<rparr>) \<and> changed \<and>
      \<not> (historyBytes e \<le> budget \<or> length (history e) < 2))"
    using assms(2) ev by (auto simp: trimToLocked_def split: if_splits)
  have free: "ring_bytes (history e) = ring_bytes (keep_unmarked (history e) flags) + freed"
    unfolding spec(1,2) evicted_rows_def ring_bytes_def by (rule class_eviction.victims_free)
  have target: "ring_bytes (keep_unmarked (history e) flags) \<le> budget \<or> length (keep_unmarked (history e) flags) \<le> 1"
    if "\<not> (historyBytes e \<le> budget \<or> length (history e) < 2)"
    using reclaim [OF ev] that b by auto
  have stuck: "freed \<noteq> 0" if "\<not> (historyBytes e \<le> budget \<or> length (history e) < 2)"
  proof
    assume "freed = 0"
    then have "ring_bytes (keep_unmarked (history e) flags) = ring_bytes (history e)" using free by simp
    with target [OF that] that b have "length (keep_unmarked (history e) flags) \<le> 1" by simp
    moreover have "keep_unmarked (history e) flags = history e"
    proof -
      have "evicted_rows (history e) (historyBytes e - budget) = []"
        using \<open>freed = 0\<close> spec(2) Bytes_pos
        by (metis (no_types, lifting) sum_list_eq_0_iff list.set_map imageI list.set_intros(1) list.exhaust not_less_zero)
      then show ?thesis using spec(1) by (simp add: nths_all)
    qed
    ultimately show False using that by simp
  qed
  show "historyBytes r \<le> historyBytes e" using cases free b by auto
  show "historyBytes r \<le> budget \<or> length (history r) \<le> 1" using cases target stuck by auto
  show "last (history r) = last (history e) \<and> history r \<noteq> []" if "history e \<noteq> []"
    using cases evict_newest(1,2) [OF ev that] that by auto
  show "history r = []" if "history e = []" using cases that by auto
  show "\<not> changed \<Longrightarrow> r = e" "histGenSeq e \<le> histGenSeq r" using cases by auto
qed

definition squeezed :: "nat \<Rightarrow> sess \<Rightarrow> bool" where
  "squeezed share s \<longleftrightarrow> sess_bytes s \<le> share \<or> length (history (s_ring s)) \<le> 1"

definition newest_fits :: "nat \<Rightarrow> sess \<Rightarrow> bool" where
  "newest_fits share s \<longleftrightarrow> history (s_ring s) = [] \<or> Bytes (last (history (s_ring s))) \<le> share"

definition budget_inv :: "budget_state \<Rightarrow> bool" where
  "budget_inv st \<longleftrightarrow> distinct (map fst (bs_sessions st)) \<and> bs_total st = total_bytes (bs_sessions st) \<and>
    (\<forall>i s. map_of (bs_sessions st) i = Some s \<longrightarrow> ring_ok ((s_ring s)\<lparr>histGenSeq := bs_gen st\<rparr>))"

subsection \<open>Lemmas: one session\<close>

lemma update_present:
  "map_of ss i = Some s \<Longrightarrow> map fst (AList.update i s' ss) = map fst ss"
  by (induction ss) (auto split: if_splits)

lemma total_update:
  "map_of ss i = Some s \<Longrightarrow>
   total_bytes (AList.update i s' ss) + sess_bytes s = total_bytes ss + sess_bytes s'"
  by (induction ss) (auto simp: total_bytes_def split: if_splits)

lemma total_member: "map_of ss i = Some s \<Longrightarrow> sess_bytes s \<le> total_bytes ss"
  by (induction ss) (auto simp: total_bytes_def split: if_splits)

lemma trim_session_shape:
  assumes "budget_inv st" "map_of (bs_sessions st) i = Some s"
  obtains s' where "map_of (bs_sessions (trim_session share i st)) = (map_of (bs_sessions st))(i \<mapsto> s')"
    "map fst (bs_sessions (trim_session share i st)) = map fst (bs_sessions st)"
    "squeezed share s'" "newest_fits n s \<Longrightarrow> newest_fits n s'" "s_dead s' = s_dead s"
    "budget_inv (trim_session share i st)"
proof -
  let ?e = "(s_ring s)\<lparr>histGenSeq := bs_gen st\<rparr>"
  obtain ch r where t: "trimToLocked share ?e = (ch, r)" by fastforce
  have ok: "ring_ok ?e" using assms by (simp add: budget_inv_def)
  note tr = trim_result [OF ok t]
  show ?thesis
  proof (cases ch)
    case False
    then have "r = ?e" using tr(6) by simp
    then have "squeezed share s" using tr(3) by (simp add: squeezed_def sess_bytes_def)
    moreover have "trim_session share i st = st" using assms(2) t False by (simp add: trim_session_def)
    moreover have "(map_of (bs_sessions st))(i \<mapsto> s) = map_of (bs_sessions st)"
      using assms(2) by (simp add: map_upd_triv)
    ultimately show ?thesis using assms(1) by (intro that [of s]) simp_all
  next
    case True
    let ?s' = "s\<lparr>s_ring := r, globalTrimNoticed := True\<rparr>"
    let ?st' = "trim_session share i st"
    have st': "bs_sessions ?st' = AList.update i ?s' (bs_sessions st)" "bs_gen ?st' = histGenSeq r"
      "bs_total ?st' = bs_total st - (sess_bytes s - historyBytes r)"
      using assms(2) t True by (simp_all add: trim_session_def)
    have le: "historyBytes r \<le> sess_bytes s" using tr(2) by (simp add: sess_bytes_def)
    have "bs_total ?st' = total_bytes (bs_sessions ?st')"
      using total_update [OF assms(2), of ?s'] total_member [OF assms(2)] assms(1) le
      by (simp add: st' budget_inv_def sess_bytes_def)
    moreover have "ring_ok ((s_ring x)\<lparr>histGenSeq := histGenSeq r\<rparr>)"
      if "map_of (bs_sessions ?st') j = Some x" for j x
    proof (cases "j = i")
      case True
      then show ?thesis using that tr(1) by (auto simp: st' AList.update_conv')
    next
      case False
      then have "map_of (bs_sessions st) j = Some x" using that by (simp add: st' AList.update_conv')
      then have "ring_ok ((s_ring x)\<lparr>histGenSeq := bs_gen st\<rparr>)" using assms(1) by (simp add: budget_inv_def)
      then show ?thesis using tr(7) by (simp add: ring_ok_def)
    qed
    ultimately have "budget_inv ?st'"
      using assms update_present [OF assms(2)] by (simp add: budget_inv_def st')
    moreover have "newest_fits n s \<Longrightarrow> newest_fits n ?s'"
      using tr(4,5) by (cases "history (s_ring s) = []") (simp_all add: newest_fits_def)
    moreover have "squeezed share ?s'" using tr(3) by (simp add: squeezed_def sess_bytes_def)
    ultimately show ?thesis
      using update_present [OF assms(2)] by (intro that [of ?s']) (simp_all add: st' AList.update_conv')
  qed
qed

text \<open>What the trims keep: the ids, who is dead, which newest rows fit, and who is squeezed.\<close>

definition settled :: "nat \<Rightarrow> budget_state \<Rightarrow> budget_state \<Rightarrow> bool" where
  "settled share st st' \<longleftrightarrow> budget_inv st' \<and> map fst (bs_sessions st') = map fst (bs_sessions st) \<and>
    (\<forall>i s'. map_of (bs_sessions st') i = Some s' \<longrightarrow> (\<exists>s. map_of (bs_sessions st) i = Some s \<and>
      (newest_fits share s \<longrightarrow> newest_fits share s') \<and> s_dead s' = s_dead s \<and>
      (s' = s \<or> squeezed share s')))"

lemma settled_refl: "budget_inv st \<Longrightarrow> settled share st st"
  by (simp add: settled_def)

lemma settled_trans: "settled share st st1 \<Longrightarrow> settled share st1 st2 \<Longrightarrow> settled share st st2"
  unfolding settled_def by metis

lemma trim_session_settled:
  assumes "budget_inv st"
  shows "settled share st (trim_session share i st)"
proof (cases "map_of (bs_sessions st) i")
  case None
  then show ?thesis using assms by (simp add: trim_session_def settled_refl)
next
  case (Some s)
  from trim_session_shape [OF assms this, of share share] obtain s' where
    "map_of (bs_sessions (trim_session share i st)) = (map_of (bs_sessions st))(i \<mapsto> s')"
    "map fst (bs_sessions (trim_session share i st)) = map fst (bs_sessions st)"
    "squeezed share s'" "newest_fits share s \<Longrightarrow> newest_fits share s'" "s_dead s' = s_dead s"
    "budget_inv (trim_session share i st)" by metis
  with Some show ?thesis by (auto simp: settled_def)
qed

lemma trim_session_squeezed:
  assumes "budget_inv st" "map_of (bs_sessions (trim_session share i st)) i = Some s"
  shows "squeezed share s"
proof (cases "map_of (bs_sessions st) i")
  case None
  then show ?thesis using assms by (simp add: trim_session_def)
next
  case (Some x)
  from trim_session_shape [OF assms(1) this, of share share] assms(2) show ?thesis
    by (metis fun_upd_same option.inject)
qed

lemma trim_cold_settled:
  "budget_inv st \<Longrightarrow> settled share st (trim_cold budget share is st)"
proof (induction budget share "is" st rule: trim_cold.induct)
  case (2 budget share i "is" st)
  then show ?case
    using trim_session_settled [OF 2(2), of share i] settled_trans settled_refl
    by (auto simp: settled_def)
qed (simp add: settled_refl)

lemma trim_session_others:
  "budget_inv st \<Longrightarrow> j \<noteq> i \<Longrightarrow>
   map_of (bs_sessions (trim_session share i st)) j = map_of (bs_sessions st) j"
  by (auto simp: trim_session_def AList.update_conv' split: option.split prod.split bool.split)

lemma trim_cold_others:
  "budget_inv st \<Longrightarrow> j \<notin> set is \<Longrightarrow>
   map_of (bs_sessions (trim_cold budget share is st)) j = map_of (bs_sessions st) j"
proof (induction budget share "is" st rule: trim_cold.induct)
  case (2 budget share i "is" st)
  then show ?case
    using trim_session_settled [OF 2(2), of share i] by (simp add: trim_session_others settled_def)
qed simp

lemma trim_cold_squeezed:
  assumes "budget_inv st" "budget < bs_total (trim_cold budget share is st)" "i \<in> set is"
    "map_of (bs_sessions (trim_cold budget share is st)) i = Some s"
  shows "squeezed share s"
  using assms
proof (induction budget share "is" st rule: trim_cold.induct)
  case (2 budget share j "is" st)
  let ?st1 = "trim_session share j st"
  have over: "\<not> bs_total st \<le> budget" using 2(3) by (auto split: if_splits)
  have inv: "budget_inv ?st1" using trim_session_settled [OF 2(2)] by (simp add: settled_def)
  show ?case
  proof (cases "i \<in> set is")
    case True
    then show ?thesis using 2 over inv by simp
  next
    case False
    then have "i = j" using 2(4) by simp
    have "settled share ?st1 (trim_cold budget share is ?st1)" using inv by (rule trim_cold_settled)
    then obtain x where x: "map_of (bs_sessions ?st1) i = Some x" "s = x \<or> squeezed share s"
      using 2(5) over by (auto simp: settled_def)
    with trim_session_squeezed [OF 2(2)] \<open>i = j\<close> show ?thesis by blast
  qed
qed simp

lemma squeezed_bytes:
  assumes "squeezed share s" "newest_fits share s" "ring_ok ((s_ring s)\<lparr>histGenSeq := g\<rparr>)"
  shows "sess_bytes s \<le> share"
proof -
  have "sess_bytes s = ring_bytes (history (s_ring s))"
    using assms(3) by (simp add: ring_ok_def sess_bytes_def)
  moreover have "ring_bytes h \<le> share" if "length h \<le> 1" "h = [] \<or> Bytes (last h) \<le> share" for h
    using that by (cases h) auto
  ultimately show ?thesis using assms by (auto simp: squeezed_def newest_fits_def)
qed

lemma total_bound:
  assumes "\<And>i s. (i, s) \<in> set ss \<Longrightarrow> sess_bytes s \<le> share"
  shows "total_bytes ss \<le> length ss * share"
proof -
  have "total_bytes ss \<le> sum_list (map (\<lambda>_. share) ss)"
    unfolding total_bytes_def using assms by (intro sum_list_mono) auto
  then show ?thesis by (simp add: sum_list_triv)
qed

lemma cold_ids_set: "set (cold_ids a ss) = {i. \<exists>s. (i, s) \<in> set ss \<and> \<not> s_dead s \<and> i \<noteq> a}"
  by (auto simp: cold_ids_def image_iff)

definition start_state :: "nat \<Rightarrow> (string \<times> sess) list \<Rightarrow> budget_state" where
  "start_state gen ss = \<lparr>bs_total = total_bytes ss, firstTrimmed = [], bs_gen = gen, bs_sessions = ss\<rparr>"

definition sessions_ok :: "nat \<Rightarrow> (string \<times> sess) list \<Rightarrow> bool" where
  "sessions_ok gen ss \<longleftrightarrow> distinct (map fst ss) \<and>
    (\<forall>s\<in>snd ` set ss. ring_ok ((s_ring s)\<lparr>histGenSeq := gen\<rparr>))"

lemma start_inv: "sessions_ok gen ss \<Longrightarrow> budget_inv (start_state gen ss)"
  by (auto simp: sessions_ok_def budget_inv_def start_state_def dest: map_of_SomeD)

definition fair_share :: "int \<Rightarrow> (string \<times> sess) list \<Rightarrow> nat" where
  "fair_share gb ss = effective_budget gb div max (length ss) 1"

text \<open>The state after the cold sessions have given.\<close>

definition cold_state :: "int \<Rightarrow> string \<Rightarrow> nat \<Rightarrow> (string \<times> sess) list \<Rightarrow> budget_state" where
  "cold_state gb a gen ss =
    trim_cold (effective_budget gb) (fair_share gb ss) (cold_ids a ss) (start_state gen ss)"

lemma enforceGlobal_unfold:
  "enforceGlobalBudgetLocked gb a gen ss =
    (if total_bytes ss \<le> effective_budget gb then start_state gen ss
     else if effective_budget gb < bs_total (cold_state gb a gen ss)
        \<and> (\<exists>e. map_of (bs_sessions (cold_state gb a gen ss)) a = Some e \<and> \<not> s_dead e)
     then trim_session (fair_share gb ss) a (cold_state gb a gen ss) else cold_state gb a gen ss)"
  by (auto simp: enforceGlobalBudgetLocked_def start_state_def cold_state_def fair_share_def Let_def
    split: option.split)

lemma enforceGlobal_cases:
  obtains (within) "enforceGlobalBudgetLocked gb a gen ss = start_state gen ss"
      "total_bytes ss \<le> effective_budget gb"
  | (enough) "enforceGlobalBudgetLocked gb a gen ss = cold_state gb a gen ss"
      "bs_total (cold_state gb a gen ss) \<le> effective_budget gb"
  | (absent) "enforceGlobalBudgetLocked gb a gen ss = cold_state gb a gen ss"
      "effective_budget gb < bs_total (cold_state gb a gen ss)"
      "\<forall>e. map_of (bs_sessions (cold_state gb a gen ss)) a = Some e \<longrightarrow> s_dead e"
  | (active) e where
      "enforceGlobalBudgetLocked gb a gen ss = trim_session (fair_share gb ss) a (cold_state gb a gen ss)"
      "effective_budget gb < bs_total (cold_state gb a gen ss)"
      "map_of (bs_sessions (cold_state gb a gen ss)) a = Some e" "\<not> s_dead e"
  using enforceGlobal_unfold [of gb a gen ss] by (meson not_le_imp_less)

lemma cold_settled:
  "sessions_ok gen ss \<Longrightarrow> settled (fair_share gb ss) (start_state gen ss) (cold_state gb a gen ss)"
  unfolding cold_state_def by (intro trim_cold_settled start_inv)

lemma cold_inv: "sessions_ok gen ss \<Longrightarrow> budget_inv (cold_state gb a gen ss)"
  using cold_settled by (auto simp: settled_def)

lemma settled_from_start:
  assumes "settled share (start_state gen ss) st" "map_of (bs_sessions st) i = Some x"
  obtains s where "map_of ss i = Some s" "newest_fits share s \<Longrightarrow> newest_fits share x"
    "s_dead x = s_dead s" "x = s \<or> squeezed share x"
  using assms unfolding settled_def start_state_def by (metis budget_state.select_convs(4))

lemma enforce_settled:
  assumes "sessions_ok gen ss"
  shows "settled (fair_share gb ss) (start_state gen ss) (enforceGlobalBudgetLocked gb a gen ss)"
  using settled_trans [OF cold_settled [OF assms] trim_session_settled [OF cold_inv [OF assms]]]
    cold_settled [OF assms] settled_refl [OF start_inv [OF assms]]
  unfolding enforceGlobal_unfold by presburger

text \<open>While the total is over budget, every live session but the active one has been squeezed.\<close>

lemma cold_first:
  assumes "sessions_ok gen ss" "effective_budget gb < bs_total (cold_state gb a gen ss)"
    and "map_of (bs_sessions (cold_state gb a gen ss)) i = Some x" "\<not> s_dead x" "i \<noteq> a"
  shows "squeezed (fair_share gb ss) x"
proof -
  obtain s where "map_of ss i = Some s" "s_dead x = s_dead s"
    using settled_from_start [OF cold_settled [OF assms(1)] assms(3)] by metis
  then have "i \<in> set (cold_ids a ss)"
    using assms(4,5) by (auto simp: cold_ids_set dest!: map_of_SomeD)
  with trim_cold_squeezed [OF start_inv [OF assms(1)]] assms(2,3) show ?thesis
    unfolding cold_state_def by blast
qed

lemma active_trim_others:
  assumes "sessions_ok gen ss" "effective_budget gb < bs_total (cold_state gb a gen ss)"
    and "map_of (bs_sessions (trim_session (fair_share gb ss) a (cold_state gb a gen ss))) i = Some x"
    and "\<not> s_dead x" "i \<noteq> a"
  shows "squeezed (fair_share gb ss) x"
proof -
  have "map_of (bs_sessions (cold_state gb a gen ss)) i = Some x"
    using assms(3,5) trim_session_others [OF cold_inv [OF assms(1)]] by simp
  then show ?thesis using cold_first [OF assms(1,2)] assms(4,5) by blast
qed

lemma enforce_squeezed:
  assumes ok: "sessions_ok gen ss" and live: "\<forall>s\<in>snd ` set ss. \<not> s_dead s"
    and over: "effective_budget gb < bs_total (enforceGlobalBudgetLocked gb a gen ss)"
    and x: "map_of (bs_sessions (enforceGlobalBudgetLocked gb a gen ss)) i = Some x"
  shows "squeezed (fair_share gb ss) x"
proof -
  obtain s where "map_of ss i = Some s" "s_dead x = s_dead s"
    using settled_from_start [OF enforce_settled [OF ok] x] by metis
  then have alive: "\<not> s_dead x" using live by (auto dest!: map_of_SomeD)
  show ?thesis
  proof (cases rule: enforceGlobal_cases [where gb = gb and a = a and gen = gen and ss = ss])
    case within
    then show ?thesis using over by (simp add: start_state_def)
  next
    case enough
    then show ?thesis using over by simp
  next
    case absent
    then have "i \<noteq> a" using x alive by auto
    then show ?thesis using cold_first [OF ok absent(2)] absent(1) x alive by simp
  next
    case (active e)
    show ?thesis
    proof (cases "i = a")
      case True
      with trim_session_squeezed [OF cold_inv [OF ok]] x active show ?thesis by simp
    next
      case False
      then show ?thesis using active_trim_others [OF ok active(2)] x active(1) alive by simp
    qed
  qed
qed

subsection \<open>Properties\<close>

text \<open>The sessions of the examples: two rows in the active one, none in the other.\<close>

definition ex_sess :: "ring \<Rightarrow> sess" where
  "ex_sess r = \<lparr>s_ring = r, s_dead = False, lastEventAt = 1, globalTrimNoticed = False\<rparr>"

definition ex_sessions :: "(string \<times> sess) list" where
  "ex_sessions = [(''a'', ex_sess ex_ring), (''b'', ex_sess empty_ring)]"

lemma ex_sessions_ok: "sessions_ok (histGenSeq ex_ring) ex_sessions"
proof -
  have "ring_ok (ex_ring\<lparr>histGenSeq := histGenSeq ex_ring\<rparr>)"
    using ring_reach_ok [OF ex_ring_reach] by simp
  moreover have "ring_ok (empty_ring\<lparr>histGenSeq := g\<rparr>)" for g
    by (simp add: ring_ok_def empty_ring_def)
  ultimately show ?thesis by (simp add: sessions_ok_def ex_sessions_def ex_sess_def)
qed

lemma ex_sessions_total: "total_bytes ex_sessions = 2105"
  by (simp add: total_bytes_def ex_sessions_def sess_bytes_def ex_sess_def ex_ring_rows)

lemma ex_share: "fair_share gb ex_sessions = effective_budget gb div 2"
  by (simp add: fair_share_def ex_sessions_def numeral_2_eq_2)

lemma ex_cold: "cold_state 2000 ''a'' g ex_sessions = start_state g ex_sessions"
  by (simp add: cold_state_def cold_ids_def ex_sessions_def trim_session_def trimToLocked_def
    start_state_def ex_sess_def)

text \<open>C22: The global budget is met. If no session is closing and each session's newest row fits in
  an equal share, then after enforcement the rings together are within the budget; and the total
  the loop carries is the real one.\<close>

theorem global_budget_met:
  assumes "sessions_ok gen ss" "\<forall>s\<in>snd ` set ss. \<not> s_dead s"
    and "\<forall>s\<in>snd ` set ss. newest_fits (fair_share gb ss) s"
  shows "total_bytes (bs_sessions (enforceGlobalBudgetLocked gb a gen ss)) \<le> effective_budget gb
    \<and> bs_total (enforceGlobalBudgetLocked gb a gen ss) =
       total_bytes (bs_sessions (enforceGlobalBudgetLocked gb a gen ss))"
proof -
  let ?st = "enforceGlobalBudgetLocked gb a gen ss"
  note set = enforce_settled [OF assms(1), of gb a]
  then have inv: "budget_inv ?st" by (simp add: settled_def)
  have tot: "bs_total ?st = total_bytes (bs_sessions ?st)" using inv by (simp add: budget_inv_def)
  have "total_bytes (bs_sessions ?st) \<le> effective_budget gb"
  proof (rule ccontr)
    assume over: "\<not> ?thesis"
    have all: "sess_bytes x \<le> fair_share gb ss" if "(i, x) \<in> set (bs_sessions ?st)" for i x
    proof -
      have mx: "map_of (bs_sessions ?st) i = Some x" using that inv by (simp add: budget_inv_def)
      obtain s where s: "map_of ss i = Some s" "newest_fits (fair_share gb ss) s \<Longrightarrow> newest_fits (fair_share gb ss) x"
        using settled_from_start [OF set mx] by metis
      have "squeezed (fair_share gb ss) x" using over tot by (intro enforce_squeezed [OF assms(1,2) _ mx]) simp
      moreover have "newest_fits (fair_share gb ss) x" using s assms(3) by (auto dest!: map_of_SomeD)
      moreover have "ring_ok ((s_ring x)\<lparr>histGenSeq := bs_gen ?st\<rparr>)"
        using mx inv unfolding budget_inv_def by blast
      ultimately show ?thesis by (rule squeezed_bytes)
    qed
    have "map fst (bs_sessions ?st) = map fst ss" using set by (simp add: settled_def start_state_def)
    then have len: "length (bs_sessions ?st) = length ss" by (metis length_map)
    have "length ss * fair_share gb ss \<le> max (length ss) 1 * fair_share gb ss" by simp
    also have "\<dots> \<le> effective_budget gb" unfolding fair_share_def by (rule times_div_less_eq_dividend)
    finally have "length ss * fair_share gb ss \<le> effective_budget gb" .
    moreover have "total_bytes (bs_sessions ?st) \<le> length ss * fair_share gb ss"
      using total_bound [of "bs_sessions ?st" "fair_share gb ss"] all len by simp
    ultimately show False using over by linarith
  qed
  then show ?thesis using tot by simp
qed

theorem global_budget_met_witness:
  "total_bytes (bs_sessions (enforceGlobalBudgetLocked 2120 ''a'' (histGenSeq ex_ring) ex_sessions)) \<le> 2120"
proof -
  have "\<forall>s\<in>snd ` set ex_sessions. newest_fits (fair_share 2120 ex_sessions) s"
    by (simp add: ex_share effective_budget_def)
      (simp add: ex_sessions_def ex_sess_def newest_fits_def ex_ring_rows ex_row_bytes)
  moreover have "\<forall>s\<in>snd ` set ex_sessions. \<not> s_dead s" by (simp add: ex_sessions_def ex_sess_def)
  ultimately show ?thesis
    using global_budget_met [OF ex_sessions_ok, of 2120 "''a''"] by (simp add: effective_budget_def)
qed

text \<open>The session being prompted is spared while anyone else can give: if enforcement changes the
  active session's entry, every other live session has already been cut to its share or to a
  single row.\<close>

theorem active_session_last:
  assumes "sessions_ok gen ss"
    and "map_of (bs_sessions (enforceGlobalBudgetLocked gb a gen ss)) a \<noteq> map_of ss a"
    and "map_of (bs_sessions (enforceGlobalBudgetLocked gb a gen ss)) i = Some x" "i \<noteq> a" "\<not> s_dead x"
  shows "squeezed (fair_share gb ss) x"
proof -
  have keep: "map_of (bs_sessions (cold_state gb a gen ss)) a = map_of ss a"
    using trim_cold_others [OF start_inv [OF assms(1)], of a "cold_ids a ss"]
    unfolding cold_state_def by (simp add: cold_ids_set start_state_def)
  show ?thesis
  proof (cases rule: enforceGlobal_cases [where gb = gb and a = a and gen = gen and ss = ss])
    case within
    then show ?thesis using assms(2) by (simp add: start_state_def)
  next
    case (active e)
    then show ?thesis using active_trim_others [OF assms(1) active(2)] assms(3-5) by simp
  qed (use assms(2) keep in simp_all)
qed

theorem active_session_last_witness:
  "squeezed 1000 (ex_sess empty_ring) \<and>
   map_of (bs_sessions (enforceGlobalBudgetLocked 2000 ''a'' (histGenSeq ex_ring) ex_sessions)) ''a''
     \<noteq> Some (ex_sess ex_ring)"
proof -
  let ?g = "histGenSeq ex_ring" and ?st = "start_state (histGenSeq ex_ring) ex_sessions"
  have eq: "enforceGlobalBudgetLocked 2000 ''a'' ?g ex_sessions = trim_session 1000 ''a'' ?st"
    by (simp add: enforceGlobal_unfold ex_cold ex_sessions_total ex_share effective_budget_def)
      (simp add: start_state_def ex_sessions_total, simp add: ex_sessions_def ex_sess_def)
  have "\<not> squeezed 1000 (ex_sess ex_ring)"
    by (simp add: squeezed_def sess_bytes_def ex_sess_def ex_ring_rows)
  then have ne: "map_of (bs_sessions (trim_session 1000 ''a'' ?st)) ''a'' \<noteq> Some (ex_sess ex_ring)"
    using trim_session_squeezed [OF start_inv [OF ex_sessions_ok]] by blast
  have "map_of (bs_sessions (trim_session 1000 ''a'' ?st)) ''b'' = Some (ex_sess empty_ring)"
    using trim_session_others [OF start_inv [OF ex_sessions_ok], of "''b''" "''a''" 1000]
    by (simp add: start_state_def ex_sessions_def)
  then have "squeezed (fair_share 2000 ex_sessions) (ex_sess empty_ring)"
    using active_session_last [OF ex_sessions_ok, of 2000 "''a''" "''b''" "ex_sess empty_ring"] ne
    unfolding eq by (simp add: ex_sessions_def, simp add: ex_sess_def)
  then show ?thesis
    using ne unfolding eq by (simp add: ex_share effective_budget_def)
qed

end
