(* ===== verification/Transcript.thy ===== *)
theory Transcript
  imports GlobalBudget AtomicWrite
begin

text \<open>
  Durable transcripts: \<open>SaveHistory\<close>, \<open>LoadHistory\<close> and \<open>boundHistoryByClass\<close> of
  \<open>internal/session/store.go\<close>, and of \<open>manager.go\<close> the one writer \<open>saveHistory\<close> with its
  generations, \<open>FlushHistory\<close>, what closing, deleting and creating do to a transcript, and
  \<open>emitStoredEvent\<close> of \<open>commands.go\<close>.

  The manager has a store. A transcript file holds what the JSON encoder made of the rows: the encoder and
  the decoder are the arguments \<open>enc\<close> and \<open>dec\<close>, a file that does not decode to a list of events is
  \<open>None\<close>. A write has the three outcomes of \<open>write_result\<close>. \<open>FlushHistory\<close> and closing take a
  snapshot under the manager's lock and write it later under \<open>historyWriteMu\<close>; in between it is one
  of \<open>tw_flights\<close>.
\<close>

subsection \<open>The file\<close>

definition historyFileBudgetBytes :: nat where
  "historyFileBudgetBytes = historyBudgetBytes"

definition boundHistoryByClass :: "event list \<Rightarrow> nat \<Rightarrow> event list" where
  "boundHistoryByClass events budget =
    (let total_size = ring_bytes events in
     if total_size \<le> budget \<or> length events < 2 then events
     else keep_unmarked events (fst (eviction events (total_size - budget))))"

definition SaveHistory :: "(event list \<Rightarrow> string) \<Rightarrow> write_result \<Rightarrow> string \<Rightarrow> event list \<Rightarrow> (string \<rightharpoonup> string) \<Rightarrow> bool \<times> (string \<rightharpoonup> string)" where
  "SaveHistory enc wr i events disk =
    (ok_write wr, if landed wr then disk(i \<mapsto> enc (boundHistoryByClass events historyFileBudgetBytes)) else disk)"

definition LoadHistory :: "(string \<Rightarrow> event list option) \<Rightarrow> string \<Rightarrow> (string \<rightharpoonup> string) \<Rightarrow> event list" where
  "LoadHistory dec i disk =
    (case disk i of
       None \<Rightarrow> []
     | Some b \<Rightarrow> (case dec b of None \<Rightarrow> [] | Some events \<Rightarrow> boundHistoryByClass events historyFileBudgetBytes))"

subsection \<open>State\<close>

record tworld =
  tw_live :: "string \<rightharpoonup> ring \<times> bool"
  tw_disk :: "string \<rightharpoonup> string"
  tw_lastSeq :: "string \<rightharpoonup> nat"
  tw_saved :: "string \<rightharpoonup> nat"
  tw_purged :: "string set"
  tw_gen :: nat
  tw_dirty :: "string set"
  tw_flights :: "(string \<times> event list \<times> nat) list"

definition savedHistGen :: "tworld \<Rightarrow> string \<Rightarrow> nat" where
  "savedHistGen w i = (case tw_saved w i of Some g \<Rightarrow> g | None \<Rightarrow> 0)"

definition saveHistoryLocked :: "(event list \<Rightarrow> string) \<Rightarrow> write_result \<Rightarrow> string \<Rightarrow> event list \<Rightarrow> nat \<Rightarrow> tworld \<Rightarrow> bool \<times> tworld" where
  "saveHistoryLocked enc wr i snap gen w =
    (if i \<in> tw_purged w \<or> gen \<le> savedHistGen w i then (True, w)
     else (case SaveHistory enc wr i snap (tw_disk w) of
         (ok, disk) \<Rightarrow> (ok, w\<lparr>tw_disk := disk, tw_saved := if ok then (tw_saved w)(i \<mapsto> gen) else tw_saved w\<rparr>)))"

definition scheduleHistoryPersist :: "string \<Rightarrow> tworld \<Rightarrow> tworld" where
  "scheduleHistoryPersist i w = (if i = [] then w else w\<lparr>tw_dirty := insert i (tw_dirty w)\<rparr>)"

text \<open>The ring is changed under the manager's lock, then marked dirty.\<close>

definition append_row :: "string \<Rightarrow> event \<Rightarrow> tworld \<Rightarrow> tworld" where
  "append_row i ev w =
    (case tw_live w i of
       None \<Rightarrow> w
     | Some (r, dead) \<Rightarrow>
         (let r1 = snd (appendHistoryLocked ev (r\<lparr>histGenSeq := tw_gen w\<rparr>))
          in scheduleHistoryPersist i (w\<lparr>tw_live := (tw_live w)(i \<mapsto> (r1, dead)), tw_gen := histGenSeq r1\<rparr>)))"

definition trim_row :: "string \<Rightarrow> nat \<Rightarrow> tworld \<Rightarrow> tworld" where
  "trim_row i share w =
    (case tw_live w i of
       None \<Rightarrow> w
     | Some (r, dead) \<Rightarrow>
         (let r1 = snd (trimToLocked share (r\<lparr>histGenSeq := tw_gen w\<rparr>))
          in w\<lparr>tw_live := (tw_live w)(i \<mapsto> (r1, dead)), tw_gen := histGenSeq r1\<rparr>))"

subsection \<open>Flushing\<close>

definition flush_take :: "tworld \<Rightarrow> tworld" where
  "flush_take w = w\<lparr>tw_dirty := {}\<rparr>"

definition flush_snapshot :: "string \<Rightarrow> tworld \<Rightarrow> tworld" where
  "flush_snapshot i w =
    (case tw_live w i of
       Some (r, False) \<Rightarrow> w\<lparr>tw_flights := tw_flights w @ [(i, history r, histGen r)]\<rparr>
     | _ \<Rightarrow> w)"

definition write_flight :: "(event list \<Rightarrow> string) \<Rightarrow> write_result \<Rightarrow> string \<times> event list \<times> nat \<Rightarrow> tworld \<Rightarrow> tworld" where
  "write_flight enc wr f w =
    (case f of (i, snap, gen) \<Rightarrow> snd (saveHistoryLocked enc wr i snap gen (w\<lparr>tw_flights := remove1 f (tw_flights w)\<rparr>)))"

text \<open>A flush nothing interrupts, over the dirty ids in the order the map gives them.\<close>

definition flush_one :: "(event list \<Rightarrow> string) \<Rightarrow> write_result \<Rightarrow> string \<Rightarrow> tworld \<Rightarrow> tworld" where
  "flush_one enc wr i w =
    (case tw_live w i of
       Some (r, False) \<Rightarrow> write_flight enc wr (i, history r, histGen r) (flush_snapshot i w)
     | _ \<Rightarrow> w)"

definition FlushHistory :: "(event list \<Rightarrow> string) \<Rightarrow> (string \<Rightarrow> write_result) \<Rightarrow> string list \<Rightarrow> tworld \<Rightarrow> tworld" where
  "FlushHistory enc wr ids w = fold (\<lambda>i. flush_one enc (wr i) i) ids (flush_take w)"

subsection \<open>Closing, deleting, creating\<close>

definition close_snapshot :: "string \<Rightarrow> tworld \<Rightarrow> tworld" where
  "close_snapshot i w =
    (case tw_live w i of
       None \<Rightarrow> w
     | Some (r, dead) \<Rightarrow> w\<lparr>tw_live := (tw_live w)(i := None), tw_dirty := tw_dirty w - {i},
         tw_flights := tw_flights w @ [(i, history r, histGen r)]\<rparr>)"

definition delete_transcript :: "write_result \<Rightarrow> string \<Rightarrow> tworld \<Rightarrow> tworld" where
  "delete_transcript removed i w =
    (let w1 = w\<lparr>tw_live := (tw_live w)(i := None), tw_dirty := tw_dirty w - {i}, tw_purged := insert i (tw_purged w),
           tw_saved := (tw_saved w)(i := None)\<rparr>
     in if landed removed then w1\<lparr>tw_disk := (tw_disk w1)(i := None), tw_lastSeq := (tw_lastSeq w1)(i := None)\<rparr> else w1)"

text \<open>\<open>create\<close> from the load of the transcript to the insert, with \<open>resetHistory\<close> for a cleared
  conversation.\<close>

definition seed_ring :: "event list \<Rightarrow> nat \<Rightarrow> nat \<Rightarrow> ring" where
  "seed_ring hist s gen = reindexHistoryLocked
    \<lparr>history = hist, historyBytes = 0, histGenSeq = gen, histGen = 0, replayIndex = (\<lambda>_. []), replayCompares = 0, rseq = s\<rparr>"

definition prior_seq :: "nat \<Rightarrow> event list \<Rightarrow> nat" where
  "prior_seq recSeq hist = (if hist = [] then recSeq else max recSeq (ev_Seq (last hist)))"

definition create_transcript ::
  "(event list \<Rightarrow> string) \<Rightarrow> (string \<Rightarrow> event list option) \<Rightarrow> write_result \<Rightarrow> bool \<Rightarrow> string \<Rightarrow> tworld \<Rightarrow> tworld" where
  "create_transcript enc dec wr resetHistory i w =
    (let hist = LoadHistory dec i (tw_disk w);
         s = prior_seq (case tw_lastSeq w i of Some n \<Rightarrow> n | None \<Rightarrow> 0) hist;
         w1 = (if resetHistory then snd (saveHistoryLocked enc wr i [] (Suc (tw_gen w)) (w\<lparr>tw_gen := Suc (tw_gen w)\<rparr>)) else w);
         r = seed_ring (if resetHistory then [] else hist) s (tw_gen w1)
     in w1\<lparr>tw_live := (tw_live w1)(i \<mapsto> (r, False)), tw_gen := histGenSeq r, tw_purged := tw_purged w1 - {i}\<rparr>)"

subsection \<open>Events for a session that is not live\<close>

text \<open>The event that is sent, if any; \<open>recorded\<close> is the outcome of saving the record.\<close>

definition emitStoredEvent ::
  "(event list \<Rightarrow> string) \<Rightarrow> (string \<Rightarrow> event list option) \<Rightarrow> write_result \<Rightarrow> write_result \<Rightarrow> string \<Rightarrow> event \<Rightarrow> tworld \<Rightarrow>
    event option \<times> tworld" where
  "emitStoredEvent enc dec wr recorded i ev w =
    (if tw_live w i \<noteq> None then (None, w)
     else if i \<in> tw_purged w then (None, w)
     else (case tw_lastSeq w i of
         None \<Rightarrow> (None, w)
       | Some recSeq \<Rightarrow>
           (let hist = LoadHistory dec i (tw_disk w);
                ev1 = ev\<lparr>ev_Seq := (prior_seq recSeq hist + 1) mod 2 ^ 64\<rparr>;
                w1 = snd (saveHistoryLocked enc wr i (hist @ [ev1]) (Suc (tw_gen w)) (w\<lparr>tw_gen := Suc (tw_gen w)\<rparr>))
            in (Some ev1, if landed recorded then w1\<lparr>tw_lastSeq := (tw_lastSeq w1)(i \<mapsto> ev_Seq ev1)\<rparr> else w1))))"

subsection \<open>Lemmas: the bound\<close>

lemma bound_nths:
  assumes "budget < ring_bytes events" "2 \<le> length events"
  shows "boundHistoryByClass events budget = nths events (- set (evicted_rows events (ring_bytes events - budget)))"
proof -
  obtain flags freed upTo where e: "eviction events (ring_bytes events - budget) = (flags, freed, upTo)" by (metis surj_pair)
  from eviction_spec(1) [OF e] assms e show ?thesis by (simp add: boundHistoryByClass_def Let_def)
qed

lemma bound_fits: "ring_bytes events \<le> budget \<or> length events < 2 \<Longrightarrow> boundHistoryByClass events budget = events"
  by (simp add: boundHistoryByClass_def Let_def)

lemma bound_result:
  shows "ring_bytes (boundHistoryByClass events budget) \<le> budget \<or> length (boundHistoryByClass events budget) \<le> 1"
    "events \<noteq> [] \<Longrightarrow> boundHistoryByClass events budget \<noteq> [] \<and> last (boundHistoryByClass events budget) = last events"
    "subseq (boundHistoryByClass events budget) events"
proof (atomize (full), cases "ring_bytes events \<le> budget \<or> length events < 2")
  case True
  then show "(ring_bytes (boundHistoryByClass events budget) \<le> budget \<or> length (boundHistoryByClass events budget) \<le> 1) \<and>
    (events \<noteq> [] \<longrightarrow> boundHistoryByClass events budget \<noteq> [] \<and> last (boundHistoryByClass events budget) = last events) \<and>
    subseq (boundHistoryByClass events budget) events"
    by (auto simp: bound_fits)
next
  case False
  obtain flags freed upTo where e: "eviction events (ring_bytes events - budget) = (flags, freed, upTo)" by (metis surj_pair)
  have b: "boundHistoryByClass events budget = keep_unmarked events flags" using False e by (simp add: boundHistoryByClass_def Let_def)
  have ne: "events \<noteq> []" using False by auto
  have "ring_bytes (keep_unmarked events flags) \<le> budget \<or> length (keep_unmarked events flags) \<le> 1"
    using reclaim [OF e] False ne by auto
  then show "(ring_bytes (boundHistoryByClass events budget) \<le> budget \<or> length (boundHistoryByClass events budget) \<le> 1) \<and>
    (events \<noteq> [] \<longrightarrow> boundHistoryByClass events budget \<noteq> [] \<and> last (boundHistoryByClass events budget) = last events) \<and>
    subseq (boundHistoryByClass events budget) events"
    using evict_newest [OF e ne] eviction_spec(1) [OF e] subseq_nths [of events] by (simp add: b)
qed

lemma bound_idem: "boundHistoryByClass (boundHistoryByClass events budget) budget = boundHistoryByClass events budget"
  by (rule bound_fits) (use bound_result(1) [of events budget] in auto)

subsection \<open>Interleaving\<close>

inductive tstep :: "(event list \<Rightarrow> string) \<Rightarrow> (string \<Rightarrow> event list option) \<Rightarrow> string option \<Rightarrow> tworld \<Rightarrow> tworld \<Rightarrow> bool"
  for enc dec where
  t_append: "tstep enc dec None w (append_row i ev w)"
| t_trim: "tstep enc dec None w (trim_row i share w)"
| t_dead: "tw_live w i = Some (r, b) \<Longrightarrow> tstep enc dec None w (w\<lparr>tw_live := (tw_live w)(i \<mapsto> (r, True))\<rparr>)"
| t_take: "tstep enc dec None w (flush_take w)"
| t_snapshot: "tstep enc dec None w (flush_snapshot i w)"
| t_write: "f \<in> set (tw_flights w) \<Longrightarrow> tstep enc dec None w (write_flight enc wr f w)"
| t_close: "tstep enc dec None w (close_snapshot i w)"
| t_forget: "tstep enc dec None w (w\<lparr>tw_purged := tw_purged w - {i}\<rparr>)"
| t_delete: "tstep enc dec (Some i) w (delete_transcript removed i w)"
| t_create: "tw_live w i = None \<Longrightarrow> tstep enc dec (Some i) w (create_transcript enc dec wr reset i w)"
| t_stored: "tstep enc dec (Some i) w (snd (emitStoredEvent enc dec wr recorded i ev w))"

text \<open>The label of a step is the session that it deletes, creates or adds a stored event to.\<close>

definition gens_ok :: "tworld \<Rightarrow> bool" where
  "gens_ok w \<longleftrightarrow> (\<forall>i r b. tw_live w i = Some (r, b) \<longrightarrow> 0 < histGen r \<and> histGen r \<le> tw_gen w) \<and>
    (\<forall>i s g. (i, s, g) \<in> set (tw_flights w) \<longrightarrow> g \<le> tw_gen w) \<and> (\<forall>i. savedHistGen w i \<le> tw_gen w)"

definition on_disk :: "(event list \<Rightarrow> string) \<Rightarrow> tworld \<Rightarrow> string \<Rightarrow> nat \<Rightarrow> event list \<Rightarrow> bool" where
  "on_disk enc w i g rows \<longleftrightarrow> (tw_saved w i = Some g \<longrightarrow> tw_disk w i = Some (enc (boundHistoryByClass rows historyFileBudgetBytes)))"

text \<open>No snapshot and no saved generation of a session is newer than \<open>g\<close>, and those of generation
  \<open>g\<close> are the rows.\<close>

definition newest_is :: "(event list \<Rightarrow> string) \<Rightarrow> tworld \<Rightarrow> string \<Rightarrow> nat \<Rightarrow> event list \<Rightarrow> bool" where
  "newest_is enc w i g rows \<longleftrightarrow> savedHistGen w i \<le> g \<and> on_disk enc w i g rows \<and>
    (\<forall>s g'. (i, s, g') \<in> set (tw_flights w) \<longrightarrow> g' \<le> g \<and> (g' = g \<longrightarrow> s = rows))"

definition tworld_ok :: "(event list \<Rightarrow> string) \<Rightarrow> tworld \<Rightarrow> bool" where
  "tworld_ok enc w \<longleftrightarrow> gens_ok w \<and>
    (\<forall>i r b. tw_live w i = Some (r, b) \<longrightarrow> newest_is enc w i (histGen r) (history r))"

definition closed_with :: "(event list \<Rightarrow> string) \<Rightarrow> tworld \<Rightarrow> string \<Rightarrow> nat \<Rightarrow> event list \<Rightarrow> bool" where
  "closed_with enc w i g rows \<longleftrightarrow> tw_live w i = None \<and> newest_is enc w i g rows"

lemma append_ring_change:
  "let r1 = snd (appendHistoryLocked ev (r\<lparr>histGenSeq := g\<rparr>)) in
    (history r1 = history r \<and> histGen r1 = histGen r \<and> histGenSeq r1 = g) \<or> (g < histGen r1 \<and> histGen r1 \<le> histGenSeq r1)"
proof (cases "replayed ev (r\<lparr>histGenSeq := g\<rparr>)")
  case True
  then show ?thesis by (simp add: append_cases)
next
  case False
  let ?e = "next_gen (counted ev (r\<lparr>histGenSeq := g\<rparr>))"
  let ?a = "apply_identity ev ?e"
  have "gen_forward (snd ?a) (snd (push_row (fst ?a) (snd ?a)))"
    using push_row_fields(4,5) [OF surjective_pairing] by (simp add: gen_forward_def)
  from gen_forward_trans [OF gen_forward_trans [OF apply_identity_gen this] enforce_gen] False show ?thesis
    by (simp add: append_cases Let_def gen_forward_def next_gen_def Suc_le_eq)
qed

lemma trim_ring_change:
  "let r1 = snd (trimToLocked share (r\<lparr>histGenSeq := g\<rparr>)) in
    (history r1 = history r \<and> histGen r1 = histGen r \<and> histGenSeq r1 = g) \<or> (g < histGen r1 \<and> histGen r1 \<le> histGenSeq r1)"
  by (simp add: trimToLocked_def split: prod.split)

text \<open>A change of one live ring under the shared counter.\<close>

lemma ring_change_ok:
  assumes ok: "tworld_ok enc w" and live: "tw_live w i = Some (r, b)"
    and change: "(history r1 = history r \<and> histGen r1 = histGen r \<and> histGenSeq r1 = tw_gen w) \<or> (tw_gen w < histGen r1 \<and> histGen r1 \<le> histGenSeq r1)"
  shows "tworld_ok enc (w\<lparr>tw_live := (tw_live w)(i \<mapsto> (r1, b1)), tw_gen := histGenSeq r1\<rparr>)"
proof -
  let ?w = "w\<lparr>tw_live := (tw_live w)(i \<mapsto> (r1, b1)), tw_gen := histGenSeq r1\<rparr>"
  have g: "histGen r \<le> tw_gen w" using ok live by (auto simp: tworld_ok_def gens_ok_def)
  then have mono: "tw_gen w \<le> histGenSeq r1" "histGen r1 \<le> histGenSeq r1" using change by auto
  have old: "gens_ok w" and news: "\<And>j q c. tw_live w j = Some (q, c) \<Longrightarrow> newest_is enc w j (histGen q) (history q)"
    using ok by (auto simp: tworld_ok_def)
  have s: "savedHistGen ?w = savedHistGen w" by (simp add: savedHistGen_def fun_eq_iff)
  have n1: "newest_is enc w i (histGen r1) (history r1)"
  proof (cases "histGen r1 = histGen r \<and> history r1 = history r")
    case True
    with news [OF live] show ?thesis by simp
  next
    case False
    then have "tw_gen w < histGen r1" using change by blast
    moreover have "savedHistGen w i \<le> tw_gen w" "\<And>s g'. (i, s, g') \<in> set (tw_flights w) \<Longrightarrow> g' \<le> tw_gen w" using old by (auto simp: gens_ok_def)
    ultimately show ?thesis by (fastforce simp: newest_is_def on_disk_def savedHistGen_def)
  qed
  have "newest_is enc ?w j (histGen q) (history q)" if "tw_live ?w j = Some (q, c)" for j q c
    using that n1 news by (auto simp: newest_is_def on_disk_def s split: if_splits)
  moreover have "gens_ok ?w"
    unfolding gens_ok_def s
  proof (intro conjI allI impI)
    fix j q c
    assume l: "tw_live ?w j = Some (q, c)"
    have "0 < histGen r" "0 < histGen r1" using old live change unfolding gens_ok_def by force+
    then show "0 < histGen q" "histGen q \<le> tw_gen ?w"
      using l old mono unfolding gens_ok_def by (force split: if_splits intro: le_trans)+
  next
    fix j t k
    assume "(j, t, k) \<in> set (tw_flights ?w)"
    then have "k \<le> tw_gen w" using old unfolding gens_ok_def by auto
    then show "k \<le> tw_gen ?w" using mono(1) by simp
  next
    fix j
    have "savedHistGen w j \<le> tw_gen w" using old unfolding gens_ok_def by blast
    then show "savedHistGen w j \<le> tw_gen ?w" using mono(1) by simp
  qed
  ultimately show ?thesis by (simp add: tworld_ok_def)
qed

lemma newest_is_write:
  assumes "newest_is enc w i g rows" "f \<in> set (tw_flights w)"
  shows "newest_is enc (write_flight enc wr f w) i g rows"
proof -
  obtain j snap gen where f: "f = (j, snap, gen)" by (cases f)
  let ?w = "w\<lparr>tw_flights := remove1 f (tw_flights w)\<rparr>"
  have sub: "set (remove1 f (tw_flights w)) \<subseteq> set (tw_flights w)" by (rule set_remove1_subset)
  have n: "newest_is enc ?w i g rows"
    using assms(1) sub by (auto simp: newest_is_def on_disk_def savedHistGen_def)
  show ?thesis
  proof (cases "j \<in> tw_purged w \<or> gen \<le> savedHistGen w j")
    case True
    then have "write_flight enc wr f w = ?w" by (simp add: write_flight_def f saveHistoryLocked_def savedHistGen_def)
    with n show ?thesis by simp
  next
    case False
    then have e: "write_flight enc wr f w = ?w\<lparr>tw_disk := snd (SaveHistory enc wr j snap (tw_disk w)),
        tw_saved := if ok_write wr then (tw_saved w)(j \<mapsto> gen) else tw_saved w\<rparr>"
      by (simp add: write_flight_def f saveHistoryLocked_def savedHistGen_def SaveHistory_def)
    show ?thesis
    proof (cases "j = i")
      case False
      with n show ?thesis unfolding e by (auto simp: newest_is_def on_disk_def savedHistGen_def SaveHistory_def)
    next
      case True
      then have "gen \<le> g" "gen = g \<Longrightarrow> snap = rows" using assms f by (auto simp: newest_is_def)
      moreover have "tw_saved w i \<noteq> Some g"
        using \<open>\<not> (j \<in> tw_purged w \<or> gen \<le> savedHistGen w j)\<close> True \<open>gen \<le> g\<close> by (auto simp: savedHistGen_def)
      ultimately show ?thesis
        using n True unfolding e by (auto simp: newest_is_def on_disk_def savedHistGen_def SaveHistory_def ok_write_def landed_def)
    qed
  qed
qed

lemma write_flight_frame: "tw_live (write_flight enc wr f w) = tw_live w" "tw_gen (write_flight enc wr f w) = tw_gen w"
  "set (tw_flights (write_flight enc wr f w)) \<subseteq> set (tw_flights w)"
  by (cases f; auto simp: write_flight_def saveHistoryLocked_def SaveHistory_def dest: notin_set_remove1 set_remove1_subset [THEN subsetD])+

lemma write_flight_saved:
  "f \<in> set (tw_flights w) \<Longrightarrow> gens_ok w \<Longrightarrow> savedHistGen (write_flight enc wr f w) i \<le> tw_gen w"
  by (cases f) (auto simp: write_flight_def saveHistoryLocked_def SaveHistory_def gens_ok_def savedHistGen_def)

lemma tworld_ok_write:
  assumes "tworld_ok enc w" "f \<in> set (tw_flights w)"
  shows "tworld_ok enc (write_flight enc wr f w)"
proof -
  have g: "gens_ok w" and n: "\<And>i r b. tw_live w i = Some (r, b) \<Longrightarrow> newest_is enc w i (histGen r) (history r)"
    using assms(1) by (auto simp: tworld_ok_def)
  have "gens_ok (write_flight enc wr f w)"
    using g write_flight_frame(3) [of enc wr f w] write_flight_saved [OF assms(2) g, of enc wr]
    by (auto simp: gens_ok_def write_flight_frame(1,2))
  moreover have "newest_is enc (write_flight enc wr f w) i (histGen r) (history r)" if "tw_live w i = Some (r, b)" for i r b
    using newest_is_write [OF n [OF that] assms(2)] .
  ultimately show ?thesis by (simp add: tworld_ok_def write_flight_frame(1))
qed

lemma newest_is_snapshot:
  assumes "newest_is enc w i g rows" "j = i \<longrightarrow> gen = g \<and> s = rows \<or> gen < g"
  shows "newest_is enc (w\<lparr>tw_flights := tw_flights w @ [(j, s, gen)]\<rparr>) i g rows"
  using assms by (auto simp: newest_is_def on_disk_def savedHistGen_def)

lemma newest_is_other:
  assumes "newest_is enc w i g rows" "tw_saved w' i = tw_saved w i" "tw_disk w' i = tw_disk w i"
    "\<And>s g. (i, s, g) \<in> set (tw_flights w') \<Longrightarrow> (i, s, g) \<in> set (tw_flights w)"
  shows "newest_is enc w' i g rows"
  using assms by (auto simp: newest_is_def on_disk_def savedHistGen_def)

lemma tworld_ok_snapshot: "tworld_ok enc w \<Longrightarrow> tworld_ok enc (flush_snapshot i w)"
proof (cases "\<exists>r. tw_live w i = Some (r, False)")
  case False
  then have "flush_snapshot i w = w" by (auto simp: flush_snapshot_def split: option.splits bool.splits prod.splits)
  then show "tworld_ok enc w \<Longrightarrow> ?thesis" by simp
next
  case True
  assume ok: "tworld_ok enc w"
  from True obtain r where r: "tw_live w i = Some (r, False)" by blast
  then have e: "flush_snapshot i w = w\<lparr>tw_flights := tw_flights w @ [(i, history r, histGen r)]\<rparr>" by (simp add: flush_snapshot_def)
  have "newest_is enc (flush_snapshot i w) j (histGen q) (history q)" if "tw_live w j = Some (q, c)" for j q c
    unfolding e using ok r that by (intro newest_is_snapshot) (auto simp: tworld_ok_def)
  moreover have "gens_ok (flush_snapshot i w)" unfolding e using ok r by (auto simp: tworld_ok_def gens_ok_def savedHistGen_def)
  moreover have "tw_live (flush_snapshot i w) = tw_live w" unfolding e by simp
  ultimately show ?thesis by (simp add: tworld_ok_def)
qed

lemma close_snapshot_closed:
  assumes ok: "tworld_ok enc w" and live: "tw_live w i = Some (r, b)"
  shows "closed_with enc (close_snapshot i w) i (histGen r) (history r)"
proof -
  have "newest_is enc w i (histGen r) (history r)" using ok live by (simp add: tworld_ok_def)
  then show ?thesis using live by (auto simp: closed_with_def close_snapshot_def newest_is_def on_disk_def savedHistGen_def)
qed

lemma tworld_ok_close: "tworld_ok enc w \<Longrightarrow> tworld_ok enc (close_snapshot i w)"
proof (cases "tw_live w i")
  case None
  then show "tworld_ok enc w \<Longrightarrow> ?thesis" by (simp add: close_snapshot_def)
next
  case (Some rb)
  assume ok: "tworld_ok enc w"
  obtain r b where r: "tw_live w i = Some (r, b)" using Some by (cases rb) auto
  have "newest_is enc (close_snapshot i w) j (histGen q) (history q)" if "tw_live (close_snapshot i w) j = Some (q, c)" for j q c
  proof -
    have j: "j \<noteq> i" "tw_live w j = Some (q, c)" using that r by (auto simp: close_snapshot_def split: if_splits)
    then have "newest_is enc w j (histGen q) (history q)" using ok by (simp add: tworld_ok_def)
    with j(1) r show ?thesis by (auto simp: close_snapshot_def newest_is_def on_disk_def savedHistGen_def)
  qed
  moreover have "gens_ok (close_snapshot i w)" using ok r by (auto simp: tworld_ok_def gens_ok_def close_snapshot_def savedHistGen_def split: if_splits)
  ultimately show ?thesis by (simp add: tworld_ok_def)
qed

lemma saveHistoryLocked_frame [simp]:
  "tw_live (snd (saveHistoryLocked enc wr i snap gen w)) = tw_live w"
  "tw_gen (snd (saveHistoryLocked enc wr i snap gen w)) = tw_gen w"
  "tw_flights (snd (saveHistoryLocked enc wr i snap gen w)) = tw_flights w"
  "tw_purged (snd (saveHistoryLocked enc wr i snap gen w)) = tw_purged w"
  "j \<noteq> i \<Longrightarrow> tw_saved (snd (saveHistoryLocked enc wr i snap gen w)) j = tw_saved w j"
  "j \<noteq> i \<Longrightarrow> tw_disk (snd (saveHistoryLocked enc wr i snap gen w)) j = tw_disk w j"
  by (auto simp: saveHistoryLocked_def SaveHistory_def)

lemma saveHistoryLocked_saved:
  "savedHistGen (snd (saveHistoryLocked enc wr i snap gen w)) j \<le> max (savedHistGen w j) gen"
  by (auto simp: saveHistoryLocked_def SaveHistory_def savedHistGen_def)

text \<open>A step that touches one session that is not live, and draws generations.\<close>

lemma tworld_ok_label:
  assumes ok: "tworld_ok enc w" and dead: "tw_live w' i = None"
    and same: "\<And>j. j \<noteq> i \<Longrightarrow> tw_live w' j = tw_live w j \<and> tw_saved w' j = tw_saved w j \<and> tw_disk w' j = tw_disk w j"
    and fl: "tw_flights w' = tw_flights w" and gen: "tw_gen w \<le> tw_gen w'" "savedHistGen w' i \<le> tw_gen w'"
  shows "tworld_ok enc w'"
proof -
  have "newest_is enc w' j (histGen r) (history r)" if "tw_live w' j = Some (r, b)" for j r b
  proof -
    have j: "j \<noteq> i" using that dead by auto
    then have "newest_is enc w j (histGen r) (history r)" using that same [OF j] ok by (auto simp: tworld_ok_def)
    then show ?thesis by (rule newest_is_other) (use same [OF j] fl in simp_all)
  qed
  moreover have "savedHistGen w' j \<le> tw_gen w'" for j
  proof (cases "j = i")
    case False
    then have "savedHistGen w' j = savedHistGen w j" using same by (simp add: savedHistGen_def)
    also have "\<dots> \<le> tw_gen w" using ok by (simp add: tworld_ok_def gens_ok_def)
    finally show ?thesis using gen(1) by simp
  qed (use gen(2) in simp)
  moreover have "0 < histGen r \<and> histGen r \<le> tw_gen w'" if "tw_live w' j = Some (r, b)" for j r b
  proof -
    have "tw_live w j = Some (r, b)" using that same [of j] dead by (cases "j = i") auto
    then have "0 < histGen r" "histGen r \<le> tw_gen w" using ok by (auto simp: tworld_ok_def gens_ok_def)
    then show ?thesis using gen(1) by simp
  qed
  moreover have "g \<le> tw_gen w'" if "(j, s, g) \<in> set (tw_flights w')" for j s g
  proof -
    have "g \<le> tw_gen w" using that ok fl unfolding tworld_ok_def gens_ok_def by metis
    then show ?thesis using gen(1) by simp
  qed
  ultimately show ?thesis by (auto simp: tworld_ok_def gens_ok_def)
qed

lemma tworld_ok_delete: "tworld_ok enc w \<Longrightarrow> tworld_ok enc (delete_transcript removed i w)"
  by (erule tworld_ok_label [where i = i]) (simp_all add: delete_transcript_def Let_def savedHistGen_def)

lemma tworld_ok_stored: "tworld_ok enc w \<Longrightarrow> tworld_ok enc (snd (emitStoredEvent enc dec wr recorded i ev w))"
proof (cases "tw_live w i \<noteq> None \<or> i \<in> tw_purged w \<or> tw_lastSeq w i = None")
  case True
  then show "tworld_ok enc w \<Longrightarrow> ?thesis" by (auto simp: emitStoredEvent_def)
next
  case False
  assume ok: "tworld_ok enc w"
  then have s: "savedHistGen w i \<le> tw_gen w" by (simp add: tworld_ok_def gens_ok_def)
  have "savedHistGen (snd (saveHistoryLocked enc wr i snap (Suc (tw_gen w)) (w\<lparr>tw_gen := Suc (tw_gen w)\<rparr>))) i \<le> Suc (tw_gen w)" for snap
    using saveHistoryLocked_saved [of enc wr i snap "Suc (tw_gen w)" "w\<lparr>tw_gen := Suc (tw_gen w)\<rparr>" i] s by (simp add: savedHistGen_def)
  moreover obtain n where "tw_live w i = None" "i \<notin> tw_purged w" "tw_lastSeq w i = Some n" using False by blast
  ultimately show ?thesis
    by (intro tworld_ok_label [OF ok, where i = i]) (simp_all add: emitStoredEvent_def Let_def savedHistGen_def)
qed

lemma seed_ring_fields [simp]: "history (seed_ring h s g) = h" "histGen (seed_ring h s g) = Suc g" "histGenSeq (seed_ring h s g) = Suc g" "rseq (seed_ring h s g) = s"
  by (simp_all add: seed_ring_def)

lemma tworld_ok_create:
  assumes ok: "tworld_ok enc w" and dead: "tw_live w i = None"
  shows "tworld_ok enc (create_transcript enc dec wr reset i w)"
proof -
  let ?w0 = "w\<lparr>tw_gen := Suc (tw_gen w)\<rparr>"
  define w1 where "w1 = (if reset then snd (saveHistoryLocked enc wr i [] (Suc (tw_gen w)) ?w0) else w)"
  have s: "savedHistGen w i \<le> tw_gen w" using ok by (simp add: tworld_ok_def gens_ok_def)
  have sv: "savedHistGen (snd (saveHistoryLocked enc wr i [] (Suc (tw_gen w)) ?w0)) i \<le> Suc (tw_gen w)"
    using saveHistoryLocked_saved [of enc wr i "[]" "Suc (tw_gen w)" ?w0 i] s by (simp add: savedHistGen_def)
  have ok1: "tworld_ok enc w1"
    using ok dead sv by (intro tworld_ok_label [OF ok, where i = i]) (auto simp: w1_def s)
  let ?h = "if reset then [] else LoadHistory dec i (tw_disk w)"
  let ?r = "seed_ring ?h (prior_seq (case tw_lastSeq w i of Some n \<Rightarrow> n | None \<Rightarrow> 0) (LoadHistory dec i (tw_disk w))) (tw_gen w1)"
  let ?w2 = "w1\<lparr>tw_live := (tw_live w1)(i \<mapsto> (?r, False)), tw_gen := histGenSeq ?r, tw_purged := tw_purged w1 - {i}\<rparr>"
  have c: "create_transcript enc dec wr reset i w = ?w2" by (simp add: create_transcript_def Let_def w1_def)
  have old: "gens_ok w1" using ok1 by (simp add: tworld_ok_def)
  have "newest_is enc ?w2 j (histGen q) (history q)" if l: "tw_live ?w2 j = Some (q, b)" for j q b
  proof (cases "j = i")
    case True
    then have "q = ?r" using l by simp
    moreover have "savedHistGen w1 i \<le> tw_gen w1" "\<And>s g. (i, s, g) \<in> set (tw_flights w1) \<Longrightarrow> g \<le> tw_gen w1" using old by (auto simp: gens_ok_def)
    ultimately show ?thesis using True by (fastforce simp: newest_is_def on_disk_def savedHistGen_def)
  next
    case False
    then have "newest_is enc w1 j (histGen q) (history q)" using l ok1 by (auto simp: tworld_ok_def)
    then show ?thesis by (rule newest_is_other) simp_all
  qed
  moreover have "gens_ok ?w2"
  proof -
    have "savedHistGen ?w2 j \<le> Suc (tw_gen w1)" for j using old by (simp add: gens_ok_def savedHistGen_def le_SucI)
    moreover have "g \<le> Suc (tw_gen w1)" if "(j, s, g) \<in> set (tw_flights w1)" for j s g
      using old that unfolding gens_ok_def by (metis le_SucI)
    moreover have "0 < histGen q \<and> histGen q \<le> Suc (tw_gen w1)" if "tw_live ?w2 j = Some (q, b)" for j q b
    proof (cases "j = i")
      case False
      then have "tw_live w1 j = Some (q, b)" using that by simp
      then have "0 < histGen q" "histGen q \<le> tw_gen w1" using old unfolding gens_ok_def by blast+
      then show ?thesis by simp
    qed (use that in auto)
    ultimately show ?thesis by (simp add: gens_ok_def)
  qed
  ultimately show ?thesis unfolding c by (simp add: tworld_ok_def)
qed

lemma tworld_ok_frame [simp]: "tworld_ok enc (w\<lparr>tw_dirty := d\<rparr>) = tworld_ok enc w" "tworld_ok enc (w\<lparr>tw_purged := p\<rparr>) = tworld_ok enc w"
  by (simp_all add: tworld_ok_def gens_ok_def newest_is_def on_disk_def savedHistGen_def)

lemma newest_is_frame [simp]:
  "newest_is enc (w\<lparr>tw_live := l\<rparr>) = newest_is enc w" "newest_is enc (w\<lparr>tw_dirty := d\<rparr>) = newest_is enc w"
  "newest_is enc (w\<lparr>tw_purged := p\<rparr>) = newest_is enc w" "newest_is enc (w\<lparr>tw_gen := g\<rparr>) = newest_is enc w"
  by (simp_all add: newest_is_def on_disk_def savedHistGen_def fun_eq_iff)

lemma tstep_ok: "tstep enc dec l w w' \<Longrightarrow> tworld_ok enc w \<Longrightarrow> tworld_ok enc w'"
proof (induction rule: tstep.induct)
  case (t_append w i ev)
  show ?case
  proof (cases "tw_live w i")
    case None
    with t_append show ?thesis by (simp add: append_row_def)
  next
    case (Some rb)
    then obtain r b where r: "tw_live w i = Some (r, b)" by (cases rb) auto
    from ring_change_ok [OF t_append r append_ring_change [unfolded Let_def], of ev b] r show ?thesis
      by (cases "i = []") (simp_all add: append_row_def Let_def scheduleHistoryPersist_def)
  qed
next
  case (t_trim w i share)
  show ?case
  proof (cases "tw_live w i")
    case None
    with t_trim show ?thesis by (simp add: trim_row_def)
  next
    case (Some rb)
    then obtain r b where r: "tw_live w i = Some (r, b)" by (cases rb) auto
    from ring_change_ok [OF t_trim r trim_ring_change [unfolded Let_def], of share b] r show ?thesis by (simp add: trim_row_def Let_def)
  qed
next
  case (t_dead w i r b)
  then show ?case by (auto simp: tworld_ok_def gens_ok_def savedHistGen_def split: if_splits)
qed (simp_all add: flush_take_def tworld_ok_snapshot tworld_ok_write tworld_ok_close tworld_ok_delete tworld_ok_create tworld_ok_stored)

subsection \<open>After closing\<close>

definition tstep_other :: "(event list \<Rightarrow> string) \<Rightarrow> (string \<Rightarrow> event list option) \<Rightarrow> string \<Rightarrow> tworld \<Rightarrow> tworld \<Rightarrow> bool" where
  "tstep_other enc dec i w w' \<longleftrightarrow> (\<exists>l. l \<noteq> Some i \<and> tstep enc dec l w w')"

definition empty_tworld :: tworld where
  "empty_tworld = \<lparr>tw_live = Map.empty, tw_disk = Map.empty, tw_lastSeq = Map.empty, tw_saved = Map.empty, tw_purged = {},
     tw_gen = 0, tw_dirty = {}, tw_flights = []\<rparr>"

text \<open>A daemon starts with what is on disk.\<close>

inductive treach :: "(event list \<Rightarrow> string) \<Rightarrow> (string \<Rightarrow> event list option) \<Rightarrow> tworld \<Rightarrow> bool" for enc dec where
  tr_start: "treach enc dec (empty_tworld\<lparr>tw_disk := disk, tw_lastSeq := seqs\<rparr>)"
| tr_step: "treach enc dec w \<Longrightarrow> tstep enc dec l w w' \<Longrightarrow> treach enc dec w'"

lemma treach_ok: "treach enc dec w \<Longrightarrow> tworld_ok enc w"
proof (induction rule: treach.induct)
  case (tr_start disk seqs)
  then show ?case by (simp add: empty_tworld_def tworld_ok_def gens_ok_def savedHistGen_def)
next
  case (tr_step w l w')
  then show ?case using tstep_ok by blast
qed

lemma closed_other:
  assumes "closed_with enc w i g rows" "tw_live w' i = None" "tw_saved w' i = tw_saved w i" "tw_disk w' i = tw_disk w i"
    "\<And>s g. (i, s, g) \<in> set (tw_flights w') \<Longrightarrow> (i, s, g) \<in> set (tw_flights w)"
  shows "closed_with enc w' i g rows"
  using assms newest_is_other [of enc w i g rows w'] by (auto simp: closed_with_def)

lemma append_row_frame [simp]: "tw_saved (append_row j ev w) = tw_saved w" "tw_disk (append_row j ev w) = tw_disk w"
  "tw_flights (append_row j ev w) = tw_flights w" "tw_live w i = None \<Longrightarrow> tw_live (append_row j ev w) i = None"
  by (auto simp: append_row_def scheduleHistoryPersist_def Let_def split: option.split)

lemma write_flight_saved_mono: "savedHistGen w i \<le> savedHistGen (write_flight enc wr (j, snap, gen) w) i"
  by (auto simp: write_flight_def saveHistoryLocked_def SaveHistory_def savedHistGen_def)

lemma emitStoredEvent_frame:
  "tw_live (snd (emitStoredEvent enc dec wr recorded j ev w)) = tw_live w"
  "tw_flights (snd (emitStoredEvent enc dec wr recorded j ev w)) = tw_flights w"
  "i \<noteq> j \<Longrightarrow> tw_saved (snd (emitStoredEvent enc dec wr recorded j ev w)) i = tw_saved w i"
  "i \<noteq> j \<Longrightarrow> tw_disk (snd (emitStoredEvent enc dec wr recorded j ev w)) i = tw_disk w i"
  by (simp_all add: emitStoredEvent_def Let_def split: option.split)

lemma closed_step:
  assumes "tstep enc dec l w w'" "closed_with enc w i g rows" "l \<noteq> Some i"
  shows "closed_with enc w' i g rows"
  using assms
proof (induction rule: tstep.induct)
  case (t_append w j ev)
  then show ?case
    by (intro closed_other [OF t_append(1)]) (simp_all add: closed_with_def)
next
  case (t_trim w j share)
  then show ?case by (intro closed_other [OF t_trim(1)]) (auto simp: trim_row_def closed_with_def Let_def split: option.splits)
next
  case (t_dead w j r b)
  then show ?case by (intro closed_other [OF t_dead(2)]) (auto simp: closed_with_def)
next
  case (t_take w)
  then show ?case by (intro closed_other [OF t_take(1)]) (simp_all add: flush_take_def closed_with_def)
next
  case (t_snapshot w j)
  then show ?case
    by (intro closed_other [OF t_snapshot(1)]) (auto simp: flush_snapshot_def closed_with_def split: option.splits bool.splits)
next
  case (t_write f w wr)
  then show ?case by (simp add: closed_with_def write_flight_frame(1) newest_is_write)
next
  case (t_close w j)
  then show ?case by (intro closed_other [OF t_close(1)]) (auto simp: close_snapshot_def closed_with_def split: option.splits)
next
  case (t_forget w j)
  then show ?case by (simp add: closed_with_def)
next
  case (t_delete j w removed)
  then show ?case by (intro closed_other [OF t_delete(1)]) (auto simp: delete_transcript_def closed_with_def Let_def split: if_splits)
next
  case (t_create w j wr reset)
  then show ?case by (intro closed_other [OF t_create(2)]) (auto simp: create_transcript_def closed_with_def Let_def split: if_splits)
next
  case (t_stored j w wr recorded ev)
  then show ?case by (intro closed_other [OF t_stored(1)]) (simp_all add: emitStoredEvent_frame closed_with_def)
qed

lemma closed_steps:
  "(tstep_other enc dec i)\<^sup>*\<^sup>* w w' \<Longrightarrow> closed_with enc w i g rows \<Longrightarrow> closed_with enc w' i g rows"
proof (induction rule: rtranclp_induct)
  case (step y z)
  then show ?case using closed_step by (auto simp: tstep_other_def)
qed simp

text \<open>The saved generation of a session no step is labelled with never goes back.\<close>

lemma saved_step:
  assumes "tstep enc dec l w w'" "l \<noteq> Some i"
  shows "savedHistGen w i \<le> savedHistGen w' i"
  using assms
proof (induction rule: tstep.induct)
  case (t_write f w wr)
  obtain j snap gen where "f = (j, snap, gen)" by (cases f)
  then show ?case using write_flight_saved_mono by simp
next
  case (t_append w j ev)
  then show ?case by (simp add: savedHistGen_def)
next
  case (t_create w j wr reset)
  then show ?case by (auto simp: create_transcript_def Let_def savedHistGen_def)
next
  case (t_stored j w wr recorded ev)
  then show ?case by (simp add: emitStoredEvent_frame savedHistGen_def)
qed (auto simp: trim_row_def flush_take_def flush_snapshot_def close_snapshot_def delete_transcript_def
    scheduleHistoryPersist_def savedHistGen_def Let_def split: option.splits bool.splits)

lemma saved_steps: "(tstep_other enc dec i)\<^sup>*\<^sup>* w w' \<Longrightarrow> savedHistGen w i \<le> savedHistGen w' i"
proof (induction rule: rtranclp_induct)
  case (step y z)
  then show ?case using saved_step le_trans unfolding tstep_other_def by meson
qed simp

lemma closed_final:
  assumes "closed_with enc w i g rows" "g \<le> savedHistGen w i" "0 < g"
  shows "tw_disk w i = Some (enc (boundHistoryByClass rows historyFileBudgetBytes))"
proof -
  have "tw_saved w i = Some g" using assms by (auto simp: closed_with_def newest_is_def savedHistGen_def split: option.splits)
  then show ?thesis using assms(1) by (simp add: closed_with_def newest_is_def on_disk_def)
qed

subsection \<open>Properties\<close>

text \<open>C31: a saved transcript is read back. What \<open>LoadHistory\<close> returns after a successful \<open>SaveHistory\<close> is
  the rows bounded by class: all of them when they fit the budget, always the newest, and otherwise
  exactly the rows the ring's own eviction rule keeps.\<close>

theorem transcript_roundtrip:
  assumes codec: "dec (enc (boundHistoryByClass rows historyFileBudgetBytes)) = Some (boundHistoryByClass rows historyFileBudgetBytes)" and wr: "ok_write wr"
  shows "LoadHistory dec i (snd (SaveHistory enc wr i rows disk)) =
      (if ring_bytes rows \<le> historyFileBudgetBytes \<or> length rows < 2 then rows
       else nths rows (- set (evicted_rows rows (ring_bytes rows - historyFileBudgetBytes)))) \<and>
    (rows \<noteq> [] \<longrightarrow> last (LoadHistory dec i (snd (SaveHistory enc wr i rows disk))) = last rows)"
proof -
  have "landed wr" using wr by (simp add: ok_write_def landed_def)
  then have l: "LoadHistory dec i (snd (SaveHistory enc wr i rows disk)) = boundHistoryByClass rows historyFileBudgetBytes"
    by (simp add: LoadHistory_def SaveHistory_def codec bound_idem)
  show ?thesis unfolding l
    using bound_result(2) [of rows historyFileBudgetBytes] bound_nths [of historyFileBudgetBytes rows] bound_fits [of rows historyFileBudgetBytes]
    by auto
qed

definition ex_rows :: "event list" where
  "ex_rows = [zero_event\<lparr>ev_Type := TypeUserMessage, ev_Text := ''hi'', ev_Seq := 1\<rparr>]"

theorem transcript_roundtrip_witness:
  "LoadHistory (\<lambda>_. Some ex_rows) ''s'' (snd (SaveHistory (\<lambda>_. ''json'') Written ''s'' ex_rows Map.empty)) = ex_rows"
  using transcript_roundtrip [of "\<lambda>_. Some ex_rows" "\<lambda>_. ''json''" ex_rows Written "''s''" Map.empty]
  by (simp add: ok_write_def ex_rows_def bound_fits)

text \<open>C32: once a closed session's transcript is written it stays. Whatever flushes were under way when
  the session was closed, and whatever other sessions do, the file keeps the rows the ring had when it was
  closed, until the session is created again, deleted, or gets an event while it is not live.\<close>

theorem closed_transcript_final:
  assumes reach: "treach enc dec w" and live: "tw_live w i = Some (r, b)"
    and mid: "(tstep_other enc dec i)\<^sup>*\<^sup>* (close_snapshot i w) w0" and flight: "(i, history r, histGen r) \<in> set (tw_flights w0)" "i \<notin> tw_purged w0"
    and later: "(tstep_other enc dec i)\<^sup>*\<^sup>* (write_flight enc Written (i, history r, histGen r) w0) w'"
  shows "tw_disk w' i = Some (enc (boundHistoryByClass (history r) historyFileBudgetBytes))"
proof -
  have ok: "tworld_ok enc w" using treach_ok [OF reach] .
  let ?w1 = "write_flight enc Written (i, history r, histGen r) w0"
  have c0: "closed_with enc w0 i (histGen r) (history r)" using closed_steps [OF mid close_snapshot_closed [OF ok live]] .
  have c1: "closed_with enc ?w1 i (histGen r) (history r)"
    using c0 flight(1) by (simp add: closed_with_def write_flight_frame(1) newest_is_write)
  have "histGen r \<le> savedHistGen ?w1 i"
    using flight(2) by (auto simp: write_flight_def saveHistoryLocked_def SaveHistory_def savedHistGen_def ok_write_def)
  then have "histGen r \<le> savedHistGen w' i" using saved_steps [OF later] by simp
  moreover have "0 < histGen r" using ok live by (auto simp: tworld_ok_def gens_ok_def)
  ultimately show ?thesis using closed_final [OF closed_steps [OF later c1]] by blast
qed

text \<open>A session that is created, and a flush that has its snapshot when the session is closed.\<close>

definition ex_enc :: "event list \<Rightarrow> string" where "ex_enc rows = (if rows = [] then ''none'' else ''some'')"

definition ex_open :: tworld where
  "ex_open = flush_snapshot ''s'' (create_transcript ex_enc (\<lambda>_. None) Written False ''s'' empty_tworld)"

lemma ex_open_reach: "treach ex_enc (\<lambda>_. None) ex_open"
proof -
  have "treach ex_enc (\<lambda>_. None) empty_tworld"
    using tr_start [of ex_enc "\<lambda>_. None" Map.empty Map.empty] by (simp add: empty_tworld_def)
  from tr_step [OF this t_create [of empty_tworld "''s''" ex_enc "\<lambda>_. None" Written False]]
  show ?thesis unfolding ex_open_def by (intro tr_step [OF _ t_snapshot]) (simp add: empty_tworld_def)
qed

lemma ex_open_live: "tw_live ex_open ''s'' = Some (seed_ring [] 0 0, False)" "tw_flights ex_open = [(''s'', [], 1)]" "tw_purged ex_open = {}"
  by (simp_all add: ex_open_def flush_snapshot_def create_transcript_def empty_tworld_def LoadHistory_def prior_seq_def Let_def)

theorem closed_transcript_final_witness:
  "tw_disk (write_flight ex_enc Written (''s'', [], 1) (write_flight ex_enc Written (''s'', [], 1) (close_snapshot ''s'' ex_open))) ''s'' = Some ''none''"
proof -
  let ?c = "close_snapshot ''s'' ex_open"
  have c: "tw_flights ?c = [(''s'', [], 1), (''s'', [], 1)]" "tw_purged ?c = {}" by (simp_all add: close_snapshot_def ex_open_live)
  let ?w = "write_flight ex_enc Written (''s'', [], 1) ?c"
  have f: "(''s'', [], 1) \<in> set (tw_flights ?w)" by (simp add: write_flight_def saveHistoryLocked_def SaveHistory_def c)
  have "(tstep_other ex_enc (\<lambda>_. None) ''s'')\<^sup>*\<^sup>* ?w (write_flight ex_enc Written (''s'', [], 1) ?w)"
    using t_write [OF f, of ex_enc "\<lambda>_. None" Written] unfolding tstep_other_def by blast
  with closed_transcript_final [OF ex_open_reach ex_open_live(1) rtranclp.rtrancl_refl, of "write_flight ex_enc Written (''s'', [], 1) ?w"] c
  show ?thesis by (simp add: ex_enc_def bound_fits)
qed

text \<open>a deleted transcript can come back. A flush that took its snapshot before the session was deleted
  writes it if the session is created again before the write: deleting forgot the generation that was
  saved and creating lifts the tombstone, so nothing holds the old snapshot back, and the new
  session's file has the rows of the deleted one.\<close>

theorem deleted_transcript_returns:
  assumes reach: "treach enc dec w" and flight: "(i, snap, g) \<in> set (tw_flights w)" "0 < g"
  shows "\<exists>w1 w2 w3 r. tstep enc dec (Some i) w w1 \<and> tw_disk w1 i = None \<and> tstep enc dec (Some i) w1 w2 \<and>
    tw_live w2 i = Some (r, False) \<and> history r = [] \<and> tstep enc dec None w2 w3 \<and>
    tw_disk w3 i = Some (enc (boundHistoryByClass snap historyFileBudgetBytes))"
proof -
  let ?w1 = "delete_transcript Written i w"
  let ?w2 = "create_transcript enc dec Written False i ?w1"
  let ?w3 = "write_flight enc Written (i, snap, g) ?w2"
  have d: "tw_disk ?w1 i = None" "tw_live ?w1 i = None" "tw_saved ?w1 i = None" "tw_flights ?w1 = tw_flights w"
    by (simp_all add: delete_transcript_def Let_def landed_def)
  have c: "tw_flights ?w2 = tw_flights w" "tw_saved ?w2 i = None" "i \<notin> tw_purged ?w2"
    "tw_live ?w2 i = Some (seed_ring [] (prior_seq (case tw_lastSeq ?w1 i of Some n \<Rightarrow> n | None \<Rightarrow> 0) []) (tw_gen ?w1), False)"
    by (simp_all add: create_transcript_def Let_def d LoadHistory_def)
  have "tw_disk ?w3 i = Some (enc (boundHistoryByClass snap historyFileBudgetBytes))"
    using c(2,3) flight(2) by (simp add: write_flight_def saveHistoryLocked_def savedHistGen_def SaveHistory_def landed_def)
  moreover have "tstep enc dec (Some i) w ?w1" by (rule t_delete)
  moreover have "tstep enc dec (Some i) ?w1 ?w2" by (rule t_create [OF d(2)])
  moreover have "tstep enc dec None ?w2 ?w3" by (rule t_write) (simp add: c flight)
  ultimately show ?thesis using d(1) c(4) by (metis seed_ring_fields(1))
qed

theorem deleted_transcript_returns_witness:
  "\<exists>w1 w2 w3 r. tstep ex_enc (\<lambda>_. None) (Some ''s'') ex_open w1 \<and> tw_disk w1 ''s'' = None \<and> tstep ex_enc (\<lambda>_. None) (Some ''s'') w1 w2 \<and>
    tw_live w2 ''s'' = Some (r, False) \<and> history r = [] \<and> tstep ex_enc (\<lambda>_. None) None w2 w3 \<and> tw_disk w3 ''s'' = Some ''none''"
  using deleted_transcript_returns [OF ex_open_reach, of "''s''" "[]" 1] ex_open_live(2) by (simp add: ex_enc_def bound_fits)

text \<open>An event for a session that is not live takes a sequence number above every one the record or the
  transcript knows, and is the newest row of the transcript once it is written.\<close>

lemma stored_event_newest:
  assumes "emitStoredEvent enc dec wr recorded i ev w = (Some ev1, w')" "tw_lastSeq w i = Some n" "n + 1 < 2 ^ 64"
    "\<forall>h\<in>set (LoadHistory dec i (tw_disk w)). ev_Seq h \<le> ev_Seq (last (LoadHistory dec i (tw_disk w))) \<and> ev_Seq h + 1 < 2 ^ 64"
  shows "n < ev_Seq ev1 \<and> (\<forall>h\<in>set (LoadHistory dec i (tw_disk w)). ev_Seq h < ev_Seq ev1) \<and>
    (landed recorded \<longrightarrow> tw_lastSeq w' i = Some (ev_Seq ev1))"
proof -
  let ?h = "LoadHistory dec i (tw_disk w)"
  have e: "ev_Seq ev1 = (prior_seq n ?h + 1) mod 2 ^ 64" "landed recorded \<longrightarrow> tw_lastSeq w' i = Some (ev_Seq ev1)"
    using assms(1,2) by (auto simp: emitStoredEvent_def Let_def split: if_splits)
  have "prior_seq n ?h + 1 < 2 ^ 64" using assms(3,4) by (auto simp: prior_seq_def max_def)
  then have "ev_Seq ev1 = prior_seq n ?h + 1" using e(1) by simp
  moreover have "n \<le> prior_seq n ?h" "\<forall>h\<in>set ?h. ev_Seq h \<le> prior_seq n ?h"
    using assms(4) by (auto simp: prior_seq_def le_max_iff_disj)
  ultimately show ?thesis using e(2) by (auto simp: le_imp_less_Suc)
qed

end
