(* ===== verification/GoText.thy ===== *)
theory GoText
  imports Prelude
begin

text \<open>
  The string functions of Go's standard library that the components call, on byte strings:
  \<open>strings.TrimSpace\<close>, \<open>Fields\<close>, \<open>TrimPrefix\<close>, \<open>HasPrefix\<close>, and the ASCII part of
  \<open>ToLower\<close> and \<open>ToUpper\<close>; and the contract of a store whose entries expire.

  White space is Unicode's: one byte for the ASCII ones, two or three for the others, whose UTF-8
  encodings cannot occur inside another rune's encoding. Case mapping of a string with non-ASCII
  bytes is a parameter wherever it is used.
\<close>

subsection \<open>White space\<close>

definition ascii_space :: "nat \<Rightarrow> bool" where
  "ascii_space b \<longleftrightarrow> b = 32 \<or> (9 \<le> b \<and> b \<le> 13)"

text \<open>\<open>unicode.IsSpace\<close> on the rune at the start of a string: its length in bytes, or 0.\<close>

fun space_at :: "string \<Rightarrow> nat" where
  "space_at (a # b # c # r) =
    (if ascii_space (byte_of a) then 1
     else if byte_of a = 194 \<and> byte_of b \<in> {133, 160} then 2
     else if (byte_of a, byte_of b, byte_of c) \<in> {(225, 154, 128), (226, 129, 159), (227, 128, 128)} then 3
     else if byte_of a = 226 \<and> byte_of b = 128 \<and> (128 \<le> byte_of c \<and> byte_of c \<le> 138 \<or> byte_of c \<in> {168, 169, 175}) then 3
     else 0)"
| "space_at [a, b] =
    (if ascii_space (byte_of a) then 1 else if byte_of a = 194 \<and> byte_of b \<in> {133, 160} then 2 else 0)"
| "space_at [a] = (if ascii_space (byte_of a) then 1 else 0)"
| "space_at [] = 0"

lemma space_at_le: "space_at s \<le> length s"
  by (induction s rule: space_at.induct) auto

lemma space_at_pos: "space_at s \<noteq> 0 \<Longrightarrow> s \<noteq> []"
  by (cases s) auto

function TrimLeft :: "string \<Rightarrow> string" where
  "TrimLeft s = (if space_at s = 0 then s else TrimLeft (drop (space_at s) s))"
  by pat_completeness auto
termination
  by (relation "measure length") (use space_at_pos in force)+

declare TrimLeft.simps [simp del]

text \<open>The rune that ends a string, when it is white space: 1, 2 or 3 bytes.\<close>

definition space_end :: "string \<Rightarrow> nat" where
  "space_end s =
    (if s = [] then 0
     else if space_at (drop (length s - 1) s) = 1 then 1
     else if 2 \<le> length s \<and> space_at (drop (length s - 2) s) = 2 then 2
     else if 3 \<le> length s \<and> space_at (drop (length s - 3) s) = 3 then 3
     else 0)"

function TrimRight :: "string \<Rightarrow> string" where
  "TrimRight s = (if space_end s = 0 then s else TrimRight (take (length s - space_end s) s))"
  by pat_completeness auto
termination
  by (relation "measure length") (auto simp: space_end_def split: if_splits)

declare TrimRight.simps [simp del]

definition TrimSpace :: "string \<Rightarrow> string" where
  "TrimSpace s = TrimRight (TrimLeft s)"

lemma length_TrimLeft: "length (TrimLeft s) \<le> length s"
proof (induction s rule: TrimLeft.induct)
  case (1 s)
  then show ?case by (subst TrimLeft.simps) (auto intro: le_trans [OF _ diff_le_self])
qed

lemma length_TrimRight: "length (TrimRight s) \<le> length s"
proof (induction s rule: TrimRight.induct)
  case (1 s)
  then show ?case by (subst TrimRight.simps) (auto intro: le_trans)
qed

lemma length_TrimSpace: "length (TrimSpace s) \<le> length s"
  using length_TrimLeft [of s] length_TrimRight [of "TrimLeft s"] by (simp add: TrimSpace_def)

lemma TrimSpace_Nil [simp]: "TrimSpace [] = []"
  by (simp add: TrimSpace_def TrimLeft.simps TrimRight.simps space_end_def)

text \<open>A string with no space at either end is left alone; that is so for every string of
  printable non-space ASCII.\<close>

definition solid :: "string \<Rightarrow> bool" where
  "solid s \<longleftrightarrow> space_at s = 0 \<and> space_end s = 0"

lemma TrimSpace_solid: "solid s \<Longrightarrow> TrimSpace s = s"
  by (simp add: TrimSpace_def TrimLeft.simps TrimRight.simps solid_def)

lemma space_at_graphic:
  assumes "\<forall>c \<in> set s. 32 < byte_of c \<and> byte_of c < 127"
  shows "space_at s = 0"
  using assms by (cases s rule: space_at.cases) (auto simp: ascii_space_def)

lemma graphic_solid:
  assumes "\<forall>c \<in> set s. 32 < byte_of c \<and> byte_of c < 127"
  shows "solid s"
proof -
  have "space_at (drop n s) = 0" for n
    by (rule space_at_graphic) (use assms in \<open>auto dest: in_set_dropD\<close>)
  then show ?thesis by (simp add: solid_def space_end_def) (metis drop0)
qed

subsection \<open>Fields\<close>

text \<open>\<open>strings.Fields\<close>: the maximal runs between white space. \<open>field_end\<close> is the number of bytes
  before the first white space; in valid UTF-8 every white-space encoding starts a rune, and inside
  another rune's bytes none occurs.\<close>

fun field_end :: "string \<Rightarrow> nat" where
  "field_end [] = 0"
| "field_end (c # cs) = (if space_at (c # cs) \<noteq> 0 then 0 else Suc (field_end cs))"

lemma field_end_le: "field_end s \<le> length s"
  by (induction s) auto

lemma field_end_pos: "s \<noteq> [] \<Longrightarrow> space_at s = 0 \<Longrightarrow> 0 < field_end s"
  by (cases s) auto

lemma space_at_TrimLeft: "space_at (TrimLeft s) = 0"
proof (induction s rule: TrimLeft.induct)
  case (1 s)
  then show ?case by (cases "space_at s = 0") (simp_all add: TrimLeft.simps [of s])
qed

function Fields :: "string \<Rightarrow> string list" where
  "Fields s = (let t = TrimLeft s in if t = [] then [] else take (field_end t) t # Fields (drop (field_end t) t))"
  by pat_completeness auto
termination
proof (relation "measure length", goal_cases)
  case (2 s t)
  then have "0 < field_end t" "0 < length t" using field_end_pos space_at_TrimLeft by simp_all
  then have "length t - field_end t < length t" by (rule diff_less)
  also have "length t \<le> length s" using 2 length_TrimLeft [of s] by simp
  finally show ?case by simp
qed simp

declare Fields.simps [simp del]

lemma Fields_nonempty: "f \<in> set (Fields s) \<Longrightarrow> f \<noteq> []"
proof (induction s rule: Fields.induct)
  case (1 s)
  let ?t = "TrimLeft s"
  have "?t \<noteq> [] \<Longrightarrow> 0 < field_end ?t" by (rule field_end_pos [OF _ space_at_TrimLeft])
  with 1 show ?case by (subst (asm) (2) Fields.simps) (auto simp: Let_def split: if_splits)
qed

fun join_space :: "string list \<Rightarrow> string" where
  "join_space [] = []"
| "join_space [f] = f"
| "join_space (f # g # fs) = f @ '' '' @ join_space (g # fs)"

subsection \<open>Prefixes and case\<close>

text \<open>\<open>strings.LastIndexByte\<close>, none for -1, and \<open>strings.TrimRight\<close> with a set of bytes.\<close>

fun LastIndexByte :: "char \<Rightarrow> string \<Rightarrow> nat option" where
  "LastIndexByte d [] = None"
| "LastIndexByte d (c # s) = (case LastIndexByte d s of Some i \<Rightarrow> Some (Suc i) | None \<Rightarrow> if c = d then Some 0 else None)"

lemma LastIndexByte_None: "LastIndexByte d s = None \<longleftrightarrow> d \<notin> set s"
  by (induction s) (auto split: option.splits)

lemma LastIndexByte_append: "LastIndexByte d t = Some i \<Longrightarrow> LastIndexByte d (p @ t) = Some (length p + i)"
  by (induction p) auto

lemma LastIndexByte_less: "LastIndexByte d s = Some i \<Longrightarrow> i < length s"
  by (induction s arbitrary: i) (auto split: option.splits if_splits)

definition TrimRight_set :: "string \<Rightarrow> string \<Rightarrow> string" where
  "TrimRight_set cutset s = rev (dropWhile (\<lambda>c. c \<in> set cutset) (rev s))"

lemma TrimRight_set_prefix: "\<exists>rest. s = TrimRight_set cutset s @ rest \<and> set rest \<subseteq> set cutset"
proof -
  have "rev s = takeWhile (\<lambda>c. c \<in> set cutset) (rev s) @ dropWhile (\<lambda>c. c \<in> set cutset) (rev s)" by simp
  then have "s = TrimRight_set cutset s @ rev (takeWhile (\<lambda>c. c \<in> set cutset) (rev s))"
    unfolding TrimRight_set_def by (metis rev_append rev_rev_ident)
  then show ?thesis by (intro exI [of _ "rev (takeWhile (\<lambda>c. c \<in> set cutset) (rev s))"]) (auto dest: set_takeWhileD)
qed

definition HasPrefix :: "string \<Rightarrow> string \<Rightarrow> bool" where
  "HasPrefix s p \<longleftrightarrow> take (length p) s = p"

definition TrimPrefix :: "string \<Rightarrow> string \<Rightarrow> string" where
  "TrimPrefix s p = (if HasPrefix s p then drop (length p) s else s)"

definition upper_char :: "char \<Rightarrow> char" where
  "upper_char c = (if 97 \<le> byte_of c \<and> byte_of c \<le> 122 then char_of (byte_of c - 32) else c)"

definition lower_char :: "char \<Rightarrow> char" where
  "lower_char c = (if 65 \<le> byte_of c \<and> byte_of c \<le> 90 then char_of (byte_of c + 32) else c)"

lemma byte_of_char_of [simp]: "byte_of (char_of (n :: nat)) = n mod 256"
  by (simp add: byte_of_def)

lemma byte_of_inject: "byte_of a = byte_of b \<longleftrightarrow> a = b"
  by (simp add: byte_of_def)

subsection \<open>Stores whose entries expire\<close>

text \<open>
  Pair codes, resume tokens, rate windows and the request ledger all drop what has expired when
  they happen to be used next. The contract is that purging keeps exactly the entries that are not
  dead, and that a dead entry stays dead; then when it happens cannot be observed.
\<close>

locale expiring =
  fixes purge :: "gotime \<Rightarrow> 's \<Rightarrow> 's"
    and holds :: "'s \<Rightarrow> 'v \<Rightarrow> bool"
    and dead :: "gotime \<Rightarrow> 'v \<Rightarrow> bool"
  assumes holds_purge: "holds (purge t s) v \<longleftrightarrow> holds s v \<and> \<not> dead t v"
    and dead_later: "dead t v \<Longrightarrow> t \<le> t' \<Longrightarrow> dead t' v"
begin

lemma purge_keeps: "holds s v \<Longrightarrow> \<not> dead t v \<Longrightarrow> holds (purge t s) v"
  by (simp add: holds_purge)

lemma purge_unobservable:
  "t \<le> t' \<Longrightarrow> holds (purge t' (purge t s)) v \<longleftrightarrow> holds (purge t' s) v"
  using dead_later by (auto simp: holds_purge)

lemma purge_absent: "\<not> holds s v \<Longrightarrow> \<not> holds (purge t s) v"
  by (simp add: holds_purge)

end

end
