(* ===== verification/Create.thy ===== *)
theory Create
  imports Ownership Transcript GoText
begin

text \<open>
  Starting a session: \<open>create\<close> of \<open>internal/session/manager.go\<close> with the adoption of an agent's
  session (\<open>ResolveAgentSession\<close> of \<open>store.go\<close>), the limit on live sessions with its
  reservations, the ownership checks, what a session takes over from its predecessor
  (\<open>sessionTotals\<close> of \<open>tokencost.go\<close>), and the rollback.

  Everything \<open>create\<close> takes from outside is in \<open>create_env\<close>: the order the map of sessions is
  ranged over, the listing of the store, a fresh id, the clock, the provider's \<open>Start\<close>, the stored
  rows and the outcomes of the writes. The ring of the new entry is the subject of \<open>Transcript\<close>;
  here the entry has its sequence number.

  \<open>create\<close> holds the lock of its id throughout and the manager's lock only in its sections.
  \<open>create\<close> below is the run nothing interrupts; \<open>cstep\<close> interleaves the sections of creates
  of several ids.
\<close>

subsection \<open>Data\<close>

record StartOptions =
  so_CWD :: string
  so_Model :: string
  so_Name :: string
  so_Agent :: string
  so_AgentSessionID :: string
  so_LocalSessionID :: string
  so_ThinkingLevel :: string
  so_ModeID :: string
  so_CollaborationModeID :: string
  so_PermissionProfileID :: string
  so_ApprovalsReviewer :: string
  so_ServiceTier :: string
  so_Personality :: string

record sessionTotals =
  tot_turns :: int
  tot_input :: int
  tot_output :: int
  tot_cached :: int

definition no_totals :: sessionTotals where
  "no_totals = \<lparr>tot_turns = 0, tot_input = 0, tot_output = 0, tot_cached = 0\<rparr>"

definition totalsOfMeta :: "Meta \<Rightarrow> sessionTotals" where
  "totalsOfMeta m = \<lparr>tot_turns = m_Turns m, tot_input = m_InputTokens m, tot_output = m_OutputTokens m, tot_cached = m_CachedTokens m\<rparr>"

definition totalsOfRecord :: "Record \<Rightarrow> sessionTotals" where
  "totalsOfRecord r = \<lparr>tot_turns = r_Turns r, tot_input = r_InputTokens r, tot_output = r_OutputTokens r, tot_cached = r_CachedTokens r\<rparr>"

definition applyTo :: "sessionTotals \<Rightarrow> Meta \<Rightarrow> Meta" where
  "applyTo t m = m\<lparr>m_Turns := tot_turns t, m_InputTokens := tot_input t, m_OutputTokens := tot_output t, m_CachedTokens := tot_cached t\<rparr>"

text \<open>What \<open>create\<close> remembers of the session it replaces or resumes.\<close>

record prior =
  pr_Name :: string
  pr_Source :: string
  pr_Cost :: "SessionCost option"
  pr_Totals :: sessionTotals

text \<open>A started provider session: its id, the agent's id, its working directory if it has one.\<close>

record started =
  st_ID :: string
  st_AgentSessionID :: string
  st_CWD :: string
  st_sess :: nat

record create_env =
  ce_known :: bool
  ce_order :: "string list"
  ce_listed :: "Record list option"
  ce_fresh :: string
  ce_locked :: bool
  ce_now :: gotime
  ce_closed :: write_result
  ce_start :: "StartOptions \<Rightarrow> started option"
  ce_hist :: "event list"
  ce_saved :: write_result
  ce_rollback :: write_result
  ce_nameSource :: string

record creates =
  cr_own :: owners
  cr_reserved :: nat
  cr_maxLive :: nat
  cr_shuttingDown :: bool

datatype create_error = UnknownProvider | InvalidID | Cancelled | ShuttingDown | Forbidden | LimitReached
  | CloseFailed own_error | StartFailed | IDMismatch | PersistFailed

subsection \<open>Which session\<close>

definition ResolveAgentSession :: "Record list option \<Rightarrow> string \<Rightarrow> string \<Rightarrow> Record option" where
  "ResolveAgentSession listed providerID agentID =
    (if agentID = [] then None
     else (case listed of
         None \<Rightarrow> None
       | Some records \<Rightarrow>
           (case find (\<lambda>r. r_Provider r = providerID \<and> r_AgentSessionID r = agentID) records of
              Some r \<Rightarrow> Some r
            | None \<Rightarrow> find (\<lambda>r. r_Provider r = providerID \<and> agentID \<in> set (r_AgentSessionAliases r)) records)))"

definition runs_agent :: "owners \<Rightarrow> string \<Rightarrow> string \<Rightarrow> string \<Rightarrow> bool" where
  "runs_agent w providerID agentID i =
    (case ow_sessions w i of None \<Rightarrow> False | Some e \<Rightarrow> m_Provider (le_meta e) = providerID \<and> m_AgentSessionID (le_meta e) = agentID)"

definition adopt :: "create_env \<Rightarrow> string \<Rightarrow> StartOptions \<Rightarrow> owners \<Rightarrow> string" where
  "adopt ce providerID opts w =
    (if so_LocalSessionID opts = [] \<and> so_AgentSessionID opts \<noteq> [] then
       (case find (runs_agent w providerID (so_AgentSessionID opts)) (ce_order ce) of
          Some i \<Rightarrow> i
        | None \<Rightarrow>
            (if ow_store w = None then []
             else (case ResolveAgentSession (ce_listed ce) providerID (so_AgentSessionID opts) of Some r \<Rightarrow> r_ID r | None \<Rightarrow> [])))
     else so_LocalSessionID opts)"

definition id_char :: "char \<Rightarrow> bool" where
  "id_char c \<longleftrightarrow> c \<in> set ''ABCDEFGHIJKLMNOPQRSTUVWXYZabcdefghijklmnopqrstuvwxyz0123456789_-''"

definition validSessionID :: "string \<Rightarrow> bool" where
  "validSessionID i \<longleftrightarrow> i \<noteq> [] \<and> length i \<le> 64 \<and> list_all id_char i"

definition create_id :: "create_env \<Rightarrow> string \<Rightarrow> StartOptions \<Rightarrow> owners \<Rightarrow> create_error + string" where
  "create_id ce providerID opts w =
    (let i = adopt ce providerID opts w
     in if i = [] then Inr (ce_fresh ce) else if \<not> validSessionID i then Inl InvalidID else Inr i)"

subsection \<open>Admission\<close>

definition live_count :: "string list \<Rightarrow> owners \<Rightarrow> nat" where
  "live_count order w = length (filter (\<lambda>i. live_meta w i \<noteq> None) order)"

definition foreign :: "string \<Rightarrow> string \<Rightarrow> bool" where
  "foreign owner d \<longleftrightarrow> owner \<noteq> [] \<and> d \<noteq> [] \<and> owner \<noteq> d"

definition prior_of_meta :: "Meta \<Rightarrow> prior" where
  "prior_of_meta m = \<lparr>pr_Name = m_Name m, pr_Source = m_NameSource m, pr_Cost = m_SessionCost m, pr_Totals = totalsOfMeta m\<rparr>"

definition prior_of_record :: "Record \<Rightarrow> prior" where
  "prior_of_record r = \<lparr>pr_Name = r_Name r, pr_Source = r_NameSource r, pr_Cost = r_SessionCost r, pr_Totals = totalsOfRecord r\<rparr>"

text \<open>The first section: is the session there and ours, and is there room. The result says whether a live
  session is replaced, whether a slot was reserved, and what the session had.\<close>

definition admit_create :: "string list \<Rightarrow> string \<Rightarrow> string \<Rightarrow> creates \<Rightarrow> (create_error + bool \<times> bool \<times> prior option) \<times> creates" where
  "admit_create order i d s =
    (if cr_shuttingDown s then (Inl ShuttingDown, s)
     else
       (let entry = ow_sessions (cr_own s) i;
            replacing = (case entry of Some e \<Rightarrow> \<not> le_dead e | None \<Rightarrow> False);
            p = map_option (\<lambda>e. prior_of_meta (le_meta e)) entry
        in if (case entry of Some e \<Rightarrow> foreign (OwnerDeviceID (le_meta e)) d | None \<Rightarrow> False) then (Inl Forbidden, s)
           else if 0 < cr_maxLive s \<and> \<not> replacing then
             (if cr_maxLive s \<le> live_count order (cr_own s) + cr_reserved s then (Inl LimitReached, s)
              else (Inr (replacing, True, p), s\<lparr>cr_reserved := Suc (cr_reserved s)\<rparr>))
           else (Inr (replacing, False, p), s)))"

definition unreserve :: "bool \<Rightarrow> creates \<Rightarrow> creates" where
  "unreserve reserved s = (if reserved then s\<lparr>cr_reserved := cr_reserved s - 1\<rparr> else s)"

definition or_else :: "string \<Rightarrow> string \<Rightarrow> string" where
  "or_else a b = (if a = [] then b else a)"

definition fill_options :: "Record \<Rightarrow> StartOptions \<Rightarrow> StartOptions" where
  "fill_options r opts = opts\<lparr>so_ModeID := or_else (so_ModeID opts) (r_ModeID r),
     so_CollaborationModeID := or_else (so_CollaborationModeID opts) (r_CollaborationModeID r),
     so_PermissionProfileID := or_else (so_PermissionProfileID opts) (r_PermissionProfileID r),
     so_ApprovalsReviewer := or_else (so_ApprovalsReviewer opts) (r_ApprovalsReviewer r),
     so_ServiceTier := or_else (so_ServiceTier opts) (r_ServiceTier r),
     so_Personality := or_else (so_Personality opts) (r_Personality r),
     so_ThinkingLevel := or_else (so_ThinkingLevel opts) (r_ThinkingLevel r)\<rparr>"

text \<open>The stored record of a session that is not live is owned too.\<close>

definition resume_record :: "string \<Rightarrow> bool \<Rightarrow> prior option \<Rightarrow> StartOptions \<Rightarrow> owners \<Rightarrow> create_error + prior option \<times> StartOptions" where
  "resume_record d replacing p opts w =
    (case store_get w (so_LocalSessionID opts) of
       None \<Rightarrow> Inr (p, opts)
     | Some r \<Rightarrow>
         if \<not> replacing \<and> foreign (r_OwnerDeviceID r) d then Inl Forbidden
         else Inr (if p = None then Some (prior_of_record r) else p, fill_options r opts))"

subsection \<open>The new entry\<close>

definition name_source :: "string \<Rightarrow> string \<Rightarrow> prior option \<Rightarrow> string" where
  "name_source given nm p =
    (if nm = [] then []
     else if given \<noteq> [] then given
     else (case p of
         Some q \<Rightarrow> if nm = pr_Name q then effectiveNameSource (pr_Name q) (pr_Source q) else NameSourceUser
       | None \<Rightarrow> NameSourceUser))"

definition new_meta :: "gotime \<Rightarrow> string \<Rightarrow> string \<Rightarrow> string \<Rightarrow> StartOptions \<Rightarrow> prior option \<Rightarrow> started \<Rightarrow> Meta" where
  "new_meta now providerID given d opts p st =
    (let m = zero_meta\<lparr>m_ID := st_ID st, m_Provider := providerID, m_Name := so_Name opts,
           m_NameSource := name_source given (so_Name opts) p, m_Model := so_Model opts,
           m_ThinkingLevel := TrimSpace (so_ThinkingLevel opts), m_ModeID := TrimSpace (so_ModeID opts),
           m_CollaborationModeID := TrimSpace (so_CollaborationModeID opts),
           m_PermissionProfileID := TrimSpace (so_PermissionProfileID opts),
           m_ApprovalsReviewer := TrimSpace (so_ApprovalsReviewer opts),
           m_ServiceTier := TrimSpace (so_ServiceTier opts), m_Personality := TrimSpace (so_Personality opts),
           m_CWD := (if st_CWD st \<noteq> [] then st_CWD st else so_CWD opts), m_AgentSessionID := st_AgentSessionID st,
           OwnerDeviceID := d, m_SessionCost := (case p of Some q \<Rightarrow> pr_Cost q | None \<Rightarrow> None),
           m_CreatedAt := now, m_Status := ''idle'', m_Live := True\<rparr>;
         m1 = applyTo (case p of Some q \<Rightarrow> pr_Totals q | None \<Rightarrow> no_totals) m
     in if so_AgentSessionID opts \<noteq> [] \<and> so_AgentSessionID opts \<noteq> m_AgentSessionID m1
        then m1\<lparr>m_AgentSessionAliases := [so_AgentSessionID opts]\<rparr> else m1)"

definition add_alias :: "string \<Rightarrow> Meta \<Rightarrow> Meta" where
  "add_alias a m =
    (if a \<noteq> [] \<and> a \<noteq> m_AgentSessionID m \<and> a \<notin> set (m_AgentSessionAliases m)
     then m\<lparr>m_AgentSessionAliases := m_AgentSessionAliases m @ [a]\<rparr> else m)"

definition from_record :: "Record option \<Rightarrow> Meta \<Rightarrow> Meta" where
  "from_record rec m =
    (case rec of
       None \<Rightarrow> m
     | Some r \<Rightarrow>
         if r_CreatedAt r = 0 then m
         else fold add_alias (r_AgentSessionAliases r @ [r_AgentSessionID r])
           (m\<lparr>m_CreatedAt := r_CreatedAt r, OwnerDeviceID := or_else (OwnerDeviceID m) (r_OwnerDeviceID r)\<rparr>))"

definition create_entry :: "create_env \<Rightarrow> string \<Rightarrow> string \<Rightarrow> StartOptions \<Rightarrow> prior option \<Rightarrow> started \<Rightarrow> owners \<Rightarrow> live_entry" where
  "create_entry ce providerID d opts p st w =
    (let rec = store_get w (st_ID st);
         hist = (if ow_store w = None then [] else ce_hist ce);
         s = prior_seq (case rec of Some r \<Rightarrow> r_LastSeq r | None \<Rightarrow> 0) hist
     in \<lparr>le_meta = (from_record rec (new_meta (ce_now ce) providerID (ce_nameSource ce) d opts p st))\<lparr>m_LastSeq := s\<rparr>,
         le_sess = st_sess st, le_seq = s, le_dead = False\<rparr>)"

subsection \<open>create\<close>

text \<open>From the started session on: the id is checked, the entry is built and inserted, unless the manager
  is shutting down, and its record is written.\<close>

definition launch :: "create_env \<Rightarrow> string \<Rightarrow> string \<Rightarrow> StartOptions \<Rightarrow> prior option \<Rightarrow> started \<Rightarrow> creates \<Rightarrow> (create_error + Meta) \<times> creates" where
  "launch ce providerID d opts p st s =
    (if st_ID st \<noteq> so_LocalSessionID opts then (Inl IDMismatch, s)
     else if cr_shuttingDown s then (Inl ShuttingDown, s)
     else
       (let e = create_entry ce providerID d opts p st (cr_own s)
        in case create_tail (ce_now ce) (ce_saved ce) (ce_rollback ce) e (cr_own s) of
             (Inl _, w) \<Rightarrow> (Inl PersistFailed, s\<lparr>cr_own := w\<rparr>)
           | (Inr _, w) \<Rightarrow> (Inr (le_meta e), s\<lparr>cr_own := w\<rparr>)))"

definition replace_session :: "create_env \<Rightarrow> string \<Rightarrow> string \<Rightarrow> StartOptions \<Rightarrow> prior option \<Rightarrow> creates \<Rightarrow> (create_error + Meta) \<times> creates" where
  "replace_session ce providerID d opts p s =
    (case closeMatching (ce_now ce) (ce_closed ce) (so_LocalSessionID opts) None False (cr_own s) of
       (r, w) \<Rightarrow>
         if r \<noteq> Inr () \<and> r \<noteq> Inl ErrNotLive then (Inl (CloseFailed (projl r)), s\<lparr>cr_own := w\<rparr>)
         else (case ce_start ce opts of
             None \<Rightarrow> (Inl StartFailed, s\<lparr>cr_own := w\<rparr>)
           | Some st \<Rightarrow> launch ce providerID d opts p st (s\<lparr>cr_own := w\<rparr>)))"

definition create :: "create_env \<Rightarrow> string \<Rightarrow> StartOptions \<Rightarrow> string \<Rightarrow> creates \<Rightarrow> (create_error + Meta) \<times> creates" where
  "create ce providerID opts d s =
    (if \<not> ce_known ce then (Inl UnknownProvider, s)
     else (case create_id ce providerID opts (cr_own s) of
         Inl err \<Rightarrow> (Inl err, s)
       | Inr i \<Rightarrow>
           if \<not> ce_locked ce then (Inl Cancelled, s)
           else (case admit_create (ce_order ce) i d s of
               (Inl err, s1) \<Rightarrow> (Inl err, s1)
             | (Inr (replacing, reserved, p), s1) \<Rightarrow>
                 (case resume_record d replacing p (opts\<lparr>so_LocalSessionID := i\<rparr>) (cr_own s1) of
                    Inl err \<Rightarrow> (Inl err, unreserve reserved s1)
                  | Inr (p1, opts1) \<Rightarrow>
                      (case replace_session ce providerID d opts1 p1 s1 of (r, s2) \<Rightarrow> (r, unreserve reserved s2))))))"

subsection \<open>Lemmas: the parts of a create\<close>

lemma or_else_simps [simp]: "or_else [] b = b" "a \<noteq> [] \<Longrightarrow> or_else a b = a"
  by (simp_all add: or_else_def)

lemma fill_options_id [simp]: "so_LocalSessionID (fill_options r opts) = so_LocalSessionID opts" "so_Name (fill_options r opts) = so_Name opts"
  "so_AgentSessionID (fill_options r opts) = so_AgentSessionID opts"
  by (simp_all add: fill_options_def)

lemma totals_update [simp]: "totalsOfMeta (m\<lparr>m_CreatedAt := t\<rparr>) = totalsOfMeta m" "totalsOfMeta (m\<lparr>OwnerDeviceID := d\<rparr>) = totalsOfMeta m"
  "totalsOfMeta (m\<lparr>m_LastSeq := n\<rparr>) = totalsOfMeta m"
  by (simp_all add: totalsOfMeta_def)

lemma add_alias_frame [simp]: "m_ID (add_alias a m) = m_ID m" "OwnerDeviceID (add_alias a m) = OwnerDeviceID m"
  "m_CreatedAt (add_alias a m) = m_CreatedAt m" "totalsOfMeta (add_alias a m) = totalsOfMeta m" "m_SessionCost (add_alias a m) = m_SessionCost m"
  "m_NameSource (add_alias a m) = m_NameSource m" "PendingHandoffTo (add_alias a m) = PendingHandoffTo m" "m_Name (add_alias a m) = m_Name m"
  by (simp_all add: add_alias_def totalsOfMeta_def)

lemma fold_add_alias [simp]:
  "m_ID (fold add_alias as m) = m_ID m" "OwnerDeviceID (fold add_alias as m) = OwnerDeviceID m"
  "m_CreatedAt (fold add_alias as m) = m_CreatedAt m" "totalsOfMeta (fold add_alias as m) = totalsOfMeta m" "m_SessionCost (fold add_alias as m) = m_SessionCost m"
  "m_NameSource (fold add_alias as m) = m_NameSource m" "PendingHandoffTo (fold add_alias as m) = PendingHandoffTo m" "m_Name (fold add_alias as m) = m_Name m"
  by (induction as arbitrary: m) simp_all

lemma new_meta_fields [simp]:
  "m_ID (new_meta now pid given d opts p st) = st_ID st" "OwnerDeviceID (new_meta now pid given d opts p st) = d"
  "PendingHandoffTo (new_meta now pid given d opts p st) = []" "m_CreatedAt (new_meta now pid given d opts p st) = now"
  "totalsOfMeta (new_meta now pid given d opts p st) = (case p of Some q \<Rightarrow> pr_Totals q | None \<Rightarrow> no_totals)"
  "m_SessionCost (new_meta now pid given d opts p st) = (case p of Some q \<Rightarrow> pr_Cost q | None \<Rightarrow> None)"
  "m_NameSource (new_meta now pid given d opts p st) = name_source given (so_Name opts) p" "m_Name (new_meta now pid given d opts p st) = so_Name opts"
  by (simp_all add: new_meta_def Let_def applyTo_def totalsOfMeta_def zero_meta_def)

lemma from_record_frame [simp]:
  "m_ID (from_record rec m) = m_ID m" "PendingHandoffTo (from_record rec m) = PendingHandoffTo m"
  "totalsOfMeta (from_record rec m) = totalsOfMeta m" "m_SessionCost (from_record rec m) = m_SessionCost m"
  "m_NameSource (from_record rec m) = m_NameSource m" "OwnerDeviceID m \<noteq> [] \<Longrightarrow> OwnerDeviceID (from_record rec m) = OwnerDeviceID m"
  "m_Name (from_record rec m) = m_Name m"
  by (simp_all add: from_record_def split: option.split)

lemma create_entry_meta [simp]: "m_ID (le_meta (create_entry ce pid d opts p st w)) = st_ID st" "\<not> le_dead (create_entry ce pid d opts p st w)"
  "d \<noteq> [] \<Longrightarrow> OwnerDeviceID (le_meta (create_entry ce pid d opts p st w)) = d" "PendingHandoffTo (le_meta (create_entry ce pid d opts p st w)) = []"
  by (simp_all add: create_entry_def Let_def)

lemma store_get_frame: "store_get (clearPersistDirty i w) = store_get w" "store_get (w\<lparr>ow_sessions := ss\<rparr>) = store_get w"
  "ow_store (clearPersistDirty i w) = ow_store w" "ow_sessions (clearPersistDirty i w) = ow_sessions w" "ow_purged (clearPersistDirty i w) = ow_purged w"
  "store_get (clearPurged i w) = store_get w"
  by (simp_all add: store_get_def clearPersistDirty_def clearPurged_def fun_eq_iff)

text \<open>A close that removes nothing but one entry and writes nothing but its record.\<close>

lemma close_effect:
  assumes "keyed w" "closeMatching now saved i None False w = (r, w1)"
  shows "r = Inr () \<or> r = Inl ErrNotLive" "ow_sessions w1 = (ow_sessions w)(i := None)" "ow_purged w1 = ow_purged w"
    "(ow_store w1 = None) = (ow_store w = None)" "j \<noteq> i \<Longrightarrow> store_get w1 j = store_get w j"
    "\<And>e. ow_sessions w i = Some e \<Longrightarrow> store_get w1 i = (if ow_store w \<noteq> None \<and> landed saved then Some (to_record now (closed_meta e)) else store_get w i)"
    "ow_sessions w i = None \<Longrightarrow> store_get w1 i = store_get w i"
proof -
  have id: "m_ID (le_meta e) = i \<and> i \<notin> ow_purged w" if "ow_sessions w i = Some e" for e using assms(1) that by (simp add: keyed_def)
  have e: "closeMatching now saved i None False w =
      (case ow_sessions w i of None \<Rightarrow> (Inl ErrNotLive, clearPersistDirty i w)
       | Some e \<Rightarrow> (Inr (), snd (persistNow now saved (closed_meta e) (clearPersistDirty i (w\<lparr>ow_sessions := (ow_sessions w)(i := None)\<rparr>)))))"
    by (simp add: closeMatching_def close_remove_def split: option.split)
  show "r = Inr () \<or> r = Inl ErrNotLive" "ow_sessions w1 = (ow_sessions w)(i := None)" "ow_purged w1 = ow_purged w"
    "(ow_store w1 = None) = (ow_store w = None)" "j \<noteq> i \<Longrightarrow> store_get w1 j = store_get w j"
    "\<And>e. ow_sessions w i = Some e \<Longrightarrow> store_get w1 i = (if ow_store w \<noteq> None \<and> landed saved then Some (to_record now (closed_meta e)) else store_get w i)"
    "ow_sessions w i = None \<Longrightarrow> store_get w1 i = store_get w i"
    using assms(2) id unfolding e
    by (auto simp: own_simps store_get_frame split: option.splits)
qed


lemma create_tail_done:
  assumes "create_tail now saved saved2 e w = (Inr (), w1)"
  shows "ow_sessions w1 = (ow_sessions w)(m_ID (le_meta e) \<mapsto> e)" "(ow_store w1 = None) = (ow_store w = None)"
    "store_get w1 j = (if j = m_ID (le_meta e) \<and> ow_store w \<noteq> None then Some (to_record now (le_meta e)) else store_get w j)"
proof -
  let ?i = "m_ID (le_meta e)"
  let ?w = "clearPurged ?i (w\<lparr>ow_sessions := (ow_sessions w)(?i \<mapsto> e)\<rparr>)"
  have p: "?i \<notin> ow_purged ?w" by (simp add: clearPurged_def)
  have w1: "fst (persistNow now saved (le_meta e) ?w)" "w1 = snd (persistNow now saved (le_meta e) ?w)"
    using assms by (auto simp: create_tail_def Let_def split: prod.splits bool.splits)
  then have "ok_write saved \<or> ow_store w = None" using p by (simp add: persistNow_fails tombs_frame)
  then have l: "landed saved \<or> ow_store w = None" by (auto simp: ok_write_def landed_def)
  show "ow_sessions w1 = (ow_sessions w)(?i \<mapsto> e)" "(ow_store w1 = None) = (ow_store w = None)"
    by (simp_all add: w1(2) own_simps tombs_frame)
  show "store_get w1 j = (if j = ?i \<and> ow_store w \<noteq> None then Some (to_record now (le_meta e)) else store_get w j)"
    unfolding w1(2) store_persistNow using p l by (auto simp: store_get_frame tombs_frame)
qed

text \<open>A create that succeeds, step by step.\<close>

lemma create_done:
  assumes c: "create ce pid opts d s = (Inr m, s')" and k: "keyed (cr_own s)"
  obtains i replacing reserved p p1 opts1 st s1 w e w2 where
    "create_id ce pid opts (cr_own s) = Inr i" "admit_create (ce_order ce) i d s = (Inr (replacing, reserved, p), s1)" "cr_own s1 = cr_own s"
    "resume_record d replacing p (opts\<lparr>so_LocalSessionID := i\<rparr>) (cr_own s) = Inr (p1, opts1)"
    "w = snd (closeMatching (ce_now ce) (ce_closed ce) i None False (cr_own s))" "ce_start ce opts1 = Some st" "st_ID st = i"
    "so_LocalSessionID opts1 = i" "e = create_entry ce pid d opts1 p1 st w" "m = le_meta e"
    "create_tail (ce_now ce) (ce_saved ce) (ce_rollback ce) e w = (Inr (), w2)" "s' = unreserve reserved (s1\<lparr>cr_own := w2\<rparr>)"
proof -
  obtain i where i: "create_id ce pid opts (cr_own s) = Inr i" using c by (auto simp: create_def split: if_splits sum.splits)
  obtain q s1 where a: "admit_create (ce_order ce) i d s = (q, s1)" by fastforce
  have own: "cr_own s1 = cr_own s" using a by (auto simp: admit_create_def Let_def split: if_splits)
  obtain replacing reserved p where q: "q = Inr (replacing, reserved, p)"
    using c i a by (cases q) (auto simp: create_def split: if_splits)
  obtain p1 opts1 where r: "resume_record d replacing p (opts\<lparr>so_LocalSessionID := i\<rparr>) (cr_own s) = Inr (p1, opts1)"
    using c i a q own by (auto simp: create_def split: if_splits sum.splits)
  have o1: "so_LocalSessionID opts1 = i" using r by (auto simp: resume_record_def split: option.splits if_splits)
  obtain s2 where s2: "replace_session ce pid d opts1 p1 s1 = (Inr m, s2)" "s' = unreserve reserved s2"
    using c i a q own r by (auto simp: create_def split: if_splits prod.splits)
  obtain cr w where cl: "closeMatching (ce_now ce) (ce_closed ce) i None False (cr_own s) = (cr, w)" by fastforce
  have "cr = Inr () \<or> cr = Inl ErrNotLive" using close_effect(1) [OF k cl] .
  then obtain st where st: "ce_start ce opts1 = Some st" "launch ce pid d opts1 p1 st (s1\<lparr>cr_own := w\<rparr>) = (Inr m, s2)"
    using s2(1) cl own o1 by (auto simp: replace_session_def split: option.splits)
  then have "st_ID st = i" using o1 by (auto simp: launch_def split: if_splits)
  moreover obtain w2 where "create_tail (ce_now ce) (ce_saved ce) (ce_rollback ce) (create_entry ce pid d opts1 p1 st w) w = (Inr (), w2)"
      "m = le_meta (create_entry ce pid d opts1 p1 st w)" "s2 = s1\<lparr>cr_own := w2\<rparr>"
    using st(2) by (auto simp: launch_def Let_def split: if_splits prod.splits sum.splits)
  ultimately show thesis
    using that [OF i a [unfolded q] own r _ st(1) _ o1, of w] cl s2(2) by auto
qed

lemma admit_checked:
  assumes "admit_create order i d s = (Inr (replacing, reserved, p), s1)"
  shows "\<not> cr_shuttingDown s" "replacing \<longleftrightarrow> live_meta (cr_own s) i \<noteq> None" "p = map_option (\<lambda>e. prior_of_meta (le_meta e)) (ow_sessions (cr_own s) i)"
    "\<And>e. ow_sessions (cr_own s) i = Some e \<Longrightarrow> \<not> foreign (OwnerDeviceID (le_meta e)) d"
    "reserved \<longleftrightarrow> 0 < cr_maxLive s \<and> \<not> replacing" "reserved \<Longrightarrow> live_count order (cr_own s) + cr_reserved s < cr_maxLive s"
    "s1 = (if reserved then s\<lparr>cr_reserved := Suc (cr_reserved s)\<rparr> else s)"
  using assms by (auto simp: admit_create_def Let_def live_meta_def split: if_splits option.splits)

text \<open>What \<open>create\<close> finds of an earlier session of an id.\<close>

definition prior_of :: "owners \<Rightarrow> string \<Rightarrow> prior option" where
  "prior_of w i = (case ow_sessions w i of Some e \<Rightarrow> Some (prior_of_meta (le_meta e)) | None \<Rightarrow> map_option prior_of_record (store_get w i))"

lemma resume_checked:
  assumes "resume_record d replacing p opts w = Inr (p1, opts1)"
  shows "\<And>r. store_get w (so_LocalSessionID opts) = Some r \<Longrightarrow> replacing \<or> \<not> foreign (r_OwnerDeviceID r) d"
    "p1 = (if p = None then map_option prior_of_record (store_get w (so_LocalSessionID opts)) else p)" "so_Name opts1 = so_Name opts"
  using assms by (auto simp: resume_record_def split: option.splits if_splits)

lemma create_tail_failed:
  assumes "create_tail now saved saved2 e w = (Inl err, w1)" "keyed w" "ow_sessions w (m_ID (le_meta e)) = None"
  shows "ow_sessions w1 = ow_sessions w" "j \<noteq> m_ID (le_meta e) \<Longrightarrow> store_get w1 j = store_get w j"
proof -
  let ?i = "m_ID (le_meta e)"
  let ?w = "clearPurged ?i (w\<lparr>ow_sessions := (ow_sessions w)(?i \<mapsto> e)\<rparr>)"
  let ?v = "snd (persistNow now saved (le_meta e) ?w)"
  have w1: "w1 = snd (closeMatching now saved2 ?i None False ?v)"
    using assms(1) by (auto simp: create_tail_def Let_def split: prod.splits bool.splits)
  have "?i \<notin> ow_purged ?w" "tombs_ok ?w" using assms(2) clearPurged_tombs(1) [of "w\<lparr>ow_sessions := (ow_sessions w)(?i \<mapsto> e)\<rparr>" ?i]
    by (simp_all add: clearPurged_def keyed_def tombs_ok_def)
  moreover have "ow_purged ?w \<subseteq> ow_purged w" by (simp add: clearPurged_def Diff_subset)
  ultimately have "keyed ?w" using assms(2) by (auto simp: keyed_def store_get_frame tombs_frame split: if_splits)
  then have k: "keyed ?v" by (rule keyed_persistNow)
  note cl = close_effect [OF k, of now saved2 ?i, OF prod.collapse [symmetric], folded w1]
  show "ow_sessions w1 = ow_sessions w" using cl(2) assms(3) by (simp add: own_simps tombs_frame fun_upd_idem)
  show "store_get w1 j = store_get w j" if "j \<noteq> ?i"
    using cl(5) [OF that] that by (simp add: store_persistNow store_get_frame)
qed

lemma keyed_close: "keyed w \<Longrightarrow> keyed (snd (closeMatching now saved i None False w))"
proof -
  assume k: "keyed w"
  note cl = close_effect [OF k, of now saved i, OF prod.collapse [symmetric]]
  have "ow_purgedOrder (snd (closeMatching now saved i None False w)) = ow_purgedOrder w"
    by (simp add: closeMatching_def close_remove_def clearPersistDirty_def own_simps split: option.split)
  then have t: "tombs_ok (snd (closeMatching now saved i None False w))" using k cl(3) by (simp add: keyed_def tombs_ok_def)
  have "r_ID r = j" if "store_get (snd (closeMatching now saved i None False w)) j = Some r" for j r
  proof (cases "j = i")
    case True
    then show ?thesis using that k cl(6,7) by (cases "ow_sessions w i") (auto simp: keyed_def own_simps split: if_splits)
  next
    case False
    then show ?thesis using that k cl(5) by (auto simp: keyed_def)
  qed
  with t k cl(2,3) show ?thesis by (auto simp: keyed_def split: if_splits)
qed

lemma replace_failed:
  assumes "replace_session ce pid d opts p s = (Inl err, s')" "keyed (cr_own s)" "\<not> cr_shuttingDown s"
  shows "err \<in> {StartFailed, IDMismatch, PersistFailed}" "ow_sessions (cr_own s') = (ow_sessions (cr_own s))(so_LocalSessionID opts := None)"
    "j \<noteq> so_LocalSessionID opts \<Longrightarrow> store_get (cr_own s') j = store_get (cr_own s) j" "cr_reserved s' = cr_reserved s"
    "cr_maxLive s' = cr_maxLive s" "cr_shuttingDown s' = cr_shuttingDown s"
proof -
  let ?i = "so_LocalSessionID opts"
  obtain r w where c: "closeMatching (ce_now ce) (ce_closed ce) ?i None False (cr_own s) = (r, w)" by fastforce
  note cl = close_effect [OF assms(2) c]
  have k: "keyed w" using keyed_close [OF assms(2), of "ce_now ce" "ce_closed ce" ?i] c by simp
  consider "err = StartFailed" "s' = s\<lparr>cr_own := w\<rparr>" | "err = IDMismatch" "s' = s\<lparr>cr_own := w\<rparr>"
    | st e w1 where "err = PersistFailed" "s' = s\<lparr>cr_own := w1\<rparr>" "m_ID (le_meta e) = ?i"
      "create_tail (ce_now ce) (ce_saved ce) (ce_rollback ce) e w = (Inl st, w1)"
  proof (cases "ce_start ce opts")
    case None
    then show thesis using that(1) assms(1) c cl(1) by (auto simp: replace_session_def)
  next
    case (Some st)
    then have l: "launch ce pid d opts p st (s\<lparr>cr_own := w\<rparr>) = (Inl err, s')" using assms(1) c cl(1) by (auto simp: replace_session_def)
    show thesis
    proof (cases "st_ID st = ?i")
      case False
      then show thesis using that(2) l by (auto simp: launch_def)
    next
      case True
      let ?e = "create_entry ce pid d opts p st w"
      obtain q w1 where t: "create_tail (ce_now ce) (ce_saved ce) (ce_rollback ce) ?e w = (q, w1)" by fastforce
      then obtain x where "q = Inl x" using l True assms(3) by (cases q) (auto simp: launch_def Let_def)
      then show thesis using that(3) [of w1 ?e] l t True assms(3) by (auto simp: launch_def Let_def)
    qed
  qed
  then have "err \<in> {StartFailed, IDMismatch, PersistFailed} \<and> ow_sessions (cr_own s') = (ow_sessions (cr_own s))(?i := None) \<and>
    (j \<noteq> ?i \<longrightarrow> store_get (cr_own s') j = store_get (cr_own s) j) \<and> cr_reserved s' = cr_reserved s \<and>
    cr_maxLive s' = cr_maxLive s \<and> cr_shuttingDown s' = cr_shuttingDown s"
  proof cases
    case (3 st e w1)
    note tf = create_tail_failed [OF 3(4) k]
    have n: "ow_sessions w (m_ID (le_meta e)) = None" using 3(3) cl(2) by simp
    show ?thesis using 3(1-3) tf(1) [OF n] tf(2) [OF n] cl(2) cl(5) by auto
  qed (use cl(2,5) in auto)
  then show "err \<in> {StartFailed, IDMismatch, PersistFailed}" "ow_sessions (cr_own s') = (ow_sessions (cr_own s))(?i := None)"
    "j \<noteq> ?i \<Longrightarrow> store_get (cr_own s') j = store_get (cr_own s) j" "cr_reserved s' = cr_reserved s"
    "cr_maxLive s' = cr_maxLive s" "cr_shuttingDown s' = cr_shuttingDown s"
    by blast+
qed

subsection \<open>Creates at the same time\<close>

text \<open>A create in flight: does it replace a live session, did it reserve a slot, has it inserted its entry.\<close>

record csys =
  cy_state :: creates
  cy_flights :: "string \<rightharpoonup> bool \<times> bool \<times> bool"

definition ranges :: "string list \<Rightarrow> (string \<rightharpoonup> 'a) \<Rightarrow> bool" where
  "ranges order m \<longleftrightarrow> distinct order \<and> set order = dom m"

definition on_owners :: "(owners \<Rightarrow> owners) \<Rightarrow> csys \<Rightarrow> csys" where
  "on_owners f c = c\<lparr>cy_state := (cy_state c)\<lparr>cr_own := f (cr_own (cy_state c))\<rparr>\<rparr>"

definition insert_entry :: "live_entry \<Rightarrow> owners \<Rightarrow> owners" where
  "insert_entry e w = clearPurged (m_ID (le_meta e)) (w\<lparr>ow_sessions := (ow_sessions w)(m_ID (le_meta e) \<mapsto> e)\<rparr>)"

text \<open>The label says whether a step begins a create that replaces a live session. The lock of an id keeps a
  second create of it out. Besides the sections of creates, sessions are closed, die or change their
  metadata, records are written, and the manager may start to shut down.\<close>

inductive cstep :: "bool \<Rightarrow> csys \<Rightarrow> csys \<Rightarrow> bool" where
  k_begin: "cy_flights c i = None \<Longrightarrow> ranges order (ow_sessions (cr_own (cy_state c))) \<Longrightarrow>
    admit_create order i d (cy_state c) = (Inr (replacing, reserved, p), s1) \<Longrightarrow>
    cstep replacing c (c\<lparr>cy_state := s1, cy_flights := (cy_flights c)(i \<mapsto> (replacing, reserved, False))\<rparr>)"
| k_abort: "cy_flights c i = Some (replacing, reserved, False) \<Longrightarrow>
    cstep False c (c\<lparr>cy_state := unreserve reserved (cy_state c), cy_flights := (cy_flights c)(i := None)\<rparr>)"
| k_insert: "cy_flights c i = Some (replacing, reserved, False) \<Longrightarrow> \<not> cr_shuttingDown (cy_state c) \<Longrightarrow> m_ID (le_meta e) = i \<Longrightarrow> \<not> le_dead e \<Longrightarrow>
    cstep False c ((on_owners (insert_entry e) c)\<lparr>cy_flights := (cy_flights c)(i \<mapsto> (replacing, reserved, True))\<rparr>)"
| k_finish: "cy_flights c i = Some (replacing, reserved, True) \<Longrightarrow>
    cstep False c (c\<lparr>cy_state := unreserve reserved (cy_state c), cy_flights := (cy_flights c)(i := None)\<rparr>)"
| k_whole: "create_id ce pid opts (cr_own (cy_state c)) = Inr i \<Longrightarrow> cy_flights c i = None \<Longrightarrow> ranges (ce_order ce) (ow_sessions (cr_own (cy_state c))) \<Longrightarrow>
    create ce pid opts d (cy_state c) = (r, s1) \<Longrightarrow> cstep False c (c\<lparr>cy_state := s1\<rparr>)"
| k_close: "cstep False c (on_owners (\<lambda>w. snd (closeMatching now saved i expect purge w)) c)"
| k_touch: "ow_sessions (cr_own (cy_state c)) i = Some e \<Longrightarrow> (le_dead e \<longrightarrow> dead) \<Longrightarrow> cstep False c (on_owners (touch_entry i m dead) c)"
| k_persist: "cstep False c (on_owners (\<lambda>w. snd (persistNow now saved m w)) c)"
| k_shutdown: "cstep False c (c\<lparr>cy_state := (cy_state c)\<lparr>cr_shuttingDown := True\<rparr>\<rparr>)"

definition cany :: "csys \<Rightarrow> csys \<Rightarrow> bool" where
  "cany c c' \<longleftrightarrow> (\<exists>l. cstep l c c')"

definition cstart :: "nat \<Rightarrow> csys \<Rightarrow> bool" where
  "cstart n c \<longleftrightarrow> cr_maxLive (cy_state c) = n \<and> cr_reserved (cy_state c) = 0 \<and> cy_flights c = Map.empty \<and> ow_sessions (cr_own (cy_state c)) = Map.empty"

subsection \<open>Lemmas: the limit\<close>

definition live_ids :: "owners \<Rightarrow> string set" where
  "live_ids w = {i. live_meta w i \<noteq> None}"

definition reserved_ids :: "csys \<Rightarrow> string set" where
  "reserved_ids c = {i. \<exists>replacing inserted. cy_flights c i = Some (replacing, True, inserted)}"

definition waiting_ids :: "csys \<Rightarrow> string set" where
  "waiting_ids c = {i. \<exists>replacing. cy_flights c i = Some (replacing, True, False)}"

definition within_limit :: "nat \<Rightarrow> csys \<Rightarrow> bool" where
  "within_limit n c \<longleftrightarrow> cr_maxLive (cy_state c) = n \<and> finite (dom (ow_sessions (cr_own (cy_state c)))) \<and> finite (reserved_ids c) \<and>
    dom (cy_flights c) = reserved_ids c \<and>
    cr_reserved (cy_state c) = card (reserved_ids c) \<and> card (live_ids (cr_own (cy_state c))) + card (waiting_ids c) \<le> n"

lemma live_ids_sub: "live_ids w \<subseteq> dom (ow_sessions w)"
  by (auto simp: live_ids_def live_meta_def split: option.splits)

lemma live_count_card: "ranges order (ow_sessions w) \<Longrightarrow> live_count order w = card (live_ids w)"
proof -
  assume r: "ranges order (ow_sessions w)"
  then have "set (filter (\<lambda>i. live_meta w i \<noteq> None) order) = live_ids w" using live_ids_sub [of w] by (auto simp: ranges_def live_ids_def)
  moreover have "distinct (filter (\<lambda>i. live_meta w i \<noteq> None) order)" using r by (simp add: ranges_def)
  ultimately show ?thesis unfolding live_count_def using distinct_card by metis
qed

text \<open>Changes of one entry.\<close>

lemma live_ids_update: "ow_sessions w' = (ow_sessions w)(i := x) \<Longrightarrow> live_ids w' \<subseteq> insert i (live_ids w)"
  "ow_sessions w' = (ow_sessions w)(i := None) \<Longrightarrow> live_ids w' \<subseteq> live_ids w"
  by (auto simp: live_ids_def live_meta_def split: if_splits option.splits)

lemma close_sessions_update:
  "ow_sessions (snd (closeMatching now saved i expect purge w)) = ow_sessions w \<or>
   ow_sessions (snd (closeMatching now saved i expect purge w)) = (ow_sessions w)(i := None)"
proof -
  have "ow_sessions (snd (purge_stored removed j v)) = ow_sessions v" for removed j v
    by (simp add: purge_stored_def deleteStored_def tombs_frame split: prod.split)
  then show ?thesis
    by (auto simp: closeMatching_def close_remove_def own_simps clearPersistDirty_def split: option.split)
qed

lemma create_tail_sessions: "\<exists>x. ow_sessions (snd (create_tail now saved saved2 e w)) = (ow_sessions w)(m_ID (le_meta e) := x)"
proof -
  let ?i = "m_ID (le_meta e)"
  let ?w = "clearPurged ?i (w\<lparr>ow_sessions := (ow_sessions w)(?i \<mapsto> e)\<rparr>)"
  let ?v = "snd (persistNow now saved (le_meta e) ?w)"
  have v: "ow_sessions ?v = (ow_sessions w)(?i \<mapsto> e)" by (simp add: own_simps tombs_frame)
  have "snd (create_tail now saved saved2 e w) \<in> {?v, snd (closeMatching now saved2 ?i None False ?v)}"
    by (simp add: create_tail_def Let_def split: prod.split bool.split)
  then show ?thesis using v close_sessions_update [of now saved2 ?i None False ?v] by (auto simp: fun_upd_twist) 
qed

lemma unreserve_admitted:
  assumes "admit_create order i d s = (Inr (replacing, reserved, p), s1)"
  shows "unreserve reserved s1 = s" "cr_reserved s2 = cr_reserved s1 \<Longrightarrow> cr_reserved (unreserve reserved s2) = cr_reserved s"
    "cr_own (unreserve reserved s2) = cr_own s2" "cr_own s1 = cr_own s" "cr_shuttingDown s1 = cr_shuttingDown s"
  using admit_checked(7) [OF assms] by (simp_all add: unreserve_def)

lemma replace_sessions:
  assumes "replace_session ce pid d opts p s = (r, s1)"
  shows "\<exists>x. ow_sessions (cr_own s1) = (ow_sessions (cr_own s))(so_LocalSessionID opts := x)" "cr_reserved s1 = cr_reserved s" "cr_maxLive s1 = cr_maxLive s"
proof -
  let ?i = "so_LocalSessionID opts"
  let ?w = "snd (closeMatching (ce_now ce) (ce_closed ce) ?i None False (cr_own s))"
  have w: "\<exists>x. ow_sessions ?w = (ow_sessions (cr_own s))(?i := x)" using close_sessions_update [of "ce_now ce" "ce_closed ce" ?i None False "cr_own s"]
    by (metis fun_upd_triv)
  consider "s1 = s\<lparr>cr_own := ?w\<rparr>" | st where "st_ID st = ?i" "s1 = s\<lparr>cr_own := snd (create_tail (ce_now ce) (ce_saved ce) (ce_rollback ce) (create_entry ce pid d opts p st ?w) ?w)\<rparr>"
    using assms by (auto simp: replace_session_def launch_def Let_def split: prod.splits if_splits option.splits sum.splits)
  then have "(\<exists>x. ow_sessions (cr_own s1) = (ow_sessions (cr_own s))(?i := x)) \<and> cr_reserved s1 = cr_reserved s \<and> cr_maxLive s1 = cr_maxLive s"
  proof cases
    case (2 st)
    show ?thesis
      using 2(2) w create_tail_sessions [of "ce_now ce" "ce_saved ce" "ce_rollback ce" "create_entry ce pid d opts p st ?w" ?w] 2(1)
      by (auto simp: fun_upd_upd)
  qed (use w in auto)
  then show "\<exists>x. ow_sessions (cr_own s1) = (ow_sessions (cr_own s))(so_LocalSessionID opts := x)" "cr_reserved s1 = cr_reserved s" "cr_maxLive s1 = cr_maxLive s"
    by blast+
qed

lemma create_sessions:
  assumes "create ce pid opts d s = (r, s1)" "create_id ce pid opts (cr_own s) = Inr i"
  shows "s1 = s \<or> (\<exists>replacing reserved p s0 x. admit_create (ce_order ce) i d s = (Inr (replacing, reserved, p), s0) \<and>
    ow_sessions (cr_own s1) = (ow_sessions (cr_own s))(i := x) \<and> cr_reserved s1 = cr_reserved s \<and> cr_maxLive s1 = cr_maxLive s)"
proof (cases "ce_known ce \<and> ce_locked ce \<and> (\<exists>q s0. admit_create (ce_order ce) i d s = (Inr q, s0))")
  case False
  then show ?thesis using assms by (auto simp: create_def admit_create_def Let_def split: if_splits sum.splits)
next
  case True
  then obtain replacing reserved p s0 where a: "admit_create (ce_order ce) i d s = (Inr (replacing, reserved, p), s0)" by (metis prod_cases3)
  note ua = unreserve_admitted [OF a]
  show ?thesis
  proof (cases "resume_record d replacing p (opts\<lparr>so_LocalSessionID := i\<rparr>) (cr_own s)")
    case (Inl x)
    then show ?thesis using assms True a ua by (auto simp: create_def)
  next
    case (Inr y)
    then obtain p1 opts1 where y: "resume_record d replacing p (opts\<lparr>so_LocalSessionID := i\<rparr>) (cr_own s) = Inr (p1, opts1)" by (cases y) simp
    have o1: "so_LocalSessionID opts1 = i" using y by (auto simp: resume_record_def split: option.splits if_splits)
    obtain q s2 where rs: "replace_session ce pid d opts1 p1 s0 = (q, s2)" by fastforce
    then have s1: "s1 = unreserve reserved s2" using assms True a y ua(4) by (auto simp: create_def)
    note rp = replace_sessions [OF rs, unfolded o1 ua(4)]
    have "cr_maxLive s1 = cr_maxLive s" using s1 rp(3) admit_checked(7) [OF a] by (simp add: unreserve_def)
    then show ?thesis using a rp(1) s1 ua(3) ua(2) [OF rp(2)] by auto
  qed
qed

lemma flights_upd:
  "reserved_ids (c\<lparr>cy_flights := (cy_flights c)(i \<mapsto> (replacing, reserved, inserted))\<rparr>) = (if reserved then insert i (reserved_ids c) else reserved_ids c - {i})"
  "reserved_ids (c\<lparr>cy_flights := (cy_flights c)(i := None)\<rparr>) = reserved_ids c - {i}"
  "waiting_ids (c\<lparr>cy_flights := (cy_flights c)(i \<mapsto> (replacing, reserved, inserted))\<rparr>) = (if reserved \<and> \<not> inserted then insert i (waiting_ids c) else waiting_ids c - {i})"
  "waiting_ids (c\<lparr>cy_flights := (cy_flights c)(i := None)\<rparr>) = waiting_ids c - {i}"
  by (auto simp: reserved_ids_def waiting_ids_def)

lemma flights_state [simp]:
  "reserved_ids (c\<lparr>cy_state := s\<rparr>) = reserved_ids c" "waiting_ids (c\<lparr>cy_state := s\<rparr>) = waiting_ids c"
  by (auto simp: reserved_ids_def waiting_ids_def)

lemma waiting_sub: "waiting_ids c \<subseteq> reserved_ids c" "reserved_ids c \<subseteq> dom (cy_flights c)"
  by (auto simp: reserved_ids_def waiting_ids_def)

lemma within_finite:
  assumes "within_limit n c"
  shows "finite (live_ids (cr_own (cy_state c)))" "finite (reserved_ids c)" "finite (waiting_ids c)" "card (waiting_ids c) \<le> cr_reserved (cy_state c)"
proof -
  have f: "finite (dom (ow_sessions (cr_own (cy_state c))))" "finite (reserved_ids c)" "cr_reserved (cy_state c) = card (reserved_ids c)"
    using assms by (auto simp: within_limit_def)
  show "finite (live_ids (cr_own (cy_state c)))" by (rule finite_subset [OF live_ids_sub f(1)])
  show r: "finite (reserved_ids c)" by (rule f(2))
  show "finite (waiting_ids c)" by (rule finite_subset [OF waiting_sub(1) r])
  show "card (waiting_ids c) \<le> cr_reserved (cy_state c)" unfolding f(3) by (rule card_mono [OF r waiting_sub(1)])
qed

text \<open>A change of the sessions that adds no live one.\<close>

lemma within_shrink:
  assumes "within_limit n c" "live_ids w \<subseteq> live_ids (cr_own (cy_state c))" "dom (ow_sessions w) \<subseteq> dom (ow_sessions (cr_own (cy_state c)))"
  shows "within_limit n (c\<lparr>cy_state := (cy_state c)\<lparr>cr_own := w\<rparr>\<rparr>)"
proof -
  have "card (live_ids w) \<le> card (live_ids (cr_own (cy_state c)))" by (rule card_mono [OF within_finite(1) [OF assms(1)] assms(2)])
  moreover have "finite (dom (ow_sessions w))" by (rule finite_subset [OF assms(3)]) (use assms(1) in \<open>simp add: within_limit_def\<close>)
  ultimately show ?thesis using assms(1) by (simp add: within_limit_def)
qed

lemma within_leave:
  assumes w: "within_limit n c" and f: "cy_flights c i = Some (replacing, reserved, inserted)"
  shows "within_limit n (c\<lparr>cy_state := unreserve reserved (cy_state c), cy_flights := (cy_flights c)(i := None)\<rparr>)"
proof -
  have "i \<in> reserved_ids c" using w f unfolding within_limit_def by blast
  then have r: "reserved" using f by (auto simp: reserved_ids_def)
  have i: "i \<in> reserved_ids c" using f r by (auto simp: reserved_ids_def)
  note fin = within_finite(2,3) [OF w]
  have "card (waiting_ids c - {i}) \<le> card (waiting_ids c)" using fin(2) by (simp add: card_mono)
  then show ?thesis
    using w r i fin(1) flights_upd(2,4) [of "c\<lparr>cy_state := unreserve reserved (cy_state c)\<rparr>" i]
    by (auto simp: within_limit_def unreserve_def split: if_splits)
qed

lemma within_begin:
  assumes w: "within_limit n c" and n: "0 < n" and free: "cy_flights c i = None" and rg: "ranges order (ow_sessions (cr_own (cy_state c)))"
    and a: "admit_create order i d (cy_state c) = (Inr (False, reserved, p), s1)"
  shows "within_limit n (c\<lparr>cy_state := s1, cy_flights := (cy_flights c)(i \<mapsto> (False, reserved, False))\<rparr>)"
proof -
  note ac = admit_checked [OF a]
  have r: "reserved" using ac(5) w n by (simp add: within_limit_def)
  then have room: "card (live_ids (cr_own (cy_state c))) + cr_reserved (cy_state c) < n"
    using ac(6) live_count_card [OF rg] w by (simp add: within_limit_def)
  have i: "i \<notin> reserved_ids c" "i \<notin> waiting_ids c" using free by (auto simp: reserved_ids_def waiting_ids_def)
  have s1: "s1 = (cy_state c)\<lparr>cr_reserved := Suc (cr_reserved (cy_state c))\<rparr>" using ac(7) r by simp
  show ?thesis
    using w r i room within_finite [OF w] flights_upd(1,3) [of "c\<lparr>cy_state := s1\<rparr>" i False reserved False]
    by (simp add: within_limit_def s1)
qed

lemma within_insert:
  assumes w: "within_limit n c" and f: "cy_flights c i = Some (replacing, reserved, False)" and e: "m_ID (le_meta e) = i"
  shows "within_limit n ((on_owners (insert_entry e) c)\<lparr>cy_flights := (cy_flights c)(i \<mapsto> (replacing, reserved, True))\<rparr>)"
proof -
  have "i \<in> reserved_ids c" using w f unfolding within_limit_def by blast
  then have i: "reserved" "i \<in> reserved_ids c" "i \<in> waiting_ids c" using f by (auto simp: reserved_ids_def waiting_ids_def)
  let ?w = "insert_entry e (cr_own (cy_state c))"
  have ss: "ow_sessions ?w = (ow_sessions (cr_own (cy_state c)))(i \<mapsto> e)" using e by (simp add: insert_entry_def tombs_frame)
  note fin = within_finite [OF w]
  have "card (live_ids ?w) \<le> card (insert i (live_ids (cr_own (cy_state c))))"
    by (rule card_mono) (use fin(1) live_ids_update(1) [OF ss] in auto)
  also have "\<dots> \<le> Suc (card (live_ids (cr_own (cy_state c))))" by (rule card_insert_le_m1) simp_all
  finally have l: "card (live_ids ?w) \<le> Suc (card (live_ids (cr_own (cy_state c))))" .
  have c1: "card (waiting_ids c) = Suc (card (waiting_ids c - {i}))" by (rule card.remove [OF fin(3) i(3)])
  let ?c = "(on_owners (insert_entry e) c)\<lparr>cy_flights := (cy_flights c)(i \<mapsto> (replacing, reserved, True))\<rparr>"
  have "reserved_ids ?c = insert i (reserved_ids c)" "waiting_ids ?c = waiting_ids c - {i}" using i(1) by (auto simp: reserved_ids_def waiting_ids_def on_owners_def)
  moreover have "dom (cy_flights ?c) = insert i (dom (cy_flights c))" "cr_own (cy_state ?c) = ?w" "cr_maxLive (cy_state ?c) = cr_maxLive (cy_state c)"
    "cr_reserved (cy_state ?c) = cr_reserved (cy_state c)" by (simp_all add: on_owners_def)
  moreover have "finite (dom (ow_sessions ?w))" using w ss by (simp add: within_limit_def)
  moreover have "card (live_ids ?w) + card (waiting_ids c - {i}) \<le> n" using w l c1 unfolding within_limit_def by linarith
  ultimately show ?thesis using w i(2) unfolding within_limit_def by (metis insert_absorb)
qed

lemma within_whole:
  assumes w: "within_limit n c" and n: "0 < n" and rg: "ranges (ce_order ce) (ow_sessions (cr_own (cy_state c)))"
    and cr: "create ce pid opts d (cy_state c) = (r, s1)" "create_id ce pid opts (cr_own (cy_state c)) = Inr i"
  shows "within_limit n (c\<lparr>cy_state := s1\<rparr>)"
  using create_sessions [OF cr]
proof (elim disjE exE conjE)
  assume "s1 = cy_state c"
  then show ?thesis using w by simp
next
  fix replacing reserved p s0 x
  assume a: "admit_create (ce_order ce) i d (cy_state c) = (Inr (replacing, reserved, p), s0)" and ss: "ow_sessions (cr_own s1) = (ow_sessions (cr_own (cy_state c)))(i := x)"
    and same: "cr_reserved s1 = cr_reserved (cy_state c)" "cr_maxLive s1 = cr_maxLive (cy_state c)"
  let ?L = "live_ids (cr_own (cy_state c))"
  note ac = admit_checked [OF a] and fin = within_finite [OF w]
  have sub: "card (live_ids (cr_own s1)) \<le> card (insert i ?L)" by (rule card_mono) (use fin(1) live_ids_update(1) [OF ss] in auto)
  have "card (insert i ?L) + card (waiting_ids c) \<le> n"
  proof (cases replacing)
    case True
    then have "i \<in> ?L" using ac(2) by (simp add: live_ids_def)
    then show ?thesis using w by (simp add: insert_absorb within_limit_def)
  next
    case False
    then have "card ?L + cr_reserved (cy_state c) < n" using ac(5,6) n w live_count_card [OF rg] by (simp add: within_limit_def)
    moreover have "card (insert i ?L) \<le> Suc (card ?L)" by (rule card_insert_le_m1) simp_all
    ultimately show ?thesis using fin(4) by simp
  qed
  with sub w same ss show ?thesis by (simp add: within_limit_def)
qed

lemma cstep_within:
  assumes "cstep l c c'" "\<not> l" "within_limit n c" "0 < n"
  shows "within_limit n c'"
  using assms
proof (induction rule: cstep.induct)
  case (k_begin c i order d replacing reserved p s1)
  then show ?case using within_begin [of n c i order d reserved p s1] by simp
next
  case (k_close c now saved i expect purge)
  let ?w = "snd (closeMatching now saved i expect purge (cr_own (cy_state c)))"
  have "live_ids ?w \<subseteq> live_ids (cr_own (cy_state c)) \<and> dom (ow_sessions ?w) \<subseteq> dom (ow_sessions (cr_own (cy_state c)))"
    using close_sessions_update [of now saved i expect purge "cr_own (cy_state c)"]
  proof
    assume u: "ow_sessions ?w = (ow_sessions (cr_own (cy_state c)))(i := None)"
    then show ?thesis using live_ids_update(2) [OF u] by auto
  qed (simp add: live_ids_def live_meta_def)
  then show ?case using within_shrink [OF k_close(2)] by (simp add: on_owners_def)
next
  case (k_touch c i e dead m)
  then have "live_ids (touch_entry i m dead (cr_own (cy_state c))) \<subseteq> live_ids (cr_own (cy_state c))"
    by (auto simp: live_ids_def live_meta_def touch_entry_def split: if_splits)
  moreover have "dom (ow_sessions (touch_entry i m dead (cr_own (cy_state c)))) \<subseteq> dom (ow_sessions (cr_own (cy_state c)))"
    using k_touch(1) by (auto simp: touch_entry_def)
  ultimately show ?case using within_shrink [OF k_touch(4)] by (simp add: on_owners_def)
next
  case (k_persist c now saved m)
  then show ?case using within_shrink [OF k_persist(2), of "snd (persistNow now saved m (cr_own (cy_state c)))"]
    by (simp add: on_owners_def own_simps live_ids_def)
next
  case (k_shutdown c)
  then show ?case by (simp add: within_limit_def)
next
  case (k_abort c i replacing reserved)
  then show ?case using within_leave by blast
next
  case (k_finish c i replacing reserved)
  then show ?case using within_leave by blast
next
  case (k_insert c i replacing reserved e)
  then show ?case using within_insert by blast
next
  case (k_whole ce pid opts c i d r s1)
  then show ?case using within_whole by blast
qed

subsection \<open>Properties\<close>

text \<open>C23: a session that is created belongs to the device that created it, live and on disk, and no other
  device owned it: neither the entry it replaces nor, where none is live, the stored record. No other
  session and no other record is touched.\<close>

theorem create_owner:
  assumes c: "create ce pid opts d s = (Inr m, s')" and k: "keyed (cr_own s)" and d: "d \<noteq> []"
  shows "OwnerDeviceID m = d \<and> live_meta (cr_own s') (m_ID m) = Some m \<and>
    (ow_store (cr_own s) \<noteq> None \<longrightarrow> store_get (cr_own s') (m_ID m) = Some (to_record (ce_now ce) m)) \<and>
    (\<forall>e. ow_sessions (cr_own s) (m_ID m) = Some e \<longrightarrow> OwnerDeviceID (le_meta e) \<in> {[], d}) \<and>
    (live_meta (cr_own s) (m_ID m) = None \<longrightarrow> (\<forall>r. store_get (cr_own s) (m_ID m) = Some r \<longrightarrow> r_OwnerDeviceID r \<in> {[], d})) \<and>
    (\<forall>j. j \<noteq> m_ID m \<longrightarrow> ow_sessions (cr_own s') j = ow_sessions (cr_own s) j \<and> store_get (cr_own s') j = store_get (cr_own s) j)"
proof -
  obtain i replacing reserved p p1 opts1 st s1 w e w2 where
    a: "admit_create (ce_order ce) i d s = (Inr (replacing, reserved, p), s1)"
    and r: "resume_record d replacing p (opts\<lparr>so_LocalSessionID := i\<rparr>) (cr_own s) = Inr (p1, opts1)"
    and w: "w = snd (closeMatching (ce_now ce) (ce_closed ce) i None False (cr_own s))" and st: "st_ID st = i"
    and e: "e = create_entry ce pid d opts1 p1 st w" and m: "m = le_meta e"
    and t: "create_tail (ce_now ce) (ce_saved ce) (ce_rollback ce) e w = (Inr (), w2)" and s': "s' = unreserve reserved (s1\<lparr>cr_own := w2\<rparr>)"
    using create_done [OF c k] by metis
  have i: "m_ID m = i" "OwnerDeviceID m = d" "\<not> le_dead e" using m e st d by simp_all
  have own: "cr_own s' = w2" using s' by (simp add: unreserve_def)
  note cl = close_effect [OF k, of "ce_now ce" "ce_closed ce" i, OF prod.collapse [symmetric], folded w]
  note td = create_tail_done [OF t, folded m, unfolded i(1)]
  have "live_meta w2 i = Some m" using td(1) i(3) m by (simp add: live_meta_def)
  moreover have "ow_store (cr_own s) \<noteq> None \<longrightarrow> store_get w2 i = Some (to_record (ce_now ce) m)" using td(3) cl(4) by simp
  moreover have "ow_sessions w2 j = ow_sessions (cr_own s) j \<and> store_get w2 j = store_get (cr_own s) j" if "j \<noteq> i" for j
    using td(1,3) cl(2) cl(5) [OF that] that by simp
  moreover have "OwnerDeviceID (le_meta q) \<in> {[], d}" if "ow_sessions (cr_own s) i = Some q" for q
    using admit_checked(4) [OF a that] d by (auto simp: foreign_def)
  moreover have "r_OwnerDeviceID q \<in> {[], d}" if "live_meta (cr_own s) i = None" "store_get (cr_own s) i = Some q" for q
    using resume_checked(1) [OF r] that admit_checked(2) [OF a] d by (auto simp: foreign_def)
  ultimately show ?thesis unfolding i(1,2) own by simp
qed

definition ex_started :: "string \<Rightarrow> StartOptions \<Rightarrow> started option" where
  "ex_started agent opts = Some \<lparr>st_ID = so_LocalSessionID opts, st_AgentSessionID = agent, st_CWD = [], st_sess = 1\<rparr>"

definition ex_env :: "string list \<Rightarrow> create_env" where
  "ex_env order = \<lparr>ce_known = True, ce_order = order, ce_listed = None, ce_fresh = ''fresh'', ce_locked = True, ce_now = 9, ce_closed = Written,
     ce_start = ex_started ''agent'', ce_hist = [], ce_saved = Written, ce_rollback = Written, ce_nameSource = []\<rparr>"

definition ex_opts :: "string \<Rightarrow> StartOptions" where
  "ex_opts i = \<lparr>so_CWD = [], so_Model = [], so_Name = [], so_Agent = [], so_AgentSessionID = [], so_LocalSessionID = i, so_ThinkingLevel = [],
     so_ModeID = [], so_CollaborationModeID = [], so_PermissionProfileID = [], so_ApprovalsReviewer = [], so_ServiceTier = [], so_Personality = []\<rparr>"

definition ex_creates :: "owners \<Rightarrow> creates" where
  "ex_creates w = \<lparr>cr_own = w, cr_reserved = 0, cr_maxLive = 1, cr_shuttingDown = False\<rparr>"

lemmas create_eval = create_def create_id_def adopt_def validSessionID_def id_char_def admit_create_def live_count_def foreign_def resume_record_def
  replace_session_def launch_def closeMatching_def close_remove_def create_tail_def persistNow_def writePersist_def Save_def clearPurged_def
  clearPersistDirty_def isPurged_def unreserve_def ex_env_def ex_opts_def ex_creates_def ex_started_def store_get_def live_meta_def Let_def
  ok_write_def landed_def

lemma ex_keyed: "keyed (ex_owners d to)"
  using ex_owners_reach own_reach_inv by (auto simp: own_inv_def)

lemma ex_create: "\<exists>m s'. create (ex_env [''s'']) ''p'' (ex_opts ''s'') ''a'' (ex_creates (ex_owners d to)) = (Inr m, s') \<and> m_ID m = ''s''" if "d = [] \<or> d = ''a''"
  using that by (auto simp: create_eval own_simps closed_meta_def to_record_def split: prod.split)

theorem create_owner_witness:
  "\<exists>m s'. create (ex_env [''s'']) ''p'' (ex_opts ''s'') ''a'' (ex_creates (ex_owners ''a'' [])) = (Inr m, s') \<and>
    OwnerDeviceID m = ''a'' \<and> live_meta (cr_own s') ''s'' = Some m"
proof -
  obtain m s' where c: "create (ex_env [''s'']) ''p'' (ex_opts ''s'') ''a'' (ex_creates (ex_owners ''a'' [])) = (Inr m, s')" "m_ID m = ''s''"
    using ex_create by blast
  from create_owner [OF c(1)] ex_keyed have "OwnerDeviceID m = ''a'' \<and> live_meta (cr_own s') ''s'' = Some m"
    unfolding c(2) by (simp add: ex_creates_def)
  with c(1) show ?thesis by blast
qed

text \<open>the outcomes of a create. Whatever happens, the reservation is given back. A create that fails
  before the earlier session is closed (unknown provider, bad id, shutting down, another device's
  session, no room) changes nothing; one that fails later (the agent does not start or answers with
  another id, the record cannot be written) leaves its own session closed and touches no other session
  and no other record. Closing the earlier session never fails.\<close>

theorem create_outcome:
  assumes c: "create ce pid opts d s = (r, s')" and k: "keyed (cr_own s)"
  shows "cr_reserved s' = cr_reserved s \<and>
    (\<forall>err. r = Inl err \<longrightarrow>
      s' = s \<and> err \<in> {UnknownProvider, InvalidID, Cancelled, ShuttingDown, Forbidden, LimitReached} \<or>
      err \<in> {StartFailed, IDMismatch, PersistFailed} \<and>
      (\<exists>i. create_id ce pid opts (cr_own s) = Inr i \<and> ow_sessions (cr_own s') = (ow_sessions (cr_own s))(i := None) \<and>
         (\<forall>j. j \<noteq> i \<longrightarrow> store_get (cr_own s') j = store_get (cr_own s) j)))"
proof (cases r)
  case (Inr m)
  obtain i replacing reserved p s1 w2 where a: "admit_create (ce_order ce) i d s = (Inr (replacing, reserved, p), s1)"
    and s': "s' = unreserve reserved (s1\<lparr>cr_own := w2\<rparr>)"
    using create_done [OF c [unfolded Inr] k] by metis
  show ?thesis using unreserve_admitted(2) [OF a, of "s1\<lparr>cr_own := w2\<rparr>"] s' Inr by simp
next
  case (Inl err)
  show ?thesis
  proof (cases "ce_known ce \<and> ce_locked ce \<and> (\<exists>i q s1. create_id ce pid opts (cr_own s) = Inr i \<and> admit_create (ce_order ce) i d s = (Inr q, s1))")
    case False
    then have "s' = s \<and> err \<in> {UnknownProvider, InvalidID, Cancelled, ShuttingDown, Forbidden, LimitReached}"
      using c Inl by (auto simp: create_def create_id_def admit_create_def Let_def split: if_splits sum.splits)
    then show ?thesis using Inl by blast
  next
    case True
    then obtain i replacing reserved p s1 where i: "create_id ce pid opts (cr_own s) = Inr i" and a: "admit_create (ce_order ce) i d s = (Inr (replacing, reserved, p), s1)"
      by (metis prod_cases3)
    note ua = unreserve_admitted [OF a]
    show ?thesis
    proof (cases "resume_record d replacing p (opts\<lparr>so_LocalSessionID := i\<rparr>) (cr_own s)")
      case (Inl x)
      then have "x = Forbidden" by (auto simp: resume_record_def split: option.splits if_splits)
      then show ?thesis using c True i a Inl \<open>r = Inl err\<close> ua by (auto simp: create_def)
    next
      case (Inr y)
      then obtain p1 opts1 where y: "resume_record d replacing p (opts\<lparr>so_LocalSessionID := i\<rparr>) (cr_own s) = Inr (p1, opts1)" by (cases y) simp
      have o1: "so_LocalSessionID opts1 = i" using y by (auto simp: resume_record_def split: option.splits if_splits)
      obtain q s2 where rs: "replace_session ce pid d opts1 p1 s1 = (q, s2)" by fastforce
      then have e: "q = Inl err" "s' = unreserve reserved s2" using c True i a y ua(4) Inl by (auto simp: create_def)
      have sd: "\<not> cr_shuttingDown s1" using admit_checked(1) [OF a] ua(5) by simp
      note rf = replace_failed [OF rs [unfolded e(1)] k [folded ua(4)] sd, unfolded o1 ua(4)]
      show ?thesis using Inl i e(2) rf(1,2,3) ua(2) [OF rf(4)] ua(3) by auto
    qed
  qed
qed

theorem create_outcome_witness:
  "\<exists>err. create (ex_env [''s'']) ''p'' (ex_opts ''s'') ''b'' (ex_creates (ex_owners ''a'' [])) = (Inl err, ex_creates (ex_owners ''a'' [])) \<and>
    err \<in> {UnknownProvider, InvalidID, Cancelled, ShuttingDown, Forbidden, LimitReached}"
proof -
  obtain s' where c: "create (ex_env [''s'']) ''p'' (ex_opts ''s'') ''b'' (ex_creates (ex_owners ''a'' [])) = (Inl Forbidden, s')"
    by (simp add: create_eval own_simps split: prod.split)
  from create_outcome [OF this] ex_keyed have "s' = ex_creates (ex_owners ''a'' [])" by (auto simp: ex_creates_def)
  with c show ?thesis by blast
qed

text \<open>what a session takes over from the one it replaces or resumes: its totals and cost, the creation
  time of its record, and the source of its name when it keeps the name. Its events are numbered
  past every number the earlier session used, as far as it was recorded.\<close>

theorem create_resumes:
  assumes c: "create ce pid opts d s = (Inr m, s')" and k: "keyed (cr_own s)"
  shows "let p = prior_of (cr_own s) (m_ID m) in
    totalsOfMeta m = (case p of Some q \<Rightarrow> pr_Totals q | None \<Rightarrow> no_totals) \<and>
    m_SessionCost m = (case p of Some q \<Rightarrow> pr_Cost q | None \<Rightarrow> None) \<and>
    m_NameSource m = name_source (ce_nameSource ce) (so_Name opts) p \<and>
    (\<forall>r. ow_sessions (cr_own s) (m_ID m) = None \<longrightarrow> store_get (cr_own s) (m_ID m) = Some r \<longrightarrow> r_LastSeq r \<le> m_LastSeq m \<and>
       (r_CreatedAt r \<noteq> 0 \<longrightarrow> m_CreatedAt m = r_CreatedAt r)) \<and>
    (\<forall>e. ow_sessions (cr_own s) (m_ID m) = Some e \<longrightarrow> ow_store (cr_own s) \<noteq> None \<longrightarrow> landed (ce_closed ce) \<longrightarrow>
       le_seq e \<le> m_LastSeq m \<and> (m_CreatedAt (le_meta e) \<noteq> 0 \<longrightarrow> m_CreatedAt m = m_CreatedAt (le_meta e))) \<and>
    (ow_store (cr_own s) \<noteq> None \<longrightarrow> ce_hist ce \<noteq> [] \<longrightarrow> ev_Seq (last (ce_hist ce)) \<le> m_LastSeq m)"
proof -
  obtain i replacing reserved p p1 opts1 st s1 w e w2 where
    a: "admit_create (ce_order ce) i d s = (Inr (replacing, reserved, p), s1)"
    and r: "resume_record d replacing p (opts\<lparr>so_LocalSessionID := i\<rparr>) (cr_own s) = Inr (p1, opts1)"
    and w: "w = snd (closeMatching (ce_now ce) (ce_closed ce) i None False (cr_own s))" and st: "st_ID st = i"
    and e: "e = create_entry ce pid d opts1 p1 st w" and m: "m = le_meta e"
    using create_done [OF c k] by metis
  have i: "m_ID m = i" using m e st by simp
  note cl = close_effect [OF k, of "ce_now ce" "ce_closed ce" i, OF prod.collapse [symmetric], folded w]
  have p1: "p1 = prior_of (cr_own s) i"
    using admit_checked(3) [OF a] resume_checked(2) [OF r] by (auto simp: prior_of_def split: option.splits)
  have nm: "so_Name opts1 = so_Name opts" using resume_checked(3) [OF r] by simp
  have ls: "m_LastSeq m = prior_seq (case store_get w i of Some r \<Rightarrow> r_LastSeq r | None \<Rightarrow> 0) (if ow_store w = None then [] else ce_hist ce)"
    by (simp add: m e create_entry_def Let_def st)
  have ca: "m_CreatedAt m = (case store_get w i of Some r \<Rightarrow> if r_CreatedAt r = 0 then ce_now ce else r_CreatedAt r | None \<Rightarrow> ce_now ce)"
    by (simp add: m e create_entry_def Let_def st from_record_def split: option.split)
  have 1: "totalsOfMeta m = (case p1 of Some q \<Rightarrow> pr_Totals q | None \<Rightarrow> no_totals) \<and>
      m_SessionCost m = (case p1 of Some q \<Rightarrow> pr_Cost q | None \<Rightarrow> None) \<and> m_NameSource m = name_source (ce_nameSource ce) (so_Name opts) p1"
    by (simp add: m e create_entry_def Let_def nm)
  have 2: "r_LastSeq r \<le> m_LastSeq m \<and> (r_CreatedAt r \<noteq> 0 \<longrightarrow> m_CreatedAt m = r_CreatedAt r)"
    if "ow_sessions (cr_own s) i = None" "store_get (cr_own s) i = Some r" for r
    using cl(7) [OF that(1)] that(2) ls ca by (simp add: prior_seq_def)
  have 3: "le_seq q \<le> m_LastSeq m \<and> (m_CreatedAt (le_meta q) \<noteq> 0 \<longrightarrow> m_CreatedAt m = m_CreatedAt (le_meta q))"
    if "ow_sessions (cr_own s) i = Some q" "ow_store (cr_own s) \<noteq> None" "landed (ce_closed ce)" for q
    using cl(6) [OF that(1)] that(2,3) ls ca by (simp add: prior_seq_def to_record_def closed_meta_def le_max_iff_disj)
  have 4: "ev_Seq (last (ce_hist ce)) \<le> m_LastSeq m" if "ow_store (cr_own s) \<noteq> None" "ce_hist ce \<noteq> []"
    using that cl(4) ls by (auto simp: prior_seq_def)
  show ?thesis unfolding i Let_def p1 [symmetric] using 1 2 3 4 by blast
qed

theorem create_resumes_witness:
  "\<exists>m s'. create (ex_env [''s'']) ''p'' (ex_opts ''s'') ''a'' (ex_creates (ex_owners ''a'' [])) = (Inr m, s') \<and> m_CreatedAt m = 1"
proof -
  obtain m s' where c: "create (ex_env [''s'']) ''p'' (ex_opts ''s'') ''a'' (ex_creates (ex_owners ''a'' [])) = (Inr m, s')" "m_ID m = ''s''"
    using ex_create by blast
  from create_resumes [OF c(1)] ex_keyed have "m_CreatedAt m = 1"
    unfolding c(2) by (simp add: ex_creates_def ex_env_def landed_def own_simps Let_def) (simp add: ex_meta_def)
  with c(1) show ?thesis by blast
qed

text \<open>C33: creating a session does not look at a handoff. When the owner has released a session to one
  device, any other device that names the session's id in a create takes it over, with the handoff
  gone, although claiming it is forbidden to that device.\<close>

theorem create_takes_handoff:
  assumes live: "live_meta (cr_own s) i = Some m0" and rel: "OwnerDeviceID m0 = []" "PendingHandoffTo m0 = b" "b \<noteq> []" "b \<noteq> d" "d \<noteq> []"
    and run: "\<not> cr_shuttingDown s" "keyed (cr_own s)" "validSessionID i" "so_LocalSessionID opts = i"
    and env: "ce_known ce" "ce_locked ce" "\<forall>q. so_LocalSessionID q = i \<longrightarrow> (\<exists>st. ce_start ce q = Some st \<and> st_ID st = i)" "ok_write (ce_saved ce)"
  shows "claim_check i d (cr_own s) = Inl ErrForbidden \<and>
    (\<exists>m s'. create ce pid opts d s = (Inr m, s') \<and> m_ID m = i \<and> OwnerDeviceID m = d \<and> PendingHandoffTo m = [] \<and>
       live_meta (cr_own s') i = Some m)"
proof -
  have "claim_check i d (cr_own s) = Inl ErrForbidden" using live rel by (simp add: claim_check_def)
  moreover obtain e where e: "ow_sessions (cr_own s) i = Some e" "\<not> le_dead e" "m0 = le_meta e" using live by (rule live_metaE)
  have i: "i \<noteq> []" using run(3) by (simp add: validSessionID_def)
  let ?p = "Some (prior_of_meta m0)"
  have id: "create_id ce pid opts (cr_own s) = Inr i" using run(3,4) i by (simp add: create_id_def adopt_def)
  have ad: "admit_create (ce_order ce) i d s = (Inr (True, False, ?p), s)"
    using run(1) e rel by (simp add: admit_create_def foreign_def)
  define opts1 where "opts1 = (case store_get (cr_own s) i of None \<Rightarrow> opts | Some r \<Rightarrow> fill_options r opts)"
  have o1: "so_LocalSessionID opts1 = i" using run(4) by (simp add: opts1_def split: option.split)
  have oi: "opts\<lparr>so_LocalSessionID := i\<rparr> = opts" using run(4) by simp
  have re: "resume_record d True ?p opts (cr_own s) = Inr (?p, opts1)" using run(4) by (simp add: resume_record_def opts1_def split: option.split)
  obtain st where st: "ce_start ce opts1 = Some st" "st_ID st = i" using env(3) o1 by blast
  obtain r w where cl: "closeMatching (ce_now ce) (ce_closed ce) i None False (cr_own s) = (r, w)" by fastforce
  have r: "r = Inr () \<or> r = Inl ErrNotLive" using close_effect(1) [OF run(2) cl] .
  let ?e = "create_entry ce pid d opts1 ?p st w"
  let ?w = "clearPurged i (w\<lparr>ow_sessions := (ow_sessions w)(i \<mapsto> ?e)\<rparr>)"
  have "fst (persistNow (ce_now ce) (ce_saved ce) (le_meta ?e) ?w)" using env(4) by (simp add: persistNow_fails)
  then obtain w2 where "persistNow (ce_now ce) (ce_saved ce) (le_meta ?e) ?w = (True, w2)" by (cases "persistNow (ce_now ce) (ce_saved ce) (le_meta ?e) ?w") auto
  then have t: "create_tail (ce_now ce) (ce_saved ce) (ce_rollback ce) ?e w = (Inr (), w2)" by (simp add: create_tail_def Let_def st(2))
  have la: "launch ce pid d opts1 ?p st (s\<lparr>cr_own := w\<rparr>) = (Inr (le_meta ?e), s\<lparr>cr_own := w2\<rparr>)" using t o1 st(2) run(1) by (simp add: launch_def Let_def)
  then have "replace_session ce pid d opts1 ?p s = (Inr (le_meta ?e), s\<lparr>cr_own := w2\<rparr>)" using cl r st(1) o1 by (auto simp: replace_session_def)
  then have "create ce pid opts d s = (Inr (le_meta ?e), s\<lparr>cr_own := w2\<rparr>)" using env(1,2) id ad oi re by (simp add: create_def unreserve_def)
  moreover have "live_meta w2 i = Some (le_meta ?e)" using create_tail_done(1) [OF t] st(2) by (simp add: live_meta_def)
  ultimately show ?thesis using st(2) rel(5) by simp
qed

theorem create_takes_handoff_witness:
  "claim_check ''s'' ''c'' (ex_owners [] ''b'') = Inl ErrForbidden \<and>
    (\<exists>m s'. create (ex_env [''s'']) ''p'' (ex_opts ''s'') ''c'' (ex_creates (ex_owners [] ''b'')) = (Inr m, s') \<and> OwnerDeviceID m = ''c'')"
proof -
  let ?s = "ex_creates (ex_owners [] ''b'')"
  have "live_meta (cr_own ?s) ''s'' = Some (ex_meta [] ''b'')" by (simp add: ex_creates_def own_simps)
  from create_takes_handoff [OF this, of "''b''" "''c''" "ex_opts ''s''" "ex_env [''s'']" "''p''"] ex_keyed [of "[]" "''b''"]
  show ?thesis by (auto simp: ex_creates_def own_simps ex_opts_def ex_env_def ex_started_def validSessionID_def id_char_def ok_write_def)
qed

text \<open>C24: the limit on live sessions. However creates of several sessions overlap with one another and with
  sessions that close or die, and whichever of them fail, there are never more live sessions than the
  limit, as long as no create that replaces a live session overlaps with others; such a create may
  still run on its own. When no create is in flight, no slot is reserved.\<close>

theorem live_limit:
  assumes "cstart n c0" "0 < n" "(cstep False)\<^sup>*\<^sup>* c0 c" "ranges order (ow_sessions (cr_own (cy_state c)))"
  shows "live_count order (cr_own (cy_state c)) \<le> n \<and> (cy_flights c = Map.empty \<longrightarrow> cr_reserved (cy_state c) = 0)"
proof -
  have "within_limit n c0" using assms(1)
    by (auto simp: within_limit_def cstart_def live_ids_def live_meta_def waiting_ids_def reserved_ids_def)
  from assms(3) this have "within_limit n c"
  proof (induction rule: rtranclp_induct)
    case (step y z)
    then show ?case using cstep_within [of False y z n] assms(2) by blast
  qed simp
  then show ?thesis using live_count_card [OF assms(4)] by (auto simp: within_limit_def)
qed

definition no_owners :: owners where
  "no_owners = \<lparr>ow_sessions = Map.empty, ow_store = Some Map.empty, ow_purged = {}, ow_purgedOrder = [], ow_dirty = {}\<rparr>"

definition ex_entry :: "string \<Rightarrow> live_entry" where
  "ex_entry i = \<lparr>le_meta = zero_meta\<lparr>m_ID := i\<rparr>, le_sess = 0, le_seq = 0, le_dead = False\<rparr>"

text \<open>A session is created, section by section.\<close>

definition ex_system :: "(string \<rightharpoonup> live_entry) \<Rightarrow> nat \<Rightarrow> (string \<rightharpoonup> bool \<times> bool \<times> bool) \<Rightarrow> csys" where
  "ex_system ss n fl = \<lparr>cy_state = (ex_creates (no_owners\<lparr>ow_sessions := ss\<rparr>))\<lparr>cr_reserved := n\<rparr>, cy_flights = fl\<rparr>"

lemma ex_begin:
  assumes "fl i = None" "ranges order ss" "ss i = None" "filter (\<lambda>j. live_meta (no_owners\<lparr>ow_sessions := ss\<rparr>) j \<noteq> None) order = []" "n = 0"
  shows "cstep False (ex_system ss n fl) (ex_system ss 1 (fl(i \<mapsto> (False, True, False))))"
  using k_begin [of "ex_system ss n fl" i order "''a''" False True None "(ex_creates (no_owners\<lparr>ow_sessions := ss\<rparr>))\<lparr>cr_reserved := 1\<rparr>"] assms
  by (simp add: ex_system_def ex_creates_def admit_create_def live_count_def)

lemma ex_insert:
  assumes "fl i = Some (replacing, reserved, False)"
  shows "cstep False (ex_system ss n fl) (ex_system (ss(i \<mapsto> ex_entry i)) n (fl(i \<mapsto> (replacing, reserved, True))))"
  using k_insert [of "ex_system ss n fl" i replacing reserved "ex_entry i"] assms
  by (simp add: ex_system_def ex_creates_def ex_entry_def on_owners_def insert_entry_def clearPurged_def no_owners_def)

lemma ex_finish:
  assumes "fl i = Some (False, True, True)"
  shows "cstep False (ex_system ss n fl) (ex_system ss (n - 1) (fl(i := None)))"
  using k_finish [of "ex_system ss n fl" i False True] assms by (simp add: ex_system_def ex_creates_def unreserve_def)

lemma ex_one:
  "(cstep False)\<^sup>*\<^sup>* (ex_system Map.empty 0 Map.empty) (ex_system [''s'' \<mapsto> ex_entry ''s''] 0 Map.empty)"
proof -
  have "cstep False (ex_system Map.empty 0 Map.empty) (ex_system Map.empty 1 [''s'' \<mapsto> (False, True, False)])"
    using ex_begin [of Map.empty "''s''" "[]" Map.empty 0] by (simp add: ranges_def)
  moreover have "cstep False (ex_system Map.empty 1 [''s'' \<mapsto> (False, True, False)]) (ex_system [''s'' \<mapsto> ex_entry ''s''] 1 [''s'' \<mapsto> (False, True, True)])"
    using ex_insert [of "[''s'' \<mapsto> (False, True, False)]" "''s''" False True Map.empty 1] by simp
  moreover have "cstep False (ex_system [''s'' \<mapsto> ex_entry ''s''] 1 [''s'' \<mapsto> (False, True, True)]) (ex_system [''s'' \<mapsto> ex_entry ''s''] 0 Map.empty)"
    using ex_finish [of "[''s'' \<mapsto> (False, True, True)]" "''s''" "[''s'' \<mapsto> ex_entry ''s'']" 1] by simp
  ultimately show ?thesis by (meson converse_rtranclp_into_rtranclp rtranclp.rtrancl_refl)
qed

theorem live_limit_witness:
  "live_count [''s''] (cr_own (cy_state (ex_system [''s'' \<mapsto> ex_entry ''s''] 0 Map.empty))) \<le> 1"
  using live_limit [OF _ _ ex_one, of 1 "[''s'']"] by (simp add: cstart_def ex_system_def ex_creates_def no_owners_def ranges_def)

text \<open>a create that replaces a live session reserves no slot. The live session it closes frees one, which
  another create may take before the replacement is inserted: with a limit of one session there are
  then two.\<close>

theorem replace_exceeds_limit:
  "\<exists>c. cany\<^sup>*\<^sup>* (ex_system Map.empty 0 Map.empty) c \<and> cr_maxLive (cy_state c) = 1 \<and>
    ranges [''s'', ''t''] (ow_sessions (cr_own (cy_state c))) \<and> live_count [''s'', ''t''] (cr_own (cy_state c)) = 2"
proof -
  let ?s = "[''s'' \<mapsto> ex_entry ''s'']" let ?R = "(True, False, False)"
  let ?c1 = "ex_system ?s 0 Map.empty" let ?c2 = "ex_system ?s 0 [''s'' \<mapsto> ?R]" let ?c3 = "ex_system Map.empty 0 [''s'' \<mapsto> ?R]"
  let ?c4 = "ex_system Map.empty 1 [''s'' \<mapsto> ?R, ''t'' \<mapsto> (False, True, False)]"
  let ?c5 = "ex_system ?s 1 [''s'' \<mapsto> (True, False, True), ''t'' \<mapsto> (False, True, False)]"
  let ?c6 = "ex_system [''s'' \<mapsto> ex_entry ''s'', ''t'' \<mapsto> ex_entry ''t''] 1 [''s'' \<mapsto> (True, False, True), ''t'' \<mapsto> (False, True, True)]"
  have "(cstep False)\<^sup>*\<^sup>* (ex_system Map.empty 0 Map.empty) ?c1" by (rule ex_one)
  then have "cany\<^sup>*\<^sup>* (ex_system Map.empty 0 Map.empty) ?c1" by (rule mono_rtranclp [rule_format, rotated]) (auto simp: cany_def)
  moreover have "cany ?c1 ?c2"
    using k_begin [of ?c1 "''s''" "[''s'']" "''a''" True False "Some (prior_of_meta (le_meta (ex_entry ''s'')))" "cy_state ?c1"]
    unfolding cany_def by (auto simp: ex_system_def ex_creates_def admit_create_def ranges_def ex_entry_def foreign_def zero_meta_def)
  moreover have "cany ?c2 ?c3"
    using k_close [of ?c2 1 NotWritten "''s''" None False]
    unfolding cany_def by (auto simp: ex_system_def ex_creates_def on_owners_def closeMatching_def close_remove_def no_owners_def clearPersistDirty_def persistNow_def writePersist_def Save_def isPurged_def closed_meta_def ex_entry_def landed_def)
  moreover have "cany ?c3 ?c4"
    using ex_begin [of "[''s'' \<mapsto> ?R]" "''t''" "[]" Map.empty 0] unfolding cany_def by (auto simp: ranges_def)
  moreover have "cany ?c4 ?c5" using ex_insert [of "[''s'' \<mapsto> ?R, ''t'' \<mapsto> (False, True, False)]" "''s''" True False Map.empty 1] unfolding cany_def by (auto simp: fun_upd_twist)
  moreover have "cany ?c5 ?c6" using ex_insert [of "[''s'' \<mapsto> (True, False, True), ''t'' \<mapsto> (False, True, False)]" "''t''" False True ?s 1] unfolding cany_def by auto
  ultimately have "cany\<^sup>*\<^sup>* (ex_system Map.empty 0 Map.empty) ?c6" by (meson rtranclp.rtrancl_into_rtrancl)
  moreover have "cr_maxLive (cy_state ?c6) = 1" "ranges [''s'', ''t''] (ow_sessions (cr_own (cy_state ?c6)))" "live_count [''s'', ''t''] (cr_own (cy_state ?c6)) = 2"
    by (auto simp: ex_system_def ex_creates_def no_owners_def ranges_def live_count_def live_meta_def ex_entry_def)
  ultimately show ?thesis by blast
qed

end
