(* ===== verification/ToolOutput.thy ===== *)
theory ToolOutput
  imports GoText Event Ownership
begin

text \<open>
  What a phone is shown of a tool's output and what it can fetch: \<open>Clip\<close> and \<open>Line\<close> of
  \<open>internal/provider/output/output.go\<close>, and the store of whole outputs of
  \<open>internal/session/tooloutput.go\<close>.

  The loop of \<open>put\<close> that evicts the oldest output drops the head of \<open>order\<close>; were that
  head not in the map it would run for ever, so the loop is a partial function and that it returns is
  a theorem about the store's invariant.
\<close>

subsection \<open>Bounding text\<close>

definition MaxToolShown :: nat where "MaxToolShown = 8000"

definition newline :: char where "newline = CHR 0x0A"

definition trim_set :: string where "trim_set = [CHR '' '', CHR 0x09, CHR 0x0D, CHR 0x0A]"

definition Ellipsis :: string where "Ellipsis = [CHR 0xE2, CHR 0x80, CHR 0xA6]"

definition Truncated :: string where "Truncated = newline # Ellipsis @ ''[truncated]''"

text \<open>\<open>for cut > 0 && !utf8.RuneStart(s[cut]) { cut-- }\<close>\<close>

fun rune_back :: "string \<Rightarrow> nat \<Rightarrow> nat" where
  "rune_back s 0 = 0"
| "rune_back s (Suc n) = (if RuneStart (s ! Suc n) then Suc n else rune_back s n)"

definition clip_at :: "string \<Rightarrow> nat \<Rightarrow> nat" where
  "clip_at s mx =
    (case LastIndexByte newline (take (mx + 1) s) of
       None \<Rightarrow> rune_back s mx
     | Some i \<Rightarrow> if i < mx div 2 then rune_back s mx else i)"

definition Clip :: "string \<Rightarrow> int \<Rightarrow> string \<times> bool" where
  "Clip s mx =
    (let t = TrimRight_set trim_set s in
     if mx \<le> 0 \<or> int (length t) \<le> mx then (t, False)
     else (TrimRight_set trim_set (take (clip_at t (nat mx)) t) @ Truncated, True))"

definition Line :: "string \<Rightarrow> int \<Rightarrow> string" where
  "Line s mx =
    (let t = dropWhile (\<lambda>c. c \<in> set trim_set) s;
         first = TrimSpace (takeWhile (\<lambda>c. c \<noteq> newline) t);
         rest = drop 1 (dropWhile (\<lambda>c. c \<noteq> newline) t) in
     if 0 < mx \<and> mx < int (length first) then
       TrimRight_set [CHR '' '', CHR 0x09] (take (rune_back first (nat mx)) first) @ Ellipsis
     else if TrimSpace rest \<noteq> [] then first @ Ellipsis
     else first)"

subsection \<open>The store of whole outputs\<close>

record toolOutput =
  to_text :: string
  to_diffs :: "ToolDiff list"

definition diff_size :: "ToolDiff \<Rightarrow> nat" where
  "diff_size d = length (td_Path d) + length (td_OldText d) + length (td_NewText d)"

definition output_size :: "toolOutput \<Rightarrow> nat" where
  "output_size out = length (to_text out) + sum_list (map diff_size (to_diffs out))"

record toolOutputs =
  byID :: "string \<rightharpoonup> toolOutput"
  order :: "string list"
  bytes :: int

definition no_outputs :: toolOutputs where
  "no_outputs = \<lparr>byID = Map.empty, order = [], bytes = 0\<rparr>"

definition maxToolOutputBytes :: int where "maxToolOutputBytes = 8388608"

definition outputs_drop :: "string \<Rightarrow> toolOutputs \<Rightarrow> toolOutputs" where
  "outputs_drop i s =
    (case byID s i of
       None \<Rightarrow> s
     | Some out \<Rightarrow> s\<lparr>byID := (byID s)(i := None), bytes := bytes s - int (output_size out), order := remove1 i (order s)\<rparr>)"

partial_function (option) evict_oldest :: "toolOutputs \<Rightarrow> toolOutputs option" where
  "evict_oldest s =
    (if maxToolOutputBytes < bytes s \<and> 1 < length (order s) then evict_oldest (outputs_drop (hd (order s)) s)
     else Some s)"

definition outputs_put :: "string \<Rightarrow> toolOutput \<Rightarrow> toolOutputs \<Rightarrow> toolOutputs option" where
  "outputs_put i out s =
    (let s1 = outputs_drop i s in
     evict_oldest (s1\<lparr>byID := (byID s1)(i \<mapsto> out), order := order s1 @ [i], bytes := bytes s1 + int (output_size out)\<rparr>))"


subsection \<open>Cutting an event\<close>

definition cutDiffText :: "string \<Rightarrow> string \<times> bool" where
  "cutDiffText s = (if length s \<le> MaxToolShown then (s, False) else Clip s (int MaxToolShown))"

definition cut_diff :: "ToolDiff \<Rightarrow> ToolDiff" where
  "cut_diff d = \<lparr>td_Path = td_Path d, td_OldText = fst (cutDiffText (td_OldText d)), td_NewText = fst (cutDiffText (td_NewText d))\<rparr>"

definition diff_cut :: "ToolDiff \<Rightarrow> bool" where
  "diff_cut d \<longleftrightarrow> snd (cutDiffText (td_OldText d)) \<or> snd (cutDiffText (td_NewText d))"

definition whole_output :: "event \<Rightarrow> toolOutput" where
  "whole_output ev = \<lparr>to_text = TrimRight_set trim_set (ev_Text ev), to_diffs = ev_Diffs ev\<rparr>"

definition event_cut :: "event \<Rightarrow> bool" where
  "event_cut ev \<longleftrightarrow> snd (Clip (ev_Text ev) (int MaxToolShown)) \<or> list_ex diff_cut (ev_Diffs ev)"

definition shown_event :: "event \<Rightarrow> event" where
  "shown_event ev = ev\<lparr>ev_Text := fst (Clip (ev_Text ev) (int MaxToolShown)), ev_Diffs := map cut_diff (ev_Diffs ev)\<rparr>"

definition cutToolEventLocked :: "event \<Rightarrow> toolOutputs \<Rightarrow> (event \<times> toolOutputs) option" where
  "cutToolEventLocked ev s =
    (if ev_Type ev \<noteq> TypeToolCall \<and> ev_Type ev \<noteq> TypeToolUpdate then Some (ev, s)
     else if event_cut ev \<and> ev_ToolID ev \<noteq> [] then
       map_option (Pair ((shown_event ev)\<lparr>ev_Truncated := True\<rparr>)) (outputs_put (ev_ToolID ev) (whole_output ev) s)
     else if ev_Text ev \<noteq> [] \<or> ev_Diffs ev \<noteq> [] then Some (shown_event ev, outputs_drop (ev_ToolID ev) s)
     else Some (shown_event ev, s))"



subsection \<open>UTF-8\<close>

text \<open>\<open>utf8.ValidString\<close>: the lead byte gives the length of an encoding and, with the second
  byte's range, rules out overlong forms, surrogates and runes above U+10FFFF.\<close>

definition rune_len :: "char \<Rightarrow> nat" where
  "rune_len c =
    (let b = byte_of c in
     if b < 128 then 1 else if 194 \<le> b \<and> b < 224 then 2 else if 224 \<le> b \<and> b < 240 then 3
     else if 240 \<le> b \<and> b < 245 then 4 else 0)"

definition cont_byte :: "char \<Rightarrow> bool" where
  "cont_byte c \<longleftrightarrow> 128 \<le> byte_of c \<and> byte_of c < 192"

definition second_ok :: "char \<Rightarrow> char \<Rightarrow> bool" where
  "second_ok a b \<longleftrightarrow> cont_byte b \<and>
    (byte_of a = 224 \<longrightarrow> 160 \<le> byte_of b) \<and> (byte_of a = 237 \<longrightarrow> byte_of b < 160) \<and>
    (byte_of a = 240 \<longrightarrow> 144 \<le> byte_of b) \<and> (byte_of a = 244 \<longrightarrow> byte_of b < 144)"

definition rune_rest :: "char \<Rightarrow> string \<Rightarrow> bool" where
  "rune_rest a cs \<longleftrightarrow> list_all cont_byte cs \<and> (cs \<noteq> [] \<longrightarrow> second_ok a (hd cs))"

fun utf8_valid :: "string \<Rightarrow> bool" where
  "utf8_valid [] \<longleftrightarrow> True"
| "utf8_valid (c # cs) \<longleftrightarrow>
    rune_len c \<noteq> 0 \<and> rune_len c - 1 \<le> length cs \<and> rune_rest c (take (rune_len c - 1) cs) \<and>
    utf8_valid (drop (rune_len c - 1) cs)"

lemma RuneStart_cont: "RuneStart c \<longleftrightarrow> \<not> cont_byte c"
  by (simp add: RuneStart_def cont_byte_def)

lemma utf8_valid_append: "utf8_valid a \<Longrightarrow> utf8_valid b \<Longrightarrow> utf8_valid (a @ b)"
  by (induction a rule: utf8_valid.induct) auto

text \<open>A valid string cut where a rune starts stays valid.\<close>

lemma utf8_valid_take:
  assumes "utf8_valid s" "k = length s \<or> k < length s \<and> RuneStart (s ! k)"
  shows "utf8_valid (take k s)"
  using assms
proof (induction s arbitrary: k rule: utf8_valid.induct)
  case 1
  then show ?case by simp
next
  case (2 c cs)
  define n where "n = rune_len c - 1"
  have n: "rune_len c \<noteq> 0" "n \<le> length cs" "rune_rest c (take n cs)" "utf8_valid (drop n cs)"
    using "2.prems"(1) by (simp_all add: n_def)
  show ?case
  proof (cases k)
    case 0
    then show ?thesis by simp
  next
    case (Suc j)
    have "n \<le> j"
    proof (rule ccontr)
      assume "\<not> n \<le> j"
      then have "j < n" "k \<noteq> length (c # cs)" using n(2) Suc by auto
      then have "RuneStart (cs ! j)" using "2.prems"(2) Suc by simp
      moreover have "cont_byte (take n cs ! j)"
        using n(2,3) \<open>j < n\<close> by (simp add: rune_rest_def list_all_length)
      ultimately show False using \<open>j < n\<close> by (simp add: RuneStart_cont)
    qed
    then have "j - n = length (drop n cs) \<or> j - n < length (drop n cs) \<and> RuneStart (drop n cs ! (j - n))"
      using "2.prems"(2) Suc n(2) by auto
    then have "utf8_valid (take (j - n) (drop n cs))" using "2.IH" n(4) unfolding n_def by blast
    with n Suc \<open>n \<le> j\<close> show ?thesis by (auto simp: n_def drop_take min_def)
  qed
qed

lemma TrimRight_set_take:
  "\<exists>k. TrimRight_set cs s = take k s \<and> (k = length s \<or> k < length s \<and> s ! k \<in> set cs)"
proof -
  obtain rest where r: "s = TrimRight_set cs s @ rest" "set rest \<subseteq> set cs"
    using TrimRight_set_prefix by blast
  let ?k = "length (TrimRight_set cs s)"
  have "rest = [] \<or> (?k < length s \<and> s ! ?k = hd rest \<and> hd rest \<in> set rest)"
    using r(1) by (cases rest) (metis, metis (no_types, lifting) length_append length_greater_0_conv less_add_same_cancel1 list.sel(1) list.set_intros(1) nth_append_length)
  with r show ?thesis by (metis append_Nil2 append_eq_conv_conj subsetD)
qed

lemma trim_set_RuneStart: "c \<in> set trim_set \<Longrightarrow> RuneStart c"
  by (auto simp: trim_set_def RuneStart_def byte_of_def)

lemma utf8_valid_TrimRight: "utf8_valid s \<Longrightarrow> utf8_valid (TrimRight_set trim_set s)"
  using TrimRight_set_take [of trim_set s] utf8_valid_take trim_set_RuneStart by metis

lemma utf8_valid_Truncated: "utf8_valid Truncated"
  by code_simp

subsection \<open>Clipping\<close>

lemma LastIndexByte_nth: "LastIndexByte d s = Some i \<Longrightarrow> i < length s \<and> s ! i = d \<and> (\<forall>j. i < j \<longrightarrow> j < length s \<longrightarrow> s ! j \<noteq> d)"
proof (induction s arbitrary: i)
  case Nil
  then show ?case by simp
next
  case (Cons c s)
  show ?case
  proof (cases "LastIndexByte d s")
    case None
    then have "d \<notin> set s" by (simp add: LastIndexByte_None)
    with Cons.prems None show ?thesis by (auto simp: nth_Cons split: if_splits nat.splits)
  next
    case (Some k)
    with Cons show ?thesis by (auto simp: nth_Cons split: nat.splits)
  qed
qed

lemma rune_back_le: "rune_back s n \<le> n"
  by (induction n) auto

lemma rune_back_start: "rune_back s n = 0 \<or> RuneStart (s ! rune_back s n)"
  by (induction n) auto

lemma rune_back_greatest: "rune_back s n < j \<Longrightarrow> j \<le> n \<Longrightarrow> \<not> RuneStart (s ! j)"
  by (induction n) (auto split: if_splits simp: le_Suc_eq)

text \<open>Where a text of more than \<open>mx\<close> bytes is cut: at the last line break within the budget, or,
  when that leaves less than half of it, at the last rune boundary.\<close>

definition last_break :: "string \<Rightarrow> nat \<Rightarrow> nat \<Rightarrow> bool" where
  "last_break s mx i \<longleftrightarrow> i \<le> mx \<and> s ! i = newline \<and> (\<forall>j. i < j \<longrightarrow> j \<le> mx \<longrightarrow> s ! j \<noteq> newline)"

definition last_boundary :: "string \<Rightarrow> nat \<Rightarrow> nat \<Rightarrow> bool" where
  "last_boundary s mx i \<longleftrightarrow> i \<le> mx \<and> (i = 0 \<or> RuneStart (s ! i)) \<and> (\<forall>j. i < j \<longrightarrow> j \<le> mx \<longrightarrow> \<not> RuneStart (s ! j))"

lemma rune_back_boundary: "last_boundary s mx (rune_back s mx)"
  using rune_back_le rune_back_start rune_back_greatest by (auto simp: last_boundary_def)

lemma clip_at_cases:
  assumes "mx < length s"
  shows "mx div 2 \<le> clip_at s mx \<and> last_break s mx (clip_at s mx) \<or>
    (\<forall>i. mx div 2 \<le> i \<longrightarrow> i \<le> mx \<longrightarrow> s ! i \<noteq> newline) \<and> last_boundary s mx (clip_at s mx)"
proof (cases "LastIndexByte newline (take (mx + 1) s)")
  case None
  then have "s ! i \<noteq> newline" if "i \<le> mx" for i
    using that assms LastIndexByte_None [of newline "take (mx + 1) s"] by (force simp: in_set_conv_nth)
  with None show ?thesis by (simp add: clip_at_def rune_back_boundary)
next
  case (Some i)
  from LastIndexByte_nth [OF Some] assms
  have i: "i \<le> mx" "s ! i = newline" "\<And>j. i < j \<Longrightarrow> j \<le> mx \<Longrightarrow> s ! j \<noteq> newline" by auto
  show ?thesis
  proof (cases "i < mx div 2")
    case True
    with Some i show ?thesis by (auto simp: clip_at_def rune_back_boundary)
  next
    case False
    with Some i show ?thesis by (simp add: clip_at_def last_break_def)
  qed
qed

lemma newline_RuneStart: "RuneStart newline"
  by (simp add: newline_def RuneStart_def byte_of_def)

lemma clip_at_le: "mx < length s \<Longrightarrow> clip_at s mx \<le> mx"
  using clip_at_cases [of mx s] by (auto simp: last_break_def last_boundary_def)

lemma clip_at_start: "mx < length s \<Longrightarrow> clip_at s mx = 0 \<or> RuneStart (s ! clip_at s mx)"
  using clip_at_cases [of mx s] newline_RuneStart by (auto simp: last_break_def last_boundary_def)

lemma length_TrimRight_set: "length (TrimRight_set cs s) \<le> length s"
  using TrimRight_set_take [of cs s] by auto

lemma TrimRight_set_idem: "TrimRight_set cs (TrimRight_set cs s) = TrimRight_set cs s"
  by (simp add: TrimRight_set_def)

lemma Clip_uncut: "snd (Clip s mx) = False \<Longrightarrow> fst (Clip s mx) = TrimRight_set trim_set s"
  by (auto simp: Clip_def Let_def split: if_splits)

lemma Clip_cut_iff: "snd (Clip s mx) \<longleftrightarrow> 0 < mx \<and> mx < int (length (TrimRight_set trim_set s))"
  by (auto simp: Clip_def Let_def)

lemma length_Truncated: "length Truncated = 15"
  by (simp add: Truncated_def Ellipsis_def)

lemma utf8_valid_Clip: "utf8_valid s \<Longrightarrow> utf8_valid (fst (Clip s mx))"
proof -
  assume v: "utf8_valid s"
  let ?t = "TrimRight_set trim_set s"
  have "utf8_valid (take (clip_at ?t (nat mx)) ?t)" if "nat mx < length ?t"
    using utf8_valid_TrimRight [OF v] clip_at_start [OF that] clip_at_le [OF that] that
    by (cases "clip_at ?t (nat mx) = 0") (auto intro: utf8_valid_take)
  then show ?thesis
    using utf8_valid_TrimRight [OF v] by (auto simp: Clip_def Let_def intro!: utf8_valid_append utf8_valid_TrimRight utf8_valid_Truncated)
qed

text \<open>C30: what \<open>Clip\<close> returns, for every text and bound. Within the bound it is the text without its
  trailing white space. Over it, it is a prefix followed by the marker, at most 15 bytes longer than the
  bound; the prefix ends before the last line break of the budget, or, when no line break lies in the
  budget's second half, before the last rune boundary. Valid UTF-8 stays valid UTF-8.\<close>

theorem clip_correct:
  "let t = TrimRight_set trim_set s; (r, over) = Clip s mx in
    over = (0 < mx \<and> mx < int (length t)) \<and> (utf8_valid s \<longrightarrow> utf8_valid r) \<and>
    (if \<not> over then r = t
     else int (length r) \<le> mx + 15 \<and>
       (\<exists>i. r = TrimRight_set trim_set (take i t) @ Truncated \<and>
         (nat mx div 2 \<le> i \<and> last_break t (nat mx) i \<or>
          (\<forall>j. nat mx div 2 \<le> j \<longrightarrow> j \<le> nat mx \<longrightarrow> t ! j \<noteq> newline) \<and> last_boundary t (nat mx) i)))"
proof -
  define t where "t = TrimRight_set trim_set s"
  define i where "i = clip_at t (nat mx)"
  show ?thesis
  proof (cases "snd (Clip s mx)")
    case False
    then show ?thesis using Clip_uncut [of s mx] Clip_cut_iff [of s mx] utf8_valid_Clip [of s mx]
      by (auto simp: split_beta Let_def)
  next
    case True
    then have b: "0 < mx" "nat mx < length t" by (auto simp: Clip_cut_iff t_def)
    then have r: "fst (Clip s mx) = TrimRight_set trim_set (take i t) @ Truncated"
      by (auto simp: Clip_def Let_def t_def i_def)
    have "length (TrimRight_set trim_set (take i t)) \<le> nat mx"
      using length_TrimRight_set [of trim_set "take i t"] clip_at_le [OF b(2)] by (simp add: i_def)
    then have "int (length (fst (Clip s mx))) \<le> mx + 15" using r b(1) by (simp add: length_Truncated)
    with True r b clip_at_cases [OF b(2)] utf8_valid_Clip [of s mx] show ?thesis
      by (auto simp: split_beta Let_def Clip_cut_iff t_def i_def intro!: exI [of _ "clip_at (TrimRight_set trim_set s) (nat mx)"])
  qed
qed

theorem clip_correct_witness:
  "Clip (''ab'' @ [newline] @ ''cdefg'' @ [newline, newline]) 5 = (''ab'' @ Truncated, True) \<and>
   utf8_valid (fst (Clip (''ab'' @ [newline] @ ''cdefg'' @ [newline, newline]) 5))"
proof -
  have c: "Clip (''ab'' @ [newline] @ ''cdefg'' @ [newline, newline]) 5 = (''ab'' @ Truncated, True)" by code_simp
  have "utf8_valid (''ab'' @ [newline] @ ''cdefg'' @ [newline, newline])" by code_simp
  with c clip_correct [of "''ab'' @ [newline] @ ''cdefg'' @ [newline, newline]" 5] show ?thesis
    by (simp add: Let_def split_beta)
qed

subsection \<open>The store\<close>

definition size_in :: "(string \<rightharpoonup> toolOutput) \<Rightarrow> string \<Rightarrow> nat" where
  "size_in m i = (case m i of Some out \<Rightarrow> output_size out | None \<Rightarrow> 0)"

definition sizes_in :: "(string \<rightharpoonup> toolOutput) \<Rightarrow> string list \<Rightarrow> nat" where
  "sizes_in m is = sum_list (map (size_in m) is)"

definition outputs_ok :: "toolOutputs \<Rightarrow> bool" where
  "outputs_ok s \<longleftrightarrow> distinct (order s) \<and> set (order s) = dom (byID s) \<and> bytes s = int (sizes_in (byID s) (order s))"

lemma sizes_in_simps [simp]:
  "sizes_in m [] = 0" "sizes_in m (i # is) = size_in m i + sizes_in m is"
  "sizes_in m (is @ js) = sizes_in m is + sizes_in m js"
  by (simp_all add: sizes_in_def)

lemma sizes_in_upd [simp]: "i \<notin> set is \<Longrightarrow> sizes_in (m(i := v)) is = sizes_in m is"
  by (induction "is") (auto simp: size_in_def)

lemma sizes_in_remove1: "i \<in> set is \<Longrightarrow> sizes_in m is = size_in m i + sizes_in m (remove1 i is)"
  by (induction "is") auto

lemma no_outputs_ok: "outputs_ok no_outputs"
  by (simp add: outputs_ok_def no_outputs_def)

lemma outputs_drop_byID: "byID (outputs_drop i s) = (byID s)(i := None)"
  by (auto simp: outputs_drop_def split: option.splits)

lemma outputs_drop_order: "outputs_ok s \<Longrightarrow> order (outputs_drop i s) = remove1 i (order s)"
  by (auto simp: outputs_drop_def outputs_ok_def domIff remove1_idem split: option.splits)

lemma outputs_drop_ok:
  assumes ok: "outputs_ok s"
  shows "outputs_ok (outputs_drop i s)"
proof (cases "byID s i")
  case None
  with ok show ?thesis by (simp add: outputs_drop_def)
next
  case (Some out)
  then have i: "i \<in> set (order s)" "i \<notin> set (remove1 i (order s))" using ok by (auto simp: outputs_ok_def)
  have "sizes_in (byID s) (order s) = output_size out + sizes_in (byID s) (remove1 i (order s))"
    using sizes_in_remove1 [OF i(1), of "byID s"] Some by (simp add: size_in_def)
  with ok Some i(2) show ?thesis by (auto simp: outputs_ok_def outputs_drop_def)
qed

text \<open>What eviction leaves: a suffix of the order, each output unchanged, and no output was evicted
  that would have fitted.\<close>

definition newest_kept :: "toolOutputs \<Rightarrow> toolOutputs \<Rightarrow> bool" where
  "newest_kept s s' \<longleftrightarrow> (\<exists>gone. order s = gone @ order s' \<and>
    (\<forall>i. byID s' i = (if i \<in> set gone then None else byID s i)) \<and>
    (gone \<noteq> [] \<longrightarrow> maxToolOutputBytes < int (sizes_in (byID s) (last gone # order s'))))"

definition in_bound :: "toolOutputs \<Rightarrow> bool" where
  "in_bound s \<longleftrightarrow> bytes s \<le> maxToolOutputBytes \<or> length (order s) \<le> 1"

lemma drop_head_kept:
  assumes ok: "outputs_ok s" and o: "order s = i # rest" and kept: "newest_kept (outputs_drop i s) s'"
    and over: "maxToolOutputBytes < bytes s"
  shows "newest_kept s s'"
proof -
  obtain gone where g: "rest = gone @ order s'"
    "\<forall>j. byID s' j = (if j \<in> set gone then None else byID (outputs_drop i s) j)"
    "gone \<noteq> [] \<longrightarrow> maxToolOutputBytes < int (sizes_in (byID (outputs_drop i s)) (last gone # order s'))"
    using kept o outputs_drop_order [OF ok, of i] unfolding newest_kept_def by auto
  have "i \<notin> set rest" using ok o by (simp add: outputs_ok_def)
  then have "i \<notin> set gone" "i \<notin> set (order s')" using g(1) by auto
  have "maxToolOutputBytes < int (sizes_in (byID s) (last (i # gone) # order s'))"
  proof (cases "gone = []")
    case True
    with over ok o g(1) show ?thesis by (simp add: outputs_ok_def)
  next
    case False
    then have "i \<notin> set (last gone # order s')"
      using \<open>i \<notin> set gone\<close> \<open>i \<notin> set (order s')\<close> last_in_set by force
    then have "sizes_in ((byID s)(i := None)) (last gone # order s') = sizes_in (byID s) (last gone # order s')"
      by (rule sizes_in_upd)
    with g(3) False show ?thesis by (simp add: outputs_drop_byID del: sizes_in_simps)
  qed
  with g o show ?thesis unfolding newest_kept_def by (intro exI [of _ "i # gone"]) (auto simp: outputs_drop_byID)
qed

lemma evict_oldest_ok:
  "outputs_ok s \<Longrightarrow> \<exists>s'. evict_oldest s = Some s' \<and> outputs_ok s' \<and> in_bound s' \<and> newest_kept s s' \<and> (order s \<noteq> [] \<longrightarrow> order s' \<noteq> [])"
proof (induction "length (order s)" arbitrary: s rule: less_induct)
  case less
  show ?case
  proof (cases "maxToolOutputBytes < bytes s \<and> 1 < length (order s)")
    case False
    then have "evict_oldest s = Some s" by (subst evict_oldest.simps) auto
    with less.prems False show ?thesis by (auto simp: in_bound_def newest_kept_def)
  next
    case True
    then obtain i rest where o: "order s = i # rest" "rest \<noteq> []" by (cases "order s") auto
    let ?d = "outputs_drop i s"
    have d: "outputs_ok ?d" "order ?d = rest" using less.prems o by (simp_all add: outputs_drop_ok outputs_drop_order)
    obtain s' where "evict_oldest ?d = Some s'" "outputs_ok s'" "in_bound s'" "newest_kept ?d s'" "order s' \<noteq> []"
      using less.hyps [of ?d] d o by auto
    moreover have "evict_oldest s = evict_oldest ?d" using True o by (subst evict_oldest.simps) simp
    ultimately show ?thesis using drop_head_kept [OF less.prems o(1)] True by auto
  qed
qed

lemma outputs_put_ok:
  assumes ok: "outputs_ok s"
  shows "\<exists>s' gone. outputs_put i out s = Some s' \<and> outputs_ok s' \<and> in_bound s' \<and> byID s' i = Some out \<and>
    remove1 i (order s) @ [i] = gone @ order s' \<and> (\<forall>j. j \<noteq> i \<longrightarrow> byID s' j = (if j \<in> set gone then None else byID s j)) \<and>
    (gone \<noteq> [] \<longrightarrow> maxToolOutputBytes < int (sizes_in ((byID s)(i \<mapsto> out)) (last gone # order s')))"
proof -
  let ?d = "outputs_drop i s"
  let ?p = "?d\<lparr>byID := (byID ?d)(i \<mapsto> out), order := order ?d @ [i], bytes := bytes ?d + int (output_size out)\<rparr>"
  have d: "outputs_ok ?d" "order ?d = remove1 i (order s)" "i \<notin> set (order ?d)"
    using outputs_drop_ok [OF ok, of i] outputs_drop_order [OF ok, of i] ok by (auto simp: outputs_ok_def)
  then have "outputs_ok ?p" by (auto simp: outputs_ok_def size_in_def)
  then obtain s' where s': "outputs_put i out s = Some s'" "outputs_ok s'" "in_bound s'" "newest_kept ?p s'" "order s' \<noteq> []"
    using evict_oldest_ok [of ?p] by (auto simp: outputs_put_def Let_def)
  then obtain gone where g: "remove1 i (order s) @ [i] = gone @ order s'"
    "\<forall>j. byID s' j = (if j \<in> set gone then None else ((byID s)(i \<mapsto> out)) j)"
    "gone \<noteq> [] \<longrightarrow> maxToolOutputBytes < int (sizes_in ((byID s)(i \<mapsto> out)) (last gone # order s'))"
    using d(2) unfolding newest_kept_def by (auto simp: outputs_drop_byID)
  have "i \<notin> set gone"
  proof
    assume "i \<in> set gone"
    moreover have "last (order s') = i" using g(1) \<open>order s' \<noteq> []\<close> by (metis last_appendR last_snoc)
    then have "i \<in> set (order s')" using \<open>order s' \<noteq> []\<close> last_in_set by force
    moreover have "distinct (remove1 i (order s) @ [i])" using d ok by (simp add: outputs_ok_def)
    ultimately show False unfolding g(1) by auto
  qed
  then show ?thesis using s' g by (intro exI [of _ s'] exI [of _ gone]) auto
qed

subsection \<open>Showing and fetching\<close>

text \<open>The states of a session's store: from the empty one by the events that pass through.\<close>

inductive outputs_reach :: "toolOutputs \<Rightarrow> bool" where
  outputs_start: "outputs_reach no_outputs"
| outputs_event: "outputs_reach s \<Longrightarrow> cutToolEventLocked ev s = Some (ev', s') \<Longrightarrow> outputs_reach s'"

lemma cutToolEventLocked_ok:
  assumes ok: "outputs_ok s" "in_bound s"
  shows "\<exists>ev' s'. cutToolEventLocked ev s = Some (ev', s') \<and> outputs_ok s' \<and> in_bound s'"
proof -
  obtain s1 where p: "outputs_put (ev_ToolID ev) (whole_output ev) s = Some s1" "outputs_ok s1" "in_bound s1"
    using outputs_put_ok [OF ok(1)] by blast
  have d: "outputs_ok (outputs_drop i s)" "in_bound (outputs_drop i s)" for i
    using ok outputs_drop_ok [OF ok(1), of i]
    by (auto simp: in_bound_def outputs_drop_def length_remove1 split: option.splits)
  from p d ok show ?thesis by (auto simp: cutToolEventLocked_def)
qed

lemma outputs_reach_ok: "outputs_reach s \<Longrightarrow> outputs_ok s \<and> in_bound s"
proof (induction rule: outputs_reach.induct)
  case outputs_start
  then show ?case using no_outputs_ok by (simp add: in_bound_def no_outputs_def)
next
  case (outputs_event s ev ev' s')
  then show ?case using cutToolEventLocked_ok [of s ev] by auto
qed

text \<open>the store of whole tool outputs, in every state a session can reach. The order lists exactly the
  tools that have an output, each once; the byte count is the sum of their sizes; it is within the
  budget unless a single output is over it; and cutting the next event always returns, so the
  eviction loop never runs on a tool it cannot drop.\<close>

theorem tool_outputs_invariant:
  assumes "outputs_reach s"
  shows "distinct (order s) \<and> set (order s) = dom (byID s) \<and> bytes s = int (sizes_in (byID s) (order s)) \<and>
    (bytes s \<le> maxToolOutputBytes \<or> length (order s) \<le> 1) \<and>
    (\<forall>ev. \<exists>ev' s'. cutToolEventLocked ev s = Some (ev', s'))"
  using outputs_reach_ok [OF assms] cutToolEventLocked_ok [of s] unfolding outputs_ok_def in_bound_def by blast

definition long_text :: string where "long_text = replicate 9000 CHR ''x''"

definition long_call :: event where
  "long_call = zero_event\<lparr>ev_Type := TypeToolCall, ev_ToolID := ''t1'', ev_Text := long_text\<rparr>"

lemma TrimRight_set_replicate: "c \<notin> set cs \<Longrightarrow> TrimRight_set cs (replicate n c) = replicate n c"
  by (cases n) (auto simp: TrimRight_set_def replicate_append_same)

lemma trim_long_text: "TrimRight_set trim_set long_text = long_text"
  unfolding long_text_def by (rule TrimRight_set_replicate) (simp add: trim_set_def)

lemma long_call_cut: "event_cut long_call"
  by (simp add: event_cut_def long_call_def zero_event_def Clip_cut_iff trim_long_text MaxToolShown_def) (simp add: long_text_def)

definition long_store :: toolOutputs where
  "long_store = \<lparr>byID = [''t1'' \<mapsto> \<lparr>to_text = long_text, to_diffs = []\<rparr>], order = [''t1''], bytes = 9000\<rparr>"

lemma long_call_stored:
  "cutToolEventLocked long_call no_outputs = Some ((shown_event long_call)\<lparr>ev_Truncated := True\<rparr>, long_store)"
proof -
  have "evict_oldest long_store = Some long_store" by (subst evict_oldest.simps) (simp add: long_store_def)
  moreover have "outputs_put ''t1'' \<lparr>to_text = long_text, to_diffs = []\<rparr> no_outputs = evict_oldest long_store"
    by (simp add: outputs_put_def outputs_drop_def no_outputs_def long_store_def output_size_def) (simp add: long_text_def)
  moreover have "whole_output long_call = \<lparr>to_text = long_text, to_diffs = []\<rparr>" "ev_ToolID long_call = ''t1''" "ev_Type long_call = TypeToolCall"
    by (simp_all add: whole_output_def long_call_def zero_event_def trim_long_text)
  ultimately show ?thesis by (simp add: cutToolEventLocked_def long_call_cut)
qed

lemma long_store_reach: "outputs_reach long_store"
  using outputs_event [OF outputs_start long_call_stored] .

theorem tool_outputs_invariant_witness:
  "outputs_reach long_store \<and> order long_store = [''t1''] \<and> bytes long_store = int (sizes_in (byID long_store) [''t1''])"
  using tool_outputs_invariant [OF long_store_reach] long_store_reach by (simp add: long_store_def)









text \<open>A diff side that is over the bound only by trailing white space loses that white space, and its
  event is not marked truncated and has nothing to fetch.\<close>

definition blank_end_call :: event where
  "blank_end_call = zero_event\<lparr>ev_Type := TypeToolCall, ev_ToolID := ''t1'',
    ev_Diffs := [\<lparr>td_Path = ''a'', td_OldText = [], td_NewText = replicate 9000 newline\<rparr>]\<rparr>"

lemma blank_end_lost:
  "cutToolEventLocked blank_end_call no_outputs =
    Some (blank_end_call\<lparr>ev_Diffs := [\<lparr>td_Path = ''a'', td_OldText = [], td_NewText = []\<rparr>]\<rparr>, no_outputs)"
proof -
  have "TrimRight_set trim_set (replicate 9000 newline) = []"
    unfolding TrimRight_set_def by (simp add: trim_set_def newline_def)
  then have c: "cutDiffText (replicate 9000 newline) = ([], False)" "cutDiffText [] = ([], False)"
    by (simp_all add: cutDiffText_def Clip_def MaxToolShown_def)
  have "TrimRight_set trim_set [] = []" by (simp add: TrimRight_set_def)
  then have t: "Clip [] 8000 = ([], False)" by (simp add: Clip_def)
  show ?thesis
    by (simp add: cutToolEventLocked_def blank_end_call_def zero_event_def event_cut_def diff_cut_def c t MaxToolShown_def
        shown_event_def cut_diff_def outputs_drop_def no_outputs_def)
qed

end
