(* ===== verification/Turn.thy ===== *)
theory Turn
  imports GlobalBudget ToolOutput
begin

text \<open>
  What one provider event does to a session: the first half of the loop body of \<open>pump\<close> in
  \<open>internal/session/manager.go\<close>, under the manager's lock, with \<open>tokencost.go\<close>,
  \<open>compaction.go\<close>, \<open>turnlatency.go\<close> and the watch of \<open>silent.go\<close>.

  \<open>entry\<close> has the fields of the struct of that name, except the mutex, the context's cancel function
  and those that \<open>ring\<close> already holds; \<open>en_sess\<close> stands for the identity of the provider
  session. The maps of open asks and of seen compactions are association lists with distinct keys. The
  variables of the loop body are the record \<open>work\<close>. Several calls of \<open>time.Now\<close> in one pass
  are one reading of the clock. The costs that a usage report compares are compared by their bit
  patterns. The blocks of the loop body apply to events of different types, so that the title's
  \<open>continue\<close> can be tested first.
\<close>

record silentWatch =
  sw_command :: string
  sw_output :: bool

record entry =
  en_meta :: Meta
  en_sess :: nat
  en_dead :: bool
  en_ring :: ring
  en_lastEventAt :: gotime
  en_globalTrimNoticed :: bool
  ctxPressureNoticed :: int
  replayWithheld :: nat
  replayWarned :: bool
  pendingPermissions :: "(string \<times> event) list"
  pendingQuestions :: "(string \<times> event) list"
  agentCommands :: "string list"
  agentModes :: "SessionMode list"
  currentModeID :: string
  collabModes :: "CollaborationMode list"
  currentCollabModeID :: string
  lastUsage :: "Usage option"
  advertised :: "RemoteCommand list"
  noticeDedupe :: NoticeDeduper
  compactionSeen :: "(string \<times> uint64) list"
  en_toolOutputs :: toolOutputs
  silent_watch :: "silentWatch option"
  promptAt :: gotime
  firstOutputAt :: gotime

text \<open>The entry \<open>create\<close> inserts.\<close>

definition seeded_entry :: "Meta \<Rightarrow> nat \<Rightarrow> ring \<Rightarrow> entry" where
  "seeded_entry m sess r =
    \<lparr>en_meta = m, en_sess = sess, en_dead = False, en_ring = r, en_lastEventAt = 0, en_globalTrimNoticed = False,
     ctxPressureNoticed = 0, replayWithheld = 0, replayWarned = False, pendingPermissions = [], pendingQuestions = [],
     agentCommands = [], agentModes = [], currentModeID = [], collabModes = [], currentCollabModeID = [],
     lastUsage = None, advertised = [], noticeDedupe = \<lparr>nd_seen = False, nd_kind = [], nd_text = []\<rparr>,
     compactionSeen = [], en_toolOutputs = no_outputs, silent_watch = None, promptAt = 0, firstOutputAt = 0\<rparr>"

subsection \<open>Replay bookkeeping and the turn clock\<close>

text \<open>\<open>noteReplay\<close>: the entry, and whether it warns and how long a burst it logs.\<close>

definition noteReplay :: "event \<Rightarrow> entry \<Rightarrow> (bool \<times> nat) \<times> entry" where
  "noteReplay ev e =
    (if ev_Replay ev then
       let warn = \<not> IsZero (promptAt e) \<and> \<not> replayWarned e in
       ((warn, 0), e\<lparr>replayWithheld := Suc (replayWithheld e), replayWarned := replayWarned e \<or> warn\<rparr>)
     else ((False, replayWithheld e), e\<lparr>replayWithheld := 0\<rparr>))"

definition markPromptStart :: "gotime \<Rightarrow> entry \<Rightarrow> entry" where
  "markPromptStart now e = e\<lparr>promptAt := now, firstOutputAt := 0, replayWarned := False\<rparr>"

definition clearPromptStart :: "entry \<Rightarrow> entry" where
  "clearPromptStart e = e\<lparr>promptAt := 0, firstOutputAt := 0, silent_watch := None\<rparr>"

definition armSilentWatch :: "(string \<Rightarrow> string) \<Rightarrow> bool \<Rightarrow> string \<Rightarrow> entry \<Rightarrow> entry" where
  "armSilentWatch ToLower kept cmd e =
    (if kept \<and> IsZero (promptAt e) then e\<lparr>silent_watch := Some \<lparr>sw_command = ToLower cmd, sw_output = False\<rparr>\<rparr> else e)"

definition isTurnOutput :: "event_type \<Rightarrow> bool" where
  "isTurnOutput t \<longleftrightarrow> t = TypeAssistantChunk \<or> t = TypeThoughtChunk \<or> t = TypeToolCall"

definition breaksSilence :: "event_type \<Rightarrow> bool" where
  "breaksSilence t \<longleftrightarrow> t \<notin>
    {TypeSessionStatus, TypeUserMessage, TypeTurnComplete, TypeAvailableCommands, TypeRemoteCommands,
     TypeUsage, TypeSessionCapabilities, TypeDiagnosticsChanged}"

subsection \<open>Token cost\<close>

definition contextPressureThresholds :: "int list" where
  "contextPressureThresholds = [75, 90]"

fun nat_string :: "nat \<Rightarrow> string" where
  "nat_string n = (if n < 10 then [char_of (48 + n)] else nat_string (n div 10) @ [char_of (48 + n mod 10)])"

declare nat_string.simps [simp del]

text \<open>The loop of \<open>humanCount\<close>: a comma before each digit that starts a group of three.\<close>

fun group_digits :: "nat \<Rightarrow> string \<Rightarrow> string" where
  "group_digits i [] = []"
| "group_digits i (c # cs) = (if 0 < i \<and> length (c # cs) mod 3 = 0 then CHR '','' # c # group_digits (Suc i) cs
     else c # group_digits (Suc i) cs)"

definition humanCount :: "int \<Rightarrow> string" where
  "humanCount n =
    (if n < 0 then ''0''
     else let s = nat_string (nat n) in if length s \<le> 3 then s else group_digits 0 s)"

definition compact_advice :: string where
  "compact_advice = ''`/compact` summarises the conversation to reclaim room; `/new` starts fresh.''"

definition pressure_text :: "Usage \<Rightarrow> int \<Rightarrow> int \<Rightarrow> string" where
  "pressure_text u pct crossed =
    ''This session is using '' @ humanCount (us_Used u) @ '' of '' @ humanCount (us_Size u) @
    '' context tokens ('' @ nat_string (nat pct) @ ''%). '' @
    (if 90 \<le> crossed then ''The next long turn may not fit. '' else []) @ compact_advice"

definition contextPressureLocked :: "entry \<Rightarrow> string \<times> entry" where
  "contextPressureLocked e =
    (case lastUsage e of
       None \<Rightarrow> ([], e)
     | Some u \<Rightarrow>
         if us_Size u \<le> 0 \<or> us_Used u \<le> 0 then ([], e)
         else
           let pct = us_Used u * 100 div us_Size u in
           if pct < ctxPressureNoticed e then
             ([], e\<lparr>ctxPressureNoticed := fold (\<lambda>t n. if t \<le> pct then t else n) contextPressureThresholds 0\<rparr>)
           else
             let crossed = fold (\<lambda>t n. if t \<le> pct \<and> ctxPressureNoticed e < t then t else n) contextPressureThresholds 0 in
             if crossed = 0 then ([], e)
             else (pressure_text u pct crossed, e\<lparr>ctxPressureNoticed := crossed\<rparr>))"

definition accrueTurnCostLocked :: "entry \<Rightarrow> Meta option \<times> entry" where
  "accrueTurnCostLocked e =
    (case lastUsage e of
       None \<Rightarrow> (None, e)
     | Some u \<Rightarrow>
         if us_Input u \<le> 0 \<and> us_Output u \<le> 0 \<and> us_CacheRead u \<le> 0 then (None, e)
         else
           let m = (en_meta e)\<lparr>m_Turns := m_Turns (en_meta e) + 1,
                 m_InputTokens := m_InputTokens (en_meta e) + us_Input u,
                 m_OutputTokens := m_OutputTokens (en_meta e) + us_Output u,
                 m_CachedTokens := m_CachedTokens (en_meta e) + us_CacheRead u\<rparr>
           in (Some m, e\<lparr>en_meta := m\<rparr>))"

subsection \<open>Compactions\<close>

definition maxCompactionStates :: nat where "maxCompactionStates = 64"

definition compaction_sum :: "event \<Rightarrow> uint64" where
  "compaction_sum ev = fold (\<lambda>s h. fnv1aByte (fnv1aString h s) 0)
    [ev_CompactionStatus ev, ev_CompactionSummary ev, ev_CompactionError ev,
     if ev_CompactionTruncated ev then ''true'' else ''false''] fnvOffset64"

definition compactionChangedLocked :: "event \<Rightarrow> entry \<Rightarrow> bool \<times> entry" where
  "compactionChangedLocked ev e =
    (let sum = compaction_sum ev in
     if map_of (compactionSeen e) (ev_CompactionID ev) = Some sum then (False, e)
     else
       let seen = (if maxCompactionStates \<le> length (compactionSeen e) then [] else compactionSeen e)
       in (True, e\<lparr>compactionSeen := AList.update (ev_CompactionID ev) sum seen\<rparr>))"

subsection \<open>Turn latency\<close>

record turnLatency =
  tl_sessionID :: string
  tl_provider :: string
  tl_model :: string
  tl_ttft :: "duration option"
  tl_turn :: duration
  tl_usage :: "Usage option"
  tl_failed :: bool

definition newTurnLatency :: "gotime \<Rightarrow> entry \<Rightarrow> event \<Rightarrow> turnLatency" where
  "newTurnLatency now e ev =
    \<lparr>tl_sessionID = m_ID (en_meta e), tl_provider = m_Provider (en_meta e), tl_model = m_Model (en_meta e),
     tl_ttft = (if IsZero (firstOutputAt e) then None else Some (firstOutputAt e - promptAt e)),
     tl_turn = (if IsZero (ev_Timestamp ev) then now else ev_Timestamp ev) - promptAt e,
     tl_usage = lastUsage e, tl_failed = (ev_Type ev = TypeError)\<rparr>"

subsection \<open>One event under the lock\<close>

record work =
  wk_entry :: entry
  wk_reresolve :: bool
  wk_persist :: "Meta option"
  wk_autoClose :: bool
  wk_turn :: "turnLatency option"
  wk_pressure :: string
  wk_silent :: "(string \<times> string) option"

definition start_work :: "entry \<Rightarrow> work" where
  "start_work e = \<lparr>wk_entry = e, wk_reresolve = False, wk_persist = None, wk_autoClose = False, wk_turn = None,
     wk_pressure = [], wk_silent = None\<rparr>"

text \<open>\<open>e.meta = ...; meta := e.meta; persistMeta = &meta\<close>\<close>

definition set_meta :: "(Meta \<Rightarrow> Meta) \<Rightarrow> work \<Rightarrow> work" where
  "set_meta f w = (let m = f (en_meta (wk_entry w))
     in w\<lparr>wk_entry := (wk_entry w)\<lparr>en_meta := m\<rparr>, wk_persist := Some m\<rparr>)"

definition status_meta :: "event \<Rightarrow> Meta \<Rightarrow> Meta" where
  "status_meta ev m =
    (let m1 = m\<lparr>m_Status := ev_Status ev\<rparr>;
         m2 = (if ev_AgentSessionID ev = [] then m1
               else (if m_AgentSessionID m \<noteq> [] \<and> m_AgentSessionID m \<noteq> ev_AgentSessionID ev \<and>
                       m_AgentSessionID m \<notin> set (m_AgentSessionAliases m)
                     then m1\<lparr>m_AgentSessionAliases := m_AgentSessionAliases m @ [m_AgentSessionID m]\<rparr> else m1)
                 \<lparr>m_AgentSessionID := ev_AgentSessionID ev\<rparr>)
     in if ev_Status ev = StatusDisconnected then m2\<lparr>m_Live := False\<rparr> else m2)"

definition on_status :: "event \<Rightarrow> work \<Rightarrow> work" where
  "on_status ev w =
    (if ev_Type ev = TypeSessionStatus \<and> ev_Status ev \<noteq> [] then
       let w1 = set_meta (status_meta ev) w in
       if ev_Status ev = StatusDisconnected
       then w1\<lparr>wk_entry := (wk_entry w1)\<lparr>en_dead := True\<rparr>, wk_autoClose := True\<rparr> else w1
     else w)"

definition on_commands :: "event \<Rightarrow> work \<Rightarrow> work" where
  "on_commands ev w =
    (if ev_Type ev = TypeAvailableCommands then
       w\<lparr>wk_entry := (wk_entry w)\<lparr>agentCommands :=
           filter (\<lambda>n. n \<noteq> []) (map (\<lambda>c. TrimPrefix (ac_Name c) ''/'') (ev_Commands ev))\<rparr>, wk_reresolve := True\<rparr>
     else w)"

definition IDCodex :: string where "IDCodex = ''codex''"

definition on_mode :: "event \<Rightarrow> work \<Rightarrow> work" where
  "on_mode ev w =
    (if ev_Type ev = TypeMode then
       let w1 = (if ev_Modes ev \<noteq> [] then w\<lparr>wk_entry := (wk_entry w)\<lparr>agentModes := ev_Modes ev\<rparr>, wk_reresolve := True\<rparr> else w);
           w2 = (if ev_CurrentModeID ev \<noteq> [] then
                   set_meta (\<lambda>m. if m_Provider m = IDCodex
                       then m\<lparr>m_ModeID := ev_CurrentModeID ev, m_PermissionProfileID := ev_CurrentModeID ev\<rparr>
                       else m\<lparr>m_ModeID := ev_CurrentModeID ev\<rparr>)
                     (w1\<lparr>wk_entry := (wk_entry w1)\<lparr>currentModeID := ev_CurrentModeID ev\<rparr>\<rparr>)
                 else w1)
       in if ev_ApprovalsReviewer ev \<noteq> [] \<and> m_Provider (en_meta (wk_entry w2)) = IDCodex
          then set_meta (\<lambda>m. m\<lparr>m_ApprovalsReviewer := ev_ApprovalsReviewer ev\<rparr>) w2 else w2
     else w)"

definition on_config :: "event \<Rightarrow> work \<Rightarrow> work" where
  "on_config ev w = (if ev_Type ev = TypeSessionConfig then w\<lparr>wk_reresolve := True\<rparr> else w)"

definition on_collaboration :: "event \<Rightarrow> work \<Rightarrow> work" where
  "on_collaboration ev w =
    (if ev_Type ev = TypeCollaboration then
       let w1 = (if ev_CollaborationModes ev \<noteq> []
                 then w\<lparr>wk_entry := (wk_entry w)\<lparr>collabModes := ev_CollaborationModes ev\<rparr>, wk_reresolve := True\<rparr> else w)
       in if ev_CurrentCollaborationModeID ev \<noteq> [] then
            set_meta (\<lambda>m. m\<lparr>m_CollaborationModeID := ev_CurrentCollaborationModeID ev\<rparr>)
              (w1\<lparr>wk_entry := (wk_entry w1)\<lparr>currentCollabModeID := ev_CurrentCollaborationModeID ev\<rparr>\<rparr>)
          else w1
     else w)"

definition NameSourceGenerated :: string where "NameSourceGenerated = ''generated''"

definition title_withheld :: "event \<Rightarrow> entry \<Rightarrow> bool" where
  "title_withheld ev e \<longleftrightarrow> ev_Type ev = TypeSessionTitle \<and> ev_TitleGenerated ev \<and>
    effectiveNameSource (m_Name (en_meta e)) (m_NameSource (en_meta e)) = NameSourceUser"

definition on_title :: "event \<Rightarrow> work \<Rightarrow> work" where
  "on_title ev w =
    (let title = TrimSpace (ev_Title ev) in
     if ev_Type ev = TypeSessionTitle \<and> title \<noteq> [] \<and> title \<noteq> m_Name (en_meta (wk_entry w)) then
       set_meta (\<lambda>m. m\<lparr>m_Name := title, m_NameSource := if ev_TitleGenerated ev then NameSourceGenerated else NameSourceUser\<rparr>) w
     else w)"

definition on_usage :: "event \<Rightarrow> work \<Rightarrow> work" where
  "on_usage ev w =
    (case ev_Usage ev of
       None \<Rightarrow> w
     | Some u \<Rightarrow>
         if ev_Type ev \<noteq> TypeUsage then w
         else
           let w1 = w\<lparr>wk_reresolve := (lastUsage (wk_entry w) = None), wk_entry := (wk_entry w)\<lparr>lastUsage := Some u\<rparr>\<rparr>
           in (case us_SessionCost u of
                 None \<Rightarrow> w1
               | Some c \<Rightarrow> if m_SessionCost (en_meta (wk_entry w1)) \<noteq> Some c
                            then set_meta (\<lambda>m. m\<lparr>m_SessionCost := Some c\<rparr>) w1 else w1))"

text \<open>The three guards that drop a repeat: whether the event goes on, and the entry with the repeat
  remembered.\<close>

definition admitted :: "event \<Rightarrow> entry \<Rightarrow> bool \<times> entry" where
  "admitted ev e =
    (if ev_Replay ev then (True, e)
     else if ev_Type ev = TypeNotice then
       (case notice_ShouldEmit (noticeDedupe e) [] (ev_Text ev) of (go, d) \<Rightarrow> (go, e\<lparr>noticeDedupe := d\<rparr>))
     else if ev_Type ev = TypeAgentNotice then
       (case notice_ShouldEmit (noticeDedupe e) (''agent:'' @ ev_NoticeSeverity ev)
           (ev_NoticeTitle ev @ newline # ev_NoticeDescription ev) of (go, d) \<Rightarrow> (go, e\<lparr>noticeDedupe := d\<rparr>))
     else if ev_Type ev = TypeCompaction then compactionChangedLocked ev e
     else (True, e))"

definition ends_turn :: "event_type \<Rightarrow> bool" where
  "ends_turn t \<longleftrightarrow> t = TypeTurnComplete \<or> t = TypeError"

definition on_turn :: "gotime \<Rightarrow> event \<Rightarrow> work \<Rightarrow> work" where
  "on_turn now ev w =
    (let e = wk_entry w;
         e1 = (if \<not> IsZero (promptAt e) \<and> IsZero (firstOutputAt e) \<and> isTurnOutput (ev_Type ev)
               then e\<lparr>firstOutputAt := (if IsZero (ev_Timestamp ev) then now else ev_Timestamp ev)\<rparr> else e)
     in if \<not> IsZero (promptAt e1) \<and> ends_turn (ev_Type ev) then
          (case accrueTurnCostLocked (e1\<lparr>promptAt := 0, firstOutputAt := 0\<rparr>) of
             (pm, e2) \<Rightarrow>
               (case contextPressureLocked e2 of
                  (txt, e3) \<Rightarrow> w\<lparr>wk_entry := e3, wk_turn := Some (newTurnLatency now e1 ev), wk_pressure := txt,
                    wk_persist := (case pm of Some m \<Rightarrow> Some m | None \<Rightarrow> wk_persist w)\<rparr>))
        else w\<lparr>wk_entry := e1\<rparr>)"

definition on_silent :: "event \<Rightarrow> work \<Rightarrow> work" where
  "on_silent ev w =
    (case silent_watch (wk_entry w) of
       None \<Rightarrow> w
     | Some sw \<Rightarrow>
         if ev_Replay ev then w
         else if ev_Type ev = TypeTurnComplete then
           w\<lparr>wk_entry := (wk_entry w)\<lparr>silent_watch := None\<rparr>,
             wk_silent := (if \<not> sw_output sw \<and> ev_StopReason ev \<noteq> ''cancelled''
                           then Some (sw_command sw, m_Provider (en_meta (wk_entry w))) else wk_silent w)\<rparr>
         else if ev_Type ev = TypeError then w\<lparr>wk_entry := (wk_entry w)\<lparr>silent_watch := None\<rparr>\<rparr>
         else if breaksSilence (ev_Type ev) then
           w\<lparr>wk_entry := (wk_entry w)\<lparr>silent_watch := Some (sw\<lparr>sw_output := True\<rparr>)\<rparr>\<rparr>
         else w)"

text \<open>
  The handler up to the append: \<open>None\<close> for an event that is withheld (\<open>continue\<close>), with the
  entry as the guards left it.
\<close>

definition learn :: "event \<Rightarrow> work \<Rightarrow> work" where
  "learn ev w = on_usage ev (on_title ev (on_collaboration ev (on_config ev (on_mode ev (on_commands ev (on_status ev w))))))"

definition handle_event :: "gotime \<Rightarrow> event \<Rightarrow> entry \<Rightarrow> work option \<times> entry" where
  "handle_event now ev e =
    (if title_withheld ev e then (None, e)
     else
       let w = learn ev (start_work e) in
       (case admitted ev (wk_entry w) of
          (False, e1) \<Rightarrow> (None, e1)
        | (True, e1) \<Rightarrow> (let w1 = on_silent ev (on_turn now ev (w\<lparr>wk_entry := e1\<rparr>)) in (Some w1, wk_entry w1))))"

text \<open>The open asks after the append, and the asks a live turn end abandons.\<close>

definition PermissionStatusCancelled :: string where "PermissionStatusCancelled = ''cancelled''"

definition abandonedAsksLocked :: "gotime \<Rightarrow> entry \<Rightarrow> string \<Rightarrow> event list" where
  "abandonedAsksLocked now e i =
    map (\<lambda>p. zero_event\<lparr>ev_Type := TypePermissionResolved, ev_SessionID := i, ev_Timestamp := now,
        ev_PermissionID := p, ev_Status := PermissionStatusCancelled\<rparr>)
      (SliceStable string_less (map fst (pendingPermissions e))) @
    map (\<lambda>q. zero_event\<lparr>ev_Type := TypeQuestionResolved, ev_SessionID := i, ev_Timestamp := now,
        ev_QuestionID := q, ev_Status := PermissionStatusCancelled\<rparr>)
      (SliceStable string_less (map fst (pendingQuestions e)))"

definition track_asks :: "event \<Rightarrow> entry \<Rightarrow> entry" where
  "track_asks ev e =
    (if ev_Type ev = TypePermission then
       (if ev_PermissionID ev \<noteq> [] then e\<lparr>pendingPermissions := AList.update (ev_PermissionID ev) ev (pendingPermissions e)\<rparr> else e)
     else if ev_Type ev = TypeQuestion then
       (if ev_QuestionID ev \<noteq> [] then e\<lparr>pendingQuestions := AList.update (ev_QuestionID ev) ev (pendingQuestions e)\<rparr> else e)
     else if ev_Type ev = TypePermissionResolved then
       e\<lparr>pendingPermissions := AList.delete (ev_PermissionID ev) (pendingPermissions e)\<rparr>
     else if ev_Type ev = TypeQuestionResolved then
       e\<lparr>pendingQuestions := AList.delete (ev_QuestionID ev) (pendingQuestions e)\<rparr>
     else if ends_turn (ev_Type ev) then e\<lparr>pendingPermissions := [], pendingQuestions := []\<rparr>
     else e)"

definition receipt_request :: "event \<Rightarrow> entry \<Rightarrow> event option" where
  "receipt_request ev e =
    (if ev_Type ev = TypePermissionResolved then map_of (pendingPermissions e) (ev_PermissionID ev) else None)"

definition abandoned_asks :: "gotime \<Rightarrow> event \<Rightarrow> entry \<Rightarrow> string \<Rightarrow> event list" where
  "abandoned_asks now ev e i =
    (if ends_turn (ev_Type ev) \<and> \<not> ev_Replay ev then abandonedAsksLocked now e i else [])"

subsection \<open>Lemmas: what handling an event leaves alone\<close>

text \<open>The fields only the append and the ask tracking change.\<close>

definition core :: "entry \<Rightarrow> nat \<times> ring \<times> (string \<times> event) list \<times> (string \<times> event) list \<times> toolOutputs" where
  "core e = (en_sess e, en_ring e, pendingPermissions e, pendingQuestions e, en_toolOutputs e)"

named_theorems turn_defs \<open>the blocks of the handler\<close>

lemmas [turn_defs] = on_status_def on_commands_def on_mode_def on_config_def on_collaboration_def on_title_def
  on_usage_def set_meta_def Let_def

lemma set_meta_core [simp]: "core (wk_entry (set_meta f w)) = core (wk_entry w)"
  by (simp add: set_meta_def core_def Let_def)

lemma blocks_core [simp]:
  "core (wk_entry (on_status ev w)) = core (wk_entry w)"
  "core (wk_entry (on_commands ev w)) = core (wk_entry w)"
  "core (wk_entry (on_mode ev w)) = core (wk_entry w)"
  "core (wk_entry (on_config ev w)) = core (wk_entry w)"
  "core (wk_entry (on_collaboration ev w)) = core (wk_entry w)"
  "core (wk_entry (on_title ev w)) = core (wk_entry w)"
  "core (wk_entry (on_usage ev w)) = core (wk_entry w)"
  by (simp_all add: turn_defs core_def split: option.split)

lemma learn_core [simp]: "core (wk_entry (learn ev w)) = core (wk_entry w)"
  by (simp add: learn_def)

lemma noteReplay_core [simp]: "core (snd (noteReplay ev e)) = core e"
  by (simp add: noteReplay_def core_def Let_def)

lemma admitted_core [simp]: "core (snd (admitted ev e)) = core e"
  by (simp add: admitted_def core_def compactionChangedLocked_def Let_def split: prod.split)

lemma accrue_core [simp]: "core (snd (accrueTurnCostLocked e)) = core e"
  by (simp add: accrueTurnCostLocked_def core_def Let_def split: option.split)

lemma pressure_core [simp]: "core (snd (contextPressureLocked e)) = core e"
  by (simp add: contextPressureLocked_def core_def Let_def split: option.split)

lemma on_turn_core [simp]: "core (wk_entry (on_turn now ev w)) = core (wk_entry w)"
proof -
  have "core (snd (contextPressureLocked (snd (accrueTurnCostLocked (e\<lparr>promptAt := 0, firstOutputAt := 0\<rparr>))))) = core e" for e
    by (simp add: core_def [of e]) (simp add: core_def)
  moreover have "core (e\<lparr>firstOutputAt := t\<rparr>) = core e" for e t by (simp add: core_def)
  ultimately show ?thesis by (simp add: on_turn_def Let_def split_beta)
qed

lemma on_silent_core [simp]: "core (wk_entry (on_silent ev w)) = core (wk_entry w)"
  by (simp add: on_silent_def core_def split: option.split)

lemma handle_event_core:
  assumes "handle_event now ev e = (r, e')"
  shows "core e' = core e"
proof -
  obtain go e1 where a: "admitted ev (wk_entry (learn ev (start_work e))) = (go, e1)" by fastforce
  have "core e1 = core e"
    using admitted_core [of ev "wk_entry (learn ev (start_work e))"] unfolding a by (simp add: start_work_def)
  with assms a show ?thesis by (cases go) (auto simp: handle_event_def Let_def split: if_splits)
qed

lemma handle_event_entry: "handle_event now ev e = (Some w, e') \<Longrightarrow> wk_entry w = e'"
  by (auto simp: handle_event_def Let_def split: if_splits prod.splits bool.splits)

subsection \<open>Lemmas: context pressure\<close>

definition pressure_level :: "int \<Rightarrow> int" where
  "pressure_level pct = (if 90 \<le> pct then 90 else if 75 \<le> pct then 75 else 0)"

lemma noticed_self: "ctxPressureNoticed e = l \<Longrightarrow> e\<lparr>ctxPressureNoticed := l\<rparr> = e"
  by (cases e) simp

lemma contextPressure_spec:
  assumes n: "ctxPressureNoticed e \<in> {0, 75, 90}" and u: "lastUsage e = Some u" "0 < us_Size u" "0 < us_Used u"
  shows "contextPressureLocked e =
    (let pct = us_Used u * 100 div us_Size u; l = pressure_level pct in
     (if ctxPressureNoticed e < l then pressure_text u pct l else [], e\<lparr>ctxPressureNoticed := l\<rparr>))"
proof -
  define pct where "pct = us_Used u * 100 div us_Size u"
  have c: "contextPressureLocked e =
    (if pct < ctxPressureNoticed e then
       ([], e\<lparr>ctxPressureNoticed := if 90 \<le> pct then 90 else if 75 \<le> pct then 75 else 0\<rparr>)
     else
       let crossed = (if 90 \<le> pct \<and> ctxPressureNoticed e < 90 then 90 else if 75 \<le> pct \<and> ctxPressureNoticed e < 75 then 75 else 0) in
       if crossed = 0 then ([], e) else (pressure_text u pct crossed, e\<lparr>ctxPressureNoticed := crossed\<rparr>))"
    using u by (simp add: contextPressureLocked_def Let_def contextPressureThresholds_def pct_def)
  consider "90 \<le> pct" | "75 \<le> pct" "pct < 90" | "pct < 75" by linarith
  then show ?thesis
    unfolding c pct_def [symmetric] Let_def pressure_level_def using n
    by cases (auto simp: noticed_self)
qed

lemma contextPressure_noticed:
  "ctxPressureNoticed e \<in> {0, 75, 90} \<Longrightarrow> ctxPressureNoticed (snd (contextPressureLocked e)) \<in> {0, 75, 90}"
  by (auto simp: contextPressureLocked_def Let_def contextPressureThresholds_def split: option.split)

subsection \<open>Lemmas: turn ends and names\<close>

definition turn_end :: "event \<Rightarrow> bool" where
  "turn_end ev \<longleftrightarrow> ends_turn (ev_Type ev)"

lemma learn_other:
  "ev_Type ev \<notin> {TypeSessionStatus, TypeAvailableCommands, TypeMode, TypeSessionConfig, TypeCollaboration, TypeSessionTitle, TypeUsage} \<Longrightarrow>
   learn ev w = w"
  by (simp add: learn_def turn_defs split: option.split)

definition name_of :: "work \<Rightarrow> string \<times> string" where
  "name_of w = (m_Name (en_meta (wk_entry w)), m_NameSource (en_meta (wk_entry w)))"

lemma set_meta_name: "(\<And>m. m_Name (f m) = m_Name m \<and> m_NameSource (f m) = m_NameSource m) \<Longrightarrow> name_of (set_meta f w) = name_of w"
  by (simp add: set_meta_def name_of_def Let_def)

lemma name_of_upd [simp]:
  "name_of (w\<lparr>wk_reresolve := b\<rparr>) = name_of w" "name_of (w\<lparr>wk_autoClose := b\<rparr>) = name_of w"
  "en_meta e = en_meta (wk_entry w) \<Longrightarrow> name_of (w\<lparr>wk_entry := e\<rparr>) = name_of w"
  by (simp_all add: name_of_def)

lemma blocks_name [simp]:
  "name_of (on_commands ev w) = name_of w"
  "name_of (on_config ev w) = name_of w"
  "name_of (on_collaboration ev w) = name_of w"
  "name_of (on_mode ev w) = name_of w"
  by (simp_all add: on_commands_def on_config_def on_collaboration_def on_mode_def set_meta_name Let_def)

lemma status_meta_name [simp]: "m_Name (status_meta ev m) = m_Name m" "m_NameSource (status_meta ev m) = m_NameSource m"
  by (simp_all add: status_meta_def Let_def)

lemma on_status_name [simp]: "name_of (on_status ev w) = name_of w"
  by (simp add: on_status_def set_meta_name Let_def)

lemma on_usage_name [simp]: "name_of (on_usage ev w) = name_of w"
  by (simp add: on_usage_def set_meta_name Let_def split: option.split)

lemma on_title_name_cong: "name_of w = name_of w' \<Longrightarrow> name_of (on_title ev w) = name_of (on_title ev w')"
  by (auto simp: on_title_def set_meta_def name_of_def Let_def)

lemma learn_name: "name_of (learn ev w) = name_of (on_title ev w)"
  unfolding learn_def on_usage_name by (rule on_title_name_cong) simp

lemma admitted_meta [simp]: "en_meta (snd (admitted ev e)) = en_meta e"
  by (simp add: admitted_def compactionChangedLocked_def Let_def split: prod.split)

lemma accrue_name [simp]:
  "m_Name (en_meta (snd (accrueTurnCostLocked e))) = m_Name (en_meta e)"
  "m_NameSource (en_meta (snd (accrueTurnCostLocked e))) = m_NameSource (en_meta e)"
  by (simp_all add: accrueTurnCostLocked_def Let_def split: option.split)

lemma pressure_meta [simp]: "en_meta (snd (contextPressureLocked e)) = en_meta e"
  "lastUsage (snd (contextPressureLocked e)) = lastUsage e" "promptAt (snd (contextPressureLocked e)) = promptAt e"
  by (simp_all add: contextPressureLocked_def Let_def split: option.split)

lemma accrue_frame [simp]: "lastUsage (snd (accrueTurnCostLocked e)) = lastUsage e" "promptAt (snd (accrueTurnCostLocked e)) = promptAt e"
  by (simp_all add: accrueTurnCostLocked_def Let_def split: option.split)

lemma on_turn_name [simp]: "name_of (on_turn now ev w) = name_of w"
  by (simp add: on_turn_def name_of_def Let_def split_beta)

lemma on_silent_meta [simp]: "en_meta (wk_entry (on_silent ev w)) = en_meta (wk_entry w)"
  by (simp add: on_silent_def split: option.split)

lemma on_silent_name [simp]: "name_of (on_silent ev w) = name_of w"
  by (simp add: name_of_def)

lemma handle_event_name:
  assumes "handle_event now ev e = (r, e')"
  shows "(m_Name (en_meta e'), m_NameSource (en_meta e')) =
    (if title_withheld ev e then (m_Name (en_meta e), m_NameSource (en_meta e)) else name_of (on_title ev (start_work e)))"
proof -
  obtain go e1 where a: "admitted ev (wk_entry (learn ev (start_work e))) = (go, e1)" by fastforce
  let ?w = "(learn ev (start_work e))\<lparr>wk_entry := e1\<rparr>"
  have m: "en_meta e1 = en_meta (wk_entry (learn ev (start_work e)))"
    using admitted_meta [of ev "wk_entry (learn ev (start_work e))"] unfolding a by simp
  then have "name_of (on_silent ev (on_turn now ev ?w)) = name_of (on_title ev (start_work e))"
    "(m_Name (en_meta e1), m_NameSource (en_meta e1)) = name_of (on_title ev (start_work e))"
    by (simp_all add: learn_name [symmetric]) (simp add: name_of_def)
  with assms a show ?thesis
    by (cases go) (auto simp: handle_event_def Let_def name_of_def split: if_splits)
qed

text \<open>Handling an event that ends a turn.\<close>

lemma handle_turn_end:
  assumes "turn_end ev" "\<not> IsZero (promptAt e)"
  obtains w where "handle_event now ev e = (Some w, wk_entry w)"
    "en_meta (wk_entry w) = en_meta (snd (accrueTurnCostLocked e))" "lastUsage (wk_entry w) = lastUsage e" "promptAt (wk_entry w) = 0"
proof
  let ?w = "on_silent ev (on_turn now ev (start_work e))"
  have t: "ev_Type ev = TypeTurnComplete \<or> ev_Type ev = TypeError" using assms(1) by (simp add: turn_end_def ends_turn_def)
  have l: "learn ev (start_work e) = start_work e" using t by (intro learn_other) auto
  have a: "admitted ev e = (True, e)" using t by (auto simp: admitted_def)
  have s: "(start_work e)\<lparr>wk_entry := e\<rparr> = start_work e" by (simp add: start_work_def)
  have wk: "wk_entry (start_work e) = e" by (simp add: start_work_def)
  have n: "\<not> title_withheld ev e" using t by (auto simp: title_withheld_def)
  show "handle_event now ev e = (Some ?w, wk_entry ?w)"
    unfolding handle_event_def Let_def l wk a using n s by simp
  have e: "wk_entry (on_turn now ev (start_work e)) =
    snd (contextPressureLocked (snd (accrueTurnCostLocked (e\<lparr>promptAt := 0, firstOutputAt := 0\<rparr>))))"
    using assms(2) t by (auto simp: on_turn_def ends_turn_def isTurnOutput_def wk Let_def split_beta)
  have o: "lastUsage (wk_entry ?w) = lastUsage (wk_entry (on_turn now ev (start_work e)))"
    "promptAt (wk_entry ?w) = promptAt (wk_entry (on_turn now ev (start_work e)))"
    by (simp_all add: on_silent_def split: option.split)
  show "en_meta (wk_entry ?w) = en_meta (snd (accrueTurnCostLocked e))"
    by (simp add: e) (simp add: accrueTurnCostLocked_def Let_def split: option.split)
  show "lastUsage (wk_entry ?w) = lastUsage e" "promptAt (wk_entry ?w) = 0" by (simp_all add: o e)
qed

lemma group_digits_filter: "CHR '','' \<notin> set s \<Longrightarrow> filter (\<lambda>c. c \<noteq> CHR '','') (group_digits i s) = s"
  by (induction i s rule: group_digits.induct) auto

lemma nat_string_digits: "c \<in> set (nat_string n) \<Longrightarrow> 48 \<le> byte_of c \<and> byte_of c \<le> 57"
proof (induction n rule: nat_string.induct)
  case (1 n)
  show ?case
  proof (cases "n < 10")
    case True
    with 1(2) show ?thesis by (subst (asm) nat_string.simps) auto
  next
    case False
    then have "nat_string n = nat_string (n div 10) @ [char_of (48 + n mod 10)]" by (subst nat_string.simps) simp
    with 1(2) 1(1) [OF False] show ?thesis by auto
  qed
qed

lemma humanCount_digits: "0 \<le> n \<Longrightarrow> filter (\<lambda>c. c \<noteq> CHR '','') (humanCount n) = nat_string (nat n)"
proof -
  have c: "CHR '','' \<notin> set (nat_string (nat n))" using nat_string_digits [of "CHR '',''" "nat n"] by (auto simp: byte_of_def)
  then have "filter (\<lambda>c. c \<noteq> CHR '','') (nat_string (nat n)) = nat_string (nat n)" by (intro filter_True) auto
  with c show "0 \<le> n \<Longrightarrow> ?thesis" by (simp add: humanCount_def Let_def group_digits_filter)
qed

subsection \<open>Properties\<close>

text \<open>the context-pressure notice is a crossing. With usage known, the session afterwards remembers the
  highest threshold its usage has reached, and a notice is shown exactly when that is above what it
  remembered: once per climb past 75 or 90 percent, never on the way down, and again after a drop.\<close>

theorem context_pressure_crossing:
  assumes "ctxPressureNoticed e \<in> {0, 75, 90}" "lastUsage e = Some u" "0 < us_Size u" "0 < us_Used u"
  shows "contextPressureLocked e =
    (let pct = us_Used u * 100 div us_Size u; l = pressure_level pct in
     (if ctxPressureNoticed e < l then pressure_text u pct l else [], e\<lparr>ctxPressureNoticed := l\<rparr>))"
  using contextPressure_spec [OF assms] .

definition ex_usage :: "int \<Rightarrow> int \<Rightarrow> Usage" where
  "ex_usage used inp = \<lparr>us_Used = used, us_Size = 1000, us_Input = inp, us_Output = 5, us_Reasoning = 0, us_CacheRead = 0,
    us_CacheWrite = 0, us_CostUSD = None, us_SessionCost = None\<rparr>"

definition ex_entry :: entry where
  "ex_entry = (seeded_entry (zero_meta\<lparr>m_ID := ''s'', m_Provider := ''codex''\<rparr>) 7 empty_ring)\<lparr>lastUsage := Some (ex_usage 800 100)\<rparr>"

theorem context_pressure_crossing_witness:
  "ctxPressureNoticed (snd (contextPressureLocked ex_entry)) = 75 \<and> fst (contextPressureLocked ex_entry) \<noteq> []"
  using context_pressure_crossing [of ex_entry "ex_usage 800 100"]
  by (simp add: ex_entry_def ex_usage_def seeded_entry_def pressure_level_def pressure_text_def)

text \<open>the usage of one turn is added again for every later turn that reports none. The last report is
  never cleared, so two turn ends with a single report between them count its tokens and a turn
  twice.\<close>

theorem stale_usage_counted_again:
  assumes "lastUsage e = Some u" "0 < us_Input u" "turn_end ev1" "turn_end ev2"
    "\<not> IsZero (promptAt e)" "\<not> IsZero later"
  shows "\<exists>e1 e2 w1 w2. handle_event now ev1 e = (Some w1, e1) \<and>
    handle_event now' ev2 (markPromptStart later e1) = (Some w2, e2) \<and>
    m_InputTokens (en_meta e2) = m_InputTokens (en_meta e) + 2 * us_Input u \<and>
    m_Turns (en_meta e2) = m_Turns (en_meta e) + 2"
proof -
  obtain w1 where w1: "handle_event now ev1 e = (Some w1, wk_entry w1)"
    "en_meta (wk_entry w1) = en_meta (snd (accrueTurnCostLocked e))" "lastUsage (wk_entry w1) = lastUsage e"
    using handle_turn_end [OF assms(3,5)] by metis
  let ?e = "markPromptStart later (wk_entry w1)"
  have "\<not> IsZero (promptAt ?e)" using assms(6) by (simp add: markPromptStart_def)
  then obtain w2 where w2: "handle_event now' ev2 ?e = (Some w2, wk_entry w2)"
    "en_meta (wk_entry w2) = en_meta (snd (accrueTurnCostLocked ?e))"
    using handle_turn_end [OF assms(4)] by metis
  have "m_InputTokens (en_meta (wk_entry w2)) = m_InputTokens (en_meta e) + 2 * us_Input u \<and>
    m_Turns (en_meta (wk_entry w2)) = m_Turns (en_meta e) + 2"
    using w1 w2(2) assms(1,2) by (simp add: accrueTurnCostLocked_def markPromptStart_def Let_def)
  with w1(1) w2(1) show ?thesis by blast
qed

definition ex_done :: event where "ex_done = zero_event\<lparr>ev_Type := TypeTurnComplete\<rparr>"

theorem stale_usage_counted_again_witness:
  "\<exists>e1 e2 w1 w2. handle_event 9 ex_done (markPromptStart 1 ex_entry) = (Some w1, e1) \<and>
    handle_event 12 ex_done (markPromptStart 10 e1) = (Some w2, e2) \<and>
    m_InputTokens (en_meta e2) = 200 \<and> m_Turns (en_meta e2) = 2"
  using stale_usage_counted_again [of "markPromptStart 1 ex_entry" "ex_usage 800 100" ex_done ex_done 10 9 12]
  by (simp add: ex_entry_def ex_usage_def seeded_entry_def markPromptStart_def IsZero_def turn_end_def ends_turn_def ex_done_def
      zero_event_def zero_meta_def)

text \<open>a name the user set is never replaced by a title the agent generated. Such a title is withheld
  altogether; the name changes only by a title that is not flagged as generated, and stays the
  user's.\<close>

theorem user_name_kept:
  assumes user: "effectiveNameSource (m_Name (en_meta e)) (m_NameSource (en_meta e)) = NameSourceUser"
    and h: "handle_event now ev e = (r, e')"
  shows "effectiveNameSource (m_Name (en_meta e')) (m_NameSource (en_meta e')) = NameSourceUser \<and>
    (m_Name (en_meta e') = m_Name (en_meta e) \<or>
     ev_Type ev = TypeSessionTitle \<and> \<not> ev_TitleGenerated ev \<and> TrimSpace (ev_Title ev) \<noteq> [] \<and>
     m_Name (en_meta e') = TrimSpace (ev_Title ev)) \<and>
    (ev_Type ev = TypeSessionTitle \<and> ev_TitleGenerated ev \<longrightarrow> r = None)"
proof (cases "title_withheld ev e")
  case True
  with h handle_event_name [OF h] user show ?thesis by (simp add: handle_event_def)
next
  case False
  then have g: "\<not> (ev_Type ev = TypeSessionTitle \<and> ev_TitleGenerated ev)" using user by (auto simp: title_withheld_def)
  have "name_of (on_title ev (start_work e)) =
    (if ev_Type ev = TypeSessionTitle \<and> TrimSpace (ev_Title ev) \<noteq> [] \<and> TrimSpace (ev_Title ev) \<noteq> m_Name (en_meta e)
     then (TrimSpace (ev_Title ev), NameSourceUser) else (m_Name (en_meta e), m_NameSource (en_meta e)))"
    using g by (auto simp: on_title_def set_meta_def name_of_def start_work_def Let_def)
  then have n: "(m_Name (en_meta e'), m_NameSource (en_meta e')) = \<dots>" using False handle_event_name [OF h] by simp
  have s: "effectiveNameSource x NameSourceUser = NameSourceUser" for x
    by (simp add: effectiveNameSource_def NameSourceUser_def)
  show ?thesis using n g user s by (cases "ev_Type ev = TypeSessionTitle \<and> TrimSpace (ev_Title ev) \<noteq> [] \<and> TrimSpace (ev_Title ev) \<noteq> m_Name (en_meta e)") auto
qed

definition ex_title :: "bool \<Rightarrow> event" where
  "ex_title g = zero_event\<lparr>ev_Type := TypeSessionTitle, ev_Title := ''fix'', ev_TitleGenerated := g\<rparr>"

definition named_entry :: entry where
  "named_entry = ex_entry\<lparr>en_meta := zero_meta\<lparr>m_Name := ''mine'', m_NameSource := NameSourceUser\<rparr>\<rparr>"

theorem user_name_kept_witness:
  "fst (handle_event 1 (ex_title True) named_entry) = None \<and>
   m_Name (en_meta (snd (handle_event 1 (ex_title True) named_entry))) = ''mine''"
proof -
  have u: "effectiveNameSource (m_Name (en_meta named_entry)) (m_NameSource (en_meta named_entry)) = NameSourceUser"
    by (simp add: named_entry_def effectiveNameSource_def NameSourceUser_def zero_meta_def)
  have t: "ev_Type (ex_title True) = TypeSessionTitle" "ev_TitleGenerated (ex_title True)" by (simp_all add: ex_title_def)
  show ?thesis
    using user_name_kept [OF u surjective_pairing, of 1 "ex_title True"] t by (simp add: named_entry_def)
qed

text \<open>The memory of compactions stays bounded; an event is dropped only for a sum equal to the one kept
  for its id. The sum is over the fields separated by NUL, so two states whose fields themselves
  contain NUL can have the same sum, and the second is dropped although it is a change.\<close>

lemma compaction_bounded:
  assumes "distinct (map fst (compactionSeen e))" "length (compactionSeen e) \<le> maxCompactionStates"
  shows "distinct (map fst (compactionSeen (snd (compactionChangedLocked ev e)))) \<and>
    length (compactionSeen (snd (compactionChangedLocked ev e))) \<le> maxCompactionStates"
proof -
  have "length (AList.update k v xs) \<le> Suc (length xs)" for k v and xs :: "(string \<times> uint64) list"
    by (induction xs) auto
  then have "length (AList.update k v xs) \<le> maxCompactionStates" if "length xs < maxCompactionStates" for k v and xs :: "(string \<times> uint64) list"
    using that le_trans Suc_leI by blast
  moreover have "0 < maxCompactionStates" by (simp add: maxCompactionStates_def)
  ultimately show ?thesis
    using assms by (auto simp: compactionChangedLocked_def Let_def intro!: distinct_update)
qed

definition ex_compaction :: "string \<Rightarrow> string \<Rightarrow> event" where
  "ex_compaction summary err = zero_event\<lparr>ev_Type := TypeCompaction, ev_CompactionID := ''c'', ev_CompactionSummary := summary,
    ev_CompactionError := err\<rparr>"

lemma compaction_change_dropped:
  "ex_compaction (a @ CHR 0x00 # b) [] \<noteq> ex_compaction a (b @ [CHR 0x00]) \<and>
   fst (compactionChangedLocked (ex_compaction a (b @ [CHR 0x00]))
     (snd (compactionChangedLocked (ex_compaction (a @ CHR 0x00 # b) []) e))) = False"
proof -
  have "fnv1aString h (s @ CHR 0x00 # t) = fnv1aString (fnv1aByte (fnv1aString h s) 0) t" for h s t
    by (simp add: fnv1aString_def byte_of_def)
  moreover have "fnv1aString h [] = h" for h by (simp add: fnv1aString_def)
  ultimately have "compaction_sum (ex_compaction (a @ CHR 0x00 # b) []) = compaction_sum (ex_compaction a (b @ [CHR 0x00]))"
    by (simp add: compaction_sum_def ex_compaction_def zero_event_def)
  moreover have "ev_CompactionID (ex_compaction x y) = ''c''" for x y by (simp add: ex_compaction_def)
  ultimately have "fst (compactionChangedLocked (ex_compaction a (b @ [CHR 0x00]))
     (snd (compactionChangedLocked (ex_compaction (a @ CHR 0x00 # b) []) e))) = False"
    by (auto simp: compactionChangedLocked_def Let_def update_conv)
  moreover have "ex_compaction (a @ CHR 0x00 # b) [] \<noteq> ex_compaction a (b @ [CHR 0x00])"
    by (simp add: ex_compaction_def zero_event_def)
  ultimately show ?thesis by simp
qed

end
