(* ===== verification/Pump.thy ===== *)
theory Pump
  imports Turn
begin

text \<open>
  From a provider event to the clients: the loop body of \<open>pump\<close>, \<open>emitEvent\<close>,
  \<open>emitEventLocked\<close>, \<open>advertiseCommandsLocked\<close> and \<open>PendingAsks\<close> of
  \<open>internal/session\<close>, and the marks of \<open>silent.go\<close>.

  An entry is identified by its id and by the identity of its provider session: \<open>create\<close> makes
  a new entry for a new provider session and never changes it, so \<open>e == delivering\<close> is that
  comparison. What \<open>pump\<close> does after it has dropped the manager's lock is a list of
  \<open>act\<close>s, done in order while it still holds the entry's delivery lock. Run without interruption
  they are the sequential model; \<open>dstep\<close> interleaves them with every other thread.

  The commands a session offers depend on the provider, and are the argument \<open>commands\<close>: a
  function of the silent commands of its provider and the entry.
\<close>

record SilentMark =
  sm_Provider :: string
  sm_Version :: string
  sm_Host :: string
  sm_Command :: string
  sm_MarkedAt :: gotime

record manager =
  mg_sessions :: "(string \<times> entry) list"
  mg_gen :: nat
  mg_globalBudget :: int
  mg_marks :: "SilentMark list"
  mg_host :: string

text \<open>What the environment answers while one event is handled: the clock, the agent's version, whether
  the file of marks could be written, case mapping, and the provider's command list.\<close>

record env =
  xv_now :: gotime
  xv_version :: string
  xv_marks_written :: bool
  xv_ToLower :: "string \<Rightarrow> string"
  xv_commands :: "string list \<Rightarrow> entry \<Rightarrow> RemoteCommand list"

definition entry_at :: "string \<Rightarrow> nat \<Rightarrow> manager \<Rightarrow> entry option" where
  "entry_at i s mg = (case map_of (mg_sessions mg) i of Some e \<Rightarrow> if en_sess e = s then Some e else None | None \<Rightarrow> None)"

definition put_entry :: "string \<Rightarrow> entry \<Rightarrow> manager \<Rightarrow> manager" where
  "put_entry i e mg = mg\<lparr>mg_sessions := AList.update i e (mg_sessions mg)\<rparr>"

subsection \<open>Appending and the budget\<close>

definition append_entry :: "event \<Rightarrow> nat \<Rightarrow> entry \<Rightarrow> event \<times> entry" where
  "append_entry ev gen e =
    (case appendHistoryLocked ev ((en_ring e)\<lparr>histGenSeq := gen\<rparr>) of (ev1, r) \<Rightarrow> (ev1, e\<lparr>en_ring := r\<rparr>))"

definition sess_of :: "entry \<Rightarrow> sess" where
  "sess_of e = \<lparr>s_ring = en_ring e, s_dead = en_dead e, lastEventAt = en_lastEventAt e, globalTrimNoticed = en_globalTrimNoticed e\<rparr>"

definition trimmed_entry :: "(string \<times> sess) list \<Rightarrow> string \<Rightarrow> entry \<Rightarrow> entry" where
  "trimmed_entry ss i e = (case map_of ss i of
     None \<Rightarrow> e | Some s \<Rightarrow> e\<lparr>en_ring := s_ring s, en_globalTrimNoticed := globalTrimNoticed s\<rparr>)"

definition budget_manager :: "string \<Rightarrow> manager \<Rightarrow> string list \<times> manager" where
  "budget_manager active mg =
    (let st = enforceGlobalBudgetLocked (mg_globalBudget mg) active (mg_gen mg) (map (\<lambda>(i, e). (i, sess_of e)) (mg_sessions mg))
     in (firstTrimmed st,
         mg\<lparr>mg_gen := bs_gen st, mg_sessions := map (\<lambda>(i, e). (i, trimmed_entry (bs_sessions st) i e)) (mg_sessions mg)\<rparr>))"

definition update_entry :: "string \<Rightarrow> (entry \<Rightarrow> entry) \<Rightarrow> manager \<Rightarrow> manager" where
  "update_entry i f mg = (case map_of (mg_sessions mg) i of None \<Rightarrow> mg | Some e \<Rightarrow> put_entry i (f e) mg)"

subsection \<open>The section under the lock\<close>

record pumped =
  pd_event :: event
  pd_work :: work
  pd_abandoned :: "event list"
  pd_receipt :: "event option"
  pd_trimmed :: "string list"

text \<open>The outer \<open>None\<close> is a pass that never returns, the inner one an event that is not this pump's
  to handle any more, or is withheld.\<close>

definition pump_locked :: "gotime \<Rightarrow> string \<Rightarrow> nat \<Rightarrow> event \<Rightarrow> manager \<Rightarrow> (pumped option \<times> manager) option" where
  "pump_locked now i s ev mg =
    (case entry_at i s mg of
       None \<Rightarrow> Some (None, mg)
     | Some e \<Rightarrow>
         (case handle_event now ev (snd (noteReplay ev e)) of
            (None, e1) \<Rightarrow> Some (None, put_entry i e1 mg)
          | (Some w, e1) \<Rightarrow>
              (case cutToolEventLocked ev (en_toolOutputs e1) of
                 None \<Rightarrow> None
               | Some (ev1, outs) \<Rightarrow>
                   (case append_entry ev1 (mg_gen mg) (e1\<lparr>en_toolOutputs := outs\<rparr>) of
                      (ev2, e2) \<Rightarrow>
                        let e3 = e2\<lparr>en_lastEventAt := now\<rparr>;
                            b = budget_manager i (put_entry i e3 (mg\<lparr>mg_gen := histGenSeq (en_ring e3)\<rparr>))
                        in Some (Some \<lparr>pd_event = ev2, pd_work = w, pd_abandoned = abandoned_asks now ev2 e3 i,
                                       pd_receipt = receipt_request ev2 e3, pd_trimmed = fst b\<rparr>,
                                 update_entry i (track_asks ev2) (snd b))))))"

subsection \<open>What follows it\<close>

datatype act = DoSend event | DoEmit event | DoAdvertise

datatype effect =
    Sent string event
  | TurnLogged turnLatency
  | ReceiptAsked string event event
  | HistoryScheduled string
  | PersistNow Meta
  | PersistLater string
  | AutoClose string
  | EmitStored string event

definition notice :: "gotime \<Rightarrow> string \<Rightarrow> string \<Rightarrow> event" where
  "notice now i txt = zero_event\<lparr>ev_Type := TypeNotice, ev_SessionID := i, ev_Timestamp := now, ev_Text := txt\<rparr>"

text \<open>What \<open>pump\<close> does after it dropped the lock and before it delivers, and the deliveries in their order.\<close>

definition records :: "string \<Rightarrow> pumped \<Rightarrow> effect list" where
  "records i p =
    (let ev = pd_event p; w = pd_work p in
     (case wk_turn w of Some t \<Rightarrow> [TurnLogged t] | None \<Rightarrow> []) @
     (case pd_receipt p of
        Some req \<Rightarrow> if \<not> ev_Replay ev \<and> ev_Type ev = TypePermissionResolved then [ReceiptAsked i ev req] else []
      | None \<Rightarrow> []) @
     [HistoryScheduled i] @
     (case wk_persist w of
        Some m \<Rightarrow> if wk_autoClose w \<or> m_Status m = StatusDisconnected then [PersistNow m] else [PersistLater (m_ID m)]
      | None \<Rightarrow> []))"

definition followups :: "gotime \<Rightarrow> string \<Rightarrow> pumped \<Rightarrow> act list" where
  "followups now i p =
    (if ev_Replay (pd_event p) then [] else [DoSend (pd_event p)]) @
    map DoEmit (pd_abandoned p) @
    (if wk_reresolve (pd_work p) then [DoAdvertise] else []) @
    (if wk_pressure (pd_work p) \<noteq> [] then [DoEmit (notice now i (wk_pressure (pd_work p)))] else [])"

definition silent_commands :: "string \<Rightarrow> string \<Rightarrow> manager \<Rightarrow> string list" where
  "silent_commands prov version mg =
    (if mg_host mg = [] then []
     else map sm_Command (filter (\<lambda>m. sm_Provider m = prov \<and> sm_Version m = version \<and> sm_Host m = mg_host mg) (mg_marks mg)))"

text \<open>The section of \<open>emitEventLocked\<close> and of \<open>advertiseCommandsLocked\<close> under the manager's
  lock: what is left to do after it.\<close>

definition emit_section :: "string \<Rightarrow> nat \<Rightarrow> event \<Rightarrow> manager \<Rightarrow> effect list \<times> act list \<times> manager" where
  "emit_section i s ev mg =
    (case entry_at i s mg of
       None \<Rightarrow> ([], [], mg)
     | Some e \<Rightarrow>
         (case append_entry ev (mg_gen mg) e of
            (ev1, e1) \<Rightarrow> ([HistoryScheduled i], [DoSend ev1], put_entry i e1 (mg\<lparr>mg_gen := histGenSeq (en_ring e1)\<rparr>))))"

definition advertise_section :: "env \<Rightarrow> string \<Rightarrow> nat \<Rightarrow> manager \<Rightarrow> act list \<times> manager" where
  "advertise_section x i s mg =
    (case entry_at i s mg of
       None \<Rightarrow> ([], mg)
     | Some e \<Rightarrow>
         let cs = xv_commands x (silent_commands (m_Provider (en_meta e)) (xv_version x) mg) e in
         if advertised e = cs then ([], mg)
         else ([DoEmit (zero_event\<lparr>ev_Type := TypeRemoteCommands, ev_SessionID := i, ev_Timestamp := xv_now x, ev_RemoteCommands := cs\<rparr>)],
               put_entry i (e\<lparr>advertised := cs\<rparr>) mg))"

fun act_section :: "env \<Rightarrow> string \<Rightarrow> nat \<Rightarrow> act \<Rightarrow> manager \<Rightarrow> effect list \<times> act list \<times> manager" where
  "act_section x i s (DoSend ev) mg = ([Sent i ev], [], mg)"
| "act_section x i s (DoEmit ev) mg = emit_section i s ev mg"
| "act_section x i s DoAdvertise mg = ([], advertise_section x i s mg)"

text \<open>The acts run one after another, each with what it leaves to do.\<close>

fun act_weight :: "act \<Rightarrow> nat" where
  "act_weight (DoSend ev) = 1" | "act_weight (DoEmit ev) = 2" | "act_weight DoAdvertise = 3"

lemma act_section_weight:
  "act_section x i s a mg = (fx, more_acts, mg1) \<Longrightarrow> sum_list (map act_weight more_acts) < act_weight a"
  by (cases a) (auto simp: emit_section_def advertise_section_def Let_def split: option.splits prod.splits if_splits)

function run_acts :: "env \<Rightarrow> string \<Rightarrow> nat \<Rightarrow> act list \<Rightarrow> manager \<Rightarrow> effect list \<times> manager" where
  "run_acts x i s [] mg = ([], mg)"
| "run_acts x i s (a # as) mg =
    (case act_section x i s a mg of
       (fx, more_acts, mg1) \<Rightarrow> (case run_acts x i s (more_acts @ as) mg1 of (fx2, mg2) \<Rightarrow> (fx @ fx2, mg2)))"
  by pat_completeness auto
termination
  by (relation "measure (\<lambda>(x, i, s, as, mg). sum_list (map act_weight as))") (auto dest: act_section_weight [OF sym])


subsection \<open>Silent commands\<close>

definition silent_add :: "env \<Rightarrow> string \<Rightarrow> string \<Rightarrow> manager \<Rightarrow> bool \<times> manager" where
  "silent_add x prov cmd mg =
    (if mg_host mg = [] then (False, mg)
     else
       let c = xv_ToLower x (TrimPrefix cmd ''/'') in
       if list_ex (\<lambda>m. sm_Provider m = prov \<and> sm_Version m = xv_version x \<and> sm_Host m = mg_host mg \<and> sm_Command m = c) (mg_marks mg)
       then (False, mg)
       else if xv_marks_written x then
         (True, mg\<lparr>mg_marks := mg_marks mg @
           [\<lparr>sm_Provider = prov, sm_Version = xv_version x, sm_Host = mg_host mg, sm_Command = c, sm_MarkedAt = xv_now x\<rparr>]\<rparr>)
       else (False, mg))"

definition silent_text :: "string \<Rightarrow> string" where
  "silent_text cmd =
    [CHR 0xE2, CHR 0x80, CHR 0x9C] @ ''/'' @ cmd @ [CHR 0xE2, CHR 0x80, CHR 0x9D] @
    '' produced nothing over the remote connection. It is marked unavailable here for this agent version.''"

text \<open>\<open>emitEvent\<close> and \<open>advertiseCommands\<close>, with the delivery lock taken for each.\<close>

definition emitEvent :: "env \<Rightarrow> string \<Rightarrow> event \<Rightarrow> manager \<Rightarrow> effect list \<times> manager" where
  "emitEvent x i ev mg =
    (case map_of (mg_sessions mg) i of
       None \<Rightarrow> ([EmitStored i ev], mg)
     | Some e \<Rightarrow> run_acts x i (en_sess e) [DoEmit ev] mg)"

definition advertiseCommands :: "env \<Rightarrow> string \<Rightarrow> manager \<Rightarrow> effect list \<times> manager" where
  "advertiseCommands x i mg =
    (case map_of (mg_sessions mg) i of
       None \<Rightarrow> ([], mg)
     | Some e \<Rightarrow> run_acts x i (en_sess e) [DoAdvertise] mg)"

definition noteSilent :: "env \<Rightarrow> string \<Rightarrow> string \<Rightarrow> string \<Rightarrow> manager \<Rightarrow> effect list \<times> manager" where
  "noteSilent x i prov cmd mg =
    (case silent_add x prov cmd mg of
       (added, mg1) \<Rightarrow>
         (case emitEvent x i (notice (xv_now x) i (silent_text cmd)) mg1 of
            (fx, mg2) \<Rightarrow>
              (if added then (case advertiseCommands x i mg2 of (fx2, mg3) \<Rightarrow> (fx @ fx2, mg3)) else (fx, mg2))))"

subsection \<open>The pump\<close>

definition trim_text :: string where
  "trim_text = ''Older parts of this transcript were dropped to stay inside the host's memory budget. '' @
    ''The conversation itself is kept; tool output and status updates go first.''"

fun notify_trimmed :: "env \<Rightarrow> string list \<Rightarrow> manager \<Rightarrow> effect list \<times> manager" where
  "notify_trimmed x [] mg = ([], mg)"
| "notify_trimmed x (i # is) mg =
    (case emitEvent x i (notice (xv_now x) i trim_text) mg of
       (fx, mg1) \<Rightarrow> (case notify_trimmed x is mg1 of (fx2, mg2) \<Rightarrow> (fx @ fx2, mg2)))"

definition pump_event :: "env \<Rightarrow> string \<Rightarrow> nat \<Rightarrow> event \<Rightarrow> manager \<Rightarrow> (effect list \<times> manager) option" where
  "pump_event x i s ev mg =
    (case pump_locked (xv_now x) i s ev mg of
       None \<Rightarrow> None
     | Some (None, mg1) \<Rightarrow> Some ([], mg1)
     | Some (Some p, mg1) \<Rightarrow>
         (case run_acts x i s (followups (xv_now x) i p) mg1 of
            (fx2, mg2) \<Rightarrow>
              (case (case wk_silent (pd_work p) of None \<Rightarrow> ([], mg2) | Some (cmd, prov) \<Rightarrow> noteSilent x i prov cmd mg2) of
                 (fx3, mg3) \<Rightarrow>
                   (case notify_trimmed x (pd_trimmed p) mg3 of
                      (fx4, mg4) \<Rightarrow>
                        Some (records i p @ fx2 @ fx3 @ fx4 @ (if wk_autoClose (pd_work p) then [AutoClose i] else []), mg4)))))"

text \<open>A live session's pump over a stream of events, until it stops reading.\<close>

definition stops :: "effect list \<Rightarrow> bool" where
  "stops fx \<longleftrightarrow> (\<exists>i. AutoClose i \<in> set fx)"

fun pump_run :: "string \<Rightarrow> nat \<Rightarrow> (env \<times> event) list \<Rightarrow> manager \<Rightarrow> (effect list \<times> manager) option" where
  "pump_run i s [] mg = Some ([], mg)"
| "pump_run i s ((x, ev) # evs) mg =
    (case pump_event x i s ev mg of
       None \<Rightarrow> None
     | Some (fx, mg1) \<Rightarrow>
         if stops fx then Some (fx, mg1)
         else (case pump_run i s evs mg1 of None \<Rightarrow> None | Some (fx2, mg2) \<Rightarrow> Some (fx @ fx2, mg2)))"

subsection \<open>Open asks\<close>

definition askID :: "event \<Rightarrow> string" where
  "askID ev = (if ev_PermissionID ev \<noteq> [] then ev_PermissionID ev else ev_QuestionID ev)"

definition ask_less :: "event \<Rightarrow> event \<Rightarrow> bool" where
  "ask_less a b =
    (if ev_SessionID a \<noteq> ev_SessionID b then string_less (ev_SessionID a) (ev_SessionID b)
     else if ev_Seq a \<noteq> ev_Seq b then ev_Seq a < ev_Seq b
     else string_less (askID a) (askID b))"

definition asks_visible :: "string \<Rightarrow> entry \<Rightarrow> bool" where
  "asks_visible d e \<longleftrightarrow> \<not> (en_dead e \<or> OwnerDeviceID (en_meta e) \<noteq> [] \<and> OwnerDeviceID (en_meta e) \<noteq> d)"

definition entry_asks :: "string \<Rightarrow> entry \<Rightarrow> event list" where
  "entry_asks i e = map (\<lambda>ev. ev\<lparr>ev_SessionID := i\<rparr>) (map snd (pendingPermissions e) @ map snd (pendingQuestions e))"

definition PendingAsks :: "string \<Rightarrow> manager \<Rightarrow> event list" where
  "PendingAsks d mg = SliceStable ask_less
    (concat (map (\<lambda>(i, e). if asks_visible d e then entry_asks i e else []) (mg_sessions mg)))"

subsection \<open>Lemmas: what an append does to the counter\<close>

text \<open>The fields of an event that deliveries and asks are read from.\<close>

definition ask_key :: "event \<Rightarrow> event_type \<times> string \<times> string \<times> bool" where
  "ask_key ev = (ev_Type ev, ev_PermissionID ev, ev_QuestionID ev, ev_Replay ev)"

lemma enforce_rseq [simp]: "rseq (snd (enforceHistoryBudgetLocked e)) = rseq e"
  by (auto simp: enforceHistoryBudgetLocked_def Let_def split: prod.split option.split)

lemma trimTo_rseq [simp]: "rseq (snd (trimToLocked b e)) = rseq e"
  by (auto simp: trimToLocked_def split: prod.split)

lemma apply_identity_key: "ask_key (fst (apply_identity ev e)) = ask_key ev"
  by (auto simp: apply_identity_def ask_key_def Let_def split: prod.split)

lemma push_row_seq [simp]: "rseq (snd (push_row ev e)) = (rseq e + 1) mod 2 ^ 64" "fst (push_row ev e) = ev\<lparr>ev_Seq := (rseq e + 1) mod 2 ^ 64\<rparr>"
  by (simp_all add: push_row_def indexReplayLocked_def Let_def)

lemma append_key: "ask_key (fst (appendHistoryLocked ev e)) = ask_key ev"
proof -
  have "ask_key (ev'\<lparr>ev_Seq := n\<rparr>) = ask_key ev'" for ev' n by (simp add: ask_key_def)
  then show ?thesis by (simp add: append_cases Let_def apply_identity_key)
qed

lemma append_counter:
  assumes "rseq e + 1 < 2 ^ 64"
  shows "rseq e \<le> rseq (snd (appendHistoryLocked ev e))" "rseq (snd (appendHistoryLocked ev e)) \<le> rseq e + 1"
    "\<not> ev_Replay ev \<Longrightarrow> ev_Seq (fst (appendHistoryLocked ev e)) = rseq e + 1 \<and> rseq (snd (appendHistoryLocked ev e)) = rseq e + 1"
proof -
  have m: "(rseq e + 1) mod 2 ^ 64 = rseq e + 1" using assms by simp
  show "rseq e \<le> rseq (snd (appendHistoryLocked ev e))" "rseq (snd (appendHistoryLocked ev e)) \<le> rseq e + 1"
    using m by (simp_all add: append_cases Let_def)
  show "\<not> ev_Replay ev \<Longrightarrow> ev_Seq (fst (appendHistoryLocked ev e)) = rseq e + 1 \<and> rseq (snd (appendHistoryLocked ev e)) = rseq e + 1"
    using m by (simp add: append_cases Let_def replayed_def)
qed

lemma append_entry_fields:
  assumes "append_entry ev g e = (ev1, e1)"
  shows "e1 = e\<lparr>en_ring := snd (appendHistoryLocked ev ((en_ring e)\<lparr>histGenSeq := g\<rparr>))\<rparr>"
    "ev1 = fst (appendHistoryLocked ev ((en_ring e)\<lparr>histGenSeq := g\<rparr>))" "ask_key ev1 = ask_key ev"
  using assms append_key [of ev "(en_ring e)\<lparr>histGenSeq := g\<rparr>"] by (auto simp: append_entry_def split: prod.splits)

lemma append_entry_counter:
  assumes "append_entry ev g e = (ev1, e1)" "rseq (en_ring e) + 1 < 2 ^ 64"
  shows "rseq (en_ring e) \<le> rseq (en_ring e1)"
    "\<not> ev_Replay ev \<Longrightarrow> ev_Seq ev1 = rseq (en_ring e) + 1 \<and> rseq (en_ring e1) = rseq (en_ring e) + 1"
proof -
  let ?r = "(en_ring e)\<lparr>histGenSeq := g\<rparr>"
  have b: "rseq ?r + 1 < 2 ^ 64" using assms(2) by simp
  show "rseq (en_ring e) \<le> rseq (en_ring e1)"
    "\<not> ev_Replay ev \<Longrightarrow> ev_Seq ev1 = rseq (en_ring e) + 1 \<and> rseq (en_ring e1) = rseq (en_ring e) + 1"
    using append_counter [OF b, of ev] append_entry_fields [OF assms(1)] by simp_all
qed

subsection \<open>Lemmas: the sessions\<close>

lemma map_of_put [simp]: "map_of (mg_sessions (put_entry i e mg)) = (map_of (mg_sessions mg))(i \<mapsto> e)"
  by (simp add: put_entry_def update_conv')

lemma map_of_update_entry:
  "map_of (mg_sessions (update_entry i f mg)) j = (if j = i then map_option f (map_of (mg_sessions mg) i) else map_of (mg_sessions mg) j)"
  by (auto simp: update_entry_def split: option.split)

lemma entry_at_map_of: "entry_at i s mg = Some e \<longleftrightarrow> map_of (mg_sessions mg) i = Some e \<and> en_sess e = s"
  by (auto simp: entry_at_def split: option.splits if_splits)

lemma map_of_map_second: "map_of (map (\<lambda>(i, e). (i, f i e)) xs) j = map_option (f j) (map_of xs j)"
  by (induction xs) auto

lemma map_of_budget:
  "map_of (mg_sessions (snd (budget_manager a mg))) j =
    map_option (trimmed_entry (bs_sessions (enforceGlobalBudgetLocked (mg_globalBudget mg) a (mg_gen mg)
      (map (\<lambda>(i, e). (i, sess_of e)) (mg_sessions mg)))) j) (map_of (mg_sessions mg) j)"
  by (simp add: budget_manager_def Let_def map_of_map_second)

text \<open>Trimming moves no counter.\<close>

definition counters :: "budget_state \<Rightarrow> string \<rightharpoonup> nat" where
  "counters st i = map_option (rseq \<circ> s_ring) (map_of (bs_sessions st) i)"

lemma trim_session_counters: "counters (trim_session share i st) = counters st"
proof (cases "map_of (bs_sessions st) i")
  case None
  then show ?thesis by (simp add: trim_session_def)
next
  case (Some s)
  obtain c r where t: "trimToLocked share ((s_ring s)\<lparr>histGenSeq := bs_gen st\<rparr>) = (c, r)" by fastforce
  then have "rseq r = rseq (s_ring s)" using trimTo_rseq [of share "(s_ring s)\<lparr>histGenSeq := bs_gen st\<rparr>"] by simp
  with Some t show ?thesis by (cases c) (auto simp: trim_session_def counters_def update_conv' fun_eq_iff)
qed

lemma trim_cold_counters: "counters (trim_cold budget share is st) = counters st"
  by (induction budget share "is" st rule: trim_cold.induct) (auto simp: trim_session_counters)

lemma enforceGlobal_counters:
  "counters (enforceGlobalBudgetLocked gb a gen ss) i = map_option (rseq \<circ> s_ring) (map_of ss i)"
proof -
  have s: "counters (start_state gen ss) i = map_option (rseq \<circ> s_ring) (map_of ss i)"
    by (simp add: counters_def start_state_def)
  then have "counters (cold_state gb a gen ss) i = map_option (rseq \<circ> s_ring) (map_of ss i)"
    by (simp add: cold_state_def trim_cold_counters)
  with s show ?thesis unfolding enforceGlobal_unfold by (simp add: trim_session_counters)
qed

definition seq_at :: "string \<times> nat \<Rightarrow> manager \<Rightarrow> nat option" where
  "seq_at k mg = map_option (rseq \<circ> en_ring) (entry_at (fst k) (snd k) mg)"

text \<open>There is a next sequence number.\<close>

definition room_at :: "string \<times> nat \<Rightarrow> manager \<Rightarrow> bool" where
  "room_at k mg \<longleftrightarrow> (\<forall>n. seq_at k mg = Some n \<longrightarrow> n + 1 < 2 ^ 64)"

lemma trimmed_entry_frame [simp]: "en_sess (trimmed_entry ss i e) = en_sess e"
  "pendingPermissions (trimmed_entry ss i e) = pendingPermissions e" "pendingQuestions (trimmed_entry ss i e) = pendingQuestions e"
  "en_toolOutputs (trimmed_entry ss i e) = en_toolOutputs e"
  by (simp_all add: trimmed_entry_def split: option.split)

lemma budget_seq: "seq_at k (snd (budget_manager a mg)) = seq_at k mg"
proof (cases "map_of (mg_sessions mg) (fst k)")
  case None
  then show ?thesis by (simp add: seq_at_def entry_at_def map_of_budget)
next
  case (Some e)
  let ?ss = "map (\<lambda>(i, e). (i, sess_of e)) (mg_sessions mg)"
  let ?st = "enforceGlobalBudgetLocked (mg_globalBudget mg) a (mg_gen mg) ?ss"
  have "counters ?st (fst k) = Some (rseq (en_ring e))"
    unfolding enforceGlobal_counters map_of_map_second [where f = "\<lambda>i. sess_of"] using Some by (simp add: sess_of_def)
  then have "rseq (en_ring (trimmed_entry (bs_sessions ?st) (fst k) e)) = rseq (en_ring e)"
    by (auto simp: counters_def trimmed_entry_def)
  with Some show ?thesis by (simp add: seq_at_def entry_at_def map_of_budget)
qed

subsection \<open>Lemmas: the sections\<close>

lemma cut_key: "cutToolEventLocked ev s = Some (ev1, s1) \<Longrightarrow> ask_key ev1 = ask_key ev"
  by (auto simp: cutToolEventLocked_def ask_key_def shown_event_def split: if_splits)

lemma key_replay: "ask_key a = ask_key b \<Longrightarrow> ev_Replay a = ev_Replay b"
  by (simp add: ask_key_def)

lemma pump_locked_Some:
  assumes "pump_locked now i s ev mg = Some (Some p, mg')"
  obtains e e1 ev1 outs e2 mg2 where
    "entry_at i s mg = Some e" "handle_event now ev (snd (noteReplay ev e)) = (Some (pd_work p), e1)"
    "cutToolEventLocked ev (en_toolOutputs e1) = Some (ev1, outs)"
    "append_entry ev1 (mg_gen mg) (e1\<lparr>en_toolOutputs := outs\<rparr>) = (pd_event p, e2)"
    "mg2 = put_entry i (e2\<lparr>en_lastEventAt := now\<rparr>) (mg\<lparr>mg_gen := histGenSeq (en_ring e2)\<rparr>)"
    "mg' = update_entry i (track_asks (pd_event p)) (snd (budget_manager i mg2))"
    "pd_abandoned p = abandoned_asks now (pd_event p) e2 i" "pd_trimmed p = fst (budget_manager i mg2)"
    "pd_receipt p = receipt_request (pd_event p) e2"
  using assms that
  by (auto simp: pump_locked_def Let_def abandoned_asks_def abandonedAsksLocked_def receipt_request_def
      split: option.splits prod.splits)

lemma track_asks_frame [simp]: "en_sess (track_asks ev e) = en_sess e" "en_ring (track_asks ev e) = en_ring e"
  "en_toolOutputs (track_asks ev e) = en_toolOutputs e"
  by (simp_all add: track_asks_def)

lemma put_entry_seq:
  assumes "entry_at i s mg = Some e" "en_sess e1 = s"
  shows "seq_at k (put_entry i e1 mg) = (if k = (i, s) then Some (rseq (en_ring e1)) else seq_at k mg)"
  using assms by (cases k) (auto simp: seq_at_def entry_at_def split: option.splits if_splits)

lemma seq_at_gen [simp]: "seq_at k (mg\<lparr>mg_gen := g\<rparr>) = seq_at k mg" "entry_at i s (mg\<lparr>mg_gen := g\<rparr>) = entry_at i s mg"
  by (simp_all add: seq_at_def entry_at_def)

lemma update_entry_seq:
  "(\<And>e. en_sess (f e) = en_sess e \<and> en_ring (f e) = en_ring e) \<Longrightarrow> seq_at k (update_entry i f mg) = seq_at k mg"
  by (auto simp: seq_at_def entry_at_def map_of_update_entry split: option.splits)

lemma core_entry:
  "core e1 = core e \<Longrightarrow> en_sess e1 = en_sess e" "core e1 = core e \<Longrightarrow> en_ring e1 = en_ring e"
  "core e1 = core e \<Longrightarrow> pendingPermissions e1 = pendingPermissions e"
  "core e1 = core e \<Longrightarrow> pendingQuestions e1 = pendingQuestions e"
  "core e1 = core e \<Longrightarrow> en_toolOutputs e1 = en_toolOutputs e"
  by (simp_all add: core_def)

lemma pump_locked_None_seq:
  assumes "pump_locked now i s ev mg = Some (None, mg')"
  shows "seq_at k mg' = seq_at k mg"
proof (cases "entry_at i s mg")
  case None
  with assms show ?thesis by (simp add: pump_locked_def)
next
  case (Some e)
  obtain r e1 where h: "handle_event now ev (snd (noteReplay ev e)) = (r, e1)" by fastforce
  have c: "core e1 = core e" using handle_event_core [OF h] by simp
  have "mg' = put_entry i e1 mg" using assms Some h by (cases r) (auto simp: pump_locked_def Let_def split: option.splits prod.splits)
  moreover have "en_sess e1 = s" "en_ring e1 = en_ring e" using core_entry [OF c] Some by (simp_all add: entry_at_map_of)
  ultimately show ?thesis using Some put_entry_seq [OF Some, of e1 k] by (auto simp: seq_at_def)
qed

lemma pump_locked_Some_seq:
  assumes p: "pump_locked now i s ev mg = Some (Some p, mg')" and room: "room_at (i, s) mg"
  shows "k \<noteq> (i, s) \<Longrightarrow> seq_at k mg' = seq_at k mg"
    "\<exists>n m. seq_at (i, s) mg = Some n \<and> seq_at (i, s) mg' = Some m \<and> n \<le> m \<and>
      (\<not> ev_Replay (pd_event p) \<longrightarrow> ev_Seq (pd_event p) = n + 1 \<and> m = n + 1)"
    "a \<in> set (pd_abandoned p) \<Longrightarrow> \<not> ev_Replay a"
proof -
  obtain e e1 ev1 outs e2 mg2 where x: "entry_at i s mg = Some e" "handle_event now ev (snd (noteReplay ev e)) = (Some (pd_work p), e1)"
    "cutToolEventLocked ev (en_toolOutputs e1) = Some (ev1, outs)"
    "append_entry ev1 (mg_gen mg) (e1\<lparr>en_toolOutputs := outs\<rparr>) = (pd_event p, e2)"
    "mg2 = put_entry i (e2\<lparr>en_lastEventAt := now\<rparr>) (mg\<lparr>mg_gen := histGenSeq (en_ring e2)\<rparr>)"
    "mg' = update_entry i (track_asks (pd_event p)) (snd (budget_manager i mg2))"
    "pd_abandoned p = abandoned_asks now (pd_event p) e2 i"
    using pump_locked_Some [OF p] by metis
  have c: "en_sess e1 = s" "en_ring e1 = en_ring e"
    using core_entry [OF handle_event_core [OF x(2)]] x(1) by (simp_all add: core_entry [OF noteReplay_core] entry_at_map_of)
  have n: "seq_at (i, s) mg = Some (rseq (en_ring e))" using x(1) by (simp add: seq_at_def)
  have r: "rseq (en_ring (e1\<lparr>en_toolOutputs := outs\<rparr>)) + 1 < 2 ^ 64" using room n c by (simp add: room_at_def)
  have s2: "en_sess (e2\<lparr>en_lastEventAt := now\<rparr>) = s" using append_entry_fields(1) [OF x(4)] c by simp
  have q: "seq_at k mg' = (if k = (i, s) then Some (rseq (en_ring e2)) else seq_at k mg)" for k
  proof -
    have "seq_at k mg' = seq_at k mg2" unfolding x(6) by (simp add: update_entry_seq budget_seq)
    also have "\<dots> = (if k = (i, s) then Some (rseq (en_ring e2)) else seq_at k mg)"
      unfolding x(5) using put_entry_seq [of i s "mg\<lparr>mg_gen := histGenSeq (en_ring e2)\<rparr>" e "e2\<lparr>en_lastEventAt := now\<rparr>" k] x(1) s2 by simp
    finally show ?thesis .
  qed
  show "k \<noteq> (i, s) \<Longrightarrow> seq_at k mg' = seq_at k mg" using q by simp
  have "ev_Replay (pd_event p) = ev_Replay ev1" using key_replay [OF append_entry_fields(3) [OF x(4)]] .
  then show "\<exists>n m. seq_at (i, s) mg = Some n \<and> seq_at (i, s) mg' = Some m \<and> n \<le> m \<and>
      (\<not> ev_Replay (pd_event p) \<longrightarrow> ev_Seq (pd_event p) = n + 1 \<and> m = n + 1)"
    using n q append_entry_counter [OF x(4) r] c by simp
  show "a \<in> set (pd_abandoned p) \<Longrightarrow> \<not> ev_Replay a"
    unfolding x(7) by (auto simp: abandoned_asks_def abandonedAsksLocked_def zero_event_def split: if_splits)
qed

lemma emit_section_seq:
  assumes "emit_section i s ev mg = (fx, as, mg')" "\<not> ev_Replay ev" and room: "room_at (i, s) mg"
  shows "(seq_at (i, s) mg = None \<and> fx = [] \<and> as = [] \<and> mg' = mg) \<or>
    (\<exists>n ev1. seq_at (i, s) mg = Some n \<and> fx = [HistoryScheduled i] \<and> as = [DoSend ev1] \<and> ev_Seq ev1 = n + 1 \<and> \<not> ev_Replay ev1 \<and>
      (\<forall>k. seq_at k mg' = (if k = (i, s) then Some (n + 1) else seq_at k mg)))"
proof (cases "entry_at i s mg")
  case None
  with assms(1) show ?thesis by (simp add: emit_section_def seq_at_def)
next
  case (Some e)
  obtain ev1 e1 where a: "append_entry ev (mg_gen mg) e = (ev1, e1)" by fastforce
  have n: "seq_at (i, s) mg = Some (rseq (en_ring e))" using Some by (simp add: seq_at_def)
  have s1: "en_sess e1 = s" using append_entry_fields(1) [OF a] Some by (simp add: entry_at_map_of)
  have r: "rseq (en_ring e) + 1 < 2 ^ 64" using room n by (simp add: room_at_def)
  note c = append_entry_counter [OF a r]
  have "\<not> ev_Replay ev1" using key_replay [OF append_entry_fields(3) [OF a]] assms(2) by simp
  moreover have "seq_at k mg' = (if k = (i, s) then Some (rseq (en_ring e) + 1) else seq_at k mg)" for k
    using assms(1) Some a c(2) [OF assms(2)] put_entry_seq [of i s "mg\<lparr>mg_gen := histGenSeq (en_ring e1)\<rparr>" e e1 k] s1
    by (auto simp: emit_section_def)
  ultimately show ?thesis using assms(1,2) Some a n c(2) by (intro disjI2 exI [of _ "rseq (en_ring e)"] exI [of _ ev1]) (auto simp: emit_section_def)
qed

lemma advertise_section_seq:
  assumes "advertise_section x i s mg = (as, mg')"
  shows "seq_at k mg' = seq_at k mg" "as = [] \<or> (\<exists>ev. as = [DoEmit ev] \<and> \<not> ev_Replay ev)"
proof -
  have *: "seq_at k (put_entry i (e\<lparr>advertised := cs\<rparr>) mg) = seq_at k mg" if "entry_at i s mg = Some e" for e cs
  proof -
    have "en_sess (e\<lparr>advertised := cs\<rparr>) = s" using that by (simp add: entry_at_map_of)
    from put_entry_seq [OF that this, of k] that show ?thesis by (auto simp: seq_at_def)
  qed
  show "seq_at k mg' = seq_at k mg" "as = [] \<or> (\<exists>ev. as = [DoEmit ev] \<and> \<not> ev_Replay ev)"
    using assms * by (auto simp: advertise_section_def Let_def zero_event_def split: option.splits if_splits)
qed

subsection \<open>Interleaving\<close>

text \<open>
  Every thread at the grain of its critical sections. \<open>w_todo k\<close> is the delivery lock of the entry
  \<open>k\<close>: free, or held by a thread that still has those acts to do. A pump takes the lock and runs its
  locked section (taking a free lock commutes with the sections of others, so the two are one step);
  an emitter takes it for one event of its own; the holder then does its acts, a section each; other
  threads create and remove entries and change what the deliveries do not depend on. \<open>w_rows\<close>
  collects the live events the ring of an entry has recorded, \<open>w_sent\<close> the events handed to
  \<open>onEvent\<close>. \<open>w_used\<close> are the provider sessions there have been.
\<close>

record world =
  w_mgr :: manager
  w_todo :: "string \<times> nat \<Rightarrow> act list option"
  w_rows :: "string \<times> nat \<Rightarrow> event list"
  w_sent :: "string \<times> nat \<Rightarrow> event list"
  w_used :: "nat set"

definition sends :: "act list \<Rightarrow> event list" where
  "sends as = concat (map (\<lambda>a. case a of DoSend ev \<Rightarrow> [ev] | _ \<Rightarrow> []) as)"

definition sent_events :: "effect list \<Rightarrow> event list" where
  "sent_events fx = concat (map (\<lambda>f. case f of Sent i ev \<Rightarrow> [ev] | _ \<Rightarrow> []) fx)"

definition seq_room :: "manager \<Rightarrow> bool" where
  "seq_room mg \<longleftrightarrow> (\<forall>k. room_at k mg)"

definition daemon_act :: "act \<Rightarrow> bool" where
  "daemon_act a \<longleftrightarrow> (case a of DoSend ev \<Rightarrow> False | DoEmit ev \<Rightarrow> \<not> ev_Replay ev | DoAdvertise \<Rightarrow> True)"

inductive dstep :: "world \<Rightarrow> world \<Rightarrow> bool" where
  d_pump: "w_todo w (i, s) = None \<Longrightarrow> seq_room (w_mgr w) \<Longrightarrow> pump_locked now i s ev (w_mgr w) = Some (Some p, mg) \<Longrightarrow>
    dstep w (w\<lparr>w_mgr := mg, w_todo := (w_todo w)((i, s) \<mapsto> followups now i p),
      w_rows := (w_rows w)((i, s) := w_rows w (i, s) @ (if ev_Replay (pd_event p) then [] else [pd_event p]))\<rparr>)"
| d_withheld: "w_todo w (i, s) = None \<Longrightarrow> pump_locked now i s ev (w_mgr w) = Some (None, mg) \<Longrightarrow> dstep w (w\<lparr>w_mgr := mg\<rparr>)"
| d_emitter: "w_todo w k = None \<Longrightarrow> daemon_act a \<Longrightarrow> dstep w (w\<lparr>w_todo := (w_todo w)(k \<mapsto> [a])\<rparr>)"
| d_act: "w_todo w (i, s) = Some (a # as) \<Longrightarrow> seq_room (w_mgr w) \<Longrightarrow> act_section x i s a (w_mgr w) = (fx, more_acts, mg) \<Longrightarrow>
    dstep w (w\<lparr>w_mgr := mg, w_todo := (w_todo w)((i, s) \<mapsto> more_acts @ as),
      w_rows := (w_rows w)((i, s) := w_rows w (i, s) @ sends more_acts),
      w_sent := (w_sent w)((i, s) := w_sent w (i, s) @ sent_events fx)\<rparr>)"
| d_release: "w_todo w k = Some [] \<Longrightarrow> dstep w (w\<lparr>w_todo := (w_todo w)(k := None)\<rparr>)"
| d_create: "map_of (mg_sessions (w_mgr w)) i = None \<Longrightarrow> s \<notin> w_used w \<Longrightarrow> ring_ok (r\<lparr>histGenSeq := mg_gen (w_mgr w)\<rparr>) \<Longrightarrow>
    dstep w (w\<lparr>w_mgr := put_entry i (seeded_entry m s r) (w_mgr w), w_used := insert s (w_used w)\<rparr>)"
| d_remove: "dstep w (w\<lparr>w_mgr := (w_mgr w)\<lparr>mg_sessions := AList.delete i (mg_sessions (w_mgr w))\<rparr>\<rparr>)"
| d_update: "(\<And>e. core (f e) = core e) \<Longrightarrow> dstep w (w\<lparr>w_mgr := update_entry i f (w_mgr w)\<rparr>)"

definition world_start :: "manager \<Rightarrow> world" where
  "world_start mg = \<lparr>w_mgr = mg, w_todo = (\<lambda>_. None), w_rows = (\<lambda>_. []), w_sent = (\<lambda>_. []), w_used = {}\<rparr>"

inductive dreach :: "world \<Rightarrow> bool" where
  d_start: "mg_sessions mg = [] \<Longrightarrow> dreach (world_start mg)"
| d_next: "dreach w \<Longrightarrow> dstep w w' \<Longrightarrow> dreach w'"

inductive_cases dstepE: "dstep w w'"

definition held :: "world \<Rightarrow> string \<times> nat \<Rightarrow> act list" where
  "held w k = (case w_todo w k of Some as \<Rightarrow> as | None \<Rightarrow> [])"

definition live_acts :: "act list \<Rightarrow> bool" where
  "live_acts as \<longleftrightarrow> (\<forall>ev. DoEmit ev \<in> set as \<longrightarrow> \<not> ev_Replay ev) \<and> sends (tl as) = []"

definition order_inv :: "world \<Rightarrow> bool" where
  "order_inv w \<longleftrightarrow>
    (\<forall>k. w_sent w k @ sends (held w k) = w_rows w k \<and> live_acts (held w k) \<and>
      sorted_wrt (<) (map ev_Seq (w_rows w k)) \<and>
      (\<forall>n. seq_at k (w_mgr w) = Some n \<longrightarrow> (\<forall>ev\<in>set (w_rows w k). ev_Seq ev \<le> n)) \<and>
      (snd k \<notin> w_used w \<longrightarrow> w_rows w k = [] \<and> seq_at k (w_mgr w) = None))"

text \<open>The invariant at one entry.\<close>

definition key_inv :: "event list \<Rightarrow> event list \<Rightarrow> act list \<Rightarrow> nat option \<Rightarrow> bool \<Rightarrow> bool" where
  "key_inv rows sent as sq used \<longleftrightarrow>
    sent @ sends as = rows \<and> live_acts as \<and> sorted_wrt (<) (map ev_Seq rows) \<and>
    (\<forall>n. sq = Some n \<longrightarrow> (\<forall>ev\<in>set rows. ev_Seq ev \<le> n)) \<and> (\<not> used \<longrightarrow> rows = [] \<and> sq = None)"

lemma order_inv_key:
  "order_inv w \<longleftrightarrow> (\<forall>k. key_inv (w_rows w k) (w_sent w k) (held w k) (seq_at k (w_mgr w)) (snd k \<in> w_used w))"
  by (simp add: order_inv_def key_inv_def)

lemma sends_simps [simp]: "sends [] = []" "sends (DoSend ev # as) = ev # sends as" "sends (DoEmit ev # as) = sends as"
  "sends (DoAdvertise # as) = sends as" "sends (as @ bs) = sends as @ sends bs" "sends (map DoEmit evs) = []"
  by (auto simp: sends_def)

lemma sent_events_simps [simp]: "sent_events [] = []" "sent_events (Sent i ev # fx) = ev # sent_events fx"
  "sent_events (HistoryScheduled i # fx) = sent_events fx" "sent_events (fx @ gx) = sent_events fx @ sent_events gx"
  by (simp_all add: sent_events_def)

lemma key_inv_seq: "key_inv rows sent as sq used \<Longrightarrow> sq' = None \<or> sq' = sq \<Longrightarrow> key_inv rows sent as sq' used"
  by (auto simp: key_inv_def)

lemma sends_live: "sends as = [] \<Longrightarrow> sends (tl as) = []"
  by (cases as) (auto simp: sends_def)

lemma key_inv_drop:
  assumes "key_inv rows sent (a # as) sq used" "\<forall>ev. a \<noteq> DoSend ev"
  shows "key_inv rows sent as sq used"
proof -
  have "sends (a # as) = sends as" using assms(2) by (cases a) auto
  moreover have "sends as = []" using assms(1) by (simp add: key_inv_def live_acts_def)
  ultimately show ?thesis using assms(1) sends_live by (simp add: key_inv_def live_acts_def)
qed

text \<open>A new row at the head of the acts.\<close>

lemma key_inv_row:
  assumes "key_inv rows sent as (Some n) used" "sends as = []" "ev_Seq ev = n + 1"
    and "\<forall>ev. DoEmit ev \<in> set bs \<longrightarrow> \<not> ev_Replay ev" "sends bs = []"
  shows "key_inv (rows @ [ev]) sent (DoSend ev # bs) (Some (n + 1)) used"
  using assms by (auto simp: key_inv_def live_acts_def sorted_wrt_append less_Suc_eq_le le_SucI)

lemma followups_acts:
  assumes "pump_locked now i s ev mg = Some (Some p, mg')" "room_at (i, s) mg"
  shows "\<exists>bs. followups now i p = (if ev_Replay (pd_event p) then [] else [DoSend (pd_event p)]) @ bs \<and>
    (\<forall>ev. DoEmit ev \<in> set bs \<longrightarrow> \<not> ev_Replay ev) \<and> sends bs = []"
  using pump_locked_Some_seq(3) [OF assms]
  by (auto simp: followups_def notice_def zero_event_def intro!: exI [of _ "map DoEmit (pd_abandoned p) @
    (if wk_reresolve (pd_work p) then [DoAdvertise] else []) @
    (if wk_pressure (pd_work p) \<noteq> [] then [DoEmit (notice now i (wk_pressure (pd_work p)))] else [])"])

lemma order_pump:
  assumes inv: "order_inv w" and free: "w_todo w (i, s) = None" and room: "seq_room (w_mgr w)"
    and p: "pump_locked now i s ev (w_mgr w) = Some (Some p, mg)"
  shows "order_inv (w\<lparr>w_mgr := mg, w_todo := (w_todo w)((i, s) \<mapsto> followups now i p),
      w_rows := (w_rows w)((i, s) := w_rows w (i, s) @ (if ev_Replay (pd_event p) then [] else [pd_event p]))\<rparr>)" (is "order_inv ?w")
  unfolding order_inv_key
proof
  fix k
  have r: "room_at (i, s) (w_mgr w)" using room unfolding seq_room_def by blast
  note q = pump_locked_Some_seq [OF p r]
  have ik: "key_inv (w_rows w k) (w_sent w k) (held w k) (seq_at k (w_mgr w)) (snd k \<in> w_used w)"
    using inv unfolding order_inv_key by blast
  obtain bs where bs: "followups now i p = (if ev_Replay (pd_event p) then [] else [DoSend (pd_event p)]) @ bs"
    "\<forall>ev. DoEmit ev \<in> set bs \<longrightarrow> \<not> ev_Replay ev" "sends bs = []"
    using followups_acts [OF p r] by blast
  obtain n m where nm: "seq_at (i, s) (w_mgr w) = Some n" "seq_at (i, s) mg = Some m" "n \<le> m"
    "\<not> ev_Replay (pd_event p) \<longrightarrow> ev_Seq (pd_event p) = n + 1 \<and> m = n + 1" using q(2) by blast
  show "key_inv (w_rows ?w k) (w_sent ?w k) (held ?w k) (seq_at k (w_mgr ?w)) (snd k \<in> w_used ?w)"
  proof (cases "k = (i, s)")
    case False
    then show ?thesis using ik q(1) [OF False] by (simp add: held_def)
  next
    case True
    have i0: "key_inv (w_rows w k) (w_sent w k) [] (Some n) (snd k \<in> w_used w)" using ik True free nm by (simp add: held_def)
    show ?thesis
    proof (cases "ev_Replay (pd_event p)")
      case False
      with key_inv_row [OF i0, of "pd_event p" bs] True nm bs show ?thesis by (simp add: held_def)
    next
      case replay: True
      have "key_inv (w_rows w k) (w_sent w k) bs (Some m) (snd k \<in> w_used w)"
        using i0 bs nm(3) sends_live by (auto simp: key_inv_def live_acts_def)
      with True replay nm bs show ?thesis by (simp add: held_def)
    qed
  qed
qed

lemma order_act:
  assumes inv: "order_inv w" and acts: "w_todo w (i, s) = Some (a # as)" and room: "seq_room (w_mgr w)"
    and sec: "act_section x i s a (w_mgr w) = (fx, more_acts, mg)"
  shows "order_inv (w\<lparr>w_mgr := mg, w_todo := (w_todo w)((i, s) \<mapsto> more_acts @ as),
      w_rows := (w_rows w)((i, s) := w_rows w (i, s) @ sends more_acts),
      w_sent := (w_sent w)((i, s) := w_sent w (i, s) @ sent_events fx)\<rparr>)" (is "order_inv ?w")
  unfolding order_inv_key
proof
  fix k
  let ?goal = "key_inv (w_rows ?w k) (w_sent ?w k) (held ?w k) (seq_at k (w_mgr ?w)) (snd k \<in> w_used ?w)"
  have r: "room_at (i, s) (w_mgr w)" using room unfolding seq_room_def by blast
  have ik: "key_inv (w_rows w k) (w_sent w k) (held w k) (seq_at k (w_mgr w)) (snd k \<in> w_used w)" for k
    using inv unfolding order_inv_key by blast
  have h0: "key_inv (w_rows w (i, s)) (w_sent w (i, s)) (a # as) (seq_at (i, s) (w_mgr w)) (s \<in> w_used w)"
    using ik [of "(i, s)"] acts by (simp add: held_def)
  then have st: "sends as = []" "\<forall>ev. DoEmit ev \<in> set (a # as) \<longrightarrow> \<not> ev_Replay ev" by (simp_all add: key_inv_def live_acts_def)
  show ?goal
  proof (cases a)
    case (DoSend ev)
    with sec have f: "fx = [Sent i ev]" "more_acts = []" "mg = w_mgr w" by auto
    have "key_inv (w_rows w (i, s)) (w_sent w (i, s) @ [ev]) as (seq_at (i, s) (w_mgr w)) (s \<in> w_used w)"
    proof -
      have "live_acts as" using st sends_live [OF st(1)] by (simp add: live_acts_def)
      with h0 st DoSend show ?thesis by (simp add: key_inv_def)
    qed
    then show ?thesis using ik [of k] f by (cases "k = (i, s)") (auto simp: held_def)
  next
    case (DoEmit ev)
    have e: "emit_section i s ev (w_mgr w) = (fx, more_acts, mg)" using sec DoEmit by simp
    have "DoEmit ev \<in> set (a # as)" using DoEmit by simp
    then have live: "\<not> ev_Replay ev" using st(2) by blast
    have d: "key_inv (w_rows w (i, s)) (w_sent w (i, s)) as (seq_at (i, s) (w_mgr w)) (s \<in> w_used w)"
      by (rule key_inv_drop [OF h0]) (simp add: DoEmit)
    from emit_section_seq [OF e live r] show ?thesis
    proof (elim disjE conjE exE)
      assume "fx = []" "more_acts = []" "mg = w_mgr w"
      then show ?thesis using d ik [of k] by (cases "k = (i, s)") (auto simp: held_def)
    next
      fix n ev1
      assume h: "seq_at (i, s) (w_mgr w) = Some n" "fx = [HistoryScheduled i]" "more_acts = [DoSend ev1]" "ev_Seq ev1 = n + 1"
        "\<forall>k. seq_at k mg = (if k = (i, s) then Some (n + 1) else seq_at k (w_mgr w))"
      have "key_inv (w_rows w (i, s) @ [ev1]) (w_sent w (i, s)) (DoSend ev1 # as) (Some (n + 1)) (s \<in> w_used w)"
        using key_inv_row [of _ _ as n _ ev1 as] d h st by simp
      moreover have "seq_at k mg = (if k = (i, s) then Some (n + 1) else seq_at k (w_mgr w))" using h(5) by blast
      ultimately show ?thesis using h(1-4) ik [of k] by (cases "k = (i, s)") (auto simp: held_def)
    qed
  next
    case DoAdvertise
    have s: "advertise_section x i s (w_mgr w) = (more_acts, mg)" "fx = []" using sec DoAdvertise by auto
    have d: "key_inv (w_rows w (i, s)) (w_sent w (i, s)) as (seq_at (i, s) (w_mgr w)) (s \<in> w_used w)"
      by (rule key_inv_drop [OF h0]) (simp add: DoAdvertise)
    have "key_inv (w_rows w (i, s)) (w_sent w (i, s)) (more_acts @ as) (seq_at (i, s) (w_mgr w)) (s \<in> w_used w)"
    proof (cases more_acts)
      case Nil
      with d show ?thesis by simp
    next
      case (Cons b bs)
      then obtain ev where m: "more_acts = [DoEmit ev]" "\<not> ev_Replay ev" using advertise_section_seq(2) [OF s(1)] by auto
      then have "live_acts (more_acts @ as)" using st by (auto simp: live_acts_def)
      with d m show ?thesis by (simp add: key_inv_def)
    qed
    moreover have "sends more_acts = []" using advertise_section_seq(2) [OF s(1)] by auto
    ultimately show ?thesis using ik [of k] advertise_section_seq(1) [OF s(1)] s(2) by (cases "k = (i, s)") (auto simp: held_def)
  qed
qed

lemma order_step: "dstep w w' \<Longrightarrow> order_inv w \<Longrightarrow> order_inv w'"
proof (induction rule: dstep.induct)
  case (d_pump w i s now ev p mg)
  then show ?case by (intro order_pump)
next
  case (d_withheld w i s now ev mg)
  then show ?case by (simp add: order_inv_def held_def pump_locked_None_seq)
next
  case (d_emitter w k a)
  then have "live_acts [a]" "sends [a] = []" by (cases a; simp add: daemon_act_def live_acts_def)+
  then have "key_inv rows sent [] sq used \<Longrightarrow> key_inv rows sent [a] sq used" for rows sent sq used
    by (simp add: key_inv_def)
  moreover have "key_inv (w_rows w j) (w_sent w j) (held w j) (seq_at j (w_mgr w)) (snd j \<in> w_used w)" for j
    using d_emitter(3) unfolding order_inv_key by blast
  moreover have "held (w\<lparr>w_todo := (w_todo w)(k \<mapsto> [a])\<rparr>) j = (if j = k then [a] else held w j)" for j by (simp add: held_def)
  moreover have "held w k = []" using d_emitter(1) by (simp add: held_def)
  ultimately show ?case unfolding order_inv_key by (metis (no_types, lifting) world.select_convs(1,3,4,5) world.update_convs(2) world.surjective)
next
  case (d_act w i s a as x fx more_acts mg)
  then show ?case by (intro order_act)
next
  case (d_release w k)
  have "held (w\<lparr>w_todo := (w_todo w)(k := None)\<rparr>) j = held w j" for j using d_release(1) by (simp add: held_def)
  with d_release(2) show ?case by (simp add: order_inv_def)
next
  case (d_create w i s r m)
  have q: "seq_at k (put_entry i (seeded_entry m s r) (w_mgr w)) = (if k = (i, s) then Some (rseq r) else seq_at k (w_mgr w))" for k
    using d_create(1) by (cases k) (auto simp: seq_at_def entry_at_def seeded_entry_def)
  have "w_rows w (i, s) = []" using d_create(2,4) by (auto simp: order_inv_def)
  with d_create(4) q show ?case by (auto simp: order_inv_def held_def)
next
  case (d_remove w i)
  have "seq_at k ((w_mgr w)\<lparr>mg_sessions := AList.delete i (mg_sessions (w_mgr w))\<rparr>) = (if fst k = i then None else seq_at k (w_mgr w))" for k
    by (auto simp: seq_at_def entry_at_def delete_conv')
  with d_remove show ?case by (auto simp: order_inv_def held_def)
next
  case (d_update f w i)
  have "en_sess (f e) = en_sess e \<and> en_ring (f e) = en_ring e" for e using d_update(1) core_entry by blast
  then have "seq_at k (update_entry i f (w_mgr w)) = seq_at k (w_mgr w)" for k by (rule update_entry_seq)
  with d_update show ?case by (simp add: order_inv_def held_def)
qed

lemma dreach_inv: "dreach w \<Longrightarrow> order_inv w"
proof (induction rule: dreach.induct)
  case (d_start mg)
  then show ?case by (simp add: world_start_def order_inv_def held_def live_acts_def seq_at_def entry_at_def)
next
  case (d_next w w')
  then show ?case using order_step by blast
qed

text \<open>C2: every client sees a session's events in the order of their sequence numbers, each once, and none
  is lost. Under any interleaving of the session's pump with every daemon thread that emits for
  it, with closing and with replacing, the events handed to \<open>onEvent\<close> for an entry have increasing
  sequence numbers; they are a prefix of the live events its ring recorded, and all of them whenever
  the delivery lock is free.\<close>

theorem delivery_in_order:
  assumes "dreach w"
  shows "sorted_wrt (<) (map ev_Seq (w_sent w k)) \<and> prefix (w_sent w k) (w_rows w k) \<and>
    (w_todo w k = None \<longrightarrow> w_sent w k = w_rows w k)"
proof -
  have "w_sent w k @ sends (held w k) = w_rows w k" "sorted_wrt (<) (map ev_Seq (w_rows w k))"
    using dreach_inv [OF assms] unfolding order_inv_def by blast+
  then show ?thesis by (metis append_Nil2 held_def map_append option.simps(4) prefixI sends_simps(1) sorted_wrt_append)
qed

lemma ring_ok_empty: "ring_ok empty_ring"
  by (simp add: ring_ok_def empty_ring_def index_of_def ring_bytes_def)

definition ex_manager :: manager where
  "ex_manager = \<lparr>mg_sessions = [], mg_gen = 0, mg_globalBudget = 0, mg_marks = [], mg_host = ''host''\<rparr>"

definition ex_env :: env where
  "ex_env = \<lparr>xv_now = 5, xv_version = ''1'', xv_marks_written = True, xv_ToLower = (\<lambda>s. s), xv_commands = (\<lambda>silent e. [])\<rparr>"

definition ex_live :: manager where
  "ex_live = put_entry ''s'' (seeded_entry (zero_meta\<lparr>m_ID := ''s''\<rparr>) 7 empty_ring) ex_manager"

lemma ex_live_seq: "seq_at k ex_live = (if k = (''s'', 7) then Some 0 else None)"
  by (cases k) (auto simp: seq_at_def entry_at_def ex_live_def ex_manager_def seeded_entry_def empty_ring_def)

lemma ex_world:
  "\<exists>w ev. dreach w \<and> w_todo w (''s'', 7) = None \<and> w_sent w (''s'', 7) = [ev] \<and> ev_Seq ev = 1"
proof -
  let ?k = "(''s'' :: string, 7 :: nat)"
  let ?ev = "notice 5 ''s'' ''hello''"
  let ?w1 = "(world_start ex_manager)\<lparr>w_mgr := ex_live, w_used := {7}\<rparr>"
  have "dreach (world_start ex_manager)" by (rule d_start) (simp add: ex_manager_def)
  moreover have "dstep (world_start ex_manager) ?w1"
    using d_create [of "world_start ex_manager" "''s''" 7 empty_ring "zero_meta\<lparr>m_ID := ''s''\<rparr>"] ring_ok_empty
    by (simp add: world_start_def ex_live_def) (simp add: ex_manager_def empty_ring_def)
  ultimately have r1: "dreach ?w1" by (rule d_next)
  let ?w2 = "?w1\<lparr>w_todo := (w_todo ?w1)(?k \<mapsto> [DoEmit ?ev])\<rparr>"
  have r2: "dreach ?w2"
    by (rule d_next [OF r1], rule d_emitter) (simp_all add: world_start_def daemon_act_def notice_def zero_event_def)
  obtain fx as mg where e: "emit_section ''s'' 7 ?ev ex_live = (fx, as, mg)" using prod_cases3 by blast
  have room: "seq_room ex_live" by (simp add: seq_room_def room_at_def ex_live_seq)
  obtain ev1 where ev1: "fx = [HistoryScheduled ''s'']" "as = [DoSend ev1]" "ev_Seq ev1 = 1" "\<forall>k. seq_at k mg = (if k = ?k then Some 1 else None)"
    using emit_section_seq [OF e] room by (auto simp: notice_def zero_event_def seq_room_def ex_live_seq)
  let ?w3 = "?w2\<lparr>w_mgr := mg, w_todo := (w_todo ?w2)(?k \<mapsto> as @ []), w_rows := (w_rows ?w2)(?k := w_rows ?w2 ?k @ sends as),
      w_sent := (w_sent ?w2)(?k := w_sent ?w2 ?k @ sent_events fx)\<rparr>"
  have r3: "dreach ?w3" by (rule d_next [OF r2], rule d_act [where x = ex_env and a = "DoEmit ?ev"]) (simp_all add: e room)
  let ?w4 = "?w3\<lparr>w_mgr := mg, w_todo := (w_todo ?w3)(?k \<mapsto> [] @ []), w_rows := (w_rows ?w3)(?k := w_rows ?w3 ?k @ sends []),
      w_sent := (w_sent ?w3)(?k := w_sent ?w3 ?k @ sent_events [Sent ''s'' ev1])\<rparr>"
  have "seq_room mg" using ev1(4) by (simp add: seq_room_def room_at_def)
  then have r4: "dreach ?w4"
    by (intro d_next [OF r3] d_act [where x = ex_env and a = "DoSend ev1"]) (simp_all add: ev1(2))
  have "dreach (?w4\<lparr>w_todo := (w_todo ?w4)(?k := None)\<rparr>)" by (rule d_next [OF r4], rule d_release) simp
  then show ?thesis using ev1(1,3)
    by (intro exI [of _ "?w4\<lparr>w_todo := (w_todo ?w4)(?k := None)\<rparr>"] exI [of _ ev1]) (simp add: world_start_def)
qed

theorem delivery_in_order_witness:
  "\<exists>w ev. dreach w \<and> w_sent w (''s'', 7) = [ev] \<and> w_rows w (''s'', 7) = [ev] \<and> ev_Seq ev = 1"
proof -
  obtain w ev where w: "dreach w" "w_todo w (''s'', 7) = None" "w_sent w (''s'', 7) = [ev]" "ev_Seq ev = 1"
    using ex_world by blast
  with delivery_in_order [OF w(1), of "(''s'', 7)"] show ?thesis by metis
qed

subsection \<open>The manager's invariant\<close>

definition entry_ok :: "nat \<Rightarrow> entry \<Rightarrow> bool" where
  "entry_ok g e \<longleftrightarrow> ring_ok ((en_ring e)\<lparr>histGenSeq := g\<rparr>) \<and> outputs_ok (en_toolOutputs e) \<and> in_bound (en_toolOutputs e) \<and>
    distinct (map fst (pendingPermissions e)) \<and> distinct (map fst (pendingQuestions e))"

definition manager_ok :: "manager \<Rightarrow> bool" where
  "manager_ok mg \<longleftrightarrow> distinct (map fst (mg_sessions mg)) \<and> (\<forall>i e. map_of (mg_sessions mg) i = Some e \<longrightarrow> entry_ok (mg_gen mg) e)"

lemma manager_okD: "manager_ok mg \<Longrightarrow> map_of (mg_sessions mg) i = Some e \<Longrightarrow> entry_ok (mg_gen mg) e"
  "manager_ok mg \<Longrightarrow> distinct (map fst (mg_sessions mg))"
  unfolding manager_ok_def by blast+

lemma manager_okI: "distinct (map fst (mg_sessions mg)) \<Longrightarrow> (\<And>i e. map_of (mg_sessions mg) i = Some e \<Longrightarrow> entry_ok (mg_gen mg) e) \<Longrightarrow> manager_ok mg"
  unfolding manager_ok_def by blast

lemma entry_ok_later: "entry_ok g e \<Longrightarrow> g \<le> g' \<Longrightarrow> entry_ok g' e"
  by (auto simp: entry_ok_def ring_ok_def)

lemma entry_ok_core: "entry_ok g e \<Longrightarrow> core e1 = core e \<Longrightarrow> entry_ok g e1"
  by (simp add: entry_ok_def core_def)

lemma append_gen_forward: "ring_ok e \<Longrightarrow> histGenSeq e \<le> histGenSeq (snd (appendHistoryLocked ev e))"
proof -
  assume ok: "ring_ok e"
  let ?e = "next_gen (counted ev e)"
  let ?a = "apply_identity ev ?e"
  have "gen_forward (snd ?a) (snd (push_row (fst ?a) (snd ?a)))"
    using push_row_fields(4,5) [OF surjective_pairing] by (simp add: gen_forward_def)
  from gen_forward_trans [OF gen_forward_trans [OF apply_identity_gen this] enforce_gen]
  have "histGenSeq ?e \<le> histGenSeq (snd (enforceHistoryBudgetLocked (snd (push_row (fst ?a) (snd ?a)))))"
    by (simp add: gen_forward_def next_gen_def)
  then show ?thesis by (simp add: append_cases Let_def) (simp add: next_gen_def)
qed

lemma append_entry_ok:
  assumes "append_entry ev g e = (ev1, e1)" "entry_ok g e" "rseq (en_ring e) + 1 < 2 ^ 64"
  shows "entry_ok (histGenSeq (en_ring e1)) e1" "g \<le> histGenSeq (en_ring e1)"
proof -
  let ?r = "(en_ring e)\<lparr>histGenSeq := g\<rparr>"
  have ok: "ring_ok ?r" using assms(2) by (simp add: entry_ok_def)
  have "ring_ok (snd (appendHistoryLocked ev ?r))" using append_ok [OF ok] assms(3) by simp
  then show "entry_ok (histGenSeq (en_ring e1)) e1"
    using assms(2) append_entry_fields(1) [OF assms(1)] by (simp add: entry_ok_def)
  show "g \<le> histGenSeq (en_ring e1)" using append_gen_forward [OF ok, of ev] append_entry_fields(1) [OF assms(1)] by simp
qed

lemma put_entry_ok:
  assumes "manager_ok mg" "entry_ok g e" "mg_gen mg \<le> g"
  shows "manager_ok (put_entry i e (mg\<lparr>mg_gen := g\<rparr>))"
proof (rule manager_okI)
  show "distinct (map fst (mg_sessions (put_entry i e (mg\<lparr>mg_gen := g\<rparr>))))"
    using manager_okD(2) [OF assms(1)] by (simp add: put_entry_def distinct_update)
  have gen: "mg_gen (put_entry i e (mg\<lparr>mg_gen := g\<rparr>)) = g" by (simp add: put_entry_def)
  fix j f
  assume "map_of (mg_sessions (put_entry i e (mg\<lparr>mg_gen := g\<rparr>))) j = Some f"
  then have "j = i \<and> f = e \<or> map_of (mg_sessions mg) j = Some f" by (simp split: if_splits)
  then show "entry_ok (mg_gen (put_entry i e (mg\<lparr>mg_gen := g\<rparr>))) f"
    using assms(2) entry_ok_later [OF manager_okD(1) [OF assms(1)] assms(3)] unfolding gen by blast
qed

lemma put_entry_ok_same: "manager_ok mg \<Longrightarrow> entry_ok (mg_gen mg) e \<Longrightarrow> manager_ok (put_entry i e mg)"
  using put_entry_ok [of mg "mg_gen mg" e i] by simp

lemma budget_ok:
  assumes "manager_ok mg"
  shows "manager_ok (snd (budget_manager a mg))"
proof -
  let ?ss = "map (\<lambda>(i, e). (i, sess_of e)) (mg_sessions mg)"
  let ?st = "enforceGlobalBudgetLocked (mg_globalBudget mg) a (mg_gen mg) ?ss"
  have keys: "map fst ?ss = map fst (mg_sessions mg)" by auto
  have "ring_ok ((s_ring s)\<lparr>histGenSeq := mg_gen mg\<rparr>)" if "(i, s) \<in> set ?ss" for i s
  proof -
    from that obtain e where e: "(i, e) \<in> set (mg_sessions mg)" "s = sess_of e" by auto
    then have "map_of (mg_sessions mg) i = Some e" using manager_okD(2) [OF assms] by simp
    from manager_okD(1) [OF assms this] e(2) show ?thesis by (simp add: entry_ok_def sess_of_def)
  qed
  then have ok: "sessions_ok (mg_gen mg) ?ss" unfolding sessions_ok_def keys using manager_okD(2) [OF assms] by force
  from enforce_settled [OF this, of "mg_globalBudget mg" a]
  have inv: "budget_inv ?st" "map fst (bs_sessions ?st) = map fst ?ss" by (simp_all add: settled_def start_state_def)
  have "entry_ok (bs_gen ?st) (trimmed_entry (bs_sessions ?st) i e)" if "map_of (mg_sessions mg) i = Some e" for i e
  proof -
    have "i \<in> fst ` set (bs_sessions ?st)" using that inv(2) keys by (metis list.set_map map_of_SomeD fst_conv image_eqI)
    then obtain s where s: "map_of (bs_sessions ?st) i = Some s" by (metis map_of_eq_None_iff not_None_eq)
    then have "ring_ok ((s_ring s)\<lparr>histGenSeq := bs_gen ?st\<rparr>)" using inv(1) by (simp add: budget_inv_def)
    with s manager_okD(1) [OF assms that] show ?thesis by (simp add: entry_ok_def trimmed_entry_def)
  qed
  then have "entry_ok (bs_gen ?st) e'" if "map_of (mg_sessions (snd (budget_manager a mg))) i = Some e'" for i e'
    using that unfolding map_of_budget by blast
  moreover have "mg_gen (snd (budget_manager a mg)) = bs_gen ?st" by (simp add: budget_manager_def Let_def)
  moreover have "map fst (mg_sessions (snd (budget_manager a mg))) = map fst (mg_sessions mg)"
    by (auto simp: budget_manager_def Let_def)
  ultimately show ?thesis using manager_okD(2) [OF assms] by (intro manager_okI) simp_all
qed

lemma track_asks_ok: "entry_ok g e \<Longrightarrow> entry_ok g (track_asks ev e)"
  by (auto simp: entry_ok_def track_asks_def distinct_update distinct_delete)

lemma update_entry_ok:
  assumes "manager_ok mg" "\<And>e. entry_ok (mg_gen mg) e \<Longrightarrow> entry_ok (mg_gen mg) (f e)"
  shows "manager_ok (update_entry i f mg)"
proof (cases "map_of (mg_sessions mg) i")
  case None
  with assms show ?thesis by (simp add: update_entry_def)
next
  case (Some e)
  with assms(2) [OF manager_okD(1) [OF assms(1) Some]] put_entry_ok_same [OF assms(1)] show ?thesis by (simp add: update_entry_def)
qed

lemma pump_locked_ok:
  assumes ok: "manager_ok mg" and room: "room_at (i, s) mg"
  shows "\<exists>r mg'. pump_locked now i s ev mg = Some (r, mg') \<and> manager_ok mg'"
proof (cases "entry_at i s mg")
  case None
  with ok show ?thesis by (simp add: pump_locked_def)
next
  case (Some e)
  obtain r e1 where h: "handle_event now ev (snd (noteReplay ev e)) = (r, e1)" by fastforce
  have eok: "entry_ok (mg_gen mg) e" using manager_okD(1) [OF ok] Some unfolding entry_at_map_of by blast
  then have e1: "entry_ok (mg_gen mg) e1" using entry_ok_core handle_event_core [OF h] noteReplay_core by metis
  have r1: "en_ring e1 = en_ring e" using core_entry(2) handle_event_core [OF h] noteReplay_core by metis
  show ?thesis
  proof (cases r)
    case None
    with Some h e1 ok show ?thesis by (simp add: pump_locked_def put_entry_ok_same)
  next
    case (Some w)
    obtain ev1 outs where c: "cutToolEventLocked ev (en_toolOutputs e1) = Some (ev1, outs)" "outputs_ok outs" "in_bound outs"
      using cutToolEventLocked_ok [of "en_toolOutputs e1" ev] e1 by (auto simp: entry_ok_def)
    obtain ev2 e2 where a: "append_entry ev1 (mg_gen mg) (e1\<lparr>en_toolOutputs := outs\<rparr>) = (ev2, e2)" by fastforce
    let ?mg2 = "put_entry i (e2\<lparr>en_lastEventAt := now\<rparr>) (mg\<lparr>mg_gen := histGenSeq (en_ring e2)\<rparr>)"
    have "entry_ok (mg_gen mg) (e1\<lparr>en_toolOutputs := outs\<rparr>)" using e1 c by (simp add: entry_ok_def)
    moreover have "rseq (en_ring (e1\<lparr>en_toolOutputs := outs\<rparr>)) + 1 < 2 ^ 64"
      using room \<open>entry_at i s mg = Some e\<close> r1 by (simp add: room_at_def seq_at_def)
    ultimately have "entry_ok (histGenSeq (en_ring e2)) e2" "mg_gen mg \<le> histGenSeq (en_ring e2)" using append_entry_ok [OF a] by blast+
    then have "manager_ok ?mg2" using ok by (intro put_entry_ok) (simp_all add: entry_ok_def)
    then have "manager_ok (update_entry i (track_asks ev2) (snd (budget_manager i ?mg2)))"
      by (intro update_entry_ok budget_ok track_asks_ok)
    with \<open>entry_at i s mg = Some e\<close> h Some c a show ?thesis by (simp add: pump_locked_def Let_def)
  qed
qed

subsection \<open>Open asks, as a client sees them\<close>

text \<open>
  A client keeps the permissions and questions it was asked and has not seen resolved. \<open>client_step\<close>
  is its reaction to one delivered event.
\<close>

definition key_step :: "event_type \<times> string \<times> string \<times> bool \<Rightarrow> string set \<times> string set \<Rightarrow> string set \<times> string set" where
  "key_step k v = (case (k, v) of ((t, p, q, r), (ps, qs)) \<Rightarrow>
     if t = TypePermission then (if p \<noteq> [] then insert p ps else ps, qs)
     else if t = TypePermissionResolved then (ps - {p}, qs)
     else if t = TypeQuestion then (ps, if q \<noteq> [] then insert q qs else qs)
     else if t = TypeQuestionResolved then (ps, qs - {q})
     else (ps, qs))"

definition client_step :: "event \<Rightarrow> string set \<times> string set \<Rightarrow> string set \<times> string set" where
  "client_step ev = key_step (ask_key ev)"

definition sent_to :: "string \<Rightarrow> effect list \<Rightarrow> event list" where
  "sent_to i fx = concat (map (\<lambda>f. case f of Sent j ev \<Rightarrow> if j = i then [ev] else [] | _ \<Rightarrow> []) fx)"

definition client_view :: "event list \<Rightarrow> string set \<times> string set \<Rightarrow> string set \<times> string set" where
  "client_view evs v = fold client_step evs v"

definition open_asks :: "entry \<Rightarrow> string set \<times> string set" where
  "open_asks e = (fst ` set (pendingPermissions e), fst ` set (pendingQuestions e))"

definition silent_event :: "event \<Rightarrow> bool" where
  "silent_event ev \<longleftrightarrow> ev_Type ev \<notin> {TypePermission, TypePermissionResolved, TypeQuestion, TypeQuestionResolved}"

lemma client_view_simps [simp]: "client_view [] v = v" "client_view (ev # evs) v = client_view evs (client_step ev v)"
  "client_view (evs @ evs') v = client_view evs' (client_view evs v)"
  by (simp_all add: client_view_def)

lemma client_step_silent [simp]: "silent_event ev \<Longrightarrow> client_step ev v = v"
  by (auto simp: client_step_def key_step_def silent_event_def ask_key_def split: prod.split)

lemma client_step_key: "ask_key ev = ask_key ev' \<Longrightarrow> client_step ev = client_step ev'"
  by (simp add: client_step_def)

lemma sent_to_simps [simp]: "sent_to i [] = []" "sent_to i (fx @ gx) = sent_to i fx @ sent_to i gx"
  "sent_to i (HistoryScheduled j # fx) = sent_to i fx" "sent_to i (Sent j ev # fx) = (if j = i then ev # sent_to i fx else sent_to i fx)"
  "sent_to i (EmitStored j ev # fx) = sent_to i fx" "sent_to i (AutoClose j # fx) = sent_to i fx"
  by (simp_all add: sent_to_def)

lemma records_sent [simp]: "sent_to j (records i p) = []"
  by (auto simp: records_def sent_to_def Let_def)

text \<open>Who is there and what is pending: unchanged by everything but the pump.\<close>

definition pendings_at :: "manager \<Rightarrow> string \<rightharpoonup> nat \<times> (string \<times> event) list \<times> (string \<times> event) list" where
  "pendings_at mg i = map_option (\<lambda>e. (en_sess e, pendingPermissions e, pendingQuestions e)) (map_of (mg_sessions mg) i)"

lemma pendings_put:
  "map_of (mg_sessions mg) i = Some e \<Longrightarrow> en_sess e1 = en_sess e \<Longrightarrow> pendingPermissions e1 = pendingPermissions e \<Longrightarrow>
   pendingQuestions e1 = pendingQuestions e \<Longrightarrow> pendings_at (put_entry i e1 mg) = pendings_at mg"
  by (rule ext) (simp add: pendings_at_def)

lemma pendings_more [simp]: "pendings_at (mg\<lparr>mg_gen := g\<rparr>) = pendings_at mg" "pendings_at (mg\<lparr>mg_marks := ms\<rparr>) = pendings_at mg"
  by (simp_all add: pendings_at_def fun_eq_iff)

lemma pendings_budget [simp]: "pendings_at (snd (budget_manager a mg)) = pendings_at mg"
  by (rule ext) (simp add: pendings_at_def map_of_budget option.map_comp comp_def)

lemma pendings_entry: "pendings_at mg' i = pendings_at mg i \<Longrightarrow> entry_at i s mg \<noteq> None \<Longrightarrow> entry_at i s mg' \<noteq> None"
  by (auto simp: pendings_at_def entry_at_def split: option.splits if_splits)

lemma emit_section_asks:
  assumes "emit_section i s ev mg = (fx, as, mg')"
  shows "pendings_at mg' = pendings_at mg" "sent_to j fx = []"
    "entry_at i s mg \<noteq> None \<Longrightarrow> \<exists>ev1. as = [DoSend ev1] \<and> ask_key ev1 = ask_key ev"
    "entry_at i s mg = None \<Longrightarrow> as = []"
proof -
  have "pendings_at mg' = pendings_at mg \<and> sent_to j fx = [] \<and>
    (case entry_at i s mg of None \<Rightarrow> as = [] | Some e \<Rightarrow> \<exists>ev1. as = [DoSend ev1] \<and> ask_key ev1 = ask_key ev)"
  proof (cases "entry_at i s mg")
    case None
    with assms show ?thesis by (simp add: emit_section_def)
  next
    case (Some e)
    obtain ev1 e1 where a: "append_entry ev (mg_gen mg) e = (ev1, e1)" by fastforce
    have "map_of (mg_sessions (mg\<lparr>mg_gen := histGenSeq (en_ring e1)\<rparr>)) i = Some e" using Some unfolding entry_at_map_of by simp
    from pendings_put [OF this, of e1] append_entry_fields [OF a] assms Some a show ?thesis by (auto simp: emit_section_def)
  qed
  then show "pendings_at mg' = pendings_at mg" "sent_to j fx = []"
    "entry_at i s mg \<noteq> None \<Longrightarrow> \<exists>ev1. as = [DoSend ev1] \<and> ask_key ev1 = ask_key ev" "entry_at i s mg = None \<Longrightarrow> as = []"
    by (auto split: option.splits)
qed

lemma advertise_section_asks:
  assumes "advertise_section x i s mg = (as, mg')"
  shows "pendings_at mg' = pendings_at mg" "as = [] \<or> (\<exists>ev. as = [DoEmit ev] \<and> silent_event ev)"
proof -
  have "pendings_at (put_entry i (e\<lparr>advertised := cs\<rparr>) mg) = pendings_at mg" if "entry_at i s mg = Some e" for e cs
    using that unfolding entry_at_map_of by (intro pendings_put) auto
  then show "pendings_at mg' = pendings_at mg" "as = [] \<or> (\<exists>ev. as = [DoEmit ev] \<and> silent_event ev)"
    using assms by (auto simp: advertise_section_def Let_def silent_event_def split: option.splits if_splits)
qed

text \<open>What the acts show a client, and that they leave the pending asks alone.\<close>

definition act_view :: "act \<Rightarrow> string set \<times> string set \<Rightarrow> string set \<times> string set" where
  "act_view a = (case a of DoSend ev \<Rightarrow> client_step ev | DoEmit ev \<Rightarrow> client_step ev | DoAdvertise \<Rightarrow> id)"

lemma act_section_view:
  assumes "act_section x i s a mg = (fx, more_acts, mg1)"
  shows "pendings_at mg1 = pendings_at mg" "j \<noteq> i \<Longrightarrow> sent_to j fx = []"
    "entry_at i s mg \<noteq> None \<Longrightarrow> fold act_view more_acts (client_view (sent_to i fx) v) = act_view a v"
proof (atomize (full), cases a)
  case (DoSend ev)
  with assms show "pendings_at mg1 = pendings_at mg \<and> (j \<noteq> i \<longrightarrow> sent_to j fx = []) \<and>
    (entry_at i s mg \<noteq> None \<longrightarrow> fold act_view more_acts (client_view (sent_to i fx) v) = act_view a v)"
    by (auto simp: act_view_def)
next
  case (DoEmit ev)
  then have "emit_section i s ev mg = (fx, more_acts, mg1)" using assms by simp
  note e = emit_section_asks [OF this]
  have "fold act_view more_acts v = act_view a v" if there: "entry_at i s mg \<noteq> None"
  proof -
    obtain ev1 where "more_acts = [DoSend ev1]" "ask_key ev1 = ask_key ev" using e(3) [OF there] by blast
    then show ?thesis using client_step_key [of ev1 ev] DoEmit by (simp add: act_view_def)
  qed
  with e(1,2) show "pendings_at mg1 = pendings_at mg \<and> (j \<noteq> i \<longrightarrow> sent_to j fx = []) \<and>
    (entry_at i s mg \<noteq> None \<longrightarrow> fold act_view more_acts (client_view (sent_to i fx) v) = act_view a v)" by simp
next
  case DoAdvertise
  then have "advertise_section x i s mg = (more_acts, mg1)" "fx = []" using assms by auto
  with advertise_section_asks [OF this(1)] show "pendings_at mg1 = pendings_at mg \<and> (j \<noteq> i \<longrightarrow> sent_to j fx = []) \<and>
    (entry_at i s mg \<noteq> None \<longrightarrow> fold act_view more_acts (client_view (sent_to i fx) v) = act_view a v)"
    by (auto simp: act_view_def DoAdvertise)
qed

lemma run_acts_view:
  "pendings_at (snd (run_acts x i s as mg)) = pendings_at mg \<and> (j \<noteq> i \<longrightarrow> sent_to j (fst (run_acts x i s as mg)) = []) \<and>
   (entry_at i s mg \<noteq> None \<longrightarrow> client_view (sent_to i (fst (run_acts x i s as mg))) v = fold act_view as v)"
proof (induction x i s as mg arbitrary: v rule: run_acts.induct)
  case (1 x i s mg)
  then show ?case by simp
next
  case (2 x i s a as mg)
  obtain fx more_acts mg1 where a: "act_section x i s a mg = (fx, more_acts, mg1)" using prod_cases3 by blast
  obtain fx2 mg2 where r: "run_acts x i s (more_acts @ as) mg1 = (fx2, mg2)" by fastforce
  note IH = 2 [OF a [symmetric] refl, unfolded r fst_conv snd_conv]
  note v = act_section_view [OF a]
  have "entry_at i s mg \<noteq> None \<longrightarrow> entry_at i s mg1 \<noteq> None" using pendings_entry v(1) by metis
  then have "entry_at i s mg \<noteq> None \<longrightarrow> client_view (sent_to i fx2) (client_view (sent_to i fx) v) = fold act_view (a # as) v"
    using IH v(3) by simp
  then show ?case using IH [of v] v(1,2) by (simp add: a r)
qed

text \<open>The emitters outside the pump's own list of acts.\<close>

lemma emitEvent_view:
  assumes "emitEvent x j ev mg = (fx, mg')" "silent_event ev"
  shows "pendings_at mg' = pendings_at mg" "client_view (sent_to i fx) v = v"
proof (atomize (full), cases "map_of (mg_sessions mg) j")
  case None
  with assms show "pendings_at mg' = pendings_at mg \<and> client_view (sent_to i fx) v = v" by (auto simp: emitEvent_def)
next
  case (Some e)
  then have r: "run_acts x j (en_sess e) [DoEmit ev] mg = (fx, mg')" "entry_at j (en_sess e) mg \<noteq> None"
    using assms(1) by (simp_all add: emitEvent_def entry_at_def)
  from run_acts_view [of x j "en_sess e" "[DoEmit ev]" mg i v] r assms(2)
  show "pendings_at mg' = pendings_at mg \<and> client_view (sent_to i fx) v = v"
    by (cases "i = j") (simp_all add: act_view_def)
qed

lemma advertiseCommands_view:
  assumes "advertiseCommands x j mg = (fx, mg')"
  shows "pendings_at mg' = pendings_at mg" "client_view (sent_to i fx) v = v"
proof (atomize (full), cases "map_of (mg_sessions mg) j")
  case None
  with assms show "pendings_at mg' = pendings_at mg \<and> client_view (sent_to i fx) v = v" by (auto simp: advertiseCommands_def)
next
  case (Some e)
  then have r: "run_acts x j (en_sess e) [DoAdvertise] mg = (fx, mg')" "entry_at j (en_sess e) mg \<noteq> None"
    using assms(1) by (simp_all add: advertiseCommands_def entry_at_def)
  from run_acts_view [of x j "en_sess e" "[DoAdvertise]" mg i v] r
  show "pendings_at mg' = pendings_at mg \<and> client_view (sent_to i fx) v = v"
    by (cases "i = j") (simp_all add: act_view_def)
qed

lemma notice_silent [simp]: "silent_event (notice now i txt)"
  by (simp add: silent_event_def notice_def)

lemma noteSilent_view:
  assumes "noteSilent x j prov cmd mg = (fx, mg')"
  shows "pendings_at mg' = pendings_at mg \<and> client_view (sent_to i fx) v = v"
proof -
  obtain added mg1 where s: "silent_add x prov cmd mg = (added, mg1)" by fastforce
  obtain fx1 mg2 where e: "emitEvent x j (notice (xv_now x) j (silent_text cmd)) mg1 = (fx1, mg2)" by fastforce
  obtain fx2 mg3 where a: "advertiseCommands x j mg2 = (fx2, mg3)" by fastforce
  have "pendings_at mg1 = pendings_at mg" using s by (auto simp: silent_add_def Let_def split: if_splits)
  moreover have "(fx, mg') = (if added then (fx1 @ fx2, mg3) else (fx1, mg2))" using assms s e a by (cases added) (simp_all add: noteSilent_def)
  ultimately show ?thesis
    using emitEvent_view(1) [OF e notice_silent] emitEvent_view(2) [OF e notice_silent, of i v]
      advertiseCommands_view(1) [OF a] advertiseCommands_view(2) [OF a, of i v]
    by (cases added) simp_all
qed

lemma notify_trimmed_view:
  "notify_trimmed x is mg = (fx, mg') \<Longrightarrow> pendings_at mg' = pendings_at mg \<and> client_view (sent_to i fx) v = v"
proof (induction x "is" mg arbitrary: fx mg' v rule: notify_trimmed.induct)
  case (1 x mg)
  then show ?case by simp
next
  case (2 x j js mg)
  obtain fx1 mg1 where e: "emitEvent x j (notice (xv_now x) j trim_text) mg = (fx1, mg1)" by fastforce
  obtain fx2 mg2 where n: "notify_trimmed x js mg1 = (fx2, mg2)" by fastforce
  from 2(2) e n have "fx = fx1 @ fx2" "mg' = mg2" by auto
  with 2(1) [OF e [symmetric] n] emitEvent_view(1) [OF e notice_silent] emitEvent_view(2) [OF e notice_silent, of i v] show ?case by simp
qed

subsection \<open>Lemmas: the pump and the asks\<close>

lemma resolve_all:
  "fold client_step (map (\<lambda>p. zero_event\<lparr>ev_Type := TypePermissionResolved, ev_SessionID := i, ev_Timestamp := now,
      ev_PermissionID := p, ev_Status := st\<rparr>) ps) (P, Q) = (P - set ps, Q)"
  "fold client_step (map (\<lambda>q. zero_event\<lparr>ev_Type := TypeQuestionResolved, ev_SessionID := i, ev_Timestamp := now,
      ev_QuestionID := q, ev_Status := st\<rparr>) ps) (P, Q) = (P, Q - set ps)"
  by (induction ps arbitrary: P Q) (auto simp: client_step_def key_step_def ask_key_def)

lemma abandoned_view: "client_view (abandonedAsksLocked now e i) (open_asks e) = ({}, {})"
  by (simp add: client_view_def abandonedAsksLocked_def open_asks_def resolve_all own_simps)

lemma track_asks_view:
  assumes "\<not> ev_Replay ev"
  shows "client_view (abandoned_asks now ev e i) (client_step ev (open_asks e)) = open_asks (track_asks ev e)"
proof (cases "ends_turn (ev_Type ev)")
  case True
  then have "silent_event ev" by (auto simp: ends_turn_def silent_event_def)
  moreover have "open_asks (track_asks ev e) = ({}, {})" using True by (auto simp: track_asks_def ends_turn_def open_asks_def)
  ultimately show ?thesis using True assms by (simp add: abandoned_asks_def abandoned_view)
next
  case False
  have d: "fst ` set (AList.delete k xs) = fst ` set xs - {k}" for k and xs :: "(string \<times> event) list"
    by (metis delete_keys set_removeAll list.set_map)
  have u: "fst ` set (AList.update k v xs) = insert k (fst ` set xs)" for k v and xs :: "(string \<times> event) list"
    using dom_update [of k v xs] by simp
  from False show ?thesis
    by (auto simp: abandoned_asks_def track_asks_def client_step_def key_step_def ask_key_def open_asks_def d u)
qed

lemma pump_locked_asks:
  assumes p: "pump_locked now i s ev mg = Some (Some p, mg')" and live: "\<not> ev_Replay ev" and e: "entry_at i s mg = Some e"
  shows "\<exists>e'. entry_at i s mg' = Some e' \<and> fold act_view (followups now i p) (open_asks e) = open_asks e'"
proof -
  obtain e0 e1 ev1 outs e2 mg2 where y: "entry_at i s mg = Some e0" "handle_event now ev (snd (noteReplay ev e0)) = (Some (pd_work p), e1)"
    and x': "cutToolEventLocked ev (en_toolOutputs e1) = Some (ev1, outs)"
    "append_entry ev1 (mg_gen mg) (e1\<lparr>en_toolOutputs := outs\<rparr>) = (pd_event p, e2)"
    "mg2 = put_entry i (e2\<lparr>en_lastEventAt := now\<rparr>) (mg\<lparr>mg_gen := histGenSeq (en_ring e2)\<rparr>)"
    "mg' = update_entry i (track_asks (pd_event p)) (snd (budget_manager i mg2))"
    "pd_abandoned p = abandoned_asks now (pd_event p) e2 i"
    using pump_locked_Some [OF p] by metis
  have "handle_event now ev (snd (noteReplay ev e)) = (Some (pd_work p), e1)" using y e by simp
  note x = this x'
  have c: "core e1 = core e" using handle_event_core [OF x(1)] by simp
  have o: "open_asks e2 = open_asks e" "en_sess e2 = s"
    using append_entry_fields(1) [OF x(3)] core_entry [OF c] e by (simp_all add: open_asks_def entry_at_map_of)
  have live2: "\<not> ev_Replay (pd_event p)"
    using live key_replay [OF cut_key [OF x(2)]] key_replay [OF append_entry_fields(3) [OF x(3)]] by simp
  have "map_of (mg_sessions mg2) i = Some (e2\<lparr>en_lastEventAt := now\<rparr>)" unfolding x(4) by simp
  then obtain e3 where e3: "map_of (mg_sessions (snd (budget_manager i mg2))) i = Some e3"
    "en_sess e3 = s" "pendingPermissions e3 = pendingPermissions e2" "pendingQuestions e3 = pendingQuestions e2"
    using o(2) by (simp add: map_of_budget)
  let ?e' = "track_asks (pd_event p) e3"
  have "entry_at i s mg' = Some ?e'"
    unfolding x(5) entry_at_map_of using e3 by (simp add: map_of_update_entry)
  moreover have "open_asks ?e' = open_asks (track_asks (pd_event p) e2)"
    using e3 by (simp add: open_asks_def track_asks_def)
  moreover have "fold act_view (map DoEmit evs) v = client_view evs v" for evs v
    by (induction evs arbitrary: v) (simp_all add: act_view_def)
  then have "fold act_view (followups now i p) (open_asks e) =
      client_view (pd_abandoned p) (client_step (pd_event p) (open_asks e))"
    using live2 by (simp add: followups_def act_view_def)
  ultimately show ?thesis using track_asks_view [OF live2, of now e2 i] by (simp add: x(6) o)
qed

lemma pump_event_asks:
  assumes r: "pump_event x i s ev mg = Some (fx, mg')" and live: "\<not> ev_Replay ev" and e: "entry_at i s mg = Some e"
  shows "\<exists>e'. entry_at i s mg' = Some e' \<and> client_view (sent_to i fx) (open_asks e) = open_asks e'"
proof -
  obtain r1 mg1 where p: "pump_locked (xv_now x) i s ev mg = Some (r1, mg1)"
    using r by (cases "pump_locked (xv_now x) i s ev mg") (auto simp: pump_event_def)
  show ?thesis
  proof (cases r1)
    case None
    obtain h e1 where h: "handle_event (xv_now x) ev (snd (noteReplay ev e)) = (h, e1)" by fastforce
    have c: "core e1 = core e" using handle_event_core [OF h] by simp
    have "fx = []" "mg' = mg1" using r p None by (auto simp: pump_event_def)
    moreover have "mg1 = put_entry i e1 mg"
      using p None h e by (cases h) (auto simp: pump_locked_def Let_def split: option.splits prod.splits)
    ultimately show ?thesis using core_entry [OF c] e by (auto simp: entry_at_map_of open_asks_def)
  next
    case (Some q)
    obtain e1 where e1: "entry_at i s mg1 = Some e1" "fold act_view (followups (xv_now x) i q) (open_asks e) = open_asks e1"
      using pump_locked_asks [OF _ live e] p Some by blast
    obtain fx2 mg2 where a: "run_acts x i s (followups (xv_now x) i q) mg1 = (fx2, mg2)" by fastforce
    obtain fx3 mg3 where n: "(case wk_silent (pd_work q) of None \<Rightarrow> ([], mg2) | Some (cmd, prov) \<Rightarrow> noteSilent x i prov cmd mg2) = (fx3, mg3)"
      by fastforce
    obtain fx4 mg4 where t: "notify_trimmed x (pd_trimmed q) mg3 = (fx4, mg4)" by fastforce
    have f: "fx = records i q @ fx2 @ fx3 @ fx4 @ (if wk_autoClose (pd_work q) then [AutoClose i] else [])" "mg' = mg4"
      using r p Some a n t by (auto simp: pump_event_def)
    have s3: "pendings_at mg3 = pendings_at mg2" "client_view (sent_to i fx3) v = v" for v
      using n noteSilent_view [of x i _ _ mg2 fx3 mg3 i v] by (auto split: option.splits)
    have "client_view (sent_to i fx) (open_asks e) = open_asks e1"
      using run_acts_view [of x i s "followups (xv_now x) i q" mg1 i "open_asks e"] e1 a s3(2) notify_trimmed_view [OF t]
      by (simp add: f(1))
    moreover have "pendings_at mg' i = pendings_at mg1 i"
      using run_acts_view [of x i s "followups (xv_now x) i q" mg1] a s3(1) notify_trimmed_view [OF t] f(2) by simp
    then have "\<exists>e'. entry_at i s mg' = Some e' \<and> open_asks e' = open_asks e1"
      using e1(1) by (auto simp: pendings_at_def entry_at_map_of open_asks_def simp del: map_of_eq_Some_iff)
    ultimately show ?thesis by metis
  qed
qed

lemma pump_run_asks:
  "pump_run i s evs mg = Some (fx, mg') \<Longrightarrow> entry_at i s mg = Some e \<Longrightarrow> list_all (\<lambda>(x, ev). \<not> ev_Replay ev) evs \<Longrightarrow>
   \<exists>e'. entry_at i s mg' = Some e' \<and> client_view (sent_to i fx) (open_asks e) = open_asks e'"
proof (induction i s evs mg arbitrary: fx mg' e rule: pump_run.induct)
  case (1 i s mg)
  then show ?case by auto
next
  case (2 i s x ev evs mg)
  obtain fx1 mg1 where p: "pump_event x i s ev mg = Some (fx1, mg1)"
    using 2(2) by (cases "pump_event x i s ev mg") auto
  obtain e1 where e1: "entry_at i s mg1 = Some e1" "client_view (sent_to i fx1) (open_asks e) = open_asks e1"
    using pump_event_asks [OF p _ 2(3)] 2(4) by auto
  show ?case
  proof (cases "stops fx1")
    case True
    with 2(2) p e1 show ?thesis by auto
  next
    case False
    then obtain fx2 where q: "pump_run i s evs mg1 = Some (fx2, mg')" "fx = fx1 @ fx2"
      using 2(2) p by (auto split: option.splits prod.splits)
    obtain e2 where "entry_at i s mg' = Some e2" "client_view (sent_to i fx2) (open_asks e1) = open_asks e2"
      using 2(1) [OF p refl False q(1) e1(1)] 2(4) by auto
    then show ?thesis using q(2) e1(2) by auto
  qed
qed

lemma act_section_ok:
  assumes "act_section x i s a mg = (fx, more_acts, mg')" "manager_ok mg" "room_at (i, s) mg"
  shows "manager_ok mg'"
proof -
  have emit: "manager_ok (put_entry i e1 (mg\<lparr>mg_gen := histGenSeq (en_ring e1)\<rparr>))"
    if "entry_at i s mg = Some e" "append_entry ev (mg_gen mg) e = (ev1, e1)" for e ev ev1 e1
  proof -
    have "entry_ok (mg_gen mg) e" using manager_okD(1) [OF assms(2)] that(1) unfolding entry_at_map_of by blast
    moreover have "rseq (en_ring e) + 1 < 2 ^ 64" using assms(3) that(1) by (simp add: room_at_def seq_at_def)
    ultimately show ?thesis using append_entry_ok [OF that(2)] put_entry_ok [OF assms(2)] by blast
  qed
  have adv: "manager_ok (put_entry i (e\<lparr>advertised := cs\<rparr>) mg)" if "entry_at i s mg = Some e" for e cs
  proof -
    have "entry_ok (mg_gen mg) e" using manager_okD(1) [OF assms(2)] that unfolding entry_at_map_of by blast
    then show ?thesis using put_entry_ok_same [OF assms(2)] by (simp add: entry_ok_def)
  qed
  show ?thesis using assms(1,2) emit adv
    by (cases a) (auto simp: emit_section_def advertise_section_def Let_def split: option.splits prod.splits if_splits)
qed

lemma seeded_ok: "ring_ok (r\<lparr>histGenSeq := g\<rparr>) \<Longrightarrow> entry_ok g (seeded_entry m s r)"
  using no_outputs_ok by (simp add: entry_ok_def seeded_entry_def in_bound_def no_outputs_def)

lemma dstep_manager_ok: "dstep w w' \<Longrightarrow> manager_ok (w_mgr w) \<Longrightarrow> manager_ok (w_mgr w')"
proof (induction rule: dstep.induct)
  case (d_pump w i s now ev p mg)
  then show ?case using pump_locked_ok [of "w_mgr w" i s now ev] by (auto simp: seq_room_def)
next
  case (d_withheld w i s now ev mg)
  show ?case
  proof (cases "entry_at i s (w_mgr w)")
    case None
    with d_withheld show ?thesis by (simp add: pump_locked_def)
  next
    case (Some e)
    obtain r e1 where h: "handle_event now ev (snd (noteReplay ev e)) = (r, e1)" by fastforce
    have "entry_ok (mg_gen (w_mgr w)) e" using manager_okD(1) [OF d_withheld(3)] Some unfolding entry_at_map_of by blast
    then have "entry_ok (mg_gen (w_mgr w)) e1" using entry_ok_core handle_event_core [OF h] noteReplay_core by metis
    moreover have "mg = put_entry i e1 (w_mgr w)"
      using d_withheld(2) Some h by (cases r) (auto simp: pump_locked_def Let_def split: option.splits prod.splits)
    ultimately show ?thesis using put_entry_ok_same [OF d_withheld(3)] by simp
  qed
next
  case (d_act w i s a as x fx more_acts mg)
  then show ?case using act_section_ok [of x i s a "w_mgr w" fx more_acts mg] by (simp add: seq_room_def)
next
  case (d_create w i s r m)
  then show ?case by (simp add: put_entry_ok_same seeded_ok)
next
  case (d_remove w i)
  show ?case
  proof (rule manager_okI)
    show "distinct (map fst (mg_sessions (w_mgr (w\<lparr>w_mgr := (w_mgr w)\<lparr>mg_sessions := AList.delete i (mg_sessions (w_mgr w))\<rparr>\<rparr>))))"
      using manager_okD(2) [OF d_remove] by (simp add: distinct_delete)
  next
    fix j e
    assume "map_of (mg_sessions (w_mgr (w\<lparr>w_mgr := (w_mgr w)\<lparr>mg_sessions := AList.delete i (mg_sessions (w_mgr w))\<rparr>\<rparr>))) j = Some e"
    then have "map_of (mg_sessions (w_mgr w)) j = Some e" by (simp add: delete_conv' split: if_splits)
    from manager_okD(1) [OF d_remove this]
    show "entry_ok (mg_gen (w_mgr (w\<lparr>w_mgr := (w_mgr w)\<lparr>mg_sessions := AList.delete i (mg_sessions (w_mgr w))\<rparr>\<rparr>))) e" by simp
  qed
next
  case (d_update f w i)
  then show ?case using update_entry_ok [of "w_mgr w" f i] entry_ok_core by auto
qed simp_all

lemma dreach_manager_ok: "dreach w \<Longrightarrow> manager_ok (w_mgr w)"
proof (induction rule: dreach.induct)
  case (d_start mg)
  then show ?case by (simp add: world_start_def manager_ok_def)
next
  case (d_next w w')
  then show ?case using dstep_manager_ok by blast
qed

text \<open>C4: the session manager's invariant. In every reachable state the sessions have distinct ids, every
  ring and every store of tool outputs is well formed, and no ask is pending twice; and then handling
  the next event of any session, however it looks, returns.\<close>

theorem manager_invariant:
  assumes "dreach w"
  shows "distinct (map fst (mg_sessions (w_mgr w))) \<and>
    (\<forall>i e. map_of (mg_sessions (w_mgr w)) i = Some e \<longrightarrow> entry_ok (mg_gen (w_mgr w)) e) \<and>
    (seq_room (w_mgr w) \<longrightarrow> (\<exists>r mg. pump_locked now i s ev (w_mgr w) = Some (r, mg) \<and> manager_ok mg))"
  using dreach_manager_ok [OF assms] pump_locked_ok [of "w_mgr w" i s now ev] unfolding manager_ok_def seq_room_def by blast

text \<open>C3: what a client that reacts to every delivered event believes to be open is what the daemon has
  pending, after any run of live events: every ask is shown once it is pending, every resolution is
  shown, and the asks a turn leaves open when it ends are resolved for the client before the next
  event.\<close>

theorem asks_refine:
  assumes "pump_run i s evs mg = Some (fx, mg')" "entry_at i s mg = Some e" "list_all (\<lambda>(x, ev). \<not> ev_Replay ev) evs"
  shows "\<exists>e'. entry_at i s mg' = Some e' \<and> client_view (sent_to i fx) (open_asks e) = open_asks e'"
  using pump_run_asks [OF assms] .

lemma ex_live_ok: "manager_ok ex_live" "room_at k ex_live" "entry_at ''s'' 7 ex_live = Some (seeded_entry (zero_meta\<lparr>m_ID := ''s''\<rparr>) 7 empty_ring)"
proof -
  have "manager_ok ex_manager" by (simp add: manager_ok_def ex_manager_def)
  moreover have "entry_ok 0 (seeded_entry (zero_meta\<lparr>m_ID := ''s''\<rparr>) 7 empty_ring)"
    using seeded_ok [where r = empty_ring and g = 0] ring_ok_empty by (simp add: empty_ring_def)
  ultimately show "manager_ok ex_live"
    unfolding ex_live_def by (intro put_entry_ok_same) (simp_all add: ex_manager_def)
  show "room_at k ex_live" by (simp add: room_at_def ex_live_seq)
  show "entry_at ''s'' 7 ex_live = Some (seeded_entry (zero_meta\<lparr>m_ID := ''s''\<rparr>) 7 empty_ring)"
    by (simp add: entry_at_def ex_live_def) (simp add: seeded_entry_def)
qed

theorem manager_invariant_witness:
  "\<exists>w r mg. dreach w \<and> length (w_sent w (''s'', 7)) = 1 \<and> distinct (map fst (mg_sessions (w_mgr w))) \<and>
    (seq_room (w_mgr w) \<longrightarrow> pump_locked 5 ''s'' 7 ex_done (w_mgr w) = Some (r, mg))"
proof -
  obtain w ev where w: "dreach w" "w_sent w (''s'', 7) = [ev]" using ex_world by blast
  with manager_invariant [OF w(1), of 5 "''s''" 7 ex_done] show ?thesis by (metis length_Cons list.size(3) One_nat_def)
qed

lemma pump_event_returns:
  assumes "manager_ok mg" "room_at (i, s) mg"
  shows "\<exists>fx mg'. pump_event x i s ev mg = Some (fx, mg')"
  using pump_locked_ok [OF assms, of "xv_now x" ev] by (auto simp: pump_event_def split: option.splits prod.splits)

definition ex_ask :: event where
  "ex_ask = zero_event\<lparr>ev_Type := TypePermission, ev_PermissionID := ''p''\<rparr>"

theorem asks_refine_witness:
  "\<exists>fx mg' e'. pump_run ''s'' 7 [(ex_env, ex_ask)] ex_live = Some (fx, mg') \<and> entry_at ''s'' 7 mg' = Some e' \<and>
    client_view (sent_to ''s'' fx) ({}, {}) = open_asks e'"
proof -
  obtain fx mg' where "pump_event ex_env ''s'' 7 ex_ask ex_live = Some (fx, mg')"
    using pump_event_returns [OF ex_live_ok(1,2)] by blast
  then have r: "pump_run ''s'' 7 [(ex_env, ex_ask)] ex_live = Some (fx, mg')" by simp
  have "list_all (\<lambda>(x, ev). \<not> ev_Replay ev) [(ex_env, ex_ask)]" by (simp add: ex_ask_def zero_event_def)
  from asks_refine [OF r ex_live_ok(3) this] r show ?thesis by (simp add: open_asks_def seeded_entry_def)
qed

text \<open>A pump whose session was replaced changes nothing and sends nothing.\<close>

lemma stale_pump: "entry_at i s mg = None \<Longrightarrow> pump_event x i s ev mg = Some ([], mg)"
  by (simp add: pump_event_def pump_locked_def)

text \<open>The asks of a session that was released to one named device are listed for every device.\<close>

lemma pending_asks_ignore_handoff:
  assumes "map_of (mg_sessions mg) i = Some e" "\<not> en_dead e" "OwnerDeviceID (en_meta e) = []" "(p, ev) \<in> set (pendingPermissions e)"
  shows "ev\<lparr>ev_SessionID := i\<rparr> \<in> set (PendingAsks d mg)"
proof -
  have "(i, e) \<in> set (mg_sessions mg)" using assms(1) by (rule map_of_SomeD)
  moreover have "asks_visible d e" using assms(2,3) by (simp add: asks_visible_def)
  moreover have "ev\<lparr>ev_SessionID := i\<rparr> \<in> set (entry_asks i e)" using assms(4) by (force simp: entry_asks_def)
  ultimately show ?thesis by (force simp: PendingAsks_def own_simps)
qed

text \<open>A command is reported and marked silent exactly when the turn it was forwarded for completes, live and
  not cancelled, with nothing but bookkeeping in between; here, one event at a time.\<close>

lemma silent_verdict:
  assumes "silent_watch (wk_entry w) = Some sw" "wk_silent w = None"
  shows "wk_silent (on_silent ev w) \<noteq> None \<longleftrightarrow>
    \<not> ev_Replay ev \<and> ev_Type ev = TypeTurnComplete \<and> ev_StopReason ev \<noteq> ''cancelled'' \<and> \<not> sw_output sw"
  using assms by (auto simp: on_silent_def)

end
