(* ===== verification/Jws.thy ===== *)
theory Jws
  imports GoText
begin

text \<open>
  Compact signatures of \<open>internal/receipt/jws.go\<close>, with what it uses of the standard library:
  unpadded URL-safe base64, \<open>strings.Split\<close>, and the big-endian halves of an ES256 signature.
  Strings are lists of bytes. SHA-256 is the parameter \<open>sha\<close>, the curve the parameter
  \<open>verify\<close> (public key, digest, r, s), and \<open>sg\<close> what \<open>ecdsa.Sign\<close> returned.

  The decoder of \<open>encoding/base64\<close> skips carriage returns and newlines wherever they stand and,
  not being strict, ignores the unused low bits of the last character.
\<close>

subsection \<open>Base64\<close>

definition alphabet64 :: string where
  "alphabet64 = ''ABCDEFGHIJKLMNOPQRSTUVWXYZabcdefghijklmnopqrstuvwxyz0123456789-_''"

definition encode6 :: "nat \<Rightarrow> char" where
  "encode6 n = alphabet64 ! n"

fun find_index :: "'a \<Rightarrow> 'a list \<Rightarrow> nat option" where
  "find_index x [] = None"
| "find_index x (y # ys) = (if x = y then Some 0 else map_option Suc (find_index x ys))"

definition decode6 :: "char \<Rightarrow> nat option" where
  "decode6 c = find_index c alphabet64"

fun encode_bytes :: "nat list \<Rightarrow> nat list" where
  "encode_bytes [] = []"
| "encode_bytes [a] = [a div 4, (a mod 4) * 16]"
| "encode_bytes [a, b] = [a div 4, (a mod 4) * 16 + b div 16, (b mod 16) * 4]"
| "encode_bytes (a # b # c # bs) =
    (a div 4) # ((a mod 4) * 16 + b div 16) # ((b mod 16) * 4 + c div 64) # (c mod 64) # encode_bytes bs"

fun decode_sextets :: "nat list \<Rightarrow> nat list option" where
  "decode_sextets [] = Some []"
| "decode_sextets [a] = None"
| "decode_sextets [a, b] = Some [a * 4 + b div 16]"
| "decode_sextets [a, b, c] = Some [a * 4 + b div 16, (b mod 16) * 16 + c div 4]"
| "decode_sextets (a # b # c # d # r) =
    map_option (\<lambda>bs. (a * 4 + b div 16) # ((b mod 16) * 16 + c div 4) # ((c mod 4) * 64 + d) # bs) (decode_sextets r)"

definition line_break :: "char \<Rightarrow> bool" where
  "line_break c \<longleftrightarrow> byte_of c = 10 \<or> byte_of c = 13"

definition RawURLEncode :: "string \<Rightarrow> string" where
  "RawURLEncode s = map encode6 (encode_bytes (map byte_of s))"

definition RawURLDecode :: "string \<Rightarrow> string option" where
  "RawURLDecode s =
    (case those (map decode6 (filter (\<lambda>c. \<not> line_break c) s)) of
       None \<Rightarrow> None
     | Some ns \<Rightarrow> map_option (map char_of) (decode_sextets ns))"

subsection \<open>Splitting\<close>

fun Split_on :: "char \<Rightarrow> string \<Rightarrow> string list" where
  "Split_on d [] = [[]]"
| "Split_on d (c # s) =
    (if c = d then [] # Split_on d s
     else case Split_on d s of [] \<Rightarrow> [[c]] | p # ps \<Rightarrow> (c # p) # ps)"

definition dot :: char where "dot = CHR ''.''"

subsection \<open>Big-endian integers\<close>

fun FillBytes :: "nat \<Rightarrow> nat \<Rightarrow> nat list" where
  "FillBytes 0 v = []"
| "FillBytes (Suc n) v = FillBytes n (v div 256) @ [v mod 256]"

definition SetBytes :: "nat list \<Rightarrow> nat" where
  "SetBytes bs = fold (\<lambda>b v. v * 256 + b) bs 0"

subsection \<open>Signing and verifying\<close>

definition jwsHeader :: string where
  \<open>jwsHeader = ''{"alg":"ES256"}''\<close>

definition jwsHeaderB64 :: string where
  "jwsHeaderB64 = RawURLEncode jwsHeader"

datatype jws_error = ErrMalformedJWS | ErrWrongAlg | ErrSignatureInvalid | ErrSign

definition SignES256Compact :: "(nat \<times> nat) option \<Rightarrow> string \<Rightarrow> jws_error + string" where
  "SignES256Compact sg payload =
    (let signingInput = jwsHeaderB64 @ dot # RawURLEncode payload
     in case sg of
          None \<Rightarrow> Inl ErrSign
        | Some (r, s) \<Rightarrow> Inr (signingInput @ dot # RawURLEncode (map char_of (FillBytes 32 r @ FillBytes 32 s))))"

definition VerifyES256Compact ::
  "(string \<Rightarrow> string) \<Rightarrow> ('k \<Rightarrow> string \<Rightarrow> nat \<Rightarrow> nat \<Rightarrow> bool) \<Rightarrow> 'k \<Rightarrow> string \<Rightarrow> jws_error + string" where
  "VerifyES256Compact sha verify pub compact =
    (case Split_on dot compact of
       [p0, p1, p2] \<Rightarrow>
         (case RawURLDecode p0 of
            None \<Rightarrow> Inl ErrMalformedJWS
          | Some header \<Rightarrow>
              if header \<noteq> jwsHeader then Inl ErrWrongAlg
              else (case RawURLDecode p1 of
                None \<Rightarrow> Inl ErrMalformedJWS
              | Some payload \<Rightarrow>
                  (case RawURLDecode p2 of
                     None \<Rightarrow> Inl ErrMalformedJWS
                   | Some sig \<Rightarrow>
                       if length sig \<noteq> 64 then Inl ErrMalformedJWS
                       else let bs = map byte_of sig
                            in if \<not> verify pub (sha (p0 @ dot # p1)) (SetBytes (take 32 bs)) (SetBytes (drop 32 bs))
                               then Inl ErrSignatureInvalid
                               else Inr payload)))
     | _ \<Rightarrow> Inl ErrMalformedJWS)"

definition DecodePayloadUnverified :: "string \<Rightarrow> jws_error + string" where
  "DecodePayloadUnverified compact =
    (case Split_on dot compact of
       [p0, p1, p2] \<Rightarrow>
         (case RawURLDecode p0 of
            None \<Rightarrow> Inl ErrMalformedJWS
          | Some header \<Rightarrow>
              if header \<noteq> jwsHeader then Inl ErrWrongAlg
              else (case RawURLDecode p1 of None \<Rightarrow> Inl ErrMalformedJWS | Some payload \<Rightarrow> Inr payload))
     | _ \<Rightarrow> Inl ErrMalformedJWS)"

subsection \<open>Round trips\<close>

lemma find_index_nth: "distinct xs \<Longrightarrow> i < length xs \<Longrightarrow> find_index (xs ! i) xs = Some i"
proof (induction xs arbitrary: i)
  case (Cons x xs)
  then show ?case by (cases i) auto
qed simp

lemma find_index_Some: "find_index x xs = Some i \<Longrightarrow> i < length xs \<and> xs ! i = x"
  by (induction xs arbitrary: i) (auto split: if_splits)

lemma alphabet64: "distinct alphabet64" "length alphabet64 = 64" "\<forall>c \<in> set alphabet64. \<not> line_break c \<and> c \<noteq> dot"
  by code_simp+

lemma decode6_encode6: "n < 64 \<Longrightarrow> decode6 (encode6 n) = Some n"
  using find_index_nth [OF alphabet64(1), of n] alphabet64(2) by (simp add: decode6_def encode6_def)

lemma encode6_plain: "n < 64 \<Longrightarrow> \<not> line_break (encode6 n) \<and> encode6 n \<noteq> dot"
  using alphabet64 by (simp add: encode6_def)

lemma encode_bytes_range: "\<forall>b \<in> set bs. b < 256 \<Longrightarrow> \<forall>n \<in> set (encode_bytes bs). n < 64"
  by (induction bs rule: encode_bytes.induct) auto

lemma decode_encode: "\<forall>b \<in> set bs. b < 256 \<Longrightarrow> decode_sextets (encode_bytes bs) = Some bs"
proof (induction bs rule: encode_bytes.induct)
  case (4 a b c bs)
  have "a div 4 * 4 + (a mod 4 * 16 + b div 16) div 16 = a" "(a mod 4 * 16 + b div 16) mod 16 * 16 + (b mod 16 * 4 + c div 64) div 4 = b"
    "(b mod 16 * 4 + c div 64) mod 4 * 64 + c mod 64 = c" using 4(2) by auto
  with 4 show ?case by simp
qed auto

lemma byte_of_less [simp]: "byte_of c < 256"
  by (simp add: byte_of_def)

lemma encoded_range: "n \<in> set (encode_bytes (map byte_of s)) \<Longrightarrow> n < 64"
  using encode_bytes_range [of "map byte_of s"] by auto

lemma RawURLEncode_plain: "c \<in> set (RawURLEncode s) \<Longrightarrow> \<not> line_break c \<and> c \<noteq> dot"
  using encoded_range encode6_plain by (auto simp: RawURLEncode_def)

lemma those_map_Some: "\<forall>x \<in> set xs. f x = Some (g x) \<Longrightarrow> those (map f xs) = Some (map g xs)"
  by (induction xs) auto

lemma RawURL_roundtrip [simp]: "RawURLDecode (RawURLEncode s) = Some s"
proof -
  have f: "filter (\<lambda>c. \<not> line_break c) (RawURLEncode s) = RawURLEncode s"
    using RawURLEncode_plain by (simp add: filter_id_conv)
  have "those (map decode6 (RawURLEncode s)) = Some (encode_bytes (map byte_of s))"
    unfolding RawURLEncode_def map_map
    using those_map_Some [of "encode_bytes (map byte_of s)" "decode6 \<circ> encode6" id] decode6_encode6 encoded_range by simp
  moreover have "map (char_of \<circ> byte_of) s = s" by (simp add: byte_of_def comp_def map_idI)
  ultimately show ?thesis unfolding RawURLDecode_def f by (simp add: decode_encode)
qed

text \<open>Line breaks anywhere are invisible to the decoder.\<close>

lemma RawURLDecode_breaks: "filter (\<lambda>c. \<not> line_break c) s = filter (\<lambda>c. \<not> line_break c) t \<Longrightarrow> RawURLDecode s = RawURLDecode t"
  by (simp add: RawURLDecode_def)

lemma Split_on_none: "d \<notin> set s \<Longrightarrow> Split_on d s = [s]"
  by (induction s) auto

lemma Split_on_nonempty: "Split_on d s \<noteq> []"
  by (induction s) (auto split: list.splits)

lemma Split_on_append: "d \<notin> set s \<Longrightarrow> Split_on d (s @ d # t) = s # Split_on d t"
proof (induction s)
  case (Cons c s)
  then show ?case by auto
qed simp

lemma FillBytes_props [simp]: "length (FillBytes n v) = n" "b \<in> set (FillBytes n v) \<Longrightarrow> b < 256"
  by (induction n arbitrary: v) auto

lemma SetBytes_FillBytes: "v < 256 ^ n \<Longrightarrow> SetBytes (FillBytes n v) = v"
proof (induction n arbitrary: v)
  case (Suc n)
  then have "v div 256 < 256 ^ n" by (simp add: less_mult_imp_div_less mult.commute)
  from Suc.IH [OF this] show ?case by (simp add: SetBytes_def)
qed (simp add: SetBytes_def)

lemma bytes_of_chars: "\<forall>b \<in> set bs. b < 256 \<Longrightarrow> map byte_of (map char_of bs) = bs"
  by (simp add: map_idI)

text \<open>The three parts of what is signed, and their characters.\<close>

lemma header_decodes [simp]: "RawURLDecode jwsHeaderB64 = Some jwsHeader"
  by (simp add: jwsHeaderB64_def)

lemma Split_compact:
  "Split_on dot (jwsHeaderB64 @ dot # RawURLEncode p @ dot # RawURLEncode s) = [jwsHeaderB64, RawURLEncode p, RawURLEncode s]"
proof -
  have "dot \<notin> set (RawURLEncode t)" for t using RawURLEncode_plain by blast
  then show ?thesis by (simp add: jwsHeaderB64_def Split_on_append Split_on_none)
qed

lemma Sign_plain:
  assumes "SignES256Compact sg payload = Inr jws" "c \<in> set jws"
  shows "\<not> line_break c"
proof -
  have "c = dot \<or> (\<exists>s. c \<in> set (RawURLEncode s))"
    using assms by (auto simp: SignES256Compact_def jwsHeaderB64_def Let_def split: option.splits prod.splits)
  then show ?thesis using RawURLEncode_plain by (auto simp: line_break_def dot_def byte_of_def)
qed

lemma Sign_payload:
  "SignES256Compact sg payload = Inr jws \<Longrightarrow> DecodePayloadUnverified jws = Inr payload"
  by (auto simp: SignES256Compact_def DecodePayloadUnverified_def Let_def Split_compact split: option.splits)

lemma Verify_payload: "VerifyES256Compact sha verify pub jws = Inr payload \<Longrightarrow> DecodePayloadUnverified jws = Inr payload"
  by (auto simp: VerifyES256Compact_def DecodePayloadUnverified_def Let_def split: list.splits option.splits if_splits)

lemma jws_verifies:
  assumes "SignES256Compact (Some (r, s)) payload = Inr jws" "r < 256 ^ 32" "s < 256 ^ 32"
    and "verify pub (sha (jwsHeaderB64 @ dot # RawURLEncode payload)) r s"
  shows "VerifyES256Compact sha verify pub jws = Inr payload"
proof -
  let ?bs = "FillBytes 32 r @ FillBytes 32 s"
  have j: "jws = jwsHeaderB64 @ dot # RawURLEncode payload @ dot # RawURLEncode (map char_of ?bs)"
    using assms(1) by (simp add: SignES256Compact_def)
  have b: "map byte_of (map char_of ?bs) = ?bs" by (rule bytes_of_chars) auto
  have "SetBytes (take 32 ?bs) = r" "SetBytes (drop 32 ?bs) = s" using assms(2,3) by (simp_all add: SetBytes_FillBytes)
  then show ?thesis unfolding j VerifyES256Compact_def Split_compact using b assms(4)
    by (simp add: Let_def del: map_map map_append)
qed

text \<open>What is signed verifies to the payload that was signed, when the curve accepts its own
  signature and the two integers fit their 32 bytes.\<close>

theorem jws_roundtrip:
  assumes "SignES256Compact (Some (r, s)) payload = Inr jws" "r < 256 ^ 32" "s < 256 ^ 32"
    and "verify pub (sha (jwsHeaderB64 @ dot # RawURLEncode payload)) r s"
  shows "VerifyES256Compact sha verify pub jws = Inr payload"
  by (rule jws_verifies [OF assms(1-3), where verify = verify and sha = sha and pub = pub, OF assms(4)])

theorem jws_roundtrip_witness:
  "\<exists>jws. SignES256Compact (Some (5, 7)) ''hi'' = Inr jws \<and> VerifyES256Compact id (\<lambda>k d r s. r = 5 \<and> s = 7) () jws = Inr ''hi''"
  using jws_roundtrip [of 5 7 "''hi''" _ "\<lambda>k d r s. r = 5 \<and> s = 7" "()" id] by (auto simp: SignES256Compact_def)

end
