(* ===== verification/Devices.thy ===== *)
theory Devices
  imports GoText AtomicWrite
begin

text \<open>
  Paired devices: \<open>internal/auth/store.go\<close> and \<open>token.go\<close>.

  The daemon and every run of the command line open their own \<open>Store\<close> on one file. A process's
  state is its cache; the file is shared, and every operation runs under a lock on the file, so an
  execution is a sequence of operations, each of one process. \<open>dev_io\<close> holds what the outside
  does during an operation: whether the lock is got and the file read, how a write ends, and the
  readings of the clock in the order they are taken.

  Parameters: \<open>sha\<close> is SHA-256 in hex, \<open>clean\<close> is \<open>safetext.Clean\<close> with the
  \<open>Line\<close> rules, \<open>isUUID\<close> says whether \<open>uuid.Parse\<close> succeeds, \<open>parsePKIX\<close> is
  \<open>x509.ParsePKIXPublicKey\<close>. The fields \<open>fileMod\<close> and \<open>fileSize\<close> are written
  and never read, and are left out.
\<close>

subsection \<open>Data\<close>

record Device =
  dv_ID :: string
  dv_Name :: string
  dv_CreatedAt :: gotime
  dv_LastUsedAt :: "gotime option"
  dv_ClientKeyFP :: string
  dv_ClientKeySPKI :: string

record deviceRecord =
  dr_ID :: string
  dr_Name :: string
  TokenHash :: string
  dr_CreatedAt :: gotime
  dr_LastUsedAt :: "gotime option"
  dr_ClientKeyFP :: string
  dr_ClientKeySPKI :: string

definition device_of :: "deviceRecord \<Rightarrow> Device" where
  "device_of r = \<lparr>dv_ID = dr_ID r, dv_Name = dr_Name r, dv_CreatedAt = dr_CreatedAt r, dv_LastUsedAt = dr_LastUsedAt r,
     dv_ClientKeyFP = dr_ClientKeyFP r, dv_ClientKeySPKI = dr_ClientKeySPKI r\<rparr>"

text \<open>The file: absent, not JSON, or holding records; an empty file holds none.\<close>

datatype dev_file = Missing | Corrupt | Present "deviceRecord list"

record dev_store =
  st_devices :: "deviceRecord list"
  st_lastFlush :: gotime
  st_lastUsedDirty :: bool
  st_saveCount :: nat

datatype dev_error = ErrNotFound | ErrInvalidToken | ErrNoPublicKey | ErrLockBusy | ErrRead | ErrNotExist
  | ErrParse | ErrWrite | ErrToken | ErrMkdir | ErrParseKey | ErrKeyType

record dev_io =
  io_lock :: bool
  io_read :: bool
  io_write :: write_result
  io_now :: gotime
  io_since :: gotime
  io_flushed :: gotime

type_synonym dev_state = "dev_file \<times> dev_store"
type_synonym 'a dev_res = "(dev_error + 'a) \<times> dev_state"

subsection \<open>Names and tokens\<close>

definition deviceNameMaxLen :: nat where "deviceNameMaxLen = 64"

fun name_cut :: "string \<Rightarrow> nat \<Rightarrow> nat" where
  "name_cut name 0 = 0"
| "name_cut name (Suc n) = (if \<not> RuneStart (name ! Suc n) then name_cut name n else Suc n)"

definition sanitizeDeviceName :: "(string \<Rightarrow> string) \<Rightarrow> (string \<Rightarrow> bool) \<Rightarrow> string \<Rightarrow> string" where
  "sanitizeDeviceName clean isUUID raw =
    (let name = join_space (Fields (clean raw))
     in if name = [] then ''device''
        else let name1 = (if deviceNameMaxLen < length name then TrimSpace (take (name_cut name deviceNameMaxLen) name) else name)
             in if name1 = [] then ''device''
                else if isUUID name1 then ''device-'' @ name1 else name1)"

definition tokenPrefix :: string where "tokenPrefix = ''mcr_''"

definition hex_digit :: "nat \<Rightarrow> char" where
  "hex_digit n = ''0123456789abcdef'' ! n"

definition EncodeToString :: "nat list \<Rightarrow> string" where
  "EncodeToString bs = concat (map (\<lambda>b. [hex_digit (b div 16), hex_digit (b mod 16)]) bs)"

text \<open>\<open>read\<close> is what \<open>rand.Read\<close> put into the 32 bytes, if it succeeded.\<close>

definition GenerateToken :: "nat list option \<Rightarrow> dev_error + string" where
  "GenerateToken read = (case read of None \<Rightarrow> Inl ErrToken | Some b \<Rightarrow> Inr (tokenPrefix @ EncodeToString b))"

subsection \<open>Reading, merging and writing\<close>

definition readFile :: "dev_io \<Rightarrow> dev_file \<Rightarrow> dev_error + deviceRecord list" where
  "readFile io f =
    (if \<not> io_read io then Inl ErrRead
     else case f of Missing \<Rightarrow> Inl ErrNotExist | Corrupt \<Rightarrow> Inl ErrParse | Present ds \<Rightarrow> Inr ds)"

definition reloadForcedLocked :: "dev_io \<Rightarrow> dev_file \<Rightarrow> dev_store \<Rightarrow> dev_error option \<times> dev_store" where
  "reloadForcedLocked io f s =
    (case readFile io f of
       Inl e \<Rightarrow> if e = ErrNotExist then (None, s\<lparr>st_devices := []\<rparr>) else (Some e, s)
     | Inr ds \<Rightarrow> (None, s\<lparr>st_devices := ds\<rparr>))"

text \<open>Later entries overwrite earlier ones, as assignments to a Go map do.\<close>

definition snapshotLastUsedLocked :: "dev_store \<Rightarrow> (string \<rightharpoonup> gotime)" where
  "snapshotLastUsedLocked s =
    (if \<not> st_lastUsedDirty s then Map.empty
     else fold (\<lambda>r m. case dr_LastUsedAt r of None \<Rightarrow> m | Some t \<Rightarrow> m(dr_ID r \<mapsto> t)) (st_devices s) Map.empty)"

definition newer :: "(string \<rightharpoonup> gotime) \<Rightarrow> deviceRecord \<Rightarrow> bool" where
  "newer pending r = (case pending (dr_ID r) of None \<Rightarrow> False
     | Some t \<Rightarrow> (case dr_LastUsedAt r of None \<Rightarrow> True | Some cur \<Rightarrow> cur < t))"

definition merge_used :: "(string \<rightharpoonup> gotime) \<Rightarrow> deviceRecord \<Rightarrow> deviceRecord" where
  "merge_used pending r = (if newer pending r then r\<lparr>dr_LastUsedAt := pending (dr_ID r)\<rparr> else r)"

definition mergeLastUsedLocked :: "(string \<rightharpoonup> gotime) \<Rightarrow> dev_store \<Rightarrow> dev_store" where
  "mergeLastUsedLocked pending s =
    s\<lparr>st_devices := map (merge_used pending) (st_devices s), st_lastUsedDirty := list_ex (newer pending) (st_devices s)\<rparr>"

definition withLocked :: "dev_io \<Rightarrow> (dev_state \<Rightarrow> 'a dev_res) \<Rightarrow> dev_state \<Rightarrow> 'a dev_res" where
  "withLocked io fn = (\<lambda>(f, s).
    if \<not> io_lock io then (Inl ErrLockBusy, f, s)
    else let pending = snapshotLastUsedLocked s
         in case reloadForcedLocked io f s of
              (Some e, s1) \<Rightarrow> (Inl e, f, s1)
            | (None, s1) \<Rightarrow> fn (f, mergeLastUsedLocked pending s1))"

definition persistLocked :: "dev_io \<Rightarrow> deviceRecord list \<Rightarrow> dev_state \<Rightarrow> unit dev_res" where
  "persistLocked io ds = (\<lambda>(f, s).
    if ok_write (io_write io)
    then (Inr (), Present ds, s\<lparr>st_devices := ds, st_lastUsedDirty := False, st_lastFlush := io_flushed io,
            st_saveCount := Suc (st_saveCount s)\<rparr>)
    else (Inl ErrWrite, after_write (io_write io) f (Present ds), s))"

definition set_devices :: "deviceRecord list \<Rightarrow> dev_state \<Rightarrow> dev_state" where
  "set_devices ds = (\<lambda>(f, s). (f, s\<lparr>st_devices := ds\<rparr>))"

subsection \<open>Operations\<close>

text \<open>\<open>made\<close> says whether the directory could be made.\<close>

definition OpenStore :: "bool \<Rightarrow> dev_io \<Rightarrow> dev_file \<Rightarrow> (dev_error + dev_store) \<times> dev_file" where
  "OpenStore made io f =
    (let s = \<lparr>st_devices = [], st_lastFlush = io_now io, st_lastUsedDirty = False, st_saveCount = 0\<rparr>
     in if \<not> made then (Inl ErrMkdir, f)
        else if \<not> io_lock io then (Inl ErrLockBusy, f)
        else if f = Missing then
          (case persistLocked io [] (f, s) of
             (Inl e, f1, _) \<Rightarrow> (Inl e, f1)
           | (Inr _, f1, s1) \<Rightarrow> (Inr s1, f1))
        else case readFile io f of Inl e \<Rightarrow> (Inl e, f) | Inr ds \<Rightarrow> (Inr (s\<lparr>st_devices := ds\<rparr>), f))"

definition Flush_devices :: "dev_io \<Rightarrow> dev_state \<Rightarrow> unit dev_res" where
  "Flush_devices io fs =
    (if \<not> st_lastUsedDirty (snd fs) then (Inr (), fs)
     else withLocked io (\<lambda>(f, s).
       if \<not> st_lastUsedDirty s then (Inr (), f, s) else persistLocked io (st_devices s) (f, s)) fs)"

definition new_record :: "(string \<Rightarrow> string) \<Rightarrow> dev_io \<Rightarrow> string \<Rightarrow> string \<Rightarrow> string \<Rightarrow> string \<Rightarrow> string \<Rightarrow> deviceRecord" where
  "new_record sha io newid token name fp spki =
    \<lparr>dr_ID = newid, dr_Name = name, TokenHash = sha token, dr_CreatedAt = io_now io, dr_LastUsedAt = None,
     dr_ClientKeyFP = fp, dr_ClientKeySPKI = spki\<rparr>"

text \<open>\<open>generated\<close> is the result of \<open>GenerateToken\<close>, \<open>newid\<close> of \<open>uuid.NewString\<close>.\<close>

definition CreateWithClientKey ::
  "(string \<Rightarrow> string) \<Rightarrow> (string \<Rightarrow> string) \<Rightarrow> (string \<Rightarrow> bool) \<Rightarrow> dev_io \<Rightarrow> dev_error + string \<Rightarrow> string \<Rightarrow> string \<Rightarrow> string \<Rightarrow> string \<Rightarrow>
    dev_state \<Rightarrow> (Device \<times> string) dev_res" where
  "CreateWithClientKey sha clean isUUID io generated newid name fp spki fs =
    (case generated of
       Inl e \<Rightarrow> (Inl e, fs)
     | Inr token \<Rightarrow> withLocked io (\<lambda>(f, s).
         let rec = new_record sha io newid token (sanitizeDeviceName clean isUUID name) fp spki
         in case persistLocked io (st_devices s @ [rec]) (f, s) of
              (Inl e, fs1) \<Rightarrow> (Inl e, fs1)
            | (Inr _, fs1) \<Rightarrow> (Inr (device_of rec, token), fs1)) fs)"

definition List_devices :: "dev_io \<Rightarrow> dev_state \<Rightarrow> Device list dev_res" where
  "List_devices io = withLocked io (\<lambda>(f, s). (Inr (map device_of (st_devices s)), f, s))"

text \<open>Removing the records a predicate selects: the body \<open>Prune\<close> and \<open>RevokeByClientKeyFP\<close> share.\<close>

definition remove_where :: "dev_io \<Rightarrow> (deviceRecord \<Rightarrow> bool) \<Rightarrow> dev_state \<Rightarrow> Device list dev_res" where
  "remove_where io p = withLocked io (\<lambda>(f, s).
    let removed = filter p (st_devices s); kept = filter (\<lambda>r. \<not> p r) (st_devices s)
    in if removed = [] then (Inr [], f, s)
       else case persistLocked io kept (set_devices kept (f, s)) of
              (Inl e, fs1) \<Rightarrow> (Inl e, fs1)
            | (Inr _, fs1) \<Rightarrow> (Inr (map device_of removed), fs1))"

definition prunable :: "gotime \<Rightarrow> bool \<Rightarrow> deviceRecord \<Rightarrow> bool" where
  "prunable staleBefore keylessOnly r \<longleftrightarrow>
    (if keylessOnly then dr_ClientKeyFP r = []
     else if \<not> IsZero staleBefore then (case dr_LastUsedAt r of None \<Rightarrow> True | Some t \<Rightarrow> t < staleBefore)
     else False)"

definition Prune :: "dev_io \<Rightarrow> gotime \<Rightarrow> bool \<Rightarrow> dev_state \<Rightarrow> Device list dev_res" where
  "Prune io staleBefore keylessOnly = remove_where io (prunable staleBefore keylessOnly)"

definition RevokeByClientKeyFP :: "dev_io \<Rightarrow> string \<Rightarrow> string \<Rightarrow> dev_state \<Rightarrow> Device list dev_res" where
  "RevokeByClientKeyFP io fp keepID fs =
    (let k = TrimSpace fp
     in if k = [] then (Inr [], fs)
        else remove_where io (\<lambda>r. \<not> (dr_ClientKeyFP r \<noteq> k \<or> dr_ID r = keepID)) fs)"

datatype 'k parsed_key = BadKey | OtherKey | ECDSAKey 'k

definition PublicKeyFor :: "(string \<Rightarrow> 'k parsed_key) \<Rightarrow> dev_io \<Rightarrow> string \<Rightarrow> dev_state \<Rightarrow> 'k dev_res" where
  "PublicKeyFor parsePKIX io deviceID fs =
    (case withLocked io (\<lambda>(f, s). case find (\<lambda>r. dr_ID r = deviceID) (st_devices s) of
         None \<Rightarrow> (Inl ErrNotFound, f, s) | Some r \<Rightarrow> (Inr (dr_ClientKeySPKI r), f, s)) fs of
       (Inl e, fs1) \<Rightarrow> (Inl e, fs1)
     | (Inr spki, fs1) \<Rightarrow>
         (if spki = [] then Inl ErrNoPublicKey
          else case parsePKIX spki of BadKey \<Rightarrow> Inl ErrParseKey | OtherKey \<Rightarrow> Inl ErrKeyType | ECDSAKey k \<Rightarrow> Inr k, fs1))"

fun update_first :: "('a \<Rightarrow> bool) \<Rightarrow> ('a \<Rightarrow> 'a) \<Rightarrow> 'a list \<Rightarrow> 'a list" where
  "update_first p g [] = []"
| "update_first p g (x # xs) = (if p x then g x # xs else x # update_first p g xs)"

definition BackfillClientKeySPKI :: "dev_io \<Rightarrow> string \<Rightarrow> string \<Rightarrow> dev_state \<Rightarrow> unit dev_res" where
  "BackfillClientKeySPKI io deviceID spki fs =
    (if spki = [] then (Inr (), fs)
     else withLocked io (\<lambda>(f, s). case find (\<lambda>r. dr_ID r = deviceID) (st_devices s) of
         None \<Rightarrow> (Inl ErrNotFound, f, s)
       | Some r \<Rightarrow>
           if dr_ClientKeySPKI r \<noteq> [] then (Inr (), f, s)
           else let ds = update_first (\<lambda>r. dr_ID r = deviceID) (\<lambda>r. r\<lparr>dr_ClientKeySPKI := spki\<rparr>) (st_devices s)
                in persistLocked io ds (set_devices ds (f, s))) fs)"

fun delete_nth :: "nat \<Rightarrow> 'a list \<Rightarrow> 'a list" where
  "delete_nth n [] = []"
| "delete_nth 0 (x # xs) = xs"
| "delete_nth (Suc n) (x # xs) = x # delete_nth n xs"

fun IndexFunc :: "('a \<Rightarrow> bool) \<Rightarrow> 'a list \<Rightarrow> nat option" where
  "IndexFunc p [] = None"
| "IndexFunc p (x # xs) = (if p x then Some 0 else map_option Suc (IndexFunc p xs))"

definition revoke_index :: "string \<Rightarrow> deviceRecord list \<Rightarrow> nat option" where
  "revoke_index idOrName ds =
    (case IndexFunc (\<lambda>r. dr_ID r = idOrName) ds of
       Some i \<Rightarrow> Some i | None \<Rightarrow> IndexFunc (\<lambda>r. dr_Name r = idOrName) ds)"

definition Revoke :: "dev_io \<Rightarrow> string \<Rightarrow> dev_state \<Rightarrow> Device dev_res" where
  "Revoke io idOrName = withLocked io (\<lambda>(f, s).
    case revoke_index idOrName (st_devices s) of
      None \<Rightarrow> (Inl ErrNotFound, f, s)
    | Some i \<Rightarrow>
        let r = st_devices s ! i; ds = delete_nth i (st_devices s)
        in (case persistLocked io ds (set_devices ds (f, s)) of
             (Inl e, fs1) \<Rightarrow> (Inl e, fs1)
           | (Inr _, fs1) \<Rightarrow> (Inr ((device_of r)\<lparr>dv_ClientKeyFP := [], dv_ClientKeySPKI := []\<rparr>), fs1)))"

definition lastUsedFlushInterval :: duration where "lastUsedFlushInterval = 5 * minute"

definition validate_locked :: "(string \<Rightarrow> string) \<Rightarrow> dev_io \<Rightarrow> string \<Rightarrow> dev_state \<Rightarrow> Device dev_res" where
  "validate_locked sha io token = (\<lambda>(f, s).
    case IndexFunc (\<lambda>r. TokenHash r = sha token) (st_devices s) of
      None \<Rightarrow> (Inl ErrInvalidToken, f, s)
    | Some i \<Rightarrow>
        let r = st_devices s ! i;
            ds = (st_devices s)[i := r\<lparr>dr_LastUsedAt := Some (io_now io)\<rparr>];
            s1 = s\<lparr>st_devices := ds, st_lastUsedDirty := True\<rparr>;
            out = (device_of r)\<lparr>dv_LastUsedAt := Some (io_now io)\<rparr>
        in if lastUsedFlushInterval \<le> io_since io - st_lastFlush s
           then (case persistLocked io ds (f, s1) of (Inl e, fs1) \<Rightarrow> (Inl e, fs1) | (Inr _, fs1) \<Rightarrow> (Inr out, fs1))
           else (Inr out, f, s1))"

definition Validate :: "(string \<Rightarrow> string) \<Rightarrow> dev_io \<Rightarrow> string \<Rightarrow> dev_state \<Rightarrow> Device dev_res" where
  "Validate sha io token fs =
    (if token = [] then (Inl ErrInvalidToken, fs) else withLocked io (validate_locked sha io token) fs)"

subsection \<open>Executions of several processes\<close>

datatype dev_op = OpCreate "dev_error + string" string string string string | OpList | OpPrune gotime bool
  | OpRevokeFP string string | OpKey string | OpBackfill string string | OpRevoke string | OpValidate string
  | OpFlush | OpOpen bool

text \<open>What an operation leaves behind. Opening replaces the cache when it succeeds.\<close>

fun run_op :: "(string \<Rightarrow> string) \<Rightarrow> (string \<Rightarrow> string) \<Rightarrow> (string \<Rightarrow> bool) \<Rightarrow> dev_io \<times> dev_op \<Rightarrow> dev_state \<Rightarrow> dev_state" where
  "run_op sha clean isUUID (io, OpCreate gen newid name fp spki) fs =
    snd (CreateWithClientKey sha clean isUUID io gen newid name fp spki fs)"
| "run_op sha clean isUUID (io, OpList) fs = snd (List_devices io fs)"
| "run_op sha clean isUUID (io, OpPrune t k) fs = snd (Prune io t k fs)"
| "run_op sha clean isUUID (io, OpRevokeFP fp keep) fs = snd (RevokeByClientKeyFP io fp keep fs)"
| "run_op sha clean isUUID (io, OpKey d) fs = snd (PublicKeyFor (\<lambda>_. OtherKey :: unit parsed_key) io d fs)"
| "run_op sha clean isUUID (io, OpBackfill d spki) fs = snd (BackfillClientKeySPKI io d spki fs)"
| "run_op sha clean isUUID (io, OpRevoke x) fs = snd (Revoke io x fs)"
| "run_op sha clean isUUID (io, OpValidate token) fs = snd (Validate sha io token fs)"
| "run_op sha clean isUUID (io, OpFlush) fs = snd (Flush_devices io fs)"
| "run_op sha clean isUUID (io, OpOpen made) fs =
    (case OpenStore made io (fst fs) of (Inl _, f1) \<Rightarrow> (f1, snd fs) | (Inr s1, f1) \<Rightarrow> (f1, s1))"

text \<open>Steps of several processes over one file: each step is a process and an operation.\<close>

fun exec :: "('op \<Rightarrow> 'f \<times> 's \<Rightarrow> 'f \<times> 's) \<Rightarrow> (nat \<times> 'op) list \<Rightarrow> 'f \<times> (nat \<Rightarrow> 's) \<Rightarrow> 'f \<times> (nat \<Rightarrow> 's)" where
  "exec run [] st = st"
| "exec run ((p, x) # steps) st =
    (case run x (fst st, snd st p) of (f1, s1) \<Rightarrow> exec run steps (f1, (snd st)(p := s1)))"

fun spec_path :: "('op \<Rightarrow> 'a \<Rightarrow> 'a \<Rightarrow> bool) \<Rightarrow> 'op list \<Rightarrow> 'a \<Rightarrow> 'a \<Rightarrow> bool" where
  "spec_path spec [] a b \<longleftrightarrow> b = a"
| "spec_path spec (x # xs) a b \<longleftrightarrow> (\<exists>c. spec x a c \<and> spec_path spec xs c b)"

text \<open>
  A file several processes cache: whatever a process has cached, what its operations do to the
  contents of the file is what the specification says of those contents. Then an execution is one of
  the specification, in which there are no caches.
\<close>

locale shared_file =
  fixes run :: "'op \<Rightarrow> 'f \<times> 's \<Rightarrow> 'f \<times> 's"
    and contents :: "'f \<Rightarrow> 'a"
    and spec :: "'op \<Rightarrow> 'a \<Rightarrow> 'a \<Rightarrow> bool"
  assumes run_spec: "spec x (contents f) (contents (fst (run x (f, s))))"
begin

lemma exec_refines: "spec_path spec (map snd steps) (contents f) (contents (fst (exec run steps (f, ps))))"
proof (induction steps arbitrary: f ps)
  case (Cons st steps)
  obtain p x where st: "st = (p, x)" by fastforce
  obtain f1 s1 where r: "run x (f, ps p) = (f1, s1)" by fastforce
  have "spec x (contents f) (contents f1)" using run_spec [of x f "ps p"] r by simp
  then show ?case using Cons.IH [of f1 "ps(p := s1)"] r st by (auto simp del: fun_upd_apply)
qed simp

lemma path_stable:
  "spec_path spec xs a b \<Longrightarrow> P a \<Longrightarrow> (\<And>x a b. x \<in> set xs \<Longrightarrow> spec x a b \<Longrightarrow> P a \<Longrightarrow> P b) \<Longrightarrow> P b"
proof (induction xs arbitrary: a)
  case (Cons x xs)
  then obtain c where c: "spec x a c" "spec_path spec xs c b" by auto
  with Cons.prems have "P c" by (meson list.set_intros(1))
  with Cons.IH [OF c(2)] Cons.prems(3) show ?case by (meson list.set_intros(2))
qed simp

lemma exec_stable:
  assumes "P (contents f)" "\<And>x a b. x \<in> snd ` set steps \<Longrightarrow> spec x a b \<Longrightarrow> P a \<Longrightarrow> P b"
  shows "P (contents (fst (exec run steps (f, ps))))"
  by (rule path_stable [OF exec_refines [of steps f ps]]) (use assms in auto)

end

subsection \<open>The device list without caches\<close>

text \<open>A device's identity is its record without the time it was last used.\<close>

definition ident :: "deviceRecord \<Rightarrow> deviceRecord" where
  "ident r = r\<lparr>dr_LastUsedAt := None\<rparr>"

definition dev_records :: "dev_file \<Rightarrow> deviceRecord list" where
  "dev_records f = (case f of Present ds \<Rightarrow> ds | _ \<Rightarrow> [])"

definition dev_list :: "dev_file \<Rightarrow> deviceRecord list" where
  "dev_list f = map ident (dev_records f)"

text \<open>What an operation may do to the list: nothing, when it fails or need not change it, or its
  effect. Pruning by age looks at times of use, and removes some records.\<close>

fun dev_effect :: "(string \<Rightarrow> string) \<Rightarrow> (string \<Rightarrow> string) \<Rightarrow> (string \<Rightarrow> bool) \<Rightarrow> dev_io \<times> dev_op \<Rightarrow> deviceRecord list \<Rightarrow> deviceRecord list \<Rightarrow> bool" where
  "dev_effect sha clean isUUID (io, OpCreate gen newid name fp spki) a b \<longleftrightarrow>
    (\<exists>token. gen = Inr token \<and> b = a @ [new_record sha io newid token (sanitizeDeviceName clean isUUID name) fp spki])"
| "dev_effect sha clean isUUID (io, OpPrune t keyless) a b \<longleftrightarrow>
    (if keyless then b = filter (\<lambda>r. dr_ClientKeyFP r \<noteq> []) a else subseq b a)"
| "dev_effect sha clean isUUID (io, OpRevokeFP fp keep) a b \<longleftrightarrow>
    TrimSpace fp \<noteq> [] \<and> b = filter (\<lambda>r. dr_ClientKeyFP r \<noteq> TrimSpace fp \<or> dr_ID r = keep) a"
| "dev_effect sha clean isUUID (io, OpBackfill d spki) a b \<longleftrightarrow>
    (\<exists>r. find (\<lambda>r. dr_ID r = d) a = Some r \<and> dr_ClientKeySPKI r = []) \<and>
    b = update_first (\<lambda>r. dr_ID r = d) (\<lambda>r. r\<lparr>dr_ClientKeySPKI := spki\<rparr>) a"
| "dev_effect sha clean isUUID (io, OpRevoke x) a b \<longleftrightarrow> (\<exists>i. revoke_index x a = Some i \<and> b = delete_nth i a)"
| "dev_effect sha clean isUUID (io, _) a b \<longleftrightarrow> False"

definition dev_spec :: "(string \<Rightarrow> string) \<Rightarrow> (string \<Rightarrow> string) \<Rightarrow> (string \<Rightarrow> bool) \<Rightarrow> dev_io \<times> dev_op \<Rightarrow> deviceRecord list \<Rightarrow> deviceRecord list \<Rightarrow> bool" where
  "dev_spec sha clean isUUID x a b \<longleftrightarrow> b = a \<or> dev_effect sha clean isUUID x a b"

named_theorems dev_simps \<open>how the pieces of the device store act on identities\<close>

lemma ident_fields [dev_simps]:
  "dr_ID (ident r) = dr_ID r" "dr_Name (ident r) = dr_Name r" "TokenHash (ident r) = TokenHash r"
  "dr_ClientKeyFP (ident r) = dr_ClientKeyFP r" "dr_ClientKeySPKI (ident r) = dr_ClientKeySPKI r"
  "dr_CreatedAt (ident r) = dr_CreatedAt r" "ident (r\<lparr>dr_LastUsedAt := t\<rparr>) = ident r"
  "ident (r\<lparr>dr_ClientKeySPKI := k\<rparr>) = (ident r)\<lparr>dr_ClientKeySPKI := k\<rparr>" "ident (ident r) = ident r"
  "ident (merge_used pending r) = ident r"
  by (simp_all add: ident_def merge_used_def)

lemma IndexFunc_map [dev_simps]: "IndexFunc p (map g xs) = IndexFunc (p \<circ> g) xs"
  by (induction xs) auto

lemma IndexFunc_find: "IndexFunc p xs = None \<longleftrightarrow> find p xs = None"
  by (induction xs) auto

lemma IndexFunc_Some: "IndexFunc p xs = Some i \<Longrightarrow> i < length xs \<and> p (xs ! i)"
  by (induction xs arbitrary: i) (auto split: if_splits)

lemma IndexFunc_None: "IndexFunc p xs = None \<longleftrightarrow> (\<forall>x \<in> set xs. \<not> p x)"
  by (induction xs) auto

lemma delete_nth_map [dev_simps]: "delete_nth i (map g xs) = map g (delete_nth i xs)"
  by (induction i xs rule: delete_nth.induct) auto

lemma find_map: "find p (map g xs) = map_option g (find (p \<circ> g) xs)"
  by (induction xs) auto

lemma update_first_map:
  "(\<And>x. p (g x) = q x) \<Longrightarrow> (\<And>x. h (g x) = g (k x)) \<Longrightarrow> update_first p h (map g xs) = map g (update_first q k xs)"
  by (induction xs) auto

lemma revoke_index_ident [dev_simps]: "revoke_index x (map ident ds) = revoke_index x ds"
  unfolding revoke_index_def by (simp add: IndexFunc_map ident_fields comp_def cong: option.case_cong)

lemma ident_update [dev_simps]: "i < length ds \<Longrightarrow> map ident (ds[i := (ds ! i)\<lparr>dr_LastUsedAt := t\<rparr>]) = map ident ds"
  by (simp add: map_update ident_fields list_update_same_conv)

text \<open>Inside \<open>withLocked\<close> a process sees the identities that are in the file.\<close>

lemma withLocked_cases:
  obtains (refused) e s1 where "withLocked io fn (f, s) = (Inl e, f, s1)"
      "io_lock io \<Longrightarrow> io_read io \<Longrightarrow> f = Corrupt"
    | (entered) s1 where "withLocked io fn (f, s) = fn (f, s1)" "map ident (st_devices s1) = dev_list f"
      "st_lastFlush s1 = st_lastFlush s" "io_lock io" "io_read io" "f \<noteq> Corrupt"
proof (cases "io_lock io \<and> io_read io \<and> f \<noteq> Corrupt")
  case True
  then have "withLocked io fn (f, s) =
      fn (f, mergeLastUsedLocked (snapshotLastUsedLocked s) (s\<lparr>st_devices := dev_records f\<rparr>))"
    by (cases f) (auto simp: withLocked_def reloadForcedLocked_def readFile_def dev_records_def)
  then show thesis
    by (rule entered) (use True in \<open>simp_all add: mergeLastUsedLocked_def dev_list_def o_def ident_fields\<close>)
next
  case False
  then have "\<exists>e s1. withLocked io fn (f, s) = (Inl e, f, s1)"
    by (cases f) (auto simp: withLocked_def reloadForcedLocked_def readFile_def Let_def)
  then obtain e s1 where "withLocked io fn (f, s) = (Inl e, f, s1)" by blast
  then show thesis by (rule refused) (use False in auto)
qed

lemma persist_list: "dev_list (fst (snd (persistLocked io ds (f, s)))) \<in> {dev_list f, map ident ds}"
  by (simp add: persistLocked_def dev_list_def dev_records_def after_write_def)

lemma persistLocked_cases:
  obtains (ok) s1 where "persistLocked io ds (f, s) = (Inr (), Present ds, s1)" "ok_write (io_write io)"
  | (failed) f1 where "persistLocked io ds (f, s) = (Inl ErrWrite, f1, s)" "dev_list f1 \<in> {dev_list f, map ident ds}"
      "\<not> ok_write (io_write io)"
  by (cases "ok_write (io_write io)")
     (auto simp: persistLocked_def after_write_def dev_list_def dev_records_def)

lemma withLocked_list:
  assumes "P (dev_list f)"
    and "\<And>s1. map ident (st_devices s1) = dev_list f \<Longrightarrow> P (dev_list (fst (snd (fn (f, s1)))))"
  shows "P (dev_list (fst (snd (withLocked io fn (f, s)))))"
  by (cases rule: withLocked_cases [of io fn f s]) (use assms in auto)

lemma persist_then:
  "dev_list (fst (snd (case persistLocked io ds (f, s) of (Inl e, fs1) \<Rightarrow> (Inl e, fs1) | (Inr u, fs1) \<Rightarrow> (Inr x, fs1))))
    \<in> {dev_list f, map ident ds}"
  by (cases rule: persistLocked_cases [of io ds f s]) (auto simp: dev_list_def dev_records_def)

lemma filter_ident: "(\<And>r. p (ident r) = q r) \<Longrightarrow> filter p (map ident ds) = map ident (filter q ds)"
  by (simp add: filter_map comp_def)

lemma remove_where_list:
  assumes "\<And>ds. map ident ds = dev_list f \<Longrightarrow> P (map ident (filter (\<lambda>r. \<not> q r) ds))" "P (dev_list f)"
  shows "P (dev_list (fst (snd (remove_where io q (f, s)))))"
  unfolding remove_where_def
proof (rule withLocked_list [where P = P], goal_cases)
  case (2 s1)
  let ?k = "filter (\<lambda>r. \<not> q r) (st_devices s1)"
  show ?case
    using persist_then [of "map device_of (filter q (st_devices s1))" io ?k f "s1\<lparr>st_devices := ?k\<rparr>"]
      assms(1) [OF 2] assms(2)
    by (auto simp: Let_def set_devices_def)
qed (rule assms(2))

lemma run_Create: "dev_spec sha clean isUUID (io, OpCreate gen newid name fp spki) (dev_list f)
    (dev_list (fst (run_op sha clean isUUID (io, OpCreate gen newid name fp spki) (f, s))))"
proof (cases gen)
  case (Inr token)
  let ?rec = "new_record sha io newid token (sanitizeDeviceName clean isUUID name) fp spki"
  have i: "ident ?rec = ?rec" by (simp add: ident_def new_record_def)
  show ?thesis unfolding run_op.simps CreateWithClientKey_def Inr sum.case
  proof (rule withLocked_list [where P = "\<lambda>b. dev_spec sha clean isUUID (io, OpCreate (Inr token) newid name fp spki) (dev_list f) b"], goal_cases)
    case (2 s1)
    with persist_then [of "(device_of ?rec, token)" io "st_devices s1 @ [?rec]" f s1] i
    show ?case by (auto simp: dev_spec_def Let_def)
  qed (simp add: dev_spec_def)
qed (simp add: CreateWithClientKey_def dev_spec_def)

lemma run_Prune: "dev_spec sha clean isUUID (io, OpPrune t k) (dev_list f)
    (dev_list (fst (run_op sha clean isUUID (io, OpPrune t k) (f, s))))"
  unfolding run_op.simps Prune_def
proof (rule remove_where_list [where P = "\<lambda>b. dev_spec sha clean isUUID (io, OpPrune t k) (dev_list f) b"], goal_cases)
  case (1 ds)
  have "subseq (map ident (filter (\<lambda>r. \<not> prunable t k r) ds)) (dev_list f)"
    unfolding 1 [symmetric] by (intro subseq_map subseq_filter_left)
  moreover have "k \<Longrightarrow> map ident (filter (\<lambda>r. \<not> prunable t k r) ds) = filter (\<lambda>r. dr_ClientKeyFP r \<noteq> []) (dev_list f)"
    unfolding 1 [symmetric] by (subst filter_ident) (auto simp: prunable_def ident_fields)
  ultimately show ?case by (cases k) (simp_all add: dev_spec_def)
qed (simp add: dev_spec_def)

lemma run_RevokeFP: "dev_spec sha clean isUUID (io, OpRevokeFP fp keep) (dev_list f)
    (dev_list (fst (run_op sha clean isUUID (io, OpRevokeFP fp keep) (f, s))))"
proof (cases "TrimSpace fp = []")
  case False
  let ?q = "\<lambda>r. \<not> (dr_ClientKeyFP r \<noteq> TrimSpace fp \<or> dr_ID r = keep)"
  have "dev_spec sha clean isUUID (io, OpRevokeFP fp keep) (dev_list f) (dev_list (fst (snd (remove_where io ?q (f, s)))))"
  proof (rule remove_where_list [where P = "\<lambda>b. dev_spec sha clean isUUID (io, OpRevokeFP fp keep) (dev_list f) b"], goal_cases)
    case (1 ds)
    have "filter (\<lambda>r. dr_ClientKeyFP r \<noteq> TrimSpace fp \<or> dr_ID r = keep) (dev_list f) = map ident (filter (\<lambda>r. \<not> ?q r) ds)"
      unfolding 1 [symmetric] by (subst filter_ident) (auto simp: ident_fields)
    with False show ?case by (simp add: dev_spec_def)
  qed (simp add: dev_spec_def)
  with False show ?thesis by (simp add: RevokeByClientKeyFP_def Let_def)
qed (simp add: RevokeByClientKeyFP_def dev_spec_def)

lemma run_Backfill: "dev_spec sha clean isUUID (io, OpBackfill d spki) (dev_list f)
    (dev_list (fst (run_op sha clean isUUID (io, OpBackfill d spki) (f, s))))"
proof (cases "spki = []")
  case False
  show ?thesis unfolding run_op.simps BackfillClientKeySPKI_def if_not_P [OF False]
  proof (rule withLocked_list [where P = "\<lambda>b. dev_spec sha clean isUUID (io, OpBackfill d spki) (dev_list f) b"], goal_cases)
    case (2 s1)
    let ?u = "update_first (\<lambda>r. dr_ID r = d) (\<lambda>r. r\<lparr>dr_ClientKeySPKI := spki\<rparr>)"
    have u: "?u (dev_list f) = map ident (?u (st_devices s1))"
      unfolding 2 [symmetric] by (rule update_first_map) (simp_all add: ident_fields)
    have fd: "find (\<lambda>r. dr_ID r = d) (dev_list f) = map_option ident (find (\<lambda>r. dr_ID r = d) (st_devices s1))"
      unfolding 2 [symmetric] by (simp add: find_map comp_def ident_fields)
    show ?case
      using persist_list [of io "?u (st_devices s1)" f "s1\<lparr>st_devices := ?u (st_devices s1)\<rparr>"] u fd
      by (auto simp: dev_spec_def Let_def set_devices_def ident_fields split: option.splits)
  qed (simp add: dev_spec_def)
qed (simp add: BackfillClientKeySPKI_def dev_spec_def)

lemma run_Revoke: "dev_spec sha clean isUUID (io, OpRevoke x) (dev_list f)
    (dev_list (fst (run_op sha clean isUUID (io, OpRevoke x) (f, s))))"
  unfolding run_op.simps Revoke_def
proof (rule withLocked_list [where P = "\<lambda>b. dev_spec sha clean isUUID (io, OpRevoke x) (dev_list f) b"], goal_cases)
  case (2 s1)
  have ri: "revoke_index x (dev_list f) = revoke_index x (st_devices s1)"
    and dn: "delete_nth i (dev_list f) = map ident (delete_nth i (st_devices s1))" for i
    unfolding 2 [symmetric] by (simp_all add: revoke_index_ident delete_nth_map)
  show ?case
  proof (cases "revoke_index x (st_devices s1)")
    case (Some i)
    let ?ds = "delete_nth i (st_devices s1)"
    show ?thesis
      using persist_then [of "(device_of (st_devices s1 ! i))\<lparr>dv_ClientKeyFP := [], dv_ClientKeySPKI := []\<rparr>" io ?ds f "s1\<lparr>st_devices := ?ds\<rparr>"]
        Some ri dn
      by (auto simp: dev_spec_def Let_def set_devices_def)
  qed (simp add: dev_spec_def)
qed (simp add: dev_spec_def)

lemma run_Validate: "dev_list (fst (snd (Validate sha io token (f, s)))) = dev_list f"
proof (cases "token = []")
  case False
  show ?thesis unfolding Validate_def if_not_P [OF False]
  proof (rule withLocked_list [where P = "\<lambda>b. b = dev_list f"], goal_cases)
    case (2 s1)
    show ?case
    proof (cases "IndexFunc (\<lambda>r. TokenHash r = sha token) (st_devices s1)")
      case (Some i)
      then have "i < length (st_devices s1)" by (blast dest: IndexFunc_Some)
      then have u: "map ident ((st_devices s1)[i := (st_devices s1 ! i)\<lparr>dr_LastUsedAt := Some (io_now io)\<rparr>]) = dev_list f"
        using 2 by (simp add: ident_update)
      show ?thesis
        using persist_then [of "(device_of (st_devices s1 ! i))\<lparr>dv_LastUsedAt := Some (io_now io)\<rparr>" io "(st_devices s1)[i := (st_devices s1 ! i)\<lparr>dr_LastUsedAt := Some (io_now io)\<rparr>]" f] u Some
        by (simp add: Let_def validate_locked_def)
    qed (simp add: validate_locked_def)
  qed simp
qed (simp add: Validate_def)

lemma run_quiet:
  "dev_list (fst (snd (List_devices io (f, s)))) = dev_list f"
  "dev_list (fst (snd (PublicKeyFor parsePKIX io d (f, s)))) = dev_list f"
  "dev_list (fst (snd (Flush_devices io (f, s)))) = dev_list f"
proof -
  show "dev_list (fst (snd (List_devices io (f, s)))) = dev_list f"
    unfolding List_devices_def by (rule withLocked_list) simp_all
  let ?g = "\<lambda>(f, s). case find (\<lambda>r. dr_ID r = d) (st_devices s) of
      None \<Rightarrow> (Inl ErrNotFound, f, s) | Some r \<Rightarrow> (Inr (dr_ClientKeySPKI r), f, s)"
  have "dev_list (fst (snd (withLocked io ?g (f, s)))) = dev_list f"
    by (rule withLocked_list) (auto split: option.split)
  then show "dev_list (fst (snd (PublicKeyFor parsePKIX io d (f, s)))) = dev_list f"
    unfolding PublicKeyFor_def by (auto split: prod.split sum.split)
  show "dev_list (fst (snd (Flush_devices io (f, s)))) = dev_list f"
  proof (cases "st_lastUsedDirty s")
    case True
    have "dev_list (fst (snd (withLocked io (\<lambda>(f, s).
       if \<not> st_lastUsedDirty s then (Inr (), f, s) else persistLocked io (st_devices s) (f, s)) (f, s)))) = dev_list f"
    proof (rule withLocked_list [where P = "\<lambda>b. b = dev_list f"], goal_cases)
      case (2 s1)
      then show ?case using persist_list [of io "st_devices s1" f s1] by auto
    qed simp
    with True show ?thesis by (simp add: Flush_devices_def)
  qed (simp add: Flush_devices_def)
qed

lemma run_Open: "dev_list (fst (run_op sha clean isUUID (io, OpOpen made) (f, s))) = dev_list f"
proof -
  have "dev_list (snd (OpenStore made io f)) = dev_list f"
    by (cases f; cases "readFile io f"; cases rule: persistLocked_cases [of io "[]" f "\<lparr>st_devices = [], st_lastFlush = io_now io, st_lastUsedDirty = False, st_saveCount = 0\<rparr>"])
       (auto simp: OpenStore_def Let_def dev_list_def dev_records_def)
  then show ?thesis by (auto split: prod.split sum.split)
qed

interpretation devs: shared_file "run_op sha clean isUUID" dev_list "dev_spec sha clean isUUID"
  for sha clean isUUID
proof unfold_locales
  fix x :: "dev_io \<times> dev_op" and f s
  obtain io op' where x: "x = (io, op')" by fastforce
  show "dev_spec sha clean isUUID x (dev_list f) (dev_list (fst (run_op sha clean isUUID x (f, s))))"
    unfolding x
  proof (cases op')
    case (OpOpen made)
    then show "dev_spec sha clean isUUID (io, op') (dev_list f) (dev_list (fst (run_op sha clean isUUID (io, op') (f, s))))"
      using run_Open by (simp only: dev_spec_def) blast
  qed (simp_all only: run_Create run_Prune run_RevokeFP run_Backfill run_Revoke, simp_all add: dev_spec_def run_Validate run_quiet)
qed

subsection \<open>Validating\<close>

lemma find_IndexFunc: "IndexFunc p xs = Some i \<Longrightarrow> find p xs = Some (xs ! i)"
  by (induction xs arbitrary: i) (auto split: if_splits)

lemma find_hash_ident:
  "map ident ds = a \<Longrightarrow> find (\<lambda>r. TokenHash r = h) a = map_option ident (find (\<lambda>r. TokenHash r = h) ds)"
  by (auto simp: find_map comp_def ident_fields)

lemma device_of_used: "(device_of (ident r))\<lparr>dv_LastUsedAt := t\<rparr> = (device_of r)\<lparr>dv_LastUsedAt := t\<rparr>"
  by (simp add: device_of_def ident_def)

text \<open>Validate's body once it holds the lock and has read the file.\<close>

lemma Validate_entered:
  assumes "io_lock io" "io_read io" "f \<noteq> Corrupt" "token \<noteq> []"
  shows "case find (\<lambda>r. TokenHash r = sha token) (dev_list f) of
      None \<Rightarrow> fst (Validate sha io token (f, s)) = Inl ErrInvalidToken
    | Some r \<Rightarrow> fst (Validate sha io token (f, s)) = Inr ((device_of r)\<lparr>dv_LastUsedAt := Some (io_now io)\<rparr>) \<or>
        fst (Validate sha io token (f, s)) = Inl ErrWrite \<and> \<not> ok_write (io_write io)"
proof -
  let ?fn = "validate_locked sha io token"
  have v: "Validate sha io token (f, s) = withLocked io ?fn (f, s)" using assms(4) by (simp add: Validate_def)
  obtain s1 where w: "withLocked io ?fn (f, s) = ?fn (f, s1)" and s1: "map ident (st_devices s1) = dev_list f"
    using assms(1,2,3) by (cases rule: withLocked_cases [of io ?fn f s]) blast+
  note fd = find_hash_ident [OF s1, of "sha token"]
  show ?thesis
  proof (cases "IndexFunc (\<lambda>r. TokenHash r = sha token) (st_devices s1)")
    case None
    then have "find (\<lambda>r. TokenHash r = sha token) (st_devices s1) = None" by (simp add: IndexFunc_find)
    with fd None show ?thesis unfolding v w by (simp add: validate_locked_def)
  next
    case (Some i)
    let ?r = "st_devices s1 ! i"
    let ?ds = "(st_devices s1)[i := ?r\<lparr>dr_LastUsedAt := Some (io_now io)\<rparr>]"
    let ?s2 = "s1\<lparr>st_devices := ?ds, st_lastUsedDirty := True\<rparr>"
    have fr: "find (\<lambda>r. TokenHash r = sha token) (dev_list f) = Some (ident ?r)"
      using fd find_IndexFunc [OF Some] by simp
    show ?thesis unfolding v w fr option.case device_of_used
      by (cases rule: persistLocked_cases [of io ?ds f ?s2]) (simp_all add: validate_locked_def Some Let_def)
  qed
qed

lemma Validate_accepts:
  assumes "fst (Validate sha io token (f, s)) = Inr d"
  obtains r where "find (\<lambda>r. TokenHash r = sha token) (dev_list f) = Some r"
    "d = (device_of r)\<lparr>dv_LastUsedAt := Some (io_now io)\<rparr>" "token \<noteq> []"
proof -
  have t: "token \<noteq> []" using assms by (auto simp: Validate_def)
  have "io_lock io \<and> io_read io \<and> f \<noteq> Corrupt"
  proof (rule ccontr)
    assume "\<not> ?thesis"
    then have "\<exists>e. fst (withLocked io (validate_locked sha io token) (f, s)) = Inl e"
      by (cases rule: withLocked_cases [of io "validate_locked sha io token" f s]) auto
    with assms t show False by (auto simp: Validate_def)
  qed
  then show thesis using Validate_entered [of io f token sha s] t assms that by (auto split: option.splits)
qed

subsection \<open>Stability of the device list\<close>

fun issues :: "(string \<Rightarrow> string) \<Rightarrow> string \<Rightarrow> dev_io \<times> dev_op \<Rightarrow> bool" where
  "issues sha h (io, OpCreate (Inr token) newid name fp spki) \<longleftrightarrow> sha token = h"
| "issues sha h _ \<longleftrightarrow> False"

fun removes :: "dev_op \<Rightarrow> bool" where
  "removes (OpPrune t k) \<longleftrightarrow> True"
| "removes (OpRevokeFP fp keep) \<longleftrightarrow> True"
| "removes (OpRevoke x) \<longleftrightarrow> True"
| "removes _ \<longleftrightarrow> False"

lemma set_delete_nth: "set (delete_nth i xs) \<subseteq> set xs"
  by (induction i xs rule: delete_nth.induct) auto

lemma hashes_update_first:
  "TokenHash ` set (update_first p (\<lambda>r. r\<lparr>dr_ClientKeySPKI := k\<rparr>) a) = TokenHash ` set a"
  by (induction a) auto

lemma hash_stays_absent:
  assumes "dev_spec sha clean isUUID x a b" "h \<notin> TokenHash ` set a" "\<not> issues sha h x"
  shows "h \<notin> TokenHash ` set b"
proof (cases "b = a")
  case False
  with assms(1) have e: "dev_effect sha clean isUUID x a b" by (simp add: dev_spec_def)
  obtain io op' where x: "x = (io, op')" by fastforce
  show ?thesis
  proof (cases op')
    case (OpCreate gen newid name fp spki)
    with e x assms(2,3) show ?thesis by (auto simp: new_record_def)
  next
    case (OpPrune t k)
    with e x have "set b \<subseteq> set a" by (cases k) (auto dest: list_emb_set)
    with assms(2) show ?thesis by blast
  next
    case (OpRevokeFP fp keep)
    with e x assms(2) show ?thesis by auto
  next
    case (OpBackfill d spki)
    with e x assms(2) show ?thesis by (auto simp: hashes_update_first)
  next
    case (OpRevoke y)
    with e x have "set b \<subseteq> set a" using set_delete_nth by fastforce
    with assms(2) show ?thesis by blast
  qed (use e x in simp_all)
qed (use assms(2) in simp)

definition names_device :: "string \<Rightarrow> string \<Rightarrow> string \<Rightarrow> string \<Rightarrow> deviceRecord list \<Rightarrow> bool" where
  "names_device h i n fp a \<longleftrightarrow> (\<exists>r. find (\<lambda>r. TokenHash r = h) a = Some r \<and> dr_ID r = i \<and> dr_Name r = n \<and> dr_ClientKeyFP r = fp)"

lemma find_append: "find p (xs @ ys) = (case find p xs of Some x \<Rightarrow> Some x | None \<Rightarrow> find p ys)"
  by (induction xs) auto

lemma names_update_first:
  "names_device h i n fp a \<Longrightarrow> names_device h i n fp (update_first p (\<lambda>r. r\<lparr>dr_ClientKeySPKI := k\<rparr>) a)"
  by (induction a) (auto simp: names_device_def split: if_splits)

lemma name_stays:
  assumes "dev_spec sha clean isUUID x a b" "names_device h i n fp a" "\<not> removes (snd x)"
  shows "names_device h i n fp b"
proof (cases "b = a")
  case False
  with assms(1) have e: "dev_effect sha clean isUUID x a b" by (simp add: dev_spec_def)
  obtain io op' where x: "x = (io, op')" by fastforce
  show ?thesis
  proof (cases op')
    case (OpCreate gen newid name fp spki)
    with e x assms(2) show ?thesis by (auto simp: names_device_def find_append)
  next
    case (OpBackfill d spki)
    with e x assms(2) show ?thesis using names_update_first by auto
  qed (use e x assms(3) in simp_all)
qed (use assms(2) in simp)

text \<open>The records of the file have different ids and different token hashes: ids are random UUIDs
  and tokens 32 random bytes.\<close>

definition dev_ok :: "dev_file \<Rightarrow> bool" where
  "dev_ok f \<longleftrightarrow> distinct (map dr_ID (dev_list f)) \<and> distinct (map TokenHash (dev_list f))"

lemma delete_nth_hash:
  "i < length a \<Longrightarrow> distinct (map TokenHash a) \<Longrightarrow> TokenHash (a ! i) \<notin> TokenHash ` set (delete_nth i a)"
proof (induction i a rule: delete_nth.induct)
  case (3 n x xs)
  then have "TokenHash (xs ! n) \<in> TokenHash ` set xs" by simp
  with 3 show ?case by (auto simp: image_iff)
qed simp_all

lemma revoke_index_lt: "revoke_index x a = Some i \<Longrightarrow> i < length a"
  by (auto simp: revoke_index_def dest: IndexFunc_Some split: option.splits)

lemma Revoke_success:
  assumes "Revoke io x (f, s) = (Inr dev, f1, s1)"
  obtains i where "revoke_index x (dev_list f) = Some i" "dev_list f1 = delete_nth i (dev_list f)"
    "dv_ID dev = dr_ID (dev_list f ! i)"
proof -
  let ?fn = "\<lambda>(f, s). case revoke_index x (st_devices s) of
      None \<Rightarrow> (Inl ErrNotFound, f, s)
    | Some i \<Rightarrow>
        let r = st_devices s ! i; ds = delete_nth i (st_devices s)
        in (case persistLocked io ds (set_devices ds (f, s)) of
             (Inl e, fs1) \<Rightarrow> (Inl e, fs1)
           | (Inr _, fs1) \<Rightarrow> (Inr ((device_of r)\<lparr>dv_ClientKeyFP := [], dv_ClientKeySPKI := []\<rparr>), fs1))"
  have w: "withLocked io ?fn (f, s) = (Inr dev, f1, s1)" using assms by (simp add: Revoke_def)
  then obtain s2 where e: "?fn (f, s2) = (Inr dev, f1, s1)" and s2: "map ident (st_devices s2) = dev_list f"
    by (cases rule: withLocked_cases [of io ?fn f s]) auto
  from e obtain i where i: "revoke_index x (st_devices s2) = Some i" by (auto split: option.splits)
  let ?ds = "delete_nth i (st_devices s2)"
  have "i < length (st_devices s2)" using i by (rule revoke_index_lt)
  then have "dr_ID (dev_list f ! i) = dr_ID (st_devices s2 ! i)" unfolding s2 [symmetric] by (simp add: ident_fields)
  moreover have "dev_list f1 = map ident ?ds" "dv_ID dev = dr_ID (st_devices s2 ! i)"
    using e i by (cases rule: persistLocked_cases [of io ?ds f "s2\<lparr>st_devices := ?ds\<rparr>"];
      auto simp: Let_def set_devices_def device_of_def dev_list_def dev_records_def)+
  moreover have "revoke_index x (dev_list f) = Some i" "delete_nth i (dev_list f) = map ident ?ds"
    unfolding s2 [symmetric] using i by (simp_all add: revoke_index_ident delete_nth_map)
  ultimately show thesis using that by simp
qed

lemma Create_success:
  assumes "CreateWithClientKey sha clean isUUID io gen newid name fp spki (f, s) = (Inr (dev, token), f1, s1)"
  shows "gen = Inr token" "dev_list f1 = dev_list f @ [new_record sha io newid token (sanitizeDeviceName clean isUUID name) fp spki]"
    "dev = device_of (new_record sha io newid token (sanitizeDeviceName clean isUUID name) fp spki)"
proof -
  obtain token' where g: "gen = Inr token'" using assms by (auto simp: CreateWithClientKey_def split: sum.splits)
  let ?rec = "new_record sha io newid token' (sanitizeDeviceName clean isUUID name) fp spki"
  let ?fn = "\<lambda>(f, s). let rec = ?rec in case persistLocked io (st_devices s @ [rec]) (f, s) of
              (Inl e, fs1) \<Rightarrow> (Inl e, fs1)
            | (Inr _, fs1) \<Rightarrow> (Inr (device_of rec, token'), fs1)"
  have w: "withLocked io ?fn (f, s) = (Inr (dev, token), f1, s1)" using assms g by (simp add: CreateWithClientKey_def)
  then obtain s2 where e: "?fn (f, s2) = (Inr (dev, token), f1, s1)" and s2: "map ident (st_devices s2) = dev_list f"
    by (cases rule: withLocked_cases [of io ?fn f s]) auto
  have i: "ident ?rec = ?rec" by (simp add: ident_def new_record_def)
  have "token' = token \<and> dev_list f1 = dev_list f @ [?rec] \<and> dev = device_of ?rec"
    using e s2 i by (cases rule: persistLocked_cases [of io "st_devices s2 @ [?rec]" f s2])
      (auto simp: Let_def dev_list_def dev_records_def)
  then show "gen = Inr token" "dev_list f1 = dev_list f @ [new_record sha io newid token (sanitizeDeviceName clean isUUID name) fp spki]"
    "dev = device_of (new_record sha io newid token (sanitizeDeviceName clean isUUID name) fp spki)"
    using g by auto
qed

subsection \<open>Names\<close>

lemma name_cut_le: "name_cut name n \<le> n"
  by (induction name n rule: name_cut.induct) auto

lemma sanitize_bounds:
  assumes "\<And>n. \<not> isUUID (''device'' @ n)"
  shows "sanitizeDeviceName clean isUUID raw \<noteq> []" "length (sanitizeDeviceName clean isUUID raw) \<le> deviceNameMaxLen + 7"
    "\<not> isUUID (sanitizeDeviceName clean isUUID raw)"
proof -
  let ?n = "join_space (Fields (clean raw))"
  define n1 where "n1 = (if deviceNameMaxLen < length ?n then TrimSpace (take (name_cut ?n deviceNameMaxLen) ?n) else ?n)"
  have s: "sanitizeDeviceName clean isUUID raw =
      (if ?n = [] \<or> n1 = [] then ''device'' else if isUUID n1 then ''device'' @ CHR ''-'' # n1 else n1)"
    unfolding sanitizeDeviceName_def Let_def n1_def by simp
  have "length (TrimSpace (take (name_cut ?n deviceNameMaxLen) ?n)) \<le> deviceNameMaxLen"
    by (rule le_trans [OF length_TrimSpace]) (simp add: min_le_iff_disj name_cut_le)
  then have len: "length n1 \<le> deviceNameMaxLen" by (simp add: n1_def)
  have d: "\<not> isUUID ''device''" using assms [of "[]"] by simp
  show "sanitizeDeviceName clean isUUID raw \<noteq> []" unfolding s by simp
  show "\<not> isUUID (sanitizeDeviceName clean isUUID raw)"
    unfolding s using d assms by (simp del: append.simps)
  show "length (sanitizeDeviceName clean isUUID raw) \<le> deviceNameMaxLen + 7"
    unfolding s using len by (simp add: deviceNameMaxLen_def)
qed

subsection \<open>Properties\<close>


text \<open>C1: A revoked device stays out. Once Revoke has reported that it removed the device a token
  belongs to, every later Validate of that token is refused, after any operations of any processes
  and in a process with any cache, unless a new device was issued a token of the same hash.\<close>

theorem revoked_token_dead:
  assumes ok: "dev_ok f" and rev: "Revoke io x (f, s) = (Inr dev, f1, s1)"
    and val: "fst (Validate sha io0 token (f, s0)) = Inr d0" "dv_ID d0 = dv_ID dev"
    and fresh: "\<forall>st \<in> set steps. \<not> issues sha (sha token) (snd st)"
  shows "\<exists>e. fst (Validate sha io2 token (fst (exec (run_op sha clean isUUID) steps (f1, ps)), s2)) = Inl e"
proof -
  obtain i where i: "revoke_index x (dev_list f) = Some i" "dev_list f1 = delete_nth i (dev_list f)"
    "dv_ID dev = dr_ID (dev_list f ! i)" by (rule Revoke_success [OF rev])
  obtain r where r: "find (\<lambda>r. TokenHash r = sha token) (dev_list f) = Some r"
    "d0 = (device_of r)\<lparr>dv_LastUsedAt := Some (io_now io0)\<rparr>" by (rule Validate_accepts [OF val(1)])
  have lt: "i < length (dev_list f)" by (rule revoke_index_lt [OF i(1)])
  obtain j where j: "j < length (dev_list f)" "dev_list f ! j = r" "TokenHash r = sha token"
    using r(1) by (auto simp: find_Some_iff)
  have "dr_ID (dev_list f ! j) = dr_ID (dev_list f ! i)" using j(2) r(2) val(2) i(3) by (simp add: device_of_def)
  then have "j = i" using ok lt j(1) by (simp add: dev_ok_def distinct_conv_nth) metis
  then have "sha token \<notin> TokenHash ` set (dev_list f1)"
    using delete_nth_hash [OF lt] ok j(2,3) i(2) by (auto simp: dev_ok_def)
  then have "sha token \<notin> TokenHash ` set (dev_list (fst (exec (run_op sha clean isUUID) steps (f1, ps))))"
  proof (rule devs.exec_stable [where P = "\<lambda>a. sha token \<notin> TokenHash ` set a"])
    fix x a b assume "x \<in> snd ` set steps" "dev_spec sha clean isUUID x a b" "sha token \<notin> TokenHash ` set a"
    then show "sha token \<notin> TokenHash ` set b" using hash_stays_absent fresh by (metis imageE)
  qed
  then have "\<nexists>r. find (\<lambda>r. TokenHash r = sha token) (dev_list (fst (exec (run_op sha clean isUUID) steps (f1, ps)))) = Some r"
    using nth_mem by (fastforce simp: find_Some_iff image_iff)
  then have "\<nexists>d. fst (Validate sha io2 token (fst (exec (run_op sha clean isUUID) steps (f1, ps)), s2)) = Inr d"
    using Validate_accepts by blast
  then show ?thesis by (metis sum.exhaust)
qed

definition ex_io :: "write_result \<Rightarrow> gotime \<Rightarrow> dev_io" where
  "ex_io r t = \<lparr>io_lock = True, io_read = True, io_write = r, io_now = t, io_since = t, io_flushed = t\<rparr>"

definition ex_cache :: dev_store where
  "ex_cache = \<lparr>st_devices = [], st_lastFlush = 0, st_lastUsedDirty = False, st_saveCount = 0\<rparr>"

definition ex_device :: "string \<Rightarrow> string \<Rightarrow> deviceRecord" where
  "ex_device i h = \<lparr>dr_ID = i, dr_Name = ''phone'', TokenHash = h, dr_CreatedAt = 0, dr_LastUsedAt = None,
    dr_ClientKeyFP = [], dr_ClientKeySPKI = []\<rparr>"

lemmas ex_dev_simps = ex_io_def ex_cache_def ex_device_def withLocked_def reloadForcedLocked_def readFile_def
  mergeLastUsedLocked_def snapshotLastUsedLocked_def merge_used_def newer_def persistLocked_def

text \<open>A stale cache that still holds the device and wants to write it back does not help it.\<close>

theorem revoked_token_dead_witness:
  "\<exists>e. fst (Validate id (ex_io Written 30) ''t1''
     (fst (exec (run_op id id (\<lambda>_. False)) [(1, ex_io Written 20, OpFlush)]
       (Present [ex_device ''b'' ''t2''],
        (\<lambda>_. ex_cache\<lparr>st_devices := [(ex_device ''a'' ''t1'')\<lparr>dr_LastUsedAt := Some 5\<rparr>], st_lastUsedDirty := True\<rparr>))), ex_cache)) = Inl e"
proof -
  let ?f = "Present [ex_device ''a'' ''t1'', ex_device ''b'' ''t2'']"
  have ok: "dev_ok ?f" by (simp add: dev_ok_def dev_list_def dev_records_def ident_def ex_device_def)
  have rev: "\<exists>d s. Revoke (ex_io Written 10) ''a'' (?f, ex_cache) = (Inr d, Present [ex_device ''b'' ''t2''], s) \<and> dv_ID d = ''a''"
    by (simp add: Revoke_def ex_dev_simps revoke_index_def set_devices_def device_of_def Let_def)
  have val: "\<exists>d. fst (Validate id (ex_io Written 4) ''t1'' (?f, ex_cache)) = Inr d \<and> dv_ID d = ''a''"
    by (simp add: Validate_def validate_locked_def ex_dev_simps device_of_def lastUsedFlushInterval_def)
  obtain d s where rv: "Revoke (ex_io Written 10) ''a'' (?f, ex_cache) = (Inr d, Present [ex_device ''b'' ''t2''], s)" "dv_ID d = ''a''"
    using rev by blast
  obtain d0 where vl: "fst (Validate id (ex_io Written 4) ''t1'' (?f, ex_cache)) = Inr d0" "dv_ID d0 = dv_ID d"
    using val rv(2) by auto
  have fresh: "\<forall>st \<in> set [(1 :: nat, ex_io Written 20, OpFlush)]. \<not> issues id (id ''t1'') (snd st)" by simp
  show ?thesis by (rule revoked_token_dead [OF ok rv(1) vl fresh])
qed

text \<open>A token works from the moment it is handed out. Once Create has reported success, the token
  it returned validates as the device it returned, in every process whatever its cache, after any
  operations of any processes other than those that remove devices.\<close>

theorem create_validate_roundtrip:
  assumes made: "CreateWithClientKey sha clean isUUID io gen newid name fp spki (f, s) = (Inr (dev, token), f1, s1)"
    and fresh: "sha token \<notin> TokenHash ` set (dev_list f)" "token \<noteq> []"
    and kept: "\<forall>st \<in> set steps. \<not> removes (snd (snd st))"
    and io: "io_lock io2" "io_read io2" "ok_write (io_write io2)"
    and st2: "fst (exec (run_op sha clean isUUID) steps (f1, ps)) = f2" "f2 \<noteq> Corrupt"
  shows "\<exists>d. fst (Validate sha io2 token (f2, s2)) = Inr d \<and>
    dv_ID d = dv_ID dev \<and> dv_Name d = dv_Name dev \<and> dv_ClientKeyFP d = fp"
proof -
  let ?rec = "new_record sha io newid token (sanitizeDeviceName clean isUUID name) fp spki"
  note c = Create_success [OF made]
  have "find (\<lambda>r. TokenHash r = sha token) (dev_list f) = None" using fresh(1) by (auto simp: find_None_iff image_iff)
  then have "names_device (sha token) (dv_ID dev) (dv_Name dev) fp (dev_list f1)"
    unfolding c(2,3) by (simp add: names_device_def find_append new_record_def device_of_def)
  then have "names_device (sha token) (dv_ID dev) (dv_Name dev) fp (dev_list (fst (exec (run_op sha clean isUUID) steps (f1, ps))))"
  proof (rule devs.exec_stable [where P = "names_device (sha token) (dv_ID dev) (dv_Name dev) fp"])
    fix x a b assume "x \<in> snd ` set steps" "dev_spec sha clean isUUID x a b"
      "names_device (sha token) (dv_ID dev) (dv_Name dev) fp a"
    then show "names_device (sha token) (dv_ID dev) (dv_Name dev) fp b" using name_stays kept by (metis imageE)
  qed
  then obtain r where r: "find (\<lambda>r. TokenHash r = sha token) (dev_list f2) = Some r" "dr_ID r = dv_ID dev"
    "dr_Name r = dv_Name dev" "dr_ClientKeyFP r = fp" unfolding st2(1) names_device_def by blast
  from Validate_entered [OF io(1,2) st2(2) fresh(2), of sha s2] io(3) r
  show ?thesis by (simp add: device_of_def)
qed

theorem create_validate_roundtrip_witness:
  "\<exists>d f1 s1. CreateWithClientKey id id (\<lambda>_. False) (ex_io Written 5) (Inr ''t'') ''a'' ''phone'' ''k'' [] (Missing, ex_cache) =
      (Inr (d, ''t''), f1, s1) \<and>
    (\<exists>e. fst (Validate id (ex_io Written 6) ''t'' (f1, ex_cache)) = Inr e \<and> dv_ID e = dv_ID d)"
proof -
  let ?c = "CreateWithClientKey id id (\<lambda>_. False) (ex_io Written 5) (Inr ''t'') ''a'' ''phone'' ''k'' [] (Missing, ex_cache)"
  obtain d f1 s1 where c: "?c = (Inr (d, ''t''), f1, s1)" and p: "f1 \<noteq> Corrupt"
    by (auto simp: CreateWithClientKey_def ex_dev_simps Let_def)
  from create_validate_roundtrip [OF c, of "[]" "ex_io Written 6" "\<lambda>_. ex_cache" f1 ex_cache] c p
  show ?thesis by (simp add: dev_list_def dev_records_def ex_io_def) blast
qed

end
