(* ===== verification/Receipts.thy ===== *)
theory Receipts
  imports Jws Devices
begin

text \<open>
  Signed receipts: the statements of \<open>internal/receipt/statement.go\<close>, the append-only chained
  store of \<open>internal/receipt/store.go\<close>, and the signing round trip of
  \<open>internal/session/manager.go\<close> (\<open>signReceipt\<close>, \<open>ReceiptEntriesFor\<close>).

  A device's file is its bytes. SHA-256 and the curve are parameters, as is JSON: \<open>json_ok\<close>
  says what is used of it, that reading back what was written keeps the predicate type and the chain
  link (both are ASCII), that two texts with the same JSON value decode to the same statement, and
  that the type read alone is the type of the statement. Building a statement does not fail.
\<close>

subsection \<open>Statements\<close>

definition StatementType :: string where "StatementType = ''https://mcremote.dev/attestations/receipt/v1''"
definition PredicateTypePermissionDecision :: string where
  "PredicateTypePermissionDecision = ''https://mcremote.dev/attestations/permission-decision/v1''"
definition PredicateTypeReceiptUnavailable :: string where
  "PredicateTypeReceiptUnavailable = ''https://mcremote.dev/attestations/receipt-unavailable/v1''"
definition PredicateTypeSessionHandoffRelease :: string where
  "PredicateTypeSessionHandoffRelease = ''https://mcremote.dev/attestations/session-handoff-release/v1''"
definition PredicateTypeSessionHandoffClaim :: string where
  "PredicateTypeSessionHandoffClaim = ''https://mcremote.dev/attestations/session-handoff-claim/v1''"

text \<open>\<open>Subject\<close> holds the names with their \<open>sha256\<close> digests; the chain link is its two fields.\<close>

record Statement =
  stm_Type :: string
  Subject :: "(string \<times> string) list"
  PredicateType :: string
  Predicate :: string
  Scope :: string
  PrevSHA256 :: "string option"

datatype predicate =
    PermissionDecisionPredicate string string gotime string string
  | UnavailablePredicate string string string
  | HandoffReleasePredicate string string string gotime
  | HandoffClaimPredicate string string string gotime

record codec =
  cd_predicate :: "predicate \<Rightarrow> string"
  cd_marshal :: "Statement \<Rightarrow> string"
  cd_unmarshal :: "string \<Rightarrow> Statement option"
  cd_peek :: "string \<Rightarrow> string option"
  cd_equal :: "string \<Rightarrow> string \<Rightarrow> bool"

definition json_ok :: "codec \<Rightarrow> bool" where
  "json_ok cd \<longleftrightarrow>
    (\<forall>s. is_ascii (PredicateType s) \<and> (\<forall>p. PrevSHA256 s = Some p \<longrightarrow> is_ascii p) \<longrightarrow>
      (\<exists>s'. cd_unmarshal cd (cd_marshal cd s) = Some s' \<and> PredicateType s' = PredicateType s \<and> PrevSHA256 s' = PrevSHA256 s)) \<and>
    (\<forall>a b. cd_equal cd a b \<longrightarrow> cd_unmarshal cd a = cd_unmarshal cd b) \<and>
    (\<forall>p s. cd_unmarshal cd p = Some s \<longrightarrow> cd_peek cd p = Some (PredicateType s))"

definition hexhash :: "(string \<Rightarrow> string) \<Rightarrow> string \<Rightarrow> string" where
  "hexhash sha s = EncodeToString (map byte_of (sha s))"

definition nul :: char where "nul = char_of (0 :: nat)"

definition subjectDigest :: "(string \<Rightarrow> string) \<Rightarrow> string \<Rightarrow> string \<Rightarrow> string" where
  "subjectDigest sha toolName detail = hexhash sha (toolName @ nul # detail)"

definition handoffSubjectName :: "string \<Rightarrow> string \<Rightarrow> string" where
  "handoffSubjectName sessionID nonce = ''session:'' @ sessionID @ ''/handoff:'' @ nonce"

definition handoffDigest :: "(string \<Rightarrow> string) \<Rightarrow> string \<Rightarrow> string \<Rightarrow> string \<Rightarrow> string" where
  "handoffDigest sha fromDeviceID toDeviceID sessionID = hexhash sha (fromDeviceID @ nul # toDeviceID @ nul # sessionID)"

definition BuildPermissionDecisionStatement ::
  "(string \<Rightarrow> string) \<Rightarrow> codec \<Rightarrow> string \<Rightarrow> string \<Rightarrow> string \<Rightarrow> string \<Rightarrow> string \<Rightarrow> string \<Rightarrow> gotime \<Rightarrow> string \<Rightarrow> string option \<Rightarrow> Statement" where
  "BuildPermissionDecisionStatement sha cd sessionID permissionID deviceID optionID toolName detail decidedAt chainScope prev =
    \<lparr>stm_Type = StatementType,
     Subject = [(''session:'' @ sessionID @ ''/permission:'' @ permissionID, subjectDigest sha toolName detail)],
     PredicateType = PredicateTypePermissionDecision,
     Predicate = cd_predicate cd (PermissionDecisionPredicate deviceID optionID decidedAt toolName detail),
     Scope = chainScope, PrevSHA256 = prev\<rparr>"

definition BuildReceiptUnavailableStatement ::
  "(string \<Rightarrow> string) \<Rightarrow> codec \<Rightarrow> string \<Rightarrow> string \<Rightarrow> string \<Rightarrow> string \<Rightarrow> string option \<Rightarrow> Statement" where
  "BuildReceiptUnavailableStatement sha cd permissionID deviceID reason chainScope prev =
    \<lparr>stm_Type = StatementType,
     Subject = [(''permission:'' @ permissionID, hexhash sha (permissionID @ nul # deviceID @ nul # reason))],
     PredicateType = PredicateTypeReceiptUnavailable,
     Predicate = cd_predicate cd (UnavailablePredicate reason permissionID deviceID),
     Scope = chainScope, PrevSHA256 = prev\<rparr>"

definition BuildHandoffReleaseStatement ::
  "(string \<Rightarrow> string) \<Rightarrow> codec \<Rightarrow> string \<Rightarrow> string \<Rightarrow> string \<Rightarrow> string \<Rightarrow> gotime \<Rightarrow> string \<Rightarrow> string option \<Rightarrow> Statement" where
  "BuildHandoffReleaseStatement sha cd sessionID fromDeviceID toDeviceID nonce releasedAt chainScope prev =
    \<lparr>stm_Type = StatementType,
     Subject = [(handoffSubjectName sessionID nonce, handoffDigest sha fromDeviceID toDeviceID sessionID)],
     PredicateType = PredicateTypeSessionHandoffRelease,
     Predicate = cd_predicate cd (HandoffReleasePredicate sessionID fromDeviceID toDeviceID releasedAt),
     Scope = chainScope, PrevSHA256 = prev\<rparr>"

definition BuildHandoffClaimStatement ::
  "(string \<Rightarrow> string) \<Rightarrow> codec \<Rightarrow> string \<Rightarrow> string \<Rightarrow> string \<Rightarrow> string \<Rightarrow> gotime \<Rightarrow> string \<Rightarrow> string option \<Rightarrow> Statement" where
  "BuildHandoffClaimStatement sha cd sessionID claimedByDeviceID fromDeviceID nonce claimedAt chainScope prev =
    \<lparr>stm_Type = StatementType,
     Subject = [(handoffSubjectName sessionID nonce, handoffDigest sha fromDeviceID claimedByDeviceID sessionID)],
     PredicateType = PredicateTypeSessionHandoffClaim,
     Predicate = cd_predicate cd (HandoffClaimPredicate sessionID claimedByDeviceID fromDeviceID claimedAt),
     Scope = chainScope, PrevSHA256 = prev\<rparr>"

subsection \<open>The store\<close>

definition newline :: char where "newline = char_of (10 :: nat)"
definition carriage_return :: char where "carriage_return = char_of (13 :: nat)"
definition seekChunkSize :: nat where "seekChunkSize = 4096"
definition maxScanToken :: nat where "maxScanToken = 2 ^ 20"

record receipt_store =
  rs_file :: "string \<rightharpoonup> string"
  rs_spki :: "string \<rightharpoonup> string"
  rs_lastHash :: "string \<rightharpoonup> string"

datatype rs_error = ErrEmptySPKI | ErrStoreIO | ErrNoArchivedKey | ErrArchivedKey | ErrTooLong

definition trim_newline :: "string \<Rightarrow> string" where
  "trim_newline s = (if s \<noteq> [] \<and> last s = newline then butlast s else s)"

function read_back :: "string \<Rightarrow> nat \<Rightarrow> string \<Rightarrow> string option" where
  "read_back c pos tail =
    (if pos = 0 then None
     else let readSize = min seekChunkSize pos;
              pos1 = pos - readSize;
              tail1 = take readSize (drop pos1 c) @ tail;
              trimmed = trim_newline tail1
          in case LastIndexByte newline trimmed of
               Some i \<Rightarrow> Some (drop (Suc i) trimmed)
             | None \<Rightarrow> if pos1 = 0 then (if trimmed = [] then None else Some trimmed) else read_back c pos1 tail1)"
  by pat_completeness auto
termination
  by (relation "measure (\<lambda>(c, pos, tail). pos)") (auto simp: seekChunkSize_def)

declare read_back.simps [simp del]

definition readLastLine :: "string \<Rightarrow> string option" where
  "readLastLine c = read_back c (length c) []"

text \<open>\<open>readable\<close> says whether the file, if it exists, can be opened and read.\<close>

definition lastHashLocked :: "(string \<Rightarrow> string) \<Rightarrow> bool \<Rightarrow> string \<Rightarrow> receipt_store \<Rightarrow> (rs_error + string option) \<times> receipt_store" where
  "lastHashLocked sha readable d st =
    (case rs_lastHash st d of
       Some h \<Rightarrow> (Inr (Some h), st)
     | None \<Rightarrow>
         (case rs_file st d of
            None \<Rightarrow> (Inr None, st)
          | Some c \<Rightarrow>
              if \<not> readable then (Inl ErrStoreIO, st)
              else (case readLastLine c of
                      None \<Rightarrow> (Inr None, st)
                    | Some line \<Rightarrow> (Inr (Some (hexhash sha line)), st\<lparr>rs_lastHash := (rs_lastHash st)(d \<mapsto> hexhash sha line)\<rparr>))))"

text \<open>How opening, writing and syncing went; a failed write can have left its first bytes.\<close>

datatype append_io = OpenFails | ShortWrite nat | SyncFails | Appended

definition extend_file :: "string \<Rightarrow> string \<Rightarrow> receipt_store \<Rightarrow> receipt_store" where
  "extend_file d bytes st = st\<lparr>rs_file := (rs_file st)(d \<mapsto> (case rs_file st d of None \<Rightarrow> [] | Some c \<Rightarrow> c) @ bytes)\<rparr>"

definition Append_receipt ::
  "(string \<Rightarrow> string) \<Rightarrow> bool \<Rightarrow> append_io \<Rightarrow> string \<Rightarrow> string \<Rightarrow> receipt_store \<Rightarrow> (rs_error + unit) \<times> receipt_store" where
  "Append_receipt sha readable res d jws st =
    (case lastHashLocked sha readable d st of
       (Inl e, st1) \<Rightarrow> (Inl e, st1)
     | (Inr _, st1) \<Rightarrow>
         (case res of
            OpenFails \<Rightarrow> (Inl ErrStoreIO, st1)
          | ShortWrite n \<Rightarrow> (Inl ErrStoreIO, extend_file d (take n (jws @ [newline])) st1)
          | SyncFails \<Rightarrow> (Inl ErrStoreIO, extend_file d (jws @ [newline]) st1)
          | Appended \<Rightarrow>
              (let st2 = extend_file d (jws @ [newline]) st1
               in (Inr (), st2\<lparr>rs_lastHash := (rs_lastHash st2)(d \<mapsto> hexhash sha jws)\<rparr>))))"

definition ArchiveKey :: "bool \<Rightarrow> bool \<Rightarrow> string \<Rightarrow> string \<Rightarrow> receipt_store \<Rightarrow> (rs_error + unit) \<times> receipt_store" where
  "ArchiveKey stat_ok written d spki st =
    (if spki = [] then (Inl ErrEmptySPKI, st)
     else if \<not> stat_ok then (Inl ErrStoreIO, st)
     else if rs_spki st d \<noteq> None then (Inr (), st)
     else if \<not> written then (Inl ErrStoreIO, st)
     else (Inr (), st\<lparr>rs_spki := (rs_spki st)(d \<mapsto> spki)\<rparr>))"

definition ArchivedKey :: "(string \<Rightarrow> 'k parsed_key) \<Rightarrow> bool \<Rightarrow> string \<Rightarrow> receipt_store \<Rightarrow> rs_error + 'k" where
  "ArchivedKey parsePKIX readable d st =
    (case rs_spki st d of
       None \<Rightarrow> Inl ErrNoArchivedKey
     | Some b \<Rightarrow> if \<not> readable then Inl ErrStoreIO
                 else (case parsePKIX b of BadKey \<Rightarrow> Inl ErrArchivedKey | OtherKey \<Rightarrow> Inl ErrArchivedKey | ECDSAKey k \<Rightarrow> Inr k))"

definition TrimRight_newlines :: "string \<Rightarrow> string" where
  "TrimRight_newlines s = rev (dropWhile (\<lambda>c. c = newline) (rev s))"

definition Lines :: "bool \<Rightarrow> string \<Rightarrow> receipt_store \<Rightarrow> rs_error + string list" where
  "Lines readable d st =
    (case rs_file st d of
       None \<Rightarrow> Inr []
     | Some c \<Rightarrow> if \<not> readable then Inl ErrStoreIO
                 else Inr (filter (\<lambda>l. l \<noteq> []) (Split_on newline (TrimRight_newlines c))))"

subsection \<open>Verifying a chain\<close>

record 'k receipt_env =
  re_sha :: "string \<Rightarrow> string"
  re_verify :: "'k \<Rightarrow> string \<Rightarrow> nat \<Rightarrow> nat \<Rightarrow> bool"
  re_json :: codec
  re_daemonPub :: 'k

definition peekPredicateType :: "codec \<Rightarrow> string \<Rightarrow> string option" where
  "peekPredicateType cd compact =
    (case Split_on dot compact of
       [p0, p1, p2] \<Rightarrow> (case RawURLDecode p1 of None \<Rightarrow> None | Some payload \<Rightarrow> cd_peek cd payload)
     | _ \<Rightarrow> None)"

definition device_kind :: "string \<Rightarrow> bool" where
  "device_kind t \<longleftrightarrow> t = PredicateTypePermissionDecision \<or> t = PredicateTypeSessionHandoffRelease \<or> t = PredicateTypeSessionHandoffClaim"

definition signer :: "'k receipt_env \<Rightarrow> 'k \<Rightarrow> string \<Rightarrow> 'k option" where
  "signer env devicePub t =
    (if device_kind t then Some devicePub
     else if t = PredicateTypeReceiptUnavailable then Some (re_daemonPub env) else None)"

definition sameHash :: "string option \<Rightarrow> string option \<Rightarrow> bool" where
  "sameHash a b \<longleftrightarrow> a = b"

definition check_line :: "'k receipt_env \<Rightarrow> 'k \<Rightarrow> string option \<Rightarrow> string \<Rightarrow> bool" where
  "check_line env devicePub prevHash line \<longleftrightarrow>
    (case peekPredicateType (re_json env) line of
       None \<Rightarrow> False
     | Some t \<Rightarrow>
         (case signer env devicePub t of
            None \<Rightarrow> False
          | Some pub \<Rightarrow>
              (case VerifyES256Compact (re_sha env) (re_verify env) pub line of
                 Inl _ \<Rightarrow> False
               | Inr payload \<Rightarrow>
                   (case cd_unmarshal (re_json env) payload of
                      None \<Rightarrow> False | Some stmt \<Rightarrow> sameHash (PrevSHA256 stmt) prevHash))))"

text \<open>\<open>bufio.ScanLines\<close>: the last token needs no newline, and one carriage return is dropped.\<close>

definition scan_tokens :: "string \<Rightarrow> string list" where
  "scan_tokens c = (let ps = Split_on newline c in if last ps = [] then butlast ps else ps)"

definition dropCR :: "string \<Rightarrow> string" where
  "dropCR s = (if s \<noteq> [] \<and> last s = carriage_return then butlast s else s)"

fun verify_loop :: "'k receipt_env \<Rightarrow> 'k \<Rightarrow> string list \<Rightarrow> int \<Rightarrow> string option \<Rightarrow> rs_error + int" where
  "verify_loop env devicePub [] lineNum prevHash = Inr (- 1)"
| "verify_loop env devicePub (raw # rest) lineNum prevHash =
    (if maxScanToken \<le> length raw then Inl ErrTooLong
     else let line = dropCR raw
          in if line = [] then verify_loop env devicePub rest (lineNum + 1) prevHash
             else if \<not> check_line env devicePub prevHash line then Inr (lineNum + 1)
             else verify_loop env devicePub rest (lineNum + 1) (Some (hexhash (re_sha env) line)))"

definition Verify_chain :: "'k receipt_env \<Rightarrow> bool \<Rightarrow> 'k \<Rightarrow> string \<Rightarrow> receipt_store \<Rightarrow> rs_error + int" where
  "Verify_chain env readable devicePub d st =
    (case rs_file st d of
       None \<Rightarrow> Inr (- 1)
     | Some c \<Rightarrow> if \<not> readable then Inl ErrStoreIO else verify_loop env devicePub (scan_tokens c) 0 None)"

subsection \<open>The signing round trip\<close>

text \<open>
  What the outside gives one round: the device's key as \<open>PublicKeyFor\<close> returns it and its
  encoding, the reply of the device (none on a timeout or when it is not connected), what
  \<open>ecdsa.Sign\<close> returns for a digest, and the outcomes of the file operations.
\<close>

record 'k round_io =
  rd_pub :: "'k option"
  rd_spki :: "string option"
  rd_stat :: bool
  rd_archived :: bool
  rd_read1 :: bool
  rd_reply :: "string option"
  rd_read2 :: bool
  rd_sign :: "string \<Rightarrow> (nat \<times> nat) option"
  rd_read3 :: bool
  rd_append :: append_io

definition archive_step :: "'k round_io \<Rightarrow> string \<Rightarrow> receipt_store \<Rightarrow> receipt_store" where
  "archive_step rd d st =
    (if rd_pub rd = None then st
     else case rd_spki rd of None \<Rightarrow> st | Some spki \<Rightarrow> snd (ArchiveKey (rd_stat rd) (rd_archived rd) d spki st))"

text \<open>The first half: the previous hash and the statement sent to the device.\<close>

definition receipt_ask ::
  "'k receipt_env \<Rightarrow> (string \<Rightarrow> string option \<Rightarrow> Statement) \<Rightarrow> 'k round_io \<Rightarrow> string \<Rightarrow> receipt_store \<Rightarrow>
    (string option \<times> string) option \<times> receipt_store" where
  "receipt_ask env build rd d st =
    (case lastHashLocked (re_sha env) (rd_read1 rd) d (archive_step rd d st) of
       (Inl _, st1) \<Rightarrow> (None, st1)
     | (Inr prev, st1) \<Rightarrow> (Some (prev, cd_marshal (re_json env) (build (''device:'' @ d) prev)), st1))"

text \<open>What the reply is worth: the reason there is no receipt, or the line to store.\<close>

definition receipt_answer :: "'k receipt_env \<Rightarrow> 'k round_io \<Rightarrow> string \<Rightarrow> string + string" where
  "receipt_answer env rd payload =
    (case rd_reply rd of
       None \<Rightarrow> Inl ''timeout''
     | Some jws \<Rightarrow>
         (case rd_pub rd of
            None \<Rightarrow> Inl ''invalid_signature''
          | Some pub \<Rightarrow>
              (case VerifyES256Compact (re_sha env) (re_verify env) pub jws of
                 Inl _ \<Rightarrow> Inl ''invalid_signature''
               | Inr sg \<Rightarrow> if \<not> cd_equal (re_json env) payload sg then Inl ''invalid_signature'' else Inr jws)))"

definition marker_line :: "'k receipt_env \<Rightarrow> 'k round_io \<Rightarrow> string \<Rightarrow> string \<Rightarrow> string \<Rightarrow> string option \<Rightarrow> jws_error + string" where
  "marker_line env rd d correlationID reason prev =
    (let p = cd_marshal (re_json env)
               (BuildReceiptUnavailableStatement (re_sha env) (re_json env) correlationID d reason (''device:'' @ d) prev)
     in SignES256Compact (rd_sign rd (re_sha env (jwsHeaderB64 @ dot # RawURLEncode p))) p)"

definition receipt_mark ::
  "'k receipt_env \<Rightarrow> 'k round_io \<Rightarrow> string \<Rightarrow> string \<Rightarrow> string \<Rightarrow> string option \<Rightarrow> receipt_store \<Rightarrow> (jws_error + string) \<times> receipt_store" where
  "receipt_mark env rd d correlationID reason prev st =
    (case lastHashLocked (re_sha env) (rd_read2 rd) d st of
       (Inr (Some h), st1) \<Rightarrow> (marker_line env rd d correlationID reason (Some h), st1)
     | (_, st1) \<Rightarrow> (marker_line env rd d correlationID reason prev, st1))"

definition signReceipt ::
  "'k receipt_env \<Rightarrow> string \<Rightarrow> (string \<Rightarrow> string option \<Rightarrow> Statement) \<Rightarrow> 'k round_io \<Rightarrow> string \<Rightarrow> receipt_store \<Rightarrow> receipt_store" where
  "signReceipt env correlationID build rd d st =
    (case receipt_ask env build rd d st of
       (None, st1) \<Rightarrow> st1
     | (Some (prev, payload), st1) \<Rightarrow>
         (case receipt_answer env rd payload of
            Inr jws \<Rightarrow> snd (Append_receipt (re_sha env) (rd_read3 rd) (rd_append rd) d jws st1)
          | Inl reason \<Rightarrow>
              (case receipt_mark env rd d correlationID reason prev st1 of
                 (Inl _, st2) \<Rightarrow> st2
               | (Inr line, st2) \<Rightarrow> snd (Append_receipt (re_sha env) (rd_read3 rd) (rd_append rd) d line st2))))"

text \<open>\<open>ReceiptEntriesFor\<close>: the lines newest first, each with its decoded statement.\<close>

definition ReceiptEntriesFor :: "codec \<Rightarrow> bool \<Rightarrow> bool \<Rightarrow> string \<Rightarrow> receipt_store \<Rightarrow> rs_error + (string \<times> Statement option) list" where
  "ReceiptEntriesFor cd enabled readable d st =
    (if \<not> enabled \<or> d = [] then Inr []
     else case Lines readable d st of
            Inl e \<Rightarrow> Inl e
          | Inr ls \<Rightarrow> Inr (map (\<lambda>l. (l, case DecodePayloadUnverified l of Inl _ \<Rightarrow> None | Inr p \<Rightarrow> cd_unmarshal cd p)) (rev ls)))"

subsection \<open>Reading the last line\<close>

text \<open>What a backward read is for: the last line of the file, an ending newline aside.\<close>

definition last_line :: "string \<Rightarrow> string option" where
  "last_line c = (if trim_newline c = [] then None else Some (last (Split_on newline (trim_newline c))))"

lemma Split_on_single: "Split_on d s = [p] \<longleftrightarrow> p = s \<and> d \<notin> set s"
proof (induction s arbitrary: p)
  case (Cons c s)
  show ?case
  proof (cases "c = d")
    case True
    then show ?thesis using Split_on_nonempty [of d s] by simp
  next
    case False
    obtain q qs where "Split_on d s = q # qs" using Split_on_nonempty [of d s] by (cases "Split_on d s") auto
    with False Cons.IH [of q] Cons.IH [of s] show ?thesis by (cases qs) auto
  qed
qed auto

lemma LastIndexByte_last: "LastIndexByte d s = Some i \<Longrightarrow> last (Split_on d s) = drop (Suc i) s"
proof (induction s arbitrary: i)
  case (Cons c s)
  show ?case
  proof (cases "LastIndexByte d s")
    case None
    then have "d \<notin> set s" by (simp add: LastIndexByte_None)
    with None Cons.prems show ?thesis by (auto simp: Split_on_none split: if_splits)
  next
    case (Some j)
    then have "d \<in> set s" by (metis LastIndexByte_None option.distinct(1))
    then obtain p q ps where "Split_on d s = p # q # ps"
      using Split_on_nonempty [of d s] Split_on_single [of d s] by (cases "Split_on d s"; cases "tl (Split_on d s)") auto
    with Some Cons show ?thesis by auto
  qed
qed simp

lemma trim_newline_append: "t \<noteq> [] \<Longrightarrow> trim_newline (p @ t) = p @ trim_newline t"
  by (auto simp: trim_newline_def butlast_append)

lemma read_back_last_line:
  assumes "pos \<le> length c" "0 < pos" "tail = drop pos c"
  shows "read_back c pos tail = last_line c"
  using assms
proof (induction pos arbitrary: tail rule: less_induct)
  case (less pos)
  let ?n = "min seekChunkSize pos" let ?pos1 = "pos - ?n" let ?t = "trim_newline (drop ?pos1 c)"
  have n: "0 < ?n" "?n \<le> pos" using less(3) by (auto simp: seekChunkSize_def)
  then have d: "take ?n (drop ?pos1 c) @ drop pos c = drop ?pos1 c"
    by (metis append_take_drop_id drop_drop le_add_diff_inverse2 add.commute)
  have ne: "drop ?pos1 c \<noteq> []" using less(2,3) n by auto
  have c: "trim_newline c = take ?pos1 c @ ?t" using trim_newline_append [OF ne, of "take ?pos1 c"] by simp
  have un: "read_back c pos (drop pos c) =
      (case LastIndexByte newline ?t of Some i \<Rightarrow> Some (drop (Suc i) ?t)
       | None \<Rightarrow> if ?pos1 = 0 then (if ?t = [] then None else Some ?t) else read_back c ?pos1 (drop ?pos1 c))"
    unfolding read_back.simps [of c pos "drop pos c"] Let_def d by (rule if_not_P) (use less(3) in simp)
  show ?case
  proof (cases "LastIndexByte newline ?t")
    case (Some i)
    have "LastIndexByte newline (trim_newline c) = Some (?pos1 + i)"
      unfolding c using LastIndexByte_append [OF Some, of "take ?pos1 c"] less(2) by simp
    from LastIndexByte_last [OF this] have "last (Split_on newline (trim_newline c)) = drop (Suc i) ?t"
      unfolding c using less(2) by simp
    moreover have "trim_newline c \<noteq> []" unfolding c using Some by auto
    ultimately show ?thesis using Some un less(4) by (simp add: last_line_def)
  next
    case None
    show ?thesis
    proof (cases "?pos1 = 0")
      case True
      then have "trim_newline c = ?t" "newline \<notin> set ?t" using c None by (simp_all add: LastIndexByte_None)
      then show ?thesis using un less(4) None True by (simp add: last_line_def Split_on_none)
    next
      case False
      have "read_back c ?pos1 (drop ?pos1 c) = last_line c"
        using less(1) [of ?pos1 "drop ?pos1 c"] less(2,3) n False by simp
      then show ?thesis using un less(4) None False by simp
    qed
  qed
qed

text \<open>Reading the last line backwards in chunks gives the same line as splitting the whole file.\<close>

theorem readLastLine_correct: "readLastLine c = last_line c"
proof (cases "c = []")
  case True
  then show ?thesis by (subst readLastLine_def, subst read_back.simps) (simp add: last_line_def trim_newline_def)
next
  case False
  then show ?thesis by (simp add: readLastLine_def read_back_last_line)
qed

subsection \<open>Chains\<close>

definition chain_head :: "(string \<Rightarrow> string) \<Rightarrow> string list \<Rightarrow> string option" where
  "chain_head sha ls = (if ls = [] then None else Some (hexhash sha (last ls)))"

text \<open>The chain itself, apart from the file that holds it.\<close>

fun intact :: "'k receipt_env \<Rightarrow> 'k \<Rightarrow> string option \<Rightarrow> string list \<Rightarrow> bool" where
  "intact env pub prev [] \<longleftrightarrow> True"
| "intact env pub prev (l # ls) \<longleftrightarrow> check_line env pub prev l \<and> intact env pub (Some (hexhash (re_sha env) l)) ls"

definition file_of :: "string list \<Rightarrow> string" where
  "file_of ls = concat (map (\<lambda>l. l @ [newline]) ls)"

definition plain_line :: "string \<Rightarrow> bool" where
  "plain_line l \<longleftrightarrow> l \<noteq> [] \<and> length l < maxScanToken \<and> (\<forall>c \<in> set l. \<not> line_break c)"

definition chain_lines :: "string \<Rightarrow> string list" where
  "chain_lines c = filter (\<lambda>l. l \<noteq> []) (map dropCR (scan_tokens c))"

lemma newline_break [simp]: "line_break newline" "line_break carriage_return"
  by (simp_all add: line_break_def newline_def carriage_return_def)

lemma intact_append: "intact env pub prev (ls @ [l]) \<longleftrightarrow>
    intact env pub prev ls \<and> check_line env pub (if ls = [] then prev else Some (hexhash (re_sha env) (last ls))) l"
  by (induction ls arbitrary: prev) auto

lemma intact_snoc: "intact env pub None (ls @ [l]) \<longleftrightarrow> intact env pub None ls \<and> check_line env pub (chain_head (re_sha env) ls) l"
  by (simp add: intact_append chain_head_def)

lemma file_of_snoc: "file_of (ls @ [l]) = file_of ls @ l @ [newline]"
  by (simp add: file_of_def)

lemma plain_no_newline: "plain_line l \<Longrightarrow> newline \<notin> set l"
  by (auto simp: plain_line_def)

lemma Split_on_file: "\<forall>l \<in> set ls. plain_line l \<Longrightarrow> Split_on newline (file_of ls) = ls @ [[]]"
  by (induction ls) (simp_all add: file_of_def Split_on_append plain_no_newline)

lemma scan_file: "\<forall>l \<in> set ls. plain_line l \<Longrightarrow> scan_tokens (file_of ls) = ls"
  by (simp add: scan_tokens_def Split_on_file)

lemma dropCR_plain: "plain_line l \<Longrightarrow> dropCR l = l"
  using newline_break(2) last_in_set [of l] unfolding dropCR_def plain_line_def by metis

lemma verify_loop_plain:
  "0 \<le> n \<Longrightarrow> \<forall>l \<in> set ls. plain_line l \<Longrightarrow> verify_loop env pub ls n prev = Inr (- 1) \<longleftrightarrow> intact env pub prev ls"
proof (induction ls arbitrary: n prev)
  case (Cons l ls)
  then have l: "plain_line l" by simp
  then have "dropCR l = l" "l \<noteq> []" "length l < maxScanToken" using dropCR_plain by (auto simp: plain_line_def)
  with Cons show ?case by (simp add: Let_def not_le)
qed simp

lemma verify_loop_intact:
  "0 \<le> n \<Longrightarrow> verify_loop env pub ts n prev = Inr (- 1) \<Longrightarrow> intact env pub prev (filter (\<lambda>l. l \<noteq> []) (map dropCR ts))"
proof (induction ts arbitrary: n prev)
  case (Cons t ts)
  from Cons.prems Cons.IH [of "n + 1"] show ?case by (simp add: Let_def split: if_splits)
qed simp

lemma last_line_file: "\<forall>l \<in> set ls. plain_line l \<Longrightarrow> last_line (file_of ls) = (if ls = [] then None else Some (last ls))"
proof (induction ls rule: rev_induct)
  case (snoc l ls)
  then have l: "newline \<notin> set l" "l \<noteq> []" and s: "Split_on newline (file_of ls) = ls @ [[]]"
    by (auto simp: plain_line_def Split_on_file)
  have t: "trim_newline (file_of (ls @ [l])) = file_of ls @ l"
    unfolding file_of_snoc by (simp add: trim_newline_def butlast_append)
  have "last (Split_on newline (file_of ls @ l)) = l" if "Split_on newline (file_of xs) = xs @ [[]]" "\<forall>x \<in> set xs. newline \<notin> set x"
    "xs = ls" for xs
    using l(1) that(2) unfolding that(3) [symmetric]
    by (induction xs) (simp_all add: file_of_def Split_on_append Split_on_none Split_on_nonempty)
  with s snoc.prems have "last (Split_on newline (file_of ls @ l)) = l" by (simp add: plain_no_newline)
  with l(2) t show ?case by (simp add: last_line_def)
qed (simp add: last_line_def file_of_def trim_newline_def)

subsection \<open>The store keeps its chain\<close>

definition chain_ok :: "'k receipt_env \<Rightarrow> 'k \<Rightarrow> string \<Rightarrow> receipt_store \<Rightarrow> bool" where
  "chain_ok env pub d st \<longleftrightarrow> (\<exists>ls. (case rs_file st d of None \<Rightarrow> ls = [] | Some c \<Rightarrow> c = file_of ls) \<and>
    (\<forall>l \<in> set ls. plain_line l) \<and> intact env pub None ls \<and>
    (\<forall>h. rs_lastHash st d = Some h \<longrightarrow> chain_head (re_sha env) ls = Some h))"

lemma chain_okE:
  assumes "chain_ok env pub d st"
  obtains ls where "case rs_file st d of None \<Rightarrow> ls = [] | Some c \<Rightarrow> c = file_of ls" "\<forall>l \<in> set ls. plain_line l"
    "intact env pub None ls" "\<And>h. rs_lastHash st d = Some h \<Longrightarrow> chain_head (re_sha env) ls = Some h"
  using assms unfolding chain_ok_def by blast

lemma chain_verifies: "chain_ok env pub d st \<Longrightarrow> Verify_chain env True pub d st = Inr (- 1)"
  by (elim chain_okE) (auto simp: Verify_chain_def scan_file verify_loop_plain split: option.splits)

lemma lastHashLocked_frame:
  assumes "lastHashLocked sha readable d st = (res, st1)"
  shows "rs_file st1 = rs_file st" "e \<noteq> d \<Longrightarrow> rs_lastHash st1 e = rs_lastHash st e"
  using assms by (auto simp: lastHashLocked_def split: option.splits if_splits)

text \<open>On a store whose chain is in order the last hash is the head of the chain, cached or read.\<close>

lemma lastHashLocked_ok:
  assumes "lastHashLocked (re_sha env) readable d st = (Inr prev, st1)"
    and ls: "case rs_file st d of None \<Rightarrow> ls = [] | Some c \<Rightarrow> c = file_of ls" "\<forall>l \<in> set ls. plain_line l"
    "\<And>h. rs_lastHash st d = Some h \<Longrightarrow> chain_head (re_sha env) ls = Some h"
  shows "prev = chain_head (re_sha env) ls" "\<And>h. rs_lastHash st1 d = Some h \<Longrightarrow> chain_head (re_sha env) ls = Some h"
proof -
  have r: "readLastLine c = (if ls = [] then None else Some (last ls))" if "rs_file st d = Some c" for c
    using ls(1,2) that by (simp add: readLastLine_correct last_line_file)
  show "prev = chain_head (re_sha env) ls"
    using assms(1) ls(1,3) r by (auto simp: lastHashLocked_def chain_head_def split: option.splits if_splits)
  show "chain_head (re_sha env) ls = Some h" if "rs_lastHash st1 d = Some h" for h
  proof (cases "rs_lastHash st d")
    case None
    then show ?thesis using assms(1) ls(1) r that by (auto simp: lastHashLocked_def chain_head_def split: option.splits if_splits)
  next
    case (Some k)
    then show ?thesis using assms(1) ls(3) that by (simp add: lastHashLocked_def)
  qed
qed



subsection \<open>A round\<close>

lemma hex_digit_ascii: "n < 16 \<Longrightarrow> byte_of (hex_digit n) < 128"
proof -
  have "\<forall>c \<in> set ''0123456789abcdef''. byte_of c < 128" by code_simp
  moreover assume "n < 16"
  then have "hex_digit n \<in> set ''0123456789abcdef''" unfolding hex_digit_def by (intro nth_mem) simp
  ultimately show ?thesis by blast
qed

lemma hexhash_ascii: "is_ascii (hexhash sha s)"
  unfolding is_ascii_def hexhash_def EncodeToString_def by (auto simp: list_all_iff hex_digit_ascii less_mult_imp_div_less)


lemma Verify_peek: "VerifyES256Compact sha verify pub jws = Inr payload \<Longrightarrow> peekPredicateType cd jws = cd_peek cd payload"
  by (auto simp: VerifyES256Compact_def peekPredicateType_def Let_def split: list.splits option.splits if_splits)

lemma json_reads:
  assumes "json_ok cd" "is_ascii (PredicateType s)" "\<And>p. PrevSHA256 s = Some p \<Longrightarrow> is_ascii p"
  obtains s' where "cd_unmarshal cd (cd_marshal cd s) = Some s'" "PredicateType s' = PredicateType s" "PrevSHA256 s' = PrevSHA256 s"
  using assms unfolding json_ok_def by blast

lemma check_line_iff:
  assumes "VerifyES256Compact (re_sha env) (re_verify env) k jws = Inr payload" "cd_unmarshal (re_json env) payload = Some stmt"
    and "json_ok (re_json env)" "signer env pub (PredicateType stmt) = Some k"
  shows "check_line env pub prev jws \<longleftrightarrow> PrevSHA256 stmt = prev"
proof -
  have "peekPredicateType (re_json env) jws = Some (PredicateType stmt)"
    using Verify_peek [OF assms(1)] assms(2,3) by (auto simp: json_ok_def)
  then show ?thesis unfolding check_line_def using assms by (simp add: sameHash_def)
qed

definition builds_ok :: "(string \<Rightarrow> string option \<Rightarrow> Statement) \<Rightarrow> bool" where
  "builds_ok build \<longleftrightarrow> (\<forall>scope prev. device_kind (PredicateType (build scope prev)) \<and> PrevSHA256 (build scope prev) = prev)"

lemma builders_ok:
  "builds_ok (BuildPermissionDecisionStatement sha cd sid pid d opt tool detail t)"
  "builds_ok (BuildHandoffReleaseStatement sha cd sid d to nonce t)"
  "builds_ok (BuildHandoffClaimStatement sha cd sid d to nonce t)"
  by (simp_all add: builds_ok_def device_kind_def BuildPermissionDecisionStatement_def BuildHandoffReleaseStatement_def
      BuildHandoffClaimStatement_def)


lemma device_kind_ascii: "device_kind t \<Longrightarrow> is_ascii t"
proof -
  have "is_ascii PredicateTypePermissionDecision" "is_ascii PredicateTypeSessionHandoffRelease" "is_ascii PredicateTypeSessionHandoffClaim"
    by code_simp+
  moreover assume "device_kind t"
  ultimately show ?thesis by (auto simp: device_kind_def)
qed

text \<open>An accepted reply links to the hash the device was sent.\<close>

lemma answer_checks:
  assumes "receipt_answer env rd (cd_marshal (re_json env) (build scope prev)) = Inr jws"
    and "json_ok (re_json env)" "builds_ok build" "\<And>p. prev = Some p \<Longrightarrow> is_ascii p" "\<And>k. rd_pub rd = Some k \<Longrightarrow> k = pub"
  shows "rd_reply rd = Some jws" "check_line env pub q jws \<longleftrightarrow> q = prev"
proof -
  obtain sg where r: "rd_reply rd = Some jws" "VerifyES256Compact (re_sha env) (re_verify env) pub jws = Inr sg"
    "cd_equal (re_json env) (cd_marshal (re_json env) (build scope prev)) sg"
    using assms(1,5) by (auto simp: receipt_answer_def split: option.splits sum.splits if_splits)
  then show "rd_reply rd = Some jws" by simp
  have b: "device_kind (PredicateType (build scope prev))" "PrevSHA256 (build scope prev) = prev"
    using assms(3) by (auto simp: builds_ok_def)
  then obtain s' where s: "cd_unmarshal (re_json env) (cd_marshal (re_json env) (build scope prev)) = Some s'"
    "PredicateType s' = PredicateType (build scope prev)" "PrevSHA256 s' = prev"
    using json_reads [OF assms(2), of "build scope prev"] assms(4) device_kind_ascii by metis
  then have "cd_unmarshal (re_json env) sg = Some s'" using r(3) assms(2) by (metis json_ok_def)
  moreover have "signer env pub (PredicateType s') = Some pub" using s(2) b(1) by (simp add: signer_def)
  ultimately show "check_line env pub q jws \<longleftrightarrow> q = prev"
    using check_line_iff [OF r(2) _ assms(2)] s(3) by auto
qed



lemma archive_frame: "rs_file (archive_step rd d st) = rs_file st" "rs_lastHash (archive_step rd d st) = rs_lastHash st"
  by (auto simp: archive_step_def ArchiveKey_def split: option.splits)





subsection \<open>The file as a list of lines\<close>

definition lines_at :: "'k receipt_env \<Rightarrow> string \<Rightarrow> receipt_store \<Rightarrow> string list \<Rightarrow> bool" where
  "lines_at env d st ls \<longleftrightarrow> (case rs_file st d of None \<Rightarrow> ls = [] | Some c \<Rightarrow> c = file_of ls) \<and> (\<forall>l \<in> set ls. plain_line l) \<and>
    (\<forall>h. rs_lastHash st d = Some h \<longrightarrow> chain_head (re_sha env) ls = Some h)"

lemma chain_ok_lines: "chain_ok env pub d st \<longleftrightarrow> (\<exists>ls. lines_at env d st ls \<and> intact env pub None ls)"
  unfolding chain_ok_def lines_at_def by blast

lemma lastHashLocked_lines:
  assumes "lines_at env d st ls" "lastHashLocked (re_sha env) readable d st = (Inr p, st1)"
  shows "p = chain_head (re_sha env) ls" "lines_at env d st1 ls"
proof -
  have ls: "case rs_file st d of None \<Rightarrow> ls = [] | Some c \<Rightarrow> c = file_of ls" "\<forall>l \<in> set ls. plain_line l"
    "\<And>h. rs_lastHash st d = Some h \<Longrightarrow> chain_head (re_sha env) ls = Some h" using assms(1) by (auto simp: lines_at_def)
  note ok = lastHashLocked_ok [OF assms(2) ls]
  show "p = chain_head (re_sha env) ls" by (rule ok(1))
  show "lines_at env d st1 ls" using ls(1,2) ok(2) lastHashLocked_frame(1) [OF assms(2)] by (simp add: lines_at_def)
qed

lemma ask_lines:
  assumes "lines_at env d st ls" "receipt_ask env build rd d st = (Some (p, payload), st1)"
  shows "p = chain_head (re_sha env) ls" "payload = cd_marshal (re_json env) (build (''device:'' @ d) p)" "lines_at env d st1 ls"
proof -
  have "lines_at env d (archive_step rd d st) ls" using assms(1) by (simp add: lines_at_def archive_frame)
  moreover have l: "lastHashLocked (re_sha env) (rd_read1 rd) d (archive_step rd d st) = (Inr p, st1)"
    and "payload = cd_marshal (re_json env) (build (''device:'' @ d) p)"
    using assms(2) by (auto simp: receipt_ask_def split: prod.splits sum.splits)
  ultimately show "p = chain_head (re_sha env) ls" "payload = cd_marshal (re_json env) (build (''device:'' @ d) p)" "lines_at env d st1 ls"
    using lastHashLocked_lines by blast+
qed

lemma lastHashLocked_readable: "\<exists>p st1. lastHashLocked sha True d st = (Inr p, st1)"
  by (auto simp: lastHashLocked_def split: option.splits)

lemma Append_file:
  assumes "res = Appended \<or> res = SyncFails"
  shows "rs_file (snd (Append_receipt sha True res d jws st)) d = Some ((case rs_file st d of None \<Rightarrow> [] | Some c \<Rightarrow> c) @ jws @ [newline])"
proof -
  obtain p st1 where l: "lastHashLocked sha True d st = (Inr p, st1)" using lastHashLocked_readable by blast
  from l assms lastHashLocked_frame(1) [OF l] show ?thesis by (auto simp: Append_receipt_def extend_file_def Let_def)
qed



text \<open>Verification stops at the first line that does not link to the ones before it.\<close>

lemma verify_loop_break:
  assumes "\<forall>l \<in> set ls. plain_line l" "intact env pub prev ls" "length x < maxScanToken" "dropCR x \<noteq> []"
    and "\<not> check_line env pub (if ls = [] then prev else chain_head (re_sha env) ls) (dropCR x)"
  shows "verify_loop env pub (ls @ x # rest) n prev = Inr (n + int (length ls) + 1)"
  using assms
proof (induction ls arbitrary: n prev)
  case (Cons l ls)
  then have l: "dropCR l = l" "l \<noteq> []" "\<not> maxScanToken \<le> length l" using dropCR_plain [of l] by (auto simp: plain_line_def)
  have "\<not> check_line env pub (if ls = [] then Some (hexhash (re_sha env) l) else chain_head (re_sha env) ls) (dropCR x)"
    using Cons.prems(5) by (auto simp: chain_head_def split: if_splits)
  from Cons.IH [OF _ _ Cons.prems(3,4) this, of "n + 1"] Cons.prems(1,2) l show ?case by (simp add: Let_def)
qed (simp add: Let_def)


subsection \<open>Properties\<close>


definition NewStore :: receipt_store where
  "NewStore = \<lparr>rs_file = Map.empty, rs_spki = Map.empty, rs_lastHash = Map.empty\<rparr>"





lemma check_line_prev: "check_line env pub p l \<Longrightarrow> check_line env pub' q l \<Longrightarrow> p = q"
  by (auto simp: check_line_def sameHash_def split: option.splits sum.splits dest!: Verify_payload)

lemma intact_agree:
  assumes "intact env pub None (A @ [x])" "intact env pub' None (B @ [x])" "inj_on (hexhash (re_sha env)) (set A \<union> set B)"
  shows "A = B"
  using assms
proof (induction A arbitrary: B x rule: rev_induct)
  case Nil
  then have "None = chain_head (re_sha env) B" using check_line_prev [of env pub None x pub'] by (simp add: intact_snoc)
  then show ?case by (simp add: chain_head_def split: if_splits)
next
  case (snoc a A)
  have i1: "intact env pub None (A @ [a])" "check_line env pub (chain_head (re_sha env) (A @ [a])) x"
    using snoc.prems(1) intact_snoc [of env pub "A @ [a]" x] by blast+
  have i2: "intact env pub' None B" "check_line env pub' (chain_head (re_sha env) B) x"
    using snoc.prems(2) intact_snoc [of env pub' B x] by blast+
  have "Some (hexhash (re_sha env) a) = chain_head (re_sha env) B"
    using check_line_prev [OF i1(2) i2(2)] by (simp add: chain_head_def)
  then obtain B' b where B: "B = B' @ [b]" "hexhash (re_sha env) a = hexhash (re_sha env) b"
    by (cases B rule: rev_cases) (auto simp: chain_head_def)
  then have "a = b" using inj_onD [OF snoc.prems(3), of a b] by simp
  moreover have "A = B'" using i1(1) i2(1) snoc.prems(3) B \<open>a = b\<close>
    by (intro snoc.IH [of a B']) (auto intro: inj_on_subset)
  ultimately show ?case using B by simp
qed

text \<open>C9: History cannot be rewritten behind a receipt. Two files that both verify and end in the same
  line hold the same lines, when SHA-256 does not collide on them: so a change, an insertion or a
  removal anywhere before a line one still has is found.\<close>

theorem chain_tamper_evident:
  assumes "Verify_chain env True pub d st = Inr (- 1)" "Verify_chain env True pub' d st' = Inr (- 1)"
    and "rs_file st d = Some c" "rs_file st' d = Some c'" "chain_lines c = A @ [x]" "chain_lines c' = B @ [x]"
    and "inj_on (hexhash (re_sha env)) (set A \<union> set B)"
  shows "chain_lines c = chain_lines c'"
proof -
  have "intact env pub None (A @ [x])" "intact env pub' None (B @ [x])"
    using verify_loop_intact [of 0 env pub "scan_tokens c" None] verify_loop_intact [of 0 env pub' "scan_tokens c'" None] assms(1-6)
    by (simp_all add: Verify_chain_def chain_lines_def)
  from intact_agree [OF this assms(7)] assms(5,6) show ?thesis by simp
qed

text \<open>A statement format small enough to compute with, and one receipt in it.\<close>

definition ex_marshal :: "Statement \<Rightarrow> string" where
  "ex_marshal s = replicate (length (PredicateType s)) (CHR ''a'') @ CHR ''b'' # PredicateType s @
     (case PrevSHA256 s of None \<Rightarrow> [] | Some p \<Rightarrow> CHR ''c'' # p)"

definition ex_unmarshal :: "string \<Rightarrow> Statement option" where
  "ex_unmarshal p =
    (let n = length (takeWhile (\<lambda>c. c = CHR ''a'') p)
     in Some \<lparr>stm_Type = [], Subject = [], PredicateType = take n (drop (Suc n) p), Predicate = [], Scope = [],
              PrevSHA256 = (case drop (Suc (2 * n)) p of [] \<Rightarrow> None | _ # q \<Rightarrow> Some q)\<rparr>)"

definition ex_codec :: codec where
  "ex_codec = \<lparr>cd_predicate = (\<lambda>_. []), cd_marshal = ex_marshal, cd_unmarshal = ex_unmarshal,
     cd_peek = (\<lambda>p. map_option PredicateType (ex_unmarshal p)), cd_equal = (=)\<rparr>"

definition ex_env :: "unit receipt_env" where
  "ex_env = \<lparr>re_sha = id, re_verify = (\<lambda>_ _ _ _. True), re_json = ex_codec, re_daemonPub = ()\<rparr>"

definition ex_build :: "string \<Rightarrow> string option \<Rightarrow> Statement" where
  "ex_build = BuildPermissionDecisionStatement id ex_codec ''s'' ''p'' ''d'' ''allow'' ''bash'' ''ls'' 0"

definition ex_jws :: string where
  "ex_jws = jwsHeaderB64 @ dot # RawURLEncode (ex_marshal (ex_build ''device:d'' None)) @ dot #
     RawURLEncode (map char_of (FillBytes 32 0 @ FillBytes 32 0))"

definition ex_round :: "string \<Rightarrow> unit round_io" where
  "ex_round jws = \<lparr>rd_pub = Some (), rd_spki = None, rd_stat = True, rd_archived = True, rd_read1 = True, rd_reply = Some jws,
     rd_read2 = True, rd_sign = (\<lambda>_. None), rd_read3 = True, rd_append = Appended\<rparr>"

lemma ex_json: "json_ok ex_codec"
proof -
  have t: "takeWhile (\<lambda>c. c = CHR ''a'') (replicate n (CHR ''a'') @ CHR ''b'' # x) = replicate n (CHR ''a'')" for n x
    by (subst takeWhile_append2) auto
  have "\<exists>s'. ex_unmarshal (ex_marshal s) = Some s' \<and> PredicateType s' = PredicateType s \<and> PrevSHA256 s' = PrevSHA256 s" for s
    unfolding ex_unmarshal_def ex_marshal_def t Let_def by (simp split: option.splits)
  then show ?thesis by (auto simp: json_ok_def ex_codec_def)
qed

lemma length_RawURLEncode: "length (RawURLEncode s) \<le> 2 * length s"
proof -
  have "length (encode_bytes bs) \<le> 2 * length bs" for bs by (induction bs rule: encode_bytes.induct) auto
  from this [of "map byte_of s"] show ?thesis by (simp add: RawURLEncode_def)
qed

lemma compact_plain:
  assumes "c \<in> set (jwsHeaderB64 @ dot # RawURLEncode a @ dot # RawURLEncode b)"
  shows "\<not> line_break c"
proof -
  have "c = dot \<or> (\<exists>s. c \<in> set (RawURLEncode s))" using assms by (auto simp: jwsHeaderB64_def)
  then show ?thesis using RawURLEncode_plain by (auto simp: line_break_def dot_def byte_of_def)
qed

lemma ex_plain: "plain_line ex_jws"
proof -
  let ?p = "ex_marshal (ex_build ''device:d'' None)" and ?s = "map char_of (FillBytes 32 0 @ FillBytes 32 0) :: string"
  have "length ?p = 113"
    by (simp add: ex_marshal_def ex_build_def BuildPermissionDecisionStatement_def PredicateTypePermissionDecision_def)
  moreover have "length jwsHeaderB64 \<le> 2 * 15" using length_RawURLEncode [of jwsHeader] by (simp add: jwsHeaderB64_def jwsHeader_def)
  moreover have "length ?s = 64" by simp
  ultimately have "length ex_jws < 1000"
    using length_RawURLEncode [of ?p] length_RawURLEncode [of ?s] unfolding ex_jws_def by simp
  moreover have "ex_jws \<noteq> []" by (simp add: ex_jws_def)
  ultimately show ?thesis using compact_plain unfolding plain_line_def ex_jws_def by (auto simp: maxScanToken_def)
qed

lemma ex_build_ok: "builds_ok ex_build"
  unfolding ex_build_def by (rule builders_ok)

lemma ex_answer: "receipt_answer ex_env (ex_round ex_jws) (cd_marshal (re_json ex_env) (ex_build ''device:d'' None)) = Inr ex_jws"
proof -
  have "SignES256Compact (Some (0, 0)) (ex_marshal (ex_build ''device:d'' None)) = Inr ex_jws"
    by (simp add: SignES256Compact_def ex_jws_def)
  from jws_verifies [OF this, where verify = "re_verify ex_env" and sha = "re_sha ex_env" and pub = "()"] show ?thesis
    by (simp add: receipt_answer_def ex_round_def ex_env_def ex_codec_def)
qed

lemma ex_jws_check: "check_line ex_env () None ex_jws"
  using answer_checks(2) [where env = ex_env and rd = "ex_round ex_jws" and build = ex_build and scope = "''device:d''" and prev = None and
      jws = ex_jws and pub = "()" and q = None, OF ex_answer] ex_json ex_build_ok by (simp add: ex_env_def)


definition ex_store :: receipt_store where
  "ex_store = NewStore\<lparr>rs_file := [''d'' \<mapsto> file_of [ex_jws]]\<rparr>"

lemma ex_store_lines: "lines_at ex_env ''d'' ex_store [ex_jws]" "intact ex_env () None [ex_jws]"
  by (simp_all add: lines_at_def ex_store_def NewStore_def ex_plain ex_jws_check)


theorem chain_tamper_evident_witness:
  "chain_lines (file_of [ex_jws]) = chain_lines (newline # file_of [ex_jws])"
proof -
  let ?st' = "ex_store\<lparr>rs_file := [''d'' \<mapsto> newline # file_of [ex_jws]]\<rparr>"
  have ne: "ex_jws \<noteq> []" "dropCR ex_jws = ex_jws" using ex_plain dropCR_plain by (auto simp: plain_line_def)
  have v: "Verify_chain ex_env True () ''d'' ex_store = Inr (- 1)"
    using ex_store_lines ex_jws_check by (intro chain_verifies) (auto simp: chain_ok_lines)
  have sc: "scan_tokens (newline # file_of [ex_jws]) = [[], ex_jws]"
    using Split_on_file [of "[ex_jws]"] ex_plain by (simp add: scan_tokens_def)
  have v': "Verify_chain ex_env True () ''d'' ?st' = Inr (- 1)"
    using sc verify_loop_plain [of 1 "[ex_jws]" ex_env "()" None] ex_plain ex_jws_check
    by (simp add: Verify_chain_def Let_def dropCR_def maxScanToken_def)
  have c: "chain_lines (file_of [ex_jws]) = [] @ [ex_jws]" "chain_lines (newline # file_of [ex_jws]) = [] @ [ex_jws]"
    using scan_file [of "[ex_jws]"] ex_plain sc ne by (simp_all add: chain_lines_def dropCR_def)
  have f: "rs_file ex_store ''d'' = Some (file_of [ex_jws])" "rs_file ?st' ''d'' = Some (newline # file_of [ex_jws])" by (simp_all add: ex_store_def)
  show ?thesis using chain_tamper_evident [OF v v' f c] by simp
qed



lemma Split_file_append: "\<forall>l \<in> set ls. plain_line l \<Longrightarrow> Split_on newline (file_of ls @ s) = ls @ Split_on newline s"
  by (induction ls) (simp_all add: file_of_def Split_on_append plain_no_newline)

text \<open>A device can break its own chain with a newline. The signature check skips line breaks
  inside the encoded payload, so a device that signs the daemon's statement with a newline before it
  is accepted; the stored text is then two lines, neither of which is a receipt, and the chain never
  verifies again.\<close>

theorem newline_reply_breaks_chain:
  assumes "chain_ok env pub d st" "cd_equal (re_json env) payload payload"
    and ask: "receipt_ask env build rd d st = (Some (prev, payload), st1)"
    and sg: "r < 256 ^ 32" "s < 256 ^ 32" "re_verify env pub (re_sha env (jwsHeaderB64 @ dot # newline # RawURLEncode payload)) r s"
    and rd: "rd_pub rd = Some pub" "rd_append rd = Appended" "rd_read3 rd"
      "rd_reply rd = Some (jwsHeaderB64 @ dot # newline # RawURLEncode payload @ dot # RawURLEncode (map char_of (FillBytes 32 r @ FillBytes 32 s)))"
  shows "(\<exists>jws. receipt_answer env rd payload = Inr jws) \<and>
    (\<exists>n > 0. Verify_chain env True pub d (signReceipt env corr build rd d st) = Inr n)"
proof -
  let ?bs = "FillBytes 32 r @ FillBytes 32 s" let ?sig = "RawURLEncode (map char_of ?bs)"
  let ?rest = "RawURLEncode payload @ dot # ?sig" let ?jws = "jwsHeaderB64 @ dot # newline # ?rest"
  have nd: "dot \<notin> set (RawURLEncode t)" "newline \<notin> set (RawURLEncode t)" for t using RawURLEncode_plain newline_break by blast+
  have dn: "dot \<noteq> newline" by (simp add: dot_def newline_def char_of_def)
  have sp: "Split_on dot ?jws = [jwsHeaderB64, newline # RawURLEncode payload, ?sig]"
    using nd(1) dn Split_on_append [of dot "newline # RawURLEncode payload" ?sig]
    by (simp add: jwsHeaderB64_def Split_on_append Split_on_none)
  have dec: "RawURLDecode (newline # RawURLEncode payload) = Some payload"
    using RawURLDecode_breaks [of "newline # RawURLEncode payload" "RawURLEncode payload"] by simp
  have b: "map byte_of (map char_of ?bs) = ?bs" by (rule bytes_of_chars) auto
  have "SetBytes (take 32 ?bs) = r" "SetBytes (drop 32 ?bs) = s" using sg(1,2) by (simp_all add: SetBytes_FillBytes)
  then have "VerifyES256Compact (re_sha env) (re_verify env) pub ?jws = Inr payload"
    unfolding VerifyES256Compact_def sp using dec b sg(3) by (simp add: Let_def del: map_map map_append)
  then have ans: "receipt_answer env rd payload = Inr ?jws" using rd(1,4) assms(2) by (simp add: receipt_answer_def)
  obtain ls where ls: "lines_at env d st ls" "intact env pub None ls" using assms(1) by (auto simp: chain_ok_lines)
  note a = ask_lines(3) [OF ls(1) ask]
  let ?st2 = "snd (Append_receipt (re_sha env) True Appended d ?jws st1)"
  have st2: "signReceipt env corr build rd d st = ?st2" using ask ans rd(2,3) by (simp add: signReceipt_def)
  have pl: "\<forall>l \<in> set ls. plain_line l" using a by (simp add: lines_at_def)
  let ?x = "jwsHeaderB64 @ [dot]"
  have f: "rs_file ?st2 d = Some (file_of ls @ ?x @ newline # ?rest @ [newline])"
    using a by (auto simp: Append_file lines_at_def file_of_def split: option.splits)
  have "Split_on newline (?x @ newline # ?rest @ [newline]) = ?x # ?rest # [[]]"
    using nd(2) dn Split_on_append [of newline ?x] Split_on_append [of newline ?rest "[]"] by (simp add: jwsHeaderB64_def)
  then have "Split_on newline (file_of ls @ ?x @ newline # ?rest @ [newline]) = ls @ [?x, ?rest, []]"
    using Split_file_append [OF pl, of "?x @ newline # ?rest @ [newline]"] by simp
  then have t: "scan_tokens (file_of ls @ ?x @ newline # ?rest @ [newline]) = ls @ ?x # [?rest]"
    by (simp add: scan_tokens_def butlast_append)
  have cr: "dropCR ?x = ?x" by (simp add: dropCR_def dot_def carriage_return_def char_of_def)
  have "Split_on dot ?x = [jwsHeaderB64, []]" using Split_on_append [OF nd(1), of jwsHeader "[]"] by (simp add: jwsHeaderB64_def)
  then have "\<not> check_line env pub q ?x" for q by (simp add: check_line_def peekPredicateType_def)
  moreover have "length ?x < maxScanToken"
    using length_RawURLEncode [of jwsHeader] by (simp add: jwsHeaderB64_def jwsHeader_def maxScanToken_def)
  ultimately have "verify_loop env pub (ls @ ?x # [?rest]) 0 None = Inr (0 + int (length ls) + 1)"
    using cr by (intro verify_loop_break [OF pl ls(2)]) simp_all
  then have "Verify_chain env True pub d ?st2 = Inr (int (length ls) + 1)" using f t by (simp add: Verify_chain_def)
  then show ?thesis using ans st2 by auto
qed

theorem newline_reply_breaks_chain_witness:
  "\<exists>rd n. n > 0 \<and> Verify_chain ex_env True () ''d'' (signReceipt ex_env ''p'' ex_build rd ''d'' NewStore) = Inr n"
proof -
  let ?p = "cd_marshal (re_json ex_env) (ex_build ''device:d'' None)"
  let ?jws = "jwsHeaderB64 @ dot # newline # RawURLEncode ?p @ dot # RawURLEncode (map char_of (FillBytes 32 0 @ FillBytes 32 0))"
  have a: "receipt_ask ex_env ex_build (ex_round ?jws) ''d'' NewStore = (Some (None, ?p), NewStore)"
    by (simp add: receipt_ask_def archive_step_def ex_round_def lastHashLocked_def NewStore_def)
  have "chain_ok ex_env () ''d'' NewStore" by (simp add: chain_ok_def NewStore_def)
  moreover have "cd_equal (re_json ex_env) ?p ?p" by (simp add: ex_env_def ex_codec_def)
  ultimately have "\<exists>n > 0. Verify_chain ex_env True () ''d'' (signReceipt ex_env ''p'' ex_build (ex_round ?jws) ''d'' NewStore) = Inr n"
    using newline_reply_breaks_chain [OF _ _ a, of "()" 0 0 "''p''"] by (simp add: ex_round_def ex_env_def)
  then show ?thesis by blast
qed

text \<open>A file cut at the end of a line still verifies: removing the newest receipts is not found.\<close>

lemma intact_prefix: "intact env pub prev (ls @ ks) \<Longrightarrow> intact env pub prev ls"
  by (induction ls arbitrary: prev) auto

theorem truncation_undetected:
  assumes "\<forall>l \<in> set (ls @ ks). plain_line l" "rs_file st d = Some (file_of (ls @ ks))" "Verify_chain env True pub d st = Inr (- 1)"
  shows "Verify_chain env True pub d (st\<lparr>rs_file := (rs_file st)(d \<mapsto> file_of ls)\<rparr>) = Inr (- 1)"
proof -
  have "intact env pub None (ls @ ks)"
    using assms(2,3) verify_loop_plain [OF order_refl assms(1), of env pub None] scan_file [OF assms(1)] by (simp add: Verify_chain_def)
  from intact_prefix [OF this] assms(1) show ?thesis by (simp add: Verify_chain_def scan_file verify_loop_plain)
qed

text \<open>A line that was written but not synced is in the file and not in the cache: the next receipt
  links to the line before it.\<close>

theorem unsynced_receipt_breaks_chain:
  assumes "lines_at env d st ls" "ls \<noteq> []" "intact env pub None ls" "plain_line j1" "check_line env pub (chain_head (re_sha env) ls) j1"
    and st1: "st1 = snd (Append_receipt (re_sha env) True SyncFails d j1 st)"
    and ask: "receipt_ask env build rd d st1 = (Some (prev, payload), st2)"
    and ans: "receipt_answer env rd payload = Inr j2" "rd_pub rd = Some pub" "plain_line j2"
    and ok: "json_ok (re_json env)" "builds_ok build" "chain_head (re_sha env) ls \<noteq> Some (hexhash (re_sha env) j1)"
  shows "\<exists>n > 0. Verify_chain env True pub d (snd (Append_receipt (re_sha env) True Appended d j2 st2)) = Inr n"
proof -
  have c: "\<exists>st0. lastHashLocked (re_sha env) True d st = (Inr (chain_head (re_sha env) ls), st0) \<and>
      rs_lastHash st0 d = chain_head (re_sha env) ls \<and> rs_file st0 = rs_file st"
  proof -
    obtain p st0 where l: "lastHashLocked (re_sha env) True d st = (Inr p, st0)" using lastHashLocked_readable by blast
    note ll = lastHashLocked_lines [OF assms(1) l]
    have "rs_lastHash st0 d = p" using l ll(1) assms(2) by (auto simp: lastHashLocked_def chain_head_def split: option.splits)
    then show ?thesis using l ll(1) lastHashLocked_frame(1) [OF l] by auto
  qed
  then have s1: "rs_lastHash st1 d = chain_head (re_sha env) ls" "rs_file st1 d = Some (file_of (ls @ [j1]))"
    using assms(1) by (auto simp: st1 Append_receipt_def extend_file_def lines_at_def file_of_def split: option.splits)
  let ?h = "hexhash (re_sha env) (last ls)"
  have h: "chain_head (re_sha env) ls = Some ?h" using assms(2) by (simp add: chain_head_def)
  then have "rs_lastHash (archive_step rd d st1) d = Some ?h" using s1(1) by (simp add: archive_frame)
  then have pp: "prev = Some ?h" "payload = cd_marshal (re_json env) (build (''device:'' @ d) prev)" "rs_file st2 d = Some (file_of (ls @ [j1]))"
    using ask s1(2) by (auto simp: receipt_ask_def lastHashLocked_def archive_frame)
  have k2: "check_line env pub q j2 \<longleftrightarrow> q = prev" for q
    using answer_checks(2) [OF ans(1) [unfolded pp(2)] ok(1,2), of pub q] ans(2) pp(1) hexhash_ascii by auto
  have f: "rs_file (snd (Append_receipt (re_sha env) True Appended d j2 st2)) d = Some (file_of ((ls @ [j1]) @ [j2]))"
    using pp(3) by (simp add: Append_file file_of_def)
  have pl: "\<forall>l \<in> set ((ls @ [j1]) @ [j2]). plain_line l" using assms(1,4) ans(3) by (auto simp: lines_at_def)
  have i: "intact env pub None (ls @ [j1])" using assms(3,5) by (simp add: intact_snoc)
  have "\<not> check_line env pub (chain_head (re_sha env) (ls @ [j1])) j2" using k2 pp(1) ok(3) h by (auto simp: chain_head_def)
  then have "verify_loop env pub ((ls @ [j1]) @ [j2]) 0 None = Inr (0 + int (length (ls @ [j1])) + 1)"
    using pl dropCR_plain [of j2] by (intro verify_loop_break [OF _ i]) (auto simp: plain_line_def)
  then show ?thesis using f scan_file [OF pl] by (simp add: Verify_chain_def)
qed

end
