(* ===== verification/Glob.thy ===== *)
theory Glob
  imports GoText
begin

text \<open>
  Which permission decisions get a receipt: \<open>internal/receipt/match.go\<close>. A shell pattern is turned
  into the text of a regular expression, which \<open>regexp\<close> compiles and matches. The parser below is
  \<open>regexp/syntax\<close> on the texts this translation can produce: literals, escapes, a dot with or
  without a star, and bracket expressions. Patterns and targets are ASCII, where bytes are runes; the
  cache of compiled patterns does not change any result and is left out.
\<close>

subsection \<open>Patterns to regular expressions\<close>

definition meta_chars :: string where
  "meta_chars = [CHR 0x5C] @ ''.+*?()|[]{}^$''"

definition backslash :: char where "backslash = CHR 0x5C"

definition QuoteMeta :: "char \<Rightarrow> string" where
  "QuoteMeta c = (if c \<in> set meta_chars then [backslash, c] else [c])"

text \<open>A bracket expression after its opening bracket: negated or not, its text and what follows it.\<close>

definition class_split :: "string \<Rightarrow> (bool \<times> string \<times> string) option" where
  "class_split rs =
    (let neg = (rs \<noteq> [] \<and> (hd rs = CHR ''^'' \<or> hd rs = CHR ''!''));
         body = (if neg then tl rs else rs);
         first = (if body \<noteq> [] \<and> hd body = CHR '']'' then 1 else 0);
         inner = takeWhile (\<lambda>c. c \<noteq> CHR '']'') (drop first body);
         rest = dropWhile (\<lambda>c. c \<noteq> CHR '']'') (drop first body)
     in if rest = [] then None else Some (neg, take first body @ inner, tl rest))"

definition escape_class :: "string \<Rightarrow> string" where
  "escape_class cls = concat (map (\<lambda>c. if c = backslash then [backslash, backslash] else [c]) cls)"

lemma tl_dropWhile_shorter: "dropWhile P (drop n xs) \<noteq> [] \<Longrightarrow> length (tl (dropWhile P (drop n xs))) < length xs"
  using length_dropWhile_le [of P "drop n xs"] by (cases "dropWhile P (drop n xs)") auto

lemma class_split_shorter:
  assumes "class_split rs = Some (neg, cls, rest)"
  shows "length rest < length rs"
proof -
  let ?P = "\<lambda>c. c \<noteq> CHR '']''"
  let ?body = "if rs \<noteq> [] \<and> (hd rs = CHR ''^'' \<or> hd rs = CHR ''!'') then tl rs else rs"
  let ?first = "if ?body \<noteq> [] \<and> hd ?body = CHR '']'' then 1 else 0 :: nat"
  have "dropWhile ?P (drop ?first ?body) \<noteq> []" "rest = tl (dropWhile ?P (drop ?first ?body))"
    using assms unfolding class_split_def Let_def by (meson option.distinct(1), metis option.inject option.distinct(1) prod.inject)
  then have "length rest < length ?body" using tl_dropWhile_shorter [of ?P ?first ?body] by blast
  also have "length ?body \<le> length rs" by simp
  finally show ?thesis .
qed

function glob_loop :: "string \<Rightarrow> string option" where
  "glob_loop rs =
    (case rs of
       [] \<Rightarrow> Some ''$''
     | r # rs1 \<Rightarrow>
         if r = CHR ''*'' then map_option ((@) ''.*'') (glob_loop rs1)
         else if r = CHR ''?'' then map_option ((@) ''.'') (glob_loop rs1)
         else if r = CHR ''['' then
           (case class_split rs1 of
              None \<Rightarrow> None
            | Some (neg, cls, rest) \<Rightarrow>
                map_option ((@) (''['' @ (if neg then ''^'' else []) @ escape_class cls @ '']'')) (glob_loop rest))
         else map_option ((@) (QuoteMeta r)) (glob_loop rs1))"
  by pat_completeness auto
termination by (relation "measure length") (auto dest: class_split_shorter)

declare glob_loop.simps [simp del]

lemma glob_loop_simps [simp]:
  "glob_loop [] = Some ''$''"
  "glob_loop (CHR ''*'' # rs) = map_option ((@) ''.*'') (glob_loop rs)"
  "glob_loop (CHR ''?'' # rs) = map_option ((@) ''.'') (glob_loop rs)"
  "r \<noteq> CHR ''*'' \<Longrightarrow> r \<noteq> CHR ''?'' \<Longrightarrow> r \<noteq> CHR ''['' \<Longrightarrow> glob_loop (r # rs) = map_option ((@) (QuoteMeta r)) (glob_loop rs)"
  by (subst glob_loop.simps; simp)+

definition globToRegexpSource :: "string \<Rightarrow> string option" where
  "globToRegexpSource pat = map_option ((@) ''^'') (glob_loop pat)"

subsection \<open>Regular expressions\<close>

text \<open>A class is its sign and its ranges of bytes.\<close>

datatype re = StarAny | AnyChar | Lit char | Class bool "(nat \<times> nat) list"

definition posixGroup :: "(string \<times> (nat \<times> nat) list) list" where
  "posixGroup =
    [(''alnum'', [(48, 57), (65, 90), (97, 122)]), (''alpha'', [(65, 90), (97, 122)]), (''ascii'', [(0, 127)]),
     (''blank'', [(9, 9), (32, 32)]), (''cntrl'', [(0, 31), (127, 127)]), (''digit'', [(48, 57)]), (''graph'', [(33, 126)]),
     (''lower'', [(97, 122)]), (''print'', [(32, 126)]), (''punct'', [(33, 47), (58, 64), (91, 96), (123, 126)]),
     (''space'', [(9, 13), (32, 32)]), (''upper'', [(65, 90)]), (''word'', [(48, 57), (65, 90), (95, 95), (97, 122)]),
     (''xdigit'', [(48, 57), (65, 70), (97, 102)])]"

text \<open>The complement of ranges given in order, from \<open>lo\<close> on.\<close>

fun complement :: "nat \<Rightarrow> (nat \<times> nat) list \<Rightarrow> (nat \<times> nat) list" where
  "complement lo [] = [(lo, 255)]"
| "complement lo ((a, b) # rs) = (if lo < a then (lo, a - 1) # complement (Suc b) rs else complement (Suc b) rs)"

fun cut_colon :: "string \<Rightarrow> (string \<times> string) option" where
  "cut_colon (a # b # s) = (if a = CHR '':'' \<and> b = CHR '']'' then Some ([], s) else map_option (\<lambda>(n, r). (a # n, r)) (cut_colon (b # s)))"
| "cut_colon _ = None"

lemma cut_colon_shorter: "cut_colon s = Some (n, r) \<Longrightarrow> length r < length s"
proof (induction s arbitrary: n r rule: cut_colon.induct)
  case (1 a b s)
  then show ?case by (auto split: if_splits)
qed auto

datatype named = NoName | BadName | Named "(nat \<times> nat) list" string

definition parseNamedClass :: "string \<Rightarrow> named" where
  "parseNamedClass t =
    (if 2 < length t \<and> take 2 t = ''[:'' then
       (case cut_colon (drop 2 t) of
          None \<Rightarrow> NoName
        | Some (n, r) \<Rightarrow>
            (case map_of posixGroup n of
               Some g \<Rightarrow> Named g r
             | None \<Rightarrow> if n \<noteq> [] \<and> hd n = CHR ''^'' then
                         (case map_of posixGroup (tl n) of None \<Rightarrow> BadName | Some g \<Rightarrow> Named (complement 0 g) r)
                       else BadName))
     else NoName)"

fun parseClassChar :: "string \<Rightarrow> (nat \<times> string) option" where
  "parseClassChar [] = None"
| "parseClassChar (c # t) = (if c = backslash then (case t of [] \<Rightarrow> None | e # t1 \<Rightarrow> Some (byte_of e, t1)) else Some (byte_of c, t))"

lemma parseClassChar_shorter: "parseClassChar t = Some (b, t1) \<Longrightarrow> length t1 < length t"
  by (cases t) (auto split: if_splits list.splits)

lemma named_shorter: "parseNamedClass t = Named g r \<Longrightarrow> length r < length t"
  by (auto simp: parseNamedClass_def split: if_splits option.splits dest!: cut_colon_shorter)

function parse_items :: "bool \<Rightarrow> string \<Rightarrow> ((nat \<times> nat) list \<times> string) option" where
  "parse_items first t =
    (if t \<noteq> [] \<and> hd t = CHR '']'' \<and> \<not> first then Some ([], tl t)
     else case parseNamedClass t of
       BadName \<Rightarrow> None
     | Named g r \<Rightarrow> map_option (\<lambda>(rs, r1). (g @ rs, r1)) (parse_items False r)
     | NoName \<Rightarrow>
         (case parseClassChar t of
            None \<Rightarrow> None
          | Some (lo, t1) \<Rightarrow>
              if 2 \<le> length t1 \<and> hd t1 = CHR ''-'' \<and> t1 ! 1 \<noteq> CHR '']'' then
                (case parseClassChar (tl t1) of
                   None \<Rightarrow> None
                 | Some (hi, t2) \<Rightarrow> if hi < lo then None else map_option (\<lambda>(rs, r1). ((lo, hi) # rs, r1)) (parse_items False t2))
              else map_option (\<lambda>(rs, r1). ((lo, lo) # rs, r1)) (parse_items False t1)))"
  by pat_completeness auto
termination
  by (relation "measure (length \<circ> snd)") (auto dest!: named_shorter parseClassChar_shorter)

declare parse_items.simps [simp del]

lemma parseNamedClass_Nil [simp]: "parseNamedClass [] = NoName"
  by (simp add: parseNamedClass_def)

lemma parse_items_shorter: "parse_items first t = Some (rs, r) \<Longrightarrow> length r < length t"
proof (induction "length t" arbitrary: first t rs r rule: less_induct)
  case less
  have ih: "length r < length t" if "length t' < length t" "parse_items False t' = Some (q, r)" for t' q
    using less(1) [OF that(1) that(2)] that(1) by simp
  have two: "length t2 < length t" if "parseClassChar t = Some (lo, t1)" "parseClassChar (tl t1) = Some (hi, t2)" for lo t1 hi t2
    using parseClassChar_shorter [OF that(1)] parseClassChar_shorter [OF that(2)] by simp
  from less(2) show ?case
    by (subst (asm) parse_items.simps)
       (auto split: if_splits named.splits option.splits prod.splits intro: ih two named_shorter parseClassChar_shorter)
qed

function parse_body :: "string \<Rightarrow> re list option" where
  "parse_body t =
    (case t of
       [] \<Rightarrow> None
     | c # t1 \<Rightarrow>
         if c = CHR ''$'' then (if t1 = [] then Some [] else None)
         else if c = CHR ''.'' then
           (if t1 \<noteq> [] \<and> hd t1 = CHR ''*'' then map_option ((#) StarAny) (parse_body (tl t1))
            else map_option ((#) AnyChar) (parse_body t1))
         else if c = backslash then
           (case t1 of [] \<Rightarrow> None | e # t2 \<Rightarrow> map_option ((#) (Lit e)) (parse_body t2))
         else if c = CHR ''['' then
           (let neg = (t1 \<noteq> [] \<and> hd t1 = CHR ''^'')
            in case parse_items True (if neg then tl t1 else t1) of
                 None \<Rightarrow> None
               | Some (rs, r) \<Rightarrow> map_option ((#) (Class neg rs)) (parse_body r))
         else map_option ((#) (Lit c)) (parse_body t1))"
  by pat_completeness auto
termination
  by (relation "measure length") (auto dest!: parse_items_shorter split: if_splits)

declare parse_body.simps [simp del]

text \<open>\<open>regexp.Compile\<close> on what the translation gives: an anchor first.\<close>

definition compile_source :: "string \<Rightarrow> re list option" where
  "compile_source src = (case src of [] \<Rightarrow> None | _ # body \<Rightarrow> parse_body body)"

definition newline_char :: char where "newline_char = CHR 0x0A"

fun re_match :: "re list \<Rightarrow> string \<Rightarrow> bool" where
  "re_match [] t \<longleftrightarrow> t = []"
| "re_match (StarAny # rs) [] \<longleftrightarrow> re_match rs []"
| "re_match (StarAny # rs) (c # t) \<longleftrightarrow> re_match rs (c # t) \<or> (c \<noteq> newline_char \<and> re_match (StarAny # rs) t)"
| "re_match (r # rs) [] \<longleftrightarrow> False"
| "re_match (AnyChar # rs) (c # t) \<longleftrightarrow> c \<noteq> newline_char \<and> re_match rs t"
| "re_match (Lit d # rs) (c # t) \<longleftrightarrow> c = d \<and> re_match rs t"
| "re_match (Class neg cs # rs) (c # t) \<longleftrightarrow> list_ex (\<lambda>(lo, hi). lo \<le> byte_of c \<and> byte_of c \<le> hi) cs \<noteq> neg \<and> re_match rs t"

definition compileGlob :: "string \<Rightarrow> re list option" where
  "compileGlob pat = (case globToRegexpSource pat of None \<Rightarrow> None | Some src \<Rightarrow> compile_source src)"

definition matchPattern :: "string \<Rightarrow> string \<Rightarrow> bool" where
  "matchPattern pat target = (case compileGlob pat of None \<Rightarrow> False | Some r \<Rightarrow> re_match r target)"

record ReceiptsConfig =
  rc_Enabled :: bool
  AllowPatterns :: "string list"
  DenyPatterns :: "string list"

definition ShouldReceipt :: "ReceiptsConfig \<Rightarrow> string \<Rightarrow> string \<Rightarrow> bool" where
  "ShouldReceipt cfg toolName detail =
    (if \<not> rc_Enabled cfg then False
     else let target = toolName @ '' '' @ detail
          in if list_ex (\<lambda>pat. matchPattern pat target) (DenyPatterns cfg) then False
             else list_ex (\<lambda>pat. matchPattern pat target) (AllowPatterns cfg))"

subsection \<open>What a pattern means\<close>

text \<open>The meaning the pattern language is given: a star is any run of characters, a question mark any
  one character, and everything else itself. (Bracket expressions are left to the compiled form.)\<close>

fun glob_match :: "string \<Rightarrow> string \<Rightarrow> bool" where
  "glob_match [] t \<longleftrightarrow> t = []"
| "glob_match (p # ps) [] \<longleftrightarrow> p = CHR ''*'' \<and> glob_match ps []"
| "glob_match (p # ps) (c # t) \<longleftrightarrow>
    (if p = CHR ''*'' then glob_match ps (c # t) \<or> glob_match (p # ps) t else (p = CHR ''?'' \<or> c = p) \<and> glob_match ps t)"

lemma ex_drop: "(\<exists>n \<le> length (c # t). P n) \<longleftrightarrow> P 0 \<or> (\<exists>n \<le> length t. P (Suc n))"
  by (metis Suc_le_mono le0 length_Cons not0_implies_Suc)

text \<open>So a star matches any run of characters.\<close>

lemma glob_match_star: "glob_match (CHR ''*'' # ps) t \<longleftrightarrow> (\<exists>n \<le> length t. glob_match ps (drop n t))"
proof (induction t)
  case (Cons c t)
  then show ?case unfolding ex_drop by simp
qed simp

definition glob_re :: "char \<Rightarrow> re" where
  "glob_re c = (if c = CHR ''*'' then StarAny else if c = CHR ''?'' then AnyChar else Lit c)"

lemma glob_re_simps [simp]:
  "glob_re CHR ''*'' = StarAny" "glob_re CHR ''?'' = AnyChar" "c \<noteq> CHR ''*'' \<Longrightarrow> c \<noteq> CHR ''?'' \<Longrightarrow> glob_re c = Lit c"
  by (simp_all add: glob_re_def)

lemma meta_facts: "CHR ''$'' \<in> set meta_chars" "CHR ''.'' \<in> set meta_chars" "backslash \<in> set meta_chars" "CHR ''['' \<in> set meta_chars"
  by (simp_all add: meta_chars_def backslash_def)

lemma glob_loop_head: "glob_loop pat = Some b \<Longrightarrow> hd b \<noteq> CHR ''*''"
  by (subst (asm) glob_loop.simps)
     (auto simp: QuoteMeta_def meta_chars_def backslash_def split: list.splits if_splits option.splits)

lemma glob_loop_total: "CHR ''['' \<notin> set pat \<Longrightarrow> \<exists>b. glob_loop pat = Some b \<and> parse_body b = Some (map glob_re pat)"
proof (induction pat)
  case Nil
  then show ?case by (simp add: parse_body.simps)
next
  case (Cons c pat)
  then obtain b where b: "glob_loop pat = Some b" "parse_body b = Some (map glob_re pat)" by auto
  have ne: "hd b \<noteq> CHR ''*''" by (rule glob_loop_head [OF b(1)])
  consider "c = CHR ''*''" | "c = CHR ''?''" | "c \<noteq> CHR ''*''" "c \<noteq> CHR ''?''" "c \<noteq> CHR ''[''" using Cons.prems by auto
  then show ?case
  proof cases
    case 1
    then show ?thesis using b by (simp add: parse_body.simps [of "CHR ''.'' # x" for x])
  next
    case 2
    then show ?thesis using b ne by (simp add: parse_body.simps [of "CHR ''.'' # x" for x])
  next
    case 3
    then show ?thesis using b meta_facts by (auto simp: QuoteMeta_def parse_body.simps [of "x # y" for x y] backslash_def)
  qed
qed

lemma matchPattern_plain: "CHR ''['' \<notin> set pat \<Longrightarrow> matchPattern pat target \<longleftrightarrow> re_match (map glob_re pat) target"
  using glob_loop_total [of pat] by (auto simp: matchPattern_def compileGlob_def globToRegexpSource_def compile_source_def)

lemma re_match_star:
  "re_match (StarAny # rs) t \<longleftrightarrow> (\<exists>n \<le> length t. newline_char \<notin> set (take n t) \<and> re_match rs (drop n t))"
proof (induction t)
  case (Cons c t)
  then show ?case unfolding ex_drop by auto
qed simp

lemma re_glob: "newline_char \<notin> set t \<Longrightarrow> re_match (map glob_re pat) t \<longleftrightarrow> glob_match pat t"
proof (induction pat arbitrary: t)
  case (Cons p pat)
  have d: "newline_char \<notin> set (drop n t)" "newline_char \<notin> set (take n t)" for n
    using Cons.prems by (auto dest: in_set_dropD in_set_takeD)
  show ?case
  proof (cases "p = CHR ''*''")
    case True
    then show ?thesis using Cons.IH [OF d(1)] d(2) by (simp add: re_match_star glob_match_star)
  next
    case False
    then show ?thesis using Cons.prems Cons.IH [of "tl t"] by (cases t; cases "p = CHR ''?''") auto
  qed
qed simp

lemma re_newline: "re_match (map glob_re pat) t \<Longrightarrow> newline_char \<in> set t \<Longrightarrow> newline_char \<in> set pat"
proof (induction pat arbitrary: t)
  case (Cons p pat)
  show ?case
  proof (cases "p = CHR ''*''")
    case True
    with Cons.prems(1) obtain n where n: "n \<le> length t" "newline_char \<notin> set (take n t)" "re_match (map glob_re pat) (drop n t)"
      by (auto simp: re_match_star)
    have "newline_char \<in> set (take n t) \<union> set (drop n t)" using Cons.prems(2) by (metis append_take_drop_id set_append)
    then show ?thesis using Cons.IH [OF n(3)] n(2) by auto
  next
    case False
    then show ?thesis using Cons.prems Cons.IH [of "tl t"] by (cases t; cases "p = CHR ''?''") auto
  qed
qed simp

text \<open>On one line of text the compiled expression means what the pattern says: a pattern without a
  bracket matches exactly the targets the pattern language gives it, slashes included, and the decision
  is the deny patterns first and then the allow patterns.\<close>

theorem receipt_patterns:
  assumes "\<forall>pat \<in> set (DenyPatterns cfg @ AllowPatterns cfg). CHR ''['' \<notin> set pat"
    and "newline_char \<notin> set (toolName @ detail)"
  shows "ShouldReceipt cfg toolName detail \<longleftrightarrow> rc_Enabled cfg \<and>
    \<not> (\<exists>pat \<in> set (DenyPatterns cfg). glob_match pat (toolName @ '' '' @ detail)) \<and>
    (\<exists>pat \<in> set (AllowPatterns cfg). glob_match pat (toolName @ '' '' @ detail))"
proof -
  have n: "newline_char \<notin> set (toolName @ '' '' @ detail)" using assms(2) by (auto simp: newline_char_def)
  have m: "matchPattern pat (toolName @ '' '' @ detail) \<longleftrightarrow> glob_match pat (toolName @ '' '' @ detail)"
    if "pat \<in> set (DenyPatterns cfg) \<union> set (AllowPatterns cfg)" for pat
    using that assms(1) re_glob [OF n] by (auto simp: matchPattern_plain)
  have e: "list_ex (\<lambda>pat. matchPattern pat (toolName @ '' '' @ detail)) ps \<longleftrightarrow> (\<exists>pat \<in> set ps. glob_match pat (toolName @ '' '' @ detail))"
    if "set ps \<subseteq> set (DenyPatterns cfg) \<union> set (AllowPatterns cfg)" for ps
    using that m by (auto simp: list_ex_iff)
  show ?thesis unfolding ShouldReceipt_def Let_def e [OF Un_upper1] e [OF Un_upper2] by simp
qed

definition ex_receipts :: ReceiptsConfig where
  "ex_receipts = \<lparr>rc_Enabled = True, AllowPatterns = [''*rm -rf*''], DenyPatterns = [''*--dry*'']\<rparr>"

theorem receipt_patterns_witness:
  "ShouldReceipt ex_receipts ''bash'' ''rm -rf ./build''"
proof -
  have "glob_match ''*rm -rf*'' ''bash rm -rf ./build''"
    by simp
  moreover have "\<not> glob_match ''*--dry*'' ''bash rm -rf ./build''" by simp
  ultimately show ?thesis using receipt_patterns [of ex_receipts "''bash''" "''rm -rf ./build''"]
    by (simp add: ex_receipts_def newline_char_def)
qed

text \<open>No pattern without a bracket matches a target with a newline in it (unless the pattern has one
  too): a decision about a command of several lines gets no receipt from a star pattern, and is not
  excluded by one either.\<close>

theorem star_stops_at_newline:
  assumes "newline_char \<in> set (toolName @ detail)"
    and "\<forall>pat \<in> set (AllowPatterns cfg). CHR ''['' \<notin> set pat \<and> newline_char \<notin> set pat"
  shows "\<not> ShouldReceipt cfg toolName detail"
proof -
  have "\<not> matchPattern pat (toolName @ '' '' @ detail)" if "pat \<in> set (AllowPatterns cfg)" for pat
    using re_newline [of pat "toolName @ '' '' @ detail"] assms that by (auto simp: matchPattern_plain)
  then show ?thesis by (auto simp: ShouldReceipt_def Let_def list_ex_iff)
qed

theorem star_stops_at_newline_witness:
  "\<not> ShouldReceipt ex_receipts ''bash'' (''cd /srv'' @ newline_char # ''rm -rf data'') \<and>
   glob_match ''*rm -rf*'' (''bash cd /srv'' @ newline_char # ''rm -rf data'')"
proof -
  have "glob_match ''*rm -rf*'' (''bash cd /srv'' @ newline_char # ''rm -rf data'')"
    by (simp add: newline_char_def)
  then show ?thesis
    using star_stops_at_newline [of "''bash''" "''cd /srv'' @ newline_char # ''rm -rf data''" ex_receipts]
    by (simp add: ex_receipts_def newline_char_def)
qed

end
