(* ===== verification/Pairing.thy ===== *)
theory Pairing
  imports GoText AtomicWrite
begin

text \<open>
  Short pairing codes: \<open>internal/auth/paircode.go\<close>.

  The store is the list of records in its file; every operation reads the whole file, computes and
  writes it back under a lock shared by all processes, so an operation is one step on that list.
  \<open>loaded\<close> says whether the read succeeds, \<open>saved\<close> is the outcome of the write, \<open>now\<close> is the
  clock, \<open>sha\<close> is SHA-256 in hex and \<open>unicode\<close> normalises a string with non-ASCII bytes.
\<close>

subsection \<open>Codes\<close>

definition pairCodeAlphabet :: string where
  "pairCodeAlphabet = ''23456789ABCDEFGHJKLMNPQRSTUVWXYZ''"

definition DefaultPairCodeTTL :: duration where "DefaultPairCodeTTL = 5 * minute"
definition MaxPairCodeTTL :: duration where "MaxPairCodeTTL = 60 * minute"
definition pairCodeLen :: nat where "pairCodeLen = 8"

definition is_separator :: "char \<Rightarrow> bool" where
  "is_separator c \<longleftrightarrow> c \<in> {CHR ''-'', CHR '' '', CHR ''_''}"

definition NormalizePairCode :: "(string \<Rightarrow> string) \<Rightarrow> string \<Rightarrow> string" where
  "NormalizePairCode unicode raw =
    (if is_ascii raw then filter (\<lambda>c. \<not> is_separator c) (map upper_char (TrimSpace raw)) else unicode raw)"

definition FormatPairCode :: "(string \<Rightarrow> string) \<Rightarrow> string \<Rightarrow> string" where
  "FormatPairCode unicode raw =
    (let code = NormalizePairCode unicode raw
     in if length code \<noteq> pairCodeLen then code else take 4 code @ ''-'' @ drop 4 code)"

definition HashPairCode :: "(string \<Rightarrow> string) \<Rightarrow> (string \<Rightarrow> string) \<Rightarrow> string \<Rightarrow> string" where
  "HashPairCode sha unicode code = sha (NormalizePairCode unicode code)"

text \<open>
  Rejection sampling: \<open>reads\<close> are the outcomes of \<open>rand.Read\<close>, each 16 random bytes or a
  failure.
\<close>

fun fill_code :: "nat list \<Rightarrow> string \<Rightarrow> string" where
  "fill_code [] out = out"
| "fill_code (b # bs) out =
    (if pairCodeLen \<le> length out then out
     else if 256 - 256 mod length pairCodeAlphabet \<le> b then fill_code bs out
     else fill_code bs (out @ [pairCodeAlphabet ! (b mod length pairCodeAlphabet)]))"

datatype pc_error = ErrInvalidPairCode | ErrExpiredPairCode | ErrRandom | ErrLoad | ErrSave

fun generate_loop :: "nat list option list \<Rightarrow> string \<Rightarrow> (pc_error + string) option" where
  "generate_loop reads out =
    (if pairCodeLen \<le> length out then Some (Inr out)
     else case reads of
       [] \<Rightarrow> None
     | None # rs \<Rightarrow> Some (Inl ErrRandom)
     | Some buf # rs \<Rightarrow> generate_loop rs (fill_code buf out))"

declare generate_loop.simps [simp del]

definition generatePairCode :: "nat list option list \<Rightarrow> (pc_error + string) option" where
  "generatePairCode reads = generate_loop reads []"

subsection \<open>The store\<close>

record pairCodeRecord =
  CodeHash :: string
  pc_Name :: string
  pc_CreatedAt :: gotime
  pc_ExpiresAt :: gotime

record PairCodeInfo =
  pi_Display :: string
  pi_Code :: string
  pi_Name :: string
  pi_ExpiresAt :: gotime

record TakenPairCode =
  tk_Name :: string
  tk_ExpiresAt :: gotime
  tk_codeHash :: string
  tk_createdAt :: gotime

definition purgeExpired :: "gotime \<Rightarrow> pairCodeRecord list \<Rightarrow> pairCodeRecord list" where
  "purgeExpired now codes = filter (\<lambda>c. now < pc_ExpiresAt c \<or> now = pc_ExpiresAt c) codes"

definition clamp_ttl :: "duration \<Rightarrow> duration" where
  "clamp_ttl ttl =
    (let t = (if ttl \<le> 0 then DefaultPairCodeTTL else ttl)
     in if MaxPairCodeTTL < t then MaxPairCodeTTL else t)"

text \<open>\<open>Create\<close> reads the clock twice: to purge, and for the new record.\<close>

definition Create_code ::
  "(string \<Rightarrow> string) \<Rightarrow> (string \<Rightarrow> string) \<Rightarrow> bool \<Rightarrow> write_result \<Rightarrow> gotime \<Rightarrow> gotime \<Rightarrow> pc_error + string \<Rightarrow> string \<Rightarrow> duration \<Rightarrow>
    pairCodeRecord list \<Rightarrow> (pc_error + PairCodeInfo) \<times> pairCodeRecord list" where
  "Create_code sha unicode loaded saved purge_at now generated name ttl codes =
    (let nm = (if name = [] then ''device'' else name)
     in case generated of
       Inl e \<Rightarrow> (Inl e, codes)
     | Inr code \<Rightarrow>
         if \<not> loaded then (Inl ErrLoad, codes)
         else let rec = \<lparr>CodeHash = HashPairCode sha unicode code, pc_Name = nm, pc_CreatedAt = now,
                         pc_ExpiresAt = now + clamp_ttl ttl\<rparr>
              in (if \<not> ok_write saved then Inl ErrSave
                  else Inr \<lparr>pi_Display = FormatPairCode unicode code, pi_Code = code, pi_Name = nm,
                            pi_ExpiresAt = pc_ExpiresAt rec\<rparr>,
                  after_write saved codes (purgeExpired purge_at codes @ [rec])))"

fun delete_first :: "('a \<Rightarrow> bool) \<Rightarrow> 'a list \<Rightarrow> 'a list" where
  "delete_first p [] = []"
| "delete_first p (x # xs) = (if p x then xs else x # delete_first p xs)"

definition well_formed :: "string \<Rightarrow> bool" where
  "well_formed code \<longleftrightarrow> length code = pairCodeLen \<and> list_all (\<lambda>c. c \<in> set pairCodeAlphabet) code"

definition Take ::
  "(string \<Rightarrow> string) \<Rightarrow> (string \<Rightarrow> string) \<Rightarrow> bool \<Rightarrow> write_result \<Rightarrow> gotime \<Rightarrow> string \<Rightarrow>
    pairCodeRecord list \<Rightarrow> (pc_error + TakenPairCode) \<times> pairCodeRecord list" where
  "Take sha unicode loaded saved now raw codes =
    (let code = NormalizePairCode unicode raw
     in if \<not> well_formed code then (Inl ErrInvalidPairCode, codes)
        else if \<not> loaded then (Inl ErrLoad, codes)
        else let hash = HashPairCode sha unicode code
             in case find (\<lambda>r. CodeHash r = hash) codes of
               None \<Rightarrow> (Inl ErrInvalidPairCode, after_write saved codes (purgeExpired now codes))
             | Some rec \<Rightarrow>
                 let rest = purgeExpired now (delete_first (\<lambda>r. CodeHash r = hash) codes)
                 in if pc_ExpiresAt rec < now then (Inl ErrExpiredPairCode, after_write saved codes rest)
                    else (if \<not> ok_write saved then Inl ErrSave
                          else Inr \<lparr>tk_Name = pc_Name rec, tk_ExpiresAt = pc_ExpiresAt rec,
                                    tk_codeHash = CodeHash rec, tk_createdAt = pc_CreatedAt rec\<rparr>,
                          after_write saved codes rest))"

definition Claim_code ::
  "(string \<Rightarrow> string) \<Rightarrow> (string \<Rightarrow> string) \<Rightarrow> bool \<Rightarrow> write_result \<Rightarrow> gotime \<Rightarrow> string \<Rightarrow>
    pairCodeRecord list \<Rightarrow> (pc_error + string) \<times> pairCodeRecord list" where
  "Claim_code sha unicode loaded saved now raw codes =
    (case Take sha unicode loaded saved now raw codes of
       (Inl e, c) \<Rightarrow> (Inl e, c) | (Inr tk, c) \<Rightarrow> (Inr (tk_Name tk), c))"

definition Restore ::
  "bool \<Rightarrow> write_result \<Rightarrow> gotime \<Rightarrow> TakenPairCode \<Rightarrow> pairCodeRecord list \<Rightarrow> (pc_error + unit) \<times> pairCodeRecord list" where
  "Restore loaded saved now taken codes =
    (if tk_codeHash taken = [] then (Inr (), codes)
     else if \<not> loaded then (Inl ErrLoad, codes)
     else if \<not> IsZero (tk_ExpiresAt taken) \<and> tk_ExpiresAt taken < now
     then (if ok_write saved then Inr () else Inl ErrSave, after_write saved codes (purgeExpired now codes))
     else if list_ex (\<lambda>r. CodeHash r = tk_codeHash taken) codes then (Inr (), codes)
     else (if ok_write saved then Inr () else Inl ErrSave,
           after_write saved codes (purgeExpired now (codes @ [\<lparr>CodeHash = tk_codeHash taken, pc_Name = tk_Name taken,
             pc_CreatedAt = tk_createdAt taken, pc_ExpiresAt = tk_ExpiresAt taken\<rparr>]))))"

subsection \<open>Generated codes\<close>

lemma fill_code_well:
  assumes "list_all (\<lambda>c. c \<in> set pairCodeAlphabet) out" "length out \<le> pairCodeLen"
  shows "list_all (\<lambda>c. c \<in> set pairCodeAlphabet) (fill_code bs out) \<and> length (fill_code bs out) \<le> pairCodeLen"
  using assms
proof (induction bs out rule: fill_code.induct)
  case (2 b bs out)
  have "pairCodeAlphabet ! (b mod length pairCodeAlphabet) \<in> set pairCodeAlphabet"
    by (intro nth_mem mod_less_divisor) (simp add: pairCodeAlphabet_def)
  with 2 show ?case by simp
qed simp

lemma fill_code_length:
  assumes "\<forall>b \<in> set bs. b < 256" "length out \<le> pairCodeLen"
  shows "length (fill_code bs out) = min pairCodeLen (length out + length bs)"
  using assms by (induction bs out rule: fill_code.induct) (auto simp: pairCodeAlphabet_def pairCodeLen_def)

lemma generate_loop_well:
  assumes "generate_loop reads out = Some (Inr code)"
    and "list_all (\<lambda>c. c \<in> set pairCodeAlphabet) out" "length out \<le> pairCodeLen"
  shows "well_formed code"
  using assms
proof (induction reads out rule: generate_loop.induct)
  case (1 reads out)
  show ?case
  proof (cases "pairCodeLen \<le> length out")
    case True
    with 1 show ?thesis by (simp add: generate_loop.simps well_formed_def)
  next
    case False
    with 1 fill_code_well show ?thesis
      by (auto simp: generate_loop.simps [of reads out] split: list.splits option.splits)
  qed
qed

lemma generated_well_formed: "generatePairCode reads = Some (Inr code) \<Longrightarrow> well_formed code"
  unfolding generatePairCode_def by (erule generate_loop_well) simp_all

lemma alphabet_bytes:
  assumes "c \<in> set pairCodeAlphabet"
  shows "48 < byte_of c \<and> byte_of c < 91 \<and> upper_char c = c \<and> upper_char (lower_char c) = c \<and>
    \<not> is_separator c \<and> \<not> is_separator (lower_char c) \<and> 48 < byte_of (lower_char c) \<and> byte_of (lower_char c) < 123"
proof -
  have "\<forall>c \<in> set pairCodeAlphabet. 48 < byte_of c \<and> byte_of c < 91 \<and> upper_char c = c \<and> upper_char (lower_char c) = c \<and>
    \<not> is_separator c \<and> \<not> is_separator (lower_char c) \<and> 48 < byte_of (lower_char c) \<and> byte_of (lower_char c) < 123"
    by code_simp
  with assms show ?thesis by blast
qed

lemma set_code: "well_formed code \<Longrightarrow> c \<in> set code \<Longrightarrow> c \<in> set pairCodeAlphabet"
  by (simp add: well_formed_def list_all_iff)

lemma filter_separator_code: "well_formed code \<Longrightarrow> filter (\<lambda>c. \<not> is_separator c) code = code"
  using set_code alphabet_bytes by (auto simp: filter_id_conv)

lemma upper_code:
  assumes "well_formed code"
  shows "map upper_char code = code" "map upper_char (map lower_char code) = code"
  using set_code [OF assms] alphabet_bytes by (auto intro: map_idI simp: o_def)

text \<open>Every spelling of a code people are shown or type: plain, with its hyphen, in lower case.\<close>

lemma normalize_spellings:
  assumes "well_formed code"
  shows "NormalizePairCode unicode code = code"
    "NormalizePairCode unicode (take 4 code @ ''-'' @ drop 4 code) = code"
    "NormalizePairCode unicode (map lower_char code) = code"
    "NormalizePairCode unicode (map lower_char (take 4 code @ ''-'' @ drop 4 code)) = code"
proof -
  have len: "length code = 8" using assms by (simp add: well_formed_def pairCodeLen_def)
  have graphic: "\<forall>c \<in> set s. 32 < byte_of c \<and> byte_of c < 127"
    if "set s \<subseteq> insert CHR ''-'' (set code \<union> lower_char ` set code)" for s
  proof
    fix c assume "c \<in> set s"
    with that consider "c = CHR ''-''" | "c \<in> set code" | d where "d \<in> set code" "c = lower_char d" by auto
    then show "32 < byte_of c \<and> byte_of c < 127"
    proof cases
      case 1
      then show ?thesis by (simp add: byte_of_def)
    next
      case 2
      with set_code [OF assms] have "c \<in> set pairCodeAlphabet" by blast
      from alphabet_bytes [OF this] show ?thesis by linarith
    next
      case 3
      with set_code [OF assms] have "d \<in> set pairCodeAlphabet" by blast
      from alphabet_bytes [OF this] 3 show ?thesis by simp
    qed
  qed
  have hy: "upper_char CHR ''-'' = CHR ''-''" "lower_char CHR ''-'' = CHR ''-''" "is_separator CHR ''-''"
    by code_simp+
  have norm: "NormalizePairCode unicode s = filter (\<lambda>c. \<not> is_separator c) (map upper_char s)"
    if "set s \<subseteq> insert CHR ''-'' (set code \<union> lower_char ` set code)" for s
  proof -
    have "is_ascii s" using graphic [OF that] by (fastforce simp: is_ascii_def list_all_iff)
    then show ?thesis
      using TrimSpace_solid [OF graphic_solid [OF graphic [OF that]]] by (simp add: NormalizePairCode_def)
  qed
  note [simp] = filter_separator_code [OF assms] upper_code [OF assms]
  have sub: "set (take 4 code) \<subseteq> set code" "set (drop 4 code) \<subseteq> set code"
    by (simp_all add: set_take_subset set_drop_subset)
  have split: "filter (\<lambda>c. \<not> is_separator c) (take 4 code) @ filter (\<lambda>c. \<not> is_separator c) (drop 4 code) = code"
    using filter_separator_code [OF assms] by (metis append_take_drop_id filter_append)
  have um: "map upper_char (take 4 code) = take 4 code" "map upper_char (drop 4 code) = drop 4 code"
    using upper_code(1) [OF assms] by (simp_all add: take_map [symmetric] drop_map [symmetric])
  have lm: "map upper_char (map lower_char (take 4 code)) = take 4 code"
    "map upper_char (map lower_char (drop 4 code)) = drop 4 code"
    using upper_code(2) [OF assms] by (metis take_map, metis drop_map)
  show "NormalizePairCode unicode code = code" by (subst norm) auto
  show "NormalizePairCode unicode (take 4 code @ ''-'' @ drop 4 code) = code"
    using sub by (subst norm) (auto simp: hy um split)
  show "NormalizePairCode unicode (map lower_char code) = code" by (subst norm) (auto simp del: map_map)
  show "NormalizePairCode unicode (map lower_char (take 4 code @ ''-'' @ drop 4 code)) = code"
    using sub by (subst norm) (auto simp: hy lm split simp del: map_map)
qed

subsection \<open>Using a code\<close>

interpretation codes: expiring purgeExpired "\<lambda>codes r. r \<in> set codes" "\<lambda>t r. pc_ExpiresAt r < t"
  by unfold_locales (auto simp: purgeExpired_def)

definition absent :: "string \<Rightarrow> pairCodeRecord list \<Rightarrow> bool" where
  "absent hash codes \<longleftrightarrow> (\<forall>r \<in> set codes. CodeHash r \<noteq> hash)"

definition hashes_distinct :: "pairCodeRecord list \<Rightarrow> bool" where
  "hashes_distinct codes \<longleftrightarrow> distinct (map CodeHash codes)"

lemma absent_purge: "absent hash codes \<Longrightarrow> absent hash (purgeExpired now codes)"
  by (simp add: absent_def purgeExpired_def)

lemma find_absent: "find (\<lambda>r. CodeHash r = hash) codes = None \<longleftrightarrow> absent hash codes"
  by (auto simp: find_None_iff absent_def)

lemma set_delete_first: "set (delete_first p xs) \<subseteq> set xs"
  by (induction xs) auto

lemma absent_delete_first:
  "hashes_distinct codes \<Longrightarrow> absent hash (delete_first (\<lambda>r. CodeHash r = hash) codes)"
  unfolding hashes_distinct_def absent_def
proof (induction codes)
  case (Cons x xs)
  then show ?case by (auto simp: image_iff)
qed simp

lemma distinct_delete_first: "distinct (map f xs) \<Longrightarrow> distinct (map f (delete_first p xs))"
proof (induction xs)
  case (Cons x xs)
  then show ?case using set_delete_first [of p xs] by auto
qed simp

lemma distinct_purge: "hashes_distinct codes \<Longrightarrow> hashes_distinct (purgeExpired now codes)"
  unfolding hashes_distinct_def purgeExpired_def by (rule distinct_map_filter)

lemma Take_success:
  assumes "Take sha unicode loaded saved now raw codes = (Inr tk, codes')"
  obtains r where "find (\<lambda>r. CodeHash r = HashPairCode sha unicode (NormalizePairCode unicode raw)) codes = Some r"
    "now \<le> pc_ExpiresAt r" "tk_codeHash tk = HashPairCode sha unicode (NormalizePairCode unicode raw)"
    "tk = \<lparr>tk_Name = pc_Name r, tk_ExpiresAt = pc_ExpiresAt r, tk_codeHash = CodeHash r, tk_createdAt = pc_CreatedAt r\<rparr>"
    "codes' = purgeExpired now (delete_first (\<lambda>r. CodeHash r = HashPairCode sha unicode (NormalizePairCode unicode raw)) codes)"
proof -
  let ?h = "HashPairCode sha unicode (NormalizePairCode unicode raw)"
  obtain r where r: "find (\<lambda>r. CodeHash r = ?h) codes = Some r"
    using assms by (auto simp: Take_def Let_def split: if_splits option.splits)
  then have "CodeHash r = ?h" by (auto simp: find_Some_iff)
  with r that [of r] assms show ?thesis
    by (auto simp: Take_def Let_def ok_write_def split: if_splits)
qed

lemma Take_absent:
  assumes "absent (HashPairCode sha unicode (NormalizePairCode unicode raw)) codes"
  shows "\<exists>e. fst (Take sha unicode loaded saved now raw codes) = Inl e"
proof -
  have "find (\<lambda>r. CodeHash r = HashPairCode sha unicode (NormalizePairCode unicode raw)) codes = None"
    using assms by (simp only: find_absent)
  then show ?thesis by (simp add: Take_def Let_def)
qed

text \<open>Everything that may happen to the file after a code was taken, other than issuing or
  restoring that very code.\<close>

inductive pc_later :: "(string \<Rightarrow> string) \<Rightarrow> (string \<Rightarrow> string) \<Rightarrow> string \<Rightarrow> pairCodeRecord list \<Rightarrow> pairCodeRecord list \<Rightarrow> bool"
  for sha unicode hash where
  pl_refl: "pc_later sha unicode hash c c"
| pl_take: "pc_later sha unicode hash c0 c \<Longrightarrow>
    pc_later sha unicode hash c0 (snd (Take sha unicode loaded saved now raw c))"
| pl_create: "pc_later sha unicode hash c0 c \<Longrightarrow>
    (\<forall>code. generated = Inr code \<longrightarrow> HashPairCode sha unicode code \<noteq> hash) \<Longrightarrow>
    pc_later sha unicode hash c0 (snd (Create_code sha unicode loaded saved t now generated name ttl c))"
| pl_restore: "pc_later sha unicode hash c0 c \<Longrightarrow> tk_codeHash taken \<noteq> hash \<Longrightarrow>
    pc_later sha unicode hash c0 (snd (Restore loaded saved now taken c))"

lemma absent_subset: "absent hash codes \<Longrightarrow> set codes' \<subseteq> set codes \<Longrightarrow> absent hash codes'"
  by (auto simp: absent_def)

lemma set_purge: "set (purgeExpired now codes) \<subseteq> set codes"
  by (auto simp: purgeExpired_def)

lemma Take_subset: "set (snd (Take sha unicode loaded saved now raw codes)) \<subseteq> set codes"
proof -
  have "set (purgeExpired now (delete_first p codes)) \<subseteq> set codes" for p
    using set_purge set_delete_first by (metis subset_trans)
  then show ?thesis using set_purge by (auto simp: Take_def Let_def after_write_def split: option.splits)
qed

lemma pc_later_absent: "pc_later sha unicode hash c0 c \<Longrightarrow> absent hash c0 \<Longrightarrow> absent hash c"
proof (induction rule: pc_later.induct)
  case (pl_take c0 c loaded saved now raw)
  then show ?case using absent_subset Take_subset by blast
next
  case (pl_create c0 c generated loaded saved t now name ttl)
  then show ?case
    by (auto simp: Create_code_def Let_def absent_def purgeExpired_def after_write_def split: sum.splits if_splits)
next
  case (pl_restore c0 c taken loaded saved now)
  then show ?case by (auto simp: Restore_def absent_def purgeExpired_def after_write_def)
qed simp

subsection \<open>Properties\<close>

lemma HashPairCode_normal:
  "well_formed code \<Longrightarrow> HashPairCode sha unicode code = sha code"
  by (simp add: HashPairCode_def normalize_spellings)

lemma delete_first_append:
  "\<forall>x \<in> set xs. \<not> p x \<Longrightarrow> p y \<Longrightarrow> delete_first p (xs @ [y]) = xs"
  by (induction xs) auto

lemma Take_last:
  assumes wf: "well_formed code" and norm: "NormalizePairCode unicode raw = code"
    and fresh: "absent (sha code) codes" and hash: "CodeHash r = sha code" and live: "now \<le> pc_ExpiresAt r"
  shows "Take sha unicode True Written now raw (codes @ [r]) =
    (Inr \<lparr>tk_Name = pc_Name r, tk_ExpiresAt = pc_ExpiresAt r, tk_codeHash = sha code, tk_createdAt = pc_CreatedAt r\<rparr>,
     purgeExpired now codes)"
proof -
  have "find (\<lambda>r. CodeHash r = sha code) codes = None" using fresh by (simp add: find_absent)
  then have "find (\<lambda>r. CodeHash r = sha code) (codes @ [r]) = Some r"
    using hash by (induction codes) (auto split: if_splits)
  moreover have "delete_first (\<lambda>r. CodeHash r = sha code) (codes @ [r]) = codes"
    using fresh hash by (intro delete_first_append) (auto simp: absent_def)
  ultimately show ?thesis
    using wf norm hash live by (simp add: Take_def Let_def HashPairCode_normal)
qed

lemma Take_after_Restore:
  assumes "hashes_distinct codes" "Take sha unicode True Written t raw codes = (Inr tk, codes1)"
    and "t \<le> t1" "t1 \<le> tk_ExpiresAt tk" "t2 \<le> tk_ExpiresAt tk" "tk_codeHash tk \<noteq> []"
    and "NormalizePairCode unicode raw2 = NormalizePairCode unicode raw"
  shows "fst (Take sha unicode True Written t2 raw2 (snd (Restore True Written t1 tk codes1))) = Inr tk"
proof -
  let ?code = "NormalizePairCode unicode raw" let ?h = "HashPairCode sha unicode ?code"
  obtain r where r: "tk_codeHash tk = ?h" "codes1 = purgeExpired t (delete_first (\<lambda>r. CodeHash r = ?h) codes)"
    by (rule Take_success [OF assms(2)])
  have wf: "well_formed ?code" using assms(2) by (auto simp: Take_def Let_def split: if_splits)
  have h: "?h = sha ?code" by (rule HashPairCode_normal [OF wf])
  have ab: "absent (sha ?code) codes1" unfolding r(2) h by (intro absent_purge absent_delete_first assms(1))
  let ?r = "\<lparr>CodeHash = tk_codeHash tk, pc_Name = tk_Name tk, pc_CreatedAt = tk_createdAt tk, pc_ExpiresAt = tk_ExpiresAt tk\<rparr>"
  have "snd (Restore True Written t1 tk codes1) = purgeExpired t1 codes1 @ [?r]"
    using assms(4,6) ab r(1) h by (auto simp: Restore_def list_ex_iff absent_def purgeExpired_def)
  moreover have "Take sha unicode True Written t2 raw2 (purgeExpired t1 codes1 @ [?r]) =
      (Inr \<lparr>tk_Name = pc_Name ?r, tk_ExpiresAt = pc_ExpiresAt ?r, tk_codeHash = sha ?code, tk_createdAt = pc_CreatedAt ?r\<rparr>,
       purgeExpired t2 (purgeExpired t1 codes1))"
    using wf assms(5,7) ab r(1) h by (intro Take_last absent_purge) auto
  ultimately show ?thesis using r(1) h by simp
qed

lemma Take_twice:
  assumes "hashes_distinct codes" "Take sha unicode loaded saved now raw codes = (Inr tk, codes1)"
    and "NormalizePairCode unicode raw2 = NormalizePairCode unicode raw"
  shows "\<exists>e. fst (Take sha unicode loaded2 saved2 now2 raw2 codes1) = Inl e"
proof -
  let ?h = "HashPairCode sha unicode (NormalizePairCode unicode raw)"
  obtain r where "codes1 = purgeExpired now (delete_first (\<lambda>r. CodeHash r = ?h) codes)"
    by (rule Take_success [OF assms(2)])
  then have "absent ?h codes1" by (simp add: absent_purge absent_delete_first assms(1))
  then show ?thesis using Take_absent assms(3) by metis
qed

text \<open>C28: Generating a code ends: when the first read of random bytes succeeds the code is made from
  it alone, and every code made has eight characters of the alphabet, whatever was read.\<close>

theorem generate_terminates:
  assumes "length buf = 2 * pairCodeLen" "\<forall>b \<in> set buf. b < 256"
  shows "\<exists>code. generatePairCode (Some buf # reads) = Some (Inr code) \<and> well_formed code"
proof -
  have "length (fill_code buf []) = pairCodeLen"
    using fill_code_length [of buf "[]"] assms by (simp add: pairCodeLen_def)
  then have "generatePairCode (Some buf # reads) = Some (Inr (fill_code buf []))"
    by (simp add: generatePairCode_def generate_loop.simps pairCodeLen_def)
  with generated_well_formed [OF this] show ?thesis by blast
qed

theorem generate_terminates_witness:
  "\<exists>code. generatePairCode [Some [0, 31, 32, 255, 7, 8, 9, 10, 11, 12, 13, 14, 15, 16, 17, 18]] = Some (Inr code)"
  using generate_terminates [of "[0, 31, 32, 255, 7, 8, 9, 10, 11, 12, 13, 14, 15, 16, 17, 18]" "[]"]
  by (auto simp: pairCodeLen_def)



text \<open>A pair code works once. After a code has been taken, in whatever state the file is in later
  and whichever process asks, however the code is spelled, it is refused, as long as that code has not
  been issued again or given back.\<close>

theorem pair_code_one_shot:
  assumes "hashes_distinct codes" "Take sha unicode loaded saved now raw codes = (Inr tk, codes1)"
    and "pc_later sha unicode (tk_codeHash tk) codes1 codes2"
    and "NormalizePairCode unicode raw2 = NormalizePairCode unicode raw"
  shows "\<exists>e. fst (Take sha unicode loaded2 saved2 now2 raw2 codes2) = Inl e"
proof -
  let ?h = "HashPairCode sha unicode (NormalizePairCode unicode raw)"
  obtain r where r: "tk_codeHash tk = ?h" "codes1 = purgeExpired now (delete_first (\<lambda>r. CodeHash r = ?h) codes)"
    by (rule Take_success [OF assms(2)])
  have "absent ?h codes1" unfolding r(2) by (intro absent_purge absent_delete_first assms(1))
  then have "absent ?h codes2" using pc_later_absent assms(3) r(1) by simp
  then show ?thesis using Take_absent assms(4) by metis
qed

theorem pair_code_one_shot_witness:
  "\<exists>e. fst (Take (\<lambda>s. s) (\<lambda>s. s) True Written 9 ''AAAA-AAAA'' []) = Inl e"
proof -
  let ?rec = "\<lparr>CodeHash = ''AAAAAAAA'', pc_Name = ''phone'', pc_CreatedAt = 0, pc_ExpiresAt = 100\<rparr>"
  have wf: "well_formed ''AAAAAAAA''" by code_simp
  note n = normalize_spellings [OF wf, of "\<lambda>s. s"]
  have "Take (\<lambda>s. s) (\<lambda>s. s) True Written 5 ''AAAAAAAA'' ([] @ [?rec]) =
      (Inr \<lparr>tk_Name = ''phone'', tk_ExpiresAt = 100, tk_codeHash = ''AAAAAAAA'', tk_createdAt = 0\<rparr>, purgeExpired 5 [])"
    using Take_last [OF wf n(1), of "\<lambda>s. s" "[]" ?rec 5] by (simp add: absent_def)
  from pair_code_one_shot [OF _ this pl_refl, of "''AAAA-AAAA''"] n show ?thesis
    by (simp add: hashes_distinct_def purgeExpired_def)
qed

text \<open>A code taken for a pairing that then failed can be given back: until it expires it can be
  taken again, with the same name and expiry; after it expires giving it back does nothing.\<close>

theorem take_restore_roundtrip:
  assumes "hashes_distinct codes" "Take sha unicode True Written t raw codes = (Inr tk, codes1)"
    and "t \<le> t1" "t1 \<le> tk_ExpiresAt tk" "t2 \<le> tk_ExpiresAt tk" "tk_codeHash tk \<noteq> []"
    and "NormalizePairCode unicode raw2 = NormalizePairCode unicode raw"
  shows "fst (Take sha unicode True Written t2 raw2 (snd (Restore True Written t1 tk codes1))) = Inr tk"
  by (rule Take_after_Restore [OF assms])

theorem take_restore_roundtrip_witness:
  "\<exists>tk. fst (Take (\<lambda>s. s) (\<lambda>s. s) True Written 8 ''AAAAAAAA'' (snd (Restore True Written 7 tk []))) = Inr tk"
proof -
  let ?rec = "\<lparr>CodeHash = ''AAAAAAAA'', pc_Name = ''phone'', pc_CreatedAt = 0, pc_ExpiresAt = 100\<rparr>"
  let ?tk = "\<lparr>tk_Name = ''phone'', tk_ExpiresAt = 100, tk_codeHash = ''AAAAAAAA'', tk_createdAt = 0\<rparr>"
  have wf: "well_formed ''AAAAAAAA''" by code_simp
  note n = normalize_spellings [OF wf, of "\<lambda>s. s"]
  have "Take (\<lambda>s. s) (\<lambda>s. s) True Written 5 ''AAAAAAAA'' ([] @ [?rec]) = (Inr ?tk, purgeExpired 5 [])"
    using Take_last [OF wf n(1), of "\<lambda>s. s" "[]" ?rec 5] by (simp add: absent_def)
  from take_restore_roundtrip [OF _ this, of 7 8 "''AAAAAAAA''"] n show ?thesis
    by (intro exI [of _ ?tk]) (simp add: hashes_distinct_def purgeExpired_def)
qed

end
