(* ===== verification/Ledger.thy ===== *)
theory Ledger
  imports GoText "HOL-Library.AList"
begin

text \<open>
  Retried requests: \<open>internal/ws/idempotency.go\<close>, the resume tokens of \<open>resume.go\<close>,
  and the part of \<open>dispatchAsync\<close> and \<open>writeJSON\<close> in \<open>internal/ws/server.go\<close>
  that drives the ledger.

  The ledger is an association list from keys to entries. A Go map is ranged over in any order, so
  the order in which \<open>purgeLocked\<close> meets the keys is a parameter \<open>ord\<close> of every operation
  that purges. A channel is a number; the ledger records which have been closed, and whether one
  was closed twice, which panics. A frame is \<open>None\<close> for a nil slice.
\<close>

subsection \<open>The ledger\<close>

record idemEntry =
  ie_done :: nat
  ie_frame :: "string option"
  ie_failed :: bool
  ie_finished :: bool
  ie_at :: gotime

record ledger =
  l_entries :: "(string \<times> idemEntry) list"
  l_maxEntries :: nat
  l_ttl :: duration
  l_next :: nat
  l_closed :: "nat set"
  l_panic :: bool

datatype idemAction = idemExecute | idemReplay "string option" | idemWait nat

definition newIdempotencyLedger :: ledger where
  "newIdempotencyLedger = \<lparr>l_entries = [], l_maxEntries = 256, l_ttl = 10 * minute, l_next = 0, l_closed = {}, l_panic = False\<rparr>"

definition idemKey :: "string \<Rightarrow> string \<Rightarrow> string" where
  "idemKey deviceID requestID = deviceID @ CHR 0x00 # requestID"

abbreviation entry_of :: "ledger \<Rightarrow> string \<Rightarrow> idemEntry option" where
  "entry_of l k \<equiv> map_of (l_entries l) k"

definition put_entry :: "string \<Rightarrow> idemEntry \<Rightarrow> ledger \<Rightarrow> ledger" where
  "put_entry k e l = l\<lparr>l_entries := AList.update k e (l_entries l)\<rparr>"

definition new_entry :: "gotime \<Rightarrow> string \<Rightarrow> ledger \<Rightarrow> ledger" where
  "new_entry now k l = (put_entry k \<lparr>ie_done = l_next l, ie_frame = None, ie_failed = False, ie_finished = False, ie_at = now\<rparr> l)
     \<lparr>l_next := Suc (l_next l)\<rparr>"

definition close_done :: "nat \<Rightarrow> ledger \<Rightarrow> ledger" where
  "close_done c l = l\<lparr>l_closed := insert c (l_closed l), l_panic := (l_panic l \<or> c \<in> l_closed l)\<rparr>"

definition expired_entry :: "gotime \<Rightarrow> duration \<Rightarrow> idemEntry \<Rightarrow> bool" where
  "expired_entry now ttl e \<longleftrightarrow> ie_finished e \<and> now - ie_at e > ttl"

fun evict :: "nat \<Rightarrow> string list \<Rightarrow> (string \<times> idemEntry) list \<Rightarrow> (string \<times> idemEntry) list" where
  "evict cap [] es = es"
| "evict cap (k # ks) es =
    (if length es \<le> cap then es
     else case map_of es k of
       Some e \<Rightarrow> evict cap ks (if ie_finished e then AList.delete k es else es)
     | None \<Rightarrow> evict cap ks es)"

definition purgeLocked :: "gotime \<Rightarrow> string list \<Rightarrow> ledger \<Rightarrow> ledger" where
  "purgeLocked now ord l =
    l\<lparr>l_entries := evict (l_maxEntries l) ord (filter (\<lambda>(k, e). \<not> expired_entry now (l_ttl l) e) (l_entries l))\<rparr>"

definition begin_request :: "gotime \<Rightarrow> string list \<Rightarrow> string \<Rightarrow> string \<Rightarrow> ledger \<Rightarrow> idemAction \<times> ledger" where
  "begin_request now ord deviceID requestID l =
    (if deviceID = [] \<or> requestID = [] then (idemExecute, l)
     else let k = idemKey deviceID requestID; l1 = purgeLocked now ord l
          in case entry_of l1 k of
               Some e \<Rightarrow>
                 if ie_finished e then
                   if ie_failed e then (idemExecute, new_entry now k l1) else (idemReplay (ie_frame e), l1)
                 else (idemWait (ie_done e), l1)
             | None \<Rightarrow> (idemExecute, new_entry now k l1))"

text \<open>What \<open>wait\<close> returns once the channel is closed.\<close>

definition wait_frame :: "string \<Rightarrow> ledger \<Rightarrow> string option" where
  "wait_frame k l = (case entry_of l k of
     Some e \<Rightarrow> if ie_finished e \<and> \<not> ie_failed e then ie_frame e else None | None \<Rightarrow> None)"

definition empty_frame :: "string option \<Rightarrow> bool" where
  "empty_frame f \<longleftrightarrow> f = None \<or> f = Some []"

definition finish :: "gotime \<Rightarrow> string \<Rightarrow> idemEntry \<Rightarrow> ledger \<Rightarrow> ledger" where
  "finish now k e l = close_done (ie_done e) (put_entry k (e\<lparr>ie_finished := True, ie_at := now\<rparr>) l)"

definition complete :: "gotime \<Rightarrow> string list \<Rightarrow> string \<Rightarrow> string \<Rightarrow> string option \<Rightarrow> ledger \<Rightarrow> ledger" where
  "complete now ord deviceID requestID frame l =
    (if deviceID = [] \<or> requestID = [] then l
     else let k = idemKey deviceID requestID;
              l1 = (if entry_of l k = None then new_entry 0 k l else l);
              e = the (entry_of l1 k)
          in if ie_finished e
             then (if empty_frame (ie_frame e) \<and> \<not> empty_frame frame then put_entry k (e\<lparr>ie_frame := frame\<rparr>) l1 else l1)
             else purgeLocked now ord
                    (finish now k (if frame \<noteq> None then e\<lparr>ie_frame := frame\<rparr> else e) l1))"

definition capture :: "gotime \<Rightarrow> string list \<Rightarrow> string \<Rightarrow> string \<Rightarrow> string \<Rightarrow> ledger \<Rightarrow> ledger" where
  "capture now ord deviceID requestID frame l =
    (if deviceID = [] \<or> requestID = [] \<or> frame = [] then l
     else let k = idemKey deviceID requestID
          in case entry_of l k of
               None \<Rightarrow> l
             | Some e \<Rightarrow>
                 if ie_finished e
                 then (if empty_frame (ie_frame e) then put_entry k (e\<lparr>ie_frame := Some frame\<rparr>) l else l)
                 else purgeLocked now ord (finish now k (e\<lparr>ie_frame := Some frame\<rparr>) l))"

definition failFrame :: "gotime \<Rightarrow> string \<Rightarrow> string \<Rightarrow> ledger \<Rightarrow> ledger" where
  "failFrame now deviceID requestID l =
    (if deviceID = [] \<or> requestID = [] then l
     else let k = idemKey deviceID requestID
          in case entry_of l k of
               None \<Rightarrow> l
             | Some e \<Rightarrow> if ie_finished e then l else finish now k (e\<lparr>ie_failed := True\<rparr>) l)"

definition delete_entry :: "string \<Rightarrow> ledger \<Rightarrow> ledger" where
  "delete_entry k l = l\<lparr>l_entries := AList.delete k (l_entries l)\<rparr>"

definition fail :: "gotime \<Rightarrow> string \<Rightarrow> string \<Rightarrow> ledger \<Rightarrow> ledger" where
  "fail now deviceID requestID l =
    (if deviceID = [] \<or> requestID = [] then l
     else let k = idemKey deviceID requestID
          in case entry_of l k of
               None \<Rightarrow> l
             | Some e \<Rightarrow> if ie_finished e then l else delete_entry k (finish now k (e\<lparr>ie_failed := True\<rparr>) l))"

subsection \<open>Dispatching a mutating request\<close>

text \<open>
  Each dispatch is one goroutine of \<open>dispatchAsync\<close> for one request of one device. It is
  running its handler, waiting on another dispatch's channel, about to call \<open>begin\<close> again, or
  over. Handlers write any number of frames through \<open>writeJSON\<close>, which tells the ledger of
  each. \<open>dp_started\<close> lists the keys whose handler was started, in order; \<open>dp_errors\<close> the
  keys answered with an error frame or failed; \<open>dp_purged\<close> those a purge dropped.
\<close>

datatype phase = Running | Waiting nat | Retrying | Over

record dispatch =
  dp_ledger :: ledger
  dp_phase :: "nat \<rightharpoonup> string \<times> string \<times> phase"
  dp_started :: "string list"
  dp_errors :: "string set"
  dp_purged :: "string set"

definition set_phase :: "nat \<Rightarrow> string \<Rightarrow> string \<Rightarrow> phase \<Rightarrow> dispatch \<Rightarrow> dispatch" where
  "set_phase n d r p s = s\<lparr>dp_phase := (dp_phase s)(n \<mapsto> (d, r, p))\<rparr>"

text \<open>The keys a purge drops, and taking over a ledger that may have been purged at the end of an
  operation.\<close>

definition note_purge :: "gotime \<Rightarrow> string list \<Rightarrow> dispatch \<Rightarrow> dispatch" where
  "note_purge now ord s = s\<lparr>dp_purged := dp_purged s \<union>
     (fst ` set (l_entries (dp_ledger s)) - fst ` set (l_entries (purgeLocked now ord (dp_ledger s))))\<rparr>"

definition set_ledger :: "ledger \<Rightarrow> dispatch \<Rightarrow> dispatch" where
  "set_ledger l s = s\<lparr>dp_ledger := l, dp_purged := dp_purged s \<union> (fst ` set (l_entries (dp_ledger s)) - fst ` set (l_entries l))\<rparr>"

text \<open>\<open>writeError\<close> for a request id: \<open>writeJSON\<close> calls \<open>failFrame\<close>.\<close>

definition error_frame :: "gotime \<Rightarrow> string \<Rightarrow> string \<Rightarrow> dispatch \<Rightarrow> dispatch" where
  "error_frame now d r s = s\<lparr>dp_ledger := failFrame now d r (dp_ledger s), dp_errors := insert (idemKey d r) (dp_errors s)\<rparr>"

definition run_handler :: "nat \<Rightarrow> string \<Rightarrow> string \<Rightarrow> dispatch \<Rightarrow> dispatch" where
  "run_handler n d r s = (set_phase n d r Running s)\<lparr>dp_started := dp_started s @ [idemKey d r]\<rparr>"

fun first_begin :: "gotime \<Rightarrow> nat \<Rightarrow> string \<Rightarrow> string \<Rightarrow> idemAction \<Rightarrow> dispatch \<Rightarrow> dispatch" where
  "first_begin now n d r idemExecute s = run_handler n d r s"
| "first_begin now n d r (idemReplay f) s =
    set_phase n d r Over (if empty_frame f then error_frame now d r s else s)"
| "first_begin now n d r (idemWait c) s = set_phase n d r (Waiting c) s"

fun again_begin :: "gotime \<Rightarrow> nat \<Rightarrow> string \<Rightarrow> string \<Rightarrow> idemAction \<Rightarrow> dispatch \<Rightarrow> dispatch" where
  "again_begin now n d r idemExecute s = run_handler n d r s"
| "again_begin now n d r _ s = set_phase n d r Over (error_frame now d r s)"

inductive disp_step :: "dispatch \<Rightarrow> dispatch \<Rightarrow> bool" where
  ds_begin: "dp_phase s n = None \<Longrightarrow> d \<noteq> [] \<Longrightarrow> r \<noteq> [] \<Longrightarrow> begin_request now ord d r (dp_ledger s) = (a, l) \<Longrightarrow>
    disp_step s (first_begin now2 n d r a ((note_purge now ord s)\<lparr>dp_ledger := l\<rparr>))"
| ds_woken: "dp_phase s n = Some (d, r, Waiting c) \<Longrightarrow> c \<in> l_closed (dp_ledger s) \<Longrightarrow>
    disp_step s (set_phase n d r (if empty_frame (wait_frame (idemKey d r) (dp_ledger s)) then Retrying else Over) s)"
| ds_expired: "dp_phase s n = Some (d, r, Waiting c) \<Longrightarrow> disp_step s (set_phase n d r Retrying s)"
| ds_again: "dp_phase s n = Some (d, r, Retrying) \<Longrightarrow> begin_request now ord d r (dp_ledger s) = (a, l) \<Longrightarrow>
    disp_step s (again_begin now2 n d r a ((note_purge now ord s)\<lparr>dp_ledger := l\<rparr>))"
| ds_answer: "dp_phase s n = Some (d, r, Running) \<Longrightarrow> b \<noteq> [] \<Longrightarrow>
    disp_step s (set_ledger (capture now ord d r b (dp_ledger s)) s)"
| ds_error: "dp_phase s n = Some (d, r, Running) \<Longrightarrow> disp_step s (error_frame now d r s)"
| ds_failed: "dp_phase s n = Some (d, r, Running) \<Longrightarrow>
    disp_step s (set_phase n d r Over (s\<lparr>dp_ledger := fail now d r (dp_ledger s), dp_errors := insert (idemKey d r) (dp_errors s)\<rparr>))"
| ds_returned: "dp_phase s n = Some (d, r, Running) \<Longrightarrow>
    disp_step s (set_phase n d r Over (set_ledger (complete now ord d r None (dp_ledger s)) s))"
| ds_refused: "d \<noteq> [] \<Longrightarrow> r \<noteq> [] \<Longrightarrow> disp_step s (error_frame now d r s)"

definition disp_start :: dispatch where
  "disp_start = \<lparr>dp_ledger = newIdempotencyLedger, dp_phase = Map.empty, dp_started = [], dp_errors = {}, dp_purged = {}\<rparr>"

inductive disp_reach :: "dispatch \<Rightarrow> bool" where
  dr_start: "disp_reach disp_start"
| dr_step: "disp_reach s \<Longrightarrow> disp_step s s' \<Longrightarrow> disp_reach s'"

subsection \<open>Entries\<close>

named_theorems ledger_simps \<open>what the ledger's operations do to an entry\<close>

lemma keys_dom: "fst ` set es = dom (map_of es)"
  by (simp add: dom_map_of_conv_image_fst)

lemma map_of_filter_entry:
  "distinct (map fst es) \<Longrightarrow> map_of (filter (\<lambda>(k, e). P e) es) k =
    (case map_of es k of Some e \<Rightarrow> if P e then Some e else None | None \<Rightarrow> None)"
  by (induction es) (auto split: option.splits simp: map_of_eq_None_iff image_iff)

lemma distinct_delete: "distinct (map fst es) \<Longrightarrow> distinct (map fst (AList.delete k es))"
  by (simp add: distinct_delete)

text \<open>What a purge may do to an entry: leave it, or drop it once it is finished.\<close>

definition purged_to :: "idemEntry option \<Rightarrow> idemEntry option \<Rightarrow> bool" where
  "purged_to x y \<longleftrightarrow> y = x \<or> y = None \<and> (\<exists>e. x = Some e \<and> ie_finished e)"

lemma purged_to_trans: "purged_to x y \<Longrightarrow> purged_to y z \<Longrightarrow> purged_to x z"
  by (auto simp: purged_to_def)

lemma purged_to_refl [simp]: "purged_to x x"
  by (simp add: purged_to_def)

lemma evict_props:
  "distinct (map fst es) \<Longrightarrow> distinct (map fst (evict cap ks es)) \<and> purged_to (map_of es k) (map_of (evict cap ks es) k)"
proof (induction ks arbitrary: es)
  case (Cons x ks)
  show ?case
  proof (cases "length es \<le> cap \<or> map_of es x = None")
    case True
    with Cons show ?thesis by (auto split: option.splits)
  next
    case False
    then obtain e where e: "map_of es x = Some e" by auto
    let ?es = "if ie_finished e then AList.delete x es else es"
    have d: "distinct (map fst ?es)" using Cons.prems by (simp add: distinct_delete)
    have "purged_to (map_of es k) (map_of ?es k)" using e by (auto simp: AList.delete_conv purged_to_def)
    moreover have "evict cap (x # ks) es = evict cap ks ?es" using False e by simp
    ultimately show ?thesis using Cons.IH [OF d] purged_to_trans by metis
  qed
qed simp

definition keyed_ledger :: "ledger \<Rightarrow> bool" where
  "keyed_ledger l \<longleftrightarrow> distinct (map fst (l_entries l))"

lemma purge_props:
  assumes "keyed_ledger l"
  shows "keyed_ledger (purgeLocked now ord l)"
    and "purged_to (entry_of l k) (entry_of (purgeLocked now ord l) k)"
proof -
  let ?es = "filter (\<lambda>(k, e). \<not> expired_entry now (l_ttl l) e) (l_entries l)"
  have d: "distinct (map fst ?es)" using assms by (simp add: keyed_ledger_def distinct_map_filter)
  have "purged_to (entry_of l k) (map_of ?es k)"
    using assms map_of_filter_entry [of "l_entries l" "\<lambda>e. \<not> expired_entry now (l_ttl l) e" k]
    by (auto simp: keyed_ledger_def expired_entry_def purged_to_def split: option.splits if_splits)
  with evict_props [OF d, of "l_maxEntries l" ord k] purged_to_trans
  show "keyed_ledger (purgeLocked now ord l)" "purged_to (entry_of l k) (entry_of (purgeLocked now ord l) k)"
    by (auto simp: purgeLocked_def keyed_ledger_def)
qed

lemma edit_simps [ledger_simps]:
  "entry_of (put_entry k e l) j = (if j = k then Some e else entry_of l j)"
  "entry_of (new_entry now k l) j = (if j = k then Some \<lparr>ie_done = l_next l, ie_frame = None, ie_failed = False, ie_finished = False, ie_at = now\<rparr> else entry_of l j)"
  "entry_of (close_done c l) j = entry_of l j"
  "entry_of (finish now k e l) j = (if j = k then Some (e\<lparr>ie_finished := True, ie_at := now\<rparr>) else entry_of l j)"
  "entry_of (delete_entry k l) j = (if j = k then None else entry_of l j)"
  by (simp_all add: put_entry_def new_entry_def close_done_def finish_def delete_entry_def AList.update_conv AList.delete_conv)

lemma keyed_simps [ledger_simps]:
  "keyed_ledger l \<Longrightarrow> keyed_ledger (put_entry k e l)"
  "keyed_ledger l \<Longrightarrow> keyed_ledger (new_entry now k l)"
  "keyed_ledger (close_done c l) = keyed_ledger l"
  "keyed_ledger l \<Longrightarrow> keyed_ledger (finish now k e l)"
  "keyed_ledger l \<Longrightarrow> keyed_ledger (delete_entry k l)"
  by (simp_all add: keyed_ledger_def put_entry_def new_entry_def close_done_def finish_def delete_entry_def distinct_delete AList.distinct_update)

text \<open>What the operations keep: a settled entry is one that answers retries.\<close>

definition settled :: "idemEntry \<Rightarrow> bool" where
  "settled e \<longleftrightarrow> ie_finished e \<and> \<not> ie_failed e \<and> \<not> empty_frame (ie_frame e)"

lemma keyed_ops:
  assumes "keyed_ledger l"
  shows "keyed_ledger (snd (begin_request now ord d r l))" "keyed_ledger (complete now ord d r f l)"
    "keyed_ledger (capture now ord d r b l)" "keyed_ledger (failFrame now d r l)" "keyed_ledger (fail now d r l)"
  using assms purge_props(1)
  by (auto simp: begin_request_def complete_def capture_def failFrame_def fail_def Let_def ledger_simps
      split: option.split)

text \<open>Every operation leaves another key alone, or drops it in a purge; and a settled entry too.\<close>

lemma begin_other:
  assumes "keyed_ledger l" "k \<noteq> idemKey d r \<or> (\<exists>e. entry_of l k = Some e \<and> \<not> (ie_finished e \<and> ie_failed e))"
    "entry_of l k \<noteq> None \<Longrightarrow> k \<in> fst ` set (l_entries (purgeLocked now ord l))"
  shows "entry_of (snd (begin_request now ord d r l)) k = entry_of l k"
  using purge_props(2) [OF assms(1), of k now ord] assms(2,3)
  by (auto simp: begin_request_def Let_def ledger_simps keys_dom purged_to_def split: option.splits)

lemma finish_purge:
  assumes "keyed_ledger l"
  shows "purged_to (if k = j then Some (e\<lparr>ie_finished := True, ie_at := now\<rparr>) else entry_of l k)
    (entry_of (purgeLocked now2 ord (finish now j e l)) k)"
  using purge_props(2) [OF keyed_simps(4) [OF assms, of now j e], of k now2 ord] by (simp add: ledger_simps)

lemma complete_other:
  assumes "keyed_ledger l" "k \<noteq> idemKey d r"
  shows "purged_to (entry_of l k) (entry_of (complete now ord d r f l) k)"
proof -
  let ?k = "idemKey d r" let ?l1 = "if entry_of l ?k = None then new_entry 0 ?k l else l"
  have k1: "keyed_ledger ?l1" "entry_of ?l1 k = entry_of l k" using assms by (simp_all add: ledger_simps)
  have "purged_to (entry_of l k) (entry_of (purgeLocked now ord (finish now ?k e ?l1)) k)" for e
    using finish_purge [OF k1(1), where k = k and j = ?k and e = e and now = now and ?now2.0 = now and ord = ord] assms(2) k1(2) by simp
  then show ?thesis using assms k1(2) unfolding complete_def Let_def by (auto simp: edit_simps(1))
qed

lemma capture_other:
  assumes "keyed_ledger l" "k \<noteq> idemKey d r"
  shows "purged_to (entry_of l k) (entry_of (capture now ord d r b l) k)"
  using finish_purge [OF assms(1), where k = k and j = "idemKey d r"] assms(2)
  by (auto simp: capture_def Let_def edit_simps(1) split: option.split)

lemma complete_own:
  assumes "keyed_ledger l" "entry_of l (idemKey d r) = Some e"
  shows "settled e \<Longrightarrow> entry_of (complete now ord d r None l) (idemKey d r) = Some e"
    and "entry_of (complete now ord d r None l) (idemKey d r) = Some e' \<Longrightarrow> ie_failed e' = ie_failed e"
  using finish_purge [OF assms(1), where k = "idemKey d r" and j = "idemKey d r" and e = e and now = now and ?now2.0 = now and ord = ord] assms(2)
  by (auto simp: complete_def Let_def settled_def empty_frame_def edit_simps(1) purged_to_def split: if_splits)

lemma capture_own:
  assumes "keyed_ledger l" "entry_of l (idemKey d r) = Some e"
  shows "settled e \<Longrightarrow> entry_of (capture now ord d r b l) (idemKey d r) = Some e"
    and "entry_of (capture now ord d r b l) (idemKey d r) = Some e' \<Longrightarrow> ie_failed e' = ie_failed e"
  using finish_purge [OF assms(1), where k = "idemKey d r" and j = "idemKey d r" and e = "e\<lparr>ie_frame := Some b\<rparr>" and now = now and ?now2.0 = now and ord = ord] assms(2)
  by (auto simp: capture_def Let_def settled_def edit_simps(1) purged_to_def split: if_splits)

lemma fail_own:
  "entry_of l (idemKey d r) = Some e \<Longrightarrow> ie_finished e \<Longrightarrow> failFrame now d r l = l \<and> fail now d r l = l"
  by (auto simp: failFrame_def fail_def Let_def)

lemma fail_other:
  assumes "k \<noteq> idemKey d r"
  shows "entry_of (failFrame now d r l) k = entry_of l k" "entry_of (fail now d r l) k = entry_of l k"
  using assms by (auto simp: failFrame_def fail_def Let_def ledger_simps split: option.split)

subsection \<open>A request runs once\<close>

lemma dispatch_simps [ledger_simps]:
  "dp_ledger (set_phase n d r p s) = dp_ledger s" "dp_started (set_phase n d r p s) = dp_started s"
  "dp_errors (set_phase n d r p s) = dp_errors s" "dp_purged (set_phase n d r p s) = dp_purged s"
  "dp_ledger (run_handler n d r s) = dp_ledger s" "dp_started (run_handler n d r s) = dp_started s @ [idemKey d r]"
  "dp_errors (run_handler n d r s) = dp_errors s" "dp_purged (run_handler n d r s) = dp_purged s"
  "dp_ledger (error_frame now d r s) = failFrame now d r (dp_ledger s)" "dp_started (error_frame now d r s) = dp_started s"
  "dp_errors (error_frame now d r s) = insert (idemKey d r) (dp_errors s)" "dp_purged (error_frame now d r s) = dp_purged s"
  "dp_ledger (set_ledger l s) = l" "dp_started (set_ledger l s) = dp_started s" "dp_errors (set_ledger l s) = dp_errors s"
  "dp_purged (set_ledger l s) = dp_purged s \<union> (dom (entry_of (dp_ledger s)) - dom (entry_of l))"
  "dp_ledger (note_purge now ord s) = dp_ledger s" "dp_started (note_purge now ord s) = dp_started s"
  "dp_errors (note_purge now ord s) = dp_errors s"
  "dp_purged (note_purge now ord s) = dp_purged s \<union> (dom (entry_of (dp_ledger s)) - dom (entry_of (purgeLocked now ord (dp_ledger s))))"
  by (simp_all add: set_phase_def run_handler_def error_frame_def set_ledger_def note_purge_def keys_dom)

lemma keyed_step: "disp_step s s' \<Longrightarrow> keyed_ledger (dp_ledger s) \<Longrightarrow> keyed_ledger (dp_ledger s')"
proof (induction rule: disp_step.induct)
  case (ds_begin s n d r now ord a l now2)
  have "keyed_ledger l" using keyed_ops(1) [OF ds_begin(5), of now ord d r] ds_begin(4) by simp
  then show ?case by (cases a) (simp_all add: ledger_simps keyed_ops)
next
  case (ds_again s n d r now ord a l now2)
  have "keyed_ledger l" using keyed_ops(1) [OF ds_again(3), of now ord d r] ds_again(2) by simp
  then show ?case by (cases a) (simp_all add: ledger_simps keyed_ops)
qed (simp_all add: ledger_simps keyed_ops)

lemma keyed_reach: "disp_reach s \<Longrightarrow> keyed_ledger (dp_ledger s)"
  by (induction rule: disp_reach.induct)
     (simp_all add: disp_start_def newIdempotencyLedger_def keyed_ledger_def [of "newIdempotencyLedger"] keyed_step
       keyed_ledger_def [of "\<lparr>l_entries = [], l_maxEntries = _, l_ttl = _, l_next = _, l_closed = _, l_panic = _\<rparr>"])

definition once_at :: "dispatch \<Rightarrow> string \<Rightarrow> bool" where
  "once_at s k \<longleftrightarrow> k \<in> dp_errors s \<union> dp_purged s \<or>
    count_list (dp_started s) k \<le> 1 \<and>
    (k \<in> set (dp_started s) \<longrightarrow> (\<exists>e. entry_of (dp_ledger s) k = Some e \<and> \<not> ie_failed e))"

text \<open>The state after a \<open>begin\<close>, before its action is taken.\<close>

lemma begin_once:
  assumes key: "keyed_ledger (dp_ledger s)" and once: "once_at s k" and dr: "d \<noteq> []" "r \<noteq> []"
    and bg: "begin_request now ord d r (dp_ledger s) = (a, l)"
  shows "once_at (first_begin now2 n d r a ((note_purge now ord s)\<lparr>dp_ledger := l\<rparr>)) k \<and>
    once_at (again_begin now2 n d r a ((note_purge now ord s)\<lparr>dp_ledger := l\<rparr>)) k"
proof (cases "k \<in> dp_errors s \<union> dp_purged (note_purge now ord s)")
  case True
  then show ?thesis by (cases a) (auto simp: once_at_def ledger_simps)
next
  case False
  then have k: "k \<notin> dp_errors s" "k \<notin> dp_purged s" "count_list (dp_started s) k \<le> 1"
    and present: "k \<in> set (dp_started s) \<Longrightarrow> \<exists>e. entry_of (dp_ledger s) k = Some e \<and> \<not> ie_failed e"
    and live: "entry_of (dp_ledger s) k \<noteq> None \<Longrightarrow> k \<in> fst ` set (l_entries (purgeLocked now ord (dp_ledger s)))"
    using once by (auto simp: once_at_def ledger_simps keys_dom)
  have l: "l = snd (begin_request now ord d r (dp_ledger s))" using bg by simp
  show ?thesis
  proof (cases "k = idemKey d r \<and> k \<notin> set (dp_started s)")
    case new: True
    have "a = idemExecute \<Longrightarrow> \<exists>e. entry_of l k = Some e \<and> \<not> ie_failed e"
      using bg new dr by (auto simp: begin_request_def Let_def ledger_simps split: option.splits if_splits)
    then show ?thesis using new by (cases a) (auto simp: once_at_def ledger_simps)
  next
    case old: False
    have same: "entry_of l k = entry_of (dp_ledger s) k"
      unfolding l using old present by (intro begin_other key live) auto
    have "a \<noteq> idemExecute" if "k = idemKey d r"
      using bg that old present live purge_props(2) [OF key, of k now ord] dr
      by (auto simp: begin_request_def Let_def purged_to_def keys_dom split: option.splits if_splits)
    then show ?thesis using k present same
      by (cases a; cases "k = idemKey d r") (auto simp: once_at_def ledger_simps fail_other)
  qed
qed

lemma phase_simps [ledger_simps]:
  "dp_phase (set_phase n d r p s) = (dp_phase s)(n \<mapsto> (d, r, p))"
  "dp_phase (run_handler n d r s) = (dp_phase s)(n \<mapsto> (d, r, Running))"
  "dp_phase (error_frame now d r s) = dp_phase s" "dp_phase (set_ledger l s) = dp_phase s"
  "dp_phase (note_purge now ord s) = dp_phase s"
  by (simp_all add: set_phase_def run_handler_def error_frame_def set_ledger_def note_purge_def)

definition named_requests :: "dispatch \<Rightarrow> bool" where
  "named_requests s \<longleftrightarrow> (\<forall>n d r p. dp_phase s n = Some (d, r, p) \<longrightarrow> d \<noteq> [] \<and> r \<noteq> [])"

lemma named_step: "disp_step s s' \<Longrightarrow> named_requests s \<Longrightarrow> named_requests s'"
proof (induction rule: disp_step.induct)
  case (ds_begin s n d r now ord a l now2)
  then show ?case by (cases a) (auto simp: named_requests_def ledger_simps)
next
  case (ds_again s n d r now ord a l now2)
  then show ?case by (cases a) (auto simp: named_requests_def ledger_simps)
qed (auto simp: named_requests_def ledger_simps)

lemma once_set_ledger:
  assumes "once_at s k" "\<And>e e'. entry_of (dp_ledger s) k = Some e \<Longrightarrow> entry_of l k = Some e' \<Longrightarrow> ie_failed e' = ie_failed e"
  shows "once_at (set_ledger l s) k"
proof (cases "k \<in> dp_errors s \<union> dp_purged s \<or> k \<notin> set (dp_started s)")
  case True
  with assms(1) show ?thesis by (auto simp: once_at_def ledger_simps)
next
  case False
  with assms(1) obtain e where e: "entry_of (dp_ledger s) k = Some e" "\<not> ie_failed e" "count_list (dp_started s) k \<le> 1"
    by (auto simp: once_at_def)
  then show ?thesis using assms(2) [OF e(1)] by (cases "entry_of l k") (auto simp: once_at_def ledger_simps dom_def)
qed

lemma once_step:
  "disp_step s s' \<Longrightarrow> keyed_ledger (dp_ledger s) \<Longrightarrow> named_requests s \<Longrightarrow> once_at s k \<Longrightarrow> once_at s' k"
proof (induction rule: disp_step.induct)
  case (ds_begin s n d r now ord a l now2)
  then show ?case using begin_once by blast
next
  case (ds_again s n d r now ord a l now2)
  then show ?case using begin_once unfolding named_requests_def by blast
next
  case (ds_answer s n d r b now ord)
  show ?case
  proof (rule once_set_ledger [OF ds_answer(5)])
    fix e e' assume e: "entry_of (dp_ledger s) k = Some e" "entry_of (capture now ord d r b (dp_ledger s)) k = Some e'"
    then show "ie_failed e' = ie_failed e"
      using capture_own(2) [OF ds_answer(3)] capture_other [OF ds_answer(3), of k d r now ord b]
      by (cases "k = idemKey d r") (auto simp: purged_to_def)
  qed
next
  case (ds_returned s n d r now ord)
  have "once_at (set_ledger (complete now ord d r None (dp_ledger s)) s) k"
  proof (rule once_set_ledger [OF ds_returned(4)])
    fix e e' assume e: "entry_of (dp_ledger s) k = Some e" "entry_of (complete now ord d r None (dp_ledger s)) k = Some e'"
    then show "ie_failed e' = ie_failed e"
      using complete_own(2) [OF ds_returned(2)] complete_other [OF ds_returned(2), of k d r now ord None]
      by (cases "k = idemKey d r") (auto simp: purged_to_def)
  qed
  then show ?case by (simp add: once_at_def ledger_simps)
next
  case (ds_failed s n d r now)
  then show ?case by (cases "k = idemKey d r") (auto simp: once_at_def ledger_simps fail_other)
next
  case (ds_error s n d r now)
  then show ?case by (cases "k = idemKey d r") (auto simp: once_at_def ledger_simps fail_other)
next
  case (ds_refused d r s now)
  then show ?case by (cases "k = idemKey d r") (auto simp: once_at_def ledger_simps fail_other)
qed (auto simp: once_at_def ledger_simps)

lemma reach_once: "disp_reach s \<Longrightarrow> keyed_ledger (dp_ledger s) \<and> named_requests s \<and> once_at s k"
proof (induction rule: disp_reach.induct)
  case dr_start
  then show ?case using keyed_reach [OF disp_reach.dr_start] by (simp add: once_at_def named_requests_def disp_start_def)
next
  case (dr_step s s')
  then show ?case using keyed_step named_step once_step by blast
qed

lemma named_reach: "disp_reach s \<Longrightarrow> dp_phase s n = Some (d, r, p) \<Longrightarrow> d \<noteq> [] \<and> r \<noteq> []"
  using reach_once [of s "[]"] by (auto simp: named_requests_def)

text \<open>A settled entry stays as it is until a purge drops it.\<close>

lemma begin_settled:
  assumes key: "keyed_ledger (dp_ledger s)" and e: "entry_of (dp_ledger s) k = Some e" "settled e"
    and bg: "begin_request now ord d r (dp_ledger s) = (a, l)" and kept: "k \<notin> dp_purged (note_purge now ord s)"
  shows "entry_of l k = Some e" "entry_of (failFrame now2 d r l) k = Some e"
proof -
  have l: "l = snd (begin_request now ord d r (dp_ledger s))" using bg by simp
  show same: "entry_of l k = Some e"
    unfolding l e(1) [symmetric] using e kept by (intro begin_other key) (auto simp: settled_def ledger_simps keys_dom)
  then show "entry_of (failFrame now2 d r l) k = Some e"
    using e(2) fail_own fail_other(1) by (cases "k = idemKey d r") (auto simp: settled_def)
qed

lemma settled_step:
  "disp_step s s' \<Longrightarrow> keyed_ledger (dp_ledger s) \<Longrightarrow> entry_of (dp_ledger s) k = Some e \<Longrightarrow> settled e \<Longrightarrow>
    k \<notin> dp_purged s' \<Longrightarrow> entry_of (dp_ledger s') k = Some e"
proof (induction rule: disp_step.induct)
  case (ds_begin s n d r now ord a l now2)
  then have "k \<notin> dp_purged (note_purge now ord s)" by (cases a) (auto simp: ledger_simps split: if_splits)
  from begin_settled [OF ds_begin(5,6,7,4) this] show ?case by (cases a) (simp_all add: ledger_simps)
next
  case (ds_again s n d r now ord a l now2)
  then have "k \<notin> dp_purged (note_purge now ord s)" by (cases a) (auto simp: ledger_simps)
  from begin_settled [OF ds_again(3,4,5,2) this] show ?case by (cases a) (simp_all add: ledger_simps)
next
  case (ds_answer s n d r b now ord)
  then show ?case using capture_own(1) [OF ds_answer(3), of d r e] capture_other [OF ds_answer(3), of k d r now ord b]
    by (cases "k = idemKey d r") (auto simp: ledger_simps purged_to_def)
next
  case (ds_returned s n d r now ord)
  then show ?case using complete_own(1) [OF ds_returned(2), of d r e] complete_other [OF ds_returned(2), of k d r now ord None]
    by (cases "k = idemKey d r") (auto simp: ledger_simps purged_to_def)
next
  case (ds_error s n d r now)
  then show ?case by (cases "k = idemKey d r") (auto simp: ledger_simps settled_def fail_own fail_other)
next
  case (ds_failed s n d r now)
  then show ?case by (cases "k = idemKey d r") (auto simp: ledger_simps settled_def fail_own fail_other)
next
  case (ds_refused d r s now)
  then show ?case by (cases "k = idemKey d r") (auto simp: ledger_simps settled_def fail_own fail_other)
qed (simp_all add: ledger_simps)

lemma purged_mono: "disp_step s s' \<Longrightarrow> dp_purged s \<subseteq> dp_purged s'"
proof (induction rule: disp_step.induct)
  case (ds_begin s n d r now ord a l now2)
  then show ?case by (cases a) (auto simp: ledger_simps)
next
  case (ds_again s n d r now ord a l now2)
  then show ?case by (cases a) (auto simp: ledger_simps)
qed (auto simp: ledger_simps)

lemma settled_steps:
  "disp_step\<^sup>*\<^sup>* s s' \<Longrightarrow> keyed_ledger (dp_ledger s) \<Longrightarrow> entry_of (dp_ledger s) k = Some e \<Longrightarrow> settled e \<Longrightarrow>
    k \<notin> dp_purged s' \<Longrightarrow> entry_of (dp_ledger s') k = Some e \<and> keyed_ledger (dp_ledger s')"
proof (induction rule: rtranclp_induct)
  case (step s1 s2)
  then show ?case using settled_step keyed_step purged_mono by (metis subsetD)
qed simp

subsection \<open>Channels\<close>

text \<open>No channel is closed twice: an unfinished entry's channel is open and its own.\<close>

definition chans_ok :: "ledger \<Rightarrow> bool" where
  "chans_ok l \<longleftrightarrow> \<not> l_panic l \<and> (\<forall>c \<in> l_closed l. c < l_next l) \<and>
    (\<forall>k e. entry_of l k = Some e \<longrightarrow> ie_done e < l_next l \<and> (\<not> ie_finished e \<longrightarrow> ie_done e \<notin> l_closed l)) \<and>
    (\<forall>j k e f. entry_of l j = Some e \<longrightarrow> entry_of l k = Some f \<longrightarrow> ie_done e = ie_done f \<longrightarrow> j = k)"

lemma chans_sub:
  assumes "chans_ok l" "\<And>k e. entry_of l' k = Some e \<Longrightarrow> entry_of l k = Some e"
    "l_next l' = l_next l" "l_closed l' = l_closed l" "l_panic l' = l_panic l"
  shows "chans_ok l'"
  using assms(1,3-) by (auto simp: chans_ok_def dest!: assms(2))

lemma chans_purge: "keyed_ledger l \<Longrightarrow> chans_ok l \<Longrightarrow> chans_ok (purgeLocked now ord l)"
proof (erule chans_sub, goal_cases)
  case (1 k e)
  then show ?case using purge_props(2) [of l k now ord] by (auto simp: purged_to_def)
qed (simp_all add: purgeLocked_def)

lemma chans_delete: "chans_ok l \<Longrightarrow> chans_ok (delete_entry k l)"
  by (erule chans_sub) (auto simp: ledger_simps delete_entry_def AList.delete_conv split: if_splits)

lemma chans_new: "chans_ok l \<Longrightarrow> chans_ok (new_entry now k l)"
proof -
  assume ok: "chans_ok l"
  have n: "l_next (new_entry now k l) = Suc (l_next l)" "l_closed (new_entry now k l) = l_closed l" "l_panic (new_entry now k l) = l_panic l"
    by (simp_all add: new_entry_def put_entry_def)
  show ?thesis
    using ok unfolding chans_ok_def n edit_simps(2)
    by (auto simp: less_Suc_eq split: if_splits) (metis less_irrefl)+
qed

lemma chans_put:
  assumes "chans_ok l" "entry_of l k = Some e0" "ie_done e = ie_done e0" "ie_finished e"
  shows "chans_ok (put_entry k e l)"
proof -
  have n: "l_next (put_entry k e l) = l_next l" "l_closed (put_entry k e l) = l_closed l" "l_panic (put_entry k e l) = l_panic l"
    by (simp_all add: put_entry_def)
  show ?thesis using assms unfolding chans_ok_def n edit_simps(1) by (auto split: if_splits)
qed

lemma chans_finish:
  assumes ok: "chans_ok l" and e0: "entry_of l k = Some e0" "\<not> ie_finished e0" and e: "ie_done e = ie_done e0"
  shows "chans_ok (finish now k e l)"
proof -
  let ?l = "put_entry k (e\<lparr>ie_finished := True, ie_at := now\<rparr>) l"
  have p: "chans_ok ?l" using chans_put [OF ok e0(1)] e by simp
  have c: "ie_done e \<notin> l_closed l" "ie_done e < l_next l" using ok e0 e by (auto simp: chans_ok_def)
  have other: "ie_done f \<noteq> ie_done e" if "entry_of ?l j = Some f" "\<not> ie_finished f" for j f
    using that ok e0(1) e by (auto simp: chans_ok_def edit_simps(1) split: if_splits)
  have n: "l_next ?l = l_next l" "l_closed ?l = l_closed l" "l_panic ?l = l_panic l" by (simp_all add: put_entry_def)
  show ?thesis
    using p c other unfolding finish_def chans_ok_def edit_simps(3) by (auto simp: close_done_def n)
qed

lemma chans_ops:
  assumes "keyed_ledger l" "chans_ok l"
  shows "chans_ok (snd (begin_request now ord d r l))" "chans_ok (complete now ord d r f l)"
    "chans_ok (capture now ord d r b l)" "chans_ok (failFrame now d r l)" "chans_ok (fail now d r l)"
proof -
  show "chans_ok (snd (begin_request now ord d r l))"
    using assms chans_purge [OF assms] chans_new by (auto simp: begin_request_def Let_def split: option.split)
  show "chans_ok (capture now ord d r b l)"
    using assms by (auto simp: capture_def Let_def intro!: chans_put chans_purge chans_finish keyed_simps split: option.split)
  show "chans_ok (failFrame now d r l)"
    using assms by (auto simp: failFrame_def Let_def intro!: chans_finish split: option.split)
  show "chans_ok (fail now d r l)"
    using assms by (auto simp: fail_def Let_def intro!: chans_finish chans_delete split: option.split)
  let ?k = "idemKey d r" let ?l1 = "if entry_of l ?k = None then new_entry 0 ?k l else l"
  have l1: "keyed_ledger ?l1" "chans_ok ?l1" using assms chans_new by (auto intro: keyed_simps)
  have "entry_of ?l1 ?k \<noteq> None" by (simp add: edit_simps(2))
  then obtain e where e: "entry_of ?l1 ?k = Some e" by blast
  have "chans_ok (purgeLocked now ord (finish now ?k (if f \<noteq> None then e\<lparr>ie_frame := f\<rparr> else e) ?l1))" if "\<not> ie_finished e"
    by (intro chans_purge keyed_simps l1 chans_finish [OF l1(2) e that]) auto
  moreover have "chans_ok (put_entry ?k (e\<lparr>ie_frame := f\<rparr>) ?l1)" if "ie_finished e"
    using l1 e that by (intro chans_put) auto
  ultimately show "chans_ok (complete now ord d r f l)" using assms l1 e unfolding complete_def Let_def e by auto
qed

lemma chans_step: "disp_step s s' \<Longrightarrow> keyed_ledger (dp_ledger s) \<Longrightarrow> chans_ok (dp_ledger s) \<Longrightarrow> chans_ok (dp_ledger s')"
proof (induction rule: disp_step.induct)
  case (ds_begin s n d r now ord a l now2)
  have "keyed_ledger l" "chans_ok l" using keyed_ops(1) chans_ops(1) [OF ds_begin(5,6), of now ord d r] ds_begin by (metis snd_conv)+
  then show ?case by (cases a) (simp_all add: ledger_simps chans_ops)
next
  case (ds_again s n d r now ord a l now2)
  have "keyed_ledger l" "chans_ok l" using keyed_ops(1) chans_ops(1) [OF ds_again(3,4), of now ord d r] ds_again by (metis snd_conv)+
  then show ?case by (cases a) (simp_all add: ledger_simps chans_ops)
qed (simp_all add: ledger_simps chans_ops)

lemma chans_reach: "disp_reach s \<Longrightarrow> chans_ok (dp_ledger s)"
proof (induction rule: disp_reach.induct)
  case dr_start
  show ?case by (simp add: disp_start_def newIdempotencyLedger_def chans_ok_def)
next
  case (dr_step s s')
  then show ?case using chans_step keyed_reach by blast
qed

subsection \<open>Resume tokens\<close>

text \<open>\<open>resumeStore\<close>: one token per device, with its expiry. \<open>read\<close> is what the random source
  put into the 16 bytes, as hex, or a failure.\<close>

record resumeEntry =
  rs_token :: string
  rs_expires :: gotime

type_synonym resume_tokens = "string \<rightharpoonup> resumeEntry"

definition resume_window :: "duration \<Rightarrow> duration" where
  "resume_window window = (if window \<le> 0 then 120 * second else window)"

definition purgeExpiredLocked :: "gotime \<Rightarrow> resume_tokens \<Rightarrow> resume_tokens" where
  "purgeExpiredLocked now m = (\<lambda>d. case m d of Some e \<Rightarrow> if \<not> now < rs_expires e then None else Some e | None \<Rightarrow> None)"

definition issue_window :: "duration \<Rightarrow> duration \<Rightarrow> duration" where
  "issue_window window requested = (if 0 < requested \<and> requested < window then requested else window)"

definition issue :: "duration \<Rightarrow> string option \<Rightarrow> gotime \<Rightarrow> gotime \<Rightarrow> string \<Rightarrow> duration \<Rightarrow> resume_tokens \<Rightarrow> (string \<times> duration \<times> bool) \<times> resume_tokens" where
  "issue window read now1 now2 deviceID requested m =
    (let w = issue_window window requested
     in case read of
          None \<Rightarrow> (([], w, False), m)
        | Some token \<Rightarrow> ((token, w, True), (purgeExpiredLocked now1 m)(deviceID \<mapsto> \<lparr>rs_token = token, rs_expires = now2 + w\<rparr>)))"

definition validate_resume :: "gotime \<Rightarrow> gotime \<Rightarrow> string \<Rightarrow> string \<Rightarrow> resume_tokens \<Rightarrow> bool \<times> resume_tokens" where
  "validate_resume now1 now2 deviceID token m =
    (if token = [] then (False, m)
     else let m1 = purgeExpiredLocked now1 m
          in (case m1 deviceID of None \<Rightarrow> False | Some e \<Rightarrow> rs_token e = token \<and> now2 < rs_expires e, m1))"

interpretation resumes: expiring purgeExpiredLocked "\<lambda>m (d, e). m d = Some e" "\<lambda>t (d, e). \<not> t < rs_expires e"
  by unfold_locales (auto simp: purgeExpiredLocked_def split: option.splits if_splits)

lemma validate_resume_iff:
  "now1 \<le> now2 \<Longrightarrow> fst (validate_resume now1 now2 d token m) \<longleftrightarrow>
    token \<noteq> [] \<and> (\<exists>e. m d = Some e \<and> rs_token e = token \<and> now2 < rs_expires e)"
  by (auto simp: validate_resume_def Let_def purgeExpiredLocked_def split: option.splits if_splits)

subsection \<open>Properties\<close>

text \<open>C10: A mutating request is executed at most once. Whatever the interleaving of the request with
  its retries on any connections, of the answers, failures, waits and purges, the handler of a request
  that was never answered with an error frame and never purged has been started at most once; and no
  channel of the ledger is ever closed twice.\<close>

theorem request_runs_once:
  assumes "disp_reach s" "k \<notin> dp_errors s" "k \<notin> dp_purged s"
  shows "count_list (dp_started s) k \<le> 1 \<and> \<not> l_panic (dp_ledger s)"
  using reach_once [OF assms(1), of k] chans_reach [OF assms(1)] assms(2,3) by (auto simp: once_at_def chans_ok_def)

definition ex_disp :: dispatch where
  "ex_disp = first_begin 5 0 ''d'' ''r'' idemExecute ((note_purge 5 [] disp_start)\<lparr>dp_ledger := new_entry 5 (idemKey ''d'' ''r'') newIdempotencyLedger\<rparr>)"

lemma purge_start: "purgeLocked now ord newIdempotencyLedger = newIdempotencyLedger"
  by (cases ord) (simp_all add: purgeLocked_def newIdempotencyLedger_def)

lemma ex_disp_reach: "disp_reach ex_disp"
proof -
  have d: "dp_ledger disp_start = newIdempotencyLedger" by (simp add: disp_start_def)
  have "begin_request 5 [] ''d'' ''r'' (dp_ledger disp_start) = (idemExecute, new_entry 5 (idemKey ''d'' ''r'') newIdempotencyLedger)"
    unfolding d begin_request_def Let_def purge_start by (simp add: newIdempotencyLedger_def)
  then show ?thesis unfolding ex_disp_def by (intro dr_step [OF dr_start ds_begin]) (simp_all add: disp_start_def)
qed

lemma ex_disp_simps:
  "dp_phase ex_disp = [0 \<mapsto> (''d'', ''r'', Running)]" "dp_started ex_disp = [idemKey ''d'' ''r'']" "dp_errors ex_disp = {}"
  "dp_purged ex_disp = {}" "dp_ledger ex_disp = new_entry 5 (idemKey ''d'' ''r'') newIdempotencyLedger"
  by (simp_all add: ex_disp_def ledger_simps disp_start_def newIdempotencyLedger_def)

lemma ex_disp_entry:
  "entry_of (dp_ledger ex_disp) (idemKey ''d'' ''r'') =
    Some \<lparr>ie_done = 0, ie_frame = None, ie_failed = False, ie_finished = False, ie_at = 5\<rparr>"
  by (simp add: ex_disp_simps ledger_simps newIdempotencyLedger_def)

theorem request_runs_once_witness:
  "count_list (dp_started ex_disp) (idemKey ''d'' ''r'') \<le> 1 \<and> \<not> l_panic (dp_ledger ex_disp)"
  by (rule request_runs_once [OF ex_disp_reach]) (simp_all add: ex_disp_simps)

text \<open>A retry gets the first answer. Once the running handler of a request has written its
  response, every later \<open>begin\<close> for that request, after any steps, replays exactly those bytes, until
  a purge has dropped the entry.\<close>

theorem retry_gets_first_answer:
  assumes "disp_reach s" "dp_phase s n = Some (d, r, Running)" "entry_of (dp_ledger s) (idemKey d r) = Some e"
    and "\<not> ie_finished e" "\<not> ie_failed e" "b \<noteq> []"
    and "disp_step\<^sup>*\<^sup>* (set_ledger (capture now ord d r b (dp_ledger s)) s) s2"
    and "begin_request now2 ord2 d r (dp_ledger s2) = (a, l)" "idemKey d r \<notin> dp_purged (note_purge now2 ord2 s2)"
  shows "a = idemReplay (Some b)"
proof -
  let ?k = "idemKey d r" let ?e = "e\<lparr>ie_frame := Some b, ie_finished := True, ie_at := now\<rparr>"
  let ?s1 = "set_ledger (capture now ord d r b (dp_ledger s)) s"
  have dr: "d \<noteq> []" "r \<noteq> []" using named_reach [OF assms(1,2)] by auto
  have key: "keyed_ledger (dp_ledger s)" by (rule keyed_reach [OF assms(1)])
  have nop: "?k \<notin> dp_purged s2" using assms(9) by (simp add: ledger_simps)
  moreover have "dp_purged ?s1 \<subseteq> dp_purged s2"
    using assms(7) by (induction rule: rtranclp_induct) (auto dest: purged_mono)
  ultimately have "?k \<in> dom (entry_of (capture now ord d r b (dp_ledger s)))"
    using assms(3) by (auto simp: ledger_simps)
  moreover have "purged_to (Some ?e) (entry_of (capture now ord d r b (dp_ledger s)) ?k)"
    using finish_purge [OF key, where k = ?k and j = ?k and e = "e\<lparr>ie_frame := Some b\<rparr>" and now = now and ?now2.0 = now and ord = ord]
      assms(3,4,6) dr by (simp add: capture_def Let_def)
  ultimately have s1: "entry_of (dp_ledger ?s1) ?k = Some ?e" by (auto simp: purged_to_def ledger_simps)
  have set: "settled ?e" using assms(5,6) by (simp add: settled_def empty_frame_def)
  have k1: "keyed_ledger (dp_ledger ?s1)" using keyed_ops(3) [OF key] by (simp add: ledger_simps)
  have s2: "entry_of (dp_ledger s2) ?k = Some ?e" "keyed_ledger (dp_ledger s2)"
    using settled_steps [OF assms(7) k1 s1 set nop] by auto
  have "entry_of (purgeLocked now2 ord2 (dp_ledger s2)) ?k = Some ?e"
    using purge_props(2) [OF s2(2), of ?k now2 ord2] s2(1) assms(9) by (auto simp: purged_to_def ledger_simps)
  then show ?thesis using assms(5,8) dr by (simp add: begin_request_def Let_def)
qed

theorem retry_gets_first_answer_witness:
  "fst (begin_request 7 [] ''d'' ''r'' (capture 6 [] ''d'' ''r'' ''ok'' (dp_ledger ex_disp))) = idemReplay (Some ''ok'')"
proof -
  let ?l = "capture 6 [] ''d'' ''r'' ''ok'' (dp_ledger ex_disp)" let ?s2 = "set_ledger ?l ex_disp"
  have "idemKey ''d'' ''r'' \<notin> dp_purged (note_purge 7 [] ?s2)"
    by (simp add: ledger_simps ex_disp_simps) (simp add: capture_def Let_def purgeLocked_def expired_entry_def finish_def close_done_def put_entry_def new_entry_def
        newIdempotencyLedger_def idemKey_def)
  with retry_gets_first_answer [OF ex_disp_reach, of 0 "''d''" "''r''", OF _ ex_disp_entry, where b = "''ok''" and now = 6 and ord = "[]" and ?s2.0 = ?s2]
  show ?thesis by (simp add: ex_disp_simps ledger_simps prod_eq_iff)
qed

text \<open>An error frame for a retry makes the request run again while it is still running. When a
  retry of a request in flight is turned away, because the connection's slots are taken or because its
  own wait gave up, the error frame marks the entry of the running handler as failed, and the next
  retry starts the handler a second time.\<close>

theorem error_frame_reruns:
  assumes "disp_reach s" "dp_phase s n = Some (d, r, Running)" "entry_of (dp_ledger s) (idemKey d r) = Some e"
    and "\<not> ie_finished e" "dp_phase s m = None"
  shows "\<exists>s2. disp_reach s2 \<and> dp_phase s2 n = Some (d, r, Running) \<and> dp_phase s2 m = Some (d, r, Running)"
proof -
  let ?k = "idemKey d r" let ?s1 = "error_frame 0 d r s"
  have dr: "d \<noteq> []" "r \<noteq> []" using named_reach [OF assms(1,2)] by auto
  have r1: "disp_reach ?s1" by (rule dr_step [OF assms(1) ds_refused [OF dr]])
  have key: "keyed_ledger (dp_ledger ?s1)" by (rule keyed_reach [OF r1])
  have e1: "entry_of (dp_ledger ?s1) ?k = Some (e\<lparr>ie_failed := True, ie_finished := True, ie_at := 0\<rparr>)"
    using assms(3,4) dr by (simp add: ledger_simps failFrame_def Let_def)
  obtain a l where bg: "begin_request 0 [] d r (dp_ledger ?s1) = (a, l)" by fastforce
  have "a = idemExecute"
    using bg dr purge_props(2) [OF key, of ?k 0 "[]"] e1
    by (auto simp: begin_request_def Let_def purged_to_def split: option.splits if_splits)
  moreover have m: "dp_phase ?s1 m = None" using assms(5) by (simp add: ledger_simps)
  moreover have "n \<noteq> m" using assms(2,5) by auto
  ultimately show ?thesis
    using dr_step [OF r1 ds_begin [OF m dr bg]] assms(2)
    by (intro exI [of _ "first_begin 0 m d r a ((note_purge 0 [] ?s1)\<lparr>dp_ledger := l\<rparr>)"]) (simp add: ledger_simps)
qed

theorem error_frame_reruns_witness:
  "\<exists>s2. disp_reach s2 \<and> dp_phase s2 0 = Some (''d'', ''r'', Running) \<and> dp_phase s2 1 = Some (''d'', ''r'', Running)"
  by (rule error_frame_reruns [OF ex_disp_reach _ ex_disp_entry]) (simp_all add: ex_disp_simps)

end
