(* ===== verification/Gateway.thy ===== *)
theory Gateway
  imports Devices Pairing Ledger Ownership
begin

text \<open>
  Connections and their identity: the connection table and the authentication half of
  \<open>internal/ws/server.go\<close> (\<open>handleWS\<close>, \<open>handleMessage\<close>'s gate, \<open>handleAuth\<close>,
  \<open>handlePairClaim\<close>, \<open>authenticate\<close>, \<open>setAuthed\<close>, \<open>verifyClientKey\<close>,
  \<open>replaceElders\<close>, \<open>DisconnectDevices\<close>, \<open>CloseClients\<close>, \<open>BroadcastEvent\<close>,
  \<open>allowPairClaim\<close>), over the device store, the pair codes, the resume tokens and the session
  owners of the other theories.

  A connection is a number. \<open>gw_client\<close> holds the connections whose handler is running,
  \<open>gw_clients\<close> is the map \<open>s.clients\<close>, and \<open>cl_open\<close> is cleared when a
  connection is told to close. Each connection has one reader, so it handles one message at a time;
  \<open>gw_phase\<close> is how far an authentication in progress has come. Frames, deadlines and the close
  handshake are not modelled.
\<close>

subsection \<open>State\<close>

record ws_client =
  cl_seq :: nat
  cl_authed :: bool
  cl_deviceID :: string
  cl_failedClaims :: nat
  cl_failedAuths :: nat
  cl_keyFP :: string
  cl_keySPKI :: string
  cl_negotiated :: int
  cl_open :: bool

record ws_config =
  requireDeviceToken :: bool
  requireClientKey :: bool
  maxClients :: int

datatype auth_phase = Checked Device | Stamped string | Enrolled string

record gateway =
  gw_client :: "nat \<rightharpoonup> ws_client"
  gw_clients :: "nat list"
  gw_clientSeq :: nat
  gw_phase :: "nat \<rightharpoonup> auth_phase"
  gw_file :: dev_file
  gw_store :: dev_store
  gw_codes :: "pairCodeRecord list"
  gw_resume :: resume_tokens
  gw_pairStart :: gotime
  gw_pairCount :: nat

datatype gw_error = StoreError dev_error | ErrClientKeyRequired | ErrClientKeyMismatch | ErrAlreadyAuthed

definition V1 :: int where "V1 = 1"
definition V2 :: int where "V2 = 2"
definition SupportedVersions :: "int list" where "SupportedVersions = [V1, V2]"

definition NegotiateVersion :: "int list \<Rightarrow> int" where
  "NegotiateVersion offered =
    (if offered = [] then V1
     else fold (\<lambda>v best. fold (\<lambda>s b. if v = s \<and> v > b then v else b) SupportedVersions best) offered 0)"

definition edit_client :: "nat \<Rightarrow> (ws_client \<Rightarrow> ws_client) \<Rightarrow> gateway \<Rightarrow> gateway" where
  "edit_client n h g = g\<lparr>gw_client := (gw_client g)(n := map_option h (gw_client g n))\<rparr>"

definition shutdown :: "nat \<Rightarrow> gateway \<Rightarrow> gateway" where
  "shutdown n = edit_client n (\<lambda>c. c\<lparr>cl_open := False\<rparr>)"

definition authed_as :: "gateway \<Rightarrow> nat \<Rightarrow> string option" where
  "authed_as g n = (case gw_client g n of Some c \<Rightarrow> if cl_authed c then Some (cl_deviceID c) else None | None \<Rightarrow> None)"

subsection \<open>Admission and departure\<close>

definition client_seq :: "gateway \<Rightarrow> nat \<Rightarrow> nat" where
  "client_seq g n = (case gw_client g n of Some c \<Rightarrow> cl_seq c | None \<Rightarrow> 0)"

definition oldestUnauthedLocked :: "gateway \<Rightarrow> nat option" where
  "oldestUnauthedLocked g =
    fold (\<lambda>n oldest. if authed_as g n \<noteq> None then oldest
            else case oldest of None \<Rightarrow> Some n | Some m \<Rightarrow> if client_seq g n < client_seq g m then Some n else Some m)
      (gw_clients g) None"

definition new_client :: "ws_config \<Rightarrow> nat \<Rightarrow> string \<Rightarrow> string \<Rightarrow> ws_client" where
  "new_client cfg sq fp spki =
    \<lparr>cl_seq = sq, cl_authed = \<not> requireDeviceToken cfg,
     cl_deviceID = (if requireDeviceToken cfg then [] else ''dev''),
     cl_failedClaims = 0, cl_failedAuths = 0, cl_keyFP = fp, cl_keySPKI = spki, cl_negotiated = 0, cl_open = True\<rparr>"

definition add_client :: "ws_config \<Rightarrow> nat \<Rightarrow> string \<Rightarrow> string \<Rightarrow> gateway \<Rightarrow> gateway" where
  "add_client cfg n fp spki g =
    g\<lparr>gw_clientSeq := Suc (gw_clientSeq g), gw_clients := gw_clients g @ [n],
      gw_client := (gw_client g)(n \<mapsto> new_client cfg (Suc (gw_clientSeq g)) fp spki)\<rparr>"

text \<open>\<open>handleWS\<close> up to the read loop, on a fresh connection; false when it is refused.\<close>

definition admit :: "ws_config \<Rightarrow> nat \<Rightarrow> string \<Rightarrow> string \<Rightarrow> gateway \<Rightarrow> bool \<times> gateway" where
  "admit cfg n fp spki g =
    (if 0 < maxClients cfg \<and> maxClients cfg \<le> int (length (gw_clients g))
     then case oldestUnauthedLocked g of
            None \<Rightarrow> (False, g)
          | Some v \<Rightarrow> (True, add_client cfg n fp spki (shutdown v (g\<lparr>gw_clients := removeAll v (gw_clients g)\<rparr>)))
     else (True, add_client cfg n fp spki g))"

text \<open>The deferred end of \<open>handleWS\<close>.\<close>

definition leave :: "nat \<Rightarrow> gateway \<Rightarrow> gateway" where
  "leave n g = g\<lparr>gw_clients := removeAll n (gw_clients g), gw_client := (gw_client g)(n := None), gw_phase := (gw_phase g)(n := None)\<rparr>"

definition DisconnectDevices :: "string list \<Rightarrow> gateway \<Rightarrow> gateway" where
  "DisconnectDevices deviceIDs g =
    (let want = filter (\<lambda>i. i \<noteq> []) deviceIDs
     in fold shutdown (filter (\<lambda>n. case gw_client g n of Some c \<Rightarrow> cl_deviceID c \<in> set want | None \<Rightarrow> False) (gw_clients g)) g)"

definition CloseClients :: "gateway \<Rightarrow> gateway" where
  "CloseClients g = (fold shutdown (gw_clients g) g)\<lparr>gw_clients := []\<rparr>"

subsection \<open>Authentication\<close>

definition setAuthed :: "nat \<Rightarrow> string \<Rightarrow> gateway \<Rightarrow> gw_error option \<times> gateway" where
  "setAuthed n deviceID g =
    (case gw_client g n of
       Some c \<Rightarrow> if cl_authed c \<and> cl_deviceID c \<noteq> [] \<and> cl_deviceID c \<noteq> deviceID then (Some ErrAlreadyAuthed, g)
                 else (None, edit_client n (\<lambda>c. c\<lparr>cl_authed := True, cl_deviceID := deviceID\<rparr>) g)
     | None \<Rightarrow> (None, g))"

text \<open>The store half of \<open>verifyClientKey\<close>: the backfill's own error is only logged.\<close>

definition verifyClientKey :: "ws_config \<Rightarrow> dev_io \<Rightarrow> ws_client \<Rightarrow> Device \<Rightarrow> dev_state \<Rightarrow> gw_error option \<times> dev_state" where
  "verifyClientKey cfg io c dev fs =
    (if \<not> requireClientKey cfg then (None, fs)
     else if cl_keyFP c = [] then (Some ErrClientKeyRequired, fs)
     else if cl_keyFP c \<noteq> dv_ClientKeyFP dev then (Some ErrClientKeyMismatch, fs)
     else if dv_ClientKeySPKI dev = [] \<and> cl_keySPKI c \<noteq> []
     then (None, snd (BackfillClientKeySPKI io (dv_ID dev) (cl_keySPKI c) fs))
     else (None, fs))"

definition set_store :: "dev_state \<Rightarrow> gateway \<Rightarrow> gateway" where
  "set_store fs g = g\<lparr>gw_file := fst fs, gw_store := snd fs\<rparr>"

definition auth_check :: "(string \<Rightarrow> string) \<Rightarrow> ws_config \<Rightarrow> dev_io \<Rightarrow> dev_io \<Rightarrow> ws_client \<Rightarrow> string \<Rightarrow> gateway \<Rightarrow> (gw_error + Device) \<times> gateway" where
  "auth_check sha cfg io io2 c token g =
    (if \<not> requireDeviceToken cfg
     then (Inr \<lparr>dv_ID = ''dev'', dv_Name = ''dev'', dv_CreatedAt = 0, dv_LastUsedAt = None, dv_ClientKeyFP = [], dv_ClientKeySPKI = []\<rparr>, g)
     else case Validate sha io token (gw_file g, gw_store g) of
            (Inl e, fs) \<Rightarrow> (Inl (StoreError e), set_store fs g)
          | (Inr dev, fs) \<Rightarrow>
              (case verifyClientKey cfg io2 c dev fs of
                 (Some e, fs1) \<Rightarrow> (Inl e, set_store fs1 g)
               | (None, fs1) \<Rightarrow> (Inr dev, set_store fs1 g)))"

definition replaceElders :: "ws_config \<Rightarrow> nat \<Rightarrow> string \<Rightarrow> gateway \<Rightarrow> gateway" where
  "replaceElders cfg n deviceID g =
    (if \<not> requireDeviceToken cfg then g
     else let elder = (\<lambda>m. m \<noteq> n \<and> authed_as g m = Some deviceID)
          in fold shutdown (filter elder (gw_clients g)) (g\<lparr>gw_clients := filter (\<lambda>m. \<not> elder m) (gw_clients g)\<rparr>))"

definition authenticate ::
  "(string \<Rightarrow> string) \<Rightarrow> ws_config \<Rightarrow> dev_io \<Rightarrow> dev_io \<Rightarrow> nat \<Rightarrow> ws_client \<Rightarrow> string \<Rightarrow> gateway \<Rightarrow> (gw_error + Device) \<times> gateway" where
  "authenticate sha cfg io io2 n c token g =
    (case auth_check sha cfg io io2 c token g of
       (Inl e, g1) \<Rightarrow> (Inl e, g1)
     | (Inr dev, g1) \<Rightarrow>
         (case setAuthed n (dv_ID dev) g1 of
            (Some e, g2) \<Rightarrow> (Inl e, g2)
          | (None, g2) \<Rightarrow> (Inr dev, replaceElders cfg n (dv_ID dev) g2)))"

definition maxFailedAuths :: nat where "maxFailedAuths = 10"

datatype auth_reply = BadVersion | RateLimited | AuthError gw_error | AuthOK Device int bool "string option"

text \<open>\<open>resume\<close> is the token the client presents, \<open>requested\<close> the window it asks for,
  \<open>minted\<close> what the random source gives. \<open>AuthOK\<close> holds the device, the version, whether the
  presented token was accepted, and the new one.\<close>

definition handleAuth ::
  "(string \<Rightarrow> string) \<Rightarrow> ws_config \<Rightarrow> duration \<Rightarrow> dev_io \<Rightarrow> dev_io \<Rightarrow> nat \<Rightarrow> ws_client \<Rightarrow> string \<Rightarrow> int list \<Rightarrow> string option \<Rightarrow> duration \<Rightarrow>
    string option \<Rightarrow> gateway \<Rightarrow> auth_reply \<times> gateway" where
  "handleAuth sha cfg window io io2 n c token offered resume requested minted g =
    (let negotiated = NegotiateVersion offered
     in if negotiated = 0 then (BadVersion, g)
        else if maxFailedAuths \<le> cl_failedAuths c then (RateLimited, shutdown n g)
        else case authenticate sha cfg io io2 n c token g of
          (Inl e, g1) \<Rightarrow> (AuthError e, edit_client n (\<lambda>c. c\<lparr>cl_failedAuths := Suc (cl_failedAuths c)\<rparr>) g1)
        | (Inr dev, g1) \<Rightarrow>
            let g2 = edit_client n (\<lambda>c. c\<lparr>cl_negotiated := negotiated\<rparr>) g1;
                t = io_now io
            in if negotiated < V2 then (AuthOK dev negotiated False None, g2)
               else case (case resume of None \<Rightarrow> (False, gw_resume g2) | Some tok \<Rightarrow> validate_resume t t (dv_ID dev) tok (gw_resume g2)) of
                 (resumed, m1) \<Rightarrow>
                   (case issue window minted t t (dv_ID dev) requested m1 of
                      ((tok, w, ok), m2) \<Rightarrow> (AuthOK dev negotiated resumed (if ok then Some tok else None), g2\<lparr>gw_resume := m2\<rparr>)))"

subsection \<open>Pairing\<close>

definition maxPairClaimsPerMinute :: nat where "maxPairClaimsPerMinute = 30"
definition maxFailedClaims :: nat where "maxFailedClaims = 10"
definition maxNameLen :: nat where "maxNameLen = 256"

definition allowPairClaim :: "gotime \<Rightarrow> gateway \<Rightarrow> bool \<times> gateway" where
  "allowPairClaim now g =
    (let g1 = (if IsZero (gw_pairStart g) \<or> now - gw_pairStart g \<ge> minute then g\<lparr>gw_pairStart := now, gw_pairCount := 0\<rparr> else g)
     in if gw_pairCount g1 \<ge> maxPairClaimsPerMinute then (False, g1)
        else (True, g1\<lparr>gw_pairCount := Suc (gw_pairCount g1)\<rparr>))"

definition bump_claims :: "nat \<Rightarrow> gateway \<Rightarrow> gateway" where
  "bump_claims n = edit_client n (\<lambda>c. c\<lparr>cl_failedClaims := Suc (cl_failedClaims c)\<rparr>)"

datatype pair_reply = PairError string | PairOK string Device int

text \<open>
  What the outside gives a pair claim: the clocks, the success of each read and the outcome of each
  write of the two files, and the random token and id of the device.
\<close>

record pair_io =
  px_now :: gotime
  px_later :: gotime
  px_loaded :: bool
  px_saved :: write_result
  px_restored :: write_result
  px_create :: dev_io
  px_revoke :: dev_io
  px_token :: "dev_error + string"
  px_id :: string

text \<open>The part of \<open>handlePairClaim\<close> that follows the taking of the code.\<close>

definition pair_name :: "string \<Rightarrow> string \<Rightarrow> string" where
  "pair_name taken given = take maxNameLen (if TrimSpace given \<noteq> [] then TrimSpace given else taken)"

definition enroll ::
  "(string \<Rightarrow> string) \<Rightarrow> (string \<Rightarrow> string) \<Rightarrow> (string \<Rightarrow> bool) \<Rightarrow> pair_io \<Rightarrow> ws_client \<Rightarrow> TakenPairCode \<Rightarrow> string \<Rightarrow> gateway \<Rightarrow>
    (dev_error + (Device \<times> string)) \<times> gateway" where
  "enroll sha clean isUUID px c taken name g =
    (case CreateWithClientKey sha clean isUUID (px_create px) (px_token px) (px_id px) (pair_name (tk_Name taken) name)
            (cl_keyFP c) (cl_keySPKI c) (gw_file g, gw_store g) of
       (Inl e, fs) \<Rightarrow>
         (Inl e, (set_store fs g)\<lparr>gw_codes := snd (Restore (px_loaded px) (px_restored px) (px_later px) taken (gw_codes g))\<rparr>)
     | (Inr (dev, token), fs) \<Rightarrow>
         (if cl_keyFP c = [] then (Inr (dev, token), set_store fs g)
          else case RevokeByClientKeyFP (px_revoke px) (cl_keyFP c) (dv_ID dev) fs of
                 (Inl _, fs1) \<Rightarrow> (Inr (dev, token), set_store fs1 g)
               | (Inr twins, fs1) \<Rightarrow> (Inr (dev, token), DisconnectDevices (map dv_ID twins) (set_store fs1 g))))"

definition handlePairClaim ::
  "(string \<Rightarrow> string) \<Rightarrow> (string \<Rightarrow> string) \<Rightarrow> (string \<Rightarrow> bool) \<Rightarrow> (string \<Rightarrow> string) \<Rightarrow> ws_config \<Rightarrow> pair_io \<Rightarrow> nat \<Rightarrow> ws_client \<Rightarrow>
    string option \<Rightarrow> string \<Rightarrow> int list \<Rightarrow> gateway \<Rightarrow> pair_reply \<times> gateway" where
  "handlePairClaim sha clean isUUID unicode cfg px n c code name offered g =
    (if cl_authed c then (PairError ''already_authed'', g)
     else if maxFailedClaims \<le> cl_failedClaims c then (PairError ''rate_limited'', g)
     else case allowPairClaim (px_now px) g of
       (False, g1) \<Rightarrow> (PairError ''rate_limited'', g1)
     | (True, g1) \<Rightarrow>
         (case code of
            None \<Rightarrow> (PairError ''bad_payload'', g1)
          | Some raw \<Rightarrow>
              if TrimSpace raw = [] then (PairError ''invalid_code'', bump_claims n g1)
              else if NegotiateVersion offered = 0 then (PairError ''bad_version'', g1)
              else if requireClientKey cfg \<and> cl_keyFP c = [] then (PairError ''client_key_required'', g1)
              else (case Take sha unicode (px_loaded px) (px_saved px) (px_now px) raw (gw_codes g1) of
                (Inl e, codes) \<Rightarrow>
                  (PairError (if e = ErrExpiredPairCode then ''expired'' else ''invalid_code''),
                   bump_claims n (g1\<lparr>gw_codes := codes\<rparr>))
              | (Inr taken, codes) \<Rightarrow>
                  (case enroll sha clean isUUID px c taken name (g1\<lparr>gw_codes := codes\<rparr>) of
                     (Inl e, g2) \<Rightarrow> (PairError ''create_failed'', g2)
                   | (Inr (dev, token), g2) \<Rightarrow>
                       (case setAuthed n (dv_ID dev) g2 of
                          (Some e, g3) \<Rightarrow> (PairError ''already_authed'', g3)
                        | (None, g3) \<Rightarrow>
                            let v = NegotiateVersion offered
                            in (PairOK token dev v, if V2 \<le> v then edit_client n (\<lambda>c. c\<lparr>cl_negotiated := v\<rparr>) g3 else g3))))))"

subsection \<open>Messages and events\<close>

text \<open>The gate at the head of \<open>handleMessage\<close>: whether a message reaches its handler.\<close>

definition gate :: "ws_config \<Rightarrow> ws_client \<Rightarrow> int \<Rightarrow> string \<Rightarrow> bool" where
  "gate cfg c version typ \<longleftrightarrow>
    V1 \<le> version \<and> version \<le> (if cl_negotiated c = 0 then V1 else cl_negotiated c) \<and>
    \<not> (requireDeviceToken cfg \<and> \<not> cl_authed c \<and> typ \<noteq> ''auth'' \<and> typ \<noteq> ''pair.claim'')"

text \<open>\<open>BroadcastEvent\<close>: the connections an event of a session is sent to.\<close>

definition broadcast_targets :: "owners \<Rightarrow> string \<Rightarrow> gateway \<Rightarrow> nat list" where
  "broadcast_targets w sessionID g =
    (if sessionID \<noteq> [] \<and> snd (OwnerState w sessionID) \<noteq> OwnerKnown then []
     else let owner = (if sessionID \<noteq> [] then fst (OwnerState w sessionID) else [])
          in filter (\<lambda>n. case authed_as g n of
               None \<Rightarrow> False
             | Some d \<Rightarrow> \<not> (sessionID \<noteq> [] \<and> owner \<noteq> [] \<and> d \<noteq> owner)) (gw_clients g))"

subsection \<open>Interleaved connections\<close>

text \<open>
  The sections of the handlers of different connections in any order: an authentication is its check
  (the token and the key), the stamp of \<open>setAuthed\<close> and \<open>replaceElders\<close>; a pair claim is the
  enrolment and the stamp. \<open>g_store\<close> is every operation on the device file, by this process or, with
  another cache, by another; \<open>g_misc\<close> every change that leaves the connections' identities alone.
  The id of a new device is a fresh UUID, and until its claim is answered nobody else has its token.
\<close>

definition same_identity :: "gateway \<Rightarrow> gateway \<Rightarrow> bool" where
  "same_identity g g' \<longleftrightarrow> gw_clients g' = gw_clients g \<and> gw_phase g' = gw_phase g \<and>
    (\<forall>n. map_option (\<lambda>c. (cl_authed c, cl_deviceID c, cl_keyFP c)) (gw_client g' n) =
         map_option (\<lambda>c. (cl_authed c, cl_deviceID c, cl_keyFP c)) (gw_client g n))"

definition set_gphase :: "nat \<Rightarrow> auth_phase option \<Rightarrow> gateway \<Rightarrow> gateway" where
  "set_gphase n p g = g\<lparr>gw_phase := (gw_phase g)(n := p)\<rparr>"

inductive gw_step ::
  "(string \<Rightarrow> string) \<Rightarrow> (string \<Rightarrow> string) \<Rightarrow> (string \<Rightarrow> bool) \<Rightarrow> (string \<Rightarrow> string) \<Rightarrow> ws_config \<Rightarrow> gateway \<Rightarrow> gateway \<Rightarrow> bool"
  for sha clean isUUID unicode cfg where
  g_admit: "gw_client g n = None \<Longrightarrow> gw_step sha clean isUUID unicode cfg g (snd (admit cfg n fp spki g))"
| g_leave: "gw_step sha clean isUUID unicode cfg g (leave n g)"
| g_check: "gw_client g n = Some c \<Longrightarrow> gw_phase g n = None \<Longrightarrow> auth_check sha cfg io io2 c token g = (Inr dev, g1) \<Longrightarrow>
    gw_step sha clean isUUID unicode cfg g (set_gphase n (Some (Checked dev)) g1)"
| g_reject: "gw_client g n = Some c \<Longrightarrow> auth_check sha cfg io io2 c token g = (Inl e, g1) \<Longrightarrow>
    gw_step sha clean isUUID unicode cfg g g1"
| g_stamp: "gw_phase g n = Some (Checked dev) \<Longrightarrow> setAuthed n (dv_ID dev) g = (None, g1) \<Longrightarrow>
    gw_step sha clean isUUID unicode cfg g (set_gphase n (Some (Stamped (dv_ID dev))) g1)"
| g_clash: "gw_phase g n = Some (Checked dev) \<Longrightarrow> setAuthed n (dv_ID dev) g = (Some e, g1) \<Longrightarrow>
    gw_step sha clean isUUID unicode cfg g (set_gphase n None g1)"
| g_replace: "gw_phase g n = Some (Stamped d) \<Longrightarrow>
    gw_step sha clean isUUID unicode cfg g (set_gphase n None (replaceElders cfg n d g))"
| g_claim: "gw_client g n = Some c \<Longrightarrow> gw_phase g n = None \<Longrightarrow> \<not> cl_authed c \<Longrightarrow> \<not> (requireClientKey cfg \<and> cl_keyFP c = []) \<Longrightarrow>
    Take sha unicode (px_loaded px) (px_saved px) (px_now px) raw (gw_codes g) = (Inr taken, codes) \<Longrightarrow>
    enroll sha clean isUUID px c taken name (g\<lparr>gw_codes := codes\<rparr>) = (Inr (dev, token), g1) \<Longrightarrow>
    gw_step sha clean isUUID unicode cfg g (set_gphase n (Some (Enrolled (dv_ID dev))) g1)"
| g_enrolled: "gw_phase g n = Some (Enrolled d) \<Longrightarrow> setAuthed n d g = (None, g1) \<Longrightarrow>
    (\<forall>m. m \<noteq> n \<longrightarrow> authed_as g m \<noteq> Some d) \<Longrightarrow>
    gw_step sha clean isUUID unicode cfg g (set_gphase n None g1)"
| g_disconnect: "gw_step sha clean isUUID unicode cfg g (DisconnectDevices ids g)"
| g_close: "gw_step sha clean isUUID unicode cfg g (CloseClients g)"
| g_store: "gw_step sha clean isUUID unicode cfg g (set_store (run_op sha clean isUUID x (gw_file g, gw_store g)) g)"
| g_other: "gw_step sha clean isUUID unicode cfg g (g\<lparr>gw_file := fst (run_op sha clean isUUID x (gw_file g, s))\<rparr>)"
| g_misc: "same_identity g g' \<Longrightarrow> gw_file g' = gw_file g \<Longrightarrow> gw_step sha clean isUUID unicode cfg g g'"

inductive gw_reach ::
  "(string \<Rightarrow> string) \<Rightarrow> (string \<Rightarrow> string) \<Rightarrow> (string \<Rightarrow> bool) \<Rightarrow> (string \<Rightarrow> string) \<Rightarrow> ws_config \<Rightarrow> gateway \<Rightarrow> bool"
  for sha clean isUUID unicode cfg where
  gr_start: "gw_client g = Map.empty \<Longrightarrow> gw_clients g = [] \<Longrightarrow> gw_phase g = Map.empty \<Longrightarrow> gw_reach sha clean isUUID unicode cfg g"
| gr_step: "gw_reach sha clean isUUID unicode cfg g \<Longrightarrow> gw_step sha clean isUUID unicode cfg g g' \<Longrightarrow> gw_reach sha clean isUUID unicode cfg g'"

subsection \<open>What the pieces change\<close>

named_theorems gw_simps \<open>what the gateway's operations do to its connections\<close>

text \<open>A connection as the invariants see it: authenticated or not, its device and its key.\<close>

definition face :: "gateway \<Rightarrow> nat \<Rightarrow> (bool \<times> string \<times> string) option" where
  "face g n = map_option (\<lambda>c. (cl_authed c, cl_deviceID c, cl_keyFP c)) (gw_client g n)"

lemma face_authed: "authed_as g n = Some d \<longleftrightarrow> (\<exists>k. face g n = Some (True, d, k))"
  by (auto simp: authed_as_def face_def split: option.splits)

lemma same_identity_face: "same_identity g g' \<longleftrightarrow> gw_clients g' = gw_clients g \<and> gw_phase g' = gw_phase g \<and> face g' = face g"
  by (auto simp: same_identity_def face_def fun_eq_iff)

lemma edit_simps' [gw_simps]:
  "gw_clients (edit_client n h g) = gw_clients g" "gw_phase (edit_client n h g) = gw_phase g"
  "gw_file (edit_client n h g) = gw_file g" "gw_codes (edit_client n h g) = gw_codes g" "gw_store (edit_client n h g) = gw_store g"
  by (simp_all add: edit_client_def)

lemma face_edit:
  "(\<And>c. (cl_authed (h c), cl_deviceID (h c), cl_keyFP (h c)) = (cl_authed c, cl_deviceID c, cl_keyFP c)) \<Longrightarrow> face (edit_client n h g) = face g"
  by (auto simp: face_def edit_client_def fun_eq_iff option.map_comp comp_def)

lemma shutdown_simps [gw_simps]:
  "gw_clients (shutdown n g) = gw_clients g" "gw_phase (shutdown n g) = gw_phase g" "face (shutdown n g) = face g"
  "gw_file (shutdown n g) = gw_file g" "gw_codes (shutdown n g) = gw_codes g" "gw_store (shutdown n g) = gw_store g"
  by (simp_all add: shutdown_def gw_simps face_edit)

lemma fold_shutdown_simps [gw_simps]:
  "gw_clients (fold shutdown ns g) = gw_clients g" "gw_phase (fold shutdown ns g) = gw_phase g" "face (fold shutdown ns g) = face g"
  "gw_file (fold shutdown ns g) = gw_file g" "gw_codes (fold shutdown ns g) = gw_codes g" "gw_store (fold shutdown ns g) = gw_store g"
  by (induction ns arbitrary: g) (simp_all add: gw_simps)

lemma set_simps [gw_simps]:
  "gw_clients (set_store fs g) = gw_clients g" "gw_phase (set_store fs g) = gw_phase g" "face (set_store fs g) = face g"
  "gw_file (set_store fs g) = fst fs" "gw_codes (set_store fs g) = gw_codes g" "gw_store (set_store fs g) = snd fs"
  "gw_clients (set_gphase n p g) = gw_clients g" "gw_phase (set_gphase n p g) = (gw_phase g)(n := p)" "face (set_gphase n p g) = face g"
  "gw_file (set_gphase n p g) = gw_file g"
  by (simp_all add: set_store_def set_gphase_def face_def fun_eq_iff)

lemma face_record [gw_simps]:
  "face (g\<lparr>gw_clients := ns\<rparr>) = face g" "face (g\<lparr>gw_codes := cs\<rparr>) = face g" "face (g\<lparr>gw_file := f\<rparr>) = face g"
  "face (g\<lparr>gw_phase := ph\<rparr>) = face g"
  by (simp_all add: face_def fun_eq_iff)

lemma Disconnect_simps [gw_simps]:
  "gw_clients (DisconnectDevices ids g) = gw_clients g" "gw_phase (DisconnectDevices ids g) = gw_phase g"
  "face (DisconnectDevices ids g) = face g" "gw_file (DisconnectDevices ids g) = gw_file g" "gw_codes (DisconnectDevices ids g) = gw_codes g"
  "gw_store (DisconnectDevices ids g) = gw_store g"
  by (simp_all add: DisconnectDevices_def Let_def gw_simps)

lemma replace_simps [gw_simps]:
  "face (replaceElders cfg n d g) = face g" "gw_phase (replaceElders cfg n d g) = gw_phase g"
  "gw_clients (replaceElders cfg n d g) =
    (if requireDeviceToken cfg then filter (\<lambda>m. \<not> (m \<noteq> n \<and> authed_as g m = Some d)) (gw_clients g) else gw_clients g)"
  by (simp_all add: replaceElders_def Let_def gw_simps)

lemma setAuthed_cases:
  assumes "setAuthed n d g = (None, g1)"
  shows "gw_clients g1 = gw_clients g" "gw_phase g1 = gw_phase g" "gw_file g1 = gw_file g" "gw_codes g1 = gw_codes g" "gw_store g1 = gw_store g"
    "face g1 m = (if m = n then map_option (\<lambda>(a, d', k). (True, d, k)) (face g n) else face g m)"
    "face g n = Some (True, d', k) \<Longrightarrow> d' = [] \<or> d' = d"
  using assms by (auto simp: setAuthed_def edit_client_def face_def split: option.splits if_splits)

lemma setAuthed_clash: "setAuthed n d g = (Some e, g1) \<Longrightarrow> g1 = g"
  by (auto simp: setAuthed_def split: option.splits if_splits)

lemma auth_check_simps:
  assumes "auth_check sha cfg io io2 c token g = (res, g1)"
  shows "gw_clients g1 = gw_clients g" "gw_phase g1 = gw_phase g" "face g1 = face g" "gw_codes g1 = gw_codes g"
    "res = Inr dev \<Longrightarrow> requireClientKey cfg \<Longrightarrow> requireDeviceToken cfg \<Longrightarrow> cl_keyFP c \<noteq> [] \<and> dv_ClientKeyFP dev = cl_keyFP c"
  using assms
  by (auto simp: auth_check_def verifyClientKey_def gw_simps split: prod.splits sum.splits option.splits if_splits)

lemma enroll_simps:
  assumes "enroll sha clean isUUID px c taken name g = (res, g1)"
  shows "gw_clients g1 = gw_clients g" "gw_phase g1 = gw_phase g" "face g1 = face g"
  using assms by (auto simp: enroll_def gw_simps split: prod.splits sum.splits if_splits)

subsection \<open>The invariant of the connection table\<close>

lemma oldest_fold:
  "case fold (\<lambda>n oldest. if authed_as g n \<noteq> None then oldest
            else case oldest of None \<Rightarrow> Some n | Some m \<Rightarrow> if client_seq g n < client_seq g m then Some n else Some m) ns x of
     None \<Rightarrow> x = None \<and> (\<forall>n \<in> set ns. authed_as g n \<noteq> None)
   | Some v \<Rightarrow> (x = Some v \<or> v \<in> set ns \<and> authed_as g v = None) \<and>
       (\<forall>n \<in> set ns. authed_as g n = None \<longrightarrow> client_seq g v \<le> client_seq g n) \<and>
       (\<forall>m. x = Some m \<longrightarrow> client_seq g v \<le> client_seq g m)"
proof (induction ns arbitrary: x)
  case Nil
  then show ?case by (cases x) auto
next
  case (Cons n ns)
  let ?y = "if authed_as g n \<noteq> None then x
      else case x of None \<Rightarrow> Some n | Some m \<Rightarrow> if client_seq g n < client_seq g m then Some n else Some m"
  from Cons [of ?y] show ?case
    by (cases "authed_as g n"; cases x) (auto split: option.splits if_splits)
qed

lemma oldest_None: "oldestUnauthedLocked g = None \<longleftrightarrow> (\<forall>n \<in> set (gw_clients g). authed_as g n \<noteq> None)"
  using oldest_fold [where g = g and ns = "gw_clients g" and x = None] by (auto simp: oldestUnauthedLocked_def split: option.splits)

lemma oldest_Some:
  "oldestUnauthedLocked g = Some v \<Longrightarrow> v \<in> set (gw_clients g) \<and> authed_as g v = None \<and>
    (\<forall>n \<in> set (gw_clients g). authed_as g n = None \<longrightarrow> client_seq g v \<le> client_seq g n)"
  using oldest_fold [where g = g and ns = "gw_clients g" and x = None] by (auto simp: oldestUnauthedLocked_def split: option.splits)

fun phase_key :: "auth_phase \<Rightarrow> string \<Rightarrow> bool" where
  "phase_key (Checked dev) k \<longleftrightarrow> k \<noteq> [] \<and> dv_ClientKeyFP dev = k"
| "phase_key _ k \<longleftrightarrow> k \<noteq> []"

definition table_ok :: "ws_config \<Rightarrow> gateway \<Rightarrow> bool" where
  "table_ok cfg g \<longleftrightarrow> distinct (gw_clients g) \<and> (\<forall>n \<in> set (gw_clients g). face g n \<noteq> None) \<and>
    (\<forall>n. face g n = None \<longrightarrow> gw_phase g n = None) \<and>
    (0 < maxClients cfg \<longrightarrow> int (length (gw_clients g)) \<le> maxClients cfg)"

definition keys_ok :: "gateway \<Rightarrow> bool" where
  "keys_ok g \<longleftrightarrow> (\<forall>n a d k. face g n = Some (a, d, k) \<longrightarrow> (a \<longrightarrow> k \<noteq> []) \<and> (\<forall>p. gw_phase g n = Some p \<longrightarrow> phase_key p k))"

definition sockets_ok :: "gateway \<Rightarrow> bool" where
  "sockets_ok g \<longleftrightarrow> (\<forall>n d. gw_phase g n = Some (Stamped d) \<longrightarrow> authed_as g n = Some d) \<and>
    (\<forall>a b d. a \<in> set (gw_clients g) \<longrightarrow> b \<in> set (gw_clients g) \<longrightarrow> a \<noteq> b \<longrightarrow> authed_as g a = Some d \<longrightarrow> authed_as g b = Some d \<longrightarrow>
      gw_phase g a = Some (Stamped d) \<or> gw_phase g b = Some (Stamped d))"

lemma authed_as_face: "face g' = face g \<Longrightarrow> authed_as g' = authed_as g"
  by (simp add: fun_eq_iff) (metis face_authed not_Some_eq)

lemma face_add_client:
  "face (add_client cfg n fp spki g) m =
    (if m = n then Some (\<not> requireDeviceToken cfg, if requireDeviceToken cfg then [] else ''dev'', fp) else face g m)"
  by (simp add: add_client_def face_def new_client_def)

lemma admit_cases:
  obtains (refused) "admit cfg n fp spki g = (False, g)" "\<forall>m \<in> set (gw_clients g). authed_as g m \<noteq> None"
  | (room) "admit cfg n fp spki g = (True, add_client cfg n fp spki g)"
      "\<not> (0 < maxClients cfg \<and> maxClients cfg \<le> int (length (gw_clients g)))"
  | (evicted) v where "v \<in> set (gw_clients g)" "authed_as g v = None"
      "admit cfg n fp spki g = (True, add_client cfg n fp spki (shutdown v (g\<lparr>gw_clients := removeAll v (gw_clients g)\<rparr>)))"
proof (cases "0 < maxClients cfg \<and> maxClients cfg \<le> int (length (gw_clients g))")
  case True
  show thesis
  proof (cases "oldestUnauthedLocked g")
    case None
    then show thesis using True oldest_None [of g] by (intro refused) (simp_all add: admit_def)
  next
    case (Some v)
    then show thesis using True oldest_Some [OF Some] by (intro evicted [of v]) (simp_all add: admit_def)
  qed
qed (use room in \<open>simp add: admit_def\<close>)

lemma length_removeAll: "distinct xs \<Longrightarrow> x \<in> set xs \<Longrightarrow> Suc (length (removeAll x xs)) = length xs"
  by (induction xs) auto

lemma phase_face: "table_ok cfg g \<Longrightarrow> gw_phase g n = Some p \<Longrightarrow> face g n \<noteq> None"
  unfolding table_ok_def by (metis option.distinct(1))

lemma table_step:
  assumes "gw_step sha clean isUUID unicode cfg g g'" "table_ok cfg g"
  shows "table_ok cfg g'"
  using assms
proof (induction rule: gw_step.induct)
  case (g_admit g n fp spki)
  then have fresh: "face g n = None" "n \<notin> set (gw_clients g)" by (auto simp: face_def table_ok_def)
  show ?case
  proof (cases rule: admit_cases [of cfg n fp spki g])
    case room
    then show ?thesis using g_admit fresh by (auto simp: table_ok_def face_add_client) (auto simp: add_client_def)
  next
    case (evicted v)
    have "Suc (length (removeAll v (gw_clients g))) = length (gw_clients g)"
      using g_admit(2) evicted(1) by (intro length_removeAll) (auto simp: table_ok_def)
    then show ?thesis using g_admit fresh evicted
      by (auto simp: table_ok_def face_add_client gw_simps) (auto simp: add_client_def gw_simps distinct_removeAll)
  qed (use g_admit in simp)
next
  case (g_leave g n)
  have f: "face (leave n g) m = (if m = n then None else face g m)" for m by (simp add: leave_def face_def)
  have "length (removeAll n (gw_clients g)) \<le> length (gw_clients g)" by (rule length_removeAll_less_eq)
  then have l: "int (length (gw_clients g)) \<le> x \<Longrightarrow> int (length (removeAll n (gw_clients g))) \<le> x" for x by linarith
  show ?case using g_leave by (auto simp: table_ok_def f) (auto simp: leave_def distinct_removeAll l)
next
  case (g_check g n c io io2 token dev g1)
  note a = auth_check_simps [OF g_check(3)]
  have "face g n \<noteq> None" using g_check(1) by (simp add: face_def)
  then show ?case using g_check(4) a(1-3) by (auto simp: table_ok_def gw_simps)
next
  case (g_reject g n c io io2 token e g1)
  then show ?case using auth_check_simps [OF g_reject(2)] by (simp add: table_ok_def)
next
  case (g_stamp g n dev g1)
  note s = setAuthed_cases [OF g_stamp(2)]
  have "face g n \<noteq> None" by (rule phase_face [OF g_stamp(3,1)])
  moreover have "face g1 m = None \<longleftrightarrow> face g m = None" for m using s(6) [of m] by auto
  ultimately show ?case using g_stamp(1,3) s(1,2) by (auto simp: table_ok_def gw_simps)
next
  case (g_clash g n dev e g1)
  then have "g1 = g" using setAuthed_clash by blast
  then show ?case using g_clash(3) by (auto simp: table_ok_def gw_simps)
next
  case (g_replace g n d)
  have "int (length (gw_clients g)) \<le> x \<Longrightarrow> int (length (filter p (gw_clients g))) \<le> x" for p x
    using length_filter_le [of p "gw_clients g"] by linarith
  then show ?case using g_replace(2) by (auto simp: table_ok_def gw_simps)
next
  case (g_claim g n c px raw taken codes name dev token g1)
  note e = enroll_simps [OF g_claim(6)]
  have "face g n \<noteq> None" using g_claim(1) by (simp add: face_def)
  then show ?case using g_claim(7) e by (auto simp: table_ok_def gw_simps)
next
  case (g_enrolled g n d g1)
  note s = setAuthed_cases [OF g_enrolled(2)]
  have "face g1 m = None \<longleftrightarrow> face g m = None" for m using s(6) [of m] by auto
  then show ?case using g_enrolled(1,4) s(1,2) by (auto simp: table_ok_def gw_simps)
next
  case (g_close g)
  have "face (CloseClients g) = face g" "gw_phase (CloseClients g) = gw_phase g" "gw_clients (CloseClients g) = []"
    by (simp_all add: CloseClients_def gw_simps)
  then show ?case using g_close by (simp add: table_ok_def)
next
  case (g_misc g g')
  then show ?case by (simp add: table_ok_def same_identity_face)
qed (simp_all add: table_ok_def gw_simps)

lemma keys_step:
  assumes "gw_step sha clean isUUID unicode cfg g g'" "requireDeviceToken cfg" "requireClientKey cfg" "table_ok cfg g" "keys_ok g"
  shows "keys_ok g'"
  using assms
proof (induction rule: gw_step.induct)
  case (g_admit g n fp spki)
  then have fresh: "gw_phase g n = None" by (auto simp: face_def table_ok_def)
  show ?case
  proof (cases rule: admit_cases [of cfg n fp spki g])
    case room
    then show ?thesis using g_admit fresh by (auto simp: keys_ok_def face_add_client) (auto simp: add_client_def)
  next
    case (evicted v)
    then show ?thesis using g_admit fresh
      by (auto simp: keys_ok_def face_add_client gw_simps) (auto simp: add_client_def gw_simps)
  qed (use g_admit in simp)
next
  case (g_leave g n)
  have f: "face (leave n g) m = (if m = n then None else face g m)" for m by (simp add: leave_def face_def)
  show ?case using g_leave by (auto simp: keys_ok_def f) (auto simp: leave_def)
next
  case (g_check g n c io io2 token dev g1)
  note a = auth_check_simps [OF g_check(3)]
  have "face g n = Some (cl_authed c, cl_deviceID c, cl_keyFP c)" using g_check(1) by (simp add: face_def)
  then show ?case using g_check(7) a(1-3) a(5) [OF refl g_check(5,4)] by (auto simp: keys_ok_def gw_simps)
next
  case (g_reject g n c io io2 token e g1)
  then show ?case using auth_check_simps [OF g_reject(2)] by (simp add: keys_ok_def)
next
  case (g_stamp g n dev g1)
  note s = setAuthed_cases [OF g_stamp(2)]
  show ?case using g_stamp(1,6) s(1,2)
    by (fastforce simp: keys_ok_def gw_simps s(6) split: if_splits)
next
  case (g_clash g n dev e g1)
  then have "g1 = g" using setAuthed_clash by blast
  then show ?case using g_clash(6) by (auto simp: keys_ok_def gw_simps)
next
  case (g_claim g n c px raw taken codes name dev token g1)
  note e = enroll_simps [OF g_claim(6)]
  have "face g n = Some (False, cl_deviceID c, cl_keyFP c)" "cl_keyFP c \<noteq> []" using g_claim(1,3,4,8) by (simp_all add: face_def)
  then show ?case using g_claim(10) e by (auto simp: keys_ok_def gw_simps)
next
  case (g_enrolled g n d g1)
  note s = setAuthed_cases [OF g_enrolled(2)]
  show ?case using g_enrolled(1,7) s(1,2) by (fastforce simp: keys_ok_def gw_simps s(6) split: if_splits)
next
  case (g_close g)
  have "face (CloseClients g) = face g" "gw_phase (CloseClients g) = gw_phase g" by (simp_all add: CloseClients_def gw_simps)
  then show ?case using g_close by (simp add: keys_ok_def)
next
  case (g_misc g g')
  then show ?case by (simp add: keys_ok_def same_identity_face)
qed (auto simp: keys_ok_def gw_simps)

lemma authed_cases: "authed_as g n = (case face g n of Some (True, d, k) \<Rightarrow> Some d | _ \<Rightarrow> None)"
  by (auto simp: authed_as_def face_def split: option.splits bool.splits)

lemma sockets_sub:
  assumes "sockets_ok g" "set (gw_clients g') \<subseteq> set (gw_clients g)" "face g' = face g"
    "\<And>m d. gw_phase g' m = Some (Stamped d) \<longleftrightarrow> gw_phase g m = Some (Stamped d)"
  shows "sockets_ok g'"
  using assms(1,2) unfolding sockets_ok_def assms(4) authed_as_face [OF assms(3)] by blast

lemma sockets_step:
  assumes "gw_step sha clean isUUID unicode cfg g g'" "requireDeviceToken cfg" "table_ok cfg g" "sockets_ok g"
  shows "sockets_ok g'"
  using assms
proof (induction rule: gw_step.induct)
  case (g_admit g n fp spki)
  then have fresh: "gw_phase g n = None" "face g n = None" "n \<notin> set (gw_clients g)" by (auto simp: face_def table_ok_def)
  show ?case
  proof (cases rule: admit_cases [of cfg n fp spki g])
    case room
    have au: "authed_as (add_client cfg n fp spki g) m = (if m = n then None else authed_as g m)" for m
      using g_admit(2) by (simp add: authed_cases face_add_client)
    have "gw_clients (add_client cfg n fp spki g) = gw_clients g @ [n]" "gw_phase (add_client cfg n fp spki g) = gw_phase g"
      by (simp_all add: add_client_def)
    then show ?thesis using g_admit(4) fresh room by (auto simp: sockets_ok_def au)
  next
    case (evicted v)
    let ?g = "shutdown v (g\<lparr>gw_clients := removeAll v (gw_clients g)\<rparr>)"
    have au: "authed_as (add_client cfg n fp spki ?g) m = (if m = n then None else authed_as g m)" for m
      using g_admit(2) by (simp add: authed_cases face_add_client gw_simps)
    have "gw_clients (add_client cfg n fp spki ?g) = removeAll v (gw_clients g) @ [n]" "gw_phase (add_client cfg n fp spki ?g) = gw_phase g"
      by (simp_all add: add_client_def gw_simps)
    then show ?thesis using g_admit(4) fresh evicted by (auto simp: sockets_ok_def au)
  qed (use g_admit in simp)
next
  case (g_leave g n)
  have au: "authed_as (leave n g) m = (if m = n then None else authed_as g m)" for m by (simp add: leave_def authed_as_def)
  have "gw_clients (leave n g) = removeAll n (gw_clients g)" "gw_phase (leave n g) = (gw_phase g)(n := None)" by (simp_all add: leave_def)
  then show ?case using g_leave(3) by (auto simp: sockets_ok_def au)
next
  case (g_check g n c io io2 token dev g1)
  note a = auth_check_simps(1-3) [OF g_check(3)]
  show ?case by (rule sockets_sub [OF g_check(6)]) (use g_check(2) in \<open>simp_all add: gw_simps a\<close>)
next
  case (g_reject g n c io io2 token e g1)
  note a = auth_check_simps(1-3) [OF g_reject(2)]
  show ?case by (rule sockets_sub [OF g_reject(5)]) (simp_all add: a)
next
  case (g_stamp g n dev g1)
  note s = setAuthed_cases [OF g_stamp(2)]
  let ?g = "set_gphase n (Some (Stamped (dv_ID dev))) g1"
  have fn: "face g n \<noteq> None" by (rule phase_face [OF g_stamp(4,1)])
  then have au: "authed_as ?g m = (if m = n then Some (dv_ID dev) else authed_as g m)" for m
    by (auto simp: authed_cases gw_simps s(6))
  show ?case using g_stamp(1,5) s(1,2) by (auto simp: sockets_ok_def au gw_simps)
next
  case (g_clash g n dev e g1)
  then have g1: "g1 = g" using setAuthed_clash by blast
  show ?case by (rule sockets_sub [OF g_clash(5)]) (use g_clash(1) in \<open>simp_all add: gw_simps g1\<close>)
next
  case (g_replace g n d)
  let ?g = "set_gphase n None (replaceElders cfg n d g)"
  have au: "authed_as ?g = authed_as g" by (rule authed_as_face) (simp add: gw_simps)
  have n: "authed_as g n = Some d" using g_replace(1,4) by (simp add: sockets_ok_def)
  show ?case using g_replace(2,4) n unfolding sockets_ok_def au by (auto simp: gw_simps)
next
  case (g_claim g n c px raw taken codes name dev token g1)
  note e = enroll_simps [OF g_claim(6)]
  show ?case by (rule sockets_sub [OF g_claim(9)]) (use g_claim(2) in \<open>simp_all add: gw_simps e\<close>)
next
  case (g_enrolled g n d g1)
  note s = setAuthed_cases [OF g_enrolled(2)]
  have fn: "face g n \<noteq> None" by (rule phase_face [OF g_enrolled(5,1)])
  then have au: "authed_as (set_gphase n None g1) m = (if m = n then Some d else authed_as g m)" for m
    by (auto simp: authed_cases gw_simps s(6))
  show ?case using g_enrolled(1,3,6) s(1,2) by (auto simp: sockets_ok_def au gw_simps)
next
  case (g_close g)
  show ?case by (rule sockets_sub [OF g_close(3)]) (simp_all add: CloseClients_def gw_simps)
next
  case (g_disconnect g ids)
  show ?case by (rule sockets_sub [OF g_disconnect(3)]) (simp_all add: gw_simps)
next
  case (g_store g x)
  show ?case by (rule sockets_sub [OF g_store(3)]) (simp_all add: gw_simps)
next
  case (g_other g x s)
  show ?case by (rule sockets_sub [OF g_other(3)]) (simp_all add: gw_simps)
next
  case (g_misc g g')
  show ?case by (rule sockets_sub [OF g_misc(5)]) (use g_misc(1) in \<open>simp_all add: same_identity_face\<close>)
qed

lemma gw_reach_ok:
  assumes "gw_reach sha clean isUUID unicode cfg g"
  shows "table_ok cfg g \<and> (requireDeviceToken cfg \<longrightarrow> sockets_ok g) \<and> (requireDeviceToken cfg \<and> requireClientKey cfg \<longrightarrow> keys_ok g)"
  using assms
proof (induction rule: gw_reach.induct)
  case (gr_start g)
  then show ?case by (simp add: table_ok_def sockets_ok_def keys_ok_def face_def)
next
  case (gr_step g g')
  show ?case using table_step [OF gr_step(2)] sockets_step [OF gr_step(2)] keys_step [OF gr_step(2)] gr_step(3) by blast
qed


subsection \<open>Pairing through the gateway\<close>

lemma remove_where_file: "fst (snd (remove_where io p (f, s))) = f \<or> (\<exists>ds. fst (snd (remove_where io p (f, s))) = Present ds)"
proof -
  let ?fn = "\<lambda>(f, s).
    let removed = filter p (st_devices s); kept = filter (\<lambda>r. \<not> p r) (st_devices s)
    in if removed = [] then (Inr [], f, s)
       else case persistLocked io kept (set_devices kept (f, s)) of
              (Inl e, fs1) \<Rightarrow> (Inl e, fs1)
            | (Inr _, fs1) \<Rightarrow> (Inr (map device_of removed), fs1)"
  have "fst (snd (?fn (f, s1))) = f \<or> (\<exists>ds. fst (snd (?fn (f, s1))) = Present ds)" for s1
    by (auto simp: Let_def persistLocked_def set_devices_def after_write_def)
  then show ?thesis unfolding remove_where_def by (cases rule: withLocked_cases [of io ?fn f s]) auto
qed

lemma Create_present:
  assumes "CreateWithClientKey sha clean isUUID io gen newid name fp spki (f, s) = (Inr x, f1, s1)"
  shows "\<exists>ds. f1 = Present ds"
proof -
  obtain token where g: "gen = Inr token" using assms by (auto simp: CreateWithClientKey_def split: sum.splits)
  let ?rec = "new_record sha io newid token (sanitizeDeviceName clean isUUID name) fp spki"
  let ?fn = "\<lambda>(f, s). let rec = ?rec in case persistLocked io (st_devices s @ [rec]) (f, s) of
              (Inl e, fs1) \<Rightarrow> (Inl e, fs1)
            | (Inr _, fs1) \<Rightarrow> (Inr (device_of rec, token), fs1)"
  have w: "withLocked io ?fn (f, s) = (Inr x, f1, s1)" using assms g by (simp add: CreateWithClientKey_def)
  then obtain s2 where e: "?fn (f, s2) = (Inr x, f1, s1)" by (cases rule: withLocked_cases [of io ?fn f s]) auto
  then show ?thesis by (cases rule: persistLocked_cases [of io "st_devices s2 @ [?rec]" f s2]) (auto simp: Let_def)
qed

lemma enroll_success:
  assumes "enroll sha clean isUUID px c taken name g = (Inr (dev, token), g1)"
    and fresh: "sha token \<notin> TokenHash ` set (dev_list (gw_file g))"
  shows "gw_file g1 \<noteq> Corrupt" "gw_codes g1 = gw_codes g"
    "\<exists>r. find (\<lambda>r. TokenHash r = sha token) (dev_list (gw_file g1)) = Some r \<and> dr_ID r = dv_ID dev"
proof -
  obtain f1 s1 where c: "CreateWithClientKey sha clean isUUID (px_create px) (px_token px) (px_id px) (pair_name (tk_Name taken) name)
            (cl_keyFP c) (cl_keySPKI c) (gw_file g, gw_store g) = (Inr (dev, token), f1, s1)"
    using assms(1) by (auto simp: enroll_def split: prod.splits sum.splits if_splits)
  note cs = Create_success [OF c]
  obtain ds where ds: "f1 = Present ds" using Create_present [OF c] by blast
  let ?rec = "new_record sha (px_create px) (px_id px) token (sanitizeDeviceName clean isUUID (pair_name (tk_Name taken) name)) (cl_keyFP c) (cl_keySPKI c)"
  have nof: "find (\<lambda>r. TokenHash r = sha token) (dev_list (gw_file g)) = None"
    using fresh by (auto simp: find_None_iff image_iff)
  have rec: "TokenHash ?rec = sha token" "dr_ID ?rec = dv_ID dev" by (simp_all add: new_record_def cs(3) device_of_def)
  let ?R = "RevokeByClientKeyFP (px_revoke px) (cl_keyFP c) (dv_ID dev) (f1, s1)"
  have fl: "gw_file g1 = f1 \<or> gw_file g1 = fst (snd ?R)" and codes: "gw_codes g1 = gw_codes g"
    using assms(1) c by (auto simp: enroll_def gw_simps split: prod.splits sum.splits if_splits)
  have "fst (snd ?R) \<noteq> Corrupt"
    using remove_where_file ds by (simp add: RevokeByClientKeyFP_def Let_def) (metis dev_file.distinct(5))
  then show "gw_file g1 \<noteq> Corrupt" "gw_codes g1 = gw_codes g" using fl ds codes by auto
  have keep: "find (\<lambda>r. TokenHash r = sha token) (filter p (dev_list f1)) = Some ?rec" if "p ?rec" for p
  proof -
    have "find (\<lambda>r. TokenHash r = sha token) (filter p (dev_list (gw_file g))) = None"
      using nof by (auto simp: find_None_iff)
    then show ?thesis using that rec(1) by (simp add: cs(2) find_append)
  qed
  have "find (\<lambda>r. TokenHash r = sha token) (dev_list f1) = Some ?rec" using keep [of "\<lambda>_. True"] by simp
  moreover have "dev_list (fst (snd ?R)) = dev_list f1 \<or>
      dev_list (fst (snd ?R)) = filter (\<lambda>r. dr_ClientKeyFP r \<noteq> TrimSpace (cl_keyFP c) \<or> dr_ID r = dv_ID dev) (dev_list f1)"
    using run_RevokeFP [of sha clean isUUID "px_revoke px" "cl_keyFP c" "dv_ID dev" f1 s1] by (auto simp: dev_spec_def)
  moreover have "find (\<lambda>r. TokenHash r = sha token)
      (filter (\<lambda>r. dr_ClientKeyFP r \<noteq> TrimSpace (cl_keyFP c) \<or> dr_ID r = dv_ID dev) (dev_list f1)) = Some ?rec"
    by (rule keep) (simp add: rec(2))
  ultimately have "find (\<lambda>r. TokenHash r = sha token) (dev_list (gw_file g1)) = Some ?rec" using fl by auto
  then show "\<exists>r. find (\<lambda>r. TokenHash r = sha token) (dev_list (gw_file g1)) = Some r \<and> dr_ID r = dv_ID dev"
    using rec(2) by blast
qed

subsection \<open>Properties\<close>

definition ex_config :: ws_config where
  "ex_config = \<lparr>requireDeviceToken = True, requireClientKey = False, maxClients = 4\<rparr>"

definition ex_gateway :: gateway where
  "ex_gateway = \<lparr>gw_client = Map.empty, gw_clients = [], gw_clientSeq = 0, gw_phase = Map.empty,
     gw_file = Present [ex_device ''a'' ''t1''], gw_store = ex_cache, gw_codes = [], gw_resume = Map.empty,
     gw_pairStart = 0, gw_pairCount = 0\<rparr>"

text \<open>One connection admitted, and one whose token has been checked.\<close>

definition ex_admitted :: gateway where
  "ex_admitted = snd (admit ex_config 0 [] [] ex_gateway)"

lemma ex_admitted_simps:
  "gw_client ex_admitted = [0 \<mapsto> new_client ex_config 1 [] []]" "gw_clients ex_admitted = [0]" "gw_phase ex_admitted = Map.empty"
  "gw_file ex_admitted = Present [ex_device ''a'' ''t1'']" "gw_store ex_admitted = ex_cache" "gw_codes ex_admitted = []"
  "gw_clientSeq ex_admitted = 1" "gw_pairCount ex_admitted = 0"
  by (simp_all add: ex_admitted_def admit_def ex_config_def ex_gateway_def add_client_def)

lemma ex_admitted_reach: "gw_reach id id (\<lambda>_. False) id ex_config ex_admitted"
  unfolding ex_admitted_def
  by (rule gr_step [OF gr_start g_admit]) (simp_all add: ex_gateway_def)

lemma ex_validate:
  assumes "st_lastFlush s = 0"
  shows "\<exists>dev s1. Validate id (ex_io Written 4) ''t1'' (Present [ex_device ''a'' ''t1''], s) = (Inr dev, Present [ex_device ''a'' ''t1''], s1) \<and>
    dv_ID dev = ''a'' \<and> st_lastFlush s1 = 0"
  using assms
  by (simp add: Validate_def validate_locked_def ex_dev_simps device_of_def lastUsedFlushInterval_def)

text \<open>Any connection of a reachable table can have its token checked.\<close>

lemma ex_check:
  assumes "gw_reach id id (\<lambda>_. False) id ex_config g" "gw_client g n = Some c" "gw_phase g n = None"
    "gw_file g = Present [ex_device ''a'' ''t1'']" "st_lastFlush (gw_store g) = 0"
  obtains dev g1 where "gw_reach id id (\<lambda>_. False) id ex_config g1" "gw_phase g1 = (gw_phase g)(n \<mapsto> Checked dev)" "dv_ID dev = ''a''"
    "gw_client g1 = gw_client g" "gw_clients g1 = gw_clients g" "gw_file g1 = gw_file g" "st_lastFlush (gw_store g1) = 0"
proof -
  obtain dev s1 where v: "Validate id (ex_io Written 4) ''t1'' (gw_file g, gw_store g) = (Inr dev, gw_file g, s1)"
    "dv_ID dev = ''a''" "st_lastFlush s1 = 0" using ex_validate [OF assms(5)] unfolding assms(4) by blast
  have "auth_check id ex_config (ex_io Written 4) (ex_io Written 4) c ''t1'' g = (Inr dev, set_store (gw_file g, s1) g)"
    using v(1) by (simp add: auth_check_def ex_config_def verifyClientKey_def)
  from gr_step [OF assms(1) g_check [OF assms(2,3) this]] v(2,3) show ?thesis
    by (intro that [of "set_gphase n (Some (Checked dev)) (set_store (gw_file g, s1) g)" dev])
       (simp_all add: set_gphase_def set_store_def)
qed

text \<open>C5: In every reachable state of the gateway the number of connections is within the configured
  limit and each is registered once; under client-key enforcement every authenticated connection
  presented a client key; and two connections of one device are registered at once only while one of
  them has yet to replace the other.\<close>

theorem gateway_invariant:
  assumes "gw_reach sha clean isUUID unicode cfg g"
  shows "distinct (gw_clients g) \<and> (0 < maxClients cfg \<longrightarrow> int (length (gw_clients g)) \<le> maxClients cfg) \<and>
    (\<forall>n c. requireDeviceToken cfg \<and> requireClientKey cfg \<and> gw_client g n = Some c \<and> cl_authed c \<longrightarrow> cl_keyFP c \<noteq> []) \<and>
    (\<forall>a b d. requireDeviceToken cfg \<and> a \<in> set (gw_clients g) \<and> b \<in> set (gw_clients g) \<and> a \<noteq> b \<and>
       authed_as g a = Some d \<and> authed_as g b = Some d \<longrightarrow>
       gw_phase g a = Some (Stamped d) \<or> gw_phase g b = Some (Stamped d))"
proof -
  note ok = gw_reach_ok [OF assms]
  have t: "distinct (gw_clients g)" "0 < maxClients cfg \<longrightarrow> int (length (gw_clients g)) \<le> maxClients cfg"
    using ok by (auto simp: table_ok_def)
  have k: "cl_keyFP c \<noteq> []"
    if "requireDeviceToken cfg" "requireClientKey cfg" "gw_client g n = Some c" "cl_authed c" for n c
  proof -
    have "keys_ok g" "face g n = Some (True, cl_deviceID c, cl_keyFP c)" using ok that by (auto simp: face_def)
    then show ?thesis by (auto simp: keys_ok_def)
  qed
  have s: "requireDeviceToken cfg \<longrightarrow> sockets_ok g" using ok by blast
  show ?thesis using t k s unfolding sockets_ok_def by blast
qed

theorem gateway_invariant_witness:
  "distinct (gw_clients ex_admitted) \<and> int (length (gw_clients ex_admitted)) \<le> 4"
  using gateway_invariant [OF ex_admitted_reach] by (auto simp: ex_config_def ex_admitted_simps)



lemma allow_frame:
  assumes "allowPairClaim now g = (b, g1)"
  shows "gw_codes g1 = gw_codes g" "gw_client g1 = gw_client g" "gw_file g1 = gw_file g"
  using assms by (auto simp: allowPairClaim_def Let_def split: if_splits)

text \<open>An accepted claim, taken apart; and one whose device could not be stored.\<close>

lemma handlePairClaim_ok:
  assumes "handlePairClaim sha clean isUUID unicode cfg px n c (Some raw) name offered g = (PairOK token dev v, g')" "gw_client g n = Some c"
  obtains tk codes g1 g2 where "Take sha unicode (px_loaded px) (px_saved px) (px_now px) raw (gw_codes g) = (Inr tk, codes)"
    "enroll sha clean isUUID px c tk name (g1\<lparr>gw_codes := codes\<rparr>) = (Inr (dev, token), g2)" "gw_file g1 = gw_file g"
    "gw_file g' = gw_file g2" "gw_codes g' = codes" "authed_as g' n = Some (dv_ID dev)"
proof -
  obtain b g1 where al: "allowPairClaim (px_now px) g = (b, g1)" by fastforce
  note fr = allow_frame [OF al]
  obtain tk codes g2 g3 where t: "Take sha unicode (px_loaded px) (px_saved px) (px_now px) raw (gw_codes g) = (Inr tk, codes)"
    and e: "enroll sha clean isUUID px c tk name (g1\<lparr>gw_codes := codes\<rparr>) = (Inr (dev, token), g2)"
    and sa: "setAuthed n (dv_ID dev) g2 = (None, g3)" "gw_file g' = gw_file g3" "gw_codes g' = gw_codes g3" "authed_as g' n = authed_as g3 n"
    using assms(1) al fr(1)
    by (auto simp: handlePairClaim_def Let_def authed_as_def edit_client_def split: if_splits bool.splits prod.splits sum.splits option.splits)
  note sc = setAuthed_cases [OF sa(1)]
  have "face g2 n \<noteq> None" using enroll_simps(3) [OF e] assms(2) fr(2) by (simp add: face_def fun_eq_iff)
  then have "authed_as g3 n = Some (dv_ID dev)" using sc(6) [of n] by (auto simp: face_authed)
  moreover have "gw_codes g2 = codes" using e by (auto simp: enroll_def gw_simps split: prod.splits sum.splits if_splits)
  ultimately show ?thesis using that [OF t e fr(3)] sa sc(3,4) by simp
qed

lemma handlePairClaim_create_failed:
  assumes "handlePairClaim sha clean isUUID unicode cfg px n c (Some raw) name offered g = (PairError ''create_failed'', g')"
  obtains tk codes where "Take sha unicode (px_loaded px) (px_saved px) (px_now px) raw (gw_codes g) = (Inr tk, codes)"
    "gw_codes g' = snd (Restore (px_loaded px) (px_restored px) (px_later px) tk codes)" "px_loaded px" "px_saved px = Written"
proof -
  obtain b g1 where al: "allowPairClaim (px_now px) g = (b, g1)" by fastforce
  obtain tk codes where t: "Take sha unicode (px_loaded px) (px_saved px) (px_now px) raw (gw_codes g) = (Inr tk, codes)"
    and c: "gw_codes g' = snd (Restore (px_loaded px) (px_restored px) (px_later px) tk codes)"
    using assms al allow_frame(1) [OF al]
    by (auto simp: handlePairClaim_def enroll_def Let_def gw_simps split: if_splits bool.splits prod.splits sum.splits option.splits)
  have "px_loaded px" "px_saved px = Written" using t by (auto simp: Take_def Let_def ok_write_def split: if_splits option.splits)
  then show ?thesis using that t c by blast
qed

text \<open>C6: Pairing is all or nothing across the two stores. When a pair claim is accepted, the token it
  returns validates in every process as the device the connection is now authenticated as, and the code
  is refused in every spelling; when it fails because the device could not be stored, the code that was
  taken can be claimed again until it expires.\<close>

theorem pair_claim_atomic:
  assumes claim: "handlePairClaim sha clean isUUID unicode cfg px n c (Some raw) name offered g = (reply, g')"
    and g: "gw_client g n = Some c" "hashes_distinct (gw_codes g)"
    and fresh: "\<forall>token. px_token px = Inr token \<longrightarrow> token \<noteq> [] \<and> sha token \<notin> TokenHash ` set (dev_list (gw_file g))"
    and sp: "NormalizePairCode unicode raw2 = NormalizePairCode unicode raw"
  shows "(\<forall>token dev v. reply = PairOK token dev v \<longrightarrow>
      authed_as g' n = Some (dv_ID dev) \<and>
      (\<forall>io s. io_lock io \<and> io_read io \<and> ok_write (io_write io) \<longrightarrow>
        (\<exists>d. fst (Validate sha io token (gw_file g', s)) = Inr d \<and> dv_ID d = dv_ID dev)) \<and>
      (\<forall>loaded saved now. \<exists>e. fst (Take sha unicode loaded saved now raw2 (gw_codes g')) = Inl e)) \<and>
    (reply = PairError ''create_failed'' \<and> px_restored px = Written \<longrightarrow>
      (\<exists>tk codes. Take sha unicode (px_loaded px) (px_saved px) (px_now px) raw (gw_codes g) = (Inr tk, codes) \<and>
        (\<forall>t. px_now px \<le> px_later px \<and> px_later px \<le> tk_ExpiresAt tk \<and> t \<le> tk_ExpiresAt tk \<and> tk_codeHash tk \<noteq> [] \<longrightarrow>
          fst (Take sha unicode True Written t raw2 (gw_codes g')) = Inr tk)))"
proof (intro conjI allI impI, goal_cases)
  case (1 token dev v)
  then show ?case using handlePairClaim_ok [OF claim [unfolded 1] g(1)] by metis
next
  case (2 token dev v io s)
  obtain tk codes g1 g2 where e: "enroll sha clean isUUID px c tk name (g1\<lparr>gw_codes := codes\<rparr>) = (Inr (dev, token), g2)"
    and f: "gw_file g1 = gw_file g" "gw_file g' = gw_file g2" using handlePairClaim_ok [OF claim [unfolded 2(1)] g(1)] by metis
  have "px_token px = Inr token" using e by (auto simp: enroll_def dest!: Create_success(1) split: prod.splits sum.splits if_splits)
  then have fr: "token \<noteq> []" "sha token \<notin> TokenHash ` set (dev_list (gw_file (g1\<lparr>gw_codes := codes\<rparr>)))"
    using fresh f(1) by auto
  note es = enroll_success [OF e fr(2)]
  obtain r where "find (\<lambda>r. TokenHash r = sha token) (dev_list (gw_file g')) = Some r" "dr_ID r = dv_ID dev"
    using es(3) f(2) by auto
  with Validate_entered [of io "gw_file g'" token sha s] 2(2) es(1) f(2) fr(1) show ?case by (simp add: device_of_def)
next
  case (3 token dev v loaded saved now)
  obtain tk codes where "Take sha unicode (px_loaded px) (px_saved px) (px_now px) raw (gw_codes g) = (Inr tk, codes)" "gw_codes g' = codes"
    using handlePairClaim_ok [OF claim [unfolded 3] g(1)] by metis
  then show ?case using Take_twice [OF g(2) _ sp] by simp
next
  case 4
  obtain tk codes where t: "Take sha unicode (px_loaded px) (px_saved px) (px_now px) raw (gw_codes g) = (Inr tk, codes)"
    and c: "gw_codes g' = snd (Restore (px_loaded px) (px_restored px) (px_later px) tk codes)" "px_loaded px" "px_saved px = Written"
    using handlePairClaim_create_failed [of sha clean isUUID unicode cfg px n c raw name offered g g'] claim 4 by metis
  show ?case using t Take_after_Restore [OF g(2), of sha unicode "px_now px" raw tk codes "px_later px" _ raw2] sp c 4 by auto
qed

theorem pair_claim_atomic_witness:
  "\<exists>(dev :: Device) (g' :: gateway). authed_as g' 0 = Some (dv_ID dev) \<and>
    (\<exists>d. fst (Validate id (ex_io Written 9) ''t9'' (gw_file g', ex_cache)) = Inr d \<and> dv_ID d = dv_ID dev) \<and>
    (\<exists>e. fst (Take id id True Written 9 ''AAAAAAAA'' (gw_codes g')) = Inl e)"
proof -
  let ?rec = "\<lparr>CodeHash = ''AAAAAAAA'', pc_Name = ''phone'', pc_CreatedAt = 0, pc_ExpiresAt = 100\<rparr>"
  let ?px = "\<lparr>px_now = 5, px_later = 6, px_loaded = True, px_saved = Written, px_restored = Written, px_create = ex_io Written 5,
    px_revoke = ex_io Written 6, px_token = Inr ''t9'', px_id = ''b''\<rparr>"
  let ?g = "ex_admitted\<lparr>gw_codes := [?rec], gw_pairStart := 1\<rparr>" and ?c = "new_client ex_config 1 [] []"
  have wf: "well_formed ''AAAAAAAA''" by code_simp
  note n = normalize_spellings [OF wf, of id]
  have t: "Take id id True Written 5 ''AAAAAAAA'' [?rec] =
      (Inr \<lparr>tk_Name = ''phone'', tk_ExpiresAt = 100, tk_codeHash = ''AAAAAAAA'', tk_createdAt = 0\<rparr>, purgeExpired 5 [])"
    using Take_last [OF wf n(1), of id "[]" ?rec 5] by (simp add: absent_def)
  have tr: "TrimSpace ''AAAAAAAA'' \<noteq> []" by code_simp
  have al: "allowPairClaim 5 ?g = (True, ?g\<lparr>gw_pairCount := 1\<rparr>)"
    by (simp add: allowPairClaim_def IsZero_def maxPairClaimsPerMinute_def ex_admitted_simps)
  obtain dev g' where cl: "handlePairClaim id id (\<lambda>_. False) id ex_config ?px 0 ?c (Some ''AAAAAAAA'') [] [1] ?g = (PairOK ''t9'' dev 1, g')"
    using t tr al
    by (simp add: handlePairClaim_def new_client_def ex_config_def maxFailedClaims_def Let_def
        NegotiateVersion_def SupportedVersions_def V1_def V2_def enroll_def CreateWithClientKey_def ex_dev_simps
        ex_admitted_simps setAuthed_def edit_client_def set_store_def)
  have "token \<noteq> [] \<and> id token \<notin> TokenHash ` set (dev_list (gw_file ?g))" if "px_token ?px = Inr token" for token
    using that by (auto simp: ex_admitted_simps dev_list_def dev_records_def ex_device_def ident_def)
  with pair_claim_atomic [OF cl, of "''AAAAAAAA''"] show ?thesis
    by (intro exI [of _ dev] exI [of _ g']) (auto simp: ex_admitted_simps hashes_distinct_def ex_io_def)
qed

subsection \<open>Races\<close>

definition ex_two :: gateway where
  "ex_two = snd (admit ex_config 1 [] [] ex_admitted)"

lemma ex_two_simps:
  "gw_client ex_two = [0 \<mapsto> new_client ex_config 1 [] [], 1 \<mapsto> new_client ex_config (Suc 1) [] []]" "gw_clients ex_two = [0, 1]"
  "gw_phase ex_two = Map.empty" "gw_file ex_two = Present [ex_device ''a'' ''t1'']" "gw_store ex_two = ex_cache"
  by (simp_all add: ex_two_def admit_def ex_config_def ex_admitted_simps add_client_def)

lemma ex_two_reach: "gw_reach id id (\<lambda>_. False) id ex_config ex_two"
  unfolding ex_two_def by (rule gr_step [OF ex_admitted_reach g_admit]) (simp add: ex_admitted_simps)

text \<open>The stamp of a checked connection that has no identity yet.\<close>

lemma stamp_reach:
  assumes "gw_reach sha clean isUUID unicode cfg g" "gw_phase g n = Some (Checked dev)" "gw_client g n = Some c" "\<not> cl_authed c"
  shows "gw_reach sha clean isUUID unicode cfg
    (set_gphase n (Some (Stamped (dv_ID dev))) (edit_client n (\<lambda>c. c\<lparr>cl_authed := True, cl_deviceID := dv_ID dev\<rparr>) g))"
proof -
  have "setAuthed n (dv_ID dev) g = (None, edit_client n (\<lambda>c. c\<lparr>cl_authed := True, cl_deviceID := dv_ID dev\<rparr>) g)"
    using assms(3,4) by (simp add: setAuthed_def)
  from gr_step [OF assms(1) g_stamp [OF assms(2) this]] show ?thesis .
qed

text \<open>A connection that was told to close stays closed; replacing closes every registered elder.\<close>

definition gw_shut :: "gateway \<Rightarrow> nat \<Rightarrow> bool" where
  "gw_shut g n \<longleftrightarrow> (\<forall>c. gw_client g n = Some c \<longrightarrow> \<not> cl_open c)"

lemma fold_shutdown_shut: "gw_shut (fold shutdown ns g) n \<longleftrightarrow> n \<in> set ns \<or> gw_shut g n"
proof (induction ns arbitrary: g)
  case (Cons m ns)
  have "gw_shut (shutdown m g) n \<longleftrightarrow> n = m \<or> gw_shut g n" by (auto simp: gw_shut_def shutdown_def edit_client_def)
  with Cons show ?case by auto
qed simp

lemma gw_shut_phase [simp]: "gw_shut (set_gphase n p g) m = gw_shut g m" "gw_shut (g\<lparr>gw_clients := ns\<rparr>) m = gw_shut g m"
  by (simp_all add: gw_shut_def set_gphase_def)

lemma shut_authed: "authed_as g n = Some d \<Longrightarrow> gw_shut g n \<Longrightarrow> \<exists>c. gw_client g n = Some c \<and> \<not> cl_open c"
  by (auto simp: authed_as_def gw_shut_def split: option.splits)

lemma replace_closes:
  assumes "requireDeviceToken cfg" "m \<in> set (gw_clients g)" "m \<noteq> n" "authed_as g m = Some d"
  shows "gw_shut (replaceElders cfg n d g) m"
  using assms by (simp add: replaceElders_def Let_def fold_shutdown_shut)

lemma replace_shut: "gw_shut g m \<Longrightarrow> gw_shut (replaceElders cfg n d g) m"
  by (simp add: replaceElders_def Let_def fold_shutdown_shut)

text \<open>A revocation can miss a connection that is authenticating. The token is checked first and the
  connection marked later; a revocation between the two takes the device off the file and closes the
  connections already marked, and the connection is then marked as the revoked device and stays open
  and registered.\<close>

theorem revoke_races_auth:
  "\<exists>g c. gw_reach id id (\<lambda>_. False) id ex_config g \<and> gw_file g = Present [] \<and> 0 \<in> set (gw_clients g) \<and>
    gw_client g 0 = Some c \<and> cl_authed c \<and> cl_deviceID c = ''a'' \<and> cl_open c"
proof -
  let ?c = "new_client ex_config 1 [] []" and ?R = "\<lambda>g. run_op id id (\<lambda>_. False) (ex_io Written 10, OpRevoke ''a'') (gw_file g, gw_store g)"
  obtain dev g where g: "gw_reach id id (\<lambda>_. False) id ex_config g" "gw_phase g = [0 \<mapsto> Checked dev]" "dv_ID dev = ''a''"
    "gw_client g = [0 \<mapsto> ?c]" "gw_clients g = [0]" "gw_file g = Present [ex_device ''a'' ''t1'']"
    by (rule ex_check [OF ex_admitted_reach, of 0 ?c]) (auto simp: ex_admitted_simps ex_cache_def)
  let ?g1 = "set_store (?R g) g" let ?g2 = "DisconnectDevices [''a''] ?g1"
  have r: "gw_reach id id (\<lambda>_. False) id ex_config ?g2" by (intro gr_step [OF gr_step [OF g(1) g_store] g_disconnect])
  have f: "fst (?R g) = Present []"
    by (simp add: g(6) Revoke_def ex_dev_simps revoke_index_def set_devices_def device_of_def Let_def)
  have c2: "gw_client ?g2 = [0 \<mapsto> ?c]" "gw_phase ?g2 0 = Some (Checked dev)" "gw_clients ?g2 = [0]" "gw_file ?g2 = Present []"
    using g f by (simp_all add: gw_simps) (simp add: DisconnectDevices_def set_store_def new_client_def ex_config_def)
  have "\<not> cl_authed ?c" by (simp add: new_client_def ex_config_def)
  from stamp_reach [OF r c2(2) _ this] c2 g(3) show ?thesis
    by (intro exI [of _ "set_gphase 0 (Some (Stamped (dv_ID dev))) (edit_client 0 (\<lambda>c. c\<lparr>cl_authed := True, cl_deviceID := dv_ID dev\<rparr>) ?g2)"])
       (simp add: gw_simps set_gphase_def edit_client_def new_client_def)
qed

text \<open>Two connections of one device that authenticate at the same time replace each other: when both
  are marked before either replaces its elders, each takes the other out of the table and closes it,
  and the device is left with no connection at all.\<close>

theorem both_sockets_replaced:
  "\<exists>g. gw_reach id id (\<lambda>_. False) id ex_config g \<and> authed_as g 0 = Some ''a'' \<and> authed_as g 1 = Some ''a'' \<and>
    gw_clients g = [] \<and> (\<forall>n \<in> {0, 1}. \<exists>c. gw_client g n = Some c \<and> \<not> cl_open c)"
proof -
  let ?c = "\<lambda>i. new_client ex_config i [] []" and ?auth = "\<lambda>c. c\<lparr>cl_authed := True, cl_deviceID := ''a''\<rparr>"
  have un: "\<not> cl_authed (?c i)" for i by (simp add: new_client_def ex_config_def)
  obtain d0 g0 where g0: "gw_reach id id (\<lambda>_. False) id ex_config g0" "gw_phase g0 = [0 \<mapsto> Checked d0]" "dv_ID d0 = ''a''"
    "gw_client g0 = [0 \<mapsto> ?c 1, 1 \<mapsto> ?c (Suc 1)]" "gw_clients g0 = [0, 1]" "gw_file g0 = Present [ex_device ''a'' ''t1'']"
    "st_lastFlush (gw_store g0) = 0"
    by (rule ex_check [OF ex_two_reach, of 0 "?c 1"]) (auto simp: ex_two_simps ex_cache_def)
  obtain d1 g1 where g1: "gw_reach id id (\<lambda>_. False) id ex_config g1" "gw_phase g1 = [0 \<mapsto> Checked d0, 1 \<mapsto> Checked d1]" "dv_ID d1 = ''a''"
    "gw_client g1 = [0 \<mapsto> ?c 1, 1 \<mapsto> ?c (Suc 1)]" "gw_clients g1 = [0, 1]"
    by (rule ex_check [OF g0(1), of 1 "?c (Suc 1)"]) (auto simp: g0)
  let ?g2 = "set_gphase 0 (Some (Stamped ''a'')) (edit_client 0 ?auth g1)"
  let ?g3 = "set_gphase 1 (Some (Stamped ''a'')) (edit_client 1 ?auth ?g2)"
  let ?g4 = "set_gphase 0 None (replaceElders ex_config 0 ''a'' ?g3)"
  let ?g5 = "set_gphase 1 None (replaceElders ex_config 1 ''a'' ?g4)"
  have r2: "gw_reach id id (\<lambda>_. False) id ex_config ?g2"
    using stamp_reach [OF g1(1), of 0 d0 "?c 1"] g0(3) g1 un by simp
  have r3: "gw_reach id id (\<lambda>_. False) id ex_config ?g3"
    using stamp_reach [OF r2, of 1 d1 "?c (Suc 1)"] g1 un by (simp add: set_gphase_def edit_client_def)
  have r5: "gw_reach id id (\<lambda>_. False) id ex_config ?g5"
    by (intro gr_step [OF gr_step [OF r3 g_replace] g_replace]) (simp_all add: gw_simps)
  have c3: "gw_client ?g3 = [0 \<mapsto> ?auth (?c 1), 1 \<mapsto> ?auth (?c (Suc 1))]" "gw_clients ?g3 = [0, 1]"
    using g1 by (auto simp: set_gphase_def edit_client_def fun_eq_iff)
  have a3: "authed_as ?g3 0 = Some ''a''" "authed_as ?g3 1 = Some ''a''" using c3 by (simp_all add: authed_as_def)
  have tok: "requireDeviceToken ex_config" by (simp add: ex_config_def)
  have au: "authed_as ?g4 = authed_as ?g3" "authed_as ?g5 = authed_as ?g3" by (rule authed_as_face, simp add: gw_simps)+
  have n4: "gw_clients ?g4 = [0]" and n5: "gw_clients ?g5 = []"
    using c3(2) a3 tok au(1) by (simp_all add: gw_simps)
  have closed: "gw_shut ?g5 0 \<and> gw_shut ?g5 1"
    using replace_closes [OF tok, of 1 ?g3 0 "''a''"] replace_closes [OF tok, of 0 ?g4 1 "''a''"]
      c3(2) n4 a3 au(1) by (auto intro: replace_shut)
  have a5: "authed_as ?g5 0 = Some ''a''" "authed_as ?g5 1 = Some ''a''" unfolding au(2) by (rule a3)+
  from shut_authed [OF a5(1)] shut_authed [OF a5(2)] closed r5 a5 n5 show ?thesis by blast
qed

text \<open>A session released to a named device is visible to that device alone, yet until it is claimed
  its events are broadcast to every authenticated connection, those of other devices included.\<close>

theorem handoff_events_leak:
  assumes "Release now saved nonce i d to w = (Inr m, w')" "to \<noteq> []"
    and "n \<in> set (gw_clients g)" "authed_as g n = Some e" "e \<noteq> to"
  shows "n \<in> set (broadcast_targets w' i g) \<and>
    (\<exists>m'. live_meta w' i = Some m' \<and> \<not> visibleTo (OwnerDeviceID m') (PendingHandoffTo m') e)"
  using assms(1)
proof (cases rule: Release_cases [of now saved nonce i d to w])
  case (stamped m0)
  then have l: "live_meta w' i = Some (released_meta to nonce m0)" using assms(1) by (auto simp: own_simps)
  then have "OwnerOf w' i = Some []" by (auto simp: OwnerOf_def live_meta_def own_simps split: option.splits if_splits)
  then have "n \<in> set (broadcast_targets w' i g)" using assms(3,4) by (simp add: broadcast_targets_def OwnerState_def Let_def)
  with l assms(2,5) show ?thesis by (simp add: visibleTo_def own_simps)
qed (use assms(1) in auto)

theorem handoff_events_leak_witness:
  "\<exists>w' m. Release 6 Written ''n'' ''s'' ''a'' ''b'' (ex_owners ''a'' []) = (Inr m, w') \<and>
    0 \<in> set (broadcast_targets w' ''s'' (edit_client 0 (\<lambda>c. c\<lparr>cl_authed := True, cl_deviceID := ''c''\<rparr>) ex_admitted))"
proof -
  let ?g = "edit_client 0 (\<lambda>c. c\<lparr>cl_authed := True, cl_deviceID := ''c''\<rparr>) ex_admitted"
  obtain m w' where r: "Release 6 Written ''n'' ''s'' ''a'' ''b'' (ex_owners ''a'' []) = (Inr m, w')"
    by (simp add: Release_def release_check_def own_simps split_beta)
  have "0 \<in> set (gw_clients ?g)" "authed_as ?g 0 = Some ''c''"
    by (simp_all add: authed_as_def edit_client_def ex_admitted_simps)
  from handoff_events_leak [OF r _ this] r show ?thesis by auto
qed

end
