(* ===== verification/RelayHub.thy ===== *)
theory RelayHub
  imports Prelude
begin

text \<open>
  The relay's hub (\<open>internal/relay/hub.go\<close>) and the two connection handlers that drive it
  (\<open>handlePhone\<close> and \<open>handleTunnel\<close> of \<open>internal/relay/server.go\<close>).

  A phone joins by reserving one of its host's phone slots and waiting on a channel; the host
  answers the dial with a tunnel connection that claims the join, and the two are spliced. The
  slot must be released exactly once, on whichever of the many ways out is taken first.

  Every hub method is a function on the hub, which it changes in one section under \<open>h.mu\<close>.
  Joins live in a heap indexed by their session id, because both handlers keep a pointer to one
  after it leaves the pending map. A connection is a number, a channel of capacity one its
  content and whether it is closed; closing a closed channel, or sending on one, panics, which
  sets \<open>hb_panic\<close>. The handlers are the step relation \<open>relay_step\<close>: each step is one hub call
  or one send, receive or write of theirs.
\<close>

subsection \<open>State\<close>

record chan =
  ch_val :: "nat option"
  ch_closed :: bool

record pending_join =
  pj_hostID :: string
  pj_tunnelToken :: string
  pj_ready :: chan
  pj_done :: bool
  pj_created :: gotime
  pj_phoneGone :: bool

record hub_limits =
  MaxHosts :: nat
  MaxPhonesPerHost :: nat
  MaxConcurrentJoin :: nat

text \<open>
  \<open>hb_phones\<close> gives 0 for an absent key: \<open>releasePhoneLocked\<close> deletes a key when its count
  reaches 0 and every reader takes the zero value of a missing one.
\<close>

record hub =
  hb_allow :: "string \<rightharpoonup> string"
  hb_hosts :: "string \<rightharpoonup> nat"
  hb_pending :: "string list"
  hb_joins :: "string \<rightharpoonup> pending_join"
  hb_phones :: "string \<Rightarrow> nat"
  hb_suspect :: "string \<rightharpoonup> nat \<times> nat"
  hb_limits :: hub_limits
  hb_allowLegacy :: bool
  hb_panic :: bool

datatype hub_error = errLimit | errHostOffline | errUnknownSession | errUnauthorized | errInternal

fun errCode :: "hub_error \<Rightarrow> string" where
  "errCode errLimit = ''limit''"
| "errCode errHostOffline = ''host_offline''"
| "errCode errUnknownSession = ''unknown_session''"
| "errCode errUnauthorized = ''unauthorized''"
| "errCode errInternal = ''internal''"

definition newHub :: "(string \<times> string) list \<Rightarrow> hub_limits \<Rightarrow> bool \<Rightarrow> hub" where
  "newHub allow lim legacy =
    \<lparr>hb_allow = map_of (rev allow), hb_hosts = (\<lambda>_. None), hb_pending = [], hb_joins = (\<lambda>_. None),
     hb_phones = (\<lambda>_. 0), hb_suspect = (\<lambda>_. None), hb_limits = lim, hb_allowLegacy = legacy, hb_panic = False\<rparr>"

subsection \<open>Operations of the hub\<close>

text \<open>\<open>hash\<close> stands for \<open>HashSecret\<close>, SHA-256 of the secret.\<close>

definition checkSecret :: "(string \<Rightarrow> string) \<Rightarrow> string \<Rightarrow> string \<Rightarrow> hub \<Rightarrow> bool" where
  "checkSecret hash hostID secret h = (case hb_allow h hostID of Some want \<Rightarrow> want = hash secret | None \<Rightarrow> False)"

definition host_count :: "hub \<Rightarrow> nat" where
  "host_count h = card (dom (hb_hosts h))"

definition register :: "string \<Rightarrow> nat \<Rightarrow> hub \<Rightarrow> hub_error option \<times> hub" where
  "register hostID control h =
    (if hb_allow h hostID = None then (Some errUnauthorized, h)
     else if MaxHosts (hb_limits h) \<le> host_count h \<and> hb_hosts h hostID = None then (Some errLimit, h)
     else (None, h\<lparr>hb_hosts := (hb_hosts h)(hostID \<mapsto> control)\<rparr>))"

definition releasePhoneLocked :: "string \<Rightarrow> hub \<Rightarrow> hub" where
  "releasePhoneLocked hostID h =
    (if hb_phones h hostID = 0 then h
     else h\<lparr>hb_phones := (hb_phones h)(hostID := hb_phones h hostID - 1)\<rparr>)"

definition update_join :: "string \<Rightarrow> (pending_join \<Rightarrow> pending_join) \<Rightarrow> hub \<Rightarrow> hub" where
  "update_join sid f h = (case hb_joins h sid of
     Some p \<Rightarrow> h\<lparr>hb_joins := (hb_joins h)(sid \<mapsto> f p)\<rparr> | None \<Rightarrow> h)"

definition close_ready :: "string \<Rightarrow> hub \<Rightarrow> hub" where
  "close_ready sid h = (case hb_joins h sid of
     None \<Rightarrow> h
   | Some p \<Rightarrow>
       if ch_closed (pj_ready p) then h\<lparr>hb_panic := True\<rparr>
       else update_join sid (\<lambda>p. p\<lparr>pj_ready := (pj_ready p)\<lparr>ch_closed := True\<rparr>\<rparr>) h)"

definition closeDone :: "string \<Rightarrow> hub \<Rightarrow> hub" where
  "closeDone sid h = update_join sid (\<lambda>p. p\<lparr>pj_done := True\<rparr>) h"

definition host_of :: "hub \<Rightarrow> string \<Rightarrow> string" where
  "host_of h sid = (case hb_joins h sid of Some p \<Rightarrow> pj_hostID p | None \<Rightarrow> [])"

text \<open>A join found in the pending map is failed: deleted, its slot released, its channel closed.\<close>

definition fail_pending :: "string \<Rightarrow> hub \<Rightarrow> hub" where
  "fail_pending sid h =
    close_ready sid (releasePhoneLocked (host_of h sid) (h\<lparr>hb_pending := remove1 sid (hb_pending h)\<rparr>))"

definition unregister :: "string \<Rightarrow> nat \<Rightarrow> hub \<Rightarrow> hub" where
  "unregister hostID control h =
    (if hb_hosts h hostID \<noteq> Some control then h
     else (fold fail_pending (filter (\<lambda>sid. host_of h sid = hostID) (hb_pending h)) h)
       \<lparr>hb_hosts := (hb_hosts h)(hostID := None)\<rparr>)"

definition closeAllHosts :: "hub \<Rightarrow> hub" where
  "closeAllHosts h = (fold fail_pending (hb_pending h) h)\<lparr>hb_hosts := (\<lambda>_. None)\<rparr>"

definition new_join :: "string \<Rightarrow> string \<Rightarrow> gotime \<Rightarrow> pending_join" where
  "new_join hostID token now =
    \<lparr>pj_hostID = hostID, pj_tunnelToken = token, pj_ready = \<lparr>ch_val = None, ch_closed = False\<rparr>,
     pj_done = False, pj_created = now, pj_phoneGone = False\<rparr>"

text \<open>\<open>sid\<close> is the fresh uuid, \<open>token\<close> the outcome of reading random bytes.\<close>

definition beginJoin :: "string \<Rightarrow> string option \<Rightarrow> gotime \<Rightarrow> string \<Rightarrow> hub \<Rightarrow> (hub_error + string) \<times> hub" where
  "beginJoin sid token now hostID h =
    (if hb_hosts h hostID = None then (Inl errHostOffline, h)
     else if MaxPhonesPerHost (hb_limits h) \<le> hb_phones h hostID then (Inl errLimit, h)
     else if MaxConcurrentJoin (hb_limits h) \<le> length (hb_pending h) then (Inl errLimit, h)
     else case token of
       None \<Rightarrow> (Inl errInternal, h)
     | Some tok \<Rightarrow>
         (Inr sid, h\<lparr>hb_joins := (hb_joins h)(sid \<mapsto> new_join hostID tok now),
                     hb_pending := hb_pending h @ [sid],
                     hb_phones := (hb_phones h)(hostID := hb_phones h hostID + 1)\<rparr>))"

definition claimTunnel ::
  "(string \<Rightarrow> string) \<Rightarrow> string \<Rightarrow> string \<Rightarrow> string \<Rightarrow> string \<Rightarrow> hub \<Rightarrow> hub_error option \<times> hub" where
  "claimTunnel hash sid hostID token secret h =
    (if sid \<notin> set (hb_pending h) then (Some errUnknownSession, h)
     else case hb_joins h sid of
       None \<Rightarrow> (Some errUnknownSession, h)
     | Some p \<Rightarrow>
         if pj_hostID p \<noteq> hostID then (Some errUnauthorized, h)
         else let byToken = (token \<noteq> [] \<and> pj_tunnelToken p \<noteq> [] \<and> token = pj_tunnelToken p);
                  bySecret = (secret \<noteq> [] \<and> hb_allowLegacy h \<and> checkSecret hash hostID secret h)
              in if byToken \<or> bySecret then (None, h\<lparr>hb_pending := remove1 sid (hb_pending h)\<rparr>)
                 else (Some errUnauthorized, h))"

definition publishTunnel :: "string \<Rightarrow> nat \<Rightarrow> hub \<Rightarrow> bool \<times> hub" where
  "publishTunnel sid conn h = (case hb_joins h sid of
     None \<Rightarrow> (False, h)
   | Some p \<Rightarrow>
       if pj_phoneGone p then (False, closeDone sid (releasePhoneLocked (pj_hostID p) h))
       else if ch_closed (pj_ready p) then (False, h\<lparr>hb_panic := True\<rparr>)
       else if ch_val (pj_ready p) = None
       then (True, update_join sid (\<lambda>p. p\<lparr>pj_ready := (pj_ready p)\<lparr>ch_val := Some conn\<rparr>\<rparr>) h)
       else (False, releasePhoneLocked (pj_hostID p) h))"

definition abandonTunnel :: "string \<Rightarrow> hub \<Rightarrow> hub" where
  "abandonTunnel sid h = closeDone sid (close_ready sid (releasePhoneLocked (host_of h sid) h))"

definition cancelJoin :: "string \<Rightarrow> hub \<Rightarrow> hub" where
  "cancelJoin sid h = (if sid \<in> set (hb_pending h) then fail_pending sid h else h)"

definition stale :: "gotime \<Rightarrow> hub \<Rightarrow> string \<Rightarrow> bool" where
  "stale cutoff h sid = (case hb_joins h sid of Some p \<Rightarrow> pj_created p < cutoff | None \<Rightarrow> False)"

definition expireStalePending :: "gotime \<Rightarrow> duration \<Rightarrow> hub \<Rightarrow> nat \<times> hub" where
  "expireStalePending now maxAge h =
    (if maxAge \<le> 0 then (0, h)
     else let old = filter (stale (now - maxAge) h) (hb_pending h)
          in (length old, fold cancelJoin old h))"

text \<open>The receive in \<open>phoneGone\<close> takes the content of the channel, if any, even from a closed one.\<close>

definition phoneGone :: "string \<Rightarrow> hub \<Rightarrow> nat option \<times> hub" where
  "phoneGone sid h =
    (if sid \<in> set (hb_pending h) then (None, fail_pending sid h)
     else let h1 = update_join sid (\<lambda>p. p\<lparr>pj_phoneGone := True\<rparr>) h
          in case hb_joins h sid of
            None \<Rightarrow> (None, h1)
          | Some p \<Rightarrow>
              (case ch_val (pj_ready p) of
                 Some t \<Rightarrow>
                   (Some t, closeDone sid (releasePhoneLocked (pj_hostID p)
                     (update_join sid (\<lambda>p. p\<lparr>pj_ready := (pj_ready p)\<lparr>ch_val := None\<rparr>\<rparr>) h1)))
               | None \<Rightarrow> (None, h1)))"

definition endPhone :: "string \<Rightarrow> hub \<Rightarrow> hub" where
  "endPhone hostID h = releasePhoneLocked hostID h"

text \<open>
  \<open>reconcilePhones\<close>: a divergence seen by two sweeps in a row with the same numbers is corrected.
  The loop over the union of the three key sets is a pointwise update, since a host in none of
  them has 0 on both sides.
\<close>

definition pendingBy :: "hub \<Rightarrow> string \<Rightarrow> nat" where
  "pendingBy h hostID = length (filter (\<lambda>sid. host_of h sid = hostID) (hb_pending h))"

definition reconcilePhones :: "(string \<Rightarrow> nat) \<Rightarrow> hub \<Rightarrow> hub" where
  "reconcilePhones liveSplices h =
    (let want = (\<lambda>i. liveSplices i + pendingBy h i);
         diverges = (\<lambda>i. hb_phones h i \<noteq> want i);
         again = (\<lambda>i. hb_suspect h i = Some (hb_phones h i, want i))
     in h\<lparr>hb_phones := (\<lambda>i. if diverges i \<and> again i then want i else hb_phones h i),
          hb_suspect := (\<lambda>i. if diverges i \<and> \<not> again i then Some (hb_phones h i, want i) else None)\<rparr>)"

subsection \<open>The handlers\<close>

text \<open>
  Where \<open>handlePhone\<close> is with its join: writing the dial to the host's control connection, in
  the select, writing \<open>join_ok\<close>, splicing, between the end of the splice and the release of its
  slot, or gone. \<open>PhDone True\<close> is the exit after a failed dial. \<open>handleTunnel\<close> is writing
  \<open>tunnel_ok\<close>, waiting for the splice to end, or gone.
\<close>

datatype phone_phase = PhDialing | PhWaiting | PhGot nat | PhSplicing nat | PhEnding | PhDone bool

datatype tunnel_phase = TuClaimed nat | TuWaiting | TuDone

record relay =
  rl_hub :: hub
  rl_sids :: "string list"
  rl_phone :: "string \<rightharpoonup> phone_phase"
  rl_tunnel :: "string \<rightharpoonup> tunnel_phase"
  rl_splices :: "string set"

abbreviation set_phone :: "string \<Rightarrow> phone_phase \<Rightarrow> relay \<Rightarrow> relay" where
  "set_phone s ph c \<equiv> c\<lparr>rl_phone := (rl_phone c)(s \<mapsto> ph)\<rparr>"

abbreviation set_tunnel :: "string \<Rightarrow> tunnel_phase \<Rightarrow> relay \<Rightarrow> relay" where
  "set_tunnel s tu c \<equiv> c\<lparr>rl_tunnel := (rl_tunnel c)(s \<mapsto> tu)\<rparr>"

abbreviation ready_of :: "relay \<Rightarrow> string \<Rightarrow> chan option" where
  "ready_of c s \<equiv> map_option pj_ready (hb_joins (rl_hub c) s)"

definition take_ready :: "string \<Rightarrow> hub \<Rightarrow> hub" where
  "take_ready s h = update_join s (\<lambda>p. p\<lparr>pj_ready := (pj_ready p)\<lparr>ch_val := None\<rparr>\<rparr>) h"

inductive relay_step :: "(string \<Rightarrow> string) \<Rightarrow> relay \<Rightarrow> relay \<Rightarrow> bool" for hash where
  rs_register: "checkSecret hash i secret (rl_hub c) \<Longrightarrow> register i conn (rl_hub c) = (r, h) \<Longrightarrow>
    relay_step hash c (c\<lparr>rl_hub := h\<rparr>)"
| rs_unregister: "relay_step hash c (c\<lparr>rl_hub := unregister i conn (rl_hub c)\<rparr>)"
| rs_shutdown: "relay_step hash c (c\<lparr>rl_hub := closeAllHosts (rl_hub c)\<rparr>)"
| rs_expire: "relay_step hash c (c\<lparr>rl_hub := snd (expireStalePending now maxAge (rl_hub c))\<rparr>)"
| rs_join: "s \<notin> set (rl_sids c) \<Longrightarrow> beginJoin s token now i (rl_hub c) = (Inr s, h) \<Longrightarrow>
    relay_step hash c (set_phone s PhDialing (c\<lparr>rl_hub := h, rl_sids := rl_sids c @ [s]\<rparr>))"
| rs_dial: "rl_phone c s = Some PhDialing \<Longrightarrow> relay_step hash c (set_phone s PhWaiting c)"
| rs_dial_fail: "rl_phone c s = Some PhDialing \<Longrightarrow>
    relay_step hash c (set_phone s (PhDone True) (c\<lparr>rl_hub := cancelJoin s (rl_hub c)\<rparr>))"
| rs_ready: "rl_phone c s = Some PhWaiting \<Longrightarrow> ready_of c s = Some ch \<Longrightarrow> ch_val ch = Some t \<Longrightarrow>
    relay_step hash c (set_phone s (PhGot t) (c\<lparr>rl_hub := take_ready s (rl_hub c)\<rparr>))"
| rs_closed: "rl_phone c s = Some PhWaiting \<Longrightarrow> ready_of c s = Some ch \<Longrightarrow> ch_val ch = None \<Longrightarrow> ch_closed ch \<Longrightarrow>
    relay_step hash c (set_phone s (PhDone False) c)"
| rs_leave: "rl_phone c s = Some PhWaiting \<Longrightarrow>
    relay_step hash c (set_phone s (PhDone False) (c\<lparr>rl_hub := snd (phoneGone s (rl_hub c))\<rparr>))"
| rs_join_ok: "rl_phone c s = Some (PhGot t) \<Longrightarrow>
    relay_step hash c (set_phone s (PhSplicing t) (c\<lparr>rl_splices := insert s (rl_splices c)\<rparr>))"
| rs_join_ok_fail: "rl_phone c s = Some (PhGot t) \<Longrightarrow>
    relay_step hash c (set_phone s (PhDone False)
      (c\<lparr>rl_hub := endPhone (host_of (rl_hub c) s) (closeDone s (rl_hub c))\<rparr>))"
| rs_splice_end: "rl_phone c s = Some (PhSplicing t) \<Longrightarrow>
    relay_step hash c (set_phone s PhEnding (c\<lparr>rl_splices := rl_splices c - {s}\<rparr>))"
| rs_end: "rl_phone c s = Some PhEnding \<Longrightarrow>
    relay_step hash c (set_phone s (PhDone False)
      (c\<lparr>rl_hub := endPhone (host_of (rl_hub c) s) (closeDone s (rl_hub c))\<rparr>))"
| rs_claim: "claimTunnel hash s i token secret (rl_hub c) = (None, h) \<Longrightarrow>
    relay_step hash c (set_tunnel s (TuClaimed conn) (c\<lparr>rl_hub := h\<rparr>))"
| rs_tunnel_fail: "rl_tunnel c s = Some (TuClaimed conn) \<Longrightarrow>
    relay_step hash c (set_tunnel s TuDone (c\<lparr>rl_hub := abandonTunnel s (rl_hub c)\<rparr>))"
| rs_publish: "rl_tunnel c s = Some (TuClaimed conn) \<Longrightarrow> publishTunnel s conn (rl_hub c) = (ok, h) \<Longrightarrow>
    relay_step hash c (set_tunnel s (if ok then TuWaiting else TuDone) (c\<lparr>rl_hub := h\<rparr>))"
| rs_tunnel_end: "rl_tunnel c s = Some TuWaiting \<Longrightarrow> relay_step hash c (set_tunnel s TuDone c)"

definition relay_start :: "hub \<Rightarrow> relay" where
  "relay_start h = \<lparr>rl_hub = h, rl_sids = [], rl_phone = (\<lambda>_. None), rl_tunnel = (\<lambda>_. None), rl_splices = {}\<rparr>"

inductive relay_reach :: "(string \<Rightarrow> string) \<Rightarrow> relay \<Rightarrow> bool" for hash where
  rr_start: "relay_reach hash (relay_start (newHub allow lim legacy))"
| rr_step: "relay_reach hash c \<Longrightarrow> relay_step hash c c' \<Longrightarrow> relay_reach hash c'"

subsection \<open>The life of a join\<close>

text \<open>
  What both handlers and the hub together know about one join, and the stage of its life that
  makes: it waits in the pending map, has been claimed by a tunnel, has the tunnel in its channel,
  is in the hands of the phone handler, or is over. It holds a slot in all but the last.
\<close>

datatype stage = Pending | Claimed | Published | Active | Over

type_synonym join_view = "bool \<times> pending_join option \<times> phone_phase option \<times> tunnel_phase option"

definition view :: "relay \<Rightarrow> string \<Rightarrow> join_view" where
  "view c s = (s \<in> set (hb_pending (rl_hub c)), hb_joins (rl_hub c) s, rl_phone c s, rl_tunnel c s)"

fun is_claimed :: "tunnel_phase option \<Rightarrow> bool" where
  "is_claimed (Some (TuClaimed _)) = True"
| "is_claimed _ = False"

fun is_active :: "phone_phase option \<Rightarrow> bool" where
  "is_active (Some (PhGot _)) = True"
| "is_active (Some (PhSplicing _)) = True"
| "is_active (Some PhEnding) = True"
| "is_active _ = False"

definition has_tunnel :: "pending_join option \<Rightarrow> bool" where
  "has_tunnel j \<longleftrightarrow> (\<exists>p. j = Some p \<and> ch_val (pj_ready p) \<noteq> None)"

fun stage_of :: "join_view \<Rightarrow> stage" where
  "stage_of (pend, j, ph, tu) =
    (if pend then Pending else if is_claimed tu then Claimed
     else if has_tunnel j then Published else if is_active ph then Active else Over)"

definition waiting :: "phone_phase option \<Rightarrow> bool" where
  "waiting ph \<longleftrightarrow> ph = Some PhDialing \<or> ph = Some PhWaiting"

text \<open>What must agree in each stage.\<close>

fun agrees :: "join_view \<Rightarrow> bool" where
  "agrees (pend, None, ph, tu) \<longleftrightarrow> False"
| "agrees (pend, Some p, ph, tu) \<longleftrightarrow>
    (case stage_of (pend, Some p, ph, tu) of
       Pending \<Rightarrow> tu = None \<and> waiting ph \<and> pj_ready p = \<lparr>ch_val = None, ch_closed = False\<rparr> \<and> \<not> pj_phoneGone p
     | Claimed \<Rightarrow> pj_ready p = \<lparr>ch_val = None, ch_closed = False\<rparr> \<and>
         (waiting ph \<and> \<not> pj_phoneGone p \<or> ph = Some (PhDone (\<not> pj_phoneGone p)))
     | Published \<Rightarrow> \<not> ch_closed (pj_ready p) \<and> \<not> pj_phoneGone p \<and> tu \<in> {Some TuWaiting, Some TuDone} \<and>
         (waiting ph \<or> ph = Some (PhDone True))
     | Active \<Rightarrow> tu \<in> {Some TuWaiting, Some TuDone}
     | Over \<Rightarrow> (waiting ph \<and> ch_closed (pj_ready p) \<or> (\<exists>b. ph = Some (PhDone b))) \<and>
         (tu = Some TuWaiting \<longrightarrow> pj_done p))"

definition held :: "join_view \<Rightarrow> bool" where
  "held v \<longleftrightarrow> stage_of v \<noteq> Over"

fun view_host :: "join_view \<Rightarrow> string" where
  "view_host (pend, j, ph, tu) = (case j of Some p \<Rightarrow> pj_hostID p | None \<Rightarrow> [])"

definition slots :: "relay \<Rightarrow> string \<Rightarrow> nat" where
  "slots c i = length (filter (\<lambda>s. view_host (view c s) = i \<and> held (view c s)) (rl_sids c))"

definition relay_inv :: "relay \<Rightarrow> bool" where
  "relay_inv c \<longleftrightarrow>
    distinct (rl_sids c) \<and> distinct (hb_pending (rl_hub c)) \<and>
    set (hb_pending (rl_hub c)) \<subseteq> set (rl_sids c) \<and>
    (\<forall>s. s \<notin> set (rl_sids c) \<longrightarrow> rl_phone c s = None \<and> rl_tunnel c s = None) \<and>
    (\<forall>s \<in> set (rl_sids c). agrees (view c s)) \<and>
    (\<forall>i. hb_phones (rl_hub c) i = slots c i) \<and>
    (\<forall>i. hb_phones (rl_hub c) i \<le> MaxPhonesPerHost (hb_limits (rl_hub c))) \<and>
    length (hb_pending (rl_hub c)) \<le> MaxConcurrentJoin (hb_limits (rl_hub c)) \<and>
    \<not> hb_panic (rl_hub c) \<and>
    (\<forall>s. s \<in> rl_splices c \<longleftrightarrow> (\<exists>t. rl_phone c s = Some (PhSplicing t)))"

text \<open>A step at one join: everything else is as before, and the slot count follows its stage.\<close>

definition released :: "relay \<Rightarrow> string \<Rightarrow> relay \<Rightarrow> bool" where
  "released c s c' \<longleftrightarrow>
    (\<forall>i. hb_phones (rl_hub c') i =
       (if held (view c s) \<and> \<not> held (view c' s) \<and> i = view_host (view c s)
        then hb_phones (rl_hub c) i - 1 else hb_phones (rl_hub c) i))"

lemma slots_single:
  assumes "distinct (rl_sids c)" "s \<in> set (rl_sids c)" "rl_sids c' = rl_sids c"
    and "\<forall>s'. s' \<noteq> s \<longrightarrow> view c' s' = view c s'" "view_host (view c' s) = view_host (view c s)"
    and "held (view c' s) \<longrightarrow> held (view c s)"
  shows "slots c' i = (if held (view c s) \<and> \<not> held (view c' s) \<and> i = view_host (view c s)
    then slots c i - 1 else slots c i)"
proof -
  obtain xs ys where xy: "rl_sids c = xs @ s # ys" using assms(2) by (meson split_list)
  have "filter (\<lambda>s. view_host (view c' s) = i \<and> held (view c' s)) zs =
      filter (\<lambda>s. view_host (view c s) = i \<and> held (view c s)) zs" if "s \<notin> set zs" for zs
    using that assms(4) by (intro filter_cong) auto
  with assms xy show ?thesis by (auto simp: slots_def)
qed

lemma relay_inv_single:
  assumes inv: "relay_inv c" and s: "s \<in> set (rl_sids c)"
    and frame: "rl_sids c' = rl_sids c" "\<forall>s'. s' \<noteq> s \<longrightarrow> view c' s' = view c s'"
      "hb_limits (rl_hub c') = hb_limits (rl_hub c)" "hb_panic (rl_hub c') = hb_panic (rl_hub c)"
      "set (hb_pending (rl_hub c')) \<subseteq> set (hb_pending (rl_hub c))" "distinct (hb_pending (rl_hub c'))"
    and here: "agrees (view c' s)" "view_host (view c' s) = view_host (view c s)"
      "held (view c' s) \<longrightarrow> held (view c s)"
    and rel: "released c s c'"
    and spl: "\<forall>s. s \<in> rl_splices c' \<longleftrightarrow> (\<exists>t. rl_phone c' s = Some (PhSplicing t))"
  shows "relay_inv c'"
proof -
  have d: "distinct (rl_sids c)" using inv by (simp add: relay_inv_def)
  have ph: "hb_phones (rl_hub c') i = slots c' i" for i
    using slots_single [OF d s frame(1,2) here(2,3), of i] rel inv
    by (simp add: released_def relay_inv_def)
  have le: "hb_phones (rl_hub c') i \<le> hb_phones (rl_hub c) i" for i
    using rel by (simp add: released_def)
  have out: "rl_phone c' s' = None \<and> rl_tunnel c' s' = None" if "s' \<notin> set (rl_sids c)" for s'
    using frame(2) inv that s by (auto simp: view_def relay_inv_def)
  have len: "length (hb_pending (rl_hub c')) \<le> length (hb_pending (rl_hub c))"
    using frame(5,6) inv by (metis card_mono distinct_card finite_set relay_inv_def)
  have ag: "agrees (view c' s')" if "s' \<in> set (rl_sids c)" for s'
    using here(1) frame(2) inv that by (cases "s' = s") (auto simp: relay_inv_def)
  show ?thesis
    unfolding relay_inv_def
  proof (intro conjI)
    show "\<forall>i. hb_phones (rl_hub c') i \<le> MaxPhonesPerHost (hb_limits (rl_hub c'))"
      using le inv unfolding relay_inv_def frame(3) by (meson le_trans)
    show "length (hb_pending (rl_hub c')) \<le> MaxConcurrentJoin (hb_limits (rl_hub c'))"
      using len inv unfolding relay_inv_def frame(3) by (meson le_trans)
    show "set (hb_pending (rl_hub c')) \<subseteq> set (rl_sids c')"
      using frame(1,5) inv by (auto simp: relay_inv_def)
  qed (use inv ph out ag spl frame in \<open>simp_all add: relay_inv_def\<close>)
qed

named_theorems hub_simps \<open>effects of the hub operations on the fields of the hub\<close>

lemma releasePhoneLocked_eq [hub_simps]:
  "releasePhoneLocked i h = h\<lparr>hb_phones := (hb_phones h)(i := hb_phones h i - 1)\<rparr>"
  by (cases "hb_phones h i") (simp_all add: releasePhoneLocked_def fun_upd_idem)

lemma update_join_Some [hub_simps]:
  "hb_joins h s = Some p \<Longrightarrow> update_join s f h = h\<lparr>hb_joins := (hb_joins h)(s \<mapsto> f p)\<rparr>"
  by (simp add: update_join_def)

lemma closeDone_Some [hub_simps]:
  "hb_joins h s = Some p \<Longrightarrow> closeDone s h = h\<lparr>hb_joins := (hb_joins h)(s \<mapsto> p\<lparr>pj_done := True\<rparr>)\<rparr>"
  by (simp add: closeDone_def hub_simps)

lemma close_ready_open [hub_simps]:
  "hb_joins h s = Some p \<Longrightarrow> \<not> ch_closed (pj_ready p) \<Longrightarrow>
    close_ready s h = h\<lparr>hb_joins := (hb_joins h)(s \<mapsto> p\<lparr>pj_ready := (pj_ready p)\<lparr>ch_closed := True\<rparr>\<rparr>)\<rparr>"
  by (simp add: close_ready_def hub_simps)

lemma fail_pending_open [hub_simps]:
  "hb_joins h s = Some p \<Longrightarrow> \<not> ch_closed (pj_ready p) \<Longrightarrow>
    fail_pending s h = h\<lparr>hb_pending := remove1 s (hb_pending h),
      hb_phones := (hb_phones h)(pj_hostID p := hb_phones h (pj_hostID p) - 1),
      hb_joins := (hb_joins h)(s \<mapsto> p\<lparr>pj_ready := (pj_ready p)\<lparr>ch_closed := True\<rparr>\<rparr>)\<rparr>"
  by (simp add: fail_pending_def hub_simps host_of_def)

lemma relay_inv_agrees:
  assumes "relay_inv c" "s \<in> set (rl_sids c)"
  obtains p where "hb_joins (rl_hub c) s = Some p"
    "agrees (s \<in> set (hb_pending (rl_hub c)), Some p, rl_phone c s, rl_tunnel c s)"
proof -
  have "agrees (view c s)" using assms by (simp add: relay_inv_def)
  then show ?thesis using that by (cases "hb_joins (rl_hub c) s") (auto simp: view_def simp del: agrees.simps(2))
qed

lemma pending_agrees:
  assumes "relay_inv c" "s \<in> set (hb_pending (rl_hub c))"
  obtains p where "hb_joins (rl_hub c) s = Some p" "s \<in> set (rl_sids c)" "rl_tunnel c s = None"
    "waiting (rl_phone c s)" "pj_ready p = \<lparr>ch_val = None, ch_closed = False\<rparr>" "\<not> pj_phoneGone p"
proof -
  have s: "s \<in> set (rl_sids c)" using assms by (auto simp: relay_inv_def)
  obtain p where "hb_joins (rl_hub c) s = Some p"
    "agrees (True, Some p, rl_phone c s, rl_tunnel c s)"
    using relay_inv_agrees [OF assms(1) s] assms(2) by auto
  with s show ?thesis by (intro that) auto
qed

text \<open>The three facts every step at one join needs about the join's view afterwards.\<close>

lemma view_other:
  "hb_joins h s' = hb_joins (rl_hub c) s' \<Longrightarrow> s' \<in> set (hb_pending h) \<longleftrightarrow> s' \<in> set (hb_pending (rl_hub c)) \<Longrightarrow>
    view (c\<lparr>rl_hub := h\<rparr>) s' = view c s'"
  by (simp add: view_def)

lemma inv_fail_pending:
  assumes inv: "relay_inv c" and s: "s \<in> set (hb_pending (rl_hub c))"
  shows "relay_inv (c\<lparr>rl_hub := fail_pending s (rl_hub c)\<rparr>)"
proof -
  obtain p where p: "hb_joins (rl_hub c) s = Some p" "s \<in> set (rl_sids c)" "rl_tunnel c s = None"
    "waiting (rl_phone c s)" "pj_ready p = \<lparr>ch_val = None, ch_closed = False\<rparr>" "\<not> pj_phoneGone p"
    by (rule pending_agrees [OF inv s])
  have d: "distinct (hb_pending (rl_hub c))" using inv by (simp add: relay_inv_def)
  have fp: "fail_pending s (rl_hub c) = (rl_hub c)\<lparr>hb_pending := remove1 s (hb_pending (rl_hub c)),
      hb_phones := (hb_phones (rl_hub c))(pj_hostID p := hb_phones (rl_hub c) (pj_hostID p) - 1),
      hb_joins := (hb_joins (rl_hub c))(s \<mapsto> p\<lparr>pj_ready := (pj_ready p)\<lparr>ch_closed := True\<rparr>\<rparr>)\<rparr>"
    using p by (intro fail_pending_open) auto
  have na: "\<not> is_active (rl_phone c s)" using p(4) by (auto simp: waiting_def)
  show ?thesis
    by (rule relay_inv_single [OF inv p(2)])
       (use p d s na inv in \<open>auto simp: fp view_def held_def released_def has_tunnel_def relay_inv_def\<close>)
qed

lemma fail_pending_pending:
  "hb_pending (fail_pending s h) = remove1 s (hb_pending h)"
  by (auto simp: fail_pending_def close_ready_def update_join_def hub_simps split: option.splits)

lemma inv_fold_fail:
  assumes "relay_inv c" "distinct xs" "set xs \<subseteq> set (hb_pending (rl_hub c))"
  shows "relay_inv (c\<lparr>rl_hub := fold fail_pending xs (rl_hub c)\<rparr>)"
  using assms
proof (induction xs arbitrary: c)
  case (Cons x xs)
  let ?c = "c\<lparr>rl_hub := fail_pending x (rl_hub c)\<rparr>"
  have d: "distinct (hb_pending (rl_hub c))" using Cons.prems by (simp add: relay_inv_def)
  have "relay_inv ?c" using Cons.prems by (intro inv_fail_pending) auto
  moreover have "set xs \<subseteq> set (hb_pending (rl_hub ?c))"
    using Cons.prems d by (auto simp: fail_pending_pending)
  ultimately show ?case using Cons.IH [of ?c] Cons.prems by simp
qed simp

lemma inv_hosts: "relay_inv (c\<lparr>rl_hub := h\<lparr>hb_hosts := H\<rparr>\<rparr>) = relay_inv (c\<lparr>rl_hub := h\<rparr>)"
  by (simp add: relay_inv_def view_def slots_def)

lemma fold_cancelJoin:
  "distinct xs \<Longrightarrow> distinct (hb_pending h) \<Longrightarrow> set xs \<subseteq> set (hb_pending h) \<Longrightarrow> fold cancelJoin xs h = fold fail_pending xs h"
proof (induction xs arbitrary: h)
  case (Cons x xs)
  have "cancelJoin x h = fail_pending x h" using Cons.prems by (simp add: cancelJoin_def)
  moreover have "set xs \<subseteq> set (hb_pending (fail_pending x h))"
    using Cons.prems by (auto simp: fail_pending_pending)
  ultimately show ?case using Cons.IH [of "fail_pending x h"] Cons.prems by (simp add: fail_pending_pending)
qed simp

lemma inv_bulk:
  assumes inv: "relay_inv c"
  shows "relay_inv (c\<lparr>rl_hub := unregister i conn (rl_hub c)\<rparr>)"
    "relay_inv (c\<lparr>rl_hub := closeAllHosts (rl_hub c)\<rparr>)"
    "relay_inv (c\<lparr>rl_hub := snd (expireStalePending now maxAge (rl_hub c))\<rparr>)"
proof -
  have d: "distinct (hb_pending (rl_hub c))" using inv by (simp add: relay_inv_def)
  show "relay_inv (c\<lparr>rl_hub := unregister i conn (rl_hub c)\<rparr>)"
    using inv inv_fold_fail [OF inv, of "filter (\<lambda>sid. host_of (rl_hub c) sid = i) (hb_pending (rl_hub c))"] d
    by (auto simp: unregister_def inv_hosts)
  show "relay_inv (c\<lparr>rl_hub := closeAllHosts (rl_hub c)\<rparr>)"
    using inv_fold_fail [OF inv d] by (simp add: closeAllHosts_def inv_hosts)
  let ?old = "filter (stale (now - maxAge) (rl_hub c)) (hb_pending (rl_hub c))"
  show "relay_inv (c\<lparr>rl_hub := snd (expireStalePending now maxAge (rl_hub c))\<rparr>)"
    using inv inv_fold_fail [OF inv, of ?old] fold_cancelJoin [of ?old "rl_hub c"] d
    by (auto simp: expireStalePending_def Let_def)
qed

text \<open>The steps of the phone handler.\<close>

lemma phone_known:
  assumes "relay_inv c" "rl_phone c s = Some ph"
  shows "s \<in> set (rl_sids c)"
proof (rule ccontr)
  assume "s \<notin> set (rl_sids c)"
  then show False using assms by (auto simp: relay_inv_def)
qed

lemma tunnel_known:
  assumes "relay_inv c" "rl_tunnel c s = Some tu"
  shows "s \<in> set (rl_sids c)"
proof (rule ccontr)
  assume "s \<notin> set (rl_sids c)"
  then show False using assms by (auto simp: relay_inv_def)
qed

lemma slot_counted:
  assumes inv: "relay_inv c" and s: "s \<in> set (rl_sids c)" and h: "held (view c s)"
  shows "0 < hb_phones (rl_hub c) (view_host (view c s))"
proof -
  have "s \<in> set (filter (\<lambda>x. view_host (view c x) = view_host (view c s) \<and> held (view c x)) (rl_sids c))"
    using s h by simp
  then have "0 < slots c (view_host (view c s))" unfolding slots_def by (metis length_pos_if_in_set)
  with inv show ?thesis by (simp add: relay_inv_def)
qed

lemma splices_iff:
  "relay_inv c \<Longrightarrow> s \<in> rl_splices c \<longleftrightarrow> (\<exists>t. rl_phone c s = Some (PhSplicing t))"
  by (simp add: relay_inv_def)

lemma pending_distinct: "relay_inv c \<Longrightarrow> distinct (hb_pending (rl_hub c))"
  by (simp add: relay_inv_def)

lemmas step_simps = view_def held_def released_def has_tunnel_def waiting_def view_other

lemma inv_dial:
  assumes inv: "relay_inv c" and ph: "rl_phone c s = Some PhDialing"
  shows "relay_inv (set_phone s PhWaiting c)"
proof -
  note s = phone_known [OF inv ph]
  obtain p where p: "hb_joins (rl_hub c) s = Some p"
    "agrees (s \<in> set (hb_pending (rl_hub c)), Some p, rl_phone c s, rl_tunnel c s)"
    by (rule relay_inv_agrees [OF inv s])
  show ?thesis
    by (rule relay_inv_single [OF inv s])
       (use p ph splices_iff [OF inv] pending_distinct [OF inv] in \<open>auto simp: step_simps split: if_splits\<close>)
qed

lemma inv_dial_fail:
  assumes inv: "relay_inv c" and ph: "rl_phone c s = Some PhDialing"
  shows "relay_inv (set_phone s (PhDone True) (c\<lparr>rl_hub := cancelJoin s (rl_hub c)\<rparr>))"
proof -
  note s = phone_known [OF inv ph]
  obtain p where p: "hb_joins (rl_hub c) s = Some p"
    "agrees (s \<in> set (hb_pending (rl_hub c)), Some p, rl_phone c s, rl_tunnel c s)"
    by (rule relay_inv_agrees [OF inv s])
  show ?thesis
    by (rule relay_inv_single [OF inv s])
       (use p ph splices_iff [OF inv] pending_distinct [OF inv] in
         \<open>auto simp: step_simps cancelJoin_def hub_simps split: if_splits\<close>)
qed

lemma inv_ready:
  assumes inv: "relay_inv c" and ph: "rl_phone c s = Some PhWaiting"
    and ch: "ready_of c s = Some ch" "ch_val ch = Some t"
  shows "relay_inv (set_phone s (PhGot t) (c\<lparr>rl_hub := take_ready s (rl_hub c)\<rparr>))"
proof -
  note s = phone_known [OF inv ph]
  obtain p where p: "hb_joins (rl_hub c) s = Some p"
    "agrees (s \<in> set (hb_pending (rl_hub c)), Some p, rl_phone c s, rl_tunnel c s)"
    by (rule relay_inv_agrees [OF inv s])
  show ?thesis
    by (rule relay_inv_single [OF inv s])
       (use p ph ch splices_iff [OF inv] pending_distinct [OF inv] in
         \<open>auto simp: step_simps take_ready_def hub_simps split: if_splits\<close>)
qed

lemma inv_closed:
  assumes inv: "relay_inv c" and ph: "rl_phone c s = Some PhWaiting"
    and ch: "ready_of c s = Some ch" "ch_val ch = None" "ch_closed ch"
  shows "relay_inv (set_phone s (PhDone False) c)"
proof -
  note s = phone_known [OF inv ph]
  obtain p where p: "hb_joins (rl_hub c) s = Some p"
    "agrees (s \<in> set (hb_pending (rl_hub c)), Some p, rl_phone c s, rl_tunnel c s)"
    by (rule relay_inv_agrees [OF inv s])
  show ?thesis
    by (rule relay_inv_single [OF inv s])
       (use p ph ch splices_iff [OF inv] pending_distinct [OF inv] in \<open>auto simp: step_simps split: if_splits\<close>)
qed

lemma phoneGone_cases:
  assumes "hb_joins h s = Some p"
  shows "s \<in> set (hb_pending h) \<Longrightarrow> snd (phoneGone s h) = fail_pending s h"
    "s \<notin> set (hb_pending h) \<Longrightarrow> ch_val (pj_ready p) = None \<Longrightarrow>
      snd (phoneGone s h) = h\<lparr>hb_joins := (hb_joins h)(s \<mapsto> p\<lparr>pj_phoneGone := True\<rparr>)\<rparr>"
    "s \<notin> set (hb_pending h) \<Longrightarrow> ch_val (pj_ready p) = Some t \<Longrightarrow>
      snd (phoneGone s h) = h\<lparr>hb_joins := (hb_joins h)(s \<mapsto>
        p\<lparr>pj_phoneGone := True, pj_ready := (pj_ready p)\<lparr>ch_val := None\<rparr>, pj_done := True\<rparr>),
        hb_phones := (hb_phones h)(pj_hostID p := hb_phones h (pj_hostID p) - 1)\<rparr>"
  using assms by (simp_all add: phoneGone_def Let_def hub_simps)

lemma inv_leave:
  assumes inv: "relay_inv c" and ph: "rl_phone c s = Some PhWaiting"
  shows "relay_inv (set_phone s (PhDone False) (c\<lparr>rl_hub := snd (phoneGone s (rl_hub c))\<rparr>))"
proof -
  note s = phone_known [OF inv ph]
  note simps = step_simps hub_simps
  obtain p where p: "hb_joins (rl_hub c) s = Some p"
    "agrees (s \<in> set (hb_pending (rl_hub c)), Some p, rl_phone c s, rl_tunnel c s)"
    by (rule relay_inv_agrees [OF inv s])
  consider (pend) "s \<in> set (hb_pending (rl_hub c))"
    | (none) "s \<notin> set (hb_pending (rl_hub c))" "ch_val (pj_ready p) = None"
    | (val) t where "s \<notin> set (hb_pending (rl_hub c))" "ch_val (pj_ready p) = Some t"
    by (cases "ch_val (pj_ready p)") auto
  then show ?thesis
  proof cases
    case pend
    show ?thesis
      by (rule relay_inv_single [OF inv s])
         (use p ph pend splices_iff [OF inv] pending_distinct [OF inv] in
           \<open>auto simp: phoneGone_cases(1) [OF p(1)] simps split: if_splits\<close>)
  next
    case none
    show ?thesis
      by (rule relay_inv_single [OF inv s])
         (use p ph none splices_iff [OF inv] pending_distinct [OF inv] in
           \<open>auto simp: phoneGone_cases(2) [OF p(1)] simps split: if_splits\<close>)
  next
    case (val t)
    show ?thesis
      by (rule relay_inv_single [OF inv s])
         (use p ph val splices_iff [OF inv] pending_distinct [OF inv] in
           \<open>auto simp: phoneGone_cases(3) [OF p(1)] simps split: if_splits\<close>)
  qed
qed

lemma inv_join_ok:
  assumes inv: "relay_inv c" and ph: "rl_phone c s = Some (PhGot t)"
  shows "relay_inv (set_phone s (PhSplicing t) (c\<lparr>rl_splices := insert s (rl_splices c)\<rparr>))"
proof -
  note s = phone_known [OF inv ph]
  obtain p where p: "hb_joins (rl_hub c) s = Some p"
    "agrees (s \<in> set (hb_pending (rl_hub c)), Some p, rl_phone c s, rl_tunnel c s)"
    by (rule relay_inv_agrees [OF inv s])
  show ?thesis
    by (rule relay_inv_single [OF inv s])
       (use p ph splices_iff [OF inv] pending_distinct [OF inv] in \<open>auto simp: step_simps split: if_splits\<close>)
qed

lemma inv_splice_end:
  assumes inv: "relay_inv c" and ph: "rl_phone c s = Some (PhSplicing t)"
  shows "relay_inv (set_phone s PhEnding (c\<lparr>rl_splices := rl_splices c - {s}\<rparr>))"
proof -
  note s = phone_known [OF inv ph]
  obtain p where p: "hb_joins (rl_hub c) s = Some p"
    "agrees (s \<in> set (hb_pending (rl_hub c)), Some p, rl_phone c s, rl_tunnel c s)"
    by (rule relay_inv_agrees [OF inv s])
  show ?thesis
    by (rule relay_inv_single [OF inv s])
       (use p ph splices_iff [OF inv] pending_distinct [OF inv] in \<open>auto simp: step_simps split: if_splits\<close>)
qed

lemma inv_end:
  assumes inv: "relay_inv c" and ph: "rl_phone c s = Some (PhGot t) \<or> rl_phone c s = Some PhEnding"
  shows "relay_inv (set_phone s (PhDone False)
    (c\<lparr>rl_hub := endPhone (host_of (rl_hub c) s) (closeDone s (rl_hub c))\<rparr>))"
proof -
  have s: "s \<in> set (rl_sids c)" using phone_known [OF inv] ph by blast
  obtain p where p: "hb_joins (rl_hub c) s = Some p"
    "agrees (s \<in> set (hb_pending (rl_hub c)), Some p, rl_phone c s, rl_tunnel c s)"
    by (rule relay_inv_agrees [OF inv s])
  have st: "s \<notin> set (hb_pending (rl_hub c))" "\<not> is_claimed (rl_tunnel c s)" "ch_val (pj_ready p) = None"
    "rl_tunnel c s \<in> {Some TuWaiting, Some TuDone}" "is_active (rl_phone c s)"
    using p(2) ph by (auto simp: waiting_def has_tunnel_def split: if_splits)
  show ?thesis
    by (rule relay_inv_single [OF inv s])
       (use p(1) st ph splices_iff [OF inv] pending_distinct [OF inv] in
         \<open>auto simp: step_simps endPhone_def hub_simps host_of_def\<close>)
qed

text \<open>The steps of the tunnel handler, and a new join.\<close>

lemma inv_claim:
  assumes inv: "relay_inv c" and cl: "claimTunnel hash s i token secret (rl_hub c) = (None, h)"
  shows "relay_inv (set_tunnel s (TuClaimed conn) (c\<lparr>rl_hub := h\<rparr>))"
proof -
  have pd: "s \<in> set (hb_pending (rl_hub c))" "h = (rl_hub c)\<lparr>hb_pending := remove1 s (hb_pending (rl_hub c))\<rparr>"
    using cl by (auto simp: claimTunnel_def Let_def split: if_splits option.splits)
  obtain p where p: "hb_joins (rl_hub c) s = Some p" "s \<in> set (rl_sids c)" "rl_tunnel c s = None"
    "waiting (rl_phone c s)" "pj_ready p = \<lparr>ch_val = None, ch_closed = False\<rparr>" "\<not> pj_phoneGone p"
    by (rule pending_agrees [OF inv pd(1)])
  show ?thesis
    by (rule relay_inv_single [OF inv p(2)])
       (use p pd splices_iff [OF inv] pending_distinct [OF inv] in \<open>auto simp: step_simps\<close>)
qed

lemma claimed_agrees:
  assumes inv: "relay_inv c" and tu: "rl_tunnel c s = Some (TuClaimed conn)"
  obtains p where "hb_joins (rl_hub c) s = Some p" "s \<in> set (rl_sids c)" "s \<notin> set (hb_pending (rl_hub c))"
    "pj_ready p = \<lparr>ch_val = None, ch_closed = False\<rparr>"
    "waiting (rl_phone c s) \<and> \<not> pj_phoneGone p \<or> rl_phone c s = Some (PhDone (\<not> pj_phoneGone p))"
proof -
  note s = tunnel_known [OF inv tu]
  obtain p where p: "hb_joins (rl_hub c) s = Some p"
    "agrees (s \<in> set (hb_pending (rl_hub c)), Some p, rl_phone c s, rl_tunnel c s)"
    by (rule relay_inv_agrees [OF inv s])
  with tu s show ?thesis by (intro that [OF p(1)]) (auto split: if_splits)
qed

lemma inv_tunnel_fail:
  assumes inv: "relay_inv c" and tu: "rl_tunnel c s = Some (TuClaimed conn)"
  shows "relay_inv (set_tunnel s TuDone (c\<lparr>rl_hub := abandonTunnel s (rl_hub c)\<rparr>))"
proof -
  obtain p where p: "hb_joins (rl_hub c) s = Some p" "s \<in> set (rl_sids c)" "s \<notin> set (hb_pending (rl_hub c))"
    "pj_ready p = \<lparr>ch_val = None, ch_closed = False\<rparr>"
    "waiting (rl_phone c s) \<and> \<not> pj_phoneGone p \<or> rl_phone c s = Some (PhDone (\<not> pj_phoneGone p))"
    by (rule claimed_agrees [OF inv tu])
  have ab: "abandonTunnel s (rl_hub c) = (rl_hub c)\<lparr>
      hb_phones := (hb_phones (rl_hub c))(pj_hostID p := hb_phones (rl_hub c) (pj_hostID p) - 1),
      hb_joins := (hb_joins (rl_hub c))(s \<mapsto> p\<lparr>pj_ready := \<lparr>ch_val = None, ch_closed = True\<rparr>, pj_done := True\<rparr>)\<rparr>"
    using p by (simp add: abandonTunnel_def hub_simps host_of_def)
  show ?thesis
    by (rule relay_inv_single [OF inv p(2)])
       (use p tu splices_iff [OF inv] pending_distinct [OF inv] in \<open>auto simp: step_simps ab\<close>)
qed

lemma inv_publish:
  assumes inv: "relay_inv c" and tu: "rl_tunnel c s = Some (TuClaimed conn)"
    and pub: "publishTunnel s conn (rl_hub c) = (ok, h)"
  shows "relay_inv (set_tunnel s (if ok then TuWaiting else TuDone) (c\<lparr>rl_hub := h\<rparr>))"
proof -
  obtain p where p: "hb_joins (rl_hub c) s = Some p" "s \<in> set (rl_sids c)" "s \<notin> set (hb_pending (rl_hub c))"
    "pj_ready p = \<lparr>ch_val = None, ch_closed = False\<rparr>"
    "waiting (rl_phone c s) \<and> \<not> pj_phoneGone p \<or> rl_phone c s = Some (PhDone (\<not> pj_phoneGone p))"
    by (rule claimed_agrees [OF inv tu])
  show ?thesis
  proof (cases "pj_phoneGone p")
    case True
    then have h: "\<not> ok" "h = (rl_hub c)\<lparr>
        hb_phones := (hb_phones (rl_hub c))(pj_hostID p := hb_phones (rl_hub c) (pj_hostID p) - 1),
        hb_joins := (hb_joins (rl_hub c))(s \<mapsto> p\<lparr>pj_done := True\<rparr>)\<rparr>"
      using pub p by (auto simp: publishTunnel_def hub_simps)
    show ?thesis
      by (rule relay_inv_single [OF inv p(2)])
         (use p tu h True splices_iff [OF inv] pending_distinct [OF inv] in \<open>auto simp: step_simps\<close>)
  next
    case False
    then have h: "ok" "h = (rl_hub c)\<lparr>hb_joins := (hb_joins (rl_hub c))(s \<mapsto>
        p\<lparr>pj_ready := \<lparr>ch_val = Some conn, ch_closed = False\<rparr>\<rparr>)\<rparr>"
      using pub p by (auto simp: publishTunnel_def hub_simps)
    show ?thesis
      by (rule relay_inv_single [OF inv p(2)])
         (use p tu h False splices_iff [OF inv] pending_distinct [OF inv] in \<open>auto simp: step_simps\<close>)
  qed
qed

lemma inv_tunnel_end:
  assumes inv: "relay_inv c" and tu: "rl_tunnel c s = Some TuWaiting"
  shows "relay_inv (set_tunnel s TuDone c)"
proof -
  note s = tunnel_known [OF inv tu]
  obtain p where p: "hb_joins (rl_hub c) s = Some p"
    "agrees (s \<in> set (hb_pending (rl_hub c)), Some p, rl_phone c s, rl_tunnel c s)"
    by (rule relay_inv_agrees [OF inv s])
  show ?thesis
    by (rule relay_inv_single [OF inv s])
       (use p tu splices_iff [OF inv] pending_distinct [OF inv] in \<open>auto simp: step_simps split: if_splits\<close>)
qed

lemma inv_join:
  assumes inv: "relay_inv c" and s: "s \<notin> set (rl_sids c)"
    and bj: "beginJoin s token now i (rl_hub c) = (Inr s, h)"
  shows "relay_inv (set_phone s PhDialing (c\<lparr>rl_hub := h, rl_sids := rl_sids c @ [s]\<rparr>))"
proof -
  let ?c = "set_phone s PhDialing (c\<lparr>rl_hub := h, rl_sids := rl_sids c @ [s]\<rparr>)"
  obtain tok where h: "h = (rl_hub c)\<lparr>hb_joins := (hb_joins (rl_hub c))(s \<mapsto> new_join i tok now),
      hb_pending := hb_pending (rl_hub c) @ [s],
      hb_phones := (hb_phones (rl_hub c))(i := hb_phones (rl_hub c) i + 1)\<rparr>"
    and lim: "hb_phones (rl_hub c) i < MaxPhonesPerHost (hb_limits (rl_hub c))"
      "length (hb_pending (rl_hub c)) < MaxConcurrentJoin (hb_limits (rl_hub c))"
    using bj by (auto simp: beginJoin_def split: if_splits option.splits)
  have old: "view ?c s' = view c s'" if "s' \<in> set (rl_sids c)" for s'
    using that s by (auto simp: view_def h)
  have new: "view ?c s = (True, Some (new_join i tok now), Some PhDialing, None)"
    using inv s by (auto simp: view_def h relay_inv_def)
  have "filter (\<lambda>s. view_host (view ?c s) = j \<and> held (view ?c s)) (rl_sids c) =
      filter (\<lambda>s. view_host (view c s) = j \<and> held (view c s)) (rl_sids c)" for j
    using old by (intro filter_cong) auto
  then have sl: "slots ?c j = slots c j + (if j = i then 1 else 0)" for j
    using new by (simp add: slots_def new_join_def held_def)
  have ag: "agrees (view ?c s')" if "s' \<in> set (rl_sids ?c)" for s'
  proof (cases "s' = s")
    case True
    then show ?thesis using new by (simp add: new_join_def waiting_def)
  next
    case False
    then show ?thesis using old inv that by (auto simp: relay_inv_def)
  qed
  show ?thesis
    unfolding relay_inv_def
    using inv s lim sl ag by (auto simp: relay_inv_def h le_Suc_eq)
qed

lemma relay_step_inv: "relay_step hash c c' \<Longrightarrow> relay_inv c \<Longrightarrow> relay_inv c'"
proof (induction rule: relay_step.induct)
  case (rs_register i secret c conn r h)
  then show ?case using inv_hosts [where c = c and h = "rl_hub c"] by (auto simp: register_def split: if_splits)
qed (blast intro: inv_bulk inv_join inv_dial inv_dial_fail inv_ready inv_closed inv_leave inv_join_ok
      inv_splice_end inv_end inv_claim inv_tunnel_fail inv_publish inv_tunnel_end)+

lemma relay_reach_inv: "relay_reach hash c \<Longrightarrow> relay_inv c"
proof (induction rule: relay_reach.induct)
  case (rr_start allow lim legacy)
  then show ?case by (simp add: relay_inv_def relay_start_def newHub_def slots_def)
qed (simp add: relay_step_inv)

subsection \<open>Life cycle\<close>

text \<open>The abstract join: it goes forward through its stages or is over, and over is final.\<close>

fun stage_next :: "stage \<Rightarrow> stage \<Rightarrow> bool" where
  "stage_next Pending b \<longleftrightarrow> b \<in> {Pending, Claimed, Over}"
| "stage_next Claimed b \<longleftrightarrow> b \<in> {Claimed, Published, Over}"
| "stage_next Published b \<longleftrightarrow> b \<in> {Published, Active, Over}"
| "stage_next Active b \<longleftrightarrow> b \<in> {Active, Over}"
| "stage_next Over b \<longleftrightarrow> b = Over"

lemma stage_next_refl [simp]: "stage_next a a"
  by (cases a) simp_all

lemma stage_next_Over [simp]: "stage_next a Over"
  by (cases a) simp_all

lemma view_fail_pending_other:
  "x \<noteq> s \<Longrightarrow> view (c\<lparr>rl_hub := fail_pending x (rl_hub c)\<rparr>) s = view c s"
  by (auto simp: view_def fail_pending_def close_ready_def update_join_def hub_simps split: option.splits)

lemma stage_fail_pending:
  assumes inv: "relay_inv c" and x: "x \<in> set (hb_pending (rl_hub c))"
  shows "view (c\<lparr>rl_hub := fail_pending x (rl_hub c)\<rparr>) s = view c s \<or>
    stage_of (view (c\<lparr>rl_hub := fail_pending x (rl_hub c)\<rparr>) s) = Over \<and> s = x"
proof (cases "s = x")
  case True
  obtain p where p: "hb_joins (rl_hub c) x = Some p" "x \<in> set (rl_sids c)" "rl_tunnel c x = None"
    "waiting (rl_phone c x)" "pj_ready p = \<lparr>ch_val = None, ch_closed = False\<rparr>" "\<not> pj_phoneGone p"
    by (rule pending_agrees [OF inv x])
  have "x \<notin> set (hb_pending (fail_pending x (rl_hub c)))"
    using pending_distinct [OF inv] by (simp add: fail_pending_pending)
  with True p show ?thesis
    by (auto simp: view_def fail_pending_open [OF p(1)] has_tunnel_def waiting_def)
qed (simp add: view_fail_pending_other)

lemma stage_fold_fail:
  assumes "relay_inv c" "distinct xs" "set xs \<subseteq> set (hb_pending (rl_hub c))"
  shows "view (c\<lparr>rl_hub := fold fail_pending xs (rl_hub c)\<rparr>) s = view c s \<or>
    stage_of (view (c\<lparr>rl_hub := fold fail_pending xs (rl_hub c)\<rparr>) s) = Over"
  using assms
proof (induction xs arbitrary: c)
  case (Cons x xs)
  let ?c = "c\<lparr>rl_hub := fail_pending x (rl_hub c)\<rparr>"
  have x: "x \<in> set (hb_pending (rl_hub c))" using Cons.prems by simp
  have sub: "set xs \<subseteq> set (hb_pending (rl_hub ?c))"
    using Cons.prems pending_distinct [OF Cons.prems(1)] by (auto simp: fail_pending_pending)
  have "view (?c\<lparr>rl_hub := fold fail_pending xs (rl_hub ?c)\<rparr>) s = view ?c s \<or>
      stage_of (view (?c\<lparr>rl_hub := fold fail_pending xs (rl_hub ?c)\<rparr>) s) = Over"
    using Cons.prems by (intro Cons.IH inv_fail_pending sub) auto
  with stage_fail_pending [OF Cons.prems(1) x, of s] show ?case by auto
qed simp

lemma view_hosts: "view (c\<lparr>rl_hub := h\<lparr>hb_hosts := H\<rparr>\<rparr>) s = view (c\<lparr>rl_hub := h\<rparr>) s"
  by (simp add: view_def)

lemma stage_bulk:
  assumes inv: "relay_inv c"
  shows "stage_next (stage_of (view c s)) (stage_of (view (c\<lparr>rl_hub := unregister i conn (rl_hub c)\<rparr>) s))"
    "stage_next (stage_of (view c s)) (stage_of (view (c\<lparr>rl_hub := closeAllHosts (rl_hub c)\<rparr>) s))"
    "stage_next (stage_of (view c s)) (stage_of (view (c\<lparr>rl_hub := snd (expireStalePending now maxAge (rl_hub c))\<rparr>) s))"
proof -
  have d: "distinct (hb_pending (rl_hub c))" using inv by (simp add: relay_inv_def)
  let ?xs = "filter (\<lambda>sid. host_of (rl_hub c) sid = i) (hb_pending (rl_hub c))"
  show "stage_next (stage_of (view c s)) (stage_of (view (c\<lparr>rl_hub := unregister i conn (rl_hub c)\<rparr>) s))"
    using stage_fold_fail [OF inv, of ?xs s] d
    by (cases "hb_hosts (rl_hub c) i \<noteq> Some conn") (auto simp: unregister_def view_hosts)
  show "stage_next (stage_of (view c s)) (stage_of (view (c\<lparr>rl_hub := closeAllHosts (rl_hub c)\<rparr>) s))"
    using stage_fold_fail [OF inv d, of s] by (auto simp: closeAllHosts_def view_hosts)
  let ?old = "filter (stale (now - maxAge) (rl_hub c)) (hb_pending (rl_hub c))"
  show "stage_next (stage_of (view c s)) (stage_of (view (c\<lparr>rl_hub := snd (expireStalePending now maxAge (rl_hub c))\<rparr>) s))"
    using stage_fold_fail [OF inv, of ?old s] fold_cancelJoin [of ?old "rl_hub c"] d
    by (auto simp: expireStalePending_def Let_def)
qed

lemma view_phoneGone_other:
  assumes "x \<noteq> s"
  shows "view (c\<lparr>rl_hub := snd (phoneGone x (rl_hub c))\<rparr>) s = view c s"
proof (cases "x \<in> set (hb_pending (rl_hub c))")
  case True
  then show ?thesis using view_fail_pending_other [OF assms] by (simp add: phoneGone_def)
next
  case False
  with assms show ?thesis
    by (auto simp: view_def phoneGone_def Let_def releasePhoneLocked_eq closeDone_def update_join_def
        split: option.splits)
qed

lemma stage_leave:
  assumes inv: "relay_inv c" and s: "s \<in> set (rl_sids c)" and ph: "rl_phone c s = Some PhWaiting"
  shows "stage_next (stage_of (view c s))
    (stage_of (view (set_phone s (PhDone False) (c\<lparr>rl_hub := snd (phoneGone s (rl_hub c))\<rparr>)) s))"
proof -
  obtain p where p: "hb_joins (rl_hub c) s = Some p"
    "agrees (s \<in> set (hb_pending (rl_hub c)), Some p, rl_phone c s, rl_tunnel c s)"
    by (rule relay_inv_agrees [OF inv s])
  consider (pend) "s \<in> set (hb_pending (rl_hub c))"
    | (none) "s \<notin> set (hb_pending (rl_hub c))" "ch_val (pj_ready p) = None"
    | (val) t where "s \<notin> set (hb_pending (rl_hub c))" "ch_val (pj_ready p) = Some t"
    by (cases "ch_val (pj_ready p)") auto
  then show ?thesis
  proof cases
    case pend
    then have "rl_tunnel c s = None" "pj_ready p = \<lparr>ch_val = None, ch_closed = False\<rparr>"
      using p(2) by auto
    with pend p(1) pending_distinct [OF inv] show ?thesis
      by (simp add: view_def phoneGone_cases(1) [OF p(1)] fail_pending_open [OF p(1)] has_tunnel_def)
  next
    case none
    with p ph show ?thesis by (auto simp: view_def phoneGone_cases(2) [OF p(1)] has_tunnel_def)
  next
    case (val t)
    with p ph show ?thesis
      by (auto simp: view_def phoneGone_cases(3) [OF p(1)] has_tunnel_def split: if_splits)
  qed
qed

lemma view_cancelJoin_other:
  "x \<noteq> s \<Longrightarrow> view (c\<lparr>rl_hub := cancelJoin x (rl_hub c)\<rparr>) s = view c s"
  by (simp add: cancelJoin_def view_fail_pending_other)

lemma stage_dial_fail:
  assumes inv: "relay_inv c" and s: "s \<in> set (rl_sids c)" and ph: "rl_phone c s = Some PhDialing"
  shows "stage_next (stage_of (view c s))
    (stage_of (view (set_phone s (PhDone True) (c\<lparr>rl_hub := cancelJoin s (rl_hub c)\<rparr>)) s))"
proof -
  obtain p where p: "hb_joins (rl_hub c) s = Some p"
    "agrees (s \<in> set (hb_pending (rl_hub c)), Some p, rl_phone c s, rl_tunnel c s)"
    by (rule relay_inv_agrees [OF inv s])
  show ?thesis
  proof (cases "s \<in> set (hb_pending (rl_hub c))")
    case True
    then have "rl_tunnel c s = None" "pj_ready p = \<lparr>ch_val = None, ch_closed = False\<rparr>"
      using p(2) by auto
    with True p(1) pending_distinct [OF inv] show ?thesis
      by (simp add: view_def cancelJoin_def fail_pending_open [OF p(1)] has_tunnel_def)
  next
    case False
    with ph show ?thesis by (simp add: view_def cancelJoin_def)
  qed
qed

lemma view_publish_other:
  "x \<noteq> s \<Longrightarrow> view (c\<lparr>rl_hub := snd (publishTunnel x conn (rl_hub c))\<rparr>) s = view c s"
  by (auto simp: view_def publishTunnel_def releasePhoneLocked_eq closeDone_def update_join_def split: option.splits)

lemma stage_publish:
  assumes inv: "relay_inv c" and tu: "rl_tunnel c s = Some (TuClaimed conn)"
    and pub: "publishTunnel s conn (rl_hub c) = (ok, h)"
  shows "stage_next (stage_of (view c s))
    (stage_of (view (set_tunnel s (if ok then TuWaiting else TuDone) (c\<lparr>rl_hub := h\<rparr>)) s))"
proof -
  obtain p where p: "hb_joins (rl_hub c) s = Some p" "s \<in> set (rl_sids c)" "s \<notin> set (hb_pending (rl_hub c))"
    "pj_ready p = \<lparr>ch_val = None, ch_closed = False\<rparr>"
    "waiting (rl_phone c s) \<and> \<not> pj_phoneGone p \<or> rl_phone c s = Some (PhDone (\<not> pj_phoneGone p))"
    by (rule claimed_agrees [OF inv tu])
  have na: "\<not> is_active (rl_phone c s)" using p(5) by (auto simp: waiting_def)
  show ?thesis
  proof (cases "pj_phoneGone p")
    case True
    with pub p na show ?thesis by (auto simp: publishTunnel_def view_def hub_simps has_tunnel_def)
  next
    case False
    with pub p tu na show ?thesis by (auto simp: publishTunnel_def view_def hub_simps has_tunnel_def)
  qed
qed

lemma step_stage:
  assumes inv: "relay_inv c" and s: "s \<in> set (rl_sids c)" and step: "relay_step hash c c'"
  shows "stage_next (stage_of (view c s)) (stage_of (view c' s))"
proof -
  obtain p where p: "hb_joins (rl_hub c) s = Some p"
    "agrees (s \<in> set (hb_pending (rl_hub c)), Some p, rl_phone c s, rl_tunnel c s)"
    by (rule relay_inv_agrees [OF inv s])
  note d = pending_distinct [OF inv]
  from step show ?thesis
  proof cases
    case (rs_register i secret conn r h)
    then show ?thesis using view_hosts [where h = "rl_hub c" and c = c] by (auto simp: register_def split: if_splits)
  next
    case (rs_join x token now i h)
    then show ?thesis using s by (auto simp: beginJoin_def view_def split: if_splits option.splits)
  next
    case (rs_dial x)
    then show ?thesis using p by (cases "x = s") (auto simp: view_def)
  next
    case (rs_dial_fail x)
    then show ?thesis using stage_dial_fail [OF inv s] view_cancelJoin_other [of x s c]
      by (cases "x = s") (simp_all add: view_def)
  next
    case (rs_ready x ch t)
    then show ?thesis using p
      by (cases "x = s") (auto simp: view_def take_ready_def update_join_def has_tunnel_def split: if_splits option.splits)
  next
    case (rs_closed x ch)
    then show ?thesis using p by (cases "x = s") (auto simp: view_def has_tunnel_def split: if_splits)
  next
    case (rs_leave x)
    then show ?thesis using stage_leave [OF inv s] view_phoneGone_other [of x s c]
      by (cases "x = s") (simp_all add: view_def)
  next
    case (rs_join_ok x t)
    then show ?thesis using p by (cases "x = s") (auto simp: view_def)
  next
    case (rs_join_ok_fail x t)
    then show ?thesis using p
      by (cases "x = s") (auto simp: view_def endPhone_def hub_simps closeDone_def update_join_def has_tunnel_def
          split: option.splits if_splits)
  next
    case (rs_splice_end x t)
    then show ?thesis using p by (cases "x = s") (auto simp: view_def)
  next
    case (rs_end x)
    then show ?thesis using p
      by (cases "x = s") (auto simp: view_def endPhone_def hub_simps closeDone_def update_join_def has_tunnel_def
          split: option.splits if_splits)
  next
    case (rs_claim x i token secret h conn)
    then show ?thesis using p d
      by (cases "x = s") (auto simp: view_def claimTunnel_def Let_def split: option.splits if_splits)
  next
    case (rs_tunnel_fail x conn)
    then show ?thesis using p
      by (cases "x = s") (auto simp: view_def abandonTunnel_def hub_simps closeDone_def close_ready_def update_join_def
          has_tunnel_def waiting_def host_of_def split: option.splits if_splits)
  next
    case (rs_publish x conn ok h)
    then show ?thesis using stage_publish [OF inv] view_publish_other [of x s conn c]
      by (cases "x = s") (simp_all add: view_def)
  next
    case (rs_tunnel_end x)
    then show ?thesis using p by (cases "x = s") (auto simp: view_def)
  qed (simp_all add: stage_bulk [OF inv])
qed

text \<open>A join whose phone handler has ended and whose tunnel handler has published it, or never had it, is left alone.\<close>

lemma fold_fail_other:
  "s \<notin> set xs \<Longrightarrow> view (c\<lparr>rl_hub := fold fail_pending xs (rl_hub c)\<rparr>) s = view c s"
proof (induction xs arbitrary: c)
  case (Cons x xs)
  then show ?case using Cons.IH [of "c\<lparr>rl_hub := fail_pending x (rl_hub c)\<rparr>"] view_fail_pending_other [of x s c]
    by auto
qed simp

lemma fold_cancel_other:
  "s \<notin> set xs \<Longrightarrow> view (c\<lparr>rl_hub := fold cancelJoin xs (rl_hub c)\<rparr>) s = view c s"
proof (induction xs arbitrary: c)
  case (Cons x xs)
  then show ?case using Cons.IH [of "c\<lparr>rl_hub := cancelJoin x (rl_hub c)\<rparr>"] view_cancelJoin_other [of x s c]
    by auto
qed simp

lemma abandoned_join_stays:
  assumes step: "relay_step hash c c'" and s: "s \<in> set (rl_sids c)" "s \<notin> set (hb_pending (rl_hub c))"
    and tu: "\<not> is_claimed (rl_tunnel c s)" and ph: "rl_phone c s = Some (PhDone b)"
  shows "rl_phone c' s = rl_phone c s \<and> stage_of (view c' s) = stage_of (view c s)"
  using step
proof cases
  case (rs_register i secret conn r h)
  then show ?thesis using view_hosts [where h = "rl_hub c" and c = c] by (auto simp: register_def split: if_splits)
next
  case (rs_unregister i conn)
  have "view c' s = view c s"
    using rs_unregister s(2) fold_fail_other by (simp add: unregister_def view_hosts)
  then show ?thesis by (simp add: rs_unregister)
next
  case rs_shutdown
  then show ?thesis using s(2) fold_fail_other [of s "hb_pending (rl_hub c)" c]
    by (simp add: closeAllHosts_def view_hosts)
next
  case (rs_expire now maxAge)
  then show ?thesis using s(2) fold_cancel_other [of s _ c]
    by (simp add: expireStalePending_def Let_def)
next
  case (rs_join x token now i h)
  then show ?thesis using s by (auto simp: beginJoin_def view_def split: if_splits option.splits)
next
  case (rs_dial_fail x)
  then show ?thesis using ph view_cancelJoin_other [of x s c] by (cases "x = s") (simp_all add: view_def)
next
  case (rs_ready x ch t)
  then show ?thesis using ph by (cases "x = s") (auto simp: view_def take_ready_def update_join_def split: option.splits)
next
  case (rs_leave x)
  then show ?thesis using ph view_phoneGone_other [of x s c] by (cases "x = s") (simp_all add: view_def)
next
  case (rs_join_ok_fail x t)
  then show ?thesis using ph
    by (cases "x = s") (auto simp: view_def endPhone_def hub_simps closeDone_def update_join_def split: option.splits)
next
  case (rs_end x)
  then show ?thesis using ph
    by (cases "x = s") (auto simp: view_def endPhone_def hub_simps closeDone_def update_join_def split: option.splits)
next
  case (rs_claim x i token secret h conn)
  then show ?thesis using s by (cases "x = s") (auto simp: view_def claimTunnel_def Let_def split: option.splits if_splits)
next
  case (rs_tunnel_fail x conn)
  then show ?thesis using tu
    by (cases "x = s") (auto simp: view_def abandonTunnel_def hub_simps closeDone_def close_ready_def update_join_def
        split: option.splits)
next
  case (rs_publish x conn ok h)
  then show ?thesis using tu view_publish_other [of x s conn c] by (cases "x = s") (simp_all add: view_def)
qed (use ph tu in \<open>auto simp: view_def\<close>)


subsection \<open>Properties\<close>

text \<open>A small relay: one host, registered, with one join; then as its tunnel claims it, and so on.\<close>

definition ex_relay0 :: relay where
  "ex_relay0 = relay_start (newHub [(''h'', ''pw'')] \<lparr>MaxHosts = 1, MaxPhonesPerHost = 1, MaxConcurrentJoin = 1\<rparr> False)"

definition ex_joined :: relay where
  "ex_joined =
    (let h = snd (register ''h'' 1 (rl_hub ex_relay0))
     in set_phone ''s'' PhDialing (ex_relay0\<lparr>rl_hub := snd (beginJoin ''s'' (Some ''tok'') 0 ''h'' h), rl_sids := [''s'']\<rparr>))"

definition ex_claimed :: relay where
  "ex_claimed = set_tunnel ''s'' (TuClaimed 2)
     (ex_joined\<lparr>rl_hub := snd (claimTunnel (\<lambda>x. x) ''s'' ''h'' ''tok'' [] (rl_hub ex_joined))\<rparr>)"

definition ex_leaked :: relay where
  "ex_leaked =
    (let c = set_phone ''s'' (PhDone True) (ex_claimed\<lparr>rl_hub := cancelJoin ''s'' (rl_hub ex_claimed)\<rparr>)
     in set_tunnel ''s'' TuWaiting (c\<lparr>rl_hub := snd (publishTunnel ''s'' 2 (rl_hub c))\<rparr>))"

lemmas ex_relay_defs = ex_relay0_def ex_joined_def ex_claimed_def ex_leaked_def relay_start_def newHub_def
  register_def beginJoin_def claimTunnel_def cancelJoin_def publishTunnel_def new_join_def update_join_def
  host_count_def Let_def

lemma ex_joined_reach: "relay_reach (\<lambda>x. x) ex_joined"
proof -
  let ?h = "snd (register ''h'' 1 (rl_hub ex_relay0))"
  let ?c1 = "ex_relay0\<lparr>rl_hub := ?h\<rparr>"
  have "relay_reach (\<lambda>x. x) ex_relay0" unfolding ex_relay0_def by (rule rr_start)
  moreover have "relay_step (\<lambda>x. x) ex_relay0 ?c1"
    by (rule rs_register [of _ "''h''" "''pw''" _ 1 "fst (register ''h'' 1 (rl_hub ex_relay0))"])
       (simp_all add: checkSecret_def ex_relay0_def relay_start_def newHub_def)
  moreover have "relay_step (\<lambda>x. x) ?c1 ex_joined"
    using rs_join [of "''s''" ?c1 "Some ''tok''" 0 "''h''" "snd (beginJoin ''s'' (Some ''tok'') 0 ''h'' ?h)"]
    by (simp add: ex_relay_defs)
  ultimately show ?thesis using rr_step by metis
qed

lemma ex_claimed_reach: "relay_reach (\<lambda>x. x) ex_claimed"
proof (rule rr_step [OF ex_joined_reach])
  show "relay_step (\<lambda>x. x) ex_joined ex_claimed"
    unfolding ex_claimed_def
    by (rule rs_claim [of _ "''s''" "''h''" "''tok''" "[]"]) (simp add: ex_relay_defs)
qed

lemma ex_leaked_reach: "relay_reach (\<lambda>x. x) ex_leaked"
proof -
  let ?c = "set_phone ''s'' (PhDone True) (ex_claimed\<lparr>rl_hub := cancelJoin ''s'' (rl_hub ex_claimed)\<rparr>)"
  have "relay_step (\<lambda>x. x) ex_claimed ?c" by (rule rs_dial_fail) (simp add: ex_relay_defs)
  moreover have "relay_step (\<lambda>x. x) ?c ex_leaked"
    using rs_publish [of ?c "''s''" 2 True "snd (publishTunnel ''s'' 2 (rl_hub ?c))"]
    by (simp add: ex_relay_defs)
  ultimately show ?thesis using ex_claimed_reach rr_step by metis
qed

lemma ex_stages:
  "stage_of (view ex_claimed ''s'') = Claimed" "stage_of (view ex_leaked ''s'') = Published"
  "rl_phone ex_leaked ''s'' = Some (PhDone True)" "view_host (view ex_claimed ''s'') = ''h''"
  "rl_sids ex_claimed = [''s'']" "rl_sids ex_leaked = [''s'']"
  by (simp_all add: ex_relay_defs view_def has_tunnel_def)



text \<open>C19: Every step of every handler moves each join along its life: pending, claimed by one tunnel,
  published to the phone, spliced, over; or straight to over from anywhere. A join that is over
  stays over, so its slot is released once and never taken again, and a claimed join cannot be
  claimed a second time.\<close>

theorem join_lifecycle:
  assumes "relay_reach hash c" "relay_step hash c c'" "s \<in> set (rl_sids c)"
  shows "stage_next (stage_of (view c s)) (stage_of (view c' s))"
  by (rule step_stage [OF relay_reach_inv [OF assms(1)] assms(3,2)])

theorem join_lifecycle_witness:
  "\<exists>c'. relay_step (\<lambda>x. x) ex_claimed c' \<and> stage_next Claimed (stage_of (view c' ''s''))"
proof -
  have "relay_step (\<lambda>x. x) ex_claimed (set_tunnel ''s'' TuDone (ex_claimed\<lparr>rl_hub := abandonTunnel ''s'' (rl_hub ex_claimed)\<rparr>))"
    by (rule rs_tunnel_fail [of _ _ 2]) (simp add: ex_relay_defs)
  from join_lifecycle [OF ex_claimed_reach this, of "''s''"] this show ?thesis
    by (auto simp: ex_stages simp del: stage_next.simps)
qed

text \<open>Slots come back. Once a join's phone handler has ended by any way but a failed dial, and no
  tunnel handler still has it claimed, the join is over: it holds no slot and a tunnel handler still
  waiting for it has been told. And a phone handler waiting for its tunnel is never forgotten: the
  join is still pending, or claimed, or its channel has the tunnel or is closed.\<close>

theorem slots_returned:
  assumes "relay_reach hash c" "s \<in> set (rl_sids c)"
  shows "(rl_phone c s = Some (PhDone False) \<and> \<not> is_claimed (rl_tunnel c s) \<longrightarrow>
      stage_of (view c s) = Over \<and> (rl_tunnel c s = Some TuWaiting \<longrightarrow>
        (\<exists>p. hb_joins (rl_hub c) s = Some p \<and> pj_done p))) \<and>
    (rl_phone c s = Some PhWaiting \<longrightarrow>
      s \<in> set (hb_pending (rl_hub c)) \<or> is_claimed (rl_tunnel c s) \<or>
      (\<exists>p. hb_joins (rl_hub c) s = Some p \<and> (ch_val (pj_ready p) \<noteq> None \<or> ch_closed (pj_ready p))))"
proof -
  obtain p where p: "hb_joins (rl_hub c) s = Some p"
    "agrees (s \<in> set (hb_pending (rl_hub c)), Some p, rl_phone c s, rl_tunnel c s)"
    by (rule relay_inv_agrees [OF relay_reach_inv [OF assms(1)] assms(2)])
  then show ?thesis by (auto simp: view_def has_tunnel_def waiting_def split: if_splits)
qed

theorem slots_returned_witness:
  "let c = set_phone ''s'' PhWaiting ex_claimed
   in ''s'' \<in> set (hb_pending (rl_hub c)) \<or> is_claimed (rl_tunnel c ''s'') \<or>
      (\<exists>p. hb_joins (rl_hub c) ''s'' = Some p \<and> (ch_val (pj_ready p) \<noteq> None \<or> ch_closed (pj_ready p)))"
proof -
  have "relay_step (\<lambda>x. x) ex_claimed (set_phone ''s'' PhWaiting ex_claimed)"
    by (rule rs_dial) (simp add: ex_relay_defs)
  from slots_returned [OF rr_step [OF ex_claimed_reach this], of "''s''"] show ?thesis
    by (simp add: Let_def ex_stages)
qed

text \<open>A failed dial can leak a slot. A join whose phone handler left after the dial write failed,
  but which the host had already claimed and whose tunnel was then published, keeps its slot in
  every later state: no step of any handler releases it.\<close>

theorem dial_failure_leaks:
  assumes "relay_reach hash c" "s \<in> set (rl_sids c)" "rl_phone c s = Some (PhDone True)"
    and "stage_of (view c s) = Published" "relay_step hash c c'"
  shows "rl_phone c' s = Some (PhDone True) \<and> stage_of (view c' s) = Published"
proof -
  have "s \<notin> set (hb_pending (rl_hub c))" "\<not> is_claimed (rl_tunnel c s)"
    using assms(4) by (auto simp: view_def split: if_splits)
  from abandoned_join_stays [OF assms(5,2) this assms(3)] assms(3,4) show ?thesis by simp
qed

theorem dial_failure_leaks_witness:
  "\<exists>c'. relay_step (\<lambda>x. x) ex_leaked c' \<and> stage_of (view c' ''s'') = Published"
proof -
  have "relay_step (\<lambda>x. x) ex_leaked (set_tunnel ''s'' TuDone ex_leaked)"
    by (rule rs_tunnel_end) (simp add: ex_relay_defs)
  with dial_failure_leaks [OF ex_leaked_reach, of "''s''"] show ?thesis by (auto simp: ex_stages)
qed

text \<open>The slot sweep settles: after two sweeps over the same joins and splices every host's
  counter is its live splices plus its pending joins, whatever it was before.\<close>

theorem sweeps_settle:
  "hb_phones (reconcilePhones live (reconcilePhones live h)) i = live i + pendingBy h i"
  by (simp add: reconcilePhones_def Let_def pendingBy_def host_of_def)

text \<open>The sweep can take away a slot in use. If two sweeps fall while a join is claimed and its
  tunnel handler is still writing \<open>tunnel_ok\<close>, with nothing else moving, the host's counter is set
  below the number of joins holding its slots, and the release to come takes one more.\<close>

theorem sweep_undercounts:
  assumes "relay_reach hash c" "s \<in> set (rl_sids c)" "stage_of (view c s) = Claimed"
    and "i = host_of (rl_hub c) s"
    and "live = (\<lambda>i. length (filter (\<lambda>s. host_of (rl_hub c) s = i \<and> s \<in> rl_splices c) (rl_sids c)))"
  shows "hb_phones (reconcilePhones live (reconcilePhones live (rl_hub c))) i < slots c i"
proof -
  note inv = relay_reach_inv [OF assms(1)]
  let ?sids = "rl_sids c" let ?host = "\<lambda>s. host_of (rl_hub c) s = i"
  have dist: "distinct ?sids" "distinct (hb_pending (rl_hub c))" "set (hb_pending (rl_hub c)) \<subseteq> set ?sids"
    using inv by (simp_all add: relay_inv_def)
  have vh: "view_host (view c s) = host_of (rl_hub c) s" for s by (simp add: view_def host_of_def)
  let ?L = "{s \<in> set ?sids. ?host s \<and> s \<in> rl_splices c}" let ?P = "{s \<in> set (hb_pending (rl_hub c)). ?host s}"
  let ?S = "{s \<in> set ?sids. ?host s \<and> held (view c s)}"
  have spl: "x \<in> rl_splices c \<Longrightarrow> is_active (rl_phone c x)" for x
    using splices_iff [OF inv] by auto
  have pw: "x \<in> set (hb_pending (rl_hub c)) \<Longrightarrow> \<not> is_active (rl_phone c x)" for x
    using pending_agrees [OF inv, of x] by (metis is_active.simps(5,6) waiting_def)
  obtain k where cl: "rl_tunnel c s = Some (TuClaimed k)"
    using assms(3) by (auto simp: view_def split: if_splits elim: is_claimed.elims)
  obtain p :: pending_join where "s \<notin> set (hb_pending (rl_hub c))"
    "waiting (rl_phone c s) \<and> \<not> pj_phoneGone p \<or> rl_phone c s = Some (PhDone (\<not> pj_phoneGone p))"
    using claimed_agrees [OF inv cl] by blast
  then have "\<not> is_active (rl_phone c s)" "s \<notin> set (hb_pending (rl_hub c))"
    by (auto simp: waiting_def)
  then have "s \<in> ?S - (?L \<union> ?P)" using assms(2-4) spl by (auto simp: held_def)
  moreover have "?L \<union> ?P \<subseteq> ?S" using dist(3) spl by (auto simp: view_def held_def)
  ultimately have "card (?L \<union> ?P) < card ?S" by (intro psubset_card_mono) auto
  moreover have "card (?L \<union> ?P) = card ?L + card ?P" using spl pw by (intro card_Un_disjoint) auto
  moreover have "card ?L = live i" "card ?P = pendingBy (rl_hub c) i" "card ?S = slots c i"
    using dist by (simp_all add: assms(5) pendingBy_def slots_def vh distinct_card [symmetric] Collect_conj_eq inf.commute)
  ultimately show ?thesis by (simp add: reconcilePhones_def Let_def pendingBy_def host_of_def)
qed

theorem sweep_undercounts_witness:
  "\<exists>live. hb_phones (reconcilePhones live (reconcilePhones live (rl_hub ex_claimed))) ''h'' < slots ex_claimed ''h''"
  using sweep_undercounts [OF ex_claimed_reach, of "''s''" "''h''"] ex_stages
  by (auto simp: view_def host_of_def)

end
