(* ===== verification/Paging.thy ===== *)
theory Paging
  imports History
begin

text \<open>
  History pages, forwards and backwards: \<open>HistoryPage\<close>, \<open>HistoryPageBefore\<close> and the
  functions under them in \<open>internal/session/manager.go\<close>, and \<open>SeqBounds\<close>. The rows come
  from the live ring when the session is live and has any, otherwise from the store;
  \<open>LoadHistory\<close> is the argument \<open>disk\<close>. The size of an event's JSON encoding, or the
  encoder's error, is the argument \<open>enc\<close>: \<open>historyMarshal\<close> is a variable of the
  package, and only the length of its result is used. \<open>sort.Search\<close> is written out.
\<close>

definition historyDefaultPage :: int where "historyDefaultPage = 200"
definition historyMaxPage :: int where "historyMaxPage = 800"
definition historyMaxResponseBytes :: nat where "historyMaxResponseBytes = 512 * 1024"

text \<open>\<open>sort.Search\<close>: the binary search for the first index at which \<open>f\<close> holds.\<close>

function search :: "(nat \<Rightarrow> bool) \<Rightarrow> nat \<Rightarrow> nat \<Rightarrow> nat" where
  "search f i j =
    (if i < j then
       let h = (i + j) div 2
       in if \<not> f h then search f (h + 1) j else search f i h
     else i)"
  by pat_completeness auto
termination by (relation "measure (\<lambda>(f, i, j). j - i)") auto

declare search.simps [simp del]

definition page_rows :: "ring option \<Rightarrow> bool \<Rightarrow> event list option \<Rightarrow> event list" where
  "page_rows live dead disk =
    (case live of
       Some e \<Rightarrow> if \<not> dead \<and> history e \<noteq> [] then history e
                 else (case disk of None \<Rightarrow> [] | Some h \<Rightarrow> h)
     | None \<Rightarrow> (case disk of None \<Rightarrow> [] | Some h \<Rightarrow> h))"

definition History :: "ring option \<Rightarrow> bool \<Rightarrow> event list option \<Rightarrow> event list" where
  "History live dead disk = page_rows live dead disk"

text \<open>\<open>SeqBounds\<close> does not look at \<open>dead\<close>.\<close>

definition SeqBounds :: "ring option \<Rightarrow> event list option \<Rightarrow> nat \<times> nat" where
  "SeqBounds live disk =
    (case page_rows live False disk of
       [] \<Rightarrow> (0, 0)
     | h \<Rightarrow> (ev_Seq (hd h), ev_Seq (last h)))"

definition historyStartIndex :: "event list \<Rightarrow> nat \<Rightarrow> nat" where
  "historyStartIndex ring sinceSeq =
    (if sinceSeq = 0 then 0 else search (\<lambda>i. sinceSeq < ev_Seq (ring ! i)) 0 (length ring))"

definition historySlice :: "event list \<Rightarrow> nat \<Rightarrow> int \<Rightarrow> event list \<times> bool" where
  "historySlice ring sinceSeq mx =
    (if mx \<le> 0 then ([], False)
     else let start = historyStartIndex ring sinceSeq;
              stop = min (start + nat mx) (length ring)
          in if length ring \<le> start then ([], False)
             else (take (stop - start) (drop start ring), stop < length ring))"

definition historySliceBefore :: "event list \<Rightarrow> nat \<Rightarrow> int \<Rightarrow> event list \<times> bool" where
  "historySliceBefore ring beforeSeq mx =
    (if mx \<le> 0 then ([], False)
     else let stop = (if 0 < beforeSeq
                      then search (\<lambda>i. beforeSeq \<le> ev_Seq (ring ! i)) 0 (length ring)
                      else length ring)
          in if stop = 0 then ([], False)
             else let start = stop - nat mx
                  in (take (stop - start) (drop start ring), 0 < start))"

text \<open>The byte budget of a page: how many leading, or trailing, events fit in one response.\<close>

fun prefix_loop :: "(event \<Rightarrow> nat option) \<Rightarrow> event list \<Rightarrow> nat \<Rightarrow> nat \<Rightarrow> nat" where
  "prefix_loop enc [] i sz = i"
| "prefix_loop enc (e # es) i sz =
    (case enc e of
       None \<Rightarrow> if i = 0 then 1 else i
     | Some b \<Rightarrow>
         let sep = (if 0 < i then 1 else 0)
         in if 0 < i \<and> historyMaxResponseBytes < sz + sep + b then i
            else prefix_loop enc es (i + 1) (sz + sep + b))"

definition historyBudgetPrefix :: "(event \<Rightarrow> nat option) \<Rightarrow> event list \<Rightarrow> nat" where
  "historyBudgetPrefix enc window = (if window = [] then 0 else prefix_loop enc window 0 2)"

text \<open>The suffix loop walks the window from its end with the same bookkeeping.\<close>

definition historyBudgetSuffix :: "(event \<Rightarrow> nat option) \<Rightarrow> event list \<Rightarrow> nat" where
  "historyBudgetSuffix enc window = (if window = [] then 0 else prefix_loop enc (rev window) 0 2)"

definition clamp_limit :: "int \<Rightarrow> int" where
  "clamp_limit limit =
    (let l = (if limit \<le> 0 then historyDefaultPage else limit)
     in if historyMaxPage < l then historyMaxPage else l)"

definition HistoryPage ::
  "(event \<Rightarrow> nat option) \<Rightarrow> event list \<Rightarrow> nat \<Rightarrow> int \<Rightarrow> event list \<times> bool \<times> nat" where
  "HistoryPage enc ring sinceSeq limit =
    (case historySlice ring sinceSeq (clamp_limit limit) of (window, remain) \<Rightarrow>
       if window = [] then ([], False, 0)
       else let out = take (historyBudgetPrefix enc window) window
            in (out, remain \<or> length out < length window,
                if out \<noteq> [] then ev_Seq (last out) else 0))"

definition HistoryPageBefore ::
  "(event \<Rightarrow> nat option) \<Rightarrow> event list \<Rightarrow> nat \<Rightarrow> int \<Rightarrow> event list \<times> bool \<times> nat" where
  "HistoryPageBefore enc ring beforeSeq limit =
    (case historySliceBefore ring beforeSeq (clamp_limit limit) of (window, older) \<Rightarrow>
       if window = [] then ([], False, 0)
       else let n = historyBudgetSuffix enc window;
                out = drop (length window - n) window;
                truncated = (older \<or> n < length window)
            in (out, truncated, if truncated then ev_Seq (hd out) else 0))"

text \<open>A client that follows the cursors: request after request until a page is not truncated.\<close>

fun read_forward ::
  "nat \<Rightarrow> (event \<Rightarrow> nat option) \<Rightarrow> event list \<Rightarrow> nat \<Rightarrow> int \<Rightarrow> event list option" where
  "read_forward 0 enc ring since limit = None"
| "read_forward (Suc fuel) enc ring since limit =
    (case HistoryPage enc ring since limit of (out, truncated, nxt) \<Rightarrow>
       if truncated then map_option (\<lambda>rest. out @ rest) (read_forward fuel enc ring nxt limit)
       else Some out)"

fun read_backward ::
  "nat \<Rightarrow> (event \<Rightarrow> nat option) \<Rightarrow> event list \<Rightarrow> nat \<Rightarrow> int \<Rightarrow> event list option" where
  "read_backward 0 enc ring cursor limit = None"
| "read_backward (Suc fuel) enc ring cursor limit =
    (case HistoryPageBefore enc ring cursor limit of (out, truncated, prev) \<Rightarrow>
       if truncated then map_option (\<lambda>older. older @ out) (read_backward fuel enc ring prev limit)
       else Some out)"

subsection \<open>Lemmas: binary search\<close>

lemma search_bounds: "i \<le> j \<Longrightarrow> i \<le> search f i j \<and> search f i j \<le> j"
proof (induction f i j rule: search.induct)
  case (1 f i j)
  then show ?case by (subst (1 2) search.simps) (fastforce simp: Let_def)
qed

lemma search_least:
  assumes "\<And>a b. a \<le> b \<Longrightarrow> b < j \<Longrightarrow> f a \<Longrightarrow> f b" "i \<le> j"
  shows "(\<forall>k. i \<le> k \<and> k < search f i j \<longrightarrow> \<not> f k) \<and> (search f i j < j \<longrightarrow> f (search f i j))"
  using assms
proof (induction f i j rule: search.induct)
  case (1 f i j)
  show ?case
  proof (cases "i < j")
    case False
    then show ?thesis by (subst (1 2 3) search.simps) auto
  next
    case True
    let ?h = "(i + j) div 2"
    show ?thesis
    proof (cases "f ?h")
      case f: False
      then have eq: "search f i j = search f (?h + 1) j" using True by (simp add: search.simps [of f i] Let_def)
      have "?h < j" using True by simp
      then have below: "\<not> f k" if "k \<le> ?h" for k using f 1(3) that by blast
      have "?h + 1 \<le> j" using True by simp
      from 1(1) [OF True refl] f 1(3) this have
        "(\<forall>k. ?h + 1 \<le> k \<and> k < search f (?h + 1) j \<longrightarrow> \<not> f k) \<and>
         (search f (?h + 1) j < j \<longrightarrow> f (search f (?h + 1) j))" by simp
      with below eq show ?thesis by (metis not_less_eq_eq Suc_eq_plus1)
    next
      case f: True
      then have eq: "search f i j = search f i ?h" using True by (simp add: search.simps [of f i] Let_def)
      have "i \<le> ?h" using True by simp
      from 1(2) [OF True refl] f 1(3) this have
        "(\<forall>k. i \<le> k \<and> k < search f i ?h \<longrightarrow> \<not> f k) \<and> (search f i ?h < ?h \<longrightarrow> f (search f i ?h))"
        by simp
      moreover have "search f i ?h \<le> ?h" using search_bounds [of i ?h f] True by simp
      ultimately show ?thesis using eq f by (metis le_neq_implies_less)
    qed
  qed
qed

lemma search_takeWhile:
  assumes "\<And>a b. a \<le> b \<Longrightarrow> b < length h \<Longrightarrow> P (h ! a) \<Longrightarrow> P (h ! b)"
  shows "search (\<lambda>i. P (h ! i)) 0 (length h) = length (takeWhile (\<lambda>x. \<not> P x) h)"
proof -
  let ?n = "search (\<lambda>i. P (h ! i)) 0 (length h)"
  have n: "?n \<le> length h" using search_bounds [of 0 "length h"] by simp
  have l: "(\<forall>k<?n. \<not> P (h ! k)) \<and> (?n < length h \<longrightarrow> P (h ! ?n))"
    using search_least [of "length h" "\<lambda>i. P (h ! i)" 0] assms by simp
  have "takeWhile (\<lambda>x. \<not> P x) h = take ?n h"
    using n l by (intro takeWhile_eq_take_P_nth) auto
  then show ?thesis using n by simp
qed

lemma sorted_rows:
  assumes "sorted_wrt (<) (map ev_Seq h)" "a \<le> b" "b < length h"
  shows "ev_Seq (h ! a) \<le> ev_Seq (h ! b)"
  using assms turns_rows [OF assms(1), of a b] by simp

lemma drop_takeWhile_filter:
  assumes "sorted_wrt (<) (map ev_Seq h)"
  shows "drop (length (takeWhile (\<lambda>x. \<not> n < ev_Seq x) h)) h = filter (\<lambda>x. n < ev_Seq x) h"
    "take (length (takeWhile (\<lambda>x. \<not> n \<le> ev_Seq x) h)) h = filter (\<lambda>x. \<not> n \<le> ev_Seq x) h"
proof -
  have "dropWhile (\<lambda>x. \<not> n < ev_Seq x) h = filter (\<lambda>x. n < ev_Seq x) h
      \<and> takeWhile (\<lambda>x. \<not> n \<le> ev_Seq x) h = filter (\<lambda>x. \<not> n \<le> ev_Seq x) h"
    using assms
  proof (induction h)
    case (Cons x h)
    have "n \<le> ev_Seq x \<Longrightarrow> filter (\<lambda>y. n < ev_Seq y) h = h \<and> filter (\<lambda>y. \<not> n \<le> ev_Seq y) h = []"
      using Cons.prems by (force simp: filter_id_conv filter_empty_conv)
    with Cons show ?case by auto
  qed simp
  then show "drop (length (takeWhile (\<lambda>x. \<not> n < ev_Seq x) h)) h = filter (\<lambda>x. n < ev_Seq x) h"
    "take (length (takeWhile (\<lambda>x. \<not> n \<le> ev_Seq x) h)) h = filter (\<lambda>x. \<not> n \<le> ev_Seq x) h"
    by (metis dropWhile_eq_drop, metis takeWhile_eq_take)
qed

text \<open>The rows a forward and a backward cursor still have ahead of them.\<close>

definition rows_after :: "event list \<Rightarrow> nat \<Rightarrow> event list" where
  "rows_after h n = filter (\<lambda>x. n < ev_Seq x) h"

definition rows_before :: "event list \<Rightarrow> nat \<Rightarrow> event list" where
  "rows_before h n = (if n = 0 then h else filter (\<lambda>x. ev_Seq x < n) h)"

definition rows_ok :: "event list \<Rightarrow> bool" where
  "rows_ok h \<longleftrightarrow> sorted_wrt (<) (map ev_Seq h) \<and> (\<forall>x\<in>set h. 0 < ev_Seq x)"

lemma start_rows: "rows_ok h \<Longrightarrow> drop (historyStartIndex h n) h = rows_after h n"
proof (cases "n = 0")
  case True
  assume "rows_ok h"
  with True show ?thesis by (simp add: historyStartIndex_def rows_after_def rows_ok_def filter_id_conv)
next
  case False
  assume "rows_ok h"
  then have s: "sorted_wrt (<) (map ev_Seq h)" by (simp add: rows_ok_def)
  have "historyStartIndex h n = length (takeWhile (\<lambda>x. \<not> n < ev_Seq x) h)"
    unfolding historyStartIndex_def
    using False search_takeWhile [of h "\<lambda>x. n < ev_Seq x"] sorted_rows [OF s]
    by (metis order.strict_trans2)
  then show ?thesis using drop_takeWhile_filter(1) [OF s] by (simp add: rows_after_def)
qed

lemma start_le: "historyStartIndex h n \<le> length h"
  using search_bounds [of 0 "length h"] by (simp add: historyStartIndex_def)

lemma stop_rows:
  assumes "rows_ok h"
  shows "take (if 0 < n then search (\<lambda>i. n \<le> ev_Seq (h ! i)) 0 (length h) else length h) h = rows_before h n"
proof (cases "n = 0")
  case False
  have s: "sorted_wrt (<) (map ev_Seq h)" using assms by (simp add: rows_ok_def)
  have "search (\<lambda>i. n \<le> ev_Seq (h ! i)) 0 (length h) = length (takeWhile (\<lambda>x. \<not> n \<le> ev_Seq x) h)"
    using search_takeWhile [of h "\<lambda>x. n \<le> ev_Seq x"] sorted_rows [OF s] by (metis order.trans)
  then show ?thesis
    using False drop_takeWhile_filter(2) [OF s, of n] by (simp add: rows_before_def not_le)
qed (simp add: rows_before_def)

lemma clamp_limit_range: "1 \<le> clamp_limit l" "clamp_limit l \<le> 800"
  by (auto simp: clamp_limit_def historyDefaultPage_def historyMaxPage_def Let_def)

subsection \<open>Lemmas: the byte budget\<close>

lemma prefix_loop_range:
  "i \<le> prefix_loop enc es i sz \<and> prefix_loop enc es i sz \<le> i + length es \<and>
   (es \<noteq> [] \<longrightarrow> 1 \<le> prefix_loop enc es i sz)"
proof (induction es arbitrary: i sz)
  case (Cons e es)
  show ?case
    using Cons [of "i + 1" "sz + (if 0 < i then 1 else 0) + the (enc e)"]
    by (auto simp: Let_def split: option.split)
qed simp

lemma budget_range:
  "window \<noteq> [] \<Longrightarrow> 1 \<le> historyBudgetPrefix enc window" "historyBudgetPrefix enc window \<le> length window"
  "window \<noteq> [] \<Longrightarrow> 1 \<le> historyBudgetSuffix enc window" "historyBudgetSuffix enc window \<le> length window"
  using prefix_loop_range [of 0 enc window 2] prefix_loop_range [of 0 enc "rev window" 2]
  by (auto simp: historyBudgetPrefix_def historyBudgetSuffix_def)

text \<open>The size of a page as one JSON array: brackets, events, commas.\<close>

definition page_size :: "(event \<Rightarrow> nat option) \<Rightarrow> event list \<Rightarrow> nat" where
  "page_size enc es = 2 + sum_list (map (\<lambda>e. case enc e of None \<Rightarrow> 0 | Some b \<Rightarrow> b) es) + (length es - 1)"

lemma prefix_loop_size:
  "let n = prefix_loop enc es i sz - i in
   n = 0 \<or> i = 0 \<and> n = 1 \<or>
   sz + sum_list (map (\<lambda>e. case enc e of None \<Rightarrow> 0 | Some b \<Rightarrow> b) (take n es)) + (if i = 0 then n - 1 else n)
     \<le> historyMaxResponseBytes"
proof (induction enc es i sz rule: prefix_loop.induct)
  case (2 enc e es i sz)
  show ?case
  proof (cases "enc e")
    case None
    then show ?thesis by simp
  next
    case (Some b)
    let ?sep = "if 0 < i then 1 else 0 :: nat"
    let ?m = "prefix_loop enc es (i + 1) (sz + ?sep + b)"
    have m: "i + 1 \<le> ?m" using prefix_loop_range [of "i + 1" enc es "sz + ?sep + b"] by simp
    show ?thesis
    proof (cases "0 < i \<and> historyMaxResponseBytes < sz + ?sep + b")
      case True
      then have "prefix_loop enc (e # es) i sz = i" using Some by (auto simp: Let_def)
      then show ?thesis by simp
    next
      case False
      then have eq: "prefix_loop enc (e # es) i sz = ?m" using Some by (auto simp: Let_def)
      have n: "?m - i = Suc (?m - (i + 1))" using m by simp
      have "?m - (i + 1) = 0 \<or> (sz + ?sep + b) +
          sum_list (map (\<lambda>e. case enc e of None \<Rightarrow> 0 | Some b \<Rightarrow> b) (take (?m - (i + 1)) es)) + (?m - (i + 1))
        \<le> historyMaxResponseBytes"
        using 2 [OF Some refl False] by (simp add: Let_def)
      then show ?thesis using False Some unfolding eq Let_def n by auto
    qed
  qed
qed simp

lemma budget_prefix_size:
  assumes "window \<noteq> []"
  shows "historyBudgetPrefix enc window = 1 \<or>
    page_size enc (take (historyBudgetPrefix enc window) window) \<le> historyMaxResponseBytes"
proof -
  have "min (length window) (historyBudgetPrefix enc window) = historyBudgetPrefix enc window"
    using budget_range(2) [of enc window] by simp
  then show ?thesis
    using prefix_loop_size [of enc window 0 2] budget_range(1) [OF assms, of enc] assms
    by (auto simp: historyBudgetPrefix_def page_size_def Let_def)
qed

subsection \<open>Lemmas: one page\<close>

lemma page_forward:
  assumes "rows_ok h"
  obtains n where "HistoryPage enc h since limit =
      (take n (rows_after h since), n < length (rows_after h since),
       if rows_after h since = [] then 0 else ev_Seq (rows_after h since ! (n - 1)))"
    "rows_after h since \<noteq> [] \<longrightarrow> 1 \<le> n" "n \<le> length (rows_after h since)" "int n \<le> clamp_limit limit"
    "n \<le> 1 \<or> page_size enc (take n (rows_after h since)) \<le> historyMaxResponseBytes"
proof -
  let ?R = "rows_after h since" and ?s = "historyStartIndex h since" and ?mx = "nat (clamp_limit limit)"
  have R: "drop ?s h = ?R" using start_rows [OF assms] .
  have lenR: "length ?R = length h - ?s" unfolding R [symmetric] by simp
  have mx: "0 < ?mx" "0 < clamp_limit limit" using clamp_limit_range(1) [of limit] by simp_all
  have slice: "historySlice h since (clamp_limit limit) = (take ?mx ?R, ?mx < length ?R)"
  proof (cases "length h \<le> ?s")
    case True
    then show ?thesis using mx lenR by (simp add: historySlice_def Let_def)
  next
    case False
    then have "min (?s + ?mx) (length h) - ?s = min ?mx (length ?R)" using lenR by linarith
    moreover have "min (?s + ?mx) (length h) < length h \<longleftrightarrow> ?mx < length ?R" using lenR False by linarith
    ultimately show ?thesis using False mx by (simp add: historySlice_def Let_def R min_def)
  qed
  show ?thesis
  proof (cases "?R = []")
    case True
    then show ?thesis using slice mx by (intro that [of 0]) (simp_all add: HistoryPage_def)
  next
    case False
    let ?w = "take ?mx ?R"
    define n where "n = historyBudgetPrefix enc ?w"
    have w: "?w \<noteq> []" using False mx by (cases ?R) (auto simp: take_Cons')
    have n: "1 \<le> n" "n \<le> length ?w"
      unfolding n_def by (rule budget_range(1) [OF w], rule budget_range(2))
    have out: "take n ?w = take n ?R" using n by (simp add: min_absorb1)
    have ne: "take n ?R \<noteq> []" using n False by auto
    have last: "last (take n ?R) = ?R ! (n - 1)" using n ne by (simp add: last_conv_nth)
    have "HistoryPage enc h since limit = (take n ?R, n < length ?R, ev_Seq (?R ! (n - 1)))"
      using slice w n out ne last by (auto simp: HistoryPage_def n_def [symmetric] Let_def)
    moreover have "int n \<le> clamp_limit limit" using n(2) mx by (simp add: le_nat_iff)
    moreover have "n \<le> 1 \<or> page_size enc (take n ?R) \<le> historyMaxResponseBytes"
      using budget_prefix_size [OF w, of enc] out by (auto simp: n_def)
    ultimately show ?thesis using n False by (intro that [of n]) simp_all
  qed
qed

lemma in_drop_nth:
  assumes "x \<in> set (drop n xs)" obtains j where "n + j < length xs" "x = xs ! (n + j)"
proof -
  obtain j where "j < length (drop n xs)" "drop n xs ! j = x"
    using assms by (auto simp only: in_set_conv_nth)
  then show thesis by (intro that [of j]) auto
qed

lemma after_step:
  assumes "rows_ok h" "rows_after h since \<noteq> []" "1 \<le> n" "n \<le> length (rows_after h since)"
  shows "rows_after h (ev_Seq (rows_after h since ! (n - 1))) = drop n (rows_after h since)"
proof -
  let ?R = "rows_after h since"
  have sR: "sorted_wrt (<) (map ev_Seq ?R)"
    using assms(1) by (simp add: rows_ok_def rows_after_def sorted_wrt_map_filter)
  let ?q = "ev_Seq (?R ! (n - 1))"
  have in_R: "?R ! (n - 1) \<in> set ?R" using assms by simp
  then have "since < ?q" by (auto simp: rows_after_def)
  then have "rows_after h ?q = filter (\<lambda>x. ?q < ev_Seq x) ?R"
    by (auto simp: rows_after_def intro!: filter_cong)
  also have "\<dots> = filter (\<lambda>x. ?q < ev_Seq x) (take n ?R) @ filter (\<lambda>x. ?q < ev_Seq x) (drop n ?R)"
    by (metis append_take_drop_id filter_append)
  also have "filter (\<lambda>x. ?q < ev_Seq x) (take n ?R) = []"
  proof -
    have "\<not> ?q < ev_Seq x" if x: "x \<in> set (take n ?R)" for x
    proof -
      obtain j where "j < n" "x = ?R ! j" using x assms(4) by (auto simp: in_set_conv_nth)
      moreover have "j \<le> n - 1" "n - 1 < length ?R" using \<open>j < n\<close> assms(3,4) by linarith+
      ultimately show ?thesis using sorted_rows [OF sR, of j "n - 1"] by simp
    qed
    then show ?thesis by (simp add: filter_empty_conv)
  qed
  also have "filter (\<lambda>x. ?q < ev_Seq x) (drop n ?R) = drop n ?R"
  proof -
    have "?q < ev_Seq x" if x: "x \<in> set (drop n ?R)" for x
    proof -
      obtain j where "n + j < length ?R" "x = ?R ! (n + j)" using x by (rule in_drop_nth)
      moreover have "n - 1 < length ?R" "\<not> n + j \<le> n - 1" using assms(3,4) by linarith+
      ultimately show ?thesis using turns_rows [OF sR, of "n + j" "n - 1"] by simp
    qed
    then show ?thesis by (simp add: filter_id_conv)
  qed
  finally show ?thesis by simp
qed

lemma page_backward:
  assumes "rows_ok h"
  obtains n where "HistoryPageBefore enc h cursor limit =
      (drop (length (rows_before h cursor) - n) (rows_before h cursor), n < length (rows_before h cursor),
       if n < length (rows_before h cursor)
       then ev_Seq (rows_before h cursor ! (length (rows_before h cursor) - n)) else 0)"
    "rows_before h cursor \<noteq> [] \<longrightarrow> 1 \<le> n" "n \<le> length (rows_before h cursor)" "int n \<le> clamp_limit limit"
proof -
  let ?R = "rows_before h cursor" and ?mx = "nat (clamp_limit limit)"
  let ?e = "if 0 < cursor then search (\<lambda>i. cursor \<le> ev_Seq (h ! i)) 0 (length h) else length h"
  have e: "take ?e h = ?R" using stop_rows [OF assms] .
  have "?e \<le> length h" using search_bounds [of 0 "length h"] by simp
  then have lenR: "length ?R = ?e" unfolding e [symmetric] by simp
  have mx: "0 < ?mx" "0 < clamp_limit limit" using clamp_limit_range(1) [of limit] by simp_all
  have slice: "historySliceBefore h cursor (clamp_limit limit) =
      (drop (length ?R - ?mx) ?R, ?mx < length ?R)"
  proof (cases "?e = 0")
    case True
    then have "?R = []" using lenR by (metis length_0_conv)
    then show ?thesis using True mx by (simp add: historySliceBefore_def Let_def)
  next
    case False
    have "take (?e - (?e - ?mx)) (drop (?e - ?mx) h) = drop (?e - ?mx) ?R"
      unfolding e [symmetric] by (simp only: drop_take)
    then show ?thesis using False mx lenR by (simp only: historySliceBefore_def Let_def) auto
  qed
  show ?thesis
  proof (cases "?R = []")
    case True
    then show ?thesis using slice mx by (intro that [of 0]) (simp_all add: HistoryPageBefore_def)
  next
    case False
    let ?w = "drop (length ?R - ?mx) ?R"
    define n where "n = historyBudgetSuffix enc ?w"
    have w: "?w \<noteq> []" using False mx(1) by (metis diff_less drop_eq_Nil leD length_greater_0_conv)
    have n: "1 \<le> n" "n \<le> length ?w"
      unfolding n_def by (rule budget_range(3) [OF w], rule budget_range(4))
    have idx: "length ?w - n + (length ?R - ?mx) = length ?R - n" using n by simp
    have out: "drop (length ?w - n) ?w = drop (length ?R - n) ?R" by (simp only: drop_drop idx)
    have "hd (drop (length ?R - n) ?R) = ?R ! (length ?R - n)"
      using n False by (simp add: hd_drop_conv_nth)
    moreover have "(?mx < length ?R \<or> n < length ?w) = (n < length ?R)" using n by auto
    moreover have "HistoryPageBefore enc h cursor limit =
      (drop (length ?w - n) ?w, ?mx < length ?R \<or> n < length ?w,
       if ?mx < length ?R \<or> n < length ?w then ev_Seq (hd (drop (length ?w - n) ?w)) else 0)"
      using w by (simp only: HistoryPageBefore_def slice prod.case n_def [symmetric] Let_def if_False)
    ultimately have "HistoryPageBefore enc h cursor limit =
      (drop (length ?R - n) ?R, n < length ?R, if n < length ?R then ev_Seq (?R ! (length ?R - n)) else 0)"
      by (simp only: out)
    moreover have "int n \<le> clamp_limit limit" using n(2) mx by (simp add: le_nat_iff)
    ultimately show ?thesis using n by (intro that [of n]) simp_all
  qed
qed

lemma before_step:
  assumes "rows_ok h" "k < length (rows_before h cursor)"
  shows "rows_before h (ev_Seq (rows_before h cursor ! k)) = take k (rows_before h cursor)"
proof -
  let ?R = "rows_before h cursor" and ?q = "ev_Seq (rows_before h cursor ! k)"
  have sR: "sorted_wrt (<) (map ev_Seq ?R)"
    using assms(1) by (simp add: rows_ok_def rows_before_def sorted_wrt_map_filter)
  have mem: "?R ! k \<in> set ?R" using assms(2) by simp
  then have q: "0 < ?q" "cursor = 0 \<or> ?q < cursor"
    using assms(1) by (auto simp: rows_before_def rows_ok_def split: if_splits)
  have "rows_before h ?q = filter (\<lambda>x. ev_Seq x < ?q) h" using q(1) unfolding rows_before_def by simp
  also have "\<dots> = filter (\<lambda>x. ev_Seq x < ?q) ?R"
  proof (cases "cursor = 0")
    case False
    then have "filter (\<lambda>x. ev_Seq x < ?q) (filter (\<lambda>x. ev_Seq x < cursor) h) = filter (\<lambda>x. ev_Seq x < ?q) h"
      using q(2) by (auto intro!: filter_cong)
    then show ?thesis using False by (simp add: rows_before_def)
  qed (simp add: rows_before_def)
  also have "\<dots> = filter (\<lambda>x. ev_Seq x < ?q) (take k ?R) @ filter (\<lambda>x. ev_Seq x < ?q) (drop k ?R)"
    by (metis append_take_drop_id filter_append)
  also have "filter (\<lambda>x. ev_Seq x < ?q) (take k ?R) = take k ?R"
  proof -
    have "ev_Seq x < ?q" if x: "x \<in> set (take k ?R)" for x
    proof -
      obtain j where "j < k" "x = ?R ! j" using x assms(2) by (auto simp: in_set_conv_nth)
      then show ?thesis using turns_rows [OF sR, of k j] assms(2) by simp
    qed
    then show ?thesis by (simp add: filter_id_conv)
  qed
  also have "filter (\<lambda>x. ev_Seq x < ?q) (drop k ?R) = []"
  proof -
    have "\<not> ev_Seq x < ?q" if x: "x \<in> set (drop k ?R)" for x
    proof -
      obtain j where "k + j < length ?R" "x = ?R ! (k + j)" using x by (rule in_drop_nth)
      then show ?thesis using sorted_rows [OF sR, of k "k + j"] by simp
    qed
    then show ?thesis by (simp add: filter_empty_conv)
  qed
  finally show ?thesis by simp
qed

subsection \<open>Properties\<close>

text \<open>C21: Forward paging is complete and terminates. A client that follows the cursors reads every
  retained row after its starting point, each once and in order, within as many requests as
  there are rows (at least one), whatever the page limit and however large the encodings.\<close>

theorem forward_reads_all:
  assumes "rows_ok h" "length (rows_after h since) < fuel"
  shows "read_forward fuel enc h since limit = Some (rows_after h since)"
  using assms(2)
proof (induction fuel arbitrary: since)
  case (Suc fuel)
  let ?R = "rows_after h since"
  obtain n where page: "HistoryPage enc h since limit = (take n ?R, n < length ?R,
      if ?R = [] then 0 else ev_Seq (?R ! (n - 1)))" and n: "?R \<noteq> [] \<longrightarrow> 1 \<le> n" "n \<le> length ?R"
      "int n \<le> clamp_limit limit" "n \<le> 1 \<or> page_size enc (take n ?R) \<le> historyMaxResponseBytes"
    by (rule page_forward [OF assms(1), where enc = enc and since = since and limit = limit])
  show ?case
  proof (cases "n < length ?R")
    case False
    then show ?thesis using page n by simp
  next
    case True
    then have "?R \<noteq> []" by auto
    then have "1 \<le> n" using n(1) by blast
    note step = after_step [OF assms(1) \<open>?R \<noteq> []\<close> this n(2), simplified]
    have "length (rows_after h (ev_Seq (?R ! (n - 1)))) < fuel"
      using Suc.prems \<open>1 \<le> n\<close> True by (simp add: step)
    from Suc.IH [OF this] show ?thesis using page True \<open>?R \<noteq> []\<close> by (simp add: step)
  qed
qed simp

theorem forward_reads_all_witness:
  "read_forward 3 (\<lambda>_. None) (history ex_ring) 0 1 = Some (history ex_ring)"
proof -
  have "rows_ok (history ex_ring)" "rows_after (history ex_ring) 0 = history ex_ring"
    by (simp_all add: rows_ok_def rows_after_def ex_ring_rows)
  with forward_reads_all [of "history ex_ring" 0 3 "\<lambda>_. None" 1] show ?thesis by (simp add: ex_ring_rows)
qed

text \<open>Backward paging is complete and terminates: from any cursor, following it back reads every
  row before it, each once and in order.\<close>

theorem backward_reads_all:
  assumes "rows_ok h" "length (rows_before h cursor) < fuel"
  shows "read_backward fuel enc h cursor limit = Some (rows_before h cursor)"
  using assms(2)
proof (induction fuel arbitrary: cursor)
  case (Suc fuel)
  let ?R = "rows_before h cursor"
  obtain n where page: "HistoryPageBefore enc h cursor limit = (drop (length ?R - n) ?R, n < length ?R,
      if n < length ?R then ev_Seq (?R ! (length ?R - n)) else 0)" and n: "?R \<noteq> [] \<longrightarrow> 1 \<le> n" "n \<le> length ?R"
      "int n \<le> clamp_limit limit"
    by (rule page_backward [OF assms(1), where enc = enc and cursor = cursor and limit = limit])
  show ?case
  proof (cases "n < length ?R")
    case False
    then show ?thesis using page n by simp
  next
    case True
    then have "?R \<noteq> []" by auto
    then have k: "length ?R - n < length ?R" using n(1) True by simp
    note step = before_step [OF assms(1) k]
    have "length (rows_before h (ev_Seq (?R ! (length ?R - n)))) < fuel"
      using Suc.prems k True by (simp add: step)
    from Suc.IH [OF this] show ?thesis using page True by (simp add: step)
  qed
qed simp

theorem backward_reads_all_witness:
  "read_backward 3 (\<lambda>_. Some 600000) (history ex_ring) 0 200 = Some (history ex_ring)"
proof -
  have "rows_ok (history ex_ring)" "rows_before (history ex_ring) 0 = history ex_ring"
    by (simp_all add: rows_ok_def rows_before_def ex_ring_rows)
  with backward_reads_all [of "history ex_ring" 0 3 "\<lambda>_. Some 600000" 200] show ?thesis
    by (simp add: ex_ring_rows)
qed

text \<open>Every forward page respects the protocol's limits: at most the requested number of events
  and never more than 800, and as one JSON array within the response budget unless it is a
  single event; and it is never empty while rows remain.\<close>

theorem page_within_limits:
  assumes "rows_ok h" "HistoryPage enc h since limit = (out, truncated, nxt)"
  shows "length out \<le> 800 \<and> (0 < limit \<longrightarrow> int (length out) \<le> limit)
    \<and> (length out \<le> 1 \<or> page_size enc out \<le> historyMaxResponseBytes)
    \<and> (out = [] \<longleftrightarrow> rows_after h since = [])"
proof -
  let ?R = "rows_after h since"
  obtain n where page: "HistoryPage enc h since limit = (take n ?R, n < length ?R,
      if ?R = [] then 0 else ev_Seq (?R ! (n - 1)))" and n: "?R \<noteq> [] \<longrightarrow> 1 \<le> n" "n \<le> length ?R"
      "int n \<le> clamp_limit limit" "n \<le> 1 \<or> page_size enc (take n ?R) \<le> historyMaxResponseBytes"
    by (rule page_forward [OF assms(1), where enc = enc and since = since and limit = limit])
  have out: "out = take n ?R" using page assms(2) by simp
  have "0 < limit \<Longrightarrow> clamp_limit limit \<le> limit" by (simp add: clamp_limit_def Let_def)
  moreover have "n \<le> 800" using n(3) clamp_limit_range(2) [of limit] by linarith
  ultimately show ?thesis using n unfolding out by auto
qed

theorem page_within_limits_witness:
  "fst (HistoryPage (\<lambda>_. Some 600000) (history ex_ring) 0 5) \<noteq> []
   \<and> length (fst (HistoryPage (\<lambda>_. Some 600000) (history ex_ring) 0 5)) \<le> 5"
proof -
  obtain out tr nxt where p: "HistoryPage (\<lambda>_. Some 600000) (history ex_ring) 0 5 = (out, tr, nxt)"
    by (metis surj_pair)
  have "rows_ok (history ex_ring)" "rows_after (history ex_ring) 0 \<noteq> []"
    by (simp_all add: rows_ok_def rows_after_def ex_ring_rows)
  with page_within_limits [OF _ p] show ?thesis by (simp add: p)
qed

end
