(* ===== verification/Chunkbuf.thy ===== *)
theory Chunkbuf
  imports Event
begin

text \<open>
  The streaming coalescer, \<open>internal/chunkbuf/chunkbuf.go\<close>: a state machine that folds
  high-frequency text events into fewer, larger ones and, with the tool lane, keeps at most one
  pending update per tool id. Every method is a function of the buffer; a method that changes it
  returns the new one. \<open>maxBytes\<close> is a natural number: the transports pass positive
  constants.
\<close>

definition growthFactor :: nat where
  "growthFactor = 4"

record buffer =
  win :: duration
  maxBytes :: nat
  toolLane :: bool
  toolTextAppend :: bool
  tools :: "string \<rightharpoonup> event"
  toolIDs :: "string list"
  toolSince :: gotime
  leading :: bool
  tmpl :: event
  parts :: "string list"
  buf_n :: nat
  since :: gotime

datatype buffer_option = WithToolLane | WithToolLaneAppend

fun apply_option :: "buffer_option \<Rightarrow> buffer \<Rightarrow> buffer" where
  "apply_option WithToolLane b = b\<lparr>toolLane := True\<rparr>"
| "apply_option WithToolLaneAppend b = b\<lparr>toolLane := True, toolTextAppend := True\<rparr>"

definition New :: "duration \<Rightarrow> nat \<Rightarrow> buffer_option list \<Rightarrow> buffer" where
  "New w mx opts = fold apply_option opts
    \<lparr>win = w, maxBytes = mx, toolLane = False, toolTextAppend = False, tools = Map.empty,
     toolIDs = [], toolSince = 0, leading = True, tmpl = zero_event, parts = [], buf_n = 0,
     since = 0\<rparr>"

definition Enabled :: "buffer \<Rightarrow> bool" where
  "Enabled b \<longleftrightarrow> 0 < win b"

definition IsChunk :: "event_type \<Rightarrow> bool" where
  "IsChunk t \<longleftrightarrow> t = TypeAssistantChunk \<or> t = TypeThoughtChunk"

text \<open>The event a run drains into: the first event's fields, the joined text, the first time.\<close>

definition drain :: "buffer \<Rightarrow> event list \<times> buffer" where
  "drain b =
    (if parts b = [] then ([], b)
     else ([(tmpl b)\<lparr>ev_Text := join (parts b), ev_Timestamp := since b\<rparr>],
           b\<lparr>parts := [], buf_n := 0, tmpl := zero_event, since := 0\<rparr>))"

definition Drain :: "buffer \<Rightarrow> event option \<times> buffer" where
  "Drain b = (case drain b of
      ([], b') \<Rightarrow> (None, b')
    | (e # _, b') \<Rightarrow> (Some e, b'))"

definition drainTools :: "buffer \<Rightarrow> event list \<times> buffer" where
  "drainTools b =
    (if toolIDs b = [] then ([], b)
     else (List.map_filter (tools b) (toolIDs b),
           b\<lparr>tools := Map.empty, toolIDs := [], toolSince := 0\<rparr>))"

definition mergeToolInto :: "buffer \<Rightarrow> event \<Rightarrow> event \<Rightarrow> event" where
  "mergeToolInto b prev nxt =
    nxt\<lparr>ev_ToolName := (if ev_ToolName nxt = [] then ev_ToolName prev else ev_ToolName nxt),
        ev_ToolKind := (if ev_ToolKind nxt = [] then ev_ToolKind prev else ev_ToolKind nxt),
        ev_Status := (if ev_Status nxt = [] then ev_Status prev else ev_Status nxt),
        ev_Text := (if ev_Text nxt = [] then ev_Text prev
                    else if toolTextAppend b then ev_Text prev @ ev_Text nxt
                    else ev_Text nxt)\<rparr>"

definition holdTool :: "buffer \<Rightarrow> event \<Rightarrow> buffer" where
  "holdTool b ev =
    (case tools b (ev_ToolID ev) of
       Some prev \<Rightarrow> b\<lparr>tools := (tools b)(ev_ToolID ev \<mapsto> mergeToolInto b prev ev)\<rparr>
     | None \<Rightarrow> b\<lparr>tools := (tools b)(ev_ToolID ev \<mapsto> ev),
                 toolIDs := toolIDs b @ [ev_ToolID ev],
                 toolSince := (if IsZero (toolSince b) then ev_Timestamp ev else toolSince b)\<rparr>)"

text \<open>Forget the hold for one tool id: the part \<open>releaseTool\<close> and \<open>takeTool\<close> share.\<close>

definition forgetTool :: "buffer \<Rightarrow> string \<Rightarrow> buffer" where
  "forgetTool b i =
    (let ids = remove1 i (toolIDs b)
     in b\<lparr>tools := (tools b)(i := None), toolIDs := ids,
          toolSince := (if ids = [] then 0 else toolSince b)\<rparr>)"

definition releaseTool :: "buffer \<Rightarrow> string \<Rightarrow> event \<times> buffer" where
  "releaseTool b i =
    ((case tools b i of Some e \<Rightarrow> e | None \<Rightarrow> zero_event), forgetTool b i)"

definition takeTool :: "buffer \<Rightarrow> event \<Rightarrow> event \<times> buffer" where
  "takeTool b ev =
    (case tools b (ev_ToolID ev) of
       None \<Rightarrow> (ev, b)
     | Some prev \<Rightarrow> (mergeToolInto b prev ev, forgetTool b (ev_ToolID ev)))"

definition mergeable :: "buffer \<Rightarrow> event \<Rightarrow> bool" where
  "mergeable b ev \<longleftrightarrow>
    (if ev_Replace ev then False
     else if parts b = [] then True
     else if ev_Replace (tmpl b) then False
     else ev_Type ev = ev_Type (tmpl b) \<and>
          ev_SessionID ev = ev_SessionID (tmpl b) \<and>
          ev_AgentSessionID ev = ev_AgentSessionID (tmpl b) \<and>
          ev_Replay ev = ev_Replay (tmpl b) \<and>
          ev_NativeMessageID ev = ev_NativeMessageID (tmpl b) \<and>
          ev_NativePartID ev = ev_NativePartID (tmpl b))"

definition deadline :: "buffer \<Rightarrow> gotime" where
  "deadline b =
    (let text = (if parts b \<noteq> [] then since b + win b else 0);
         tls = (if toolIDs b \<noteq> [] then toolSince b + win b else 0)
     in if IsZero text then tls
        else if IsZero tls then text
        else if tls < text then tls
        else text)"

text \<open>
  The run's bookkeeping in \<open>Add\<close>: the first chunk of a run sets its template, every chunk
  appends its text.
\<close>

definition extend_run :: "buffer \<Rightarrow> event \<Rightarrow> buffer" where
  "extend_run b ev =
    (let b1 = (if parts b = [] then b\<lparr>tmpl := ev, since := ev_Timestamp ev\<rparr> else b)
     in b1\<lparr>parts := parts b1 @ [ev_Text ev], buf_n := buf_n b1 + length (ev_Text ev)\<rparr>)"

text \<open>The \<open>default\<close> branch of \<open>Add\<close>: a chunk that extends (or starts) the run.\<close>

definition add_chunk :: "event list \<Rightarrow> buffer \<Rightarrow> event \<Rightarrow> event list \<times> bool \<times> buffer" where
  "add_chunk out b ev =
    (if leading b then (out @ [ev], False, b\<lparr>leading := False\<rparr>)
     else
       let b1 = extend_run b ev
       in if maxBytes b1 \<le> buf_n b1
          then (case drain b1 of (d, b2) \<Rightarrow> (out @ d, False, b2))
          else (out, False, b1))"

definition is_boundary :: "event \<Rightarrow> bool" where
  "is_boundary ev \<longleftrightarrow>
    \<not> IsChunk (ev_Type ev) \<and> IsControl (ev_Type ev) \<and> \<not> IsInPlaceUpdate ev"

text \<open>The \<open>switch\<close> of \<open>Add\<close> on an enabled buffer.\<close>

definition add_event :: "buffer \<Rightarrow> event \<Rightarrow> event list \<times> bool \<times> buffer" where
  "add_event b ev =
    (if is_boundary ev then
       (case drain b of (d, b1) \<Rightarrow>
        case drainTools b1 of (t, b2) \<Rightarrow>
          (d @ t @ [ev], True, b2\<lparr>leading := True\<rparr>))
     else if toolLane b \<and> IsInPlaceUpdate ev then
       (if IsTerminalToolStatus (ev_Status ev) then
          (case takeTool b ev of (m, b1) \<Rightarrow> ([m], True, b1))
        else
          let b1 = holdTool b ev;
              held = (case tools b1 (ev_ToolID ev) of Some e \<Rightarrow> ev_Text e | None \<Rightarrow> [])
          in if toolTextAppend b1 \<and> maxBytes b1 \<le> length held
             then (case releaseTool b1 (ev_ToolID ev) of (h, b2) \<Rightarrow> ([h], True, b2))
             else ([], False, b1))
     else if \<not> IsChunk (ev_Type ev) then ([ev], IsControl (ev_Type ev), b)
     else if \<not> mergeable b ev then
       (case drain b of (d, b1) \<Rightarrow> add_chunk d (b1\<lparr>leading := True\<rparr>) ev)
     else add_chunk [] b ev)"

definition Add :: "buffer \<Rightarrow> event \<Rightarrow> (event list \<times> gotime \<times> bool) \<times> buffer" where
  "Add b ev =
    (if \<not> Enabled b then (([ev], 0, IsControl (ev_Type ev)), b)
     else (case add_event b ev of (out, blocking, b') \<Rightarrow> ((out, deadline b', blocking), b')))"

text \<open>The growth guard's cut: the first rune start at or after \<open>k\<close>.\<close>

definition rune_cut :: "string \<Rightarrow> nat \<Rightarrow> nat" where
  "rune_cut text k = k + length (takeWhile (\<lambda>c. \<not> RuneStart c) (drop k text))"

definition Unflush :: "buffer \<Rightarrow> event \<Rightarrow> nat \<times> buffer" where
  "Unflush b ev =
    (if \<not> Enabled b \<or> ev_Text ev = [] then (0, b)
     else
       let b1 = (if parts b = [] then b\<lparr>tmpl := ev, since := ev_Timestamp ev\<rparr> else b);
           b2 = b1\<lparr>parts := ev_Text ev # parts b1, buf_n := buf_n b1 + length (ev_Text ev)\<rparr>;
           limit = growthFactor * maxBytes b2
       in if limit < buf_n b2
          then let text = join (parts b2);
                   k = rune_cut text (length text - limit)
               in (k, b2\<lparr>parts := [drop k text], buf_n := length (drop k text)\<rparr>)
          else (0, b2))"

definition Pending :: "buffer \<Rightarrow> nat" where
  "Pending b = buf_n b"

text \<open>A stream of events through \<open>Add\<close>: everything delivered, in order, and the buffer.\<close>

definition Add_out :: "buffer \<Rightarrow> event \<Rightarrow> event list \<times> buffer" where
  "Add_out b ev = (case Add b ev of ((out, _, _), b') \<Rightarrow> (out, b'))"

definition feed :: "buffer \<Rightarrow> event list \<Rightarrow> event list \<times> buffer" where
  "feed b es = run_stream Add_out b es"

definition DrainTools :: "buffer \<Rightarrow> event list \<times> buffer" where
  "DrainTools b = drainTools b"

subsection \<open>What a stream says\<close>

text \<open>
  A chunk's bytes, each labelled with the run it belongs to: the fields \<open>mergeable\<close>
  compares, so two events whose bytes carry the same label may share a frame. The text of the
  pending run carries the label of its template.
\<close>

type_synonym run_key = "event_type \<times> string \<times> string \<times> bool \<times> string \<times> string"

definition run_key :: "event \<Rightarrow> run_key" where
  "run_key ev = (ev_Type ev, ev_SessionID ev, ev_AgentSessionID ev, ev_Replay ev,
    ev_NativeMessageID ev, ev_NativePartID ev)"

definition ev_bytes :: "event \<Rightarrow> (run_key \<times> char) list" where
  "ev_bytes ev = (if IsChunk (ev_Type ev) then map (Pair (run_key ev)) (ev_Text ev) else [])"

definition chunk_bytes :: "event list \<Rightarrow> (run_key \<times> char) list" where
  "chunk_bytes es = concat (map ev_bytes es)"

definition pending_bytes :: "buffer \<Rightarrow> (run_key \<times> char) list" where
  "pending_bytes b = map (Pair (run_key (tmpl b))) (join (parts b))"

text \<open>
  The output text of one tool, as a client that appends every update sees it: the texts of the
  updates with that tool id, in order.
\<close>

definition tool_text :: "string \<Rightarrow> event list \<Rightarrow> string" where
  "tool_text i es =
    concat (map ev_Text (filter (\<lambda>e. IsInPlaceUpdate e \<and> ev_ToolID e = i) es))"

definition held_text :: "buffer \<Rightarrow> string \<Rightarrow> string" where
  "held_text b i = (case tools b i of Some e \<Rightarrow> ev_Text e | None \<Rightarrow> [])"

subsection \<open>Invariant\<close>

definition run_ok :: "buffer \<Rightarrow> bool" where
  "run_ok b \<longleftrightarrow> buf_n b = length (join (parts b)) \<and>
    (parts b \<noteq> [] \<longrightarrow> IsChunk (ev_Type (tmpl b)) \<and> \<not> leading b \<and> Enabled b)"

definition held_ok :: "string \<Rightarrow> event \<Rightarrow> bool" where
  "held_ok i e \<longleftrightarrow>
    IsInPlaceUpdate e \<and> ev_ToolID e = i \<and> \<not> IsTerminalToolStatus (ev_Status e)"

definition lane_ok :: "buffer \<Rightarrow> bool" where
  "lane_ok b \<longleftrightarrow> distinct (toolIDs b) \<and> set (toolIDs b) = dom (tools b) \<and>
    (\<forall>i e. tools b i = Some e \<longrightarrow> held_ok i e) \<and> (toolIDs b = [] \<longrightarrow> toolSince b = 0)"

definition buffer_ok :: "buffer \<Rightarrow> bool" where
  "buffer_ok b \<longleftrightarrow> run_ok b \<and> lane_ok b"

text \<open>
  The buffers a transport can hold: built by \<open>New\<close> and changed only by the methods. A
  transport hands back only a chunk the buffer has just returned, and returning one clears
  \<open>leading\<close>.
\<close>

inductive buffer_reach :: "buffer \<Rightarrow> bool" where
  reach_New: "buffer_reach (New w mx opts)"
| reach_Add: "buffer_reach b \<Longrightarrow> buffer_reach (snd (Add b ev))"
| reach_Drain: "buffer_reach b \<Longrightarrow> buffer_reach (snd (Drain b))"
| reach_DrainTools: "buffer_reach b \<Longrightarrow> buffer_reach (snd (DrainTools b))"
| reach_Unflush: "buffer_reach b \<Longrightarrow> IsChunk (ev_Type ev) \<Longrightarrow> \<not> leading b \<Longrightarrow>
    buffer_reach (snd (Unflush b ev))"

subsection \<open>Lemmas: the text run\<close>

lemma chunk_bytes_simps [simp]:
  "chunk_bytes [] = []"
  "chunk_bytes (e # es) = ev_bytes e @ chunk_bytes es"
  "chunk_bytes (es @ fs) = chunk_bytes es @ chunk_bytes fs"
  by (simp_all add: chunk_bytes_def)

lemma pending_bytes_empty [simp]: "parts b = [] \<Longrightarrow> pending_bytes b = []"
  by (simp add: pending_bytes_def)

lemma ev_bytes_update [simp]:
  "IsChunk (ev_Type e) \<Longrightarrow>
   ev_bytes (e\<lparr>ev_Text := t, ev_Timestamp := s\<rparr>) = map (Pair (run_key e)) t"
  by (simp add: ev_bytes_def run_key_def)

lemma ev_bytes_not_chunk [simp]: "\<not> IsChunk (ev_Type e) \<Longrightarrow> ev_bytes e = []"
  by (simp add: ev_bytes_def)

lemma pending_bytes_cong [simp]:
  "pending_bytes (b\<lparr>leading := l\<rparr>) = pending_bytes b"
  "pending_bytes (b\<lparr>tools := m\<rparr>) = pending_bytes b"
  "pending_bytes (b\<lparr>toolIDs := is\<rparr>) = pending_bytes b"
  "pending_bytes (b\<lparr>toolSince := t\<rparr>) = pending_bytes b"
  by (simp_all add: pending_bytes_def)

lemma drain_fields [simp]:
  "parts (snd (drain b)) = []"
  "tools (snd (drain b)) = tools b" "toolIDs (snd (drain b)) = toolIDs b"
  "toolSince (snd (drain b)) = toolSince b" "toolLane (snd (drain b)) = toolLane b"
  "toolTextAppend (snd (drain b)) = toolTextAppend b"
  "win (snd (drain b)) = win b" "maxBytes (snd (drain b)) = maxBytes b"
  "leading (snd (drain b)) = leading b"
  by (simp_all add: drain_def)

lemma drain_bytes: "run_ok b \<Longrightarrow> chunk_bytes (fst (drain b)) = pending_bytes b"
  by (simp add: drain_def run_ok_def pending_bytes_def)

lemma drain_run_ok: "run_ok b \<Longrightarrow> run_ok (snd (drain b))"
  by (auto simp: drain_def run_ok_def)

lemma drain_chunks: "run_ok b \<Longrightarrow> \<forall>e\<in>set (fst (drain b)). IsChunk (ev_Type e)"
  by (simp add: drain_def run_ok_def)

lemma drainTools_fields [simp]:
  "parts (snd (drainTools b)) = parts b" "tmpl (snd (drainTools b)) = tmpl b"
  "buf_n (snd (drainTools b)) = buf_n b" "since (snd (drainTools b)) = since b"
  "toolIDs (snd (drainTools b)) = []" "toolLane (snd (drainTools b)) = toolLane b"
  "toolTextAppend (snd (drainTools b)) = toolTextAppend b"
  "win (snd (drainTools b)) = win b" "maxBytes (snd (drainTools b)) = maxBytes b"
  by (simp_all add: drainTools_def)

lemma tool_update_not_chunk: "IsInPlaceUpdate e \<Longrightarrow> \<not> IsChunk (ev_Type e)"
  by (simp add: IsInPlaceUpdate_def IsChunk_def)

lemma mergeable_key:
  "mergeable b ev \<Longrightarrow> parts b \<noteq> [] \<Longrightarrow> run_key ev = run_key (tmpl b)"
  by (simp add: mergeable_def run_key_def split: if_splits)

lemma holdTool_fields [simp]:
  "parts (holdTool b ev) = parts b" "tmpl (holdTool b ev) = tmpl b"
  "buf_n (holdTool b ev) = buf_n b" "since (holdTool b ev) = since b"
  "toolTextAppend (holdTool b ev) = toolTextAppend b" "toolLane (holdTool b ev) = toolLane b"
  "win (holdTool b ev) = win b" "maxBytes (holdTool b ev) = maxBytes b"
  "leading (holdTool b ev) = leading b"
  by (simp_all add: holdTool_def split: option.split)

lemma forgetTool_fields [simp]:
  "parts (forgetTool b i) = parts b" "tmpl (forgetTool b i) = tmpl b"
  "buf_n (forgetTool b i) = buf_n b" "since (forgetTool b i) = since b"
  "toolTextAppend (forgetTool b i) = toolTextAppend b" "toolLane (forgetTool b i) = toolLane b"
  "win (forgetTool b i) = win b" "maxBytes (forgetTool b i) = maxBytes b"
  "leading (forgetTool b i) = leading b"
  by (simp_all add: forgetTool_def Let_def)

lemma takeTool_fields [simp]:
  "parts (snd (takeTool b ev)) = parts b" "tmpl (snd (takeTool b ev)) = tmpl b"
  "buf_n (snd (takeTool b ev)) = buf_n b" "win (snd (takeTool b ev)) = win b"
  "maxBytes (snd (takeTool b ev)) = maxBytes b" "since (snd (takeTool b ev)) = since b"
  "toolTextAppend (snd (takeTool b ev)) = toolTextAppend b"
  "leading (snd (takeTool b ev)) = leading b" "toolLane (snd (takeTool b ev)) = toolLane b"
  by (simp_all add: takeTool_def split: option.split)

lemma mergeToolInto_fields [simp]:
  "ev_Type (mergeToolInto b p e) = ev_Type e" "ev_ToolID (mergeToolInto b p e) = ev_ToolID e"
  by (simp_all add: mergeToolInto_def)

lemma takeTool_event [simp]:
  "ev_Type (fst (takeTool b ev)) = ev_Type ev" "ev_ToolID (fst (takeTool b ev)) = ev_ToolID ev"
  by (simp_all add: takeTool_def split: option.split)

lemma run_ok_cong:
  "parts b = parts c \<Longrightarrow> buf_n b = buf_n c \<Longrightarrow> tmpl b = tmpl c \<Longrightarrow> leading b = leading c \<Longrightarrow>
   win b = win c \<Longrightarrow> run_ok b = run_ok c"
  by (simp add: run_ok_def Enabled_def)

lemma pending_bytes_eqI:
  "parts b = parts c \<Longrightarrow> tmpl b = tmpl c \<Longrightarrow> pending_bytes b = pending_bytes c"
  by (simp add: pending_bytes_def)

lemma add_chunk_bytes:
  assumes "run_ok b" "mergeable b ev \<or> parts b = []" "IsChunk (ev_Type ev)"
    and "add_chunk out b ev = (out', bl, b')"
  shows "chunk_bytes out' @ pending_bytes b' = chunk_bytes out @ pending_bytes b @ ev_bytes ev"
proof (cases "leading b")
  case True
  with assms have "parts b = []" by (auto simp: run_ok_def)
  with True assms show ?thesis
    by (auto simp: add_chunk_def)
next
  case False
  with assms mergeable_key [of b ev] show ?thesis
    by (auto simp: add_chunk_def extend_run_def Let_def drain_def pending_bytes_def run_ok_def ev_bytes_def
      run_key_def split: if_splits)
qed

lemma extend_run_ok:
  "run_ok b \<Longrightarrow> IsChunk (ev_Type ev) \<Longrightarrow> \<not> leading b \<Longrightarrow> Enabled b \<Longrightarrow> run_ok (extend_run b ev)"
  by (auto simp: extend_run_def run_ok_def Let_def Enabled_def)

lemma add_chunk_run_ok:
  assumes "run_ok b" "Enabled b" "IsChunk (ev_Type ev)" "add_chunk out b ev = (out', bl, b')"
  shows "run_ok b'"
  using assms
  by (auto simp: add_chunk_def extend_run_def Let_def drain_def run_ok_def Enabled_def split: if_splits)

lemma add_chunk_lane:
  assumes "add_chunk out b ev = (out', bl, b')"
  shows "tools b' = tools b" "toolIDs b' = toolIDs b" "toolSince b' = toolSince b"
    "toolTextAppend b' = toolTextAppend b" "toolLane b' = toolLane b" "win b' = win b"
    "maxBytes b' = maxBytes b" "bl = False"
  using assms by (auto simp: add_chunk_def extend_run_def Let_def drain_def split: if_splits)

lemma drainTools_bytes: "lane_ok b \<Longrightarrow> chunk_bytes (fst (drainTools b)) = []"
proof -
  have "e \<in> set (List.map_filter (tools b) (toolIDs b)) \<Longrightarrow> ev_bytes e = []"
    if "lane_ok b" for e
    using that tool_update_not_chunk
    by (fastforce simp: List.map_filter_def lane_ok_def held_ok_def)
  then show "lane_ok b \<Longrightarrow> chunk_bytes (fst (drainTools b)) = []"
    by (simp add: drainTools_def chunk_bytes_def)
qed

text \<open>The branches of \<open>Add\<close> one by one, for the proofs below.\<close>

lemma add_event_boundary:
  "is_boundary ev \<Longrightarrow> add_event b ev =
    (fst (drain b) @ fst (drainTools (snd (drain b))) @ [ev], True,
     (snd (drainTools (snd (drain b))))\<lparr>leading := True\<rparr>)"
  by (simp add: add_event_def split_beta)

lemma not_boundary_update: "IsInPlaceUpdate ev \<Longrightarrow> \<not> is_boundary ev"
  by (simp add: is_boundary_def)

lemma add_event_terminal:
  "IsInPlaceUpdate ev \<Longrightarrow> toolLane b \<Longrightarrow> IsTerminalToolStatus (ev_Status ev) \<Longrightarrow>
   add_event b ev = ([fst (takeTool b ev)], True, snd (takeTool b ev))"
  by (simp add: add_event_def not_boundary_update split_beta)

lemma add_event_hold:
  "IsInPlaceUpdate ev \<Longrightarrow> toolLane b \<Longrightarrow> \<not> IsTerminalToolStatus (ev_Status ev) \<Longrightarrow>
   add_event b ev =
    (if toolTextAppend b \<and> maxBytes b \<le> length (held_text (holdTool b ev) (ev_ToolID ev))
     then ([fst (releaseTool (holdTool b ev) (ev_ToolID ev))], True,
           forgetTool (holdTool b ev) (ev_ToolID ev))
     else ([], False, holdTool b ev))"
  by (simp add: add_event_def not_boundary_update held_text_def releaseTool_def Let_def)

lemma add_event_other:
  "\<not> is_boundary ev \<Longrightarrow> \<not> (toolLane b \<and> IsInPlaceUpdate ev) \<Longrightarrow> \<not> IsChunk (ev_Type ev) \<Longrightarrow>
   add_event b ev = ([ev], IsControl (ev_Type ev), b)"
  by (auto simp: add_event_def)

lemma chunk_not_other:
  "IsChunk (ev_Type ev) \<Longrightarrow> \<not> is_boundary ev \<and> \<not> IsInPlaceUpdate ev"
  using tool_update_not_chunk by (auto simp: is_boundary_def)

lemma add_event_chunk:
  "IsChunk (ev_Type ev) \<Longrightarrow> add_event b ev =
    (if mergeable b ev then add_chunk [] b ev
     else add_chunk (fst (drain b)) ((snd (drain b))\<lparr>leading := True\<rparr>) ev)"
  by (simp add: add_event_def chunk_not_other split_beta)

lemma add_event_chunk_lane:
  assumes "IsChunk (ev_Type ev)" "add_event b ev = (out, bl, b')"
  shows "tools b' = tools b" "toolIDs b' = toolIDs b" "toolSince b' = toolSince b" "bl = False"
  using assms add_chunk_lane [of "[]" b ev out bl b']
    add_chunk_lane [of "fst (drain b)" "(snd (drain b))\<lparr>leading := True\<rparr>" ev out bl b']
  by (auto simp: add_event_chunk split: if_splits)

lemma add_event_cases:
  obtains (boundary) "is_boundary ev"
  | (terminal) "IsInPlaceUpdate ev" "toolLane b" "IsTerminalToolStatus (ev_Status ev)"
  | (hold) "IsInPlaceUpdate ev" "toolLane b" "\<not> IsTerminalToolStatus (ev_Status ev)"
  | (other) "\<not> is_boundary ev" "\<not> (toolLane b \<and> IsInPlaceUpdate ev)" "\<not> IsChunk (ev_Type ev)"
  | (chunk) "IsChunk (ev_Type ev)"
  by (auto simp: is_boundary_def)

lemma releaseTool_type:
  "IsInPlaceUpdate ev \<Longrightarrow>
   \<not> IsChunk (ev_Type (fst (releaseTool (holdTool b ev) (ev_ToolID ev))))"
  using tool_update_not_chunk [of ev]
  by (auto simp: releaseTool_def holdTool_def split: option.split)

lemma restart_ok: "run_ok b \<Longrightarrow> run_ok ((snd (drain b))\<lparr>leading := True\<rparr>)"
  by (auto simp: run_ok_def drain_def)

lemma add_event_bytes:
  assumes ok: "buffer_ok b" and add: "add_event b ev = (out, bl, b')"
  shows "chunk_bytes out @ pending_bytes b' = pending_bytes b @ ev_bytes ev"
proof -
  have run: "run_ok b" and lane: "lane_ok b" using ok by (simp_all add: buffer_ok_def)
  show ?thesis
  proof (cases rule: add_event_cases [where ev = ev and b = b])
    case boundary
    moreover have "lane_ok (snd (drain b))" using lane by (simp add: lane_ok_def)
    ultimately show ?thesis
      using add run by (auto simp: add_event_boundary drain_bytes drainTools_bytes is_boundary_def)
  next
    case terminal
    then show ?thesis
      using add tool_update_not_chunk [of ev]
      by (auto simp: add_event_terminal intro!: pending_bytes_eqI)
  next
    case hold
    then show ?thesis
      using add tool_update_not_chunk [of ev]
      by (auto simp: add_event_hold releaseTool_type intro!: pending_bytes_eqI split: if_splits)
  next
    case other
    then show ?thesis using add by (auto simp: add_event_other)
  next
    case chunk
    show ?thesis
    proof (cases "mergeable b ev")
      case True
      with chunk add add_chunk_bytes [OF run _ chunk, of "[]"] show ?thesis
        by (simp add: add_event_chunk)
    next
      case False
      with chunk add have "add_chunk (fst (drain b)) ((snd (drain b))\<lparr>leading := True\<rparr>) ev = (out, bl, b')"
        by (simp add: add_event_chunk)
      from add_chunk_bytes [OF restart_ok [OF run] _ chunk this] show ?thesis
        using run by (simp add: drain_bytes)
    qed
  qed
qed

subsection \<open>Lemmas: the tool lane\<close>

lemma holdTool_lane_ok:
  assumes "lane_ok b" "IsInPlaceUpdate ev" "\<not> IsTerminalToolStatus (ev_Status ev)"
  shows "lane_ok (holdTool b ev)"
proof (cases "tools b (ev_ToolID ev)")
  case None
  then have "ev_ToolID ev \<notin> set (toolIDs b)" using assms by (auto simp: lane_ok_def)
  with None assms show ?thesis
    by (auto simp: holdTool_def lane_ok_def held_ok_def)
next
  case (Some prev)
  then have "\<not> IsTerminalToolStatus (ev_Status prev)"
    using assms by (auto simp: lane_ok_def held_ok_def)
  with Some assms show ?thesis
    by (auto simp: holdTool_def lane_ok_def held_ok_def mergeToolInto_def IsInPlaceUpdate_def)
qed

lemma forgetTool_lane_ok: "lane_ok b \<Longrightarrow> lane_ok (forgetTool b i)"
  by (auto simp: forgetTool_def lane_ok_def Let_def ring_simps split: if_splits)

lemma takeTool_lane_ok: "lane_ok b \<Longrightarrow> lane_ok (snd (takeTool b ev))"
  by (simp add: takeTool_def forgetTool_lane_ok split: option.split)

lemma drainTools_lane_ok: "lane_ok b \<Longrightarrow> lane_ok (snd (drainTools b))"
  by (auto simp: drainTools_def lane_ok_def)

lemma lane_ok_cong:
  "tools b = tools c \<Longrightarrow> toolIDs b = toolIDs c \<Longrightarrow> toolSince b = toolSince c \<Longrightarrow>
   lane_ok b = lane_ok c"
  by (simp add: lane_ok_def)

lemma add_event_ok:
  assumes ok: "buffer_ok b" and en: "Enabled b" and add: "add_event b ev = (out, bl, b')"
  shows "buffer_ok b'"
proof -
  have run: "run_ok b" and lane: "lane_ok b" using ok by (simp_all add: buffer_ok_def)
  show ?thesis
  proof (cases rule: add_event_cases [where ev = ev and b = b])
    case boundary
    have "lane_ok (snd (drainTools (snd (drain b))))"
      by (rule drainTools_lane_ok) (use lane in \<open>simp add: lane_ok_def\<close>)
    moreover have "b' = (snd (drainTools (snd (drain b))))\<lparr>leading := True\<rparr>"
      using boundary add by (simp add: add_event_boundary)
    ultimately show ?thesis
      using drain_run_ok [OF run] by (simp add: buffer_ok_def run_ok_def lane_ok_def)
  next
    case terminal
    with add run takeTool_lane_ok [OF lane, of ev] show ?thesis
      by (auto simp: add_event_terminal buffer_ok_def run_ok_def Enabled_def)
  next
    case hold
    with add run holdTool_lane_ok [OF lane hold(1,3)] show ?thesis
      by (auto simp: add_event_hold buffer_ok_def run_ok_def Enabled_def forgetTool_lane_ok split: if_splits)
  next
    case other
    with add ok show ?thesis by (auto simp: add_event_other)
  next
    case chunk
    with add add_chunk_run_ok [OF run en chunk]
        add_chunk_run_ok [OF restart_ok [OF run] _ chunk] en have "run_ok b'"
      by (auto simp: add_event_chunk Enabled_def split: if_splits)
    moreover have "lane_ok b'"
      using lane add_event_chunk_lane [OF chunk add] by (simp add: lane_ok_def)
    ultimately show ?thesis by (simp add: buffer_ok_def)
  qed
qed

lemma New_fields [simp]:
  "parts (New w mx opts) = []" "buf_n (New w mx opts) = 0" "tools (New w mx opts) = Map.empty"
  "toolIDs (New w mx opts) = []" "toolSince (New w mx opts) = 0" "leading (New w mx opts)"
  "win (New w mx opts) = w" "maxBytes (New w mx opts) = mx"
proof -
  have "parts (fold apply_option opts b) = parts b \<and> buf_n (fold apply_option opts b) = buf_n b
    \<and> tools (fold apply_option opts b) = tools b \<and> toolIDs (fold apply_option opts b) = toolIDs b
    \<and> toolSince (fold apply_option opts b) = toolSince b
    \<and> leading (fold apply_option opts b) = leading b
    \<and> win (fold apply_option opts b) = win b \<and> maxBytes (fold apply_option opts b) = maxBytes b"
    for b
  proof (induction opts arbitrary: b)
    case (Cons op opts)
    then show ?case by (cases op) simp_all
  qed simp
  then show "parts (New w mx opts) = []" "buf_n (New w mx opts) = 0"
    "tools (New w mx opts) = Map.empty" "toolIDs (New w mx opts) = []"
    "toolSince (New w mx opts) = 0" "leading (New w mx opts)"
    "win (New w mx opts) = w" "maxBytes (New w mx opts) = mx"
    by (simp_all add: New_def)
qed

lemma New_ok: "buffer_ok (New w mx opts)"
  by (simp add: buffer_ok_def run_ok_def lane_ok_def)

lemma Add_ok: "buffer_ok b \<Longrightarrow> buffer_ok (snd (Add b ev))"
  using add_event_ok by (auto simp: Add_def split: prod.split)

lemma Drain_ok: "buffer_ok b \<Longrightarrow> buffer_ok (snd (Drain b))"
  by (auto simp: Drain_def drain_def buffer_ok_def run_ok_def lane_ok_def)

lemma DrainTools_ok: "buffer_ok b \<Longrightarrow> buffer_ok (snd (DrainTools b))"
  using drainTools_lane_ok by (auto simp: DrainTools_def buffer_ok_def drainTools_def run_ok_def Enabled_def)

lemma Unflush_ok:
  "buffer_ok b \<Longrightarrow> IsChunk (ev_Type ev) \<Longrightarrow> \<not> leading b \<Longrightarrow> buffer_ok (snd (Unflush b ev))"
  by (auto simp: Unflush_def buffer_ok_def run_ok_def lane_ok_def Let_def Enabled_def)

lemma buffer_reach_ok: "buffer_reach b \<Longrightarrow> buffer_ok b"
  by (induction rule: buffer_reach.induct)
    (simp_all add: New_ok Add_ok Drain_ok DrainTools_ok Unflush_ok)

subsection \<open>Lemmas: streams\<close>

lemma disabled_empty: "buffer_ok b \<Longrightarrow> \<not> Enabled b \<Longrightarrow> parts b = []"
  by (auto simp: buffer_ok_def run_ok_def)

lemma Add_bytes:
  "buffer_ok b \<Longrightarrow> Add b ev = ((out, dl, bl), b') \<Longrightarrow>
   chunk_bytes out @ pending_bytes b' = pending_bytes b @ ev_bytes ev"
  using disabled_empty [of b]
  by (auto simp: Add_def add_event_bytes split: prod.splits if_splits)

lemma Add_out_parts: "fst (Add_out b ev) = fst (fst (Add b ev))" "snd (Add_out b ev) = snd (Add b ev)"
  by (simp_all add: Add_out_def split: prod.split)

interpretation text_stream:
  conserving_stream Add_out buffer_ok chunk_bytes ev_bytes pending_bytes
proof
  fix b ev assume "buffer_ok b"
  then show "buffer_ok (snd (Add_out b ev))" by (simp add: Add_out_parts Add_ok)
  from \<open>buffer_ok b\<close> show "chunk_bytes (fst (Add_out b ev)) @ pending_bytes (snd (Add_out b ev)) =
      pending_bytes b @ ev_bytes ev"
    using Add_bytes [of b ev] by (simp add: Add_out_def split: prod.split)
qed simp_all

lemma tool_text_simps [simp]:
  "tool_text i [] = []"
  "tool_text i (e # es) =
    (if IsInPlaceUpdate e \<and> ev_ToolID e = i then ev_Text e else []) @ tool_text i es"
  "tool_text i (es @ fs) = tool_text i es @ tool_text i fs"
  by (simp_all add: tool_text_def)

lemma tool_text_none:
  "\<forall>e\<in>set es. \<not> IsInPlaceUpdate e \<or> ev_ToolID e \<noteq> i \<Longrightarrow> tool_text i es = []"
  by (auto simp: tool_text_def filter_empty_conv)

lemma tool_text_concat: "concat (map (\<lambda>e. tool_text i [e]) es) = tool_text i es"
  by (induction es) simp_all

lemma drain_tool_text [simp]: "run_ok b \<Longrightarrow> tool_text i (fst (drain b)) = []"
  using drain_chunks tool_update_not_chunk by (intro tool_text_none) blast

lemma map_filter_held:
  assumes "distinct ids" "\<forall>j\<in>set ids. \<exists>e. m j = Some e \<and> held_ok j e"
  shows "tool_text i (List.map_filter m ids) =
    (if i \<in> set ids then ev_Text (the (m i)) else [])"
  using assms
proof (induction ids)
  case (Cons j ids)
  then obtain e where e: "m j = Some e" "held_ok j e" by auto
  then have "IsInPlaceUpdate e \<and> ev_ToolID e = i \<longleftrightarrow> i = j"
    by (auto simp: held_ok_def)
  then show ?case
    using Cons e by auto
qed simp

lemma drainTools_text: "lane_ok b \<Longrightarrow> tool_text i (fst (drainTools b)) = held_text b i"
  using map_filter_held [of "toolIDs b" "tools b" i]
  by (fastforce simp: drainTools_def lane_ok_def held_text_def split: option.split)

lemma held_text_cong [simp]:
  "held_text (b\<lparr>leading := l\<rparr>) i = held_text b i"
  "held_text (snd (drain b)) i = held_text b i"
  by (simp_all add: held_text_def)

lemma drainTools_held [simp]: "lane_ok b \<Longrightarrow> held_text (snd (drainTools b)) i = []"
  by (auto simp: drainTools_def held_text_def lane_ok_def split: option.split)

lemma mergeToolInto_append:
  "toolTextAppend b \<Longrightarrow> ev_Text (mergeToolInto b prev ev) = ev_Text prev @ ev_Text ev"
  by (simp add: mergeToolInto_def)

lemma holdTool_held:
  "toolTextAppend b \<Longrightarrow> held_text (holdTool b ev) i =
    held_text b i @ (if i = ev_ToolID ev then ev_Text ev else [])"
  by (auto simp: holdTool_def held_text_def mergeToolInto_append split: option.split)

lemma forgetTool_held:
  "held_text (forgetTool b i) j = (if j = i then [] else held_text b j)"
  by (simp add: forgetTool_def held_text_def Let_def)

lemma takeTool_text:
  "toolTextAppend b \<Longrightarrow> ev_Text (fst (takeTool b ev)) = held_text b (ev_ToolID ev) @ ev_Text ev"
  by (simp add: takeTool_def held_text_def mergeToolInto_append split: option.split)

lemma takeTool_held:
  "held_text (snd (takeTool b ev)) j = (if j = ev_ToolID ev then [] else held_text b j)"
  by (cases "tools b (ev_ToolID ev)") (auto simp: takeTool_def forgetTool_held, simp add: held_text_def)

lemma releaseTool_event:
  "ev_Text (fst (releaseTool (holdTool b ev) (ev_ToolID ev))) =
    held_text (holdTool b ev) (ev_ToolID ev)"
  "ev_ToolID (fst (releaseTool (holdTool b ev) (ev_ToolID ev))) = ev_ToolID ev"
  "ev_Type (fst (releaseTool (holdTool b ev) (ev_ToolID ev))) = ev_Type ev"
  by (simp_all add: releaseTool_def holdTool_def held_text_def split: option.split)

lemma add_chunk_out:
  assumes "run_ok b" "IsChunk (ev_Type ev)" "Enabled b" "add_chunk out b ev = (out', bl, b')"
  shows "\<exists>ds. out' = out @ ds \<and> (\<forall>e\<in>set ds. IsChunk (ev_Type e))"
proof (cases "leading b")
  case True
  with assms have "out' = out @ [ev]" by (simp add: add_chunk_def)
  with assms(2) show ?thesis by auto
next
  case False
  with assms(4) have "out' = out \<or> out' = out @ fst (drain (extend_run b ev))"
    by (auto simp: add_chunk_def Let_def split_beta split: if_splits)
  then show ?thesis
    using drain_chunks [OF extend_run_ok [OF assms(1,2) False assms(3)]]
    by (elim disjE) (intro exI [of _ "[]"], simp, rule exI, intro conjI, assumption, assumption)
qed

lemma add_chunk_tool_text:
  assumes "run_ok b" "IsChunk (ev_Type ev)" "Enabled b" "add_chunk out b ev = (out', bl, b')"
  shows "tool_text i out' = tool_text i out"
proof -
  obtain ds where "out' = out @ ds" "\<forall>e\<in>set ds. IsChunk (ev_Type e)"
    using add_chunk_out [OF assms] by blast
  moreover from this have "tool_text i ds = []"
    using tool_update_not_chunk by (intro tool_text_none) blast
  ultimately show ?thesis by simp
qed

lemma add_event_tool_text:
  assumes ok: "buffer_ok b" and en: "Enabled b" and lane: "toolLane b" "toolTextAppend b"
    and add: "add_event b ev = (out, bl, b')"
  shows "tool_text i out @ held_text b' i = held_text b i @ tool_text i [ev]"
proof -
  have run: "run_ok b" and lok: "lane_ok b" using ok by (simp_all add: buffer_ok_def)
  show ?thesis
  proof (cases rule: add_event_cases [where ev = ev and b = b])
    case boundary
    moreover have "lane_ok (snd (drain b))" using lok by (simp add: lane_ok_def)
    ultimately show ?thesis
      using add run by (auto simp: add_event_boundary drainTools_text is_boundary_def)
  next
    case terminal
    then show ?thesis
      using add lane
      by (auto simp: add_event_terminal takeTool_held takeTool_text IsInPlaceUpdate_def)
  next
    case hold
    then show ?thesis
      using add lane
      by (auto simp: add_event_hold releaseTool_event holdTool_held forgetTool_held
        IsInPlaceUpdate_def split: if_splits)
  next
    case other
    then show ?thesis using add lane by (auto simp: add_event_other)
  next
    case chunk
    then have "\<not> IsInPlaceUpdate ev" using tool_update_not_chunk by auto
    moreover have "tools b' = tools b"
      using add_event_chunk_lane [OF chunk add] by simp
    ultimately show ?thesis
      using add chunk run add_chunk_tool_text [OF run chunk en, of "[]"]
        add_chunk_tool_text [OF restart_ok [OF run] chunk, of "fst (drain b)"] en
      by (auto simp: add_event_chunk held_text_def Enabled_def split: if_splits)
  qed
qed

definition appending :: "buffer \<Rightarrow> bool" where
  "appending b \<longleftrightarrow> buffer_ok b \<and> Enabled b \<and> toolLane b \<and> toolTextAppend b"

lemma add_event_config:
  assumes "add_event b ev = (out, bl, b')"
  shows "win b' = win b" "maxBytes b' = maxBytes b" "toolLane b' = toolLane b"
    "toolTextAppend b' = toolTextAppend b"
proof -
  have "win b' = win b \<and> maxBytes b' = maxBytes b \<and> toolLane b' = toolLane b \<and>
    toolTextAppend b' = toolTextAppend b"
  proof (cases rule: add_event_cases [where ev = ev and b = b])
    case chunk
    with assms add_chunk_lane [of "[]" b ev out bl b']
      add_chunk_lane [of "fst (drain b)" "(snd (drain b))\<lparr>leading := True\<rparr>" ev out bl b']
    show ?thesis by (auto simp: add_event_chunk split: if_splits)
  qed (use assms in \<open>auto simp: add_event_boundary add_event_terminal add_event_hold
    add_event_other split: if_splits\<close>)
  then show "win b' = win b" "maxBytes b' = maxBytes b" "toolLane b' = toolLane b"
    "toolTextAppend b' = toolTextAppend b" by simp_all
qed

lemma Add_config [simp]:
  "win (snd (Add b ev)) = win b" "maxBytes (snd (Add b ev)) = maxBytes b"
  "toolLane (snd (Add b ev)) = toolLane b" "toolTextAppend (snd (Add b ev)) = toolTextAppend b"
  by (auto simp: Add_def split: prod.split dest: add_event_config)

interpretation tool_stream:
  conserving_stream Add_out appending "tool_text i" "\<lambda>e. tool_text i [e]" "\<lambda>b. held_text b i"
  for i
proof
  fix b ev assume b: "appending b"
  then show "appending (snd (Add_out b ev))"
    by (simp add: appending_def Add_out_parts Add_ok Enabled_def)
  from b show "tool_text i (fst (Add_out b ev)) @ held_text (snd (Add_out b ev)) i =
      held_text b i @ tool_text i [ev]"
    using add_event_tool_text [of b ev]
    by (auto simp: Add_out_def Add_def appending_def split: prod.split)
qed simp_all

lemma chunk_returns_chunks:
  assumes "run_ok b" "Enabled b" "IsChunk (ev_Type ev)" "add_event b ev = (out, bl, b')" "e \<in> set out"
  shows "IsChunk (ev_Type e)"
  using assms(4,5) drain_chunks [OF assms(1)] add_chunk_out [OF assms(1,3,2), of "[]" out bl b']
    add_chunk_out [OF restart_ok [OF assms(1)] assms(3), of "fst (drain b)" out bl b'] assms(2,3)
  by (auto simp: add_event_chunk Enabled_def split: if_splits)

lemma add_event_control:
  assumes "run_ok b" "Enabled b" "add_event b ev = (out, bl, b')" "e \<in> set out" "IsControl (ev_Type e)"
  shows "bl"
proof (cases rule: add_event_cases [where ev = ev and b = b])
  case chunk
  from chunk_returns_chunks [OF assms(1,2) chunk assms(3,4)] assms(5) show ?thesis
    by (auto simp: IsChunk_def IsControl_def)
qed (use assms in \<open>auto simp: add_event_boundary add_event_terminal add_event_hold
    add_event_other split: if_splits\<close>)

subsection \<open>Lemmas: the growth guard\<close>

lemma rune_cut_bounds: "k \<le> length t \<Longrightarrow> k \<le> rune_cut t k \<and> rune_cut t k \<le> length t"
  using length_takeWhile_le [of "\<lambda>c. \<not> RuneStart c" "drop k t"] by (simp add: rune_cut_def)

lemma rune_cut_start:
  "rune_cut t k < length t \<Longrightarrow> RuneStart (t ! rune_cut t k)"
proof -
  let ?P = "\<lambda>c. \<not> RuneStart c"
  assume "rune_cut t k < length t"
  then have "length (takeWhile ?P (drop k t)) < length (drop k t)" by (simp add: rune_cut_def)
  from nth_length_takeWhile [OF this] show ?thesis
    using \<open>rune_cut t k < length t\<close> by (simp add: rune_cut_def add.commute)
qed

lemma rune_cut_continuation:
  assumes "k \<le> j" "j < rune_cut t k" "k \<le> length t" shows "\<not> RuneStart (t ! j)"
proof -
  let ?P = "\<lambda>c. \<not> RuneStart c"
  have j: "j - k < length (takeWhile ?P (drop k t))" using assms by (simp add: rune_cut_def)
  then have "takeWhile ?P (drop k t) ! (j - k) = t ! j"
    using assms by (simp add: takeWhile_nth)
  with nth_mem [OF j] show ?thesis by (metis set_takeWhileD)
qed

lemma Unflush_shape:
  assumes "Enabled b" "run_ok b" "Unflush b ev = (dropped, b')"
  shows "join (parts b') = drop dropped (ev_Text ev @ join (parts b))"
    "dropped = (let t = ev_Text ev @ join (parts b); limit = growthFactor * maxBytes b in
      if ev_Text ev \<noteq> [] \<and> limit < length t then rune_cut t (length t - limit) else 0)"
  using assms
  by (auto simp: Unflush_def Let_def run_ok_def add.commute split: if_splits)

lemma Unflush_config:
  "win (snd (Unflush b ev)) = win b" "maxBytes (snd (Unflush b ev)) = maxBytes b"
  by (simp_all add: Unflush_def Let_def)

lemma Unflush_pending:
  assumes "Enabled b" "run_ok b" "buf_n b \<le> growthFactor * maxBytes b"
  shows "buf_n (snd (Unflush b ev)) \<le> growthFactor * maxBytes b"
proof -
  let ?t = "ev_Text ev @ join (parts b)"
  have "length ?t - rune_cut ?t (length ?t - growthFactor * maxBytes b) \<le> growthFactor * maxBytes b"
    using rune_cut_bounds [of "length ?t - growthFactor * maxBytes b" ?t] by linarith
  then show ?thesis
    using assms by (auto simp: Unflush_def Let_def run_ok_def split: if_splits)
qed

lemma add_chunk_pending:
  "add_chunk out b ev = (out', bl, b') \<Longrightarrow> buf_n b' \<le> max (buf_n b) (maxBytes b)"
  by (auto simp: add_chunk_def Let_def drain_def extend_run_def split: if_splits)

lemma drain_pending: "run_ok b \<Longrightarrow> buf_n (snd (drain b)) = 0"
  by (simp add: drain_def run_ok_def)

lemma add_event_pending:
  assumes "run_ok b" "add_event b ev = (out, bl, b')"
  shows "buf_n b' \<le> max (buf_n b) (maxBytes b)"
proof (cases rule: add_event_cases [where ev = ev and b = b])
  case chunk
  with assms add_chunk_pending [of "[]" b ev out bl b']
    add_chunk_pending [of "fst (drain b)" "(snd (drain b))\<lparr>leading := True\<rparr>" ev out bl b']
  show ?thesis by (auto simp: add_event_chunk drain_pending split: if_splits)
qed (use assms in \<open>auto simp: add_event_boundary add_event_terminal add_event_hold
    add_event_other drain_pending split: if_splits\<close>)

lemma Add_pending: "buffer_ok b \<Longrightarrow> buf_n (snd (Add b ev)) \<le> max (buf_n b) (maxBytes b)"
  using add_event_pending [of b ev] by (auto simp: Add_def buffer_ok_def split: prod.split)

lemma Drain_snd: "snd (Drain b) = snd (drain b)"
  by (auto simp: Drain_def split: prod.split list.split)

lemma reach_pending: "buffer_reach b \<Longrightarrow> buf_n b \<le> growthFactor * maxBytes b"
proof (induction rule: buffer_reach.induct)
  case (reach_Add b ev)
  have "max (buf_n b) (maxBytes b) \<le> growthFactor * maxBytes b"
    using reach_Add.IH by (simp add: growthFactor_def)
  with Add_pending [OF buffer_reach_ok [OF reach_Add.hyps], of ev] show ?case
    unfolding Add_config by (rule order_trans)
next
  case (reach_Drain b)
  then show ?case by (simp add: Drain_snd drain_def)
next
  case (reach_DrainTools b)
  then show ?case by (simp add: DrainTools_def)
next
  case (reach_Unflush b ev)
  then show ?case
    using Unflush_pending [of b ev] buffer_reach_ok [OF reach_Unflush.hyps(1)]
    by (cases "Enabled b") (auto simp: Unflush_config buffer_ok_def, simp add: Unflush_def)
qed simp

subsection \<open>Properties\<close>

text \<open>The buffers of the examples: one chunk held behind the leading edge of a run.\<close>

definition ex_chunk :: "event_type \<Rightarrow> string \<Rightarrow> event" where
  "ex_chunk t s = zero_event\<lparr>ev_Type := t, ev_Text := s, ev_Timestamp := 5\<rparr>"

definition ex_tool :: "string \<Rightarrow> string \<Rightarrow> event" where
  "ex_tool st s = zero_event\<lparr>ev_Type := TypeToolUpdate, ev_ToolID := ''t'', ev_Status := st,
     ev_Text := s, ev_Timestamp := 6\<rparr>"

definition ex_buffer :: buffer where
  "ex_buffer = snd (Add (snd (Add (New 80 64 [WithToolLane]) (ex_chunk TypeAssistantChunk ''Hi'')))
    (ex_chunk TypeAssistantChunk '' you''))"

lemma ex_buffer_reach: "buffer_reach ex_buffer"
  unfolding ex_buffer_def by (intro reach_Add reach_New)

text \<open>C12: Streaming text is never lost, duplicated, reordered or attributed to another run: over
  any sequence of events, the labelled bytes of the chunks the buffer has returned, followed by
  those still pending, are those that were pending followed by those that came in.\<close>

theorem feed_preserves_text:
  assumes "buffer_reach b" "feed b es = (out, b')"
  shows "chunk_bytes out @ pending_bytes b' = pending_bytes b @ chunk_bytes es"
  using text_stream.run_conserves [OF buffer_reach_ok [OF assms(1)], of es] assms(2)
  by (simp add: feed_def chunk_bytes_def)

theorem feed_preserves_text_witness:
  "chunk_bytes (fst (feed ex_buffer [ex_chunk TypeThoughtChunk ''a'', ex_chunk TypeThoughtChunk ''b'']))
     @ pending_bytes (snd (feed ex_buffer [ex_chunk TypeThoughtChunk ''a'', ex_chunk TypeThoughtChunk ''b'']))
   = pending_bytes ex_buffer @ chunk_bytes [ex_chunk TypeThoughtChunk ''a'', ex_chunk TypeThoughtChunk ''b'']"
  by (rule feed_preserves_text [OF ex_buffer_reach]) simp

text \<open>With the appending tool lane no output of a tool is lost: over any sequence of events
  through a fresh buffer, the texts of the updates delivered for a tool id, followed by the text
  still held for it, are the texts of the updates that came in for that id.\<close>

theorem append_lane_preserves_text:
  assumes "0 < w" "feed (New w mx [WithToolLaneAppend]) es = (out, b')"
  shows "tool_text i out @ held_text b' i = tool_text i es"
proof -
  have "appending (New w mx [WithToolLaneAppend])"
    using assms(1) by (simp add: appending_def New_ok Enabled_def, simp add: New_def)
  from tool_stream.run_conserves [OF this, of i es] assms(2) show ?thesis
    unfolding tool_text_concat by (simp add: feed_def held_text_def)
qed

theorem append_lane_preserves_text_witness:
  "tool_text ''t'' (fst (feed (New 80 64 [WithToolLaneAppend]) [ex_tool ''running'' ''ab'', ex_tool [] ''cd'']))
     @ held_text (snd (feed (New 80 64 [WithToolLaneAppend]) [ex_tool ''running'' ''ab'', ex_tool [] ''cd''])) ''t''
   = ''abcd''"
proof -
  have "tool_text ''t'' [ex_tool ''running'' ''ab'', ex_tool [] ''cd''] = ''abcd''"
    by (simp add: ex_tool_def IsInPlaceUpdate_def)
  with append_lane_preserves_text [of 80 64 "[ex_tool ''running'' ''ab'', ex_tool [] ''cd'']" _ _ "''t''"]
  show ?thesis by (metis prod.collapse zero_less_numeral)
qed

text \<open>A boundary event flushes everything ahead of itself. It is the last event returned, the
  pending text and every held tool update precede it, nothing is pending afterwards, no timer is
  due, the batch must be sent blocking, and the next chunk is returned at once and alone.\<close>

theorem boundary_flushes_all:
  assumes "buffer_reach b" "Enabled b" "is_boundary ev" "Add b ev = ((out, dl, blocking), b')"
  shows "blocking \<and> dl = 0 \<and> out \<noteq> [] \<and> last out = ev
    \<and> chunk_bytes (butlast out) = pending_bytes b
    \<and> (\<forall>i. tool_text i (butlast out) = held_text b i)
    \<and> Pending b' = 0 \<and> parts b' = [] \<and> toolIDs b' = []
    \<and> (\<forall>c. IsChunk (ev_Type c) \<longrightarrow> fst (Add b' c) = ([c], 0, False))"
proof -
  have run: "run_ok b" and lane: "lane_ok b"
    using buffer_reach_ok [OF assms(1)] by (simp_all add: buffer_ok_def)
  then have lane1: "lane_ok (snd (drain b))" by (simp add: lane_ok_def)
  have out: "out = fst (drain b) @ fst (drainTools (snd (drain b))) @ [ev]"
    and b': "b' = (snd (drainTools (snd (drain b))))\<lparr>leading := True\<rparr>"
    and bl: "blocking" "dl = deadline b'"
    using assms by (auto simp: Add_def add_event_boundary split: prod.splits)
  have idle: "parts b' = []" "toolIDs b' = []" "buf_n b' = 0" "leading b'" "Enabled b'"
    using b' run assms(2) by (simp_all add: drain_pending Enabled_def)
  have "butlast out = fst (drain b) @ fst (drainTools (snd (drain b)))"
    by (simp add: out butlast_append)
  then have "chunk_bytes (butlast out) = pending_bytes b"
    "\<forall>i. tool_text i (butlast out) = held_text b i"
    using run lane1 by (simp_all add: drain_bytes drainTools_bytes drainTools_text)
  moreover have "\<forall>c. IsChunk (ev_Type c) \<longrightarrow> fst (Add b' c) = ([c], 0, False)"
    using idle by (auto simp: Add_def add_event_chunk add_chunk_def deadline_def IsZero_def drain_def)
  ultimately show ?thesis
    using idle bl by (simp add: out Pending_def deadline_def IsZero_def)
qed

theorem boundary_flushes_all_witness:
  "fst (Add ex_buffer (zero_event\<lparr>ev_Type := TypeTurnComplete\<rparr>)) =
     ([ex_chunk TypeAssistantChunk '' you'', zero_event\<lparr>ev_Type := TypeTurnComplete\<rparr>], 0, True)
   \<and> Pending (snd (Add ex_buffer (zero_event\<lparr>ev_Type := TypeTurnComplete\<rparr>))) = 0"
proof -
  let ?ev = "zero_event\<lparr>ev_Type := TypeTurnComplete\<rparr>"
  have "Enabled ex_buffer" "is_boundary ?ev"
    by (simp_all add: ex_buffer_def Enabled_def is_boundary_def IsChunk_def IsControl_def
      IsInPlaceUpdate_def)
  moreover have "fst (Add ex_buffer ?ev) = ([ex_chunk TypeAssistantChunk '' you'', ?ev], 0, True)"
    by code_simp
  ultimately show ?thesis
    using boundary_flushes_all [OF ex_buffer_reach, of ?ev] by (metis prod.collapse)
qed

text \<open>A control event is never returned on the droppable path: whenever one is among the
  events to deliver, the buffer asks for blocking delivery.\<close>

theorem control_is_blocking:
  assumes "buffer_reach b" "Add b ev = ((out, dl, blocking), b')" "e \<in> set out" "IsControl (ev_Type e)"
  shows "blocking"
  using assms add_event_control [of b ev] buffer_reach_ok [OF assms(1)]
  by (auto simp: Add_def buffer_ok_def split: prod.splits if_splits)

theorem control_is_blocking_witness:
  "fst (Add ex_buffer (ex_tool ''completed'' ''ok'')) = ([ex_tool ''completed'' ''ok''], 85, True)"
proof -
  let ?e = "ex_tool ''completed'' ''ok''"
  obtain out dl bl b' where add: "Add ex_buffer ?e = ((out, dl, bl), b')" by (metis surj_pair)
  have "fst (fst (Add ex_buffer ?e)) = [?e]" "fst (snd (fst (Add ex_buffer ?e))) = 85" by code_simp+
  moreover have "IsControl (ev_Type ?e)" by code_simp
  ultimately show ?thesis
    using control_is_blocking [OF ex_buffer_reach add, of ?e] by (simp add: add)
qed

text \<open>Handing a chunk back keeps the buffer bounded and loses only what the growth guard must:
  the new run is the chunk's text ahead of the pending text less a prefix; the prefix is empty
  unless the text exceeds four times the cap; the surviving text is at most that long, it starts
  at a rune start, and every byte dropped beyond the excess is a UTF-8 continuation byte.\<close>

theorem Unflush_bounded:
  assumes "buffer_reach b" "Enabled b" "Unflush b ev = (dropped, b')" "ev_Text ev \<noteq> []"
  defines "t \<equiv> ev_Text ev @ join (parts b)" and "limit \<equiv> growthFactor * maxBytes b"
  shows "join (parts b') = drop dropped t \<and> Pending b' + dropped = length t
    \<and> Pending b' \<le> limit
    \<and> (length t \<le> limit \<longrightarrow> dropped = 0)
    \<and> (limit < length t \<longrightarrow> length t - limit \<le> dropped
        \<and> (dropped < length t \<longrightarrow> RuneStart (t ! dropped))
        \<and> (\<forall>j. length t - limit \<le> j \<and> j < dropped \<longrightarrow> \<not> RuneStart (t ! j)))"
proof -
  have run: "run_ok b" using buffer_reach_ok [OF assms(1)] by (simp add: buffer_ok_def)
  note sh = Unflush_shape [OF assms(2) run assms(3), folded t_def limit_def]
  have d: "dropped = (if limit < length t then rune_cut t (length t - limit) else 0)"
    using sh(2) assms(4) by (simp add: Let_def)
  have n: "buf_n b' = length (join (parts b'))"
    using assms(2,3) run by (auto simp: Unflush_def Let_def run_ok_def split: if_splits)
  have le: "dropped \<le> length t" using d rune_cut_bounds [of "length t - limit" t] by simp
  have "buf_n b' \<le> limit"
    using Unflush_pending [OF assms(2) run reach_pending [OF assms(1)], of ev] assms(3)
    by (simp add: limit_def)
  moreover have "length t - limit \<le> dropped" if "limit < length t"
    using d that rune_cut_bounds [of "length t - limit" t] by simp
  ultimately show ?thesis
    using d n le sh(1) rune_cut_start [of t "length t - limit"]
      rune_cut_continuation [of "length t - limit" _ t]
    by (simp add: Pending_def)
qed

theorem Unflush_bounded_witness:
  "let b = snd (Add (New 80 1 []) (ex_chunk TypeAssistantChunk ''x''));
       r = Unflush b (ex_chunk TypeAssistantChunk ''abcdefgh'')
   in fst r = 4 \<and> join (parts (snd r)) = ''efgh'' \<and> Pending (snd r) + fst r = 8"
proof -
  let ?b = "snd (Add (New 80 1 []) (ex_chunk TypeAssistantChunk ''x''))"
  let ?r = "Unflush ?b (ex_chunk TypeAssistantChunk ''abcdefgh'')"
  have "fst ?r = 4" "join (parts (snd ?r)) = ''efgh''" by code_simp+
  moreover have "Pending (snd ?r) + fst ?r = length (''abcdefgh'' @ join (parts ?b))"
    using Unflush_bounded [of ?b "ex_chunk TypeAssistantChunk ''abcdefgh''" "fst ?r" "snd ?r"]
    by (simp add: Enabled_def reach_Add reach_New ex_chunk_def)
  moreover have "join (parts ?b) = []" by code_simp
  ultimately show ?thesis by simp
qed

end
