(* ===== verification/Emitter.thy ===== *)
theory Emitter
  imports Chunkbuf
begin

text \<open>
  The transports' event sink: \<open>Emit\<close> and the flush timer of
  \<open>internal/provider/httpagent/session.go\<close>, the same functions of
  \<open>internal/provider/codex/session.go\<close>, and the timer of
  \<open>internal/provider/acpagent/session.go\<close>. All three own one \<open>chunkbuf.Buffer\<close> and a
  bounded channel \<open>s.events\<close>.

  The channel is seen from the sender: \<open>sent\<close> is every event it has accepted, in order, and
  \<open>room i\<close> says whether it has a free slot at the i-th send of a call. A blocking send
  waits for a slot; only a session whose \<open>done\<close> channel is closed may abandon it, which
  \<open>room\<close> decides too. \<open>discarded\<close> counts the bytes \<open>noteUnflush\<close> reports.
  \<open>Emit\<close> is in two parts, because the code runs the second after releasing
  \<open>emitMu\<close>.
\<close>

definition maxPendingChunkBytes :: nat where
  "maxPendingChunkBytes = 8 * 1024"

definition chunkRetryDelay :: duration where
  "chunkRetryDelay = 50000000"

record transport =
  localID :: string
  agentID :: string
  closed :: bool
  tr_done :: bool
  chunks :: buffer
  sent :: "event list"
  discarded :: nat
  flushTimer :: "gotime option"

definition new_transport ::
  "string \<Rightarrow> string \<Rightarrow> duration \<Rightarrow> nat \<Rightarrow> buffer_option list \<Rightarrow> transport" where
  "new_transport lid aid w mx opts =
    \<lparr>localID = lid, agentID = aid, closed = False, tr_done = False,
     chunks = New w mx opts, sent = [], discarded = 0, flushTimer = None\<rparr>"

text \<open>The three transports' buffers: \<open>chunkBuffer\<close> of each.\<close>

definition httpagent_transport :: "string \<Rightarrow> string \<Rightarrow> duration \<Rightarrow> transport" where
  "httpagent_transport lid aid w = new_transport lid aid w maxPendingChunkBytes [WithToolLane]"

definition codex_transport :: "string \<Rightarrow> string \<Rightarrow> duration \<Rightarrow> transport" where
  "codex_transport lid aid w = new_transport lid aid w maxPendingChunkBytes [WithToolLaneAppend]"

definition acp_transport :: "string \<Rightarrow> string \<Rightarrow> duration \<Rightarrow> transport" where
  "acp_transport lid aid w = new_transport lid aid w maxPendingChunkBytes [WithToolLane]"

definition stamp :: "gotime \<Rightarrow> transport \<Rightarrow> event \<Rightarrow> event" where
  "stamp now s ev =
    (let ev1 = (if ev_SessionID ev = [] then ev\<lparr>ev_SessionID := localID s\<rparr> else ev)
     in if IsZero (ev_Timestamp ev1) then ev1\<lparr>ev_Timestamp := now\<rparr> else ev1)"

definition send_blocking :: "bool \<Rightarrow> event \<Rightarrow> transport \<Rightarrow> transport" where
  "send_blocking slot e s = (if tr_done s \<and> \<not> slot then s else s\<lparr>sent := sent s @ [e]\<rparr>)"

definition trySend :: "bool \<Rightarrow> event \<Rightarrow> transport \<Rightarrow> bool \<times> transport" where
  "trySend slot e s = (if slot then (True, s\<lparr>sent := sent s @ [e]\<rparr>) else (False, s))"

text \<open>\<open>s.noteUnflush(s.chunks.Unflush(e))\<close>.\<close>

definition unflush :: "event \<Rightarrow> transport \<Rightarrow> transport" where
  "unflush e s = (case Unflush (chunks s) e of
     (dropped, b) \<Rightarrow> s\<lparr>chunks := b, discarded := discarded s + dropped\<rparr>)"

text \<open>The delivery loop of \<open>Emit\<close>; the flag says whether a chunk was handed back.\<close>

fun deliver :: "(nat \<Rightarrow> bool) \<Rightarrow> bool \<Rightarrow> nat \<Rightarrow> event list \<Rightarrow> transport \<Rightarrow> bool \<times> transport" where
  "deliver room blocking i [] s = (False, s)"
| "deliver room blocking i (e # es) s =
    (if blocking \<or> IsControl (ev_Type e) then
       deliver room blocking (Suc i) es (send_blocking (room i) e s)
     else case trySend (room i) e s of
       (True, s1) \<Rightarrow> deliver room blocking (Suc i) es s1
     | (False, s1) \<Rightarrow>
         if \<not> IsChunk (ev_Type e) then deliver room blocking (Suc i) es s1
         else (True, snd (deliver room blocking (Suc i) es (unflush e s1))))"

definition armFlush :: "gotime \<Rightarrow> transport \<Rightarrow> transport" where
  "armFlush dl s = (case flushTimer s of Some _ \<Rightarrow> s | None \<Rightarrow> s\<lparr>flushTimer := Some dl\<rparr>)"

definition stopFlush :: "transport \<Rightarrow> transport" where
  "stopFlush s = s\<lparr>flushTimer := None\<rparr>"

definition emit_locked ::
  "gotime \<Rightarrow> (nat \<Rightarrow> bool) \<Rightarrow> event \<Rightarrow> transport \<Rightarrow> gotime \<times> transport" where
  "emit_locked now room ev s =
    (case Add (chunks s) ev of ((out, dl, blocking), b) \<Rightarrow>
     case deliver room blocking 0 out (s\<lparr>chunks := b\<rparr>) of (back, s1) \<Rightarrow>
       (if back then now + chunkRetryDelay else dl, s1))"

definition emit_arm :: "gotime \<Rightarrow> transport \<Rightarrow> transport" where
  "emit_arm dl s = (if IsZero dl then stopFlush s else armFlush dl s)"

definition Emit :: "gotime \<Rightarrow> (nat \<Rightarrow> bool) \<Rightarrow> event \<Rightarrow> transport \<Rightarrow> transport" where
  "Emit now room ev s =
    (if closed s then s
     else case emit_locked now room (stamp now s ev) s of (dl, s1) \<Rightarrow> emit_arm dl s1)"

text \<open>Codex stamps the agent session id on everything but chunks and does not test \<open>closed\<close>.\<close>

definition codex_emit :: "gotime \<Rightarrow> (nat \<Rightarrow> bool) \<Rightarrow> event \<Rightarrow> transport \<Rightarrow> transport" where
  "codex_emit now room ev s =
    (let ev1 = stamp now s ev;
         ev2 = (if ev_AgentSessionID ev1 = [] \<and> \<not> IsChunk (ev_Type ev1)
                then ev1\<lparr>ev_AgentSessionID := agentID s\<rparr> else ev1)
     in case emit_locked now room ev2 s of (dl, s1) \<Rightarrow> emit_arm dl s1)"

fun send_tools :: "(nat \<Rightarrow> bool) \<Rightarrow> nat \<Rightarrow> event list \<Rightarrow> transport \<Rightarrow> transport" where
  "send_tools room i [] s = s"
| "send_tools room i (e # es) s = send_tools room (Suc i) es (send_blocking (room i) e s)"

text \<open>The text half of the timer: drain the run, hand it back if the channel is full.\<close>

definition flush_run :: "bool \<Rightarrow> transport \<Rightarrow> bool \<times> transport" where
  "flush_run slot s =
    (case Drain (chunks s) of
       (None, b) \<Rightarrow> (False, s\<lparr>chunks := b\<rparr>)
     | (Some ev, b) \<Rightarrow>
         (case trySend slot ev (s\<lparr>chunks := b\<rparr>) of
            (True, s1) \<Rightarrow> (False, s1)
          | (False, s1) \<Rightarrow> (True, unflush ev s1)))"

definition onFlushTimer :: "gotime \<Rightarrow> (nat \<Rightarrow> bool) \<Rightarrow> transport \<Rightarrow> transport" where
  "onFlushTimer now room s =
    (let s0 = s\<lparr>flushTimer := None\<rparr>
     in if tr_done s0 then s0
        else case flush_run (room 0) s0 of (retry, s1) \<Rightarrow>
          case DrainTools (chunks s1) of (ts, b) \<Rightarrow>
            let s2 = send_tools room 1 ts (s1\<lparr>chunks := b\<rparr>)
            in if retry then armFlush (now + chunkRetryDelay) s2 else s2)"

definition acp_onFlushTimer :: "gotime \<Rightarrow> (nat \<Rightarrow> bool) \<Rightarrow> transport \<Rightarrow> transport" where
  "acp_onFlushTimer now room s =
    (let s0 = s\<lparr>flushTimer := None\<rparr>
     in if tr_done s0 then s0
        else case flush_run (room 0) s0 of (retry, s1) \<Rightarrow>
          if retry then armFlush (now + chunkRetryDelay) s1 else s1)"

fun try_all :: "(nat \<Rightarrow> bool) \<Rightarrow> nat \<Rightarrow> event list \<Rightarrow> transport \<Rightarrow> transport" where
  "try_all room i [] s = s"
| "try_all room i (e # es) s = try_all room (Suc i) es (snd (trySend (room i) e s))"

definition drainChunks :: "(nat \<Rightarrow> bool) \<Rightarrow> transport \<Rightarrow> transport" where
  "drainChunks room s =
    (case Drain (chunks s) of (ev, b) \<Rightarrow>
     case DrainTools b of (ts, b2) \<Rightarrow>
       let s1 = (stopFlush s)\<lparr>chunks := b2\<rparr>
       in try_all room 1 ts (case ev of None \<Rightarrow> s1 | Some e \<Rightarrow> snd (trySend (room 0) e s1)))"

subsection \<open>Reachable transports\<close>

text \<open>
  The life of a session's sink: events arrive, an armed timer fires, the session is closed. Clock
  readings and event times are after Go's zero time.
\<close>

inductive transport_reach :: "transport \<Rightarrow> bool" where
  init: "0 < w \<Longrightarrow> transport_reach (new_transport lid aid w mx opts)"
| emit: "transport_reach s \<Longrightarrow> 0 < now \<Longrightarrow> 0 \<le> ev_Timestamp ev \<Longrightarrow> transport_reach (Emit now room ev s)"
| timer: "transport_reach s \<Longrightarrow> 0 < now \<Longrightarrow> flushTimer s \<noteq> None \<Longrightarrow>
    transport_reach (onFlushTimer now room s)"
| close: "transport_reach s \<Longrightarrow> transport_reach (s\<lparr>closed := True, tr_done := True\<rparr>)"

text \<open>What the timer needs: a pending run and a pending lane have a time.\<close>

definition times_ok :: "buffer \<Rightarrow> bool" where
  "times_ok b \<longleftrightarrow> (parts b \<noteq> [] \<longrightarrow> 0 < since b) \<and> (toolIDs b \<noteq> [] \<longrightarrow> 0 < toolSince b)"

definition idle :: "buffer \<Rightarrow> bool" where
  "idle b \<longleftrightarrow> parts b = [] \<and> toolIDs b = []"

definition armed :: "transport \<Rightarrow> bool" where
  "armed s \<longleftrightarrow> tr_done s \<or> idle (chunks s) \<or> flushTimer s \<noteq> None"

lemma deadline_zero: "times_ok b \<Longrightarrow> 0 < win b \<Longrightarrow> deadline b = 0 \<longleftrightarrow> idle b"
  by (auto simp: deadline_def times_ok_def idle_def IsZero_def Let_def)

subsection \<open>Lemmas: what \<open>Add\<close> returns on the droppable path\<close>

lemma chunk_not_leading:
  assumes "IsChunk (ev_Type ev)" "add_event b ev = (out, bl, b')" shows "\<not> leading b'"
proof -
  have "add_chunk out0 c ev = (out, bl, b') \<Longrightarrow> \<not> leading b'" for out0 c
    by (auto simp: add_chunk_def extend_run_def drain_def Let_def split: if_splits)
  with assms show ?thesis by (auto simp: add_event_chunk split: if_splits)
qed

text \<open>
  A chunk leaves the buffer in one of four ways: held, returned, returned behind the run it
  ends, or as the last part of a full run. Whenever anything is returned nothing is pending.
\<close>

lemma add_chunk_shape:
  assumes "run_ok b" "add_chunk out0 b ev = (out, bl, b')"
  shows "out = out0 \<or> (\<exists>x. out = out0 @ [x] \<and> parts b' = [] \<and>
    (x = ev \<or> x = (tmpl (extend_run b ev))\<lparr>ev_Text := join (parts (extend_run b ev)),
      ev_Timestamp := since (extend_run b ev)\<rparr>))"
  using assms by (auto simp: add_chunk_def drain_def run_ok_def Let_def split: if_splits)

lemma chunk_out_shape:
  assumes "run_ok b" "IsChunk (ev_Type ev)" "add_event b ev = (out, bl, b')"
  shows "out = [] \<or> parts b' = [] \<and> (\<exists>x. out = [x]) \<or>
    parts b' = [] \<and> (\<exists>x. out = [x, ev] \<and> fst (drain b) = [x])"
proof (cases "mergeable b ev")
  case True
  with assms add_chunk_shape [of b "[]" ev out bl b'] show ?thesis
    by (auto simp: add_event_chunk)
next
  case False
  then have "add_chunk (fst (drain b)) ((snd (drain b))\<lparr>leading := True\<rparr>) ev = (out, bl, b')"
    using assms by (simp add: add_event_chunk)
  then have "out = fst (drain b) @ [ev]" "parts b' = []"
    by (auto simp: add_chunk_def)
  moreover have "fst (drain b) = [] \<or> (\<exists>x. fst (drain b) = [x])" by (simp add: drain_def)
  ultimately show ?thesis by auto
qed

lemma nonblocking_out:
  assumes "run_ok b" "add_event b ev = (out, bl, b')" "\<not> bl" "e \<in> set out" "IsChunk (ev_Type e)"
  shows "IsChunk (ev_Type ev)"
  using assms
  by (cases rule: add_event_cases [where ev = ev and b = b])
    (auto simp: add_event_boundary add_event_terminal add_event_hold add_event_other
      split: if_splits)

subsection \<open>Lemmas: delivery\<close>

lemma send_blocking_fields [simp]:
  "chunks (send_blocking r e s) = chunks s" "tr_done (send_blocking r e s) = tr_done s"
  "discarded (send_blocking r e s) = discarded s" "flushTimer (send_blocking r e s) = flushTimer s"
  "\<not> tr_done s \<Longrightarrow> sent (send_blocking r e s) = sent s @ [e]"
  by (simp_all add: send_blocking_def)

lemma trySend_cases:
  "trySend r e s = (r, if r then s\<lparr>sent := sent s @ [e]\<rparr> else s)"
  by (simp add: trySend_def)

lemma unflush_fields [simp]:
  "tr_done (unflush e s) = tr_done s" "flushTimer (unflush e s) = flushTimer s"
  "sent (unflush e s) = sent s" "chunks (unflush e s) = snd (Unflush (chunks s) e)"
  "discarded (unflush e s) = discarded s + fst (Unflush (chunks s) e)"
  by (simp_all add: unflush_def split: prod.split)

lemma deliver_blocking:
  "\<not> tr_done s \<Longrightarrow> deliver room True i es s = (False, s\<lparr>sent := sent s @ es\<rparr>)"
  by (induction es arbitrary: i s) (simp_all add: send_blocking_def)

lemma Unflush_keeps_leading [simp]: "leading (snd (Unflush b e)) = leading b"
  by (simp add: Unflush_def Let_def)

lemma Unflush_lane [simp]:
  "toolIDs (snd (Unflush b e)) = toolIDs b" "toolSince (snd (Unflush b e)) = toolSince b"
  by (simp_all add: Unflush_def Let_def)

lemma Unflush_count:
  assumes "Enabled b" "run_ok b"
  shows "Pending (snd (Unflush b e)) + fst (Unflush b e) = Pending b + length (ev_Text e)"
proof -
  let ?t = "ev_Text e @ join (parts b)" and ?l = "growthFactor * maxBytes b"
  have "rune_cut ?t (length ?t - ?l) \<le> length ?t"
    using rune_cut_bounds [of "length ?t - ?l" ?t] by simp
  then show ?thesis
    using assms by (auto simp: Unflush_def Let_def Pending_def run_ok_def)
qed

lemma deliver_reach:
  assumes "buffer_reach (chunks s)" "\<forall>e\<in>set es. IsChunk (ev_Type e) \<longrightarrow> blocking \<or> \<not> leading (chunks s)"
  shows "buffer_reach (chunks (snd (deliver room blocking i es s)))"
  using assms
proof (induction es arbitrary: i s)
  case (Cons e es)
  have "buffer_reach (chunks (unflush e s))" if "\<not> blocking" "IsChunk (ev_Type e)"
    using Cons.prems that by (auto intro: reach_Unflush)
  with Cons show ?case by (auto simp: trySend_cases)
qed simp

definition text_total :: "transport \<Rightarrow> nat" where
  "text_total s = length (chunk_bytes (sent s)) + Pending (chunks s) + discarded s"

lemma deliver_count:
  assumes "buffer_ok (chunks s)" "Enabled (chunks s)" "\<not> tr_done s"
    "\<forall>e\<in>set es. IsChunk (ev_Type e) \<longrightarrow> blocking \<or> \<not> leading (chunks s)"
  shows "text_total (snd (deliver room blocking i es s)) = text_total s + length (chunk_bytes es)"
  using assms
proof (induction es arbitrary: i s)
  case (Cons e es)
  show ?case
  proof (cases "blocking \<or> IsControl (ev_Type e) \<or> room i \<or> \<not> IsChunk (ev_Type e)")
    case True
    have "text_total (s\<lparr>sent := sent s @ [e]\<rparr>) = text_total s + length (ev_bytes e)"
      by (simp add: text_total_def)
    with Cons True show ?thesis
      by (auto simp: trySend_cases send_blocking_def)
  next
    case False
    let ?s = "unflush e s"
    have ok: "buffer_ok (chunks ?s)" and en: "Enabled (chunks ?s)"
      using Cons.prems False by (auto simp: Unflush_ok Enabled_def Unflush_config)
    have "text_total ?s = text_total s + length (ev_bytes e)"
      using Unflush_count [OF Cons.prems(2), of e] Cons.prems(1) False
      by (simp add: text_total_def buffer_ok_def ev_bytes_def)
    with Cons.IH [OF ok en, of "Suc i"] Cons.prems False show ?thesis
      by (simp add: trySend_cases)
  qed
qed simp

lemma emit_arm_fields [simp]:
  "chunks (emit_arm dl s) = chunks s" "sent (emit_arm dl s) = sent s"
  "discarded (emit_arm dl s) = discarded s" "tr_done (emit_arm dl s) = tr_done s"
  by (simp_all add: emit_arm_def stopFlush_def armFlush_def split: option.split)

lemma armFlush_fields [simp]:
  "chunks (armFlush dl s) = chunks s" "sent (armFlush dl s) = sent s"
  "discarded (armFlush dl s) = discarded s" "tr_done (armFlush dl s) = tr_done s"
  "flushTimer (armFlush dl s) \<noteq> None"
  by (simp_all add: armFlush_def split: option.split)

lemma stamp_fields [simp]:
  "ev_Type (stamp now s ev) = ev_Type ev" "ev_Text (stamp now s ev) = ev_Text ev"
  "0 < now \<Longrightarrow> 0 \<le> ev_Timestamp ev \<Longrightarrow> 0 < ev_Timestamp (stamp now s ev)"
  by (auto simp: stamp_def Let_def IsZero_def)

lemma Add_back_guard:
  assumes "buffer_ok b" "Add b ev = ((out, dl, bl), b')" "Enabled b"
  shows "\<forall>e\<in>set out. IsChunk (ev_Type e) \<longrightarrow> bl \<or> \<not> leading b'"
proof -
  have add: "add_event b ev = (out, bl, b')" and run: "run_ok b"
    using assms by (auto simp: Add_def buffer_ok_def split: prod.splits)
  with nonblocking_out [OF run add] chunk_not_leading [OF _ add] show ?thesis by blast
qed

lemma Add_count:
  assumes "buffer_ok b" "Add b ev = ((out, dl, bl), b')"
  shows "length (chunk_bytes out) + Pending b' = Pending b + length (ev_bytes ev)"
proof -
  have "buf_n c = length (pending_bytes c)" if "buffer_ok c" for c
    using that by (simp add: buffer_ok_def run_ok_def pending_bytes_def)
  moreover have "buffer_ok b'" using Add_ok [OF assms(1), of ev] assms(2) by simp
  ultimately show ?thesis
    using arg_cong [OF Add_bytes [OF assms], of length] assms(1) by (simp add: Pending_def)
qed

lemma emit_locked_count:
  assumes "buffer_ok (chunks s)" "Enabled (chunks s)" "\<not> tr_done s"
  shows "text_total (snd (emit_locked now room ev s)) = text_total s + length (ev_bytes ev)"
proof -
  obtain out dl bl b where add: "Add (chunks s) ev = ((out, dl, bl), b)" by (metis surj_pair)
  let ?s = "s\<lparr>chunks := b\<rparr>"
  have "buffer_ok (chunks ?s)" "Enabled (chunks ?s)"
    using Add_ok [OF assms(1), of ev] Add_config(1) [of "chunks s" ev] assms(2) add
    by (simp_all add: Enabled_def)
  then have "text_total (snd (deliver room bl 0 out ?s)) = text_total ?s + length (chunk_bytes out)"
    using Add_back_guard [OF assms(1) add assms(2)] assms(3)
    by (intro deliver_count) auto
  moreover have "snd (emit_locked now room ev s) = snd (deliver room bl 0 out ?s)"
    by (simp add: emit_locked_def add split: prod.split)
  ultimately show ?thesis
    using Add_count [OF assms(1) add] by (simp add: text_total_def)
qed

lemma emit_locked_reach:
  assumes "buffer_reach (chunks s)"
  shows "buffer_reach (chunks (snd (emit_locked now room ev s)))"
proof -
  obtain out dl bl b where add: "Add (chunks s) ev = ((out, dl, bl), b)" by (metis surj_pair)
  have b: "buffer_reach b" using reach_Add [OF assms, of ev] add by simp
  have eq: "snd (emit_locked now room ev s) = snd (deliver room bl 0 out (s\<lparr>chunks := b\<rparr>))"
    by (simp add: emit_locked_def add split: prod.split)
  show ?thesis
  proof (cases "Enabled (chunks s)")
    case True
    with Add_back_guard [OF buffer_reach_ok [OF assms] add] b show ?thesis
      unfolding eq by (intro deliver_reach) auto
  next
    case False
    then have "b = chunks s" "out = [ev]" using add by (auto simp: Add_def)
    moreover have "Unflush (chunks s) ev = (0, chunks s)" using False by (simp add: Unflush_def)
    ultimately show ?thesis
      unfolding eq using b by (simp add: trySend_cases)
  qed
qed

subsection \<open>Lemmas: order\<close>

lemma Unflush_into_empty:
  assumes "Enabled b" "run_ok b" "parts b = []" "IsChunk (ev_Type e)" "fst (Unflush b e) = 0"
  shows "pending_bytes (snd (Unflush b e)) = ev_bytes e"
  using assms rune_cut_bounds [of "length (ev_Text e) - growthFactor * maxBytes b" "ev_Text e"]
  by (auto simp: Unflush_def Let_def pending_bytes_def ev_bytes_def run_ok_def split: if_splits)

lemma deliver_chunk_order:
  assumes "Enabled (chunks s)" "run_ok (chunks s)" "parts (chunks s) = []" "IsChunk (ev_Type e)"
    "discarded (snd (deliver room False i [e] s)) = discarded s" "\<not> IsControl (ev_Type e)"
  shows "chunk_bytes (sent (snd (deliver room False i [e] s))) @
      pending_bytes (chunks (snd (deliver room False i [e] s))) =
    chunk_bytes (sent s) @ ev_bytes e"
  using assms Unflush_into_empty [OF assms(1-4)] by (auto simp: trySend_cases)

lemma chunk_not_control: "IsChunk t \<Longrightarrow> \<not> IsControl t"
  by (auto simp: IsChunk_def IsControl_def)

lemma deliver_no_chunk:
  assumes "\<forall>x\<in>set es. \<not> IsChunk (ev_Type x)" "\<not> tr_done t"
  shows "chunk_bytes es = []" "chunks (snd (deliver room False i es t)) = chunks t"
    "chunk_bytes (sent (snd (deliver room False i es t))) = chunk_bytes (sent t)"
proof -
  have "chunk_bytes es = [] \<and> chunks (snd (deliver room False i es t)) = chunks t \<and>
    chunk_bytes (sent (snd (deliver room False i es t))) = chunk_bytes (sent t)"
    using assms by (induction es arbitrary: i t) (auto simp: trySend_cases)
  then show "chunk_bytes es = []" "chunks (snd (deliver room False i es t)) = chunks t"
    "chunk_bytes (sent (snd (deliver room False i es t))) = chunk_bytes (sent t)" by simp_all
qed

lemma emit_locked_order:
  assumes ok: "buffer_ok (chunks s)" and en: "Enabled (chunks s)" and nd: "\<not> tr_done s"
    and room: "room 0 \<or> length (fst (fst (Add (chunks s) ev))) \<le> 1"
    and s'_def: "s' = snd (emit_locked now room ev s)"
    and nodrop: "discarded s' = discarded s"
  shows "chunk_bytes (sent s') @ pending_bytes (chunks s') =
    chunk_bytes (sent s) @ pending_bytes (chunks s) @ ev_bytes ev"
proof -
  obtain out dl bl b where add: "Add (chunks s) ev = ((out, dl, bl), b)" by (metis surj_pair)
  let ?s = "s\<lparr>chunks := b\<rparr>"
  have s': "s' = snd (deliver room bl 0 out ?s)"
    by (simp add: s'_def emit_locked_def add split: prod.split)
  have b: "buffer_ok b" "Enabled b"
    using Add_ok [OF ok, of ev] Add_config(1) [of "chunks s" ev] en add by (simp_all add: Enabled_def)
  have ae: "add_event (chunks s) ev = (out, bl, b)"
    using add en by (auto simp: Add_def split: prod.splits)
  have run: "run_ok (chunks s)" "run_ok b" using ok b by (simp_all add: buffer_ok_def)
  note bytes = Add_bytes [OF ok add]
  show ?thesis
  proof (cases bl)
    case True
    with bytes nd show ?thesis by (simp add: s' deliver_blocking)
  next
    case False
    show ?thesis
    proof (cases "IsChunk (ev_Type ev)")
      case True
      have ch: "\<forall>x\<in>set out. IsChunk (ev_Type x)"
        using chunk_returns_chunks [OF run(1) en True ae] by blast
      from chunk_out_shape [OF run(1) True ae] show ?thesis
      proof (elim disjE conjE exE)
        assume "out = []"
        with bytes show ?thesis by (simp add: s')
      next
        fix x assume "parts b = []" "out = [x]"
        with deliver_chunk_order [of ?s x room 0] b run ch bytes False nodrop show ?thesis
          by (simp add: s' chunk_not_control)
      next
        fix x assume sh: "parts b = []" "out = [x, ev]"
        then have "room 0" using room add by simp
        then have two: "deliver room bl 0 out ?s = deliver room False 1 [ev] (?s\<lparr>sent := sent s @ [x]\<rparr>)"
          using sh ch False by (simp add: trySend_cases chunk_not_control)
        with deliver_chunk_order [of "?s\<lparr>sent := sent s @ [x]\<rparr>" ev room 1] sh b run ch bytes nodrop
        show ?thesis by (simp add: s' chunk_not_control)
      qed
    next
      case nchunk: False
      then have "\<forall>x\<in>set out. \<not> IsChunk (ev_Type x)"
        using nonblocking_out [OF run(1) ae False] by blast
      from deliver_no_chunk [OF this, where t = ?s] bytes nchunk nd False show ?thesis
        by (simp add: s')
    qed
  qed
qed

subsection \<open>Lemmas: the timer\<close>

lemma add_chunk_since:
  assumes "run_ok b" "add_chunk out0 b ev = (out, bl, b')" "parts b' \<noteq> []"
  shows "since b' = (if parts b = [] then ev_Timestamp ev else since b)"
  using assms by (auto simp: add_chunk_def extend_run_def drain_def run_ok_def Let_def split: if_splits)

lemma holdTool_since:
  "lane_ok b \<Longrightarrow> 0 < ev_Timestamp ev \<Longrightarrow> toolIDs b \<noteq> [] \<longrightarrow> 0 < toolSince b \<Longrightarrow>
   0 < toolSince (holdTool b ev)"
  by (cases "toolIDs b = []") (auto simp: holdTool_def lane_ok_def IsZero_def split: option.split)

lemma forgetTool_since:
  "toolIDs b \<noteq> [] \<longrightarrow> 0 < toolSince b \<Longrightarrow>
   toolIDs (forgetTool b i) \<noteq> [] \<longrightarrow> 0 < toolSince (forgetTool b i)"
  by (auto simp: forgetTool_def Let_def)

lemma add_event_times:
  assumes ok: "buffer_ok b" and t: "times_ok b" "0 < ev_Timestamp ev" and add: "add_event b ev = (out, bl, b')"
  shows "times_ok b'"
proof (cases rule: add_event_cases [where ev = ev and b = b])
  case boundary
  then show ?thesis using add by (auto simp: add_event_boundary times_ok_def)
next
  case terminal
  then show ?thesis
    using add t forgetTool_since [of b "ev_ToolID ev"]
    by (auto simp: add_event_terminal times_ok_def) (auto simp: takeTool_def split: option.splits)
next
  case hold
  have "0 < toolSince (holdTool b ev)"
    using ok t by (intro holdTool_since) (simp_all add: buffer_ok_def times_ok_def)
  with hold add t forgetTool_since [of "holdTool b ev" "ev_ToolID ev"] show ?thesis
    by (auto simp: add_event_hold times_ok_def split: if_splits)
next
  case other
  then show ?thesis using add t by (auto simp: add_event_other)
next
  case chunk
  have run: "run_ok b" using ok by (simp add: buffer_ok_def)
  have "parts b' \<noteq> [] \<longrightarrow> 0 < since b'"
    using chunk add t add_chunk_since [OF run, of "[]" ev out bl b']
      add_chunk_since [OF restart_ok [OF run], of "fst (drain b)" ev out bl b']
    by (auto simp: add_event_chunk times_ok_def split: if_splits)
  then show ?thesis
    using add_event_chunk_lane [OF chunk add] t by (simp add: times_ok_def)
qed

lemma Unflush_times:
  "times_ok b \<Longrightarrow> 0 < ev_Timestamp e \<Longrightarrow> times_ok (snd (Unflush b e))"
  by (auto simp: Unflush_def times_ok_def Let_def)

lemma deliver_times:
  assumes "times_ok (chunks s)"
    "\<forall>e\<in>set es. IsChunk (ev_Type e) \<and> \<not> blocking \<longrightarrow> 0 < ev_Timestamp e"
  shows "times_ok (chunks (snd (deliver room blocking i es s)))"
  using assms by (induction es arbitrary: i s) (auto simp: trySend_cases Unflush_times)

lemma deliver_timer [simp]:
  "flushTimer (snd (deliver room blocking i es s)) = flushTimer s"
  "tr_done (snd (deliver room blocking i es s)) = tr_done s"
  by (induction es arbitrary: i s) (auto simp: trySend_cases)

lemma deliver_not_back:
  "\<not> fst (deliver room blocking i es s) \<Longrightarrow> chunks (snd (deliver room blocking i es s)) = chunks s"
  by (induction es arbitrary: i s) (auto simp: trySend_cases split: if_splits)

lemma chunk_out_times:
  assumes "run_ok b" "times_ok b" "0 < ev_Timestamp ev" "IsChunk (ev_Type ev)"
    "add_event b ev = (out, bl, b')" "e \<in> set out"
  shows "0 < ev_Timestamp e"
proof -
  have d: "0 < ev_Timestamp x" if "x \<in> set (fst (drain b))" for x
    using that assms(2) by (auto simp: drain_def times_ok_def split: if_splits)
  have "0 < since (extend_run b ev)"
    using assms(2,3) by (auto simp: extend_run_def times_ok_def Let_def)
  with add_chunk_shape [OF assms(1), of "[]" ev out bl b'] assms(3-6) d show ?thesis
    by (cases "mergeable b ev") (auto simp: add_event_chunk add_chunk_def)
qed

lemma emit_locked_times:
  assumes "buffer_ok (chunks s)" "Enabled (chunks s)" "times_ok (chunks s)" "0 < ev_Timestamp ev"
    "0 < now" "emit_locked now room ev s = (dl, s1)"
  shows "times_ok (chunks s1)" "dl = 0 \<longrightarrow> idle (chunks s1)"
    "tr_done s1 = tr_done s" "flushTimer s1 = flushTimer s"
proof -
  obtain out d bl b where add: "Add (chunks s) ev = ((out, d, bl), b)" by (metis surj_pair)
  let ?r = "deliver room bl 0 out (s\<lparr>chunks := b\<rparr>)"
  have ae: "add_event (chunks s) ev = (out, bl, b)" and d: "d = deadline b"
    using add assms(2) by (auto simp: Add_def split: prod.splits)
  have run: "run_ok (chunks s)" using assms(1) by (simp add: buffer_ok_def)
  have tb: "times_ok b" using add_event_times [OF assms(1,3,4) ae] .
  have win: "0 < win b" using Add_config(1) [of "chunks s" ev] add assms(2) by (simp add: Enabled_def)
  have s1: "s1 = snd ?r" "dl = (if fst ?r then now + chunkRetryDelay else d)"
    using assms(6) by (auto simp: emit_locked_def add split: prod.splits if_splits)
  have "\<forall>e\<in>set out. IsChunk (ev_Type e) \<and> \<not> bl \<longrightarrow> 0 < ev_Timestamp e"
    using nonblocking_out [OF run ae] chunk_out_times [OF run assms(3,4) _ ae] by blast
  then show "times_ok (chunks s1)" unfolding s1 using tb by (intro deliver_times) auto
  show "dl = 0 \<longrightarrow> idle (chunks s1)"
    using s1 deadline_zero [OF tb win] deliver_not_back [of room bl 0 out "s\<lparr>chunks := b\<rparr>"] d assms(5)
    by (auto simp: chunkRetryDelay_def)
  show "tr_done s1 = tr_done s" "flushTimer s1 = flushTimer s" unfolding s1 by simp_all
qed

definition transport_ok :: "transport \<Rightarrow> bool" where
  "transport_ok s \<longleftrightarrow>
    buffer_reach (chunks s) \<and> Enabled (chunks s) \<and> times_ok (chunks s) \<and> armed s"

lemma emit_arm_armed:
  "dl = 0 \<longrightarrow> idle (chunks s) \<Longrightarrow> armed (emit_arm dl s)"
  by (auto simp: armed_def emit_arm_def IsZero_def stopFlush_def)

lemma deliver_win: "win (chunks (snd (deliver room blocking i es s))) = win (chunks s)"
  by (induction es arbitrary: i s) (auto simp: trySend_cases Unflush_config)

lemma emit_locked_win: "win (chunks (snd (emit_locked now room ev s))) = win (chunks s)"
proof -
  obtain out dl bl b where add: "Add (chunks s) ev = ((out, dl, bl), b)" by (metis surj_pair)
  have "snd (emit_locked now room ev s) = snd (deliver room bl 0 out (s\<lparr>chunks := b\<rparr>))"
    by (simp add: emit_locked_def add split: prod.split)
  then show ?thesis using Add_config(1) [of "chunks s" ev] add by (simp add: deliver_win)
qed

lemma Emit_ok:
  assumes "transport_ok s" "0 < now" "0 \<le> ev_Timestamp ev"
  shows "transport_ok (Emit now room ev s)"
proof (cases "closed s")
  case False
  obtain dl s1 where e: "emit_locked now room (stamp now s ev) s = (dl, s1)" by fastforce
  have s: "buffer_reach (chunks s)" "Enabled (chunks s)" "times_ok (chunks s)"
    using assms(1) by (simp_all add: transport_ok_def)
  note times = emit_locked_times [OF buffer_reach_ok [OF s(1)] s(2,3) _ assms(2) e]
  have "buffer_reach (chunks s1)" "Enabled (chunks s1)"
    using emit_locked_reach [OF s(1), of now room "stamp now s ev"] s(2) e
      emit_locked_win [of now room "stamp now s ev" s] by (simp_all add: Enabled_def)
  then show ?thesis
    using False times assms e by (simp add: Emit_def transport_ok_def emit_arm_armed)
qed (use assms in \<open>simp add: Emit_def\<close>)

lemma send_tools_fields [simp]:
  "chunks (send_tools room i ts s) = chunks s" "flushTimer (send_tools room i ts s) = flushTimer s"
  "tr_done (send_tools room i ts s) = tr_done s" "discarded (send_tools room i ts s) = discarded s"
  "\<not> tr_done s \<Longrightarrow> sent (send_tools room i ts s) = sent s @ ts"
  by (induction ts arbitrary: i s) simp_all

lemma Drain_cases:
  "Drain b = (if parts b = [] then (None, b) else (Some (hd (fst (drain b))), snd (drain b)))"
  by (auto simp: Drain_def drain_def)

lemma flush_run_fields [simp]:
  "tr_done (snd (flush_run r s)) = tr_done s" "flushTimer (snd (flush_run r s)) = flushTimer s"
  by (auto simp: flush_run_def Drain_cases trySend_cases split: if_splits)

lemma flush_run_ok:
  assumes "transport_ok s" "flush_run r s = (retry, s1)"
  shows "buffer_reach (chunks s1)" "Enabled (chunks s1)" "times_ok (chunks s1)"
    "retry \<or> parts (chunks s1) = []"
proof -
  let ?b = "chunks s"
  have ok: "buffer_reach ?b" "Enabled ?b" "times_ok ?b" "run_ok ?b"
    using assms(1) buffer_reach_ok [of ?b] by (simp_all add: transport_ok_def buffer_ok_def)
  have rd: "buffer_reach (snd (drain ?b))" "Enabled (snd (drain ?b))" "times_ok (snd (drain ?b))"
    using reach_Drain [OF ok(1)] ok by (simp_all add: Drain_snd Enabled_def times_ok_def)
  show "buffer_reach (chunks s1)"
    using assms(2) ok rd(1)
    by (auto simp: flush_run_def Drain_cases trySend_cases run_ok_def drain_def
      intro!: reach_Unflush split: if_splits)
  show "Enabled (chunks s1)"
    using assms(2) ok rd(2)
    by (auto simp: flush_run_def Drain_cases trySend_cases Enabled_def Unflush_config split: if_splits)
  have "parts ?b \<noteq> [] \<longrightarrow> 0 < ev_Timestamp (hd (fst (drain ?b)))"
    using ok(3) by (simp add: drain_def times_ok_def)
  then show "times_ok (chunks s1)"
    using assms(2) ok(3) rd(3)
    by (auto simp: flush_run_def Drain_cases trySend_cases intro!: Unflush_times split: if_splits)
  show "retry \<or> parts (chunks s1) = []"
    using assms(2)
    by (auto simp: flush_run_def Drain_cases trySend_cases drain_def split: if_splits)
qed

lemma onFlushTimer_ok:
  assumes "transport_ok s"
  shows "transport_ok (onFlushTimer now room s)"
proof (cases "tr_done s")
  case True
  with assms show ?thesis by (simp add: onFlushTimer_def transport_ok_def armed_def)
next
  case False
  obtain retry s1 where f: "flush_run (room 0) (s\<lparr>flushTimer := None\<rparr>) = (retry, s1)" by fastforce
  obtain ts b where d: "DrainTools (chunks s1) = (ts, b)" by fastforce
  have "flush_run (room 0) s = (retry, s1\<lparr>flushTimer := flushTimer s\<rparr>)"
    using f by (auto simp: flush_run_def Drain_cases trySend_cases unflush_def split: if_splits prod.splits)
  from flush_run_ok [OF assms this] have s1: "buffer_reach (chunks s1)" "Enabled (chunks s1)"
    "times_ok (chunks s1)" "retry \<or> parts (chunks s1) = []" by simp_all
  have b: "buffer_reach b" "Enabled b" "times_ok b" "toolIDs b = []" "retry \<or> parts b = []"
    using reach_DrainTools [OF s1(1)] s1 d drainTools_fields [of "chunks s1"]
    by (auto simp: DrainTools_def Enabled_def times_ok_def)
  show ?thesis
    using b False by (auto simp: onFlushTimer_def f d transport_ok_def armed_def idle_def Let_def)
qed

lemma transport_reach_ok: "transport_reach s \<Longrightarrow> transport_ok s"
proof (induction rule: transport_reach.induct)
  case (init w lid aid mx opts)
  then show ?case
    by (simp add: new_transport_def transport_ok_def reach_New Enabled_def times_ok_def armed_def idle_def)
next
  case (close s)
  then show ?case by (simp add: transport_ok_def armed_def)
qed (simp_all add: Emit_ok onFlushTimer_ok)

lemma flush_run_count:
  assumes "buffer_ok (chunks s)" "Enabled (chunks s)"
  shows "text_total (snd (flush_run r s)) = text_total s"
proof -
  let ?b = "chunks s" and ?e = "hd (fst (drain (chunks s)))"
  have run: "run_ok ?b" "run_ok (snd (drain ?b))" "Enabled (snd (drain ?b))"
    using assms drain_run_ok by (simp_all add: buffer_ok_def Enabled_def)
  have e: "parts ?b \<noteq> [] \<Longrightarrow> length (ev_bytes ?e) = Pending ?b \<and> length (ev_Text ?e) = Pending ?b"
    using run(1) by (simp add: drain_def run_ok_def Pending_def)
  have z: "Pending (snd (drain ?b)) = 0" using run by (simp add: drain_pending Pending_def)
  show ?thesis
    using Unflush_count [OF run(3,2), of ?e] e z
    by (auto simp: flush_run_def Drain_cases trySend_cases text_total_def)
qed

subsection \<open>Properties\<close>

definition always :: "nat \<Rightarrow> bool" where "always i = True"
definition never :: "nat \<Rightarrow> bool" where "never i = False"

text \<open>The transport of the examples: a thought is on the wire, its continuation is pending.\<close>

definition ex_transport :: transport where
  "ex_transport =
    Emit 10 always (ex_chunk TypeThoughtChunk ''b'')
      (Emit 9 always (ex_chunk TypeThoughtChunk ''a'') (new_transport ''s'' ''n'' 80 64 [WithToolLane]))"

lemma ex_transport_reach: "transport_reach ex_transport"
  unfolding ex_transport_def
  by (intro transport_reach.intros) (simp_all add: ex_chunk_def)

lemma ex_transport_open: "\<not> closed ex_transport" "\<not> tr_done ex_transport"
  by code_simp+

text \<open>Backpressure never loses streamed text silently. Whatever the channel's free slots, every
  byte of a chunk given to \<open>Emit\<close> is afterwards on the channel, pending in the buffer or
  counted in the growth guard's report; and a timed flush changes none of those totals' sum.\<close>

theorem Emit_keeps_every_byte:
  assumes "transport_reach s" "\<not> closed s" "\<not> tr_done s"
  shows "text_total (Emit now room ev s) =
      text_total s + (if IsChunk (ev_Type ev) then length (ev_Text ev) else 0)
    \<and> text_total (onFlushTimer now room s) = text_total s"
proof
  have ok: "buffer_ok (chunks s)" "Enabled (chunks s)"
    using transport_reach_ok [OF assms(1)] buffer_reach_ok by (auto simp: transport_ok_def)
  obtain dl s1 where e: "emit_locked now room (stamp now s ev) s = (dl, s1)" by fastforce
  have "text_total (emit_arm dl s1) = text_total s1" by (simp add: text_total_def)
  then show "text_total (Emit now room ev s) =
      text_total s + (if IsChunk (ev_Type ev) then length (ev_Text ev) else 0)"
    using emit_locked_count [OF ok assms(3), of now room "stamp now s ev"] e assms(2)
    by (simp add: Emit_def ev_bytes_def)
  let ?s = "s\<lparr>flushTimer := None\<rparr>"
  obtain retry s2 where f: "flush_run (room 0) ?s = (retry, s2)" by fastforce
  have s2: "text_total s2 = text_total s" "lane_ok (chunks s2)" "\<not> tr_done s2"
    using flush_run_count [of ?s "room 0"] ok f flush_run_fields(1) [of "room 0" ?s] assms(3)
    by (auto simp: text_total_def flush_run_def Drain_cases trySend_cases buffer_ok_def lane_ok_def
      unflush_def Unflush_def Let_def split: if_splits)
  with assms(3) show "text_total (onFlushTimer now room s) = text_total s"
    by (auto simp: onFlushTimer_def f text_total_def DrainTools_def Let_def drainTools_bytes
      Pending_def split_beta)
qed

theorem Emit_keeps_every_byte_witness:
  "text_total (Emit 11 never (ex_chunk TypeAssistantChunk ''c'') ex_transport) = 3"
proof -
  have "text_total ex_transport = 2" by code_simp
  with Emit_keeps_every_byte [OF ex_transport_reach ex_transport_open, of 11 never
      "ex_chunk TypeAssistantChunk ''c''"]
  show ?thesis by (simp add: ex_chunk_def IsChunk_def)
qed

text \<open>Emission keeps order and attribution as long as the growth guard stays silent and the
  channel has a slot for the run that a switch of run flushes: what is on the channel followed by
  what is pending grows by exactly the new event's labelled bytes.\<close>

theorem Emit_keeps_order:
  assumes "transport_reach s" "\<not> closed s" "\<not> tr_done s"
    and "room 0 \<or> length (fst (fst (Add (chunks s) (stamp now s ev)))) \<le> 1"
    and "discarded (Emit now room ev s) = discarded s"
  shows "chunk_bytes (sent (Emit now room ev s)) @ pending_bytes (chunks (Emit now room ev s)) =
    chunk_bytes (sent s) @ pending_bytes (chunks s) @ ev_bytes (stamp now s ev)"
proof -
  have ok: "buffer_ok (chunks s)" "Enabled (chunks s)"
    using transport_reach_ok [OF assms(1)] buffer_reach_ok by (auto simp: transport_ok_def)
  obtain dl s1 where e: "emit_locked now room (stamp now s ev) s = (dl, s1)" by fastforce
  then have "discarded s1 = discarded s" "s1 = snd (emit_locked now room (stamp now s ev) s)"
    using assms(2,5) by (simp_all add: Emit_def)
  from emit_locked_order [OF ok assms(3,4) this(2,1)] show ?thesis
    using assms(2) e by (simp add: Emit_def)
qed

theorem Emit_keeps_order_witness:
  "chunk_bytes (sent (Emit 11 always (ex_chunk TypeAssistantChunk ''c'') ex_transport)) @
     pending_bytes (chunks (Emit 11 always (ex_chunk TypeAssistantChunk ''c'') ex_transport)) =
   chunk_bytes (sent ex_transport) @ pending_bytes (chunks ex_transport) @
     ev_bytes (stamp 11 ex_transport (ex_chunk TypeAssistantChunk ''c''))"
  by (rule Emit_keeps_order [OF ex_transport_reach ex_transport_open]) (simp add: always_def, code_simp)

text \<open>When that slot is missing the order does break. A thought's tail is pending and a reply
  chunk arrives while the channel is full: both are handed back, the second in front of the
  first, so the next flush sends the reply's text ahead of the thought's, as thought text. With
  a slot freed in between, the reply is sent before the thought that preceded it.\<close>

theorem Emit_reorders_across_runs:
  "map (\<lambda>e. (ev_Type e, ev_Text e))
      (sent (onFlushTimer 12 always (Emit 11 never (ex_chunk TypeAssistantChunk ''c'') ex_transport)))
     = [(TypeThoughtChunk, ''a''), (TypeThoughtChunk, ''cb'')]
   \<and> map (\<lambda>e. (ev_Type e, ev_Text e))
      (sent (onFlushTimer 12 always
        (Emit 11 (\<lambda>i. i = 1) (ex_chunk TypeAssistantChunk ''c'') ex_transport)))
     = [(TypeThoughtChunk, ''a''), (TypeAssistantChunk, ''c''), (TypeThoughtChunk, ''b'')]"
  by code_simp



text \<open>The ACP transport enables the tool lane but its timer does not drain it: a firing leaves
  every held tool update where it was, sends no tool update, and re-arms only for text. A tool
  that goes quiet keeps its last progress hidden until a boundary or a terminal update.\<close>

theorem acp_timer_never_flushes_tools:
  assumes "buffer_reach (chunks s)" "room 0"
  shows "toolIDs (chunks (acp_onFlushTimer now room s)) = toolIDs (chunks s)
    \<and> (\<forall>i. held_text (chunks (acp_onFlushTimer now room s)) i = held_text (chunks s) i)
    \<and> (\<forall>i. tool_text i (sent (acp_onFlushTimer now room s)) = tool_text i (sent s))
    \<and> flushTimer (acp_onFlushTimer now room s) = None"
proof (cases "tr_done s")
  case True
  then show ?thesis by (simp add: acp_onFlushTimer_def held_text_def)
next
  case False
  have run: "run_ok (chunks s)"
    using buffer_reach_ok [OF assms(1)] by (simp add: buffer_ok_def)
  have f: "flush_run (room 0) (s\<lparr>flushTimer := None\<rparr>) =
    (False, s\<lparr>flushTimer := None, chunks := snd (drain (chunks s)),
       sent := sent s @ fst (drain (chunks s))\<rparr>)"
    using assms(2) by (simp add: flush_run_def Drain_cases trySend_cases drain_def)
  show ?thesis using False run by (simp add: acp_onFlushTimer_def f)
qed

theorem acp_timer_never_flushes_tools_witness:
  "let s = Emit 11 always (ex_tool ''running'' ''50%'') ex_transport;
       s' = acp_onFlushTimer 200 always s
   in toolIDs (chunks s') = [''t''] \<and> held_text (chunks s') ''t'' = ''50%''
      \<and> tool_text ''t'' (sent s') = [] \<and> flushTimer s' = None"
proof -
  let ?s = "Emit 11 always (ex_tool ''running'' ''50%'') ex_transport"
  have "transport_reach ?s"
    by (intro transport_reach.emit ex_transport_reach) (simp_all add: ex_tool_def)
  then have "buffer_reach (chunks ?s)" using transport_reach_ok by (simp add: transport_ok_def)
  from acp_timer_never_flushes_tools [OF this, of always 200]
  have "toolIDs (chunks (acp_onFlushTimer 200 always ?s)) = toolIDs (chunks ?s)"
    "held_text (chunks (acp_onFlushTimer 200 always ?s)) ''t'' = held_text (chunks ?s) ''t''"
    "tool_text ''t'' (sent (acp_onFlushTimer 200 always ?s)) = tool_text ''t'' (sent ?s)"
    "flushTimer (acp_onFlushTimer 200 always ?s) = None" by (simp_all add: always_def)
  moreover have "toolIDs (chunks ?s) = [''t'']" "held_text (chunks ?s) ''t'' = ''50%''"
    "tool_text ''t'' (sent ?s) = []" by code_simp+
  ultimately show ?thesis by (simp add: Let_def)
qed

text \<open>\<open>Emit\<close> arms or stops the timer after it has released the delivery lock, on the
  deadline it read before. If another emission runs in between, the stop is stale: a boundary
  event that found nothing pending cancels the timer of the text that arrived meanwhile, which
  then stays pending with no timer.\<close>

theorem stale_stop_cancels_timer:
  "\<exists>s. transport_reach s \<and>
    (let (dl, s1) = emit_locked 11 always (zero_event\<lparr>ev_Type := TypeSessionStatus, ev_Timestamp := 11\<rparr>) s;
         s2 = Emit 12 always (ex_chunk TypeAssistantChunk ''x'') s1;
         s3 = Emit 13 always (ex_chunk TypeAssistantChunk ''yz'') s2;
         s4 = emit_arm dl s3
     in Pending (chunks s4) = 2 \<and> flushTimer s3 = Some 85 \<and> flushTimer s4 = None)"
proof (intro exI conjI)
  show "transport_reach (new_transport ''s'' ''n'' 80 64 [])" by (rule transport_reach.init) simp
qed code_simp

end
