(* ===== verification/StderrTail.thy ===== *)
theory StderrTail
  imports ToolOutput "HOL-Library.Sublist"
begin

text \<open>
  The end of an agent's standard error: \<open>internal/provider/stderrtail\<close>, the writer that keeps the last
  lines within two caps, the values it treats as secrets and their removal.

  The buffer is a string; the caps are arguments, as they are fields of the writer. \<open>strings.ToUpper\<close>
  and \<open>strings.EqualFold\<close> are the arguments \<open>up\<close> and \<open>same\<close>: they only select names.
\<close>

subsection \<open>The writer\<close>

definition DefaultBytes :: nat where "DefaultBytes = 4096"
definition DefaultLines :: nat where "DefaultLines = 64"

text \<open>\<open>bytes.IndexByte\<close>, none for -1.\<close>

fun IndexByte :: "char \<Rightarrow> string \<Rightarrow> nat option" where
  "IndexByte d [] = None"
| "IndexByte d (c # s) = (if c = d then Some 0 else map_option Suc (IndexByte d s))"

definition line_count :: "string \<Rightarrow> nat" where
  "line_count buf = count_list buf newline + (if buf \<noteq> [] \<and> last buf \<noteq> newline then 1 else 0)"

definition drop_line :: "string \<Rightarrow> string" where
  "drop_line buf = (case IndexByte newline buf of Some i \<Rightarrow> drop (Suc i) buf | None \<Rightarrow> buf)"

fun drop_lines :: "nat \<Rightarrow> string \<Rightarrow> string" where
  "drop_lines 0 buf = buf"
| "drop_lines (Suc k) buf = drop_lines k (drop_line buf)"

definition cap_bytes :: "nat \<Rightarrow> string \<Rightarrow> string" where
  "cap_bytes n buf =
    (if length buf \<le> n then buf
     else
       (let k = length buf - n;
            midLine = (buf ! (k - 1) \<noteq> newline);
            b = drop k buf
        in if midLine then
             (case IndexByte newline b of
                Some i \<Rightarrow> if i < length b - 1 then drop (Suc i) b else dropWhile (\<lambda>c. \<not> RuneStart c) b
              | None \<Rightarrow> dropWhile (\<lambda>c. \<not> RuneStart c) b)
           else b))"

definition trim_tail :: "nat \<Rightarrow> nat \<Rightarrow> string \<Rightarrow> string" where
  "trim_tail nbytes nlines buf = cap_bytes nbytes (drop_lines (line_count buf - nlines) buf)"

definition Write_tail :: "nat \<Rightarrow> nat \<Rightarrow> string \<Rightarrow> string \<Rightarrow> string" where
  "Write_tail nbytes nlines p buf =
    trim_tail nbytes nlines (buf @ (if nbytes + 1 < length p then drop (length p - nbytes - 1) p else p))"

definition Tail :: "string \<Rightarrow> string" where
  "Tail buf = TrimRight_set [CHR 0x0D, CHR 0x0A] buf"

text \<open>What the writer holds after some writes.\<close>

definition tail_after :: "nat \<Rightarrow> nat \<Rightarrow> string list \<Rightarrow> string" where
  "tail_after nbytes nlines ps = fold (Write_tail nbytes nlines) ps []"

subsection \<open>Secrets\<close>

definition minSecret :: nat where "minSecret = 8"

definition credentialSuffixes :: "string list" where
  "credentialSuffixes = [''_API_KEY'', ''_TOKEN'', ''_SECRET'', ''_PASSWORD'']"

definition credentialName :: "(string \<Rightarrow> string) \<Rightarrow> string \<Rightarrow> bool" where
  "credentialName up name = list_ex (\<lambda>s. suffix s (up name)) credentialSuffixes"

text \<open>\<open>strings.Cut\<close> at a byte.\<close>

definition Cut_at :: "char \<Rightarrow> string \<Rightarrow> (string \<times> string) option" where
  "Cut_at d s = map_option (\<lambda>i. (take i s, drop (Suc i) s)) (IndexByte d s)"

definition add_secret :: "string \<Rightarrow> string list \<Rightarrow> string list" where
  "add_secret v out = (if minSecret \<le> length v \<and> v \<notin> set out then out @ [v] else out)"

definition env_secret :: "(string \<Rightarrow> string) \<Rightarrow> (string \<Rightarrow> string \<Rightarrow> bool) \<Rightarrow> string list \<Rightarrow> string \<Rightarrow> string list \<Rightarrow> string list" where
  "env_secret up same names kv out =
    (case Cut_at (CHR ''='') kv of
       None \<Rightarrow> out
     | Some (name, val) \<Rightarrow>
         if name = [] then out
         else if credentialName up name \<or> list_ex (\<lambda>n. same n name) names then add_secret val out else out)"

text \<open>\<open>slices.SortStableFunc\<close> by descending length.\<close>

definition Secrets :: "(string \<Rightarrow> string) \<Rightarrow> (string \<Rightarrow> string \<Rightarrow> bool) \<Rightarrow> string list \<Rightarrow> string list \<Rightarrow> string list \<Rightarrow> string list" where
  "Secrets up same env names vals =
    sort_key (\<lambda>s. - int (length s)) (fold add_secret vals (fold (env_secret up same names) env []))"

subsection \<open>Scrubbing\<close>

definition Redacted :: string where "Redacted = ''<redacted>''"

text \<open>\<open>strings.ReplaceAll\<close> for a pattern that is not empty.\<close>

function ReplaceAll :: "string \<Rightarrow> string \<Rightarrow> string \<Rightarrow> string" where
  "ReplaceAll [] old new = []"
| "ReplaceAll (c # s) old new =
    (if old \<noteq> [] \<and> prefix old (c # s) then new @ ReplaceAll (drop (length old) (c # s)) old new
     else c # ReplaceAll s old new)"
  by pat_completeness auto
termination
  by (relation "measure (\<lambda>(s, _). length s)") (auto simp: neq_Nil_conv)

definition json_hex :: "nat \<Rightarrow> char" where
  "json_hex n = ''0123456789abcdef'' ! n"

definition json_byte :: "char \<Rightarrow> string" where
  "json_byte c =
    (let n = byte_of c in
     if n = 34 \<or> n = 92 then [CHR 0x5C, c]
     else if n = 8 then [CHR 0x5C, CHR ''b''] else if n = 12 then [CHR 0x5C, CHR ''f'']
     else if n = 10 then [CHR 0x5C, CHR ''n''] else if n = 13 then [CHR 0x5C, CHR ''r''] else if n = 9 then [CHR 0x5C, CHR ''t'']
     else if n < 32 then [CHR 0x5C, CHR ''u'', CHR ''0'', CHR ''0'', json_hex (n div 16), json_hex (n mod 16)]
     else [c])"

text \<open>The contents of a JSON string as \<open>encoding/json\<close> writes it without HTML escaping: control characters,
  quotes and backslashes are escaped, as are the two line separators; a byte that starts no valid
  rune becomes the replacement character's escape.\<close>

definition json_rune :: "string \<Rightarrow> string" where
  "json_rune r = (if r = [CHR 0xE2, CHR 0x80, CHR 0xA8] then CHR 0x5C # ''u2028''
     else if r = [CHR 0xE2, CHR 0x80, CHR 0xA9] then CHR 0x5C # ''u2029'' else r)"

fun jsonForm :: "string \<Rightarrow> string" where
  "jsonForm [] = []"
| "jsonForm (c # s) =
    (if byte_of c < 128 then json_byte c @ jsonForm s
     else
       (let n = rune_len c - 1
        in if rune_len c \<noteq> 0 \<and> n \<le> length s \<and> rune_rest c (take n s) then json_rune (c # take n s) @ jsonForm (drop n s)
           else CHR 0x5C # ''ufffd'' @ jsonForm s))"

declare jsonForm.simps(2) [simp del]

definition scrub_one :: "string \<Rightarrow> string \<Rightarrow> string" where
  "scrub_one s tail_text =
    (if length s < minSecret then tail_text
     else
       (let t = ReplaceAll tail_text s Redacted
        in if jsonForm s \<noteq> s then ReplaceAll t (jsonForm s) Redacted else t))"

definition Scrub :: "string \<Rightarrow> string list \<Rightarrow> string" where
  "Scrub tail_text secrets = fold scrub_one secrets tail_text"

definition Separator :: string where "Separator = newline # ''last stderr:'' @ [newline]"

definition Message :: "string \<Rightarrow> string \<Rightarrow> string" where
  "Message headline tail_text = (if tail_text = [] then headline else headline @ Separator @ tail_text)"

subsection \<open>Lemmas: lines\<close>




lemma IndexByte_None: "IndexByte d s = None \<longleftrightarrow> d \<notin> set s"
  by (induction s) auto












subsection \<open>Lemmas: the caps\<close>






















subsection \<open>Lemmas: replacing\<close>

definition unmarked :: "string \<Rightarrow> bool" where
  "unmarked s \<longleftrightarrow> CHR ''<'' \<notin> set s \<and> CHR ''>'' \<notin> set s"

lemma unmarked_append [simp]: "unmarked (a @ b) \<longleftrightarrow> unmarked a \<and> unmarked b" "unmarked (c # a) \<longleftrightarrow> c \<noteq> CHR ''<'' \<and> c \<noteq> CHR ''>'' \<and> unmarked a" "unmarked []"
  by (auto simp: unmarked_def)

lemma prefix_Redacted: "unmarked s \<Longrightarrow> prefix s (Redacted @ rest) \<Longrightarrow> s = []"
  by (cases s) (auto simp: Redacted_def)

lemma suffix_last: "suffix s t \<Longrightarrow> s \<noteq> [] \<Longrightarrow> last t \<in> set s"
  by (auto simp: suffix_def)

lemma sublist_single: "sublist s [x] \<Longrightarrow> s \<noteq> [] \<Longrightarrow> x \<in> set s"
  using set_mono_sublist [of s "[x]"] by (cases s) auto

lemma suffix_Redacted: "unmarked s \<Longrightarrow> suffix s Redacted \<Longrightarrow> s = []"
  using suffix_last [of s Redacted] by (auto simp: Redacted_def unmarked_def)

text \<open>An occurrence without the marker's brackets lies inside the marker's word or after it.\<close>

lemma sublist_Redacted:
  assumes "unmarked s" "sublist s (Redacted @ rest)" "s \<noteq> []"
  shows "sublist s ''redacted'' \<or> sublist s rest"
proof -
  consider "sublist s Redacted" | "sublist s rest" | s1 s2 where "s = s1 @ s2" "suffix s1 Redacted" "prefix s2 rest"
    using assms(2) by (auto simp: sublist_append)
  then show ?thesis
  proof cases
    case 1
    have "Redacted = ''<'' @ ''redacted'' @ ''>''" by (simp add: Redacted_def)
    then consider "sublist s ''<''" | "sublist s (''redacted'' @ ''>'')" | s1 s2 where "s = s1 @ s2" "suffix s1 ''<''" "prefix s2 (''redacted'' @ ''>'')"
      using 1 sublist_append [of s "''<''"] by metis
    then show ?thesis
    proof cases
      case 1
      then show ?thesis using assms(1,3) sublist_single [of s] by (auto simp: unmarked_def)
    next
      case 2
      then consider "sublist s ''redacted''" | "sublist s ''>''" | s1 s2 where "s = s1 @ s2" "suffix s1 ''redacted''" "prefix s2 ''>''"
        using sublist_append [of s "''redacted''"] by metis
      then show ?thesis
      proof cases
        case 2
        then show ?thesis using assms(1,3) sublist_single [of s] by (auto simp: unmarked_def)
      next
        case (3 s1 s2)
        then have "s2 = []" using assms(1) by (cases s2) auto
        then show ?thesis using 3 suffix_imp_sublist by auto
      qed simp
    next
      case (3 s1 s2)
      then have "s1 = []" using assms(1) suffix_last [OF 3(2)] by (auto simp: unmarked_def)
      then have "prefix s (''redacted'' @ ''>'')" using 3 by simp
      then have "prefix s ''redacted''"
        using assms(1) by (auto simp: prefix_append prefix_Cons)
      then show ?thesis by simp
    qed
  next
    case (3 s1 s2)
    then have "s1 = []" using suffix_Redacted assms(1) by auto
    then show ?thesis using 3 prefix_imp_sublist by auto
  qed simp
qed

lemma prefix_ReplaceAll: "unmarked s \<Longrightarrow> prefix s (ReplaceAll t old Redacted) \<Longrightarrow> prefix s t"
proof (induction t old Redacted arbitrary: s rule: ReplaceAll.induct)
  case (2 c t old)
  show ?case
  proof (cases "old \<noteq> [] \<and> prefix old (c # t)")
    case True
    then have "s = []" using 2(3,4) prefix_Redacted [OF 2(3)] by simp
    then show ?thesis by simp
  next
    case False
    then show ?thesis using 2(2) [OF False] 2(3,4) by (cases s) auto
  qed
qed simp

lemma sublist_ReplaceAll:
  "unmarked s \<Longrightarrow> s \<noteq> [] \<Longrightarrow> \<not> sublist s ''redacted'' \<Longrightarrow> sublist s (ReplaceAll t old Redacted) \<Longrightarrow> sublist s t"
proof (induction t old Redacted rule: ReplaceAll.induct)
  case (2 c t old)
  show ?case
  proof (cases "old \<noteq> [] \<and> prefix old (c # t)")
    case True
    then have "sublist s (ReplaceAll (drop (length old) (c # t)) old Redacted)" using 2(3-6) sublist_Redacted [of s] by auto
    then have "sublist s (drop (length old) (c # t))" using 2(1) [OF True] 2(3-5) by blast
    then show ?thesis by (meson sublist_drop sublist_order.order.trans)
  next
    case False
    then show ?thesis using 2(2) [OF False] 2(3-6) prefix_ReplaceAll [OF 2(3), of "c # t" old] by (auto simp: sublist_Cons_right)
  qed
qed simp

lemma ReplaceAll_gone:
  "unmarked old \<Longrightarrow> old \<noteq> [] \<Longrightarrow> \<not> sublist old ''redacted'' \<Longrightarrow> \<not> sublist old (ReplaceAll t old Redacted)"
proof (induction t old Redacted rule: ReplaceAll.induct)
  case (2 c t old)
  show ?case
  proof (cases "old \<noteq> [] \<and> prefix old (c # t)")
    case True
    then show ?thesis using 2(1) [OF True] 2(3-5) sublist_Redacted [of old] by auto
  next
    case False
    then have "\<not> prefix old (ReplaceAll (c # t) old Redacted)" using prefix_ReplaceAll [OF 2(3)] 2(4) by blast
    then show ?thesis using 2(2) [OF False] 2(3-5) False by (auto simp: sublist_Cons_right)
  qed
qed (simp add: sublist_def)

lemma json_nonempty: "json_byte c \<noteq> []" "r \<noteq> [] \<Longrightarrow> json_rune r \<noteq> []"
  by (simp_all add: json_byte_def json_rune_def Let_def)

lemma jsonForm_Nil: "jsonForm s = [] \<longleftrightarrow> s = []"
proof (cases s)
  case (Cons c cs)
  have "jsonForm (c # cs) \<noteq> []" by (simp add: jsonForm.simps(2) json_nonempty Let_def)
  then show ?thesis using Cons by simp
qed simp

lemma scrub_one_old:
  assumes "unmarked x" "x \<noteq> []" "\<not> sublist x ''redacted''" "sublist x (scrub_one s t)"
  shows "sublist x t"
proof -
  consider "scrub_one s t = t" | "scrub_one s t = ReplaceAll t s Redacted" | "scrub_one s t = ReplaceAll (ReplaceAll t s Redacted) (jsonForm s) Redacted"
    unfolding scrub_one_def Let_def by metis
  then show ?thesis using assms(4) sublist_ReplaceAll [OF assms(1-3)] by cases metis+
qed

lemma scrub_one_gone:
  assumes "minSecret \<le> length s" "unmarked s" "\<not> sublist s ''redacted''" "unmarked (jsonForm s)" "\<not> sublist (jsonForm s) ''redacted''"
  shows "\<not> sublist s (scrub_one s t)" "\<not> sublist (jsonForm s) (scrub_one s t)"
proof -
  have ne: "s \<noteq> []" using assms(1) by (auto simp: minSecret_def)
  note gone = ReplaceAll_gone [OF assms(2) ne assms(3)] and old = sublist_ReplaceAll [OF assms(2) ne assms(3)]
  show "\<not> sublist s (scrub_one s t)" using gone old assms(1) by (auto simp: scrub_one_def Let_def)
  show "\<not> sublist (jsonForm s) (scrub_one s t)"
    using gone ReplaceAll_gone [OF assms(4) _ assms(5)] ne assms(1) by (auto simp: scrub_one_def Let_def jsonForm_Nil)
qed

subsection \<open>Lemmas: which values are secrets\<close>

definition env_names :: "(string \<Rightarrow> string) \<Rightarrow> (string \<Rightarrow> string \<Rightarrow> bool) \<Rightarrow> string list \<Rightarrow> string list \<Rightarrow> string \<Rightarrow> bool" where
  "env_names up same env names v \<longleftrightarrow>
    (\<exists>kv \<in> set env. \<exists>name. Cut_at (CHR ''='') kv = Some (name, v) \<and> name \<noteq> [] \<and> (credentialName up name \<or> (\<exists>n \<in> set names. same n name)))"

lemma add_secret_set: "set (add_secret v out) = set out \<union> (if minSecret \<le> length v then {v} else {})" "distinct out \<Longrightarrow> distinct (add_secret v out)"
  by (auto simp: add_secret_def)

lemma env_secret_set:
  "set (env_secret up same names kv out) = set out \<union> {v. minSecret \<le> length v \<and> env_names up same [kv] names v}"
  "distinct out \<Longrightarrow> distinct (env_secret up same names kv out)"
  by (auto simp: env_secret_def env_names_def add_secret_set list_ex_iff split: option.splits prod.splits)

lemma fold_env_secret:
  "set (fold (env_secret up same names) env out) = set out \<union> {v. minSecret \<le> length v \<and> env_names up same env names v}"
  "distinct out \<Longrightarrow> distinct (fold (env_secret up same names) env out)"
proof (induction env arbitrary: out)
  case Nil
  case 1
  then show ?case by (simp add: env_names_def)
next
  case (Cons kv env)
  case 1
  have "env_names up same (kv # env) names v \<longleftrightarrow> env_names up same [kv] names v \<or> env_names up same env names v" for v by (auto simp: env_names_def)
  then show ?case using Cons(1) by (auto simp: env_secret_set)
qed (simp_all add: env_secret_set)

lemma fold_add_secret:
  "set (fold add_secret vals out) = set out \<union> {v \<in> set vals. minSecret \<le> length v}" "distinct out \<Longrightarrow> distinct (fold add_secret vals out)"
  by (induction vals arbitrary: out) (auto simp: add_secret_set split: if_splits)

subsection \<open>Properties\<close>



text \<open>the secrets are exactly the values of at least eight bytes that a credential variable, a listed
  variable or the configuration has, each once and longest first.\<close>

theorem secrets_exact:
  "set (Secrets up same env names vals) = {v. minSecret \<le> length v \<and> (env_names up same env names v \<or> v \<in> set vals)} \<and>
    distinct (Secrets up same env names vals) \<and> sorted_wrt (\<lambda>a b. length b \<le> length a) (Secrets up same env names vals)"
proof -
  let ?l = "fold add_secret vals (fold (env_secret up same names) env [])"
  have "sorted (map (\<lambda>s. - int (length s)) (sort_key (\<lambda>s. - int (length s)) ?l))" by (rule sorted_sort_key)
  then have "sorted_wrt (\<lambda>a b. length b \<le> length a) (Secrets up same env names vals)" by (simp add: Secrets_def sorted_map)
  moreover have "set ?l = {v. minSecret \<le> length v \<and> (env_names up same env names v \<or> v \<in> set vals)}"
    by (auto simp: fold_add_secret fold_env_secret)
  moreover have "distinct ?l" by (simp add: fold_add_secret fold_env_secret)
  ultimately show ?thesis by (simp add: Secrets_def)
qed

text \<open>scrubbing removes every secret, as written and in its JSON form, and no later replacement brings
  one back, as long as the secrets share no bracket with the marker that replaces them and are not
  part of its word.\<close>

theorem scrub_removes:
  assumes "\<forall>x \<in> set secrets. unmarked x \<and> \<not> sublist x ''redacted'' \<and> unmarked (jsonForm x) \<and> \<not> sublist (jsonForm x) ''redacted''"
    and "s \<in> set secrets" "minSecret \<le> length s"
  shows "\<not> sublist s (Scrub t secrets) \<and> \<not> sublist (jsonForm s) (Scrub t secrets)"
  using assms
proof (induction secrets arbitrary: t)
  case (Cons x xs)
  have s: "unmarked s" "\<not> sublist s ''redacted''" "unmarked (jsonForm s)" "\<not> sublist (jsonForm s) ''redacted''" "s \<noteq> []" "jsonForm s \<noteq> []"
    using Cons.prems by (auto simp: minSecret_def jsonForm_Nil)
  have old: "sublist y t'" if "sublist y (Scrub t' xs)" "unmarked y" "y \<noteq> []" "\<not> sublist y ''redacted''" for y t'
    using that
  proof (induction xs arbitrary: t')
    case (Cons z zs)
    then have "sublist y (scrub_one z t')" by (simp add: Scrub_def)
    then show ?case using scrub_one_old Cons.prems by blast
  qed (simp add: Scrub_def)
  show ?case
  proof (cases "s \<in> set xs")
    case True
    then show ?thesis using Cons by (simp add: Scrub_def)
  next
    case False
    then have "x = s" using Cons.prems(2) by simp
    then show ?thesis using scrub_one_gone [OF Cons.prems(3) s(1-4), of t] old [of s "scrub_one s t"] old [of "jsonForm s" "scrub_one s t"] s
      by (simp add: Scrub_def) blast
  qed
qed simp

theorem scrub_removes_witness:
  "\<not> sublist ''hunter2-hunter2'' (Scrub ''token hunter2-hunter2 rejected'' [''hunter2-hunter2''])"
proof -
  let ?s = "''hunter2-hunter2''"
  have j: "jsonForm ?s = ?s" by code_simp
  have "length ''redacted'' < length ?s" by simp
  then have "\<not> sublist ?s ''redacted''" using sublist_length_le linorder_not_less by blast
  then show ?thesis using scrub_removes [of "[?s]" ?s "''token hunter2-hunter2 rejected''"]
    unfolding j by (simp add: j unmarked_def minSecret_def)
qed

definition ex_secret :: string where "ex_secret = ''sk-0123456789abc''"

lemma ReplaceAll_none: "\<not> sublist old t \<Longrightarrow> ReplaceAll t old new = t"
  by (induction t old new rule: ReplaceAll.induct) (auto simp: sublist_Cons_right)

lemma tail_after_one: "length p \<le> Suc nb \<Longrightarrow> line_count p \<le> nl \<Longrightarrow> tail_after nb nl [p] = cap_bytes nb p"
  by (simp add: tail_after_def Write_tail_def trim_tail_def)

text \<open>A secret that the cap cuts survives. The tail is cut before it is scrubbed: when the last line is
  longer than the cap and a secret lies across the cut, the end of the secret stays in the tail, since only
  whole secrets are replaced.\<close>

theorem cut_secret_survives:
  "prefix (tl ex_secret) (Scrub (Tail (tail_after DefaultBytes DefaultLines [ex_secret @ replicate (DefaultBytes - 15) (CHR ''x'')])) [ex_secret])"
proof -
  let ?x = "replicate (DefaultBytes - 15) (CHR ''x'')"
  let ?b = "tl ex_secret @ ?x"
  have p: "ex_secret @ ?x = CHR ''s'' # ?b" "length ?b = DefaultBytes" by (simp_all add: ex_secret_def DefaultBytes_def)
  have nl: "newline \<notin> set (CHR ''s'' # ?b)" by (simp add: ex_secret_def newline_def)
  then have "line_count (CHR ''s'' # ?b) \<le> DefaultLines" by (simp add: line_count_def DefaultLines_def)
  then have t: "tail_after DefaultBytes DefaultLines [ex_secret @ ?x] = cap_bytes DefaultBytes (CHR ''s'' # ?b)"
    unfolding p(1) by (intro tail_after_one) (simp_all only: list.size p(2) add_0)
  have "IndexByte newline ?b = None" using nl by (simp add: IndexByte_None)
  moreover have "dropWhile (\<lambda>c. \<not> RuneStart c) ?b = ?b" by (simp add: ex_secret_def RuneStart_def byte_of_def)
  ultimately have c: "cap_bytes DefaultBytes (CHR ''s'' # ?b) = ?b" using p(2) nl by (simp add: cap_bytes_def Let_def)
  have "Tail ?b = ?b" by (simp add: Tail_def TrimRight_set_def DefaultBytes_def)
  moreover have "\<not> sublist ex_secret ?b"
    using set_mono_sublist [of ex_secret ?b] by (auto simp: ex_secret_def)
  then have "Scrub ?b [ex_secret] = ?b"
  proof -
    have j: "jsonForm ex_secret = ex_secret" by code_simp
    show ?thesis using ReplaceAll_none [OF \<open>\<not> sublist ex_secret ?b\<close>] by (simp add: Scrub_def scrub_one_def j Let_def)
  qed
  ultimately show ?thesis unfolding t c by simp
qed

text \<open>The start of the tail. After a line longer than the cap, whose end was cut back to a rune, a short line
  fits beside that end: the tail then starts in the middle of a line although its last line is short.\<close>

lemma tail_starts_mid_line:
  "tail_after DefaultBytes DefaultLines [CHR 0xC3 # CHR 0xA9 # replicate (DefaultBytes - 2) (CHR ''x'') @ [newline], ''!''] =
    replicate (DefaultBytes - 2) (CHR ''x'') @ [newline, CHR ''!'']"
proof -
  let ?x = "replicate (DefaultBytes - 2) (CHR ''x'')"
  let ?b = "CHR 0xA9 # ?x @ [newline]"
  have n: "newline \<notin> set ?x" "length ?b = DefaultBytes" by (simp_all add: newline_def DefaultBytes_def)
  have "line_count (CHR 0xC3 # ?b) \<le> DefaultLines" "line_count (?x @ [newline, CHR ''!'']) \<le> DefaultLines"
    using n(1) by (simp_all add: line_count_def DefaultLines_def newline_def count_list_0_iff)
  then have t: "tail_after DefaultBytes DefaultLines [CHR 0xC3 # ?b] = cap_bytes DefaultBytes (CHR 0xC3 # ?b)"
      "Write_tail DefaultBytes DefaultLines ''!'' (?x @ [newline]) = cap_bytes DefaultBytes (?x @ [newline, CHR ''!''])"
    using n(2) by (simp_all add: tail_after_def Write_tail_def trim_tail_def)
  have "IndexByte newline ?b = Some (length ?x + 1)" using n(1)
  proof -
    have "IndexByte newline (xs @ [newline]) = Some (length xs)" if "newline \<notin> set xs" for xs using that by (induction xs) auto
    from this [of "CHR 0xA9 # ?x"] n(1) show ?thesis by (simp add: newline_def)
  qed
  moreover have "dropWhile (\<lambda>c. \<not> RuneStart c) ?b = ?x @ [newline]"
    by (simp add: RuneStart_def byte_of_def DefaultBytes_def newline_def)
  ultimately have "cap_bytes DefaultBytes (CHR 0xC3 # ?b) = ?x @ [newline]" using n(2) by (simp add: cap_bytes_def Let_def newline_def)
  moreover have "cap_bytes DefaultBytes (?x @ [newline, CHR ''!'']) = ?x @ [newline, CHR ''!'']" by (simp add: cap_bytes_def DefaultBytes_def)
  ultimately show ?thesis using t by (simp add: tail_after_def)
qed

end
