(* ===== verification/Command.thy ===== *)
theory Command
  imports Turn Ownership
begin

text \<open>
  Slash commands: \<open>internal/command\<close> -- the vocabulary, the tables in which the providers say how they
  satisfy it (\<open>commandtable.go\<close> of \<open>codex\<close>, \<open>grok\<close>, \<open>kilo\<close> and \<open>opencode\<close>), and the
  resolution of a command in a session -- and of \<open>session/commands.go\<close> and \<open>manager.go\<close> the parsing
  of a prompt, its routing (\<open>Prompt\<close>, \<open>runCanonical\<close>) and the confirmation of unsandboxed shell
  commands.

  \<open>strings.ToLower\<close> and \<open>strings.EqualFold\<close> are the arguments \<open>lower\<close> and \<open>same\<close>. What a
  handler of a command does to its agent is the provider's; a handled command is the name of its handler.
\<close>

subsection \<open>Vocabulary\<close>

datatype Kind = KindDaemon | KindMode | KindOp | KindNative | KindNone | KindCollaborationMode

datatype Op = OpCompact | OpContext | OpStatus | OpUsage | OpApprovalsReviewer | OpGuardianApprove | OpSetModel
  | OpSetThinkingLevel | OpDiff | OpUndo | OpRedo | OpGoal | OpServiceTier | OpPersonality | OpReview | OpFork
  | OpArchive | OpDelete | OpPS | OpStop

record Mapping =
  mp_Kind :: Kind
  mp_Op :: "Op option"
  mp_Native :: string
  mp_ModeID :: string
  mp_Note :: string

definition daemon_mapping :: Mapping where
  "daemon_mapping = \<lparr>mp_Kind = KindDaemon, mp_Op = None, mp_Native = [], mp_ModeID = [], mp_Note = []\<rparr>"

definition op_mapping :: "Op \<Rightarrow> Mapping" where
  "op_mapping p = daemon_mapping\<lparr>mp_Kind := KindOp, mp_Op := Some p\<rparr>"

definition native_mapping :: "string \<Rightarrow> Mapping" where
  "native_mapping n = daemon_mapping\<lparr>mp_Kind := KindNative, mp_Native := n\<rparr>"

definition mode_mapping :: "string \<Rightarrow> Mapping" where
  "mode_mapping i = daemon_mapping\<lparr>mp_Kind := KindMode, mp_ModeID := i\<rparr>"

definition collab_mapping :: "string \<Rightarrow> Mapping" where
  "collab_mapping i = daemon_mapping\<lparr>mp_Kind := KindCollaborationMode, mp_ModeID := i\<rparr>"

definition no_mapping :: "string \<Rightarrow> Mapping" where
  "no_mapping n = daemon_mapping\<lparr>mp_Kind := KindNone, mp_Note := n\<rparr>"

record Spec =
  sp_Name :: string
  sp_Args :: string
  sp_Description :: string
  sp_Aliases :: "string list"
  sp_Default :: Mapping

type_synonym Table = "string \<rightharpoonup> Mapping"

definition em_dash :: string where "em_dash = [CHR 0xE2, CHR 0x80, CHR 0x94]"

definition ReasonIntegrationNotWired :: string where "ReasonIntegrationNotWired = ''integration not wired''"

definition ReasonNoFastTier :: string where "ReasonNoFastTier = ''this agent has no Fast service tier''"

definition ReasonNoPersonality :: string where "ReasonNoPersonality = ''this agent has no personality setting''"

definition ReasonNoReview :: string where "ReasonNoReview = ''this agent has no inline review command''"

definition ReasonNoFork :: string where "ReasonNoFork = ''this agent can't fork a session over the remote''"

definition ReasonPermissionsNotMode :: string where "ReasonPermissionsNotMode = ''this agent uses /mode for agent modes, not permission presets''"

definition ReasonSilent :: string where "ReasonSilent = ''it produced nothing over the remote connection''"

definition Specs :: "Spec list" where
  "Specs = [\<lparr>sp_Name = ''help'', sp_Args = [],
      sp_Description = ''List the commands available in this session'', sp_Aliases = [], sp_Default = daemon_mapping\<rparr>,
    \<lparr>sp_Name = ''plan'', sp_Args = ''[off]'',
      sp_Description = ''Plan without editing; /plan off returns to the default mode'', sp_Aliases = [], sp_Default = mode_mapping ''plan''\<rparr>,
    \<lparr>sp_Name = ''mode'', sp_Args = ''[id]'',
      sp_Description = ''Show or switch the agent's operating mode'', sp_Aliases = [], sp_Default = mode_mapping []\<rparr>,
    \<lparr>sp_Name = ''permissions'', sp_Args = ''[id]'',
      sp_Description = ''Show or switch approval and sandbox permissions'', sp_Aliases = [], sp_Default = no_mapping ReasonPermissionsNotMode\<rparr>,
    \<lparr>sp_Name = ''reviewer'', sp_Args = ''[user|auto_review]'',
      sp_Description = ''Show or switch who reviews approval requests'', sp_Aliases = [], sp_Default = no_mapping ''this agent exposes no separate approval reviewer''\<rparr>,
    \<lparr>sp_Name = ''approve'', sp_Args = [],
      sp_Description = ''Retry the exact most recent Guardian-denied action once'', sp_Aliases = [], sp_Default = no_mapping ''this agent has no tracked Guardian denial''\<rparr>,
    \<lparr>sp_Name = ''model'', sp_Args = ''[name]'',
      sp_Description = ''Show or switch the agent model'', sp_Aliases = [], sp_Default = daemon_mapping\<rparr>,
    \<lparr>sp_Name = ''thinking'', sp_Args = ''[level]'',
      sp_Description = ''Show or switch the reasoning/thinking effort'', sp_Aliases = [], sp_Default = op_mapping OpSetThinkingLevel\<rparr>,
    \<lparr>sp_Name = ''context'', sp_Args = [],
      sp_Description = ''Show context-window usage for this session'', sp_Aliases = [], sp_Default = op_mapping OpContext\<rparr>,
    \<lparr>sp_Name = ''status'', sp_Args = [],
      sp_Description = ''Show provider runtime status'', sp_Aliases = [], sp_Default = no_mapping ''this agent exposes no runtime status''\<rparr>,
    \<lparr>sp_Name = ''usage'', sp_Args = [],
      sp_Description = ''Show account, rate-limit, and context usage'', sp_Aliases = [], sp_Default = no_mapping ''this agent exposes no account usage''\<rparr>,
    \<lparr>sp_Name = ''compact'', sp_Args = [],
      sp_Description = ''Summarise the conversation to reclaim context'', sp_Aliases = [], sp_Default = op_mapping OpCompact\<rparr>,
    \<lparr>sp_Name = ''clear'', sp_Args = [],
      sp_Description = ''Clear the conversation and restart the agent'', sp_Aliases = [''reset''], sp_Default = daemon_mapping\<rparr>,
    \<lparr>sp_Name = ''new'', sp_Args = ''[name]'',
      sp_Description = ''Start a new agent session'', sp_Aliases = [], sp_Default = daemon_mapping\<rparr>,
    \<lparr>sp_Name = ''sessions'', sp_Args = [],
      sp_Description = ''List your sessions'', sp_Aliases = [], sp_Default = daemon_mapping\<rparr>,
    \<lparr>sp_Name = ''goal'', sp_Args = ''<objective>'',
      sp_Description = ''Set an autonomous goal for the agent to work toward'', sp_Aliases = [], sp_Default = native_mapping ''goal''\<rparr>,
    \<lparr>sp_Name = ''deep-research'', sp_Args = ''<query>'',
      sp_Description = ''Research with bounded parallel agents, cross-check evidence, and write a cited report'', sp_Aliases = [], sp_Default = native_mapping ''deep-research''\<rparr>,
    \<lparr>sp_Name = ''workflow'', sp_Args = ''<name> [args] | pause|resume|stop|save [name]'',
      sp_Description = ''Launch a saved workflow, or manage a run'', sp_Aliases = [], sp_Default = native_mapping ''workflow''\<rparr>,
    \<lparr>sp_Name = ''loop'', sp_Args = ''[interval] <prompt>'',
      sp_Description = ''Run a prompt on a recurring interval'', sp_Aliases = [], sp_Default = native_mapping ''loop''\<rparr>,
    \<lparr>sp_Name = ''fast'', sp_Args = ''[on|off]'',
      sp_Description = ''Toggle the model's Fast service tier'', sp_Aliases = [], sp_Default = no_mapping ReasonNoFastTier\<rparr>,
    \<lparr>sp_Name = ''personality'', sp_Args = ''[friendly|pragmatic|none]'',
      sp_Description = ''Show or set the model personality'', sp_Aliases = [], sp_Default = no_mapping ReasonNoPersonality\<rparr>,
    \<lparr>sp_Name = ''review'', sp_Args = ''[uncommitted|base <branch>|commit <sha>|custom <text>]'',
      sp_Description = ''Start an inline code review'', sp_Aliases = [], sp_Default = no_mapping ReasonNoReview\<rparr>,
    \<lparr>sp_Name = ''fork'', sp_Args = ''[turn-id]'',
      sp_Description = ''Fork this conversation into a new session'', sp_Aliases = [], sp_Default = no_mapping ReasonNoFork\<rparr>,
    \<lparr>sp_Name = ''archive'', sp_Args = ''archive|unarchive'',
      sp_Description = ''Archive or restore this native conversation'', sp_Aliases = [], sp_Default = no_mapping ''this agent has no native archive operation''\<rparr>,
    \<lparr>sp_Name = ''delete'', sp_Args = ''delete permanently'',
      sp_Description = ''Permanently delete this native conversation after impact preview'', sp_Aliases = [], sp_Default = no_mapping ''this agent has no native permanent-delete operation''\<rparr>,
    \<lparr>sp_Name = ''ps'', sp_Args = [],
      sp_Description = ''List active execution terminals'', sp_Aliases = [], sp_Default = no_mapping ''this agent exposes no terminal registry''\<rparr>,
    \<lparr>sp_Name = ''stop'', sp_Args = ''<id>|--all'',
      sp_Description = ''Stop one exact terminal or all terminals'', sp_Aliases = [], sp_Default = no_mapping ''this agent exposes no stoppable terminals''\<rparr>,
    \<lparr>sp_Name = ''diff'', sp_Args = [],
      sp_Description = ''Show the file changes made in this session'', sp_Aliases = [], sp_Default = op_mapping OpDiff\<rparr>,
    \<lparr>sp_Name = ''undo'', sp_Args = [],
      sp_Description = ''Undo the last turn's changes'', sp_Aliases = [], sp_Default = op_mapping OpUndo\<rparr>,
    \<lparr>sp_Name = ''redo'', sp_Args = [],
      sp_Description = ''Restore the last undone turn'', sp_Aliases = [], sp_Default = op_mapping OpRedo\<rparr>]"

text \<open>The tables of the providers.\<close>

definition codex_table :: "Table" where
  "codex_table = map_of [(''help'', daemon_mapping),
    (''new'', daemon_mapping),
    (''sessions'', daemon_mapping),
    (''clear'', daemon_mapping),
    (''compact'', op_mapping OpCompact),
    (''model'', op_mapping OpSetModel),
    (''thinking'', op_mapping OpSetThinkingLevel),
    (''context'', op_mapping OpContext),
    (''status'', op_mapping OpStatus),
    (''usage'', op_mapping OpUsage),
    (''mode'', mode_mapping []),
    (''permissions'', mode_mapping []),
    (''reviewer'', op_mapping OpApprovalsReviewer),
    (''approve'', op_mapping OpGuardianApprove),
    (''plan'', collab_mapping ''plan''),
    (''goal'', op_mapping OpGoal),
    (''deep-research'', no_mapping ''deep-research is a Grok-specific capability''),
    (''workflow'', no_mapping ''codex workflows are not exposed over the app-server protocol''),
    (''loop'', no_mapping ''loop is a Grok-specific capability''),
    (''diff'', op_mapping OpDiff),
    (''fast'', op_mapping OpServiceTier),
    (''personality'', op_mapping OpPersonality),
    (''review'', op_mapping OpReview),
    (''fork'', op_mapping OpFork),
    (''archive'', op_mapping OpArchive),
    (''delete'', op_mapping OpDelete),
    (''ps'', op_mapping OpPS),
    (''stop'', op_mapping OpStop),
    (''undo'', no_mapping (''codex can't undo a turn remotely '' @ em_dash @ '' ask the agent to revert its changes'')),
    (''redo'', no_mapping ''codex can't redo a turn remotely'')]"

definition grok_table :: "Table" where
  "grok_table = map_of [(''help'', daemon_mapping),
    (''plan'', mode_mapping ''plan''),
    (''mode'', mode_mapping []),
    (''clear'', daemon_mapping),
    (''new'', daemon_mapping),
    (''sessions'', daemon_mapping),
    (''model'', op_mapping OpSetModel),
    (''thinking'', op_mapping OpSetThinkingLevel),
    (''context'', native_mapping ''session-info''),
    (''status'', no_mapping ''grok exposes no host runtime status over ACP''),
    (''usage'', no_mapping ''grok exposes no account usage over ACP''),
    (''reviewer'', no_mapping ''grok exposes no separate approval reviewer''),
    (''approve'', no_mapping ''grok has no Guardian denial''),
    (''goal'', native_mapping ''goal''),
    (''deep-research'', native_mapping ''deep-research''),
    (''workflow'', native_mapping ''workflow''),
    (''loop'', native_mapping ''loop''),
    (''compact'', native_mapping ''compact''),
    (''diff'', no_mapping (''grok exposes no diff over ACP '' @ em_dash @ '' ask the agent to show its changes'')),
    (''undo'', no_mapping (''grok can't undo a turn over ACP '' @ em_dash @ '' ask the agent to revert its changes'')),
    (''redo'', no_mapping ''grok can't redo a turn over ACP''),
    (''permissions'', no_mapping ReasonPermissionsNotMode),
    (''fast'', no_mapping ReasonNoFastTier),
    (''personality'', no_mapping ReasonNoPersonality),
    (''review'', native_mapping ''review''),
    (''fork'', op_mapping OpFork),
    (''archive'', no_mapping ''grok exposes no native archive operation over ACP''),
    (''delete'', no_mapping ''grok exposes no native permanent-delete operation over ACP''),
    (''ps'', no_mapping ''grok exposes no terminal registry over ACP''),
    (''stop'', no_mapping ''grok exposes no stoppable terminals over ACP'')]"

definition kilo_table :: "Table" where
  "kilo_table = map_of [(''help'', daemon_mapping),
    (''plan'', mode_mapping ''plan''),
    (''mode'', mode_mapping []),
    (''clear'', daemon_mapping),
    (''new'', daemon_mapping),
    (''sessions'', daemon_mapping),
    (''model'', op_mapping OpSetModel),
    (''thinking'', no_mapping (''Kilo has no per-session thinking level '' @ em_dash @ '' the model decides'')),
    (''context'', op_mapping OpContext),
    (''status'', no_mapping ''Kilo exposes no bounded host runtime status''),
    (''usage'', no_mapping ''Kilo exposes no account usage summary''),
    (''reviewer'', no_mapping ''Kilo exposes no separate approval reviewer''),
    (''approve'', no_mapping ''Kilo has no Guardian denial''),
    (''compact'', op_mapping OpCompact),
    (''diff'', op_mapping OpDiff),
    (''undo'', op_mapping OpUndo),
    (''redo'', op_mapping OpRedo),
    (''goal'', no_mapping (''Kilo has no goal loop '' @ em_dash @ '' state the objective in a prompt instead'')),
    (''deep-research'', no_mapping ''deep-research is a Grok-specific capability''),
    (''workflow'', no_mapping ''workflows are not exposed by Kilo''),
    (''loop'', no_mapping ''loop is a Grok-specific capability''),
    (''permissions'', no_mapping ReasonPermissionsNotMode),
    (''fast'', no_mapping ReasonNoFastTier),
    (''personality'', no_mapping ReasonNoPersonality),
    (''review'', native_mapping ''review''),
    (''fork'', op_mapping OpFork),
    (''archive'', no_mapping ''kilo exposes no native archive operation''),
    (''delete'', no_mapping ''kilo exposes no native permanent-delete operation''),
    (''ps'', no_mapping ''kilo exposes no terminal registry''),
    (''stop'', no_mapping ''kilo exposes no stoppable terminals'')]"

definition opencode_table :: "Table" where
  "opencode_table = map_of [(''help'', daemon_mapping),
    (''plan'', mode_mapping ''plan''),
    (''mode'', mode_mapping []),
    (''clear'', daemon_mapping),
    (''new'', daemon_mapping),
    (''sessions'', daemon_mapping),
    (''model'', op_mapping OpSetModel),
    (''thinking'', op_mapping OpSetThinkingLevel),
    (''context'', op_mapping OpContext),
    (''compact'', native_mapping ''compact''),
    (''goal'', native_mapping ''goal''),
    (''review'', native_mapping ''review''),
    (''status'', no_mapping ''OpenCode exposes no bounded host runtime status''),
    (''usage'', no_mapping ''OpenCode exposes no account usage summary''),
    (''reviewer'', no_mapping ''OpenCode exposes no separate approval reviewer''),
    (''approve'', no_mapping ''OpenCode has no Guardian denial''),
    (''diff'', op_mapping OpDiff),
    (''undo'', op_mapping OpUndo),
    (''redo'', op_mapping OpRedo),
    (''fork'', no_mapping ''Magic does not fork OpenCode v2 sessions yet''),
    (''deep-research'', no_mapping ''OpenCode has no deep-research command''),
    (''workflow'', no_mapping ''workflows are not exposed by OpenCode''),
    (''loop'', no_mapping ''OpenCode has no loop command''),
    (''permissions'', no_mapping ReasonPermissionsNotMode),
    (''fast'', no_mapping ReasonNoFastTier),
    (''personality'', no_mapping ReasonNoPersonality),
    (''archive'', no_mapping ''opencode exposes no native archive operation''),
    (''delete'', no_mapping ''opencode exposes no native permanent-delete operation''),
    (''ps'', no_mapping ''opencode exposes no terminal registry''),
    (''stop'', no_mapping ''opencode exposes no stoppable terminals'')]"

subsection \<open>Resolution\<close>

record SessionState =
  ss_AgentCommands :: "string list"
  ss_Modes :: "SessionMode list"
  ss_CollaborationModes :: "CollaborationMode list"
  ss_CurrentCollaborationModeID :: string
  ss_Ops :: "Op \<Rightarrow> bool"
  ss_Silent :: "string list"

record Resolution =
  rs_Spec :: Spec
  rs_Mapping :: Mapping
  rs_Available :: bool

definition Reason :: "Resolution \<Rightarrow> string" where
  "Reason r = (if rs_Available r then [] else if mp_Note (rs_Mapping r) \<noteq> [] then mp_Note (rs_Mapping r) else ''this agent doesn't offer it'')"

definition Usage_text :: "Resolution \<Rightarrow> string" where
  "Usage_text r = (if sp_Args (rs_Spec r) = [] then ''/'' @ sp_Name (rs_Spec r) else ''/'' @ sp_Name (rs_Spec r) @ '' '' @ sp_Args (rs_Spec r))"

definition Lookup :: "(string \<Rightarrow> string) \<Rightarrow> string \<Rightarrow> Spec option" where
  "Lookup lower name =
    (let n = lower (TrimSpace (TrimPrefix name ''/''))
     in if n = [] then None else find (\<lambda>s. sp_Name s = n \<or> n \<in> set (sp_Aliases s)) Specs)"

definition advertises :: "(string \<Rightarrow> string \<Rightarrow> bool) \<Rightarrow> string list \<Rightarrow> string \<Rightarrow> bool" where
  "advertises same names want = list_ex (\<lambda>n. same (TrimPrefix n ''/'') want) names"

definition hasMode :: "(string \<Rightarrow> string \<Rightarrow> bool) \<Rightarrow> SessionMode list \<Rightarrow> string \<Rightarrow> bool" where
  "hasMode same modes i = list_ex (\<lambda>m. same (sm_ID m) i) modes"

definition hasCollaborationMode :: "(string \<Rightarrow> string \<Rightarrow> bool) \<Rightarrow> CollaborationMode list \<Rightarrow> string \<Rightarrow> bool" where
  "hasCollaborationMode same modes i = list_ex (\<lambda>m. same (cm_ID m) i) modes"

definition available :: "(string \<Rightarrow> string \<Rightarrow> bool) \<Rightarrow> Mapping \<Rightarrow> SessionState \<Rightarrow> bool" where
  "available same m s =
    (case mp_Kind m of
       KindDaemon \<Rightarrow> True
     | KindMode \<Rightarrow> ss_Modes s \<noteq> [] \<and> (mp_ModeID m = [] \<or> hasMode same (ss_Modes s) (mp_ModeID m))
     | KindCollaborationMode \<Rightarrow>
         ss_CollaborationModes s \<noteq> [] \<and> (mp_ModeID m = [] \<or> hasCollaborationMode same (ss_CollaborationModes s) (mp_ModeID m))
     | KindOp \<Rightarrow> (case mp_Op m of Some p \<Rightarrow> ss_Ops s p | None \<Rightarrow> False)
     | KindNative \<Rightarrow> mp_Native m \<noteq> [] \<and> advertises same (ss_AgentCommands s) (mp_Native m) \<and> \<not> advertises same (ss_Silent s) (mp_Native m)
     | KindNone \<Rightarrow> False)"

definition silentNative :: "(string \<Rightarrow> string \<Rightarrow> bool) \<Rightarrow> string \<Rightarrow> SessionState \<Rightarrow> bool" where
  "silentNative same native s \<longleftrightarrow> native \<noteq> [] \<and> advertises same (ss_AgentCommands s) native \<and> advertises same (ss_Silent s) native"

definition unavailableNote :: "Spec \<Rightarrow> string" where
  "unavailableNote spec =
    (if mp_Kind (sp_Default spec) = KindMode then
       (if mp_ModeID (sp_Default spec) \<noteq> [] then ''this agent has no '' @ mp_ModeID (sp_Default spec) @ '' mode''
        else ''this agent doesn't expose switchable modes'')
     else ''this agent doesn't offer it'')"

definition daemonOnly :: "string list" where "daemonOnly = [''help'', ''new'', ''sessions'', ''clear'']"

text \<open>The end of \<open>Resolve\<close>: the default of the command, or none.\<close>

definition fall_back :: "(string \<Rightarrow> string \<Rightarrow> bool) \<Rightarrow> Spec \<Rightarrow> SessionState \<Rightarrow> bool \<Rightarrow> Resolution" where
  "fall_back same spec s silenced =
    (if available same (sp_Default spec) s then \<lparr>rs_Spec = spec, rs_Mapping = sp_Default spec, rs_Available = True\<rparr>
     else
       \<lparr>rs_Spec = spec,
        rs_Mapping = no_mapping (if silenced \<or> mp_Kind (sp_Default spec) = KindNative \<and> silentNative same (mp_Native (sp_Default spec)) s
          then ReasonSilent else unavailableNote spec),
        rs_Available = False\<rparr>)"

definition resolve_spec :: "(string \<Rightarrow> string \<Rightarrow> bool) \<Rightarrow> Table \<Rightarrow> SessionState \<Rightarrow> Spec \<Rightarrow> Resolution" where
  "resolve_spec same t s spec =
    (let name = sp_Name spec;
         native = \<lparr>rs_Spec = spec, rs_Mapping = native_mapping name, rs_Available = True\<rparr>
     in if name \<in> set daemonOnly then \<lparr>rs_Spec = spec, rs_Mapping = daemon_mapping, rs_Available = True\<rparr>
        else (case t name of
            Some m \<Rightarrow>
              if mp_Kind m = KindNone then \<lparr>rs_Spec = spec, rs_Mapping = m, rs_Available = False\<rparr>
              else if mp_Kind m = KindOp \<and> advertises same (ss_AgentCommands s) name \<and> \<not> advertises same (ss_Silent s) name then native
              else if available same m s then \<lparr>rs_Spec = spec, rs_Mapping = m, rs_Available = True\<rparr>
              else fall_back same spec s (mp_Kind m = KindNative \<and> silentNative same (mp_Native m) s)
          | None \<Rightarrow>
              if advertises same (ss_AgentCommands s) name then
                (if \<not> advertises same (ss_Silent s) name then native else fall_back same spec s True)
              else fall_back same spec s False))"

definition Resolve :: "(string \<Rightarrow> string) \<Rightarrow> (string \<Rightarrow> string \<Rightarrow> bool) \<Rightarrow> string \<Rightarrow> Table \<Rightarrow> SessionState \<Rightarrow> Resolution option" where
  "Resolve lower same name t s = map_option (resolve_spec same t s) (Lookup lower name)"

text \<open>\<open>ResolveAll\<close> resolves every name of the vocabulary; a name that is not found would leave a zero value.\<close>

definition ResolveAll :: "(string \<Rightarrow> string) \<Rightarrow> (string \<Rightarrow> string \<Rightarrow> bool) \<Rightarrow> Table \<Rightarrow> SessionState \<Rightarrow> Resolution option list" where
  "ResolveAll lower same t s = map (\<lambda>spec. Resolve lower same (sp_Name spec) t s) Specs"

subsection \<open>A session's context\<close>

datatype Capability = CapCompact | CapSetModel | CapSetThinkingLevel | CapDiff | CapStatus | CapUsage | CapApprovalsReviewer
  | CapGuardianApprove | CapUndo | CapRevert | CapFork | CapRename | CapNativeThreadLifecycle | CapExecution | CapGoal
  | CapReview | CapServiceTier | CapPersonality | CapWorkspace | CapShell | CapSkillRefresh




definition remote_command :: "Resolution \<Rightarrow> RemoteCommand" where
  "remote_command r = \<lparr>rc_Name = sp_Name (rs_Spec r), rc_Hint = sp_Args (rs_Spec r), rc_Description = sp_Description (rs_Spec r),
     rc_Available = rs_Available r, rc_Reason = Reason r\<rparr>"

text \<open>The list \<open>advertiseCommands\<close> sends.\<close>

definition advertised_list :: "(string \<Rightarrow> string) \<Rightarrow> (string \<Rightarrow> string \<Rightarrow> bool) \<Rightarrow> Table \<Rightarrow> SessionState \<Rightarrow> RemoteCommand list" where
  "advertised_list lower same t s = map (\<lambda>r. remote_command (the r)) (ResolveAll lower same t s)"

subsection \<open>Parsing\<close>

text \<open>\<open>strings.IndexAny\<close> of the three separators.\<close>

definition command_end :: "string \<Rightarrow> nat" where
  "command_end t = length (takeWhile (\<lambda>c. c \<notin> {CHR '' '', CHR 0x09, CHR 0x0A}) t)"

definition parseSlashCommand :: "(string \<Rightarrow> string) \<Rightarrow> string \<Rightarrow> (string \<times> string) option" where
  "parseSlashCommand lower text =
    (let t = TrimSpace text
     in if \<not> HasPrefix t ''/'' then None
        else
          (let u = TrimPrefix t ''/''; i = command_end u
           in if i < length u then Some (lower (take i u), TrimSpace (drop (Suc i) u)) else Some (lower u, [])))"

definition slashText :: "string \<Rightarrow> string \<Rightarrow> string" where
  "slashText name rest = (if rest = [] then ''/'' @ name else ''/'' @ name @ '' '' @ rest)"

definition command_char :: "char \<Rightarrow> bool" where
  "command_char c \<longleftrightarrow> c \<in> set ''abcdefghijklmnopqrstuvwxyzABCDEFGHIJKLMNOPQRSTUVWXYZ0123456789''"

definition isCommandName :: "string \<Rightarrow> bool" where
  "isCommandName s \<longleftrightarrow> s \<noteq> [] \<and> command_char (hd s) \<and> list_all (\<lambda>c. command_char c \<or> c = CHR ''_'' \<or> c = CHR ''-'') (tl s)"


subsection \<open>Running a command\<close>

datatype handler = CmdPlan | CmdMode | CmdModel bool | CmdThinking | CmdCompact | CmdContext | CmdRuntime bool | CmdApprovalsReviewer
  | CmdGuardianApprove | CmdDiff | CmdFork | CmdNativeArchive | CmdNativeDelete | CmdTerminals | CmdStopTerminal | CmdGoal | CmdFast
  | CmdPersonality | CmdReview | CmdUndo | CmdRedo | CmdHelp | CmdReset | CmdNew | CmdSessions | CmdCollaborationPlan

text \<open>What becomes of a canonical command. The first argument of \<open>Forward\<close> says whether the daemon echoes
  what the user typed, the second is the text for the agent.\<close>

datatype command_outcome = Refused string | Forward bool string | Handled handler | NotWired

fun op_handler :: "Op \<Rightarrow> handler" where
  "op_handler OpSetModel = CmdModel True"
| "op_handler OpSetThinkingLevel = CmdThinking"
| "op_handler OpCompact = CmdCompact"
| "op_handler OpContext = CmdContext"
| "op_handler OpStatus = CmdRuntime False"
| "op_handler OpUsage = CmdRuntime True"
| "op_handler OpApprovalsReviewer = CmdApprovalsReviewer"
| "op_handler OpGuardianApprove = CmdGuardianApprove"
| "op_handler OpDiff = CmdDiff"
| "op_handler OpFork = CmdFork"
| "op_handler OpArchive = CmdNativeArchive"
| "op_handler OpDelete = CmdNativeDelete"
| "op_handler OpPS = CmdTerminals"
| "op_handler OpStop = CmdStopTerminal"
| "op_handler OpGoal = CmdGoal"
| "op_handler OpServiceTier = CmdFast"
| "op_handler OpPersonality = CmdPersonality"
| "op_handler OpReview = CmdReview"
| "op_handler OpUndo = CmdUndo"
| "op_handler OpRedo = CmdRedo"

definition daemonCommands :: "string \<rightharpoonup> handler" where
  "daemonCommands = map_of [(''help'', CmdHelp), (''model'', CmdModel False), (''clear'', CmdReset), (''new'', CmdNew), (''sessions'', CmdSessions)]"

definition runCanonical :: "(string \<Rightarrow> string \<Rightarrow> bool) \<Rightarrow> Resolution \<Rightarrow> string \<Rightarrow> string \<Rightarrow> command_outcome" where
  "runCanonical same r typed rest =
    (let m = rs_Mapping r; name = sp_Name (rs_Spec r)
     in if \<not> rs_Available r then Refused (Reason r)
        else if mp_Kind m = KindNative then
          (if same (mp_Native m) typed then Forward False (slashText typed rest) else Forward True (slashText (mp_Native m) rest))
        else if mp_Kind m = KindCollaborationMode \<and> name = ''plan'' then Handled CmdCollaborationPlan
        else
          (case mp_Kind m of
             KindMode \<Rightarrow> if name = ''plan'' then Handled CmdPlan else if name = ''mode'' \<or> name = ''permissions'' then Handled CmdMode else NotWired
           | KindOp \<Rightarrow> (case mp_Op m of Some p \<Rightarrow> Handled (op_handler p) | None \<Rightarrow> NotWired)
           | KindDaemon \<Rightarrow> (case daemonCommands name of Some h \<Rightarrow> Handled h | None \<Rightarrow> NotWired)
           | _ \<Rightarrow> NotWired))"








subsection \<open>Unsandboxed shell commands\<close>














subsection \<open>Sending a prompt\<close>


















subsection \<open>Lemmas: the vocabulary\<close>

definition spec_names :: "Spec \<Rightarrow> string list" where "spec_names s = sp_Name s # sp_Aliases s"

lemma names_distinct: "distinct (concat (map spec_names Specs))"
  by code_simp

definition plain_char :: "char \<Rightarrow> bool" where
  "plain_char c \<longleftrightarrow> c \<in> set ''-abcdefghijklmnopqrstuvwxyz''"

lemma names_plain: "list_all (\<lambda>n. n \<noteq> [] \<and> list_all plain_char n) (concat (map spec_names Specs))"
  by code_simp

lemma find_by_name:
  "distinct (concat (map spec_names ss)) \<Longrightarrow> spec \<in> set ss \<Longrightarrow> n \<in> set (spec_names spec) \<Longrightarrow>
    find (\<lambda>s. sp_Name s = n \<or> n \<in> set (sp_Aliases s)) ss = Some spec"
  by (induction ss) (auto simp: spec_names_def)

text \<open>The mappings for which \<open>runCanonical\<close> has a branch.\<close>

definition wired :: "string \<Rightarrow> Mapping \<Rightarrow> bool" where
  "wired name m =
    (case mp_Kind m of
       KindNative \<Rightarrow> True
     | KindNone \<Rightarrow> True
     | KindDaemon \<Rightarrow> daemonCommands name \<noteq> None
     | KindOp \<Rightarrow> mp_Op m \<noteq> None
     | KindMode \<Rightarrow> name = ''plan'' \<or> name = ''mode'' \<or> name = ''permissions''
     | KindCollaborationMode \<Rightarrow> name = ''plan'')"

definition table_wired :: "Table \<Rightarrow> bool" where
  "table_wired t = list_all (\<lambda>s. case t (sp_Name s) of Some m \<Rightarrow> wired (sp_Name s) m | None \<Rightarrow> True) Specs"

lemma defaults_wired: "list_all (\<lambda>s. wired (sp_Name s) (sp_Default s)) Specs"
  by code_simp

lemma daemonOnly_wired: "list_all (\<lambda>n. daemonCommands n \<noteq> None) daemonOnly"
  by code_simp

lemma tables_wired: "table_wired codex_table" "table_wired grok_table" "table_wired kilo_table" "table_wired opencode_table"
  by code_simp+

lemmas mapping_defs = daemon_mapping_def op_mapping_def native_mapping_def mode_mapping_def collab_mapping_def no_mapping_def

lemma Lookup_in: "Lookup lower name = Some spec \<Longrightarrow> spec \<in> set Specs"
  by (auto simp: Lookup_def Let_def find_Some_iff split: if_splits)

lemma Specs_name: "spec \<in> set Specs \<Longrightarrow> sp_Name spec \<noteq> []"
  using names_plain by (auto simp: list_all_iff spec_names_def)

lemma available_native: "available same (native_mapping n) s \<longleftrightarrow> n \<noteq> [] \<and> advertises same (ss_AgentCommands s) n \<and> \<not> advertises same (ss_Silent s) n"
  by (simp add: available_def mapping_defs)

lemma available_daemon: "available same daemon_mapping s"
  by (simp add: available_def mapping_defs)

lemma available_kind: "available same m s \<Longrightarrow> mp_Kind m \<noteq> KindNone"
  by (auto simp: available_def)

lemma Reason_unavailable: "\<not> rs_Available r \<Longrightarrow> Reason r \<noteq> []"
  by (simp add: Reason_def)

lemma fall_back_spec [simp]:
  "rs_Spec (fall_back same spec s b) = spec"
  "rs_Available (fall_back same spec s b) = available same (sp_Default spec) s"
  "available same (sp_Default spec) s \<Longrightarrow> rs_Mapping (fall_back same spec s b) = sp_Default spec"
  "\<not> available same (sp_Default spec) s \<Longrightarrow> mp_Kind (rs_Mapping (fall_back same spec s b)) = KindNone"
  by (simp_all add: fall_back_def mapping_defs)

definition offers :: "(string \<Rightarrow> string \<Rightarrow> bool) \<Rightarrow> Table \<Rightarrow> SessionState \<Rightarrow> Spec \<Rightarrow> bool" where
  "offers same t s spec \<longleftrightarrow> sp_Name spec \<in> set daemonOnly \<or>
    (case t (sp_Name spec) of
       Some m \<Rightarrow> mp_Kind m \<noteq> KindNone \<and>
         (available same m s \<or> available same (sp_Default spec) s \<or> mp_Kind m = KindOp \<and> available same (native_mapping (sp_Name spec)) s)
     | None \<Rightarrow> available same (native_mapping (sp_Name spec)) s \<or> available same (sp_Default spec) s)"

lemma resolve_spec_Spec [simp]: "rs_Spec (resolve_spec same t s spec) = spec"
  by (auto simp: resolve_spec_def Let_def split: option.split)

lemma resolve_spec_offers:
  "sp_Name spec \<noteq> [] \<Longrightarrow> rs_Available (resolve_spec same t s spec) = offers same t s spec"
  by (auto simp: resolve_spec_def offers_def Let_def available_native split: option.split)

lemma resolve_spec_available:
  "sp_Name spec \<noteq> [] \<Longrightarrow> rs_Available (resolve_spec same t s spec) \<Longrightarrow> available same (rs_Mapping (resolve_spec same t s spec)) s"
  by (auto simp: resolve_spec_def Let_def available_native available_daemon split: option.splits if_splits)

lemma resolve_spec_none:
  "\<not> rs_Available (resolve_spec same t s spec) \<Longrightarrow> mp_Kind (rs_Mapping (resolve_spec same t s spec)) = KindNone"
  by (auto simp: resolve_spec_def Let_def split: option.splits if_splits)

lemma resolve_spec_native:
  "mp_Kind (rs_Mapping (resolve_spec same t s spec)) = KindNative \<Longrightarrow> sp_Name spec \<notin> set daemonOnly"
  by (auto simp: resolve_spec_def Let_def daemon_mapping_def)

lemma resolve_spec_wired:
  assumes "spec \<in> set Specs" "table_wired t"
  shows "wired (sp_Name spec) (rs_Mapping (resolve_spec same t s spec))"
proof -
  let ?n = "sp_Name spec"
  have d: "wired ?n (sp_Default spec)" using defaults_wired assms(1) by (simp add: list_all_iff)
  have m: "t ?n = Some m \<Longrightarrow> wired ?n m" for m using assms by (auto simp: table_wired_def list_all_iff)
  have f: "wired ?n (rs_Mapping (fall_back same spec s b))" for b
    using d by (cases "available same (sp_Default spec) s") (simp_all add: wired_def)
  have "?n \<in> set daemonOnly \<Longrightarrow> daemonCommands ?n \<noteq> None" using daemonOnly_wired by (simp add: list_all_iff)
  then have "?n \<in> set daemonOnly \<Longrightarrow> wired ?n daemon_mapping" by (simp add: wired_def mapping_defs)
  moreover have "wired ?n (native_mapping ?n)" by (simp add: wired_def mapping_defs)
  ultimately show ?thesis using m f by (simp add: resolve_spec_def Let_def split: option.split)
qed

lemma runCanonical_wired:
  assumes "wired (sp_Name (rs_Spec r)) (rs_Mapping r)" "rs_Available r \<longrightarrow> mp_Kind (rs_Mapping r) \<noteq> KindNone"
  shows "runCanonical same r typed rest \<noteq> NotWired"
  using assms by (auto simp: runCanonical_def Let_def wired_def split: Kind.splits option.splits)

lemma ResolveE:
  assumes "Resolve lower same name t s = Some r"
  obtains spec where "spec \<in> set Specs" "Lookup lower name = Some spec" "r = resolve_spec same t s spec" "sp_Name spec \<noteq> []"
  using assms Lookup_in Specs_name unfolding Resolve_def by blast

subsection \<open>Properties of the resolution\<close>

text \<open>what a command resolves to. A command is available exactly when the daemon does it itself, or when
  the table does not exclude it and the provider's mapping, the agent's own command of that name or the
  default works in this session; an available command has a mechanism that this session really has, an
  unavailable one has none and a reason to show; the daemon's own commands are never given to the agent.\<close>

theorem resolve_sound:
  assumes "Resolve lower same name t s = Some r"
  shows "rs_Available r = offers same t s (rs_Spec r) \<and>
    (rs_Available r \<longrightarrow> available same (rs_Mapping r) s) \<and>
    (\<not> rs_Available r \<longrightarrow> mp_Kind (rs_Mapping r) = KindNone \<and> Reason r \<noteq> []) \<and>
    (mp_Kind (rs_Mapping r) = KindNative \<longrightarrow> sp_Name (rs_Spec r) \<notin> set daemonOnly)"
  using assms
  by (rule ResolveE)
    (simp add: resolve_spec_offers resolve_spec_available resolve_spec_none resolve_spec_native Reason_unavailable
      flip: resolve_spec_offers)

definition ex_state :: SessionState where
  "ex_state = \<lparr>ss_AgentCommands = [''compact'', ''session-info''], ss_Modes = [], ss_CollaborationModes = [], ss_CurrentCollaborationModeID = [],
     ss_Ops = (\<lambda>p. p = OpSetModel), ss_Silent = []\<rparr>"

theorem resolve_sound_witness:
  "mp_Native (rs_Mapping (the (Resolve id (=) ''context'' grok_table ex_state))) = ''session-info'' \<and>
    available (=) (rs_Mapping (the (Resolve id (=) ''context'' grok_table ex_state))) ex_state"
proof -
  have "Resolve id (=) ''context'' grok_table ex_state \<noteq> None" by code_simp
  then obtain r where r: "Resolve id (=) ''context'' grok_table ex_state = Some r" by auto
  have "mp_Native (rs_Mapping (the (Resolve id (=) ''context'' grok_table ex_state))) = ''session-info''"
    "rs_Available (the (Resolve id (=) ''context'' grok_table ex_state))" by code_simp+
  then show ?thesis using resolve_sound [OF r] r by simp
qed

text \<open>every command of the vocabulary is wired. Whatever a session reports, no canonical command of a
  provider's table, or of a provider without one, ends in the notice that it is not wired up.\<close>

theorem commands_wired:
  assumes "t \<in> {codex_table, grok_table, kilo_table, opencode_table, Map.empty}" "Resolve lower same name t s = Some r"
  shows "runCanonical same r typed rest \<noteq> NotWired"
proof -
  have t: "table_wired t" using assms(1) tables_wired by (auto simp: table_wired_def list_all_iff)
  from assms(2) obtain spec where sp: "spec \<in> set Specs" "r = resolve_spec same t s spec" "sp_Name spec \<noteq> []" by (rule ResolveE)
  show ?thesis
  proof (rule runCanonical_wired)
    show "wired (sp_Name (rs_Spec r)) (rs_Mapping r)" using resolve_spec_wired [OF sp(1) t] sp(2) by simp
    show "rs_Available r \<longrightarrow> mp_Kind (rs_Mapping r) \<noteq> KindNone" using resolve_spec_available [OF sp(3)] available_kind sp(2) by metis
  qed
qed

theorem commands_wired_witness:
  "runCanonical (=) (the (Resolve id (=) ''plan'' codex_table ex_state)) ''plan'' [] \<noteq> NotWired"
proof -
  have "Resolve id (=) ''plan'' codex_table ex_state \<noteq> None" by code_simp
  then obtain r where "Resolve id (=) ''plan'' codex_table ex_state = Some r" by auto
  then show ?thesis using commands_wired [of codex_table id "(=)" "''plan''" ex_state r "''plan''" "[]"] by simp
qed

subsection \<open>Lemmas: white space around a command\<close>





lemma solid_Nil: "solid []"
  by (simp add: solid_def space_end_def)

lemma byte_of_blank: "byte_of (CHR '' '') = 32" "byte_of (CHR 0x09) = 9" "byte_of (CHR 0x0A) = 10"
  by (simp_all add: byte_of_def)

text \<open>Text in front of a blank does not change whether a string ends in white space.\<close>

lemma space_end_append: "3 \<le> length r \<Longrightarrow> space_end (y @ r) = space_end r"
  by (auto simp: space_end_def)

lemma space_at_length_3: "space_at [a, b, c] = 3 \<Longrightarrow> 128 \<le> byte_of a \<and> 128 \<le> byte_of b \<and> 128 \<le> byte_of c"
  by (auto split: if_splits)

lemma space_at_length_2: "space_at [a, b] = 2 \<Longrightarrow> 128 \<le> byte_of a"
  by (auto split: if_splits)

lemma space_end_after_blank:
  assumes "r \<noteq> []" "space_end r = 0"
  shows "space_end (x @ CHR '' '' # r) = 0"
proof -
  let ?b = "CHR '' ''"
  consider a where "r = [a]" | a b where "r = [a, b]" | "3 \<le> length r"
    using assms(1) by (cases r; cases "tl r"; cases "tl (tl r)") auto
  then show ?thesis
  proof cases
    case 1
    have "space_at [?b, a] \<noteq> 2" using space_at_length_2 [of ?b a] byte_of_blank(1) by auto
    moreover have "space_at [a] = 0" using assms(2) 1 by (auto simp: space_end_def split: if_splits)
    moreover have "space_at (drop (length x - 1) (x @ [?b, a])) \<noteq> 3" if x: "1 \<le> length x"
    proof -
      from x obtain y z where "x = z @ [y]" by (cases x rule: rev_cases) auto
      then have "drop (length x - 1) (x @ [?b, a]) = [y, ?b, a]" by simp
      then show ?thesis using space_at_length_3 [of y ?b a] byte_of_blank(1) by (metis linorder_not_less numeral_less_iff semiring_norm(76) semiring_norm(78))
    qed
    ultimately show ?thesis using 1 by (cases "1 \<le> length x") (simp_all add: space_end_def Suc_le_eq del: space_at.simps)
  next
    case 2
    have "space_at [?b, a, b] \<noteq> 3" using space_at_length_3 [of ?b a b] byte_of_blank(1) by auto
    moreover have "space_at [b] \<noteq> 1" "space_at [a, b] \<noteq> 2" using assms(2) 2 by (simp_all add: space_end_def del: space_at.simps split: if_splits)
    ultimately show ?thesis using 2 by (simp add: space_end_def del: space_at.simps)
  next
    case 3
    then show ?thesis using space_end_append [of r "x @ [?b]"] assms(2) by simp
  qed
qed

lemma space_at_ascii: "32 < byte_of c \<Longrightarrow> byte_of c < 128 \<Longrightarrow> space_at (c # s) = 0"
  by (cases "c # s" rule: space_at.cases) (auto simp: ascii_space_def)

lemma solid_after_blank: "32 < byte_of c \<Longrightarrow> byte_of c < 128 \<Longrightarrow> r \<noteq> [] \<Longrightarrow> solid r \<Longrightarrow> solid (c # x @ CHR '' '' # r)"
  using space_end_after_blank [of r "c # x"] by (simp add: solid_def space_at_ascii)

subsection \<open>Properties of parsing\<close>

lemma command_chars_ascii: "list_all (\<lambda>c. 32 < byte_of c \<and> byte_of c < 127) ''abcdefghijklmnopqrstuvwxyzABCDEFGHIJKLMNOPQRSTUVWXYZ0123456789''"
  by code_simp

lemma command_char_ascii: "command_char c \<or> c = CHR ''_'' \<or> c = CHR ''-'' \<Longrightarrow> 32 < byte_of c \<and> byte_of c < 127"
proof -
  have "32 < byte_of (CHR ''_'') \<and> byte_of (CHR ''_'') < 127" "32 < byte_of (CHR ''-'') \<and> byte_of (CHR ''-'') < 127" by code_simp+
  moreover have "command_char c \<Longrightarrow> 32 < byte_of c \<and> byte_of c < 127"
    using command_chars_ascii unfolding command_char_def list_all_iff by blast
  ultimately show "command_char c \<or> c = CHR ''_'' \<or> c = CHR ''-'' \<Longrightarrow> 32 < byte_of c \<and> byte_of c < 127" by blast
qed

lemma isCommandName_graphic: "isCommandName n \<Longrightarrow> \<forall>c \<in> set n. 32 < byte_of c \<and> byte_of c < 127"
  using command_char_ascii by (cases n) (auto simp: isCommandName_def list_all_iff)

lemma command_end_graphic: "\<forall>c \<in> set n. 32 < byte_of c \<and> byte_of c < 127 \<Longrightarrow> command_end n = length n \<and> command_end (n @ CHR '' '' # r) = length n"
  by (induction n) (auto simp: command_end_def byte_of_blank)

text \<open>a command line survives being written and read back: the line rebuilt for echoing or forwarding parses
  to the same name and the same arguments.\<close>

theorem slash_roundtrip:
  assumes "isCommandName n" "lower n = n" "solid rest"
  shows "parseSlashCommand lower (slashText n rest) = Some (n, rest)"
proof -
  have g: "\<forall>c \<in> set n. 32 < byte_of c \<and> byte_of c < 127" using isCommandName_graphic [OF assms(1)] .
  have slash: "32 < byte_of (CHR ''/'')" "byte_of (CHR ''/'') < 127" by (simp_all add: byte_of_def)
  have s: "solid (slashText n rest)"
  proof (cases "rest = []")
    case True
    then show ?thesis using graphic_solid [of "slashText n rest"] g slash by (simp add: slashText_def)
  next
    case False
    then show ?thesis using solid_after_blank [of "CHR ''/''" rest n] slash assms(3) by (simp add: slashText_def)
  qed
  show ?thesis
    unfolding parseSlashCommand_def Let_def TrimSpace_solid [OF s]
    using command_end_graphic [OF g, of rest] assms(2) TrimSpace_solid [OF assms(3)]
    by (cases "rest = []") (simp_all add: slashText_def HasPrefix_def TrimPrefix_def)
qed

theorem slash_roundtrip_witness:
  "parseSlashCommand id (slashText ''session-info'' ''all of it'') = Some (''session-info'', ''all of it'')"
proof -
  have "isCommandName ''session-info''" "solid ''all of it''" by code_simp+
  then show ?thesis using slash_roundtrip [of "''session-info''" id "''all of it''"] by simp
qed

text \<open>Every name and every alias finds its own command, so the vocabulary is unambiguous and the list
  advertised to clients has every command of it.\<close>

definition keeps_plain :: "(string \<Rightarrow> string) \<Rightarrow> bool" where
  "keeps_plain lower \<longleftrightarrow> (\<forall>n. list_all plain_char n \<longrightarrow> lower n = n)"

lemma plain_graphic:
  assumes "list_all plain_char n"
  shows "solid n" "TrimPrefix n ''/'' = n"
proof -
  have p: "list_all (\<lambda>c. 32 < byte_of c \<and> byte_of c < 127 \<and> c \<noteq> CHR ''/'') ''-abcdefghijklmnopqrstuvwxyz''" by code_simp
  then have "plain_char c \<Longrightarrow> 32 < byte_of c \<and> byte_of c < 127 \<and> c \<noteq> CHR ''/''" for c
    unfolding list_all_iff plain_char_def by blast
  then have a: "\<forall>c \<in> set n. 32 < byte_of c \<and> byte_of c < 127 \<and> c \<noteq> CHR ''/''" using assms unfolding list_all_iff by blast
  then show "solid n" by (intro graphic_solid) blast
  show "TrimPrefix n ''/'' = n" using a by (cases n) (auto simp: TrimPrefix_def HasPrefix_def)
qed

lemma Lookup_name:
  assumes "keeps_plain lower" "spec \<in> set Specs" "n \<in> set (spec_names spec)"
  shows "Lookup lower n = Some spec"
proof -
  have "n \<in> set (concat (map spec_names Specs))" using assms(2,3) by auto
  then have p: "n \<noteq> []" "list_all plain_char n"
    using names_plain unfolding list_all_iff by blast+
  then have "lower (TrimSpace (TrimPrefix n ''/'')) = n"
    using plain_graphic [OF p(2)] assms(1) unfolding keeps_plain_def by (simp only: TrimSpace_solid)
  then show ?thesis using find_by_name [OF names_distinct assms(2,3)] p(1) by (simp add: Lookup_def Let_def)
qed

lemma advertised_complete:
  assumes "keeps_plain lower"
  shows "advertised_list lower same t s = map (\<lambda>spec. remote_command (resolve_spec same t s spec)) Specs"
proof -
  have "Resolve lower same (sp_Name spec) t s = Some (resolve_spec same t s spec)" if "spec \<in> set Specs" for spec
    using Lookup_name [OF assms that, of "sp_Name spec"] by (simp add: Resolve_def spec_names_def)
  then show ?thesis by (simp add: advertised_list_def ResolveAll_def)
qed

subsection \<open>Properties of unsandboxed commands\<close>














subsection \<open>Properties of prompts\<close>














end
