(* ===== verification/Credentials.thy ===== *)
theory Credentials
  imports GoText AtomicWrite
begin

text \<open>
  The credential coordinator of a provider: \<open>internal/providerauth\<close> (\<open>manifest.go\<close>, \<open>store.go\<close>,
  \<open>transaction.go\<close>, \<open>reconcile.go\<close>, \<open>recovery.go\<close>) -- the journal, the retained generations, the
  transaction that replaces the live credential, start-up recovery and the operator's resolution.

  An operation is an action: from the outcomes of the system calls it makes and the disk it finds, it gives a
  result, the disk it leaves, and every disk in between, in order; a crash leaves one of those. The coordinator's
  two locks make an operation exclusive among the coordinators; the provider's own writer changes the live file
  between operations, and while an observation waits for it to settle (the list of reads). \<open>sha\<close> is SHA-256
  in hexadecimal; the adapter's \<open>Validate\<close>, its probe and its report of an external store are arguments, as
  are the new identifiers.
\<close>

subsection \<open>Metadata\<close>

record CredentialMeta =
  cd_Mode :: string
  cd_Sequence :: int
  cd_ExpiresAt :: gotime
  cd_Revocable :: bool

definition meta_of_mode :: "string \<Rightarrow> CredentialMeta" where
  "meta_of_mode mode = \<lparr>cd_Mode = mode, cd_Sequence = 0, cd_ExpiresAt = 0, cd_Revocable = False\<rparr>"

definition order_meta :: "CredentialMeta \<Rightarrow> CredentialMeta \<Rightarrow> bool \<Rightarrow> bool" where
  "order_meta m existing allowEqual =
    (if cd_Mode m \<noteq> cd_Mode existing then False
     else if \<not> IsZero (cd_ExpiresAt m) \<and> \<not> IsZero (cd_ExpiresAt existing) then
       (if allowEqual \<and> cd_ExpiresAt m = cd_ExpiresAt existing then True else cd_ExpiresAt existing < cd_ExpiresAt m)
     else if cd_Sequence m \<noteq> 0 \<and> cd_Sequence existing \<noteq> 0 then
       (if allowEqual then cd_Sequence existing \<le> cd_Sequence m else cd_Sequence existing < cd_Sequence m)
     else False)"

definition Fresher :: "CredentialMeta \<Rightarrow> CredentialMeta \<Rightarrow> bool" where "Fresher m existing = order_meta m existing False"
definition NotOlder :: "CredentialMeta \<Rightarrow> CredentialMeta \<Rightarrow> bool" where "NotOlder m existing = order_meta m existing True"

subsection \<open>The manifest\<close>

type_synonym Fingerprint = string

definition FingerprintAbsent :: Fingerprint where "FingerprintAbsent = ''absent''"

definition Fingerprint_Valid :: "Fingerprint \<Rightarrow> bool" where
  "Fingerprint_Valid f \<longleftrightarrow> f = FingerprintAbsent \<or> length f = 64 \<and> list_all (\<lambda>c. c \<in> set ''0123456789abcdef'') f"

datatype State = StateIdle | StatePending | StateCommitting | StateRecoveryRequired | StateLoggedOut | StateExternal
datatype Label = LabelCurrent | LabelPrevious | LabelPending
datatype Source = SourceSeed | SourceDeviceAuth | SourceAPIKey | SourceRefresh
datatype RecoveryChoice = ChooseLive | ChooseCurrent | ChoosePrevious | ChooseLoggedOut

record Generation =
  g_ID :: string
  g_Label :: Label
  g_Fingerprint :: Fingerprint
  g_Mode :: string
  g_Source :: Source
  g_CreatedAt :: gotime
  g_ValidatedAt :: gotime
  g_Revoked :: bool

record Txn =
  x_ID :: string
  x_ExpectedLive :: Fingerprint
  x_Source :: Source
  x_CreatedAt :: gotime
  x_ActivationDeadline :: gotime

record Manifest =
  mf_Version :: int
  mf_State :: State
  mf_Generations :: "Generation list"
  mf_Transaction :: "Txn option"
  mf_LoggedOutExpected :: Fingerprint
  mf_LoggedOutAt :: gotime
  mf_OperatorChoice :: "RecoveryChoice option"
  mf_OperatorChoiceAt :: gotime
  mf_UpdatedAt :: gotime

definition manifestVersion :: int where "manifestVersion = 1"

definition newManifest :: Manifest where
  "newManifest = \<lparr>mf_Version = manifestVersion, mf_State = StateIdle, mf_Generations = [], mf_Transaction = None, mf_LoggedOutExpected = [],
     mf_LoggedOutAt = 0, mf_OperatorChoice = None, mf_OperatorChoiceAt = 0, mf_UpdatedAt = 0\<rparr>"

definition clearOperatorChoice :: "Manifest \<Rightarrow> Manifest" where
  "clearOperatorChoice m = m\<lparr>mf_OperatorChoice := None, mf_OperatorChoiceAt := 0\<rparr>"

definition byLabel :: "Label \<Rightarrow> Manifest \<Rightarrow> Generation option" where
  "byLabel l m = find (\<lambda>g. g_Label g = l) (mf_Generations m)"

definition dropLabel :: "Label \<Rightarrow> Manifest \<Rightarrow> Manifest" where
  "dropLabel l m = m\<lparr>mf_Generations := filter (\<lambda>g. g_Label g \<noteq> l) (mf_Generations m)\<rparr>"

text \<open>The states, labels and sources of a decoded manifest are values of their types; an unknown one is a
  manifest that cannot be read.\<close>

definition manifest_validate :: "Manifest \<Rightarrow> bool" where
  "manifest_validate m \<longleftrightarrow> mf_Version m = manifestVersion \<and>
    list_all (\<lambda>g. g_ID g \<noteq> [] \<and> Fingerprint_Valid (g_Fingerprint g) \<and> g_Fingerprint g \<noteq> FingerprintAbsent) (mf_Generations m) \<and>
    distinct (map g_ID (mf_Generations m)) \<and> distinct (map g_Label (mf_Generations m)) \<and>
    (case mf_Transaction m of Some t \<Rightarrow> Fingerprint_Valid (x_ExpectedLive t) | None \<Rightarrow> True)"

fun relabel_first :: "Label \<Rightarrow> Label \<Rightarrow> Generation list \<Rightarrow> Generation list" where
  "relabel_first l l' [] = []"
| "relabel_first l l' (g # gs) = (if g_Label g = l then g\<lparr>g_Label := l'\<rparr> # gs else g # relabel_first l l' gs)"

definition rotateLocked :: "string \<Rightarrow> Manifest \<Rightarrow> Manifest" where
  "rotateLocked newCurrentID m =
    (let m1 = dropLabel LabelPrevious m;
         gs = relabel_first LabelCurrent LabelPrevious (mf_Generations m1)
     in m1\<lparr>mf_Generations := map (\<lambda>g. if g_ID g = newCurrentID then g\<lparr>g_Label := LabelCurrent\<rparr> else g) gs\<rparr>)"

definition add_generation :: "Generation \<Rightarrow> Manifest \<Rightarrow> Manifest" where
  "add_generation g m = m\<lparr>mf_Generations := mf_Generations m @ [g]\<rparr>"

subsection \<open>Disk and actions\<close>

text \<open>The live credential: absent, a regular file, or something that cannot be read as one. A candidate that
  is a symbolic link, not a regular file, readable by others or too large is refused whatever it holds.\<close>

datatype live_file = NoLive | LiveFile string | LiveIrregular
datatype candidate = NoCandidate | RefusedCandidate | Candidate string
datatype manifest_file = NoManifest | ManifestUnreadable | ManifestFile Manifest

record disk =
  dk_manifest :: manifest_file
  dk_gens :: "(string \<times> string) list"
  dk_live :: live_file
  dk_pending :: "(string \<times> candidate) list"

datatype cred_error = ErrTransactionBusy | ErrConflict | ErrUnsupportedBackend | ErrInvalidCandidate | ErrRecoveryRequired
  | ErrCredLock | ErrCredPath | ErrCredRead | ErrCredWrite | ErrManifestInvalid | ErrNotVerified

type_synonym 'a act = "write_result list \<Rightarrow> disk \<Rightarrow> (cred_error + 'a) \<times> write_result list \<times> disk \<times> disk list"

definition ret :: "'a \<Rightarrow> 'a act" where "ret a = (\<lambda>rs d. (Inr a, rs, d, []))"
definition fails :: "cred_error \<Rightarrow> 'a act" where "fails e = (\<lambda>rs d. (Inl e, rs, d, []))"
definition getd :: "disk act" where "getd = (\<lambda>rs d. (Inr d, rs, d, []))"

definition andThen :: "'a act \<Rightarrow> ('a \<Rightarrow> 'b act) \<Rightarrow> 'b act" where
  "andThen f g = (\<lambda>rs d. case f rs d of
     (Inl e, rs1, d1, tr) \<Rightarrow> (Inl e, rs1, d1, tr)
   | (Inr a, rs1, d1, tr) \<Rightarrow> (case g a rs1 d1 of (r, rs2, d2, tr2) \<Rightarrow> (r, rs2, d2, tr @ tr2)))"

text \<open>The error of an action as a value, and a clean-up whose own failure is ignored.\<close>

definition attempt :: "'a act \<Rightarrow> (cred_error + 'a) act" where
  "attempt f = (\<lambda>rs d. case f rs d of (r, rs1, d1, tr) \<Rightarrow> (Inr r, rs1, d1, tr))"

definition onError :: "'a act \<Rightarrow> 'b act \<Rightarrow> 'a act" where
  "onError f g = andThen (attempt f) (\<lambda>r. case r of Inr x \<Rightarrow> ret x | Inl e \<Rightarrow> andThen (attempt g) (\<lambda>_. fails e))"

definition check :: "bool \<Rightarrow> cred_error \<Rightarrow> unit act" where "check b e = (if b then ret () else fails e)"

text \<open>One change of the disk, with the outcome the operating system gives it.\<close>

definition change :: "(disk \<Rightarrow> disk) \<Rightarrow> unit act" where
  "change f = (\<lambda>rs d.
     let r = (case rs of [] \<Rightarrow> Written | r # _ \<Rightarrow> r); d1 = after_write r d (f d)
     in (if ok_write r then Inr () else Inl ErrCredWrite, tl rs, d1, [d1]))"

fun each :: "('a \<Rightarrow> unit act) \<Rightarrow> 'a list \<Rightarrow> unit act" where
  "each f [] = ret ()"
| "each f (x # xs) = andThen (f x) (\<lambda>_. each f xs)"

subsection \<open>The store\<close>

definition createPendingHome :: "string \<Rightarrow> unit act" where
  "createPendingHome i = change (\<lambda>d. d\<lparr>dk_pending := (i, NoCandidate) # dk_pending d\<rparr>)"

definition drop_key :: "string \<Rightarrow> (string \<times> 'a) list \<Rightarrow> (string \<times> 'a) list" where
  "drop_key i = filter (\<lambda>p. fst p \<noteq> i)"

definition removeTxn :: "string \<Rightarrow> unit act" where
  "removeTxn i = (if i = [] then ret () else change (\<lambda>d. d\<lparr>dk_pending := drop_key i (dk_pending d)\<rparr>))"

definition removeStalePending :: "string \<Rightarrow> unit act" where
  "removeStalePending keep = andThen getd (\<lambda>d. each (\<lambda>i. change (\<lambda>d. d\<lparr>dk_pending := drop_key i (dk_pending d)\<rparr>))
     (filter (\<lambda>i. i \<noteq> keep) (map fst (dk_pending d))))"

definition readCandidate :: "string \<Rightarrow> string act" where
  "readCandidate i = andThen getd (\<lambda>d.
     case map_of (dk_pending d) i of
       Some (Candidate b) \<Rightarrow> if b = [] then fails ErrInvalidCandidate else ret b
     | _ \<Rightarrow> fails ErrInvalidCandidate)"

definition writeGeneration :: "string \<Rightarrow> string \<Rightarrow> unit act" where
  "writeGeneration i data = change (\<lambda>d. d\<lparr>dk_gens := (i, data) # drop_key i (dk_gens d)\<rparr>)"

definition readGeneration :: "string \<Rightarrow> disk \<Rightarrow> string option" where
  "readGeneration i d = map_of (dk_gens d) i"

definition pruneGenerations :: "Manifest \<Rightarrow> unit act" where
  "pruneGenerations m = andThen getd (\<lambda>d. each (\<lambda>i. change (\<lambda>d. d\<lparr>dk_gens := drop_key i (dk_gens d)\<rparr>))
     (filter (\<lambda>i. i \<notin> g_ID ` set (mf_Generations m)) (map fst (dk_gens d))))"

text \<open>\<open>FingerprintOf\<close> is \<open>sha\<close>.\<close>

definition fingerprint_of :: "(string \<Rightarrow> Fingerprint) \<Rightarrow> live_file \<Rightarrow> (Fingerprint \<times> string) option" where
  "fingerprint_of sha l = (case l of NoLive \<Rightarrow> Some (FingerprintAbsent, []) | LiveFile b \<Rightarrow> Some (sha b, b) | LiveIrregular \<Rightarrow> None)"

definition liveFingerprint :: "(string \<Rightarrow> Fingerprint) \<Rightarrow> (Fingerprint \<times> string) act" where
  "liveFingerprint sha = andThen getd (\<lambda>d. case fingerprint_of sha (dk_live d) of Some p \<Rightarrow> ret p | None \<Rightarrow> fails ErrCredRead)"

definition write_live :: "string \<Rightarrow> unit act" where "write_live data = change (\<lambda>d. d\<lparr>dk_live := LiveFile data\<rparr>)"
definition removeIfExists :: "unit act" where "removeIfExists = change (\<lambda>d. d\<lparr>dk_live := NoLive\<rparr>)"

definition saveManifest :: "gotime \<Rightarrow> Manifest \<Rightarrow> unit act" where
  "saveManifest now m =
    (if manifest_validate (m\<lparr>mf_UpdatedAt := now\<rparr>) then change (\<lambda>d. d\<lparr>dk_manifest := ManifestFile (m\<lparr>mf_UpdatedAt := now\<rparr>)\<rparr>)
     else fails ErrManifestInvalid)"

definition loadOrInit :: "Manifest act" where
  "loadOrInit = andThen getd (\<lambda>d. case dk_manifest d of
       NoManifest \<Rightarrow> ret newManifest
     | ManifestUnreadable \<Rightarrow> fails ErrManifestInvalid
     | ManifestFile m \<Rightarrow> if manifest_validate m then ret m else fails ErrManifestInvalid)"

subsection \<open>Transactions\<close>

text \<open>What an operation takes from outside: SHA-256, the adapter's \<open>Validate\<close>, whether the provider reports
  that its credential is external, whether its paths resolve and the two locks are obtained, and the time.\<close>

record cred_env =
  ce_sha :: "string \<Rightarrow> Fingerprint"
  ce_validate :: "string \<Rightarrow> CredentialMeta option"
  ce_external :: bool
  ce_paths :: bool
  ce_lock :: bool
  ce_native :: bool
  ce_now :: gotime

definition withProviderLock :: "cred_env \<Rightarrow> (Manifest \<Rightarrow> 'a act) \<Rightarrow> 'a act" where
  "withProviderLock a body = andThen (check (ce_lock a) ErrCredLock) (\<lambda>_. andThen loadOrInit body)"

definition native_lock :: "cred_env \<Rightarrow> unit act" where
  "native_lock a = andThen (check (ce_paths a) ErrCredPath) (\<lambda>_. check (ce_native a) ErrCredLock)"

definition generation :: "string \<Rightarrow> Label \<Rightarrow> Fingerprint \<Rightarrow> string \<Rightarrow> Source \<Rightarrow> gotime \<Rightarrow> gotime \<Rightarrow> Generation" where
  "generation i l fp mode src created validated = \<lparr>g_ID = i, g_Label = l, g_Fingerprint = fp, g_Mode = mode, g_Source = src,
     g_CreatedAt = created, g_ValidatedAt = validated, g_Revoked = False\<rparr>"

definition saves :: "cred_env \<Rightarrow> Manifest \<Rightarrow> Manifest act" where
  "saves a m = andThen (saveManifest (ce_now a) m) (\<lambda>_. ret m)"

definition seedLocked :: "cred_env \<Rightarrow> string \<Rightarrow> Manifest \<Rightarrow> Manifest act" where
  "seedLocked a i m =
    (if mf_State m = StateLoggedOut \<or> byLabel LabelCurrent m \<noteq> None then saves a m
     else
       andThen (check (ce_paths a) ErrCredPath) (\<lambda>_.
       andThen (liveFingerprint (ce_sha a)) (\<lambda>(fp, data).
         if fp = FingerprintAbsent then saves a m
         else (case ce_validate a data of
             None \<Rightarrow> saves a (m\<lparr>mf_State := StateIdle\<rparr>)
           | Some meta \<Rightarrow>
               andThen (writeGeneration i data) (\<lambda>_.
                 saves a ((add_generation (generation i LabelCurrent fp (cd_Mode meta) SourceSeed (ce_now a) (ce_now a)) m)\<lparr>mf_State := StateIdle\<rparr>))))))"

definition Seed :: "cred_env \<Rightarrow> string \<Rightarrow> unit act" where
  "Seed a i = withProviderLock a (\<lambda>m. andThen (seedLocked a i m) (\<lambda>_. ret ()))"

definition Begin :: "cred_env \<Rightarrow> gotime \<Rightarrow> string \<Rightarrow> string \<Rightarrow> Source \<Rightarrow> Txn act" where
  "Begin a deadline i txnID src = withProviderLock a (\<lambda>m.
     andThen (check (mf_State m \<noteq> StatePending \<and> mf_State m \<noteq> StateCommitting) ErrTransactionBusy) (\<lambda>_.
     andThen (if mf_State m \<noteq> StateRecoveryRequired \<and> mf_State m \<noteq> StateExternal then seedLocked a i m else ret m) (\<lambda>m1.
     andThen (check (ce_paths a) ErrCredPath) (\<lambda>_.
     andThen (liveFingerprint (ce_sha a)) (\<lambda>(fp, data).
     andThen (createPendingHome txnID) (\<lambda>_.
       let txn = \<lparr>x_ID = txnID, x_ExpectedLive = fp, x_Source = src, x_CreatedAt = ce_now a, x_ActivationDeadline = ce_now a + deadline\<rparr>
       in andThen (onError (saveManifest (ce_now a) (m1\<lparr>mf_Transaction := Some txn, mf_State := StatePending\<rparr>)) (removeTxn txnID)) (\<lambda>_. ret txn)))))))"

definition own_txn :: "string \<Rightarrow> Manifest \<Rightarrow> Txn act" where
  "own_txn txnID m = (case mf_Transaction m of
     Some t \<Rightarrow> if x_ID t = txnID then ret t else fails ErrTransactionBusy
   | None \<Rightarrow> fails ErrTransactionBusy)"

definition StageCandidate :: "cred_env \<Rightarrow> string \<Rightarrow> string \<Rightarrow> unit act" where
  "StageCandidate a i txnID = withProviderLock a (\<lambda>m.
     andThen (own_txn txnID m) (\<lambda>t.
     andThen (readCandidate txnID) (\<lambda>data.
       case ce_validate a data of
         None \<Rightarrow> fails ErrInvalidCandidate
       | Some meta \<Rightarrow>
           andThen (writeGeneration i data) (\<lambda>_.
           let m1 = add_generation (generation i LabelPending (ce_sha a data) (cd_Mode meta) (x_Source t) (ce_now a) 0) (dropLabel LabelPending m)
           in andThen (saves a m1) (\<lambda>_. pruneGenerations m1)))))"

definition stamp_pending :: "gotime \<Rightarrow> Manifest \<Rightarrow> Manifest" where
  "stamp_pending now m = m\<lparr>mf_Generations := map (\<lambda>g. if g_Label g = LabelPending then g\<lparr>g_ValidatedAt := now\<rparr> else g) (mf_Generations m)\<rparr>"

text \<open>\<open>probed\<close>: the answer of the provider's own probe of the staged candidate.\<close>

definition ValidateCandidate :: "cred_env \<Rightarrow> bool \<Rightarrow> string \<Rightarrow> unit act" where
  "ValidateCandidate a probed txnID = withProviderLock a (\<lambda>m.
     andThen (own_txn txnID m) (\<lambda>_.
     andThen (check (byLabel LabelPending m \<noteq> None \<and> probed) ErrInvalidCandidate) (\<lambda>_.
       saveManifest (ce_now a) (stamp_pending (ce_now a) m))))"

text \<open>The end of \<open>Commit\<close>, under both locks.\<close>

definition publish :: "cred_env \<Rightarrow> Txn \<Rightarrow> Generation \<Rightarrow> string \<Rightarrow> Manifest \<Rightarrow> unit act" where
  "publish a t pend data m =
     andThen (liveFingerprint (ce_sha a)) (\<lambda>(fp, old).
     andThen (check (fp = x_ExpectedLive t) ErrConflict) (\<lambda>_.
     andThen (saves a (m\<lparr>mf_State := StateCommitting\<rparr>)) (\<lambda>m1.
     andThen (write_live data) (\<lambda>_.
     andThen (liveFingerprint (ce_sha a)) (\<lambda>(got, new).
       if got \<noteq> ce_sha a data then
         andThen (attempt (saveManifest (ce_now a) (m1\<lparr>mf_State := StateRecoveryRequired\<rparr>))) (\<lambda>_. fails ErrNotVerified)
       else
         (let m2 = (rotateLocked (g_ID pend) m1)\<lparr>mf_Transaction := None, mf_State := StateIdle\<rparr>
          in andThen (saves a m2) (\<lambda>_. andThen (removeTxn (x_ID t)) (\<lambda>_. pruneGenerations m2))))))))"

definition Commit :: "cred_env \<Rightarrow> string \<Rightarrow> unit act" where
  "Commit a txnID = withProviderLock a (\<lambda>m.
     andThen (own_txn txnID m) (\<lambda>t.
     andThen (check (mf_State m \<noteq> StateExternal) ErrUnsupportedBackend) (\<lambda>_.
       case byLabel LabelPending m of
         None \<Rightarrow> fails ErrInvalidCandidate
       | Some pend \<Rightarrow>
           if IsZero (g_ValidatedAt pend) then fails ErrInvalidCandidate
           else andThen getd (\<lambda>d. case readGeneration (g_ID pend) d of
               None \<Rightarrow> fails ErrCredRead
             | Some data \<Rightarrow> andThen (native_lock a) (\<lambda>_. publish a t pend data m)))))"

definition Abort :: "cred_env \<Rightarrow> string \<Rightarrow> unit act" where
  "Abort a txnID = withProviderLock a (\<lambda>m.
     if (case mf_Transaction m of Some t \<Rightarrow> x_ID t \<noteq> txnID | None \<Rightarrow> True) then ret ()
     else
       (let m1 = (dropLabel LabelPending m)\<lparr>mf_Transaction := None\<rparr>;
            m2 = (if mf_State m1 \<noteq> StateRecoveryRequired \<and> mf_State m1 \<noteq> StateExternal then m1\<lparr>mf_State := StateIdle\<rparr> else m1)
        in andThen (saves a m2) (\<lambda>_. andThen (removeTxn txnID) (\<lambda>_. pruneGenerations m2))))"

definition MarkRevoked :: "cred_env \<Rightarrow> unit act" where
  "MarkRevoked a = withProviderLock a (\<lambda>m.
     andThen (check (mf_State m \<noteq> StateExternal) ErrUnsupportedBackend) (\<lambda>_.
       saveManifest (ce_now a) (m\<lparr>mf_Generations := map (\<lambda>g. g\<lparr>g_Revoked := True\<rparr>) (mf_Generations m)\<rparr>)))"

definition tombstone :: "gotime \<Rightarrow> Fingerprint \<Rightarrow> Manifest \<Rightarrow> Manifest" where
  "tombstone now fp m = m\<lparr>mf_State := StateLoggedOut, mf_LoggedOutExpected := fp, mf_LoggedOutAt := now, mf_Transaction := None, mf_Generations := []\<rparr>"

definition RecordLogout :: "cred_env \<Rightarrow> unit act" where
  "RecordLogout a = withProviderLock a (\<lambda>m.
     andThen (check (mf_State m \<noteq> StateExternal) ErrUnsupportedBackend) (\<lambda>_.
     andThen (native_lock a) (\<lambda>_.
     andThen (liveFingerprint (ce_sha a)) (\<lambda>(fp, data).
       let m1 = tombstone (ce_now a) fp m
       in andThen (saves a m1) (\<lambda>_.
          andThen (if fp \<noteq> FingerprintAbsent then removeIfExists else ret ()) (\<lambda>_.
          andThen (pruneGenerations m1) (\<lambda>_. removeStalePending [])))))))"

subsection \<open>Status\<close>

datatype BackupState = BackupUnmanaged | BackupCurrent | BackupPending | BackupLoggedOut | BackupRecoveryRequired | BackupReauthRequired | BackupUnsupported

definition restorable :: "Generation option \<Rightarrow> bool" where
  "restorable g = (case g of Some x \<Rightarrow> \<not> g_Revoked x | None \<Rightarrow> False)"

definition statusLocked :: "Manifest \<Rightarrow> BackupState \<times> bool" where
  "statusLocked m =
    (let cur = byLabel LabelCurrent m; avail = restorable cur \<or> restorable (byLabel LabelPrevious m)
     in (case mf_State m of
           StateLoggedOut \<Rightarrow> (BackupLoggedOut, False)
         | StateRecoveryRequired \<Rightarrow> (if avail then BackupRecoveryRequired else BackupReauthRequired, avail)
         | StatePending \<Rightarrow> (BackupPending, avail)
         | StateCommitting \<Rightarrow> (BackupPending, avail)
         | StateExternal \<Rightarrow> (BackupUnsupported, False)
         | StateIdle \<Rightarrow> (if cur = None then BackupUnmanaged else if \<not> avail then BackupReauthRequired else BackupCurrent, avail)))"

definition Status_of :: "cred_env \<Rightarrow> (BackupState \<times> bool) act" where
  "Status_of a = withProviderLock a (\<lambda>m. ret (statusLocked m))"

subsection \<open>Observation\<close>

record observation =
  ob_fp :: Fingerprint
  ob_meta :: CredentialMeta
  ob_valid :: bool
  ob_stable :: bool

definition MaxCredentialBytes :: nat where "MaxCredentialBytes = 2 ^ 20"

definition observed :: "Fingerprint \<Rightarrow> bool \<Rightarrow> observation" where
  "observed fp settled = \<lparr>ob_fp = fp, ob_meta = meta_of_mode [], ob_valid = False, ob_stable = settled\<rparr>"

text \<open>\<open>observeWithBytes\<close> on one reading of the live file.\<close>

definition observeWithBytes :: "cred_env \<Rightarrow> live_file \<Rightarrow> observation \<times> string" where
  "observeWithBytes a l =
    (case l of
       LiveIrregular \<Rightarrow> (observed [] True, [])
     | NoLive \<Rightarrow> (observed FingerprintAbsent True, [])
     | LiveFile data \<Rightarrow>
         if MaxCredentialBytes < length data then (observed [] True, [])
         else if data = [] then (observed (ce_sha a data) False, data)
         else (case ce_validate a data of
             None \<Rightarrow> (observed (ce_sha a data) True, data)
           | Some meta \<Rightarrow> (\<lparr>ob_fp = ce_sha a data, ob_meta = meta, ob_valid = True, ob_stable = True\<rparr>, data)))"

text \<open>\<open>stableObservation\<close>: the readings up to the deadline. No reading at all stands for a cancelled context.\<close>

fun stable_loop :: "cred_env \<Rightarrow> live_file \<Rightarrow> live_file list \<Rightarrow> observation \<times> string" where
  "stable_loop a first [] = (observed (ob_fp (fst (observeWithBytes a first))) False, snd (observeWithBytes a first))"
| "stable_loop a first (next # rest) =
    (if ob_fp (fst (observeWithBytes a next)) = ob_fp (fst (observeWithBytes a first)) \<and>
        ob_valid (fst (observeWithBytes a next)) = ob_valid (fst (observeWithBytes a first))
     then observeWithBytes a next else stable_loop a next rest)"

definition stableObservation :: "cred_env \<Rightarrow> live_file list \<Rightarrow> (observation \<times> string) act" where
  "stableObservation a reads =
     andThen (check (ce_paths a) ErrCredPath) (\<lambda>_. case reads of [] \<Rightarrow> fails ErrCredRead | first # rest \<Rightarrow> ret (stable_loop a first rest))"

definition metaOf :: "cred_env \<Rightarrow> disk \<Rightarrow> Generation \<Rightarrow> CredentialMeta" where
  "metaOf a d g = (case readGeneration (g_ID g) d of
     None \<Rightarrow> meta_of_mode (g_Mode g)
   | Some data \<Rightarrow> (case ce_validate a data of None \<Rightarrow> meta_of_mode (g_Mode g) | Some meta \<Rightarrow> meta))"

text \<open>The promotion of an observed credential, which three operations have in common.\<close>

definition adopt_live :: "cred_env \<Rightarrow> string \<Rightarrow> Source \<Rightarrow> observation \<Rightarrow> string \<Rightarrow> (Manifest \<Rightarrow> Manifest) \<Rightarrow> Manifest \<Rightarrow> unit act" where
  "adopt_live a i src obs data finally_m m =
     andThen (writeGeneration i data) (\<lambda>_.
     let m1 = finally_m (rotateLocked i (add_generation (generation i LabelPending (ob_fp obs) (cd_Mode (ob_meta obs)) src (ce_now a) (ce_now a)) m))
     in andThen (saves a m1) (\<lambda>_. pruneGenerations m1))"

subsection \<open>Reconciliation\<close>

definition reconcileLocked :: "cred_env \<Rightarrow> string \<Rightarrow> live_file list \<Rightarrow> Manifest \<Rightarrow> unit act" where
  "reconcileLocked a i reads m =
    (if mf_State m \<in> {StatePending, StateCommitting, StateRecoveryRequired, StateLoggedOut} then ret ()
     else (case byLabel LabelCurrent m of
         None \<Rightarrow> andThen (seedLocked a i m) (\<lambda>_. ret ())
       | Some cur \<Rightarrow>
           andThen (attempt (stableObservation a reads)) (\<lambda>r. andThen getd (\<lambda>d.
             case r of
               Inl e \<Rightarrow> ret ()
             | Inr (obs, data) \<Rightarrow>
                 if \<not> ob_valid obs \<or> ob_fp obs = g_Fingerprint cur \<or> \<not> NotOlder (ob_meta obs) (metaOf a d cur) then ret ()
                 else adopt_live a i SourceRefresh obs data (\<lambda>m. m) m))))"

definition Reconcile :: "cred_env \<Rightarrow> string \<Rightarrow> live_file list \<Rightarrow> unit act" where
  "Reconcile a i reads = withProviderLock a (reconcileLocked a i reads)"

subsection \<open>Recovery at start-up\<close>

definition finish_state :: "cred_env \<Rightarrow> State \<Rightarrow> Manifest \<Rightarrow> State act" where
  "finish_state a s m = andThen (saveManifest (ce_now a) (m\<lparr>mf_State := s\<rparr>)) (\<lambda>_. ret s)"

definition recoverIdle :: "cred_env \<Rightarrow> string \<Rightarrow> observation \<Rightarrow> string \<Rightarrow> Manifest \<Rightarrow> State act" where
  "recoverIdle a i obs data m =
    (if \<not> ob_stable obs then ret (mf_State m)
     else (case byLabel LabelCurrent m of
         None \<Rightarrow> andThen (seedLocked a i m) (\<lambda>m1. andThen (removeStalePending []) (\<lambda>_. ret (mf_State m1)))
       | Some cur \<Rightarrow>
           if ob_fp obs = g_Fingerprint cur then andThen (removeStalePending []) (\<lambda>_. finish_state a StateIdle m)
           else andThen getd (\<lambda>d.
             if ob_valid obs \<and> NotOlder (ob_meta obs) (metaOf a d cur) then
               andThen (adopt_live a i SourceRefresh obs data (\<lambda>m. m) m) (\<lambda>_. andThen (removeStalePending []) (\<lambda>_. ret StateIdle))
             else if \<not> ob_valid obs \<and> ce_external a then finish_state a StateExternal m
             else finish_state a StateRecoveryRequired m)))"

definition recoverPending :: "cred_env \<Rightarrow> observation \<Rightarrow> Manifest \<Rightarrow> State act" where
  "recoverPending a obs m =
    (case mf_Transaction m of
       None \<Rightarrow> finish_state a StateRecoveryRequired m
     | Some t \<Rightarrow>
         if ob_fp obs \<noteq> x_ExpectedLive t then finish_state a StateRecoveryRequired m
         else
           (let m1 = (dropLabel LabelPending m)\<lparr>mf_Transaction := None, mf_State := StateIdle\<rparr>
            in andThen (saves a m1) (\<lambda>_. andThen (removeTxn (x_ID t)) (\<lambda>_.
               andThen (pruneGenerations m1) (\<lambda>_. andThen (removeStalePending []) (\<lambda>_. ret StateIdle))))))"

definition recoverCommitting :: "cred_env \<Rightarrow> observation \<Rightarrow> Manifest \<Rightarrow> State act" where
  "recoverCommitting a obs m =
    (case (mf_Transaction m, byLabel LabelPending m) of
       (Some t, Some pend) \<Rightarrow>
         (let done_with = (\<lambda>m1. andThen (saves a m1) (\<lambda>_. andThen (removeTxn (x_ID t)) (\<lambda>_.
                andThen (pruneGenerations m1) (\<lambda>_. ret StateIdle))))
          in if ob_fp obs = g_Fingerprint pend then
               done_with ((rotateLocked (g_ID pend) m)\<lparr>mf_Transaction := None, mf_State := StateIdle\<rparr>)
             else if ob_fp obs = x_ExpectedLive t then
               done_with ((dropLabel LabelPending m)\<lparr>mf_Transaction := None, mf_State := StateIdle\<rparr>)
             else finish_state a StateRecoveryRequired m)
     | _ \<Rightarrow> finish_state a StateRecoveryRequired m)"

definition recoverLoggedOut :: "cred_env \<Rightarrow> observation \<Rightarrow> Manifest \<Rightarrow> State act" where
  "recoverLoggedOut a obs m =
    (let clean = andThen (pruneGenerations m) (\<lambda>_. andThen (removeStalePending []) (\<lambda>_. ret StateLoggedOut))
     in if ob_fp obs = FingerprintAbsent then clean
        else if ob_fp obs = mf_LoggedOutExpected m then
          andThen (check (ce_paths a) ErrCredPath) (\<lambda>_. andThen removeIfExists (\<lambda>_. clean))
        else finish_state a StateRecoveryRequired m)"

definition recoverLocked :: "cred_env \<Rightarrow> string \<Rightarrow> live_file list \<Rightarrow> Manifest \<Rightarrow> State act" where
  "recoverLocked a i reads m =
    (if mf_State m = StateRecoveryRequired \<and> mf_OperatorChoice m \<noteq> None then ret StateRecoveryRequired
     else andThen (stableObservation a reads) (\<lambda>(obs, data).
       case mf_State m of
         StateLoggedOut \<Rightarrow> recoverLoggedOut a obs m
       | StatePending \<Rightarrow> recoverPending a obs m
       | StateCommitting \<Rightarrow> recoverCommitting a obs m
       | _ \<Rightarrow> recoverIdle a i obs data m))"

definition Recover :: "cred_env \<Rightarrow> string \<Rightarrow> live_file list \<Rightarrow> State act" where
  "Recover a i reads = withProviderLock a (recoverLocked a i reads)"

subsection \<open>The operator's resolution\<close>

definition resolveLoggedOut :: "cred_env \<Rightarrow> Manifest \<Rightarrow> unit act" where
  "resolveLoggedOut a m =
     andThen (check (ce_paths a) ErrCredPath) (\<lambda>_.
     andThen getd (\<lambda>d.
       let fp = (case fingerprint_of (ce_sha a) (dk_live d) of Some p \<Rightarrow> fst p | None \<Rightarrow> FingerprintAbsent);
           m1 = tombstone (ce_now a) fp (clearOperatorChoice m)
       in andThen (saves a m1) (\<lambda>_. andThen removeIfExists (\<lambda>_. andThen (pruneGenerations m1) (\<lambda>_. removeStalePending [])))))"

definition resolveAdoptLive :: "cred_env \<Rightarrow> string \<Rightarrow> live_file list \<Rightarrow> Manifest \<Rightarrow> unit act" where
  "resolveAdoptLive a i reads m =
     andThen (stableObservation a reads) (\<lambda>(obs, data).
     andThen (check (ob_valid obs) ErrInvalidCandidate) (\<lambda>_.
       adopt_live a i SourceSeed obs data (\<lambda>m. (clearOperatorChoice m)\<lparr>mf_State := StateIdle\<rparr>) m))"

text \<open>The labels after \<open>PREVIOUS\<close> was published: the pointer to it is found before the relabelling.\<close>

definition swap_labels :: "string \<Rightarrow> Manifest \<Rightarrow> Manifest" where
  "swap_labels i m =
    (let gs1 = relabel_first LabelCurrent LabelPending (mf_Generations m);
         gs2 = map (\<lambda>g. if g_ID g = i then g\<lparr>g_Label := LabelCurrent\<rparr> else g) gs1
     in m\<lparr>mf_Generations := map (\<lambda>g. if g_Label g = LabelPending then g\<lparr>g_Label := LabelPrevious\<rparr> else g) gs2\<rparr>)"

text \<open>The end of \<open>resolveRepublish\<close>, under both locks.\<close>

definition republish :: "cred_env \<Rightarrow> Label \<Rightarrow> Generation \<Rightarrow> string \<Rightarrow> Manifest \<Rightarrow> unit act" where
  "republish a l gen data m =
     andThen (write_live data) (\<lambda>_.
     andThen (liveFingerprint (ce_sha a)) (\<lambda>(got, new).
     andThen (check (got = g_Fingerprint gen) ErrNotVerified) (\<lambda>_.
       let m1 = (clearOperatorChoice (if l = LabelPrevious then swap_labels (g_ID gen) m else m))\<lparr>mf_State := StateIdle\<rparr>
       in andThen (saves a m1) (\<lambda>_. pruneGenerations m1))))"

definition resolveRepublish :: "cred_env \<Rightarrow> Label \<Rightarrow> Manifest \<Rightarrow> unit act" where
  "resolveRepublish a l m =
    (case byLabel l m of
       None \<Rightarrow> fails ErrInvalidCandidate
     | Some gen \<Rightarrow>
         if g_Revoked gen then fails ErrInvalidCandidate
         else andThen getd (\<lambda>d. case readGeneration (g_ID gen) d of
             None \<Rightarrow> fails ErrInvalidCandidate
           | Some data \<Rightarrow>
               if ce_validate a data = None then fails ErrInvalidCandidate
               else andThen (native_lock a) (\<lambda>_. republish a l gen data m)))"

definition ResolveRecovery :: "cred_env \<Rightarrow> string \<Rightarrow> live_file list \<Rightarrow> RecoveryChoice \<Rightarrow> unit act" where
  "ResolveRecovery a i reads choice = withProviderLock a (\<lambda>m.
     andThen (check (mf_State m = StateRecoveryRequired) ErrRecoveryRequired) (\<lambda>_.
     andThen (saves a (m\<lparr>mf_OperatorChoice := Some choice, mf_OperatorChoiceAt := ce_now a\<rparr>)) (\<lambda>m1.
       case choice of
         ChooseLoggedOut \<Rightarrow> resolveLoggedOut a m1
       | ChooseLive \<Rightarrow> resolveAdoptLive a i reads m1
       | ChooseCurrent \<Rightarrow> resolveRepublish a LabelCurrent m1
       | ChoosePrevious \<Rightarrow> resolveRepublish a LabelPrevious m1)))"

subsection \<open>Steps\<close>

datatype cred_op = OpSeed | OpBegin string Source gotime | OpStage string | OpValidate bool string | OpCommit string | OpAbort string
  | OpRevoke | OpLogout | OpReconcile "live_file list" | OpRecover "live_file list" | OpResolve "live_file list" RecoveryChoice

definition discard :: "'a act \<Rightarrow> unit act" where "discard f = andThen f (\<lambda>_. ret ())"

text \<open>An operation, with the identifier of the generation it may write.\<close>

fun run_cred :: "cred_env \<Rightarrow> string \<Rightarrow> cred_op \<Rightarrow> unit act" where
  "run_cred a i OpSeed = Seed a i"
| "run_cred a i (OpBegin txnID src deadline) = discard (Begin a deadline i txnID src)"
| "run_cred a i (OpStage txnID) = StageCandidate a i txnID"
| "run_cred a i (OpValidate probed txnID) = ValidateCandidate a probed txnID"
| "run_cred a i (OpCommit txnID) = Commit a txnID"
| "run_cred a i (OpAbort txnID) = Abort a txnID"
| "run_cred a i OpRevoke = MarkRevoked a"
| "run_cred a i OpLogout = RecordLogout a"
| "run_cred a i (OpReconcile reads) = Reconcile a i reads"
| "run_cred a i (OpRecover reads) = discard (Recover a i reads)"
| "run_cred a i (OpResolve reads choice) = ResolveRecovery a i reads choice"

text \<open>A step: an operation that ends or is cut short by a crash, the provider's own writer at work on the live
  file, or a child in a pending home.\<close>

inductive cred_step :: "(string \<Rightarrow> Fingerprint) \<Rightarrow> disk \<Rightarrow> disk \<Rightarrow> bool" for sha where
  cred_run: "run_cred a i p rs d = (r, rs1, d1, tr) \<Longrightarrow> ce_sha a = sha \<Longrightarrow> i \<notin> fst ` set (dk_gens d) \<Longrightarrow> x = d1 \<or> x \<in> set tr \<Longrightarrow> cred_step sha d x"
| cred_outside: "cred_step sha d (d\<lparr>dk_live := l\<rparr>)"
| cred_child: "cred_step sha d (d\<lparr>dk_pending := p\<rparr>)"

subsection \<open>Lemmas: triples\<close>

text \<open>From a disk with \<open>P\<close>, every disk on the way and the one left have \<open>I\<close>, and a result that is not an
  error has \<open>Q\<close>.\<close>

definition ensures :: "(disk \<Rightarrow> bool) \<Rightarrow> (disk \<Rightarrow> bool) \<Rightarrow> 'a act \<Rightarrow> ('a \<Rightarrow> disk \<Rightarrow> bool) \<Rightarrow> bool" where
  "ensures P I f Q \<longleftrightarrow> (\<forall>rs d r rs1 d1 tr. P d \<longrightarrow> f rs d = (r, rs1, d1, tr) \<longrightarrow>
     (\<forall>x \<in> set tr. I x) \<and> I d1 \<and> (\<forall>a. r = Inr a \<longrightarrow> Q a d1))"

lemma ensuresD:
  "ensures P I f Q \<Longrightarrow> f rs d = (r, rs1, d1, tr) \<Longrightarrow> P d \<Longrightarrow> (\<forall>x \<in> set tr. I x) \<and> I d1 \<and> (\<forall>a. r = Inr a \<longrightarrow> Q a d1)"
  unfolding ensures_def by blast

lemma ensures_weaken: "ensures P' I f Q' \<Longrightarrow> (\<And>d. P d \<Longrightarrow> P' d) \<Longrightarrow> (\<And>a d. Q' a d \<Longrightarrow> Q a d) \<Longrightarrow> ensures P I f Q"
  unfolding ensures_def by blast

lemma ensures_ret: "(\<And>d. P d \<Longrightarrow> I d \<and> Q a d) \<Longrightarrow> ensures P I (ret a) Q"
  by (simp add: ensures_def ret_def)

lemma ensures_fails: "(\<And>d. P d \<Longrightarrow> I d) \<Longrightarrow> ensures P I (fails e) Q"
  by (simp add: ensures_def fails_def)

lemma ensures_getd: "(\<And>d. P d \<Longrightarrow> I d \<and> Q d d) \<Longrightarrow> ensures P I getd Q"
  by (simp add: ensures_def getd_def)

lemma ensures_check: "(\<And>d. P d \<Longrightarrow> I d \<and> (b \<longrightarrow> Q () d)) \<Longrightarrow> ensures P I (check b e) Q"
  by (auto simp: ensures_def check_def ret_def fails_def)

lemma andThen_cases:
  assumes "andThen f g rs d = (r, rs2, d2, tr)"
  obtains (stop) e rs1 where "f rs d = (Inl e, rs1, d2, tr)" "r = Inl e"
  | (go) a rs1 d1 tr1 tr2 where "f rs d = (Inr a, rs1, d1, tr1)" "g a rs1 d1 = (r, rs2, d2, tr2)" "tr = tr1 @ tr2"
  using assms by (auto simp: andThen_def split: prod.splits sum.splits)

lemma ensures_andThen:
  assumes "ensures P I f R" "\<And>a. ensures (R a) I (g a) Q"
  shows "ensures P I (andThen f g) Q"
  unfolding ensures_def
proof (intro allI impI)
  fix rs d r rs2 d2 tr assume "P d" "andThen f g rs d = (r, rs2, d2, tr)"
  from this(2) show "(\<forall>x \<in> set tr. I x) \<and> I d2 \<and> (\<forall>a. r = Inr a \<longrightarrow> Q a d2)"
  proof (cases rule: andThen_cases)
    case (stop e rs1)
    then show ?thesis using ensuresD [OF assms(1) stop(1) \<open>P d\<close>] by simp
  next
    case (go a rs1 d1 tr1 tr2)
    then show ?thesis using ensuresD [OF assms(1) go(1) \<open>P d\<close>] ensuresD [OF assms(2) go(2)] by auto
  qed
qed

lemma ensures_attempt: "ensures P I f Q \<Longrightarrow> ensures P I (attempt f) (\<lambda>r d. I d \<and> (case r of Inr a \<Rightarrow> Q a d | Inl e \<Rightarrow> True))"
  unfolding ensures_def attempt_def by (auto split: prod.splits sum.splits)

lemma ensures_change: "(\<And>d. P d \<Longrightarrow> I d \<and> I (f d) \<and> Q () (f d)) \<Longrightarrow> ensures P I (change f) Q"
  by (auto simp: ensures_def change_def Let_def after_write_def ok_landed)

lemma ensures_each: "(\<And>x. x \<in> set xs \<Longrightarrow> ensures J I (f x) (\<lambda>_. J)) \<Longrightarrow> (\<And>d. J d \<Longrightarrow> I d) \<Longrightarrow> ensures J I (each f xs) (\<lambda>_. J)"
proof (induction xs)
  case (Cons x xs)
  then show ?case by (auto intro: ensures_andThen)
qed (simp add: ensures_ret)

lemma ensures_if: "(b \<Longrightarrow> ensures P I f Q) \<Longrightarrow> (\<not> b \<Longrightarrow> ensures P I g Q) \<Longrightarrow> ensures P I (if b then f else g) Q"
  by simp

lemma ensures_False: "(\<And>d. \<not> P d) \<Longrightarrow> ensures P I f Q"
  by (simp add: ensures_def)

lemma ensures_conj_pre: "(c \<Longrightarrow> ensures P I f Q) \<Longrightarrow> ensures (\<lambda>d. c \<and> P d) I f Q"
  by (auto simp: ensures_def)

subsection \<open>Lemmas: the journal and the payloads\<close>

definition gen_key :: "Generation \<Rightarrow> string \<times> Fingerprint" where "gen_key g = (g_ID g, g_Fingerprint g)"

text \<open>The payloads of the generations are there and have their fingerprints.\<close>

definition backed :: "(string \<Rightarrow> Fingerprint) \<Rightarrow> Generation list \<Rightarrow> disk \<Rightarrow> bool" where
  "backed sha gs d \<longleftrightarrow> (\<forall>k \<in> gen_key ` set gs. \<exists>data. map_of (dk_gens d) (fst k) = Some data \<and> sha data = snd k)"

definition cred_inv :: "(string \<Rightarrow> Fingerprint) \<Rightarrow> disk \<Rightarrow> bool" where
  "cred_inv sha d \<longleftrightarrow> (\<forall>m. dk_manifest d = ManifestFile m \<longrightarrow> manifest_validate m \<and> backed sha (mf_Generations m) d)"

lemma backed_subset: "backed sha gs d \<Longrightarrow> gen_key ` set gs' \<subseteq> gen_key ` set gs \<Longrightarrow> backed sha gs' d"
  unfolding backed_def by blast

lemma backed_gens: "dk_gens d' = dk_gens d \<Longrightarrow> backed sha gs d' = backed sha gs d"
  by (simp add: backed_def)

lemma map_of_drop_key: "map_of (drop_key i xs) j = (if j = i then None else map_of xs j)"
  by (induction xs) (auto simp: drop_key_def)

lemma backed_drop:
  assumes "backed sha gs d" "i \<notin> g_ID ` set gs"
  shows "backed sha gs (d\<lparr>dk_gens := drop_key i (dk_gens d)\<rparr>)"
  using assms by (auto simp: backed_def gen_key_def map_of_drop_key)

lemma backed_fresh: "backed sha gs d \<Longrightarrow> i \<notin> fst ` set (dk_gens d) \<Longrightarrow> i \<notin> g_ID ` set gs"
  by (force simp: backed_def gen_key_def dest: map_of_SomeD)

lemma backed_add:
  assumes "backed sha gs d" "i \<notin> fst ` set (dk_gens d)"
  shows "backed sha gs (d\<lparr>dk_gens := (i, data) # drop_key i (dk_gens d)\<rparr>)"
  using assms backed_fresh [OF assms] by (auto simp: backed_def gen_key_def map_of_drop_key)

lemma cred_inv_frame: "dk_manifest d' = dk_manifest d \<Longrightarrow> dk_gens d' = dk_gens d \<Longrightarrow> cred_inv sha d' = cred_inv sha d"
  by (simp add: cred_inv_def backed_def)

text \<open>What an operation knows of the disk: the invariant, the payloads of its manifest, and a fresh identifier.\<close>

definition ready :: "(string \<Rightarrow> Fingerprint) \<Rightarrow> Manifest \<Rightarrow> disk \<Rightarrow> bool" where
  "ready sha m d \<longleftrightarrow> cred_inv sha d \<and> backed sha (mf_Generations m) d"

definition fresh_in :: "string \<Rightarrow> disk \<Rightarrow> bool" where "fresh_in i d \<longleftrightarrow> i \<notin> fst ` set (dk_gens d)"

definition saved :: "(string \<Rightarrow> Fingerprint) \<Rightarrow> Manifest \<Rightarrow> disk \<Rightarrow> bool" where
  "saved sha m d \<longleftrightarrow> cred_inv sha d \<and> backed sha (mf_Generations m) d \<and> (\<exists>u. dk_manifest d = ManifestFile (m\<lparr>mf_UpdatedAt := u\<rparr>))"

lemma ready_frame: "dk_manifest d' = dk_manifest d \<Longrightarrow> dk_gens d' = dk_gens d \<Longrightarrow> ready sha m d' = ready sha m d"
  unfolding ready_def using cred_inv_frame [of d' d] backed_gens [of d' d] by metis

lemma saved_frame: "dk_manifest d' = dk_manifest d \<Longrightarrow> dk_gens d' = dk_gens d \<Longrightarrow> saved sha m d' = saved sha m d"
  unfolding saved_def using cred_inv_frame [of d' d] backed_gens [of d' d] by metis

lemma fresh_frame: "dk_gens d' = dk_gens d \<Longrightarrow> fresh_in i d' = fresh_in i d"
  by (simp add: fresh_in_def)

lemma ready_keys: "ready sha m d \<Longrightarrow> gen_key ` set (mf_Generations m') \<subseteq> gen_key ` set (mf_Generations m) \<Longrightarrow> ready sha m' d"
  unfolding ready_def using backed_subset by blast

lemma saved_ready: "saved sha m d \<Longrightarrow> ready sha m d"
  by (simp add: saved_def ready_def)

lemma saveManifest_ensures: "ensures (ready sha m) (cred_inv sha) (saveManifest now m) (\<lambda>_. saved sha m)"
proof (cases "manifest_validate (m\<lparr>mf_UpdatedAt := now\<rparr>)")
  case True
  then show ?thesis
    by (auto simp: saveManifest_def ready_def saved_def cred_inv_def backed_def intro!: ensures_change)
next
  case False
  then show ?thesis by (auto simp: saveManifest_def ready_def intro!: ensures_fails)
qed

lemma saves_ensures: "ensures (ready sha m) (cred_inv sha) (saves a m) (\<lambda>m1 d. m1 = m \<and> saved sha m d)"
  unfolding saves_def by (rule ensures_andThen [OF saveManifest_ensures], rule ensures_ret) (simp add: saved_def)

lemma prune_ensures: "ensures (saved sha m) (cred_inv sha) (pruneGenerations m) (\<lambda>_. saved sha m)"
  unfolding pruneGenerations_def
proof (rule ensures_andThen [where R = "\<lambda>_. saved sha m"], rule ensures_getd, simp add: saved_def, rule ensures_each)
  fix a i assume i: "i \<in> set (filter (\<lambda>i. i \<notin> g_ID ` set (mf_Generations m)) (map fst (dk_gens a)))"
  then have i: "i \<notin> g_ID ` set (mf_Generations m)" by simp
  show "ensures (saved sha m) (cred_inv sha) (change (\<lambda>d. d\<lparr>dk_gens := drop_key i (dk_gens d)\<rparr>)) (\<lambda>_. saved sha m)"
    by (rule ensures_change) (use backed_drop [OF _ i] in \<open>auto simp: saved_def cred_inv_def\<close>)
qed (simp add: saved_def)

text \<open>Changes of the pending homes and of the live file keep what does not depend on them.\<close>

definition steady :: "(disk \<Rightarrow> bool) \<Rightarrow> bool" where
  "steady P \<longleftrightarrow> (\<forall>d d'. dk_manifest d' = dk_manifest d \<longrightarrow> dk_gens d' = dk_gens d \<longrightarrow> P d' = P d)"

lemma steady_intros [intro]:
  "steady (cred_inv sha)" "steady (ready sha m)" "steady (saved sha m)" "steady (fresh_in i)"
  "steady P \<Longrightarrow> steady Q \<Longrightarrow> steady (\<lambda>d. P d \<and> Q d)" "steady (\<lambda>d. b)"
  "steady (\<lambda>d. Z (readGeneration j d))"
  unfolding steady_def readGeneration_def using cred_inv_frame ready_frame saved_frame fresh_frame by metis+

lemma steady_change:
  assumes "steady P" "\<And>d. P d \<Longrightarrow> cred_inv sha d" "\<And>d. dk_manifest (f d) = dk_manifest d \<and> dk_gens (f d) = dk_gens d"
  shows "ensures P (cred_inv sha) (change f) (\<lambda>_. P)"
  by (rule ensures_change) (use assms in \<open>unfold steady_def, metis\<close>)

lemma outside_ensures:
  assumes "steady P" "\<And>d. P d \<Longrightarrow> cred_inv sha d"
  shows "ensures P (cred_inv sha) (createPendingHome i) (\<lambda>_. P)" "ensures P (cred_inv sha) (removeTxn i) (\<lambda>_. P)"
    "ensures P (cred_inv sha) (removeStalePending i) (\<lambda>_. P)" "ensures P (cred_inv sha) (write_live data) (\<lambda>_. P)"
    "ensures P (cred_inv sha) removeIfExists (\<lambda>_. P)"
proof -
  have c: "ensures P (cred_inv sha) (change f) (\<lambda>_. P)" if "\<And>d. dk_manifest (f d) = dk_manifest d \<and> dk_gens (f d) = dk_gens d" for f
    using steady_change [OF assms that] .
  show "ensures P (cred_inv sha) (createPendingHome i) (\<lambda>_. P)" "ensures P (cred_inv sha) (write_live data) (\<lambda>_. P)"
    "ensures P (cred_inv sha) removeIfExists (\<lambda>_. P)"
    unfolding createPendingHome_def write_live_def removeIfExists_def by (rule c, simp)+
  show "ensures P (cred_inv sha) (removeTxn i) (\<lambda>_. P)"
    unfolding removeTxn_def by (intro ensures_if ensures_ret c) (simp_all add: assms(2))
  have e: "ensures P (cred_inv sha) (each (\<lambda>i. change (\<lambda>d. d\<lparr>dk_pending := drop_key i (dk_pending d)\<rparr>)) xs) (\<lambda>_. P)" for xs
    by (rule ensures_each) (auto intro: c assms(2))
  show "ensures P (cred_inv sha) (removeStalePending i) (\<lambda>_. P)"
    unfolding removeStalePending_def by (rule ensures_andThen [where R = "\<lambda>_. P"], rule ensures_getd, simp add: assms(2), rule e)
qed

lemma ready_inv: "ready sha m d \<Longrightarrow> cred_inv sha d" "saved sha m d \<Longrightarrow> cred_inv sha d"
  by (simp_all add: ready_def saved_def)

lemma liveFingerprint_ensures:
  assumes "\<And>d. P d \<Longrightarrow> I d"
  shows "ensures P I (liveFingerprint sha) (\<lambda>p d. P d \<and> (fst p = FingerprintAbsent \<or> fst p = sha (snd p)))"
  unfolding liveFingerprint_def
proof (rule ensures_andThen [where R = "\<lambda>a d. a = d \<and> P d"], rule ensures_getd, simp add: assms)
  fix a
  show "ensures (\<lambda>d. a = d \<and> P d) I (case fingerprint_of sha (dk_live a) of Some p \<Rightarrow> ret p | None \<Rightarrow> fails ErrCredRead)
    (\<lambda>p d. P d \<and> (fst p = FingerprintAbsent \<or> fst p = sha (snd p)))"
    by (auto simp: fingerprint_of_def assms split: live_file.split intro!: ensures_ret ensures_fails)
qed

lemma readCandidate_ensures:
  assumes "\<And>d. P d \<Longrightarrow> I d"
  shows "ensures P I (readCandidate i) (\<lambda>_. P)"
  unfolding readCandidate_def
  by (rule ensures_andThen [where R = "\<lambda>_. P"], rule ensures_getd)
    (auto simp: assms split: option.split candidate.split intro!: ensures_ret ensures_fails)

lemma observe_fp: "ob_valid (fst (observeWithBytes a l)) \<Longrightarrow> ob_fp (fst (observeWithBytes a l)) = ce_sha a (snd (observeWithBytes a l))"
  by (auto simp: observeWithBytes_def observed_def split: live_file.splits if_splits option.splits)

lemma stable_loop_fp: "ob_valid (fst (stable_loop a l ls)) \<Longrightarrow> ob_fp (fst (stable_loop a l ls)) = ce_sha a (snd (stable_loop a l ls))"
proof (induction ls arbitrary: l)
  case (Cons x ls)
  let ?c = "ob_fp (fst (observeWithBytes a x)) = ob_fp (fst (observeWithBytes a l)) \<and> ob_valid (fst (observeWithBytes a x)) = ob_valid (fst (observeWithBytes a l))"
  show ?case
  proof (cases ?c)
    case True
    then have "stable_loop a l (x # ls) = observeWithBytes a x" by (simp only: stable_loop.simps if_P)
    then show ?thesis using observe_fp [of a x] Cons.prems by metis
  next
    case False
    then have "stable_loop a l (x # ls) = stable_loop a x ls" by (simp only: stable_loop.simps if_not_P if_False)
    then show ?thesis using Cons by metis
  qed
qed (simp add: observed_def)

lemma stableObservation_ensures:
  assumes "\<And>d. P d \<Longrightarrow> I d"
  shows "ensures P I (stableObservation a reads) (\<lambda>p d. P d \<and> (ob_valid (fst p) \<longrightarrow> ob_fp (fst p) = ce_sha a (snd p)))"
  unfolding stableObservation_def
  by (rule ensures_andThen [where R = "\<lambda>_. P"], rule ensures_check)
    (auto simp: assms stable_loop_fp split: list.split intro!: ensures_ret ensures_fails)

definition loaded :: "Manifest \<Rightarrow> disk \<Rightarrow> bool" where
  "loaded m d \<longleftrightarrow> dk_manifest d = ManifestFile m \<or> dk_manifest d = NoManifest \<and> m = newManifest"

lemma load_ensures:
  assumes "\<And>d. P d \<Longrightarrow> cred_inv sha d"
  shows "ensures P (cred_inv sha) loadOrInit (\<lambda>m d. ready sha m d \<and> loaded m d \<and> P d)"
  unfolding loadOrInit_def
proof (rule ensures_andThen [where R = "\<lambda>a d. a = d \<and> P d"], rule ensures_getd, simp add: assms)
  fix a
  show "ensures (\<lambda>d. a = d \<and> P d) (cred_inv sha)
    (case dk_manifest a of NoManifest \<Rightarrow> ret newManifest | ManifestUnreadable \<Rightarrow> fails ErrManifestInvalid
     | ManifestFile m \<Rightarrow> if manifest_validate m then ret m else fails ErrManifestInvalid)
    (\<lambda>m d. ready sha m d \<and> loaded m d \<and> P d)"
  proof (cases "dk_manifest a")
    case (ManifestFile m)
    have "P a \<Longrightarrow> ready sha m a" using assms [of a] ManifestFile by (auto simp: ready_def cred_inv_def)
    then show ?thesis using ManifestFile assms by (auto simp: loaded_def intro!: ensures_ret ensures_fails)
  qed (auto simp: assms ready_def backed_def loaded_def newManifest_def intro!: ensures_ret ensures_fails)
qed

lemma lock_ensures:
  assumes "\<And>d. P d \<Longrightarrow> cred_inv sha d" "\<And>m. ensures (\<lambda>d. ready sha m d \<and> loaded m d \<and> P d) (cred_inv sha) (body m) Q"
  shows "ensures P (cred_inv sha) (withProviderLock a body) Q"
  unfolding withProviderLock_def
  by (rule ensures_andThen [where R = "\<lambda>_. P"], rule ensures_check, simp add: assms(1),
      rule ensures_andThen [OF load_ensures], simp add: assms(1), rule assms(2))

lemma native_ensures: "(\<And>d. P d \<Longrightarrow> I d) \<Longrightarrow> ensures P I (native_lock a) (\<lambda>_. P)"
  unfolding native_lock_def by (rule ensures_andThen [where R = "\<lambda>_. P"]; rule ensures_check) auto

lemma own_txn_ensures: "(\<And>d. P d \<Longrightarrow> I d) \<Longrightarrow> ensures P I (own_txn i m) (\<lambda>t d. P d \<and> mf_Transaction m = Some t \<and> x_ID t = i)"
  unfolding own_txn_def by (auto split: option.split intro!: ensures_ret ensures_fails)

lemma gen_key_simps [simp]: "gen_key (g\<lparr>g_Label := l\<rparr>) = gen_key g" "gen_key (g\<lparr>g_ValidatedAt := t\<rparr>) = gen_key g" "gen_key (g\<lparr>g_Revoked := b\<rparr>) = gen_key g"
  by (simp_all add: gen_key_def)

lemma gens_set: "mf_Generations (m\<lparr>mf_Generations := gs\<rparr>) = gs"
  by simp

lemma gen_key_map: "(\<And>g. gen_key (f g) = gen_key g) \<Longrightarrow> map gen_key (map f gs) = map gen_key gs"
  by simp

lemma keys_relabel: "map gen_key (relabel_first l l' gs) = map gen_key gs"
  by (induction gs) auto

lemma keys_drop: "gen_key ` set (mf_Generations (dropLabel l m)) \<subseteq> gen_key ` set (mf_Generations m)"
  by (auto simp: dropLabel_def)

lemma keys_rotate: "gen_key ` set (mf_Generations (rotateLocked i m)) \<subseteq> gen_key ` set (mf_Generations m)"
proof -
  have "map gen_key (mf_Generations (rotateLocked i m)) = map gen_key (mf_Generations (dropLabel LabelPrevious m))"
    unfolding rotateLocked_def Let_def by (simp only: gens_set, subst gen_key_map, simp, rule keys_relabel)
  then show ?thesis using keys_drop by (metis set_map)
qed

lemma keys_swap: "gen_key ` set (mf_Generations (swap_labels i m)) = gen_key ` set (mf_Generations m)"
proof -
  have "map gen_key (mf_Generations (swap_labels i m)) = map gen_key (mf_Generations m)"
    unfolding swap_labels_def Let_def by (simp only: gens_set, subst gen_key_map, simp, subst gen_key_map, simp, rule keys_relabel)
  then show ?thesis by (metis set_map)
qed

lemma gens_updates [simp]:
  "mf_Generations (m\<lparr>mf_State := s\<rparr>) = mf_Generations m" "mf_Generations (m\<lparr>mf_Transaction := t\<rparr>) = mf_Generations m"
  "mf_Generations (clearOperatorChoice m) = mf_Generations m" "mf_Generations (tombstone now fp m) = []"
  "mf_Generations (add_generation g m) = mf_Generations m @ [g]"
  by (simp_all add: clearOperatorChoice_def tombstone_def add_generation_def)

subsection \<open>The operations keep the invariant\<close>

text \<open>Rules that read an operation from its first action to its last. \<open>ready_for\<close> are the manifests an operation may save.\<close>

named_theorems ready_for \<open>manifests whose payloads are there\<close>

lemma ready_same [ready_for]:
  "ready sha (m\<lparr>mf_State := s\<rparr>) d \<longleftrightarrow> ready sha m d" "ready sha (m\<lparr>mf_Transaction := t\<rparr>) d \<longleftrightarrow> ready sha m d"
  "ready sha (m\<lparr>mf_OperatorChoice := c\<rparr>) d \<longleftrightarrow> ready sha m d" "ready sha (m\<lparr>mf_OperatorChoiceAt := u\<rparr>) d \<longleftrightarrow> ready sha m d"
  "ready sha (clearOperatorChoice m) d \<longleftrightarrow> ready sha m d" "ready sha (swap_labels i m) d \<longleftrightarrow> ready sha m d"
  "ready sha (stamp_pending now m) d \<longleftrightarrow> ready sha m d" "ready sha (tombstone now fp m) d \<longleftrightarrow> cred_inv sha d"
  "ready sha (m\<lparr>mf_Generations := map (\<lambda>g. g\<lparr>g_Revoked := b\<rparr>) (mf_Generations m)\<rparr>) d \<longleftrightarrow> ready sha m d"
proof -
  have k: "gen_key ` set (mf_Generations m') = gen_key ` set (mf_Generations m) \<Longrightarrow> ready sha m' d \<longleftrightarrow> ready sha m d" for m'
    by (simp add: ready_def backed_def)
  have l: "map gen_key (mf_Generations (stamp_pending now m)) = map gen_key (mf_Generations m)" by (simp add: stamp_pending_def)
  show "ready sha (m\<lparr>mf_State := s\<rparr>) d \<longleftrightarrow> ready sha m d" "ready sha (m\<lparr>mf_Transaction := t\<rparr>) d \<longleftrightarrow> ready sha m d"
    "ready sha (m\<lparr>mf_OperatorChoice := c\<rparr>) d \<longleftrightarrow> ready sha m d" "ready sha (m\<lparr>mf_OperatorChoiceAt := u\<rparr>) d \<longleftrightarrow> ready sha m d"
    "ready sha (clearOperatorChoice m) d \<longleftrightarrow> ready sha m d" by (rule k, simp)+
  show "ready sha (swap_labels i m) d \<longleftrightarrow> ready sha m d" by (rule k) (rule keys_swap)
  show "ready sha (stamp_pending now m) d \<longleftrightarrow> ready sha m d" by (rule k) (metis l set_map)
  show "ready sha (tombstone now fp m) d \<longleftrightarrow> cred_inv sha d" by (simp add: ready_def backed_def)
  show "ready sha (m\<lparr>mf_Generations := map (\<lambda>g. g\<lparr>g_Revoked := b\<rparr>) (mf_Generations m)\<rparr>) d \<longleftrightarrow> ready sha m d"
    by (rule k) (simp add: image_image)
qed

lemma ready_less: "ready sha m d \<Longrightarrow> ready sha (dropLabel l m) d" "ready sha m d \<Longrightarrow> ready sha (rotateLocked i m) d"
  using ready_keys keys_drop keys_rotate by blast+

lemma ready_new [ready_for]: "ready sha newManifest d \<longleftrightarrow> cred_inv sha d"
  by (simp add: ready_def backed_def newManifest_def)

lemma ready_add: "ready sha m d \<Longrightarrow> map_of (dk_gens d) (g_ID g) = Some data \<Longrightarrow> g_Fingerprint g = sha data \<Longrightarrow> ready sha (add_generation g m) d"
  by (auto simp: ready_def backed_def gen_key_def)

lemma ready_generation: "ready sha m d \<Longrightarrow> map_of (dk_gens d) i = Some data \<Longrightarrow> fp = sha data \<Longrightarrow> ready sha (add_generation (generation i l fp mode src t u) m) d"
  by (rule ready_add) (simp_all add: generation_def)

lemma bind_check: "(\<And>d. P d \<Longrightarrow> I d) \<Longrightarrow> (b \<Longrightarrow> ensures P I (g ()) Q) \<Longrightarrow> ensures P I (andThen (check b e) g) Q"
  by (cases b) (auto simp: check_def ensures_def andThen_def ret_def fails_def split: prod.splits)

lemma bind_getd: "(\<And>d. P d \<Longrightarrow> I d) \<Longrightarrow> (\<And>d0. ensures (\<lambda>d. d = d0 \<and> P d) I (g d0) Q) \<Longrightarrow> ensures P I (andThen getd g) Q"
  by (rule ensures_andThen [where R = "\<lambda>d0 d. d = d0 \<and> P d"]) (auto intro: ensures_getd)

lemma bind_fact:
  assumes "ensures P I f (\<lambda>x d. R d \<and> F x)" "\<And>x. F x \<Longrightarrow> ensures R I (g x) Q"
  shows "ensures P I (andThen f g) Q"
proof (rule ensures_andThen [OF assms(1)])
  fix x
  show "ensures (\<lambda>d. R d \<and> F x) I (g x) Q" using assms(2) [of x] by (cases "F x") (auto simp: ensures_def)
qed

lemma bind_unit: "ensures P I f (\<lambda>_. R) \<Longrightarrow> ensures R I (g ()) Q \<Longrightarrow> ensures P I (andThen f g) Q"
  by (rule ensures_andThen [where R = "\<lambda>_. R"]) auto

lemma bind_live:
  "(\<And>d. P d \<Longrightarrow> I d) \<Longrightarrow> (\<And>fp data. fp = FingerprintAbsent \<or> fp = sha data \<Longrightarrow> ensures P I (g (fp, data)) Q) \<Longrightarrow>
    ensures P I (andThen (liveFingerprint sha) g) Q"
  by (rule bind_fact [OF liveFingerprint_ensures], assumption) (simp add: split_paired_all)

lemma bind_candidate: "(\<And>d. P d \<Longrightarrow> I d) \<Longrightarrow> (\<And>data. ensures P I (g data) Q) \<Longrightarrow> ensures P I (andThen (readCandidate i) g) Q"
  by (rule ensures_andThen [OF readCandidate_ensures])

lemma bind_own: "(\<And>d. P d \<Longrightarrow> I d) \<Longrightarrow> (\<And>t. mf_Transaction m = Some t \<Longrightarrow> x_ID t = i \<Longrightarrow> ensures P I (g t) Q) \<Longrightarrow> ensures P I (andThen (own_txn i m) g) Q"
  by (rule bind_fact [OF own_txn_ensures], assumption) simp

lemma bind_native: "(\<And>d. P d \<Longrightarrow> I d) \<Longrightarrow> ensures P I (g ()) Q \<Longrightarrow> ensures P I (andThen (native_lock a) g) Q"
  by (rule ensures_andThen [OF native_ensures]) auto

lemma bind_obs:
  "(\<And>d. P d \<Longrightarrow> I d) \<Longrightarrow> (\<And>obs data. ob_valid obs \<longrightarrow> ob_fp obs = ce_sha a data \<Longrightarrow> ensures P I (g (obs, data)) Q) \<Longrightarrow>
    ensures P I (andThen (stableObservation a reads) g) Q"
  by (rule bind_fact [OF stableObservation_ensures], assumption) (simp add: split_paired_all)

lemma stableObservation_quiet: "stableObservation a reads rs d = (r, rs1, d1, tr) \<Longrightarrow> d1 = d \<and> tr = []"
  by (auto simp: stableObservation_def andThen_def check_def ret_def fails_def split: if_splits list.splits)

lemma bind_attempt_obs:
  assumes "\<And>d. P d \<Longrightarrow> I d" "\<And>e. ensures P I (g (Inl e)) Q"
    "\<And>obs data. ob_valid obs \<longrightarrow> ob_fp obs = ce_sha a data \<Longrightarrow> ensures P I (g (Inr (obs, data))) Q"
  shows "ensures P I (andThen (attempt (stableObservation a reads)) g) Q"
proof (rule bind_fact [where F = "\<lambda>r. case r of Inl e \<Rightarrow> True | Inr p \<Rightarrow> ob_valid (fst p) \<longrightarrow> ob_fp (fst p) = ce_sha a (snd p)"])
  show "ensures P I (attempt (stableObservation a reads)) (\<lambda>r d. P d \<and> (case r of Inl e \<Rightarrow> True | Inr p \<Rightarrow> ob_valid (fst p) \<longrightarrow> ob_fp (fst p) = ce_sha a (snd p)))"
    using stableObservation_ensures [of P I a reads, OF assms(1)] stableObservation_quiet assms(1)
    unfolding ensures_def attempt_def by (fastforce split: prod.splits sum.splits)
qed (use assms(2,3) in \<open>auto split: sum.splits\<close>)

lemma bind_steady:
  assumes "steady P" "\<And>d. P d \<Longrightarrow> cred_inv sha d" "ensures P (cred_inv sha) (g ()) Q"
  shows "ensures P (cred_inv sha) (andThen (createPendingHome i) g) Q" "ensures P (cred_inv sha) (andThen (removeTxn i) g) Q"
    "ensures P (cred_inv sha) (andThen (removeStalePending i) g) Q" "ensures P (cred_inv sha) (andThen (write_live data) g) Q"
    "ensures P (cred_inv sha) (andThen removeIfExists g) Q"
proof -
  have b: "ensures P (cred_inv sha) f (\<lambda>_. P) \<Longrightarrow> ensures P (cred_inv sha) (andThen f g) Q" for f :: "unit act"
    using bind_unit assms(3) by blast
  show "ensures P (cred_inv sha) (andThen (createPendingHome i) g) Q" "ensures P (cred_inv sha) (andThen (removeTxn i) g) Q"
    "ensures P (cred_inv sha) (andThen (removeStalePending i) g) Q" "ensures P (cred_inv sha) (andThen (write_live data) g) Q"
    "ensures P (cred_inv sha) (andThen removeIfExists g) Q"
    by (rule b, rule outside_ensures, rule assms(1), erule assms(2))+
qed

lemma bind_saves: "(\<And>d. P d \<Longrightarrow> ready sha m d) \<Longrightarrow> ensures (saved sha m) (cred_inv sha) (g m) Q \<Longrightarrow> ensures P (cred_inv sha) (andThen (saves a m) g) Q"
  by (rule ensures_andThen [OF ensures_weaken [OF saves_ensures]], assumption, assumption) (auto simp: ensures_def)

lemma bind_prune: "ensures (saved sha m) (cred_inv sha) (g ()) Q \<Longrightarrow> ensures (saved sha m) (cred_inv sha) (andThen (pruneGenerations m) g) Q"
  by (rule bind_unit [OF prune_ensures])

lemma bind_write:
  assumes "\<And>d. P d \<Longrightarrow> ready sha m d \<and> fresh_in i d" "ensures (\<lambda>d. ready sha m d \<and> map_of (dk_gens d) i = Some data) (cred_inv sha) (g ()) Q"
  shows "ensures P (cred_inv sha) (andThen (writeGeneration i data) g) Q"
proof (rule ensures_andThen)
  let ?f = "\<lambda>d. d\<lparr>dk_gens := (i, data) # drop_key i (dk_gens d)\<rparr>"
  show "ensures P (cred_inv sha) (writeGeneration i data) (\<lambda>_ d. ready sha m d \<and> map_of (dk_gens d) i = Some data)"
    unfolding writeGeneration_def
  proof (rule ensures_change)
    fix d assume "P d"
    then show "cred_inv sha d \<and> cred_inv sha (?f d) \<and> ready sha m (?f d) \<and> map_of (dk_gens (?f d)) i = Some data"
      using assms(1) [of d] backed_add [of sha _ d i data] by (auto simp: ready_def cred_inv_def fresh_in_def)
  qed
qed (use assms(2) in simp)

lemma end_save: "(\<And>d. P d \<Longrightarrow> ready sha m d) \<Longrightarrow> (\<And>d. saved sha m d \<Longrightarrow> Q () d) \<Longrightarrow> ensures P (cred_inv sha) (saveManifest now m) Q"
  by (rule ensures_weaken [OF saveManifest_ensures]) auto

lemma end_saves: "(\<And>d. P d \<Longrightarrow> ready sha m d) \<Longrightarrow> (\<And>d. saved sha m d \<Longrightarrow> Q m d) \<Longrightarrow> ensures P (cred_inv sha) (saves a m) Q"
  by (rule ensures_weaken [OF saves_ensures]) auto

lemma end_prune: "(\<And>d. saved sha m d \<Longrightarrow> Q () d) \<Longrightarrow> ensures (saved sha m) (cred_inv sha) (pruneGenerations m) Q"
  by (rule ensures_weaken [OF prune_ensures]) auto

lemma end_stale: "steady P \<Longrightarrow> (\<And>d. P d \<Longrightarrow> cred_inv sha d \<and> Q () d) \<Longrightarrow> ensures P (cred_inv sha) (removeStalePending i) Q"
  by (rule ensures_weaken [OF outside_ensures(3) [of P]]) auto

lemma onError_ensures:
  assumes "ensures P I f Q" "ensures I I g (\<lambda>_ _. True)"
  shows "ensures P I (onError f g) Q"
  unfolding onError_def
proof (rule ensures_andThen [OF ensures_attempt [OF assms(1)]])
  fix r
  show "ensures (\<lambda>d. I d \<and> (case r of Inl e \<Rightarrow> True | Inr a \<Rightarrow> Q a d)) I (case r of Inl e \<Rightarrow> andThen (attempt g) (\<lambda>_. fails e) | Inr x \<Rightarrow> ret x) Q"
  proof (cases r)
    case (Inl e)
    have "ensures I I (andThen (attempt g) (\<lambda>_. fails e)) Q"
      by (rule ensures_andThen [OF ensures_attempt [OF assms(2)]], rule ensures_fails) simp
    then show ?thesis using Inl by simp
  qed (auto intro: ensures_ret)
qed

lemma bind_onError:
  "ensures P I f R \<Longrightarrow> ensures I I h (\<lambda>_ _. True) \<Longrightarrow> (\<And>x. ensures (R x) I (g x) Q) \<Longrightarrow> ensures P I (andThen (onError f h) g) Q"
  by (rule ensures_andThen [OF onError_ensures])

lemmas bind_rules = bind_check bind_live bind_candidate bind_own bind_native bind_obs bind_attempt_obs bind_getd bind_steady bind_saves bind_prune bind_write
  end_save end_saves end_prune end_stale

lemma fresh_inv: "ready sha m d \<and> fresh_in i d \<Longrightarrow> cred_inv sha d"
  by (blast dest: ready_inv)

lemmas inv_facts = fresh_inv ready_inv

lemma adopt_ensures:
  assumes "ob_fp obs = ce_sha a data" "\<And>m d. ready (ce_sha a) (fin m) d \<longleftrightarrow> ready (ce_sha a) m d"
  shows "ensures (\<lambda>d. ready (ce_sha a) m d \<and> fresh_in i d) (cred_inv (ce_sha a)) (adopt_live a i src obs data fin m) (\<lambda>_. cred_inv (ce_sha a))"
  unfolding adopt_live_def Let_def
  by (rule bind_write [where m = m], simp, rule bind_saves)
    (auto simp: assms ready_for intro!: ready_less ready_generation end_prune dest: ready_inv)

lemma seed_ensures:
  "ensures (\<lambda>d. ready (ce_sha a) m d \<and> fresh_in i d) (cred_inv (ce_sha a)) (seedLocked a i m) (\<lambda>m1. saved (ce_sha a) m1)"
  unfolding seedLocked_def
proof (rule ensures_if, rule end_saves, simp, assumption, intro bind_check bind_live, erule inv_facts, erule inv_facts, simp only: prod.case)
  fix fp data
  assume fp: "fp = FingerprintAbsent \<or> fp = ce_sha a data"
  let ?P = "\<lambda>d. ready (ce_sha a) m d \<and> fresh_in i d"
  let ?m = "\<lambda>meta. (add_generation (generation i LabelCurrent fp (cd_Mode meta) SourceSeed (ce_now a) (ce_now a)) m)\<lparr>mf_State := StateIdle\<rparr>"
  have "ensures ?P (cred_inv (ce_sha a)) (andThen (writeGeneration i data) (\<lambda>_. saves a (?m meta))) (saved (ce_sha a))" if "fp = ce_sha a data" for meta :: CredentialMeta
    by (rule bind_write [where m = m], simp, rule end_saves) (auto simp: ready_for that intro!: ready_generation)
  then show "ensures ?P (cred_inv (ce_sha a))
     (if fp = FingerprintAbsent then saves a m
      else case ce_validate a data of None \<Rightarrow> saves a (m\<lparr>mf_State := StateIdle\<rparr>)
        | Some meta \<Rightarrow> andThen (writeGeneration i data) (\<lambda>_. saves a (?m meta))) (saved (ce_sha a))"
    using fp by (auto simp: ready_for split: option.split intro!: ensures_if end_saves)
qed

text \<open>What an operation finds on the disk.\<close>

definition start :: "cred_env \<Rightarrow> string \<Rightarrow> disk \<Rightarrow> bool" where "start a i d \<longleftrightarrow> cred_inv (ce_sha a) d \<and> fresh_in i d"

lemma loaded_ensures:
  assumes "\<And>m. ensures (\<lambda>d. ready (ce_sha a) m d \<and> fresh_in i d \<and> loaded m d) (cred_inv (ce_sha a)) (body m) (\<lambda>_ _. True)"
  shows "ensures (start a i) (cred_inv (ce_sha a)) (withProviderLock a body) (\<lambda>_ _. True)"
  by (rule lock_ensures, simp add: start_def, rule ensures_weaken [OF assms]) (auto simp: start_def)

lemma op_ensures:
  assumes "\<And>m. ensures (\<lambda>d. ready (ce_sha a) m d \<and> fresh_in i d) (cred_inv (ce_sha a)) (body m) (\<lambda>_ _. True)"
  shows "ensures (start a i) (cred_inv (ce_sha a)) (withProviderLock a body) (\<lambda>_ _. True)"
  by (rule loaded_ensures, rule ensures_weaken [OF assms]) auto

lemma ensures_drop_fresh: "ensures (ready sha m) I f Q \<Longrightarrow> ensures (\<lambda>d. ready sha m d \<and> fresh_in i d) I f Q"
  unfolding ensures_def by blast

lemma Seed_ensures: "ensures (start a i) (cred_inv (ce_sha a)) (Seed a i) (\<lambda>_ _. True)"
  unfolding Seed_def by (rule op_ensures, rule ensures_andThen [OF seed_ensures], rule ensures_ret) (blast dest: ready_inv)

lemma Begin_ensures: "ensures (start a i) (cred_inv (ce_sha a)) (Begin a deadline i txnID src) (\<lambda>_ _. True)"
  unfolding Begin_def
proof (rule op_ensures, rule bind_check, erule inv_facts, rule ensures_andThen [where R = "ready (ce_sha a)"])
  fix m
  let ?P = "\<lambda>d. ready (ce_sha a) m d \<and> fresh_in i d"
  show "ensures ?P (cred_inv (ce_sha a)) (if mf_State m \<noteq> StateRecoveryRequired \<and> mf_State m \<noteq> StateExternal then seedLocked a i m else ret m) (ready (ce_sha a))"
    by (rule ensures_if, rule ensures_weaken [OF seed_ensures]) (auto intro: ensures_ret dest: saved_ready ready_inv)
next
  fix m1
  show "ensures (ready (ce_sha a) m1) (cred_inv (ce_sha a))
     (andThen (check (ce_paths a) ErrCredPath) (\<lambda>_. andThen (liveFingerprint (ce_sha a)) (\<lambda>(fp, data). andThen (createPendingHome txnID) (\<lambda>_.
       let txn = \<lparr>x_ID = txnID, x_ExpectedLive = fp, x_Source = src, x_CreatedAt = ce_now a, x_ActivationDeadline = ce_now a + deadline\<rparr>
       in andThen (onError (saveManifest (ce_now a) (m1\<lparr>mf_Transaction := Some txn, mf_State := StatePending\<rparr>)) (removeTxn txnID)) (\<lambda>_. ret txn)))))
     (\<lambda>_ _. True)"
    unfolding Let_def
  proof (intro bind_check bind_live, erule inv_facts, erule inv_facts, simp only: prod.case, intro bind_steady)
    fix fp
    show "ensures (ready (ce_sha a) m1) (cred_inv (ce_sha a)) (andThen (onError (saveManifest (ce_now a)
        (m1\<lparr>mf_Transaction := Some \<lparr>x_ID = txnID, x_ExpectedLive = fp, x_Source = src, x_CreatedAt = ce_now a, x_ActivationDeadline = ce_now a + deadline\<rparr>,
            mf_State := StatePending\<rparr>)) (removeTxn txnID))
      (\<lambda>_. ret \<lparr>x_ID = txnID, x_ExpectedLive = fp, x_Source = src, x_CreatedAt = ce_now a, x_ActivationDeadline = ce_now a + deadline\<rparr>)) (\<lambda>_ _. True)"
      by (rule bind_onError [where R = "\<lambda>_. cred_inv (ce_sha a)"], rule end_save, simp add: ready_for, erule inv_facts,
          rule ensures_weaken [OF outside_ensures(2) [of "cred_inv (ce_sha a)"]]) (auto intro: ensures_ret)
  qed (auto dest: ready_inv)
qed

lemma Stage_ensures: "ensures (start a i) (cred_inv (ce_sha a)) (StageCandidate a i txnID) (\<lambda>_ _. True)"
  unfolding StageCandidate_def Let_def
proof (rule op_ensures, intro bind_own bind_candidate, erule inv_facts, erule inv_facts)
  fix m t data
  let ?P = "\<lambda>d. ready (ce_sha a) m d \<and> fresh_in i d"
  let ?m = "\<lambda>meta. add_generation (generation i LabelPending (ce_sha a data) (cd_Mode meta) (x_Source t) (ce_now a) 0) (dropLabel LabelPending m)"
  have "ensures ?P (cred_inv (ce_sha a)) (andThen (writeGeneration i data) (\<lambda>_. andThen (saves a (?m meta)) (\<lambda>_. pruneGenerations (?m meta)))) (\<lambda>_ _. True)" for meta :: CredentialMeta
    by (rule bind_write [where m = m], simp, rule bind_saves) (auto intro!: ready_generation ready_less end_prune)
  then show "ensures ?P (cred_inv (ce_sha a)) (case ce_validate a data of None \<Rightarrow> fails ErrInvalidCandidate
      | Some meta \<Rightarrow> andThen (writeGeneration i data) (\<lambda>_. andThen (saves a (?m meta)) (\<lambda>_. pruneGenerations (?m meta)))) (\<lambda>_ _. True)"
    by (auto split: option.split intro!: ensures_fails dest: ready_inv)
qed

lemma Validate_ensures: "ensures (start a i) (cred_inv (ce_sha a)) (ValidateCandidate a probed txnID) (\<lambda>_ _. True)"
  unfolding ValidateCandidate_def by (rule op_ensures, intro bind_own bind_check end_save) (auto simp: ready_for dest: ready_inv)

lemma ensures_at: "ensures P I f Q \<Longrightarrow> ensures (\<lambda>d. d = d0 \<and> P d) I f Q"
  unfolding ensures_def by blast

lemma save_remove_prune:
  assumes "\<And>d. P d \<Longrightarrow> ready sha m d"
  shows "ensures P (cred_inv sha) (andThen (saves a m) (\<lambda>_. andThen (removeTxn i) (\<lambda>_. pruneGenerations m))) (\<lambda>_ _. True)"
  by (rule bind_saves [OF assms], assumption, rule bind_steady(2)) (auto intro: end_prune dest: ready_inv)

lemma publish_ensures: "ensures (ready (ce_sha a) m) (cred_inv (ce_sha a)) (publish a t pend data m) (\<lambda>_ _. True)"
  unfolding publish_def Let_def
proof (intro bind_live bind_check, erule inv_facts, simp only: prod.case, intro bind_live bind_check, erule inv_facts, intro bind_saves, simp add: ready_for,
    rule bind_steady(4), blast, erule inv_facts, rule bind_live, erule inv_facts, simp only: prod.case, rule ensures_if)
  fix fp data' got new
  let ?m1 = "m\<lparr>mf_State := StateCommitting\<rparr>"
  show "ensures (saved (ce_sha a) ?m1) (cred_inv (ce_sha a))
    (andThen (attempt (saveManifest (ce_now a) (?m1\<lparr>mf_State := StateRecoveryRequired\<rparr>))) (\<lambda>_. fails ErrNotVerified)) (\<lambda>_ _. True)"
    by (rule ensures_andThen [OF ensures_attempt [OF end_save [where Q = "\<lambda>_ _. True"]]])
      (auto simp: ready_for intro: ensures_fails dest: saved_ready)
  show "ensures (saved (ce_sha a) ?m1) (cred_inv (ce_sha a))
    (andThen (saves a ((rotateLocked (g_ID pend) ?m1)\<lparr>mf_Transaction := None, mf_State := StateIdle\<rparr>)) (\<lambda>_.
      andThen (removeTxn (x_ID t)) (\<lambda>_. pruneGenerations ((rotateLocked (g_ID pend) ?m1)\<lparr>mf_Transaction := None, mf_State := StateIdle\<rparr>)))) (\<lambda>_ _. True)"
    by (rule save_remove_prune) (auto simp: ready_for intro: ready_less dest: saved_ready)
qed

lemma Commit_ensures: "ensures (start a i) (cred_inv (ce_sha a)) (Commit a txnID) (\<lambda>_ _. True)"
  unfolding Commit_def
proof (rule op_ensures, rule ensures_drop_fresh, intro bind_own bind_check, erule inv_facts, erule inv_facts)
  fix m t
  show "ensures (ready (ce_sha a) m) (cred_inv (ce_sha a))
     (case byLabel LabelPending m of None \<Rightarrow> fails ErrInvalidCandidate
      | Some pend \<Rightarrow> if IsZero (g_ValidatedAt pend) then fails ErrInvalidCandidate
         else andThen getd (\<lambda>d. case readGeneration (g_ID pend) d of None \<Rightarrow> fails ErrCredRead
              | Some data \<Rightarrow> andThen (native_lock a) (\<lambda>_. publish a t pend data m))) (\<lambda>_ _. True)"
    by (auto split: option.split intro!: ensures_fails ensures_if bind_getd bind_native ensures_at [OF publish_ensures] dest: ready_inv)
qed

lemma Abort_ensures: "ensures (start a i) (cred_inv (ce_sha a)) (Abort a txnID) (\<lambda>_ _. True)"
  unfolding Abort_def Let_def
  by (rule op_ensures, rule ensures_drop_fresh, rule ensures_if, rule ensures_ret, blast dest: ready_inv, rule save_remove_prune)
    (auto simp: ready_for intro: ready_less)

lemma MarkRevoked_ensures: "ensures (start a i) (cred_inv (ce_sha a)) (MarkRevoked a) (\<lambda>_ _. True)"
  unfolding MarkRevoked_def
  by (rule op_ensures, rule ensures_drop_fresh, rule bind_check, erule inv_facts, rule end_save) (auto simp: ready_for)

lemma RecordLogout_ensures: "ensures (start a i) (cred_inv (ce_sha a)) (RecordLogout a) (\<lambda>_ _. True)"
  unfolding RecordLogout_def Let_def
proof (rule op_ensures, rule ensures_drop_fresh, intro bind_check bind_native bind_live, erule inv_facts, erule inv_facts, erule inv_facts, simp only: prod.case,
    rule bind_saves, simp add: ready_for, erule inv_facts)
  fix m fp
  let ?m = "tombstone (ce_now a) fp m"
  have "ensures (saved (ce_sha a) ?m) (cred_inv (ce_sha a)) (andThen (pruneGenerations ?m) (\<lambda>_. removeStalePending [])) (\<lambda>_ _. True)"
    by (rule bind_prune, rule end_stale) (auto dest: ready_inv)
  moreover have "ensures (saved (ce_sha a) ?m) (cred_inv (ce_sha a)) (if fp \<noteq> FingerprintAbsent then removeIfExists else ret ()) (\<lambda>_. saved (ce_sha a) ?m)"
    by (rule ensures_if, rule outside_ensures(5)) (auto intro: ensures_ret dest: ready_inv)
  ultimately show "ensures (saved (ce_sha a) ?m) (cred_inv (ce_sha a))
     (andThen (if fp \<noteq> FingerprintAbsent then removeIfExists else ret ()) (\<lambda>_. andThen (pruneGenerations ?m) (\<lambda>_. removeStalePending []))) (\<lambda>_ _. True)"
    by (rule bind_unit [rotated])
qed

lemma Reconcile_ensures: "ensures (start a i) (cred_inv (ce_sha a)) (Reconcile a i reads) (\<lambda>_ _. True)"
  unfolding Reconcile_def reconcileLocked_def
proof (rule op_ensures, rule ensures_if, rule ensures_ret, blast dest: ready_inv)
  fix m
  let ?P = "\<lambda>d. ready (ce_sha a) m d \<and> fresh_in i d"
  have s: "ensures ?P (cred_inv (ce_sha a)) (andThen (seedLocked a i m) (\<lambda>_. ret ())) (\<lambda>_ _. True)"
    by (rule ensures_andThen [OF seed_ensures], rule ensures_ret) (blast dest: ready_inv)
  have o: "ensures ?P (cred_inv (ce_sha a)) (andThen (attempt (stableObservation a reads)) (\<lambda>r. andThen getd (\<lambda>d.
       case r of Inl e \<Rightarrow> ret ()
       | Inr (obs, data) \<Rightarrow>
           if \<not> ob_valid obs \<or> ob_fp obs = g_Fingerprint cur \<or> \<not> NotOlder (ob_meta obs) (metaOf a d cur) then ret ()
           else adopt_live a i SourceRefresh obs data (\<lambda>m. m) m))) (\<lambda>_ _. True)" for cur
  proof (intro bind_attempt_obs bind_getd, simp_all only: sum.case prod.case)
    fix obs :: observation and data d0
    assume "ob_valid obs \<longrightarrow> ob_fp obs = ce_sha a data"
    then show "ensures (\<lambda>d. d = d0 \<and> ?P d) (cred_inv (ce_sha a))
      (if \<not> ob_valid obs \<or> ob_fp obs = g_Fingerprint cur \<or> \<not> NotOlder (ob_meta obs) (metaOf a d0 cur) then ret ()
       else adopt_live a i SourceRefresh obs data (\<lambda>m. m) m) (\<lambda>_ _. True)"
      by (intro ensures_if ensures_ret ensures_at [OF ensures_weaken [OF adopt_ensures]]) (auto dest: ready_inv)
  qed (auto intro: ensures_ret dest: ready_inv)
  show "ensures ?P (cred_inv (ce_sha a)) (case byLabel LabelCurrent m of None \<Rightarrow> andThen (seedLocked a i m) (\<lambda>_. ret ())
     | Some cur \<Rightarrow> andThen (attempt (stableObservation a reads)) (\<lambda>r. andThen getd (\<lambda>d.
       case r of Inl e \<Rightarrow> ret ()
       | Inr (obs, data) \<Rightarrow>
           if \<not> ob_valid obs \<or> ob_fp obs = g_Fingerprint cur \<or> \<not> NotOlder (ob_meta obs) (metaOf a d cur) then ret ()
           else adopt_live a i SourceRefresh obs data (\<lambda>m. m) m))) (\<lambda>_ _. True)"
    using s o by (simp split: option.split)
qed

lemma finish_ensures: "(\<And>d. P d \<Longrightarrow> ready sha m d) \<Longrightarrow> ensures P (cred_inv sha) (finish_state a s m) (\<lambda>_ _. True)"
  unfolding finish_state_def
  by (rule ensures_andThen [OF end_save [where Q = "\<lambda>_. cred_inv sha"]]) (auto simp: ready_for intro: ensures_ret dest: ready_inv)

lemma recoverIdle_ensures:
  assumes "ob_valid obs \<longrightarrow> ob_fp obs = ce_sha a data"
  shows "ensures (\<lambda>d. ready (ce_sha a) m d \<and> fresh_in i d) (cred_inv (ce_sha a)) (recoverIdle a i obs data m) (\<lambda>_ _. True)"
proof -
  let ?P = "\<lambda>d. ready (ce_sha a) m d \<and> fresh_in i d" let ?I = "cred_inv (ce_sha a)"
  have s: "ensures ?P ?I (andThen (seedLocked a i m) (\<lambda>m1. andThen (removeStalePending []) (\<lambda>_. ret (mf_State m1)))) (\<lambda>_ _. True)"
    by (rule ensures_andThen [OF seed_ensures], rule bind_steady(3)) (auto intro: ensures_ret dest: ready_inv)
  have f: "ensures ?P ?I (andThen (removeStalePending []) (\<lambda>_. finish_state a StateIdle m)) (\<lambda>_ _. True)"
    by (rule bind_steady(3)) (auto intro: finish_ensures dest: ready_inv)
  have ad: "ensures ?P ?I (andThen (adopt_live a i SourceRefresh obs data (\<lambda>m. m) m) (\<lambda>_. andThen (removeStalePending []) (\<lambda>_. ret StateIdle))) (\<lambda>_ _. True)"
    if "ob_valid obs"
    by (rule bind_unit [OF adopt_ensures], rule assms [rule_format, OF that], simp, rule bind_steady(3)) (auto intro: ensures_ret)
  have g: "ensures (\<lambda>d. d = d0 \<and> ?P d) ?I (if ob_valid obs \<and> NotOlder (ob_meta obs) (metaOf a d0 cur) then
       andThen (adopt_live a i SourceRefresh obs data (\<lambda>m. m) m) (\<lambda>_. andThen (removeStalePending []) (\<lambda>_. ret StateIdle))
     else if \<not> ob_valid obs \<and> ce_external a then finish_state a StateExternal m else finish_state a StateRecoveryRequired m) (\<lambda>_ _. True)" for d0 cur
    by (intro ensures_if ensures_at ad finish_ensures) auto
  show ?thesis
  proof (cases "byLabel LabelCurrent m")
    case None
    then show ?thesis unfolding recoverIdle_def by (simp add: ensures_ret inv_facts s)
  next
    case (Some cur)
    have "ensures ?P ?I (ret (mf_State m)) (\<lambda>_ _. True)" by (rule ensures_ret) (blast dest: ready_inv)
    then show ?thesis unfolding recoverIdle_def Some option.case
      by (intro ensures_if f bind_getd g) (auto dest: ready_inv)
  qed
qed

lemma recoverPending_ensures: "ensures (ready (ce_sha a) m) (cred_inv (ce_sha a)) (recoverPending a obs m) (\<lambda>_ _. True)"
proof -
  let ?m = "(dropLabel LabelPending m)\<lparr>mf_Transaction := None, mf_State := StateIdle\<rparr>"
  have "ensures (ready (ce_sha a) m) (cred_inv (ce_sha a)) (andThen (saves a ?m) (\<lambda>_. andThen (removeTxn j) (\<lambda>_.
     andThen (pruneGenerations ?m) (\<lambda>_. andThen (removeStalePending []) (\<lambda>_. ret StateIdle))))) (\<lambda>_ _. True)" for j
    by (rule bind_saves, simp add: ready_for, erule ready_less, rule bind_steady(2), blast, erule inv_facts, rule bind_prune, rule bind_steady(3))
      (auto intro: ensures_ret dest: ready_inv)
  then show ?thesis unfolding recoverPending_def Let_def by (auto split: option.split intro!: finish_ensures)
qed

lemma recoverCommitting_ensures: "ensures (ready (ce_sha a) m) (cred_inv (ce_sha a)) (recoverCommitting a obs m) (\<lambda>_ _. True)"
proof -
  have d: "ensures (ready (ce_sha a) m) (cred_inv (ce_sha a)) (andThen (saves a m1) (\<lambda>_. andThen (removeTxn j) (\<lambda>_.
     andThen (pruneGenerations m1) (\<lambda>_. ret StateIdle)))) (\<lambda>_ _. True)" if "\<And>d. ready (ce_sha a) m d \<Longrightarrow> ready (ce_sha a) m1 d" for m1 j
    by (rule bind_saves [OF that], assumption, rule bind_steady(2), blast, erule inv_facts, rule bind_prune) (auto intro: ensures_ret dest: ready_inv)
  show ?thesis unfolding recoverCommitting_def Let_def
    by (auto simp: ready_for split: option.split intro!: finish_ensures d ready_less)
qed

lemma recoverLoggedOut_ensures:
  "ensures (\<lambda>d. ready (ce_sha a) m d \<and> (\<exists>u. dk_manifest d = ManifestFile (m\<lparr>mf_UpdatedAt := u\<rparr>))) (cred_inv (ce_sha a)) (recoverLoggedOut a obs m) (\<lambda>_ _. True)"
proof -
  have c: "ensures (saved (ce_sha a) m) (cred_inv (ce_sha a)) (andThen (pruneGenerations m) (\<lambda>_. andThen (removeStalePending []) (\<lambda>_. ret StateLoggedOut))) (\<lambda>_ _. True)"
    by (rule bind_prune, rule bind_steady(3)) (auto intro: ensures_ret dest: ready_inv)
  have "ensures (saved (ce_sha a) m) (cred_inv (ce_sha a)) (recoverLoggedOut a obs m) (\<lambda>_ _. True)"
    unfolding recoverLoggedOut_def Let_def
    by (intro ensures_if c bind_check bind_steady(5) finish_ensures) (auto dest: ready_inv saved_ready)
  then show ?thesis by (rule ensures_weaken) (auto simp: saved_def ready_def)
qed

lemma recoverLocked_ensures:
  "ensures (\<lambda>d. ready (ce_sha a) m d \<and> fresh_in i d \<and> loaded m d) (cred_inv (ce_sha a)) (recoverLocked a i reads m) (\<lambda>_ _. True)"
  unfolding recoverLocked_def
proof (rule ensures_if, rule ensures_ret, blast dest: ready_inv, rule bind_obs, blast dest: ready_inv, simp only: prod.case)
  fix obs :: observation and data
  assume obs: "ob_valid obs \<longrightarrow> ob_fp obs = ce_sha a data"
  let ?P = "\<lambda>d. ready (ce_sha a) m d \<and> fresh_in i d \<and> loaded m d"
  have i: "ensures ?P (cred_inv (ce_sha a)) (recoverIdle a i obs data m) (\<lambda>_ _. True)"
    by (rule ensures_weaken [OF recoverIdle_ensures [OF obs]]) auto
  have p: "ensures ?P (cred_inv (ce_sha a)) (recoverPending a obs m) (\<lambda>_ _. True)"
    by (rule ensures_weaken [OF recoverPending_ensures]) auto
  have c: "ensures ?P (cred_inv (ce_sha a)) (recoverCommitting a obs m) (\<lambda>_ _. True)"
    by (rule ensures_weaken [OF recoverCommitting_ensures]) auto
  have "loaded m d \<Longrightarrow> mf_State m = StateLoggedOut \<Longrightarrow> \<exists>u. dk_manifest d = ManifestFile (m\<lparr>mf_UpdatedAt := u\<rparr>)" for d
    by (auto simp: loaded_def newManifest_def intro!: exI [of _ "mf_UpdatedAt m"])
  then have l: "ensures ?P (cred_inv (ce_sha a)) (recoverLoggedOut a obs m) (\<lambda>_ _. True)" if "mf_State m = StateLoggedOut"
    by (rule_tac ensures_weaken [OF recoverLoggedOut_ensures]) (use that in auto)
  show "ensures ?P (cred_inv (ce_sha a)) (case mf_State m of StateLoggedOut \<Rightarrow> recoverLoggedOut a obs m | StatePending \<Rightarrow> recoverPending a obs m
     | StateCommitting \<Rightarrow> recoverCommitting a obs m | _ \<Rightarrow> recoverIdle a i obs data m) (\<lambda>_ _. True)"
    using i p c l by (cases "mf_State m") simp_all
qed

lemma Recover_ensures: "ensures (start a i) (cred_inv (ce_sha a)) (Recover a i reads) (\<lambda>_ _. True)"
  unfolding Recover_def by (rule loaded_ensures) (rule recoverLocked_ensures)

lemma resolveLoggedOut_ensures: "ensures (ready (ce_sha a) m) (cred_inv (ce_sha a)) (resolveLoggedOut a m) (\<lambda>_ _. True)"
  unfolding resolveLoggedOut_def Let_def
  by (intro bind_check bind_getd, erule inv_facts, erule inv_facts, rule bind_saves, simp add: ready_for, blast dest: ready_inv,
      rule bind_steady(5), blast, erule inv_facts, rule bind_prune, rule end_stale) (auto dest: ready_inv)

lemma resolveAdoptLive_ensures:
  "ensures (\<lambda>d. ready (ce_sha a) m d \<and> fresh_in i d) (cred_inv (ce_sha a)) (resolveAdoptLive a i reads m) (\<lambda>_ _. True)"
  unfolding resolveAdoptLive_def
  by (rule bind_obs, erule inv_facts, simp only: prod.case, rule bind_check, erule inv_facts, rule ensures_weaken [OF adopt_ensures])
    (auto simp: ready_for)

lemma republish_ensures: "ensures (ready (ce_sha a) m) (cred_inv (ce_sha a)) (republish a l gen data m) (\<lambda>_ _. True)"
  unfolding republish_def Let_def
  by (rule bind_steady(4), blast, erule inv_facts, rule bind_live, erule inv_facts, simp only: prod.case,
      rule bind_check, erule inv_facts, rule bind_saves) (auto simp: ready_for intro: end_prune)

lemma resolveRepublish_ensures: "ensures (ready (ce_sha a) m) (cred_inv (ce_sha a)) (resolveRepublish a l m) (\<lambda>_ _. True)"
  unfolding resolveRepublish_def
  by (auto split: option.split intro!: ensures_fails ensures_if bind_getd bind_native ensures_at [OF republish_ensures] dest: ready_inv)

lemma Resolve_ensures: "ensures (start a i) (cred_inv (ce_sha a)) (ResolveRecovery a i reads choice) (\<lambda>_ _. True)"
  unfolding ResolveRecovery_def
proof (rule op_ensures, rule bind_check, erule inv_facts)
  fix m :: Manifest
  let ?m = "m\<lparr>mf_OperatorChoice := Some choice, mf_OperatorChoiceAt := ce_now a\<rparr>"
  have s: "ensures (\<lambda>d. ready (ce_sha a) m d \<and> fresh_in i d) (cred_inv (ce_sha a)) (saves a ?m) (\<lambda>m1 d. m1 = ?m \<and> ready (ce_sha a) ?m d \<and> fresh_in i d)"
    unfolding saves_def saveManifest_def
    by (rule ensures_andThen [where R = "\<lambda>_ d. ready (ce_sha a) ?m d \<and> fresh_in i d"], rule ensures_if, rule ensures_change)
      (auto simp: ready_for ready_def cred_inv_def backed_def fresh_in_def intro!: ensures_fails ensures_ret)
  show "ensures (\<lambda>d. ready (ce_sha a) m d \<and> fresh_in i d) (cred_inv (ce_sha a)) (andThen (saves a ?m) (\<lambda>m1.
       case choice of ChooseLive \<Rightarrow> resolveAdoptLive a i reads m1 | ChooseCurrent \<Rightarrow> resolveRepublish a LabelCurrent m1
         | ChoosePrevious \<Rightarrow> resolveRepublish a LabelPrevious m1 | ChooseLoggedOut \<Rightarrow> resolveLoggedOut a m1)) (\<lambda>_ _. True)"
    by (rule ensures_andThen [OF s], rule ensures_conj_pre)
      (cases choice; simp add: resolveAdoptLive_ensures ensures_drop_fresh [OF resolveRepublish_ensures] ensures_drop_fresh [OF resolveLoggedOut_ensures])
qed

lemma discard_ensures: "ensures P I f (\<lambda>_ _. True) \<Longrightarrow> ensures P I (discard f) (\<lambda>_ _. True)"
  unfolding discard_def ensures_def andThen_def ret_def by (fastforce split: prod.splits sum.splits)

lemma run_cred_ensures: "ensures (start a i) (cred_inv (ce_sha a)) (run_cred a i p) (\<lambda>_ _. True)"
  by (cases p) (simp_all add: Seed_ensures discard_ensures [OF Begin_ensures] Stage_ensures Validate_ensures Commit_ensures Abort_ensures
      MarkRevoked_ensures RecordLogout_ensures Reconcile_ensures discard_ensures [OF Recover_ensures] Resolve_ensures)

lemma cred_inv_step: "cred_step sha d x \<Longrightarrow> cred_inv sha d \<Longrightarrow> cred_inv sha x"
proof (induction rule: cred_step.induct)
  case (cred_run a i p rs d r rs1 d1 tr x)
  then show ?case using ensuresD [OF run_cred_ensures cred_run(1)] by (auto simp: start_def fresh_in_def)
qed (simp_all add: cred_inv_def backed_def)

subsection \<open>Properties: the journal\<close>

definition no_disk :: "live_file \<Rightarrow> disk" where
  "no_disk l = \<lparr>dk_manifest = NoManifest, dk_gens = [], dk_live = l, dk_pending = []\<rparr>"

text \<open>C37: whatever operations run, however their writes fail, wherever a crash cuts them short, and whatever
  the provider's own writer and the children in the pending homes do: a journal that is on the disk is well
  formed (no two generations with one label or one identifier), and for every generation it names, the payload is
  there and is the one with that fingerprint.\<close>

theorem credentials_invariant:
  assumes "(cred_step sha)\<^sup>*\<^sup>* (no_disk l) d" "dk_manifest d = ManifestFile m"
  shows "manifest_validate m \<and> (\<forall>g \<in> set (mf_Generations m). \<exists>data. readGeneration (g_ID g) d = Some data \<and> sha data = g_Fingerprint g)"
proof -
  have "cred_inv sha d" using assms(1)
    by (induction rule: rtranclp_induct) (auto simp: cred_inv_step, simp add: cred_inv_def no_disk_def)
  then show ?thesis using assms(2) by (auto simp: cred_inv_def backed_def gen_key_def readGeneration_def)
qed

subsection \<open>Lemmas: runs without failures\<close>

definition ok_run :: "'a act \<Rightarrow> disk \<Rightarrow> 'a \<Rightarrow> disk \<Rightarrow> bool" where
  "ok_run f d r d1 \<longleftrightarrow> (\<exists>tr. f [] d = (Inr r, [], d1, tr))"

lemma ok_ret: "ok_run (ret a) d a d"
  by (simp add: ok_run_def ret_def)

lemma ok_bind: "ok_run f d r d1 \<Longrightarrow> ok_run (g r) d1 s d2 \<Longrightarrow> ok_run (andThen f g) d s d2"
  by (auto simp: ok_run_def andThen_def)

lemma ok_getd: "ok_run (g d) d s d2 \<Longrightarrow> ok_run (andThen getd g) d s d2"
  by (auto simp: ok_run_def andThen_def getd_def)

lemma ok_check: "b \<Longrightarrow> ok_run (g ()) d s d2 \<Longrightarrow> ok_run (andThen (check b e) g) d s d2"
  by (auto simp: ok_run_def andThen_def check_def ret_def)

lemma ok_change: "ok_run (change f) d () (f d)"
  by (simp add: ok_run_def change_def Let_def)

lemma ok_each: "(\<And>x d. x \<in> set xs \<Longrightarrow> J d \<Longrightarrow> \<exists>d1. ok_run (f x) d () d1 \<and> J d1) \<Longrightarrow> J d \<Longrightarrow> \<exists>d1. ok_run (each f xs) d () d1 \<and> J d1"
proof (induction xs arbitrary: d)
  case Nil
  then show ?case using ok_ret by fastforce
next
  case (Cons x xs)
  obtain d1 where d1: "ok_run (f x) d () d1" "J d1" using Cons.prems by (meson list.set_intros(1))
  obtain d2 where "ok_run (each f xs) d1 () d2" "J d2" using Cons.IH [OF _ d1(2)] Cons.prems(1) by (meson list.set_intros(2))
  then show ?case using ok_bind [OF d1(1), of "\<lambda>_. each f xs"] by auto
qed

lemma ok_removeTxn: "\<exists>d1. ok_run (removeTxn i) d () d1 \<and> dk_manifest d1 = dk_manifest d \<and> dk_live d1 = dk_live d"
  unfolding removeTxn_def using ok_ret ok_change by (cases "i = []") fastforce+

lemma ok_stale: "\<exists>d1. ok_run (removeStalePending i) d () d1 \<and> dk_manifest d1 = dk_manifest d \<and> dk_live d1 = dk_live d"
proof -
  have "\<exists>d1. ok_run (each (\<lambda>i. change (\<lambda>d. d\<lparr>dk_pending := drop_key i (dk_pending d)\<rparr>)) xs) d () d1 \<and> (dk_manifest d1 = dk_manifest d \<and> dk_live d1 = dk_live d)" for xs
    by (rule ok_each) (use ok_change in fastforce)+
  then show ?thesis unfolding removeStalePending_def using ok_getd by meson
qed

lemma ok_prune: "\<exists>d1. ok_run (pruneGenerations m) d () d1 \<and> dk_manifest d1 = dk_manifest d \<and> dk_live d1 = dk_live d"
proof -
  have "\<exists>d1. ok_run (each (\<lambda>i. change (\<lambda>d. d\<lparr>dk_gens := drop_key i (dk_gens d)\<rparr>)) xs) d () d1 \<and> (dk_manifest d1 = dk_manifest d \<and> dk_live d1 = dk_live d)" for xs
    by (rule ok_each) (use ok_change in fastforce)+
  then show ?thesis unfolding pruneGenerations_def using ok_getd by meson
qed

lemma ok_save: "manifest_validate (m\<lparr>mf_UpdatedAt := now\<rparr>) \<Longrightarrow> ok_run (saveManifest now m) d () (d\<lparr>dk_manifest := ManifestFile (m\<lparr>mf_UpdatedAt := now\<rparr>)\<rparr>)"
  by (simp add: saveManifest_def ok_change)

lemma ok_saves: "manifest_validate (m\<lparr>mf_UpdatedAt := ce_now a\<rparr>) \<Longrightarrow> ok_run (saves a m) d m (d\<lparr>dk_manifest := ManifestFile (m\<lparr>mf_UpdatedAt := ce_now a\<rparr>)\<rparr>)"
  unfolding saves_def by (rule ok_bind [OF ok_save ok_ret])

text \<open>A manifest is saved, then files are removed.\<close>

lemma ok_save_then:
  assumes "manifest_validate (m\<lparr>mf_UpdatedAt := ce_now a\<rparr>)"
    "\<And>d. \<exists>d1. ok_run (g m) d s d1 \<and> dk_manifest d1 = dk_manifest d \<and> dk_live d1 = dk_live d"
  shows "\<exists>d1. ok_run (andThen (saves a m) g) d s d1 \<and> dk_manifest d1 = ManifestFile (m\<lparr>mf_UpdatedAt := ce_now a\<rparr>) \<and> dk_live d1 = dk_live d"
proof -
  let ?d = "d\<lparr>dk_manifest := ManifestFile (m\<lparr>mf_UpdatedAt := ce_now a\<rparr>)\<rparr>"
  obtain d1 where "ok_run (g m) ?d s d1" "dk_manifest d1 = dk_manifest ?d" "dk_live d1 = dk_live ?d" using assms(2) by blast
  then show ?thesis using ok_bind [OF ok_saves [OF assms(1)]] by fastforce
qed

lemma ok_files:
  assumes "\<exists>d1. ok_run f d () d1 \<and> dk_manifest d1 = dk_manifest d \<and> dk_live d1 = dk_live d"
    "\<And>d. \<exists>d1. ok_run (g ()) d s d1 \<and> dk_manifest d1 = dk_manifest d \<and> dk_live d1 = dk_live d"
  shows "\<exists>d1. ok_run (andThen f g) d s d1 \<and> dk_manifest d1 = dk_manifest d \<and> dk_live d1 = dk_live d"
proof -
  obtain d1 where d1: "ok_run f d () d1" "dk_manifest d1 = dk_manifest d" "dk_live d1 = dk_live d" using assms(1) by blast
  obtain d2 where "ok_run (g ()) d1 s d2" "dk_manifest d2 = dk_manifest d1" "dk_live d2 = dk_live d1" using assms(2) by blast
  then show ?thesis using ok_bind [OF d1(1)] d1(2,3) by fastforce
qed

lemma ok_ret_files: "\<exists>d1. ok_run (ret s) d s d1 \<and> dk_manifest d1 = dk_manifest d \<and> dk_live d1 = dk_live d"
  by (intro exI [of _ d]) (simp add: ok_ret)

subsection \<open>Lemmas: labels\<close>

lemma find_label:
  "distinct (map g_Label gs) \<Longrightarrow> find (\<lambda>g. g_Label g = l) gs = Some g \<longleftrightarrow> g \<in> set gs \<and> g_Label g = l"
  by (induction gs) (auto simp: image_iff)

lemma validate_drop: "manifest_validate m \<Longrightarrow> manifest_validate (dropLabel l m)"
  by (auto simp: manifest_validate_def dropLabel_def list_all_iff distinct_map inj_on_def)

lemma validate_same [simp]:
  "manifest_validate (m\<lparr>mf_UpdatedAt := u\<rparr>) = manifest_validate m" "manifest_validate (m\<lparr>mf_State := s\<rparr>) = manifest_validate m"
  by (simp_all add: manifest_validate_def)

lemma validate_no_txn: "manifest_validate m \<Longrightarrow> manifest_validate (m\<lparr>mf_Transaction := None\<rparr>)"
  by (simp add: manifest_validate_def)

lemma byLabel_drop: "manifest_validate m \<Longrightarrow> l \<noteq> l' \<Longrightarrow> byLabel l (dropLabel l' m) = byLabel l m"
proof -
  have "l \<noteq> l' \<Longrightarrow> find (\<lambda>g. g_Label g = l) (filter (\<lambda>g. g_Label g \<noteq> l') gs) = find (\<lambda>g. g_Label g = l) gs" for gs
    by (induction gs) auto
  then show "manifest_validate m \<Longrightarrow> l \<noteq> l' \<Longrightarrow> byLabel l (dropLabel l' m) = byLabel l m" by (simp add: byLabel_def dropLabel_def)
qed

definition promote :: "Generation \<Rightarrow> Generation" where
  "promote g = (case g_Label g of LabelCurrent \<Rightarrow> g\<lparr>g_Label := LabelPrevious\<rparr> | LabelPending \<Rightarrow> g\<lparr>g_Label := LabelCurrent\<rparr> | LabelPrevious \<Rightarrow> g)"

lemma relabel_is_map: "distinct (map g_Label gs) \<Longrightarrow> relabel_first l l' gs = map (\<lambda>g. if g_Label g = l then g\<lparr>g_Label := l'\<rparr> else g) gs"
proof (induction gs)
  case (Cons g gs)
  have "g_Label g = l \<Longrightarrow> map (\<lambda>g. if g_Label g = l then g\<lparr>g_Label := l'\<rparr> else g) gs = gs" using Cons.prems by (induction gs) auto
  then show ?case using Cons by auto
qed simp

text \<open>Rotating promotes the staged generation and demotes the current one.\<close>

lemma rotate_promotes:
  assumes "manifest_validate m" "byLabel LabelPending m = Some pend"
  shows "mf_Generations (rotateLocked (g_ID pend) m) = map promote (filter (\<lambda>g. g_Label g \<noteq> LabelPrevious) (mf_Generations m))"
proof -
  let ?gs = "mf_Generations m"
  have v: "distinct (map g_ID ?gs)" "distinct (map g_Label ?gs)" using assms(1) by (auto simp: manifest_validate_def)
  have p: "pend \<in> set ?gs" "g_Label pend = LabelPending" using assms(2) find_label [OF v(2)] by (auto simp: byLabel_def)
  have pid: "g \<in> set ?gs \<Longrightarrow> g_ID g = g_ID pend \<longleftrightarrow> g_Label g = LabelPending" for g
    using p v by (metis distinct_map inj_onD)
  have "relabel_first LabelCurrent LabelPrevious (filter (\<lambda>g. g_Label g \<noteq> LabelPrevious) ?gs) =
      map (\<lambda>g. if g_Label g = LabelCurrent then g\<lparr>g_Label := LabelPrevious\<rparr> else g) (filter (\<lambda>g. g_Label g \<noteq> LabelPrevious) ?gs)"
    by (rule relabel_is_map) (use v(2) in \<open>simp add: distinct_map_filter\<close>)
  then show ?thesis using pid
    by (auto simp: rotateLocked_def dropLabel_def Let_def promote_def split: Label.split)
qed

lemma rotate_spec:
  assumes "manifest_validate m" "byLabel LabelPending m = Some pend"
  shows "manifest_validate (rotateLocked (g_ID pend) m)"
    "byLabel LabelCurrent (rotateLocked (g_ID pend) m) = Some (pend\<lparr>g_Label := LabelCurrent\<rparr>)"
    "byLabel LabelPrevious (rotateLocked (g_ID pend) m) = map_option (\<lambda>g. g\<lparr>g_Label := LabelPrevious\<rparr>) (byLabel LabelCurrent m)"
proof -
  let ?gs = "mf_Generations m" and ?fs = "filter (\<lambda>g. g_Label g \<noteq> LabelPrevious) (mf_Generations m)"
  let ?rs = "mf_Generations (rotateLocked (g_ID pend) m)"
  have v: "distinct (map g_ID ?gs)" "distinct (map g_Label ?gs)" using assms(1) by (auto simp: manifest_validate_def)
  have r: "?rs = map promote ?fs" using rotate_promotes [OF assms] .
  have pl: "g_ID (promote g) = g_ID g" "g_Fingerprint (promote g) = g_Fingerprint g" for g by (simp_all add: promote_def split: Label.split)
  have inj: "inj_on (\<lambda>g. g_Label (promote g)) (set ?fs)"
    using v(2) by (auto simp: distinct_map inj_on_def promote_def split: Label.splits)
  have dl: "distinct (map g_Label ?rs)" using v inj by (auto simp: r distinct_map comp_def intro: distinct_filter)
  show "manifest_validate (rotateLocked (g_ID pend) m)"
  proof -
    have "map g_ID ?rs = map g_ID ?fs" by (simp add: r pl comp_def)
    then have "distinct (map g_ID ?rs)" using v(1) by (simp add: distinct_map_filter)
    moreover have "mf_Version (rotateLocked i m) = mf_Version m" "mf_Transaction (rotateLocked i m) = mf_Transaction m" for i
      by (simp_all add: rotateLocked_def dropLabel_def Let_def)
    moreover have "list_all (\<lambda>g. g_ID g \<noteq> [] \<and> Fingerprint_Valid (g_Fingerprint g) \<and> g_Fingerprint g \<noteq> FingerprintAbsent) ?rs"
      using assms(1) by (auto simp: r pl manifest_validate_def list_all_iff)
    ultimately show ?thesis using dl assms(1) by (simp add: manifest_validate_def)
  qed
  have p: "pend \<in> set ?gs" "g_Label pend = LabelPending" using assms(2) find_label [OF v(2)] by (auto simp: byLabel_def)
  then have "pend\<lparr>g_Label := LabelCurrent\<rparr> \<in> set ?rs" by (auto simp: r promote_def intro!: image_eqI [of _ _ pend])
  then show "byLabel LabelCurrent (rotateLocked (g_ID pend) m) = Some (pend\<lparr>g_Label := LabelCurrent\<rparr>)"
    using find_label [OF dl] by (simp add: byLabel_def)
  show "byLabel LabelPrevious (rotateLocked (g_ID pend) m) = map_option (\<lambda>g. g\<lparr>g_Label := LabelPrevious\<rparr>) (byLabel LabelCurrent m)"
  proof (cases "byLabel LabelCurrent m")
    case (Some g)
    then have "g \<in> set ?gs" "g_Label g = LabelCurrent" using find_label [OF v(2)] by (auto simp: byLabel_def)
    then have "g\<lparr>g_Label := LabelPrevious\<rparr> \<in> set ?rs" by (auto simp: r promote_def intro!: image_eqI [of _ _ g])
    then show ?thesis using find_label [OF dl] Some by (simp add: byLabel_def)
  next
    case None
    then have "g \<in> set ?gs \<Longrightarrow> g_Label g \<noteq> LabelCurrent" for g by (auto simp: byLabel_def find_None_iff)
    then have "g \<in> set ?rs \<Longrightarrow> g_Label g \<noteq> LabelPrevious" for g by (auto simp: r promote_def split: Label.splits)
    then have "byLabel LabelPrevious (rotateLocked (g_ID pend) m) = None" by (auto simp: byLabel_def find_None_iff)
    then show ?thesis using None by simp
  qed
qed

subsection \<open>Properties: crashes of a commit\<close>

text \<open>The disks a commit goes through: before it, with the journal saying that it publishes and the live file
  old or new, and after it.\<close>

definition commit_phase :: "Manifest \<Rightarrow> Generation \<Rightarrow> string \<Rightarrow> disk \<Rightarrow> disk \<Rightarrow> bool" where
  "commit_phase m pend data d0 x \<longleftrightarrow>
    dk_manifest x = ManifestFile m \<and> dk_live x = dk_live d0 \<or>
    (\<exists>u. dk_manifest x = ManifestFile (m\<lparr>mf_State := StateCommitting, mf_UpdatedAt := u\<rparr>)) \<and> (dk_live x = dk_live d0 \<or> dk_live x = LiveFile data) \<or>
    (\<exists>u. dk_manifest x = ManifestFile ((rotateLocked (g_ID pend) m)\<lparr>mf_Transaction := None, mf_State := StateIdle, mf_UpdatedAt := u\<rparr>)) \<and> dk_live x = LiveFile data"

lemma ensures_keep: "(\<And>d. P d \<Longrightarrow> I d) \<Longrightarrow> (\<And>d. P d \<Longrightarrow> P (f d)) \<Longrightarrow> ensures P I (change f) (\<lambda>_. P)"
  by (rule ensures_change) blast

lemma liveFingerprint_exact:
  "(\<And>d. P d \<Longrightarrow> I d) \<Longrightarrow> ensures P I (liveFingerprint sha) (\<lambda>p d. P d \<and> fingerprint_of sha (dk_live d) = Some p)"
  by (auto simp: ensures_def liveFingerprint_def andThen_def getd_def ret_def fails_def split: option.splits)

lemma saves_phase:
  assumes "\<And>d. P d \<Longrightarrow> I d" "\<And>d. R d \<Longrightarrow> I d" "\<And>d. P d \<Longrightarrow> R (d\<lparr>dk_manifest := ManifestFile (m\<lparr>mf_UpdatedAt := ce_now a\<rparr>)\<rparr>)"
  shows "ensures P I (saves a m) (\<lambda>m1 d. R d \<and> m1 = m)"
proof -
  have c: "ensures P I (change (\<lambda>d. d\<lparr>dk_manifest := ManifestFile (m\<lparr>mf_UpdatedAt := ce_now a\<rparr>)\<rparr>)) (\<lambda>_. R)"
    by (rule ensures_change) (simp add: assms)
  have "ensures P I (saveManifest (ce_now a) m) (\<lambda>_. R)"
    unfolding saveManifest_def by (rule ensures_if, rule c, rule ensures_fails) (rule assms(1))
  then show ?thesis unfolding saves_def by (rule ensures_andThen, rule_tac ensures_ret) (simp add: assms(2))
qed

lemma publish_phases:
  "ensures (\<lambda>d. dk_manifest d = ManifestFile m \<and> dk_live d = dk_live d0) (commit_phase m pend data d0) (publish a t pend data m) (\<lambda>_ _. True)"
proof -
  let ?I = "commit_phase m pend data d0"
  let ?mC = "m\<lparr>mf_State := StateCommitting\<rparr>" let ?m2 = "(rotateLocked (g_ID pend) ?mC)\<lparr>mf_Transaction := None, mf_State := StateIdle\<rparr>"
  define P0 where "P0 = (\<lambda>d :: disk. dk_manifest d = ManifestFile m \<and> dk_live d = dk_live d0)"
  define P1 where "P1 = (\<lambda>d :: disk. (\<exists>u. dk_manifest d = ManifestFile (?mC\<lparr>mf_UpdatedAt := u\<rparr>)) \<and> dk_live d = dk_live d0)"
  define P2 where "P2 = (\<lambda>d :: disk. (\<exists>u. dk_manifest d = ManifestFile (?mC\<lparr>mf_UpdatedAt := u\<rparr>)) \<and> dk_live d = LiveFile data)"
  define P3 where "P3 = (\<lambda>d :: disk. (\<exists>u. dk_manifest d = ManifestFile (?m2\<lparr>mf_UpdatedAt := u\<rparr>)) \<and> dk_live d = LiveFile data)"
  have m2: "?m2\<lparr>mf_UpdatedAt := u\<rparr> = (rotateLocked (g_ID pend) m)\<lparr>mf_Transaction := None, mf_State := StateIdle, mf_UpdatedAt := u\<rparr>" for u
    by (simp add: rotateLocked_def dropLabel_def Let_def)
  have i: "P0 d \<Longrightarrow> ?I d" "P1 d \<Longrightarrow> ?I d" "P2 d \<Longrightarrow> ?I d" "P3 d \<Longrightarrow> ?I d" for d
    unfolding P0_def P1_def P2_def P3_def m2 commit_phase_def by auto
  have go: "P0 d \<Longrightarrow> P1 (d\<lparr>dk_manifest := ManifestFile (?mC\<lparr>mf_UpdatedAt := u\<rparr>)\<rparr>)"
    "P2 d \<Longrightarrow> P3 (d\<lparr>dk_manifest := ManifestFile (?m2\<lparr>mf_UpdatedAt := u\<rparr>)\<rparr>)" "P1 d \<Longrightarrow> P2 (d\<lparr>dk_live := LiveFile data\<rparr>)" for d u
    unfolding P0_def P1_def P2_def P3_def by auto
  have s1: "ensures P0 ?I (saves a ?mC) (\<lambda>m1 d. P1 d \<and> m1 = ?mC)"
    by (rule saves_phase) (erule i, erule i, erule go)
  have s3: "ensures P2 ?I (saves a ?m2) (\<lambda>m1 d. P3 d \<and> m1 = ?m2)"
    by (rule saves_phase) (erule i, erule i, erule go)
  have w: "ensures P1 ?I (write_live data) (\<lambda>_. P2)"
    unfolding write_live_def by (rule ensures_change) (simp add: i go)
  have c: "ensures P3 ?I (change f) (\<lambda>_. P3)" if "\<And>d. dk_manifest (f d) = dk_manifest d \<and> dk_live (f d) = dk_live d" for f
    by (rule ensures_keep, erule i) (use that in \<open>auto simp: P3_def\<close>)
  have r: "ensures P3 ?I (removeTxn j) (\<lambda>_. P3)" for j
    unfolding removeTxn_def by (intro ensures_if ensures_ret c) (use i in auto)
  have pr: "ensures P3 ?I (pruneGenerations m') (\<lambda>_ _. True)" for m'
    unfolding pruneGenerations_def
    by (rule bind_getd, erule i, rule ensures_weaken [OF ensures_each [of _ P3]]) (use i c in auto)
  have l0: "ensures P0 ?I (liveFingerprint (ce_sha a)) (\<lambda>p d. P0 d \<and> True)"
    by (rule ensures_weaken [OF liveFingerprint_exact [of P0]]) (use i in auto)
  have l2: "ensures P2 ?I (liveFingerprint (ce_sha a)) (\<lambda>p d. P2 d \<and> fst p = ce_sha a data)"
    by (rule ensures_weaken [OF liveFingerprint_exact [of P2]]) (use i in \<open>auto simp: P2_def fingerprint_of_def\<close>)
  show ?thesis
    unfolding publish_def Let_def P0_def [symmetric]
    by (rule bind_fact [OF l0], simp only: split_beta, rule bind_check, erule i, rule bind_fact [OF s1], simp only:, rule bind_unit [OF w],
        rule bind_fact [OF l2], simp only: split_beta not_not if_False refl simp_thms, rule bind_fact [OF s3], rule bind_unit [OF r pr])
qed

lemma Commit_phases:
  assumes "dk_manifest d = ManifestFile m" "byLabel LabelPending m = Some pend" "readGeneration (g_ID pend) d = Some data"
    "Commit a txnID rs d = (r, rs1, d1, tr)" "x \<in> set (d # tr)"
  shows "commit_phase m pend data d x"
proof -
  let ?P = "\<lambda>x. x = d"
  have i: "commit_phase m pend data d d" using assms(1) by (simp add: commit_phase_def)
  have p: "ensures ?P (commit_phase m pend data d) (publish a t pend data m) (\<lambda>_ _. True)" for t
    by (rule ensures_weaken [OF publish_phases]) (use assms(1) in auto)
  have "ensures ?P (commit_phase m pend data d) (Commit a txnID) (\<lambda>_ _. True)"
    unfolding Commit_def withProviderLock_def
  proof (rule bind_check, simp add: i, rule ensures_andThen [where R = "\<lambda>m' x. x = d \<and> m' = m"])
    show "ensures ?P (commit_phase m pend data d) loadOrInit (\<lambda>m' x. x = d \<and> m' = m)"
      by (auto simp: ensures_def loadOrInit_def andThen_def getd_def ret_def fails_def assms(1) i split: if_splits)
    fix m'
    have "ensures (\<lambda>x. x = d) (commit_phase m pend data d)
      (andThen (own_txn txnID m) (\<lambda>t. andThen (check (mf_State m \<noteq> StateExternal) ErrUnsupportedBackend) (\<lambda>_.
        case byLabel LabelPending m of None \<Rightarrow> fails ErrInvalidCandidate
        | Some pend \<Rightarrow> if IsZero (g_ValidatedAt pend) then fails ErrInvalidCandidate
          else andThen getd (\<lambda>d. case readGeneration (g_ID pend) d of None \<Rightarrow> fails ErrCredRead
              | Some data \<Rightarrow> andThen (native_lock a) (\<lambda>_. publish a t pend data m))))) (\<lambda>_ _. True)"
      unfolding assms(2) option.case
    proof (intro bind_own bind_check ensures_if ensures_fails bind_getd)
      fix t d0
      show "ensures (\<lambda>x. x = d0 \<and> x = d) (commit_phase m pend data d) (case readGeneration (g_ID pend) d0 of None \<Rightarrow> fails ErrCredRead
              | Some data \<Rightarrow> andThen (native_lock a) (\<lambda>_. publish a t pend data m)) (\<lambda>_ _. True)"
      proof (cases "d0 = d")
        case True
        show ?thesis unfolding True assms(3) option.case by (rule bind_native) (use i p in auto)
      qed (simp add: ensures_def)
    qed (simp_all add: i)
    note run = this
    show "ensures (\<lambda>x. x = d \<and> m' = m) (commit_phase m pend data d)
      (andThen (own_txn txnID m') (\<lambda>t. andThen (check (mf_State m' \<noteq> StateExternal) ErrUnsupportedBackend) (\<lambda>_.
        case byLabel LabelPending m' of None \<Rightarrow> fails ErrInvalidCandidate
        | Some pend \<Rightarrow> if IsZero (g_ValidatedAt pend) then fails ErrInvalidCandidate
          else andThen getd (\<lambda>d. case readGeneration (g_ID pend) d of None \<Rightarrow> fails ErrCredRead
              | Some data \<Rightarrow> andThen (native_lock a) (\<lambda>_. publish a t pend data m'))))) (\<lambda>_ _. True)"
    proof (cases "m' = m")
      case True
      show ?thesis unfolding True using run by simp
    qed (simp add: ensures_def)
  qed
  from ensuresD [OF this assms(4) refl] show ?thesis using assms(5) i by auto
qed

lemma stable_quiet: "stable_loop a l [l] = observeWithBytes a l"
  by simp

lemma observe_quiet:
  assumes "fingerprint_of (ce_sha a) l = Some (fp, data)" "length data \<le> MaxCredentialBytes"
  shows "ob_fp (fst (observeWithBytes a l)) = fp \<and> (data \<noteq> [] \<longrightarrow> ob_stable (fst (observeWithBytes a l)))"
  using assms by (cases l) (auto simp: fingerprint_of_def observeWithBytes_def observed_def split: option.split)

text \<open>The start of \<open>Recover\<close> when nobody else writes: the journal is read and the live file observed.\<close>

lemma ok_load: "dk_manifest x = ManifestFile m \<Longrightarrow> manifest_validate m \<Longrightarrow> ok_run loadOrInit x m x"
  unfolding loadOrInit_def by (rule ok_getd) (simp add: ok_ret)

lemma ok_lock: "ce_lock a \<Longrightarrow> dk_manifest x = ManifestFile m \<Longrightarrow> manifest_validate m \<Longrightarrow> ok_run (body m) x s d2 \<Longrightarrow> ok_run (withProviderLock a body) x s d2"
  unfolding withProviderLock_def by (rule ok_check) (auto intro: ok_bind [OF ok_load])

lemma Recover_quiet:
  assumes "ce_lock b" "ce_paths b" "dk_manifest x = ManifestFile m" "manifest_validate m" "mf_State m \<noteq> StateRecoveryRequired \<or> mf_OperatorChoice m = None"
    "observeWithBytes b (dk_live x) = (obs, data)"
    "ok_run (case mf_State m of StateLoggedOut \<Rightarrow> recoverLoggedOut b obs m | StatePending \<Rightarrow> recoverPending b obs m
       | StateCommitting \<Rightarrow> recoverCommitting b obs m | _ \<Rightarrow> recoverIdle b i obs data m) x s d2"
  shows "ok_run (Recover b i [dk_live x, dk_live x]) x s d2"
  unfolding Recover_def
proof (rule ok_lock [OF assms(1,3,4)])
  have st: "ok_run (stableObservation b [dk_live x, dk_live x]) x (obs, data) x"
    unfolding stableObservation_def list.case by (rule ok_check [OF assms(2)]) (simp only: stable_quiet assms(6) ok_ret)
  have "\<not> (mf_State m = StateRecoveryRequired \<and> mf_OperatorChoice m \<noteq> None)" using assms(5) by auto
  then show "ok_run (recoverLocked b i [dk_live x, dk_live x] m) x s d2"
    unfolding recoverLocked_def by (simp only: if_False, rule_tac ok_bind [OF st], simp only: prod.case, rule_tac assms(7))
qed

lemmas ok_clean = ok_files [OF ok_removeTxn] ok_files [OF ok_prune] ok_files [OF ok_stale] ok_ret_files

lemma recoverPending_quiet:
  assumes "manifest_validate m" "mf_Transaction m = Some t" "ob_fp obs = x_ExpectedLive t"
  shows "\<exists>d2. ok_run (recoverPending b obs m) x StateIdle d2 \<and> dk_live d2 = dk_live x \<and>
    dk_manifest d2 = ManifestFile ((dropLabel LabelPending m)\<lparr>mf_Transaction := None, mf_State := StateIdle, mf_UpdatedAt := ce_now b\<rparr>)"
proof -
  let ?m = "(dropLabel LabelPending m)\<lparr>mf_Transaction := None, mf_State := StateIdle\<rparr>"
  have v: "manifest_validate (?m\<lparr>mf_UpdatedAt := ce_now b\<rparr>)" using validate_drop [OF assms(1)] validate_no_txn by simp
  show ?thesis unfolding recoverPending_def Let_def using assms(2,3) ok_save_then [OF v, of "\<lambda>_. andThen (removeTxn (x_ID t)) (\<lambda>_.
     andThen (pruneGenerations ?m) (\<lambda>_. andThen (removeStalePending []) (\<lambda>_. ret StateIdle)))" StateIdle x, OF ok_clean(1), OF ok_clean(2), OF ok_clean(3), OF ok_clean(4)]
    by auto
qed

lemma recoverCommitting_quiet:
  assumes "manifest_validate m" "mf_Transaction m = Some t" "byLabel LabelPending m = Some pend"
    "m2 = (if ob_fp obs = g_Fingerprint pend then rotateLocked (g_ID pend) m else dropLabel LabelPending m)\<lparr>mf_Transaction := None, mf_State := StateIdle\<rparr>"
    "ob_fp obs = g_Fingerprint pend \<or> ob_fp obs = x_ExpectedLive t"
  shows "\<exists>d2. ok_run (recoverCommitting b obs m) x StateIdle d2 \<and> dk_live d2 = dk_live x \<and> dk_manifest d2 = ManifestFile (m2\<lparr>mf_UpdatedAt := ce_now b\<rparr>)"
proof -
  have v: "manifest_validate (m2\<lparr>mf_UpdatedAt := ce_now b\<rparr>)"
    unfolding assms(4) using validate_drop [OF assms(1)] rotate_spec(1) [OF assms(1,3)] validate_no_txn by simp
  show ?thesis unfolding recoverCommitting_def Let_def using assms(2-5) ok_save_then [OF v, of "\<lambda>_. andThen (removeTxn (x_ID t)) (\<lambda>_.
     andThen (pruneGenerations m2) (\<lambda>_. ret StateIdle))" StateIdle x, OF ok_clean(1), OF ok_clean(2), OF ok_clean(4)]
    by (auto split: if_splits)
qed

lemma recoverIdle_quiet:
  assumes "manifest_validate m" "mf_State m = StateIdle" "byLabel LabelCurrent m = Some cur" "ob_fp obs = g_Fingerprint cur" "ob_stable obs"
  shows "\<exists>d2. ok_run (recoverIdle b i obs data m) x StateIdle d2 \<and> dk_live d2 = dk_live x \<and> dk_manifest d2 = ManifestFile (m\<lparr>mf_State := StateIdle, mf_UpdatedAt := ce_now b\<rparr>)"
proof -
  obtain d1 where d1: "ok_run (removeStalePending []) x () d1" "dk_live d1 = dk_live x" using ok_stale by blast
  have "ok_run (finish_state b StateIdle m) d1 StateIdle (d1\<lparr>dk_manifest := ManifestFile (m\<lparr>mf_State := StateIdle, mf_UpdatedAt := ce_now b\<rparr>)\<rparr>)"
    unfolding finish_state_def by (rule ok_bind [OF ok_save ok_ret]) (simp add: assms(1))
  then show ?thesis unfolding recoverIdle_def using assms(3-5) ok_bind [OF d1(1)] d1(2) by fastforce
qed

text \<open>C38: a commit is atomic over crashes. Let the journal hold a transaction with a staged candidate, and the
  live file be the one the transaction expects. Wherever a crash stops the commit, and whichever of its writes
  failed, recovery at the next start succeeds and settles the transaction one way or the other: either the live file
  is untouched and the current and previous generations are the ones before, or the live file holds the
  candidate, which is the current generation, and the current one before is the previous one.\<close>

theorem commit_crash_atomic:
  assumes "cred_inv (ce_sha a) d" "dk_manifest d = ManifestFile m" "mf_State m = StatePending" "mf_Transaction m = Some t"
    and "byLabel LabelPending m = Some pend" "readGeneration (g_ID pend) d = Some data" "data \<noteq> []" "length data \<le> MaxCredentialBytes"
    and "fingerprint_of (ce_sha a) (dk_live d) = Some (x_ExpectedLive t, old)" "length old \<le> MaxCredentialBytes"
    and "Commit a (x_ID t) rs d = (r, rs1, d1, tr)" "x \<in> set (d # tr)"
    and "ce_sha b = ce_sha a" "ce_lock b" "ce_paths b"
  shows "\<exists>d2 m2 tr2. Recover b i [dk_live x, dk_live x] [] x = (Inr StateIdle, [], d2, tr2) \<and> dk_live d2 = dk_live x \<and>
    dk_manifest d2 = ManifestFile m2 \<and> mf_State m2 = StateIdle \<and> mf_Transaction m2 = None \<and>
    (dk_live x = dk_live d \<and> byLabel LabelCurrent m2 = byLabel LabelCurrent m \<and> byLabel LabelPrevious m2 = byLabel LabelPrevious m \<or>
     map_option fst (fingerprint_of (ce_sha a) (dk_live x)) = Some (ce_sha a data) \<and> byLabel LabelCurrent m2 = Some (pend\<lparr>g_Label := LabelCurrent\<rparr>) \<and>
     byLabel LabelPrevious m2 = map_option (\<lambda>g. g\<lparr>g_Label := LabelPrevious\<rparr>) (byLabel LabelCurrent m))"
proof -
  let ?goal = "\<exists>d2 m2. ok_run (Recover b i [dk_live x, dk_live x]) x StateIdle d2 \<and> dk_live d2 = dk_live x \<and>
    dk_manifest d2 = ManifestFile m2 \<and> mf_State m2 = StateIdle \<and> mf_Transaction m2 = None \<and>
    (dk_live x = dk_live d \<and> byLabel LabelCurrent m2 = byLabel LabelCurrent m \<and> byLabel LabelPrevious m2 = byLabel LabelPrevious m \<or>
     map_option fst (fingerprint_of (ce_sha a) (dk_live x)) = Some (ce_sha a data) \<and> byLabel LabelCurrent m2 = Some (pend\<lparr>g_Label := LabelCurrent\<rparr>) \<and>
     byLabel LabelPrevious m2 = map_option (\<lambda>g. g\<lparr>g_Label := LabelPrevious\<rparr>) (byLabel LabelCurrent m))"
  have v: "manifest_validate m" using assms(1,2) by (simp add: cred_inv_def)
  have "pend \<in> set (mf_Generations m)" using assms(5) by (auto simp: byLabel_def find_Some_iff)
  then have fp: "g_Fingerprint pend = ce_sha a data" using assms(1,2,6) by (auto simp: cred_inv_def backed_def gen_key_def readGeneration_def)
  have lbl: "byLabel l (m'\<lparr>mf_UpdatedAt := u\<rparr>) = byLabel l m'" "byLabel l (m'\<lparr>mf_State := s\<rparr>) = byLabel l m'" "byLabel l (m'\<lparr>mf_Transaction := tx\<rparr>) = byLabel l m'" for l m' u s tx
    by (simp_all add: byLabel_def)
  note rot = rotate_spec [OF v assms(5)]
  have live: "\<exists>e o'. fingerprint_of (ce_sha b) (dk_live x) = Some (e, o') \<and> length o' \<le> MaxCredentialBytes \<and>
      (dk_live x = dk_live d \<longrightarrow> e = x_ExpectedLive t) \<and> (dk_live x = LiveFile data \<longrightarrow> e = ce_sha a data \<and> o' = data)"
    if "dk_live x = dk_live d \<or> dk_live x = LiveFile data"
    using that assms(7-10,13) by (auto simp: fingerprint_of_def split: live_file.splits)
  have "commit_phase m pend data d x" by (rule Commit_phases [OF assms(2,5,6,11,12)])
  then consider (before) "dk_manifest x = ManifestFile m" "dk_live x = dk_live d"
    | (during) u where "dk_manifest x = ManifestFile (m\<lparr>mf_State := StateCommitting, mf_UpdatedAt := u\<rparr>)" "dk_live x = dk_live d \<or> dk_live x = LiveFile data"
    | (after) u where "dk_manifest x = ManifestFile ((rotateLocked (g_ID pend) m)\<lparr>mf_Transaction := None, mf_State := StateIdle, mf_UpdatedAt := u\<rparr>)" "dk_live x = LiveFile data"
    unfolding commit_phase_def by blast
  then have ?goal
  proof cases
    case before
    obtain e o' where e: "fingerprint_of (ce_sha b) (dk_live x) = Some (e, o')" "length o' \<le> MaxCredentialBytes" "e = x_ExpectedLive t" using live before(2) by blast
    obtain obs data' where ob: "observeWithBytes b (dk_live x) = (obs, data')" by force
    have obs: "ob_fp obs = e" "\<And>s d2. ok_run (recoverPending b obs m) x s d2 \<Longrightarrow> ok_run (Recover b i [dk_live x, dk_live x]) x s d2"
      using observe_quiet [OF e(1,2)] Recover_quiet [OF assms(14,15) before(1) v _ ob, of i] assms(3) ob by auto
    obtain d2 where "ok_run (recoverPending b obs m) x StateIdle d2" "dk_live d2 = dk_live x"
      "dk_manifest d2 = ManifestFile ((dropLabel LabelPending m)\<lparr>mf_Transaction := None, mf_State := StateIdle, mf_UpdatedAt := ce_now b\<rparr>)"
      using recoverPending_quiet [OF v assms(4), of obs b x] obs(1) e(3) by auto
    then show ?thesis using obs(2) before(2) byLabel_drop [OF v]
      by (intro exI [of _ d2] exI [of _ "(dropLabel LabelPending m)\<lparr>mf_Transaction := None, mf_State := StateIdle, mf_UpdatedAt := ce_now b\<rparr>"]) (simp add: lbl)
  next
    case (during u)
    let ?m = "m\<lparr>mf_State := StateCommitting, mf_UpdatedAt := u\<rparr>"
    obtain e o' where e: "fingerprint_of (ce_sha b) (dk_live x) = Some (e, o')" "length o' \<le> MaxCredentialBytes"
      "dk_live x = dk_live d \<longrightarrow> e = x_ExpectedLive t" "dk_live x = LiveFile data \<longrightarrow> e = ce_sha a data" using live during(2) by blast
    have vm: "manifest_validate ?m" using v by simp
    obtain obs data' where ob: "observeWithBytes b (dk_live x) = (obs, data')" by force
    have obs: "ob_fp obs = e" "\<And>s d2. ok_run (recoverCommitting b obs ?m) x s d2 \<Longrightarrow> ok_run (Recover b i [dk_live x, dk_live x]) x s d2"
      using observe_quiet [OF e(1,2)] Recover_quiet [OF assms(14,15) during(1) vm _ ob, of i] ob by auto
    let ?m2 = "(if ob_fp obs = g_Fingerprint pend then rotateLocked (g_ID pend) ?m else dropLabel LabelPending ?m)\<lparr>mf_Transaction := None, mf_State := StateIdle\<rparr>"
    obtain d2 where d2: "ok_run (recoverCommitting b obs ?m) x StateIdle d2" "dk_live d2 = dk_live x" "dk_manifest d2 = ManifestFile (?m2\<lparr>mf_UpdatedAt := ce_now b\<rparr>)"
      using recoverCommitting_quiet [OF vm _ _ refl, of t pend obs b x] assms(4,5) e(3,4) during(2) obs(1) fp by (auto simp: lbl)
    have "rotateLocked j ?m = (rotateLocked j m)\<lparr>mf_State := StateCommitting, mf_UpdatedAt := u\<rparr>" "dropLabel l ?m = (dropLabel l m)\<lparr>mf_State := StateCommitting, mf_UpdatedAt := u\<rparr>" for j l
      by (simp_all add: rotateLocked_def dropLabel_def Let_def)
    then show ?thesis using d2 obs e during(2) fp rot byLabel_drop [OF v] assms(13)
      by (intro exI [of _ d2] exI [of _ "?m2\<lparr>mf_UpdatedAt := ce_now b\<rparr>"]) (auto simp: lbl)
  next
    case (after u)
    let ?m = "(rotateLocked (g_ID pend) m)\<lparr>mf_Transaction := None, mf_State := StateIdle, mf_UpdatedAt := u\<rparr>"
    obtain e where e: "fingerprint_of (ce_sha b) (dk_live x) = Some (e, data)" "e = ce_sha a data" using live after(2) by auto
    have vm: "manifest_validate ?m" using validate_no_txn [OF rot(1)] by simp
    obtain obs data' where ob: "observeWithBytes b (dk_live x) = (obs, data')" by force
    have obs: "ob_fp obs = e" "data \<noteq> [] \<longrightarrow> ob_stable obs" "\<And>s d2. ok_run (recoverIdle b i obs data' ?m) x s d2 \<Longrightarrow> ok_run (Recover b i [dk_live x, dk_live x]) x s d2"
      using observe_quiet [OF e(1) assms(8)] Recover_quiet [OF assms(14,15) after(1) vm _ ob, of i] ob by auto
    have c: "byLabel LabelCurrent ?m = Some (pend\<lparr>g_Label := LabelCurrent\<rparr>)" using rot(2) by (simp add: lbl)
    obtain d2 where "ok_run (recoverIdle b i obs data' ?m) x StateIdle d2" "dk_live d2 = dk_live x"
      "dk_manifest d2 = ManifestFile (?m\<lparr>mf_State := StateIdle, mf_UpdatedAt := ce_now b\<rparr>)"
      using recoverIdle_quiet [OF vm _ c, of obs b i data' x] obs(1,2) e(2) fp assms(7) by auto
    then show ?thesis using obs(3) e rot assms(13)
      by (intro exI [of _ d2] exI [of _ "?m\<lparr>mf_State := StateIdle, mf_UpdatedAt := ce_now b\<rparr>"]) (simp add: lbl)
  qed
  then show ?thesis unfolding ok_run_def by blast
qed

subsection \<open>Properties: states that are not left, or left too early\<close>

lemma ok_adopt:
  assumes "manifest_validate m" "byLabel LabelPending m = None" "i \<noteq> []" "i \<notin> g_ID ` set (mf_Generations m)"
    "Fingerprint_Valid (ob_fp obs)" "ob_fp obs \<noteq> FingerprintAbsent"
  shows "\<exists>d1 m1. ok_run (adopt_live a i src obs data (\<lambda>m. m) m) d () d1 \<and> dk_manifest d1 = ManifestFile m1 \<and> mf_State m1 = mf_State m"
proof -
  let ?g = "generation i LabelPending (ob_fp obs) (cd_Mode (ob_meta obs)) src (ce_now a) (ce_now a)"
  let ?m = "add_generation ?g m"
  have np: "g \<in> set (mf_Generations m) \<Longrightarrow> g_Label g \<noteq> LabelPending" for g using assms(2) by (auto simp: byLabel_def find_None_iff)
  then have "LabelPending \<notin> g_Label ` set (mf_Generations m)" by force
  then have v: "manifest_validate ?m" using assms(1,3-6) by (auto simp: manifest_validate_def add_generation_def generation_def)
  then have "distinct (map g_Label (mf_Generations ?m))" by (simp add: manifest_validate_def)
  then have b: "byLabel LabelPending ?m = Some ?g" unfolding byLabel_def using find_label [of "mf_Generations ?m" LabelPending ?g] by (simp add: generation_def)
  have r: "manifest_validate (rotateLocked i ?m)" using rotate_spec(1) [OF v b] by (simp add: generation_def)
  have w: "ok_run (writeGeneration i data) d () (d\<lparr>dk_gens := (i, data) # drop_key i (dk_gens d)\<rparr>)" unfolding writeGeneration_def by (rule ok_change)
  have st: "mf_State (rotateLocked i ?m) = mf_State m" by (simp add: rotateLocked_def dropLabel_def add_generation_def Let_def)
  have "\<exists>d1. ok_run (andThen (saves a (rotateLocked i ?m)) (\<lambda>_. pruneGenerations (rotateLocked i ?m))) (d\<lparr>dk_gens := (i, data) # drop_key i (dk_gens d)\<rparr>) () d1 \<and>
      dk_manifest d1 = ManifestFile ((rotateLocked i ?m)\<lparr>mf_UpdatedAt := ce_now a\<rparr>) \<and> dk_live d1 = dk_live (d\<lparr>dk_gens := (i, data) # drop_key i (dk_gens d)\<rparr>)"
    by (rule ok_save_then) (use r ok_prune in auto)
  then show ?thesis unfolding adopt_live_def Let_def using ok_bind [OF w] st by fastforce
qed

text \<open>C39: adopting the live file does not end the state it should end. When the journal says that recovery is
  required, or that the credential is external, and the live file is valid, of the current generation's mode and not
  older than it, start-up recovery makes it the current generation and reports that the provider is idle; but the
  journal it leaves still says recovery required, or external.\<close>

theorem adoption_keeps_state:
  assumes "dk_manifest d = ManifestFile m" "manifest_validate m" "mf_State m \<in> {StateRecoveryRequired, StateExternal}" "mf_OperatorChoice m = None"
    and "byLabel LabelCurrent m = Some cur" "byLabel LabelPending m = None"
    and "dk_live d = LiveFile data" "data \<noteq> []" "length data \<le> MaxCredentialBytes" "ce_validate a data = Some meta"
    and "ce_sha a data \<noteq> g_Fingerprint cur" "NotOlder meta (metaOf a d cur)"
    and "Fingerprint_Valid (ce_sha a data)" "ce_sha a data \<noteq> FingerprintAbsent" "i \<noteq> []" "i \<notin> g_ID ` set (mf_Generations m)" "ce_lock a" "ce_paths a"
  shows "\<exists>d1 m1 tr. Recover a i [LiveFile data, LiveFile data] [] d = (Inr StateIdle, [], d1, tr) \<and>
    dk_manifest d1 = ManifestFile m1 \<and> mf_State m1 = mf_State m"
proof -
  let ?obs = "\<lparr>ob_fp = ce_sha a data, ob_meta = meta, ob_valid = True, ob_stable = True\<rparr>"
  have ob: "observeWithBytes a (dk_live d) = (?obs, data)" using assms(7-10) by (simp add: observeWithBytes_def)
  obtain d1 m1 where d1: "ok_run (adopt_live a i SourceRefresh ?obs data (\<lambda>m. m) m) d () d1" "dk_manifest d1 = ManifestFile m1" "mf_State m1 = mf_State m"
    using ok_adopt [OF assms(2,6,15,16), of ?obs a SourceRefresh data d] assms(13,14) by auto
  obtain d2 where d2: "ok_run (removeStalePending []) d1 () d2" "dk_manifest d2 = dk_manifest d1" using ok_stale by blast
  have "ok_run (andThen (adopt_live a i SourceRefresh ?obs data (\<lambda>m. m) m) (\<lambda>_. andThen (removeStalePending []) (\<lambda>_. ret StateIdle))) d StateIdle d2"
    by (rule ok_bind [OF d1(1) ok_bind [OF d2(1) ok_ret]])
  then have "ok_run (recoverIdle a i ?obs data m) d StateIdle d2"
    unfolding recoverIdle_def using assms(5,11,12) by (simp, rule_tac ok_getd) simp
  moreover have "(case mf_State m of StateLoggedOut \<Rightarrow> recoverLoggedOut a ?obs m | StatePending \<Rightarrow> recoverPending a ?obs m
       | StateCommitting \<Rightarrow> recoverCommitting a ?obs m | _ \<Rightarrow> recoverIdle a i ?obs data m) = recoverIdle a i ?obs data m" using assms(3) by auto
  ultimately have "ok_run (Recover a i [dk_live d, dk_live d]) d StateIdle d2"
    using Recover_quiet [OF assms(17,18,1,2) _ ob, of i StateIdle d2] assms(4) by simp
  then show ?thesis unfolding ok_run_def using assms(7) d1(2,3) d2(2) by auto
qed

text \<open>Relabelling after the previous generation was published makes the current one previous by way of the pending
  label; a generation that is pending already becomes previous with it, and the manifest is refused.\<close>

lemma swap_refused:
  assumes "manifest_validate m" "byLabel LabelCurrent m = Some cur" "byLabel LabelPrevious m = Some prev" "byLabel LabelPending m = Some pend"
  shows "\<not> manifest_validate (swap_labels (g_ID prev) m)"
proof -
  let ?gs = "mf_Generations m"
  let ?f = "\<lambda>g :: Generation. if g_Label g = LabelCurrent then g\<lparr>g_Label := LabelPending\<rparr> else g"
  let ?h = "\<lambda>g :: Generation. if g_ID g = g_ID prev then g\<lparr>g_Label := LabelCurrent\<rparr> else g"
  let ?k = "\<lambda>g :: Generation. if g_Label g = LabelPending then g\<lparr>g_Label := LabelPrevious\<rparr> else g"
  have v: "distinct (map g_ID ?gs)" "distinct (map g_Label ?gs)" using assms(1) by (auto simp: manifest_validate_def)
  have s: "cur \<in> set ?gs" "g_Label cur = LabelCurrent" "prev \<in> set ?gs" "g_Label prev = LabelPrevious" "pend \<in> set ?gs" "g_Label pend = LabelPending"
    using assms(2-4) find_label [OF v(2)] by (auto simp: byLabel_def)
  then have ids: "g_ID cur \<noteq> g_ID prev" "g_ID pend \<noteq> g_ID prev" "cur \<noteq> pend"
    using inj_onD [of g_ID "set ?gs"] v(1) by (fastforce simp: distinct_map)+
  have "mf_Generations (swap_labels (g_ID prev) m) = map (?k \<circ> ?h \<circ> ?f) ?gs"
    by (simp add: swap_labels_def Let_def relabel_is_map [OF v(2)])
  then have eq: "map g_Label (mf_Generations (swap_labels (g_ID prev) m)) = map (g_Label \<circ> (?k \<circ> ?h \<circ> ?f)) ?gs" by (simp only: map_map)
  define F where "F = g_Label \<circ> (?k \<circ> ?h \<circ> ?f)"
  have "F cur = F pend" unfolding F_def using s ids by simp
  then have "\<not> inj_on F (set ?gs)" using s(1,5) ids(3) by (auto dest: inj_onD)
  then have "\<not> distinct (map g_Label (mf_Generations (swap_labels (g_ID prev) m)))" unfolding eq F_def [symmetric] distinct_map by blast
  then show ?thesis by (simp add: manifest_validate_def)
qed

text \<open>C40: the operator who chooses the previous generation while a staged one is still retained, as it is after
  a commit whose live file a crash left ambiguous, is stuck. The live file is overwritten with the previous generation,
  then the journal is refused for its two previous labels; it still says that recovery is required, its current
  generation is not the live one, and with the choice recorded start-up recovery never looks at it again.\<close>

theorem republish_previous_stuck:
  assumes "dk_manifest d = ManifestFile m" "manifest_validate m" "mf_State m = StateRecoveryRequired"
    and "byLabel LabelCurrent m = Some cur" "byLabel LabelPrevious m = Some prev" "byLabel LabelPending m = Some pend"
    and "\<not> g_Revoked prev" "readGeneration (g_ID prev) d = Some data" "ce_sha a data = g_Fingerprint prev" "ce_validate a data \<noteq> None"
    and "ce_lock a" "ce_paths a" "ce_native a"
  shows "\<exists>d1 m1 tr. ResolveRecovery a i reads ChoosePrevious [] d = (Inl ErrManifestInvalid, [], d1, tr) \<and> dk_live d1 = LiveFile data \<and>
    dk_manifest d1 = ManifestFile m1 \<and> mf_State m1 = StateRecoveryRequired \<and> byLabel LabelCurrent m1 = Some cur \<and>
    (\<forall>b j rd rs. ce_lock b \<longrightarrow> Recover b j rd rs d1 = (Inr StateRecoveryRequired, rs, d1, []))"
proof -
  let ?m1 = "m\<lparr>mf_OperatorChoice := Some ChoosePrevious, mf_OperatorChoiceAt := ce_now a\<rparr>"
  let ?m2 = "?m1\<lparr>mf_UpdatedAt := ce_now a\<rparr>"
  let ?d1 = "d\<lparr>dk_manifest := ManifestFile ?m2, dk_live := LiveFile data\<rparr>"
  have v: "manifest_validate ?m2" using assms(2) by (simp add: manifest_validate_def)
  have lbl: "byLabel l ?m1 = byLabel l m" for l by (simp add: byLabel_def)
  have "manifest_validate x = manifest_validate y" if "mf_Version x = mf_Version y" "mf_Generations x = mf_Generations y" "mf_Transaction x = mf_Transaction y" for x y
    using that by (simp add: manifest_validate_def)
  then have bad: "\<not> manifest_validate ((clearOperatorChoice (swap_labels (g_ID prev) ?m1))\<lparr>mf_State := StateIdle, mf_UpdatedAt := ce_now a\<rparr>)"
    using swap_refused [of ?m1 cur prev pend] assms(2,4-6) lbl v by (simp add: clearOperatorChoice_def manifest_validate_def)
  have "readGeneration (g_ID prev) (d\<lparr>dk_manifest := x\<rparr>) = Some data" for x using assms(8) by (simp add: readGeneration_def)
  then have rep: "resolveRepublish a LabelPrevious ?m1 [] (d\<lparr>dk_manifest := ManifestFile ?m2\<rparr>) = (Inl ErrManifestInvalid, [], ?d1, [?d1])"
    using assms(5,7,9,10,12,13) bad
    by (simp add: resolveRepublish_def lbl andThen_def getd_def native_lock_def check_def ret_def republish_def write_live_def change_def Let_def liveFingerprint_def fingerprint_of_def saves_def saveManifest_def fails_def)
  have run: "ResolveRecovery a i reads ChoosePrevious [] d = (Inl ErrManifestInvalid, [], ?d1, [d\<lparr>dk_manifest := ManifestFile ?m2\<rparr>, ?d1])"
    using assms(1-3,11) v rep
    by (simp add: ResolveRecovery_def withProviderLock_def loadOrInit_def andThen_def check_def getd_def ret_def saves_def saveManifest_def change_def Let_def)
  have rec: "Recover b j rd rs ?d1 = (Inr StateRecoveryRequired, rs, ?d1, [])" if "ce_lock b" for b j rd rs
    using that v assms(3) by (simp add: Recover_def withProviderLock_def loadOrInit_def andThen_def check_def getd_def ret_def recoverLocked_def)
  have "byLabel LabelCurrent ?m2 = Some cur" using assms(4) by (simp add: byLabel_def)
  then show ?thesis using run rec assms(3) by (intro exI [of _ ?d1] exI [of _ ?m2] exI) (intro conjI allI impI, simp_all)
qed

text \<open>a login that is begun and aborted forgets that recovery was required, or that the credential is
  external. Beginning replaces the state by pending, so the guard in abort that keeps those two states never finds
  them, and the journal ends idle with nothing else changed.\<close>

theorem login_abort_forgets:
  assumes "dk_manifest d = ManifestFile m" "manifest_validate m" "mf_State m \<in> {StateRecoveryRequired, StateExternal}"
    and "fingerprint_of (ce_sha a) (dk_live d) = Some (fp, data)" "Fingerprint_Valid fp" "ce_lock a" "ce_paths a"
  shows "\<exists>t d1 d2 m2 tr1 tr2. Begin a deadline i txnID src [] d = (Inr t, [], d1, tr1) \<and> Abort a txnID [] d1 = (Inr (), [], d2, tr2) \<and>
    dk_live d2 = dk_live d \<and> dk_manifest d2 = ManifestFile m2 \<and> mf_State m2 = StateIdle"
proof -
  let ?t = "\<lparr>x_ID = txnID, x_ExpectedLive = fp, x_Source = src, x_CreatedAt = ce_now a, x_ActivationDeadline = ce_now a + deadline\<rparr>"
  let ?m1 = "m\<lparr>mf_Transaction := Some ?t, mf_State := StatePending\<rparr>"
  let ?d1 = "d\<lparr>dk_pending := (txnID, NoCandidate) # dk_pending d, dk_manifest := ManifestFile (?m1\<lparr>mf_UpdatedAt := ce_now a\<rparr>)\<rparr>"
  let ?m2 = "(dropLabel LabelPending (?m1\<lparr>mf_UpdatedAt := ce_now a\<rparr>))\<lparr>mf_Transaction := None, mf_State := StateIdle\<rparr>"
  have v: "manifest_validate ?m1" using assms(2,5) by (simp add: manifest_validate_def)
  have live: "fingerprint_of (ce_sha a) (dk_live (d\<lparr>dk_pending := p\<rparr>)) = Some (fp, data)" for p using assms(4) by simp
  have "ok_run (Begin a deadline i txnID src) d ?t ?d1"
    using assms(1-7) v unfolding ok_run_def
    by (auto simp: Begin_def withProviderLock_def loadOrInit_def andThen_def check_def getd_def ret_def liveFingerprint_def createPendingHome_def
      change_def Let_def onError_def attempt_def saveManifest_def)
  moreover have "\<exists>d2. ok_run (Abort a txnID) ?d1 () d2 \<and> dk_manifest d2 = ManifestFile (?m2\<lparr>mf_UpdatedAt := ce_now a\<rparr>) \<and> dk_live d2 = dk_live d"
  proof -
    have v2: "manifest_validate (?m2\<lparr>mf_UpdatedAt := ce_now a\<rparr>)" using validate_no_txn [OF validate_drop [OF assms(2), of LabelPending]] by (simp add: dropLabel_def)
    obtain d2 where d2: "ok_run (andThen (saves a ?m2) (\<lambda>_. andThen (removeTxn txnID) (\<lambda>_. pruneGenerations ?m2))) ?d1 () d2"
      "dk_manifest d2 = ManifestFile (?m2\<lparr>mf_UpdatedAt := ce_now a\<rparr>)" "dk_live d2 = dk_live ?d1"
      using ok_save_then [OF v2, of "\<lambda>_. andThen (removeTxn txnID) (\<lambda>_. pruneGenerations ?m2)" "()" ?d1, OF ok_files [OF ok_removeTxn ok_prune]] by blast
    have "ok_run (Abort a txnID) ?d1 () d2"
      unfolding Abort_def by (rule ok_lock [OF assms(6), where m = "?m1\<lparr>mf_UpdatedAt := ce_now a\<rparr>"]) (use v d2(1) in \<open>simp_all add: Let_def dropLabel_def\<close>)
    then show ?thesis using d2(2,3) by auto
  qed
  ultimately show ?thesis unfolding ok_run_def by fastforce
qed

subsection \<open>Examples\<close>

definition ex_sha :: "string \<Rightarrow> Fingerprint" where
  "ex_sha b = replicate 64 (if length b = 1 then CHR ''1'' else if length b = 2 then CHR ''2'' else CHR ''3'')"

definition ex_cenv :: cred_env where
  "ex_cenv = \<lparr>ce_sha = ex_sha, ce_validate = (\<lambda>b. Some ((meta_of_mode ''api'')\<lparr>cd_Sequence := int (length b)\<rparr>)), ce_external = False,
     ce_paths = True, ce_lock = True, ce_native = True, ce_now = 9\<rparr>"

definition ex_gen :: "string \<Rightarrow> Label \<Rightarrow> string \<Rightarrow> Generation" where
  "ex_gen i l b = generation i l (ex_sha b) ''api'' SourceSeed 1 2"

definition ex_manifest :: "State \<Rightarrow> Generation list \<Rightarrow> Manifest" where
  "ex_manifest s gs = newManifest\<lparr>mf_State := s, mf_Generations := gs\<rparr>"

definition ex_disk :: "Manifest \<Rightarrow> live_file \<Rightarrow> disk" where
  "ex_disk m l = \<lparr>dk_manifest = ManifestFile m, dk_gens = [(''g1'', ''k''), (''g2'', ''kk''), (''g0'', ''kkk'')], dk_live = l, dk_pending = []\<rparr>"

lemmas ex_defs = ex_cenv_def ex_gen_def ex_manifest_def ex_disk_def newManifest_def generation_def meta_of_mode_def

definition ex_txn :: Txn where
  "ex_txn = \<lparr>x_ID = ''t1'', x_ExpectedLive = ex_sha ''k'', x_Source = SourceDeviceAuth, x_CreatedAt = 3, x_ActivationDeadline = 8\<rparr>"

definition ex_staged :: Manifest where
  "ex_staged = (ex_manifest StatePending [ex_gen ''g1'' LabelCurrent ''k'', ex_gen ''g2'' LabelPending ''kk''])\<lparr>mf_Transaction := Some ex_txn\<rparr>"

definition ex_torn :: Manifest where
  "ex_torn = ex_manifest StateRecoveryRequired [ex_gen ''g0'' LabelPrevious ''kkk'', ex_gen ''g1'' LabelCurrent ''k'', ex_gen ''g2'' LabelPending ''kk'']"

lemma ex_sha_valid: "Fingerprint_Valid (ex_sha b)" "ex_sha b \<noteq> FingerprintAbsent"
proof -
  have "length (ex_sha b) = 64" by (simp add: ex_sha_def)
  then show "ex_sha b \<noteq> FingerprintAbsent" by (auto simp: FingerprintAbsent_def)
qed (simp add: Fingerprint_Valid_def ex_sha_def list_all_iff)

lemma ex_sha_eq: "ex_sha ''k'' \<noteq> ex_sha ''kk''" "ex_sha ''kk'' \<noteq> ex_sha ''k''" by (simp_all add: ex_sha_def)

lemma ex_valid: "manifest_validate ex_staged" "manifest_validate ex_torn"
  by (simp_all add: manifest_validate_def ex_staged_def ex_torn_def ex_txn_def ex_defs manifestVersion_def ex_sha_valid)

theorem credentials_invariant_witness:
  "\<exists>d m. (cred_step ex_sha)\<^sup>*\<^sup>* (no_disk (LiveFile ''k'')) d \<and> dk_manifest d = ManifestFile m \<and> mf_Generations m \<noteq> [] \<and> manifest_validate m \<and>
     (\<forall>g \<in> set (mf_Generations m). \<exists>data. readGeneration (g_ID g) d = Some data \<and> ex_sha data = g_Fingerprint g)"
proof -
  obtain r rs1 d1 tr where run: "run_cred ex_cenv ''g1'' OpSeed [] (no_disk (LiveFile ''k'')) = (r, rs1, d1, tr)" using prod_cases4 by blast
  have "cred_step ex_sha (no_disk (LiveFile ''k'')) d1"
    by (rule cred_run [OF run]) (simp_all add: ex_defs no_disk_def)
  then have steps: "(cred_step ex_sha)\<^sup>*\<^sup>* (no_disk (LiveFile ''k'')) d1" by blast
  have "\<exists>m. dk_manifest d1 = ManifestFile m \<and> mf_Generations m \<noteq> []" using run
    by (auto simp: Seed_def withProviderLock_def loadOrInit_def andThen_def check_def getd_def ret_def ex_defs no_disk_def seedLocked_def byLabel_def
      liveFingerprint_def fingerprint_of_def ex_sha_valid writeGeneration_def change_def Let_def saves_def saveManifest_def manifest_validate_def manifestVersion_def
      add_generation_def)
  then show ?thesis using credentials_invariant [OF steps] steps by blast
qed

lemma ex_commit:
  "\<exists>r rs1 d1 tr. Commit ex_cenv ''t1'' [Written, Written, NotWritten] (ex_disk ex_staged (LiveFile ''k'')) = (r, rs1, d1, tr) \<and>
     ex_disk (ex_staged\<lparr>mf_State := StateCommitting, mf_UpdatedAt := 9\<rparr>) (LiveFile ''kk'') \<in> set tr"
proof -
  note e = Commit_def withProviderLock_def loadOrInit_def andThen_def check_def getd_def ret_def fails_def own_txn_def ex_disk_def
    byLabel_def readGeneration_def native_lock_def publish_def liveFingerprint_def fingerprint_of_def saves_def saveManifest_def change_def Let_def write_live_def
    ex_staged_def ex_txn_def ex_manifest_def newManifest_def ex_cenv_def ex_gen_def generation_def IsZero_def after_write_def
    manifest_validate_def manifestVersion_def ex_sha_valid
  show ?thesis by (simp add: e)
qed

theorem commit_crash_atomic_witness:
  "\<exists>d2 m2 tr2. Recover ex_cenv ''g3'' [LiveFile ''kk'', LiveFile ''kk''] [] (ex_disk (ex_staged\<lparr>mf_State := StateCommitting, mf_UpdatedAt := 9\<rparr>) (LiveFile ''kk'')) =
     (Inr StateIdle, [], d2, tr2) \<and> dk_live d2 = LiveFile ''kk'' \<and> dk_manifest d2 = ManifestFile m2 \<and>
     byLabel LabelCurrent m2 = Some (ex_gen ''g2'' LabelCurrent ''kk'') \<and> byLabel LabelPrevious m2 = Some (ex_gen ''g1'' LabelPrevious ''k'')"
proof -
  let ?d = "ex_disk ex_staged (LiveFile ''k'')" and ?x = "ex_disk (ex_staged\<lparr>mf_State := StateCommitting, mf_UpdatedAt := 9\<rparr>) (LiveFile ''kk'')"
  obtain r rs1 d1 tr where run: "Commit ex_cenv ''t1'' [Written, Written, NotWritten] ?d = (r, rs1, d1, tr)" "?x \<in> set tr" using ex_commit by blast
  have inv: "cred_inv (ce_sha ex_cenv) ?d" using ex_valid(1)
    by (auto simp: cred_inv_def backed_def gen_key_def ex_staged_def ex_defs)
  have man: "dk_manifest ?d = ManifestFile ex_staged" "mf_State ex_staged = StatePending" "mf_Transaction ex_staged = Some ex_txn"
    "byLabel LabelPending ex_staged = Some (ex_gen ''g2'' LabelPending ''kk'')" "byLabel LabelCurrent ex_staged = Some (ex_gen ''g1'' LabelCurrent ''k'')"
    "dk_live ?x = LiveFile ''kk''" "dk_live ?d = LiveFile ''k''" "x_ID ex_txn = ''t1''"
    by (simp_all add: ex_staged_def ex_defs byLabel_def ex_txn_def)
  have files: "readGeneration (g_ID (ex_gen ''g2'' LabelPending ''kk'')) ?d = Some ''kk''" "fingerprint_of (ce_sha ex_cenv) (dk_live ?d) = Some (x_ExpectedLive ex_txn, ''k'')"
    "length ''kk'' \<le> MaxCredentialBytes" "length ''k'' \<le> MaxCredentialBytes" "ce_lock ex_cenv" "ce_paths ex_cenv"
    by (simp_all add: readGeneration_def ex_defs ex_txn_def fingerprint_of_def MaxCredentialBytes_def)
  have relabel: "(ex_gen j l b)\<lparr>g_Label := l'\<rparr> = ex_gen j l' b" for j l l' b by (simp add: ex_gen_def generation_def)
  from commit_crash_atomic [OF inv man(1-4) files(1) _ files(3,2,4) run(1) [folded man(8)], of ?x ex_cenv "''g3''"] run(2) files(5,6)
  show ?thesis unfolding man(5-7) by (auto simp: relabel)
qed

theorem adoption_keeps_state_witness:
  "\<exists>d1 m1 tr. Recover ex_cenv ''g2'' [LiveFile ''kk'', LiveFile ''kk''] [] (ex_disk (ex_manifest StateRecoveryRequired [ex_gen ''g1'' LabelCurrent ''k'']) (LiveFile ''kk'')) =
     (Inr StateIdle, [], d1, tr) \<and> dk_manifest d1 = ManifestFile m1 \<and> mf_State m1 = StateRecoveryRequired"
proof -
  let ?m = "ex_manifest StateRecoveryRequired [ex_gen ''g1'' LabelCurrent ''k'']" let ?d = "ex_disk ?m (LiveFile ''kk'')"
  have m: "dk_manifest ?d = ManifestFile ?m" "manifest_validate ?m" "mf_State ?m = StateRecoveryRequired" "mf_OperatorChoice ?m = None"
    "byLabel LabelCurrent ?m = Some (ex_gen ''g1'' LabelCurrent ''k'')" "byLabel LabelPending ?m = None" "dk_live ?d = LiveFile ''kk''"
    "''g2'' \<notin> g_ID ` set (mf_Generations ?m)"
    by (simp_all add: manifest_validate_def ex_defs manifestVersion_def ex_sha_valid byLabel_def)
  have e: "length ''kk'' \<le> MaxCredentialBytes" "ce_validate ex_cenv ''kk'' = Some ((meta_of_mode ''api'')\<lparr>cd_Sequence := 2\<rparr>)"
    "NotOlder ((meta_of_mode ''api'')\<lparr>cd_Sequence := 2\<rparr>) (metaOf ex_cenv ?d (ex_gen ''g1'' LabelCurrent ''k''))"
    "ce_sha ex_cenv ''kk'' \<noteq> g_Fingerprint (ex_gen ''g1'' LabelCurrent ''k'')" "ce_sha ex_cenv = ex_sha" "ce_lock ex_cenv" "ce_paths ex_cenv"
    using ex_sha_eq by (simp_all add: MaxCredentialBytes_def ex_defs metaOf_def readGeneration_def NotOlder_def order_meta_def IsZero_def)
  from adoption_keeps_state [OF m(1,2) _ m(4-7) _ e(1,2,4,3) _ _ _ m(8) e(6,7)] m(3) e(5) ex_sha_valid show ?thesis by auto
qed

theorem republish_previous_stuck_witness:
  "\<exists>d1 m1 tr. ResolveRecovery ex_cenv ''g4'' [] ChoosePrevious [] (ex_disk ex_torn (LiveFile ''k'')) = (Inl ErrManifestInvalid, [], d1, tr) \<and>
     dk_live d1 = LiveFile ''kkk'' \<and> dk_manifest d1 = ManifestFile m1 \<and> byLabel LabelCurrent m1 = Some (ex_gen ''g1'' LabelCurrent ''k'') \<and>
     Recover ex_cenv ''g4'' [] [] d1 = (Inr StateRecoveryRequired, [], d1, [])"
proof -
  let ?d = "ex_disk ex_torn (LiveFile ''k'')"
  have m: "dk_manifest ?d = ManifestFile ex_torn" "mf_State ex_torn = StateRecoveryRequired" "byLabel LabelCurrent ex_torn = Some (ex_gen ''g1'' LabelCurrent ''k'')"
    "byLabel LabelPrevious ex_torn = Some (ex_gen ''g0'' LabelPrevious ''kkk'')" "byLabel LabelPending ex_torn = Some (ex_gen ''g2'' LabelPending ''kk'')"
    by (simp_all add: ex_torn_def ex_defs byLabel_def)
  have e: "\<not> g_Revoked (ex_gen ''g0'' LabelPrevious ''kkk'')" "readGeneration (g_ID (ex_gen ''g0'' LabelPrevious ''kkk'')) ?d = Some ''kkk''"
    "ce_sha ex_cenv ''kkk'' = g_Fingerprint (ex_gen ''g0'' LabelPrevious ''kkk'')" "ce_validate ex_cenv ''kkk'' \<noteq> None" "ce_lock ex_cenv" "ce_paths ex_cenv" "ce_native ex_cenv"
    by (simp_all add: ex_defs readGeneration_def)
  from republish_previous_stuck [OF m(1) ex_valid(2) m(2-5) e, of "''g4''" "[]"] e(5) show ?thesis by blast
qed

theorem login_abort_forgets_witness:
  "\<exists>t d1 d2 m2 tr1 tr2. Begin ex_cenv 5 ''g4'' ''t1'' SourceAPIKey [] (ex_disk ex_torn (LiveFile ''k'')) = (Inr t, [], d1, tr1) \<and>
     Abort ex_cenv ''t1'' [] d1 = (Inr (), [], d2, tr2) \<and> dk_live d2 = LiveFile ''k'' \<and> dk_manifest d2 = ManifestFile m2 \<and> mf_State m2 = StateIdle"
proof -
  have "dk_manifest (ex_disk ex_torn (LiveFile ''k'')) = ManifestFile ex_torn" "mf_State ex_torn \<in> {StateRecoveryRequired, StateExternal}"
    "fingerprint_of (ce_sha ex_cenv) (dk_live (ex_disk ex_torn (LiveFile ''k''))) = Some (ex_sha ''k'', ''k'')" "ce_lock ex_cenv" "ce_paths ex_cenv"
    "dk_live (ex_disk ex_torn (LiveFile ''k'')) = LiveFile ''k''"
    by (simp_all add: ex_torn_def ex_defs fingerprint_of_def)
  from login_abort_forgets [OF this(1) ex_valid(2) this(2,3) ex_sha_valid(1) this(4,5), of 5 "''g4''" "''t1''" SourceAPIKey] this(6) show ?thesis by simp
qed
end
