(* ===== verification/Spec2Isabelle.thy ===== *)
theory Spec2Isabelle
  imports Create Transcript Pump Receipts Glob Gateway RelayHub GlobalBudget Paging Ownership Emitter StderrTail Command Credentials
begin

text \<open>
  The program. \<open>mcremote\<close> is a daemon that runs coding agents on a host and lets paired
  phones drive them over a WebSocket; \<open>mcrelay\<close> is a small public relay that joins a phone to a
  daemon behind NAT. Provider adapters (\<open>internal/provider\<close>) turn an agent's wire protocol into
  events; the session manager (\<open>internal/session\<close>) records the events in a per-session history
  ring, forwards them and decides who may act on a session; the gateway (\<open>internal/ws\<close>)
  authenticates connections, runs requests at most once and sends events; the auth store
  (\<open>internal/auth\<close>) keeps the paired devices and the pairing codes; receipts
  (\<open>internal/receipt\<close>) are a signed, hash-chained log of permission decisions; the relay
  (\<open>internal/relay\<close>) keeps hosts, pending joins and tunnels.

  Conventions. A Go string is its bytes; a \<open>time.Time\<close> is a number of nanoseconds; a pointer is
  an option; a map whose iteration order the code lets show is an association list or takes the order
  as an argument; a mutex-protected method is one atomic function of the state it guards, and code that
  releases the lock in between is split at that point, so that interleavings are step relations. Errors
  are values of a sum type. What the code takes from the operating system, from a random source or
  from cryptography (the outcome of each system call, random bytes, SHA-256, Ed25519, JSON encoding of
  a caller's values) is an argument of the definitions that use it, and what is needed of it is a named
  hypothesis of the theorem, with a witness that instantiates it.

  Theories, and what they model.

  \<^item> \<open>Prelude\<close>, \<open>GoText\<close>: shared vocabulary; the string functions of the standard library;
    the contracts \<open>conserving_stream\<close> (nothing lost, nothing reordered) and \<open>expiring\<close> (when
    expired entries are purged cannot be observed).
  \<^item> \<open>Event\<close>, \<open>Retention\<close>: \<open>internal/event\<close> -- the event and its parts with every field,
    the delivery predicates, retention classes, the byte estimate with Go's struct layout, the notice
    and command dedupers.
  \<^item> \<open>Chunkbuf\<close>: \<open>internal/chunkbuf\<close> -- the coalescer of streamed text and tool updates; text
    and tool updates come out in order and complete (interpretations \<open>text_stream\<close> and
    \<open>tool_stream\<close> of \<open>conserving_stream\<close>).
  \<^item> \<open>Emitter\<close>: \<open>Emit\<close> and the flush timers of the \<open>httpagent\<close>, \<open>codex\<close> and
    \<open>acpagent\<close> sessions around that buffer, as a step relation of concurrent emitters; nothing
    is lost, pending text is flushed.
  \<^item> \<open>History\<close>, \<open>GlobalBudget\<close>, \<open>Paging\<close>: the replay ring of \<open>session/manager.go\<close>
    (append, native identity, replay de-duplication through a hash index, eviction by class and
    sequence, removal of turns), the daemon-wide budget over all rings, and the pages read from a ring
    or from the stored rows. The eviction rule is proved once in the locale \<open>ring_eviction\<close> and
    interpreted on the model's classes and sizes (\<open>class_eviction\<close>).
  \<^item> \<open>ToolOutput\<close>, \<open>Turn\<close>, \<open>Pump\<close>: the life of one event in \<open>session/manager.go\<close> -- large
    tool outputs cut and kept for later, what an event does to its session under the manager's lock
    (metadata, names, usage, context pressure, turn clock, silent commands, open asks), and the pump with
    everything it triggers. Pumps, emitters, closing and replacing interleave at the grain of the
    critical sections in the step relation \<open>dstep\<close>; events still reach clients in order, and what
    a client believes to be open is what the daemon has pending.
  \<^item> \<open>Transcript\<close>: the durable transcripts of \<open>session/store.go\<close> and their single writer with
    generations; flushes, closing, deleting and creating interleave in \<open>tstep\<close>, in which a
    snapshot is written later than it is taken.
  \<^item> \<open>Create\<close>: starting, resuming and replacing a session (\<open>create\<close> of \<open>session/manager.go\<close>) with
    the limit on live sessions; creates of several sessions interleave in \<open>cstep\<close>.
  \<^item> \<open>AtomicWrite\<close>: \<open>internal/fsutil/atomic.go\<close> over every outcome of its system calls, with
    crashes; the contract \<open>atomic_store\<close>, interpreted as \<open>afile\<close>.
  \<^item> \<open>Ownership\<close>: \<open>Authorize\<close>, \<open>Release\<close>, \<open>Claim\<close>, close, delete, the session
    records and the listing of \<open>session/manager.go\<close> and \<open>store.go\<close>, with the lock protocol as a
    step relation; who owns a session changes only by the protocol, and a change that was reported is
    on disk.
  \<^item> \<open>Pairing\<close>, \<open>Devices\<close>: \<open>internal/auth\<close> -- rejection sampling of codes, one-shot codes
    with claim and restore, and the device store over a shared file with several processes (contract
    \<open>shared_file\<close>, interpreted as \<open>devs\<close>); a revoked token is dead for good.
  \<^item> \<open>Ledger\<close>: \<open>ws/idempotency.go\<close> and \<open>resume.go\<close> -- a retried request runs once and
    gets the first answer; resume tokens (interpretations \<open>codes\<close> and \<open>resumes\<close> of
    \<open>expiring\<close>).
  \<^item> \<open>Gateway\<close>: the connection table, authentication, pairing, revocation and event delivery of
    \<open>ws/server.go\<close>; an identity is only ever earned by a credential, one socket per device, a
    pairing is atomic over code store and device store.
  \<^item> \<open>RelayHub\<close>: \<open>relay/hub.go\<close> and the join handlers of \<open>relay/server.go\<close>; every slot
    taken is given back exactly once, a join follows its protocol.
  \<^item> \<open>Jws\<close>, \<open>Receipts\<close>, \<open>Glob\<close>: \<open>internal/receipt\<close> -- base64url and compact
    signatures, statements, the chained append-only store and its verification, the shell patterns
    that select which decisions get a receipt.
  \<^item> \<open>Command\<close>: \<open>internal/command\<close>, the providers' command tables, and the routing of a prompt in
    \<open>session/commands.go\<close> and \<open>manager.go\<close> -- the vocabulary, what a command resolves to in a session, what
    reaches the agent, and the confirmation without which no unsandboxed shell command runs
    (step relation \<open>shstep\<close>).
  \<^item> \<open>StderrTail\<close>: \<open>internal/provider/stderrtail\<close> -- the end of an agent's standard error that
    goes into error messages: what the caps keep of it, which values are secrets, and their removal.
  \<^item> \<open>Credentials\<close>: \<open>internal/providerauth\<close> (manifest, store, transaction, reconcile, recovery) -- a
    provider's live credential, its journal and its retained generations. An operation is an action over the disk that
    also yields every disk in between, so that a crash is one of them (step relation \<open>cred_step\<close>); what the journal
    promises at all times, and that a commit cut short anywhere is settled by recovery.

  Properties. Each component has its invariant, preserved by every operation; the functional behaviour
  of the operations that matter; where there is an abstract contract, a refinement. Theorems of kind
  error pin down what the code does in cases its comments do not foresee (a revocation that races an
  authentication, concurrent receipts, handed-off events); they are the findings of the manifest.

  Bounds. Recursions are structural or have a measure; rejection sampling takes the random bytes as a
  list, and the theorem says how many suffice. Counters that the code lets wrap are words; lengths and
  byte totals, which are bounded by the memory of the process, are natural numbers.

  Not modelled. Pure input and output and glue: the command line, daemon start-up, logging, service
  installation, TLS certificates, update client, process spawning, configuration files. The provider
  adapters' wire protocols (ACP, Codex, opencode, Kilo, Grok): each is a translation of a third-party
  protocol into events; only the event sink they share is modelled. The mobile application is another
  language. Go's memory model is not modelled: a lock makes its critical section atomic.
\<close>


end
